(* ===== verification/Prelude.thy ===== *)
theory Prelude
  imports Main "HOL-Library.Word"
begin

text \<open>
  Shared vocabulary of the development: the machine integer types of the C code, C buffers as
  byte lists with bounded copies (\<open>memcpy\<close>, \<open>memset\<close>), and the circular window \<open>ring_slice\<close>
  through which every array used as a ring (the byte queue, the deque, the shared ring buffers)
  is read as a list.
\<close>

unbundle bit_operations_syntax

type_synonym u8 = "8 word"
type_synonym u16 = "16 word"
type_synonym u32 = "32 word"
type_synonym u64 = "64 word"
type_synonym bytes = "u8 list"

named_theorems c_consts "the numeric constants of the C headers"
named_theorems ring "facts on circular windows"
named_theorems lens "lengths of buffers"

subsection \<open>C buffers\<close>

text \<open>\<^verbatim>\<open>memcpy(buf + off, src, len(src))\<close> and \<^verbatim>\<open>memset(buf + off, v, n)\<close> on a buffer that is long enough.\<close>

definition memcpy :: "'a list \<Rightarrow> nat \<Rightarrow> 'a list \<Rightarrow> 'a list" where
  "memcpy buf off src = take off buf @ src @ drop (off + length src) buf"

definition memset :: "'a list \<Rightarrow> nat \<Rightarrow> 'a \<Rightarrow> nat \<Rightarrow> 'a list" where
  "memset buf off v n = memcpy buf off (replicate n v)"

lemma length_memcpy [simp, lens]:
  "off + length src \<le> length buf \<Longrightarrow> length (memcpy buf off src) = length buf"
  by (simp add: memcpy_def)

lemma length_memset [simp, lens]:
  "off + n \<le> length buf \<Longrightarrow> length (memset buf off v n) = length buf"
  by (simp add: memset_def)

lemma take_drop_memcpy [simp]:
  "off + length src \<le> length buf \<Longrightarrow> take (length src) (drop off (memcpy buf off src)) = src"
  by (simp add: memcpy_def)

lemma take_memcpy_before:
  "n \<le> off \<Longrightarrow> off \<le> length buf \<Longrightarrow> take n (memcpy buf off src) = take n buf"
  by (simp add: memcpy_def)

lemma drop_memcpy_after:
  "off + length src \<le> n \<Longrightarrow> off + length src \<le> length buf \<Longrightarrow> drop n (memcpy buf off src) = drop n buf"
  by (simp add: memcpy_def drop_append)

lemma memcpy_all [simp]: "length src = length buf \<Longrightarrow> memcpy buf 0 src = src"
  by (simp add: memcpy_def)

lemma memcpy_snoc:
  "off < length buf \<Longrightarrow> memcpy (memcpy buf off [x]) (Suc off) ys = memcpy buf off (x # ys)"
  by (simp add: memcpy_def min_def add.commute)

subsection \<open>Circular windows\<close>

text \<open>The \<open>n\<close> elements of the array \<open>buf\<close> from index \<open>h\<close> on, wrapping at its end.\<close>

definition ring_slice :: "'a list \<Rightarrow> nat \<Rightarrow> nat \<Rightarrow> 'a list" where
  "ring_slice buf h n = map (\<lambda>i. buf ! ((h + i) mod length buf)) [0..<n]"

lemma length_ring_slice [simp]: "length (ring_slice buf h n) = n"
  by (simp add: ring_slice_def)

lemma ring_slice_0 [simp]: "ring_slice buf h 0 = []"
  by (simp add: ring_slice_def)

lemma ring_slice_eq_Nil [simp]: "ring_slice buf h n = [] \<longleftrightarrow> n = 0"
  by (simp add: ring_slice_def)

lemma nth_ring_slice [simp]: "i < n \<Longrightarrow> ring_slice buf h n ! i = buf ! ((h + i) mod length buf)"
  by (simp add: ring_slice_def)

lemma ring_index_inj:
  fixes N :: nat
  assumes "(h + i) mod N = (h + j) mod N" "i < N" "j < N"
  shows "i = j"
proof (rule ccontr)
  assume ne: "i \<noteq> j"
  have *: "i = j" if "i \<le> j" "(h + i) mod N = (h + j) mod N" "j < N" for i j
  proof -
    have "N dvd (h + j) - (h + i)" using that by (metis mod_eq_dvd_iff_nat nat_add_left_cancel_le)
    then have "N dvd j - i" by simp
    moreover have "j - i < N" using that by simp
    ultimately show "i = j" using that(1) by (metis diff_is_0_eq dvd_imp_le le_antisym not_le zero_less_iff_neq_zero)
  qed
  show False using *[of i j] *[of j i] assms ne by (cases "i \<le> j") auto
qed

lemma ring_slice_update_outside [ring]:
  assumes "n \<le> m" "m < length buf"
  shows "ring_slice (buf[(h + m) mod length buf := x]) h n = ring_slice buf h n"
proof (rule nth_equalityI)
  fix i assume "i < length (ring_slice (buf[(h + m) mod length buf := x]) h n)"
  then have i: "i < n" by simp
  then have "(h + i) mod length buf \<noteq> (h + m) mod length buf"
    using ring_index_inj[of h i "length buf" m] assms by auto
  with i show "ring_slice (buf[(h + m) mod length buf := x]) h n ! i = ring_slice buf h n ! i"
    by (metis length_list_update nth_list_update_neq nth_ring_slice)
qed simp

lemma ring_slice_Suc [ring]:
  "ring_slice buf h (Suc n) = ring_slice buf h n @ [buf ! ((h + n) mod length buf)]"
  by (simp add: ring_slice_def)

lemma ring_slice_snoc [ring]:
  assumes "n < length buf"
  shows "ring_slice (buf[(h + n) mod length buf := x]) h (Suc n) = ring_slice buf h n @ [x]"
proof -
  have "(h + n) mod length buf < length buf" using assms by (intro mod_less_divisor) auto
  then have "buf[(h + n) mod length buf := x] ! ((h + n) mod length buf) = x"
    by (rule nth_list_update_eq)
  then show ?thesis
    using ring_slice_update_outside[of n n buf h x] assms by (simp add: ring_slice_Suc)
qed

lemma ring_slice_Cons [ring]:
  "ring_slice buf h (Suc n) = buf ! (h mod length buf) # ring_slice buf (Suc h) n"
  by (rule nth_equalityI) (auto simp: nth_Cons split: nat.splits)

lemma ring_slice_mod [ring, simp]: "ring_slice buf (h mod length buf) n = ring_slice buf h n"
  by (rule nth_equalityI) (auto simp: mod_add_left_eq)

lemma ring_slice_push_front [ring]:
  assumes "n < length buf" "h < length buf"
  shows "ring_slice (buf[(h + length buf - 1) mod length buf := x]) (h + length buf - 1) (Suc n)
       = x # ring_slice buf h n"
proof -
  let ?N = "length buf"
  let ?k = "h + ?N - 1"
  have "?k mod ?N < ?N" using assms by (intro mod_less_divisor) auto
  then have hd: "buf[?k mod ?N := x] ! (?k mod ?N) = x" by simp
  have Suc: "Suc ?k = h + ?N" using assms by simp
  have "?k mod ?N = (h + (?N - 1)) mod ?N" using assms by (intro arg_cong2[where f = "(mod)"]) auto
  then have "ring_slice (buf[?k mod ?N := x]) (Suc ?k) n = ring_slice buf h n"
    unfolding Suc using ring_slice_update_outside[of n "?N - 1" buf h x] assms
      ring_slice_mod[of "buf[?k mod ?N := x]" "h + ?N" n]
      ring_slice_mod[of "buf[?k mod ?N := x]" "h" n]
    by (simp del: ring_slice_mod)
  with hd show ?thesis by (simp add: ring_slice_Cons)
qed

lemma ring_slice_append [ring]:
  "ring_slice buf h (m + n) = ring_slice buf h m @ ring_slice buf (h + m) n"
  by (rule nth_equalityI) (auto simp: nth_append algebra_simps)

subsection \<open>Words\<close>

lemma unat_mod_word [simp]: "unat (a mod b) = unat a mod unat (b :: 'a::len word)"
  by (simp add: unat_mod)

lemma unat_inc: "unat (a :: 'a::len word) < 2 ^ LENGTH('a) - 1 \<Longrightarrow> unat (a + 1) = Suc (unat a)"
  by (simp add: unat_word_ariths)

lemma unat_dec: "a \<noteq> 0 \<Longrightarrow> unat (a - 1) = unat (a :: 'a::len word) - 1"
  by (metis One_nat_def unat_minus_one)

text \<open>
  Maps that are linear over exclusive or agree if they agree on the single bits: the argument
  behind every table and shift-register proof below.
\<close>

definition xor_linear :: "('a::len word \<Rightarrow> 'b::len word) \<Rightarrow> bool" where
  "xor_linear f \<longleftrightarrow> (\<forall>a b. f (a XOR b) = f a XOR f b)"

lemma xor_linearI: "(\<And>a b. f (a XOR b) = f a XOR f b) \<Longrightarrow> xor_linear f"
  by (simp add: xor_linear_def)

lemma xor_linearD: "xor_linear f \<Longrightarrow> f (a XOR b) = f a XOR f b"
  by (simp add: xor_linear_def)

lemma xor_linear_0: "xor_linear f \<Longrightarrow> f 0 = 0"
  using xor_linearD[of f 0 0] by simp

lemma xor_linear_comp: "xor_linear f \<Longrightarrow> xor_linear g \<Longrightarrow> xor_linear (\<lambda>x. f (g x))"
  by (simp add: xor_linear_def)

lemma xor_linear_xor: "xor_linear f \<Longrightarrow> xor_linear g \<Longrightarrow> xor_linear (\<lambda>x. f x XOR g x)"
  by (simp add: xor_linear_def ac_simps)

lemma xor_linear_funpow: "xor_linear f \<Longrightarrow> xor_linear (f ^^ k)" for f :: "'a::len word \<Rightarrow> 'a word"
  unfolding xor_linear_def by (induction k) simp_all

lemma xor_linear_id: "xor_linear (\<lambda>x. x)"
  by (simp add: xor_linear_def)

lemma xor_linear_push_bit: "xor_linear (push_bit n)"
  by (simp add: xor_linear_def push_bit_xor)

lemma xor_linear_drop_bit: "xor_linear (drop_bit n)"
  by (simp add: xor_linear_def drop_bit_xor)

lemma ucast_xor: "ucast (a XOR b) = (ucast a XOR ucast b :: 'b::len word)" for a b :: "'a::len word"
  by (rule bit_word_eqI) (auto simp: bit_simps)

lemma xor_linear_ucast: "xor_linear (ucast :: 'a::len word \<Rightarrow> 'b::len word)"
  by (rule xor_linearI) (rule ucast_xor)

lemma funpow_8: "(f ^^ 8) x = f (f (f (f (f (f (f (f x)))))))"
  by (simp add: eval_nat_numeral)

lemmas xor_linear_intros =
  xor_linear_id xor_linear_push_bit xor_linear_drop_bit xor_linear_ucast xor_linear_xor

lemma take_bit_Suc_xor:
  "take_bit (Suc n) x = take_bit n x XOR (if bit x n then 2 ^ n else 0)" for x :: "'a::len word"
  by (rule bit_word_eqI) (auto simp: bit_simps less_Suc_eq)

lemma xor_linear_eqI:
  fixes f g :: "'a::len word \<Rightarrow> 'b::len word"
  assumes f: "xor_linear f" and g: "xor_linear g"
    and basis: "\<And>i. i < LENGTH('a) \<Longrightarrow> f (2 ^ i) = g (2 ^ i)"
  shows "f x = g x"
proof -
  have "f (take_bit n x) = g (take_bit n x)" if "n \<le> LENGTH('a)" for n
    using that
  proof (induction n)
    case 0
    then show ?case by (simp add: xor_linear_0 f g)
  next
    case (Suc n)
    then show ?case
      by (simp add: take_bit_Suc_xor xor_linearD[OF f] xor_linearD[OF g] basis
          xor_linear_0[OF f] xor_linear_0[OF g])
  qed
  from this[of "LENGTH('a)"] show ?thesis by (simp add: take_bit_length_eq)
qed

lemma shifts_rotr:
  fixes x :: "'a::len word"
  assumes "0 < k" "k < LENGTH('a)"
  shows "drop_bit k x OR push_bit (LENGTH('a) - k) x = word_rotr k x"
proof (rule bit_word_eqI)
  fix n assume n: "n < LENGTH('a)"
  show "bit (drop_bit k x OR push_bit (LENGTH('a) - k) x) n = bit (word_rotr k x) n"
  proof (cases "n + k < LENGTH('a)")
    case True
    then show ?thesis using assms by (auto simp: bit_simps add.commute)
  next
    case False
    then have "(k + n) mod LENGTH('a) = n - (LENGTH('a) - k)" using n assms by (simp add: mod_if add.commute)
    moreover have "\<not> bit x (k + n)" using False by (auto simp: add.commute dest: bit_imp_le_length)
    ultimately show ?thesis using False n assms by (auto simp: bit_simps add.commute)
  qed
qed

lemma push_byte_or: "push_bit 8 a OR ucast b = a * 256 + ucast b" for a :: "'a::len word" and b :: u8
proof -
  have "push_bit 8 a AND ucast b = 0" by (rule bit_word_eqI) (auto simp: bit_simps dest: bit_imp_le_length)
  then show ?thesis using disjunctive_add_eq_or[of "push_bit 8 a" "ucast b"] by (simp add: push_bit_eq_mult)
qed

subsection \<open>Big-endian numbers\<close>

definition be_bytes :: "nat \<Rightarrow> nat \<Rightarrow> bytes" where
  "be_bytes n v = map (\<lambda>i. word_of_nat (v div 256 ^ (n - 1 - i))) [0..<n]"

definition be_val :: "bytes \<Rightarrow> nat" where
  "be_val xs = foldl (\<lambda>a b. a * 256 + unat b) 0 xs"

lemma length_be_bytes [simp]: "length (be_bytes n v) = n"
  by (simp add: be_bytes_def)

lemma nth_be_bytes: "i < n \<Longrightarrow> be_bytes n v ! i = word_of_nat (v div 256 ^ (n - 1 - i))"
  by (simp add: be_bytes_def)

lemma word_of_nat_unat: "word_of_nat (unat (w :: 'a::len word)) = (ucast w :: 'b::len word)"
  by (simp add: unsigned_of_nat)

lemma ucast_drop_byte: "(ucast (drop_bit (8 * k) w) :: u8) = word_of_nat (unat w div 256 ^ k)" for w :: "'a::len word"
proof -
  have "unat (drop_bit (8 * k) w) = unat w div 2 ^ (8 * k)" 
    by (subst unsigned_drop_bit_eq) (simp only: take_bit_nat_eq_self[OF unsigned_less[of w]] drop_bit_eq_div)
  also have "(2 :: nat) ^ (8 * k) = 256 ^ k" by (simp add: power_mult)
  finally show ?thesis by (metis word_of_nat_unat)
qed

end
