(* ===== verification/Ring_Buffer.thy ===== *)
theory Ring_Buffer
  imports Prelude
begin

text \<open>
  The single-producer ring buffers that the receive threads fill (\<^verbatim>\<open>apps/key-exchange/components/Pixhawk/src/Pixhawk.c\<close> and
  \<^verbatim>\<open>Telemetry.c\<close>, which is the same code on another port) and the four loops that read them: \<^verbatim>\<open>read_message\<close> and
  \<^verbatim>\<open>read_from_telemetry\<close> (\<^verbatim>\<open>KeyExchange.c\<close>) on the two key-exchange buffers, \<^verbatim>\<open>run\<close> (\<^verbatim>\<open>Encrypt.c\<close>) and \<^verbatim>\<open>read_byte\<close> with
  \<^verbatim>\<open>read_buffer\<close> (\<^verbatim>\<open>Decrypt.c\<close>) on the two relay buffers.  The threads interleave at every access to shared memory; the
  acquire and release calls of the dataports order these accesses.  The code never compares \<^verbatim>\<open>tail\<close> with the reader's
  position, so the first-in-first-out theorem is about paced runs, in which the writer stays less than a buffer ahead;
  what happens otherwise is a theorem too.
\<close>

abbreviation (input) RING_BUFFER_SIZE :: nat where "RING_BUFFER_SIZE \<equiv> 2048"

record ring_buffer_t =
  rb_buffer :: bytes
  rb_head :: u32
  rb_tail :: u32

definition ring_reset :: "ring_buffer_t \<Rightarrow> ring_buffer_t" where
  "ring_reset rb = rb\<lparr>rb_head := 0, rb_tail := 0\<rparr>"

text \<open>
  One direction of a ring buffer with its reader: \<open>r_head\<close> is the reader's local position, \<open>r_tail\<close> its copy of \<^verbatim>\<open>tail\<close> while it
  is in the inner loop.  \<open>stored\<close> and \<open>handled\<close> record the bytes given to the writer and to the reader's handler.
\<close>

record chan =
  ring :: ring_buffer_t
  r_head :: u32
  r_tail :: "u32 option"
  stored :: bytes
  handled :: bytes

text \<open>The loop of \<^verbatim>\<open>Encrypt.c\<close>.\<close>

definition reader_step :: "chan \<Rightarrow> chan" where
  "reader_step ch =
     (case r_tail ch of
        None \<Rightarrow> ch\<lparr>r_tail := Some (rb_tail (ring ch))\<rparr>
      | Some tail \<Rightarrow>
          if r_head ch \<noteq> tail
          then ch\<lparr>handled := handled ch @ [rb_buffer (ring ch) ! unat (r_head ch)], r_head := (r_head ch + 1) mod 2048\<rparr>
          else ch\<lparr>r_tail := None\<rparr>)"

text \<open>
  \<^verbatim>\<open>read_byte\<close> and \<^verbatim>\<open>read_buffer\<close> of \<^verbatim>\<open>Decrypt.c\<close>.  \<open>reload\<close>: the next access is a load of \<^verbatim>\<open>tail\<close>, which is so after the one byte of \<^verbatim>\<open>read_byte\<close>
  and after the last byte \<^verbatim>\<open>read_buffer\<close> was asked for.
\<close>

definition decrypt_read_step :: "bool \<Rightarrow> chan \<Rightarrow> chan" where
  "decrypt_read_step reload ch =
     (case r_tail ch of
        None \<Rightarrow> ch\<lparr>r_tail := Some (rb_tail (ring ch))\<rparr>
      | Some tail \<Rightarrow>
          if r_head ch \<noteq> tail
          then ch\<lparr>handled := handled ch @ [rb_buffer (ring ch) ! unat (r_head ch)], r_head := (r_head ch + 1) mod 2048,
            r_tail := if reload then None else Some tail\<rparr>
          else ch\<lparr>r_tail := None\<rparr>)"

section \<open>The receive thread\<close>

datatype rx_pc = RX_LOOP | RX_GETCHAR | RX_LOAD | RX_STORE | RX_ADVANCE

text \<open>
  \<open>on_key\<close>: the thread is in its first loop, which fills the key-exchange buffer.  \<open>got\<close> records what the device delivered,
  \<open>key_calls\<close> the bytes that each finished call of \<^verbatim>\<open>read_message\<close> or \<^verbatim>\<open>read_from_telemetry\<close> took from the key-exchange buffer.
\<close>

record rx_thread =
  use_ringbuffer_key :: bool
  on_key :: bool
  rx_pc :: rx_pc
  rx_c :: int
  rx_tail :: u32
  key_ch :: chan
  main_ch :: chan
  got :: bytes
  key_calls :: "bytes list"

definition cur_ch :: "rx_thread \<Rightarrow> chan" where
  "cur_ch s = (if on_key s then key_ch s else main_ch s)"

definition set_ch :: "chan \<Rightarrow> rx_thread \<Rightarrow> rx_thread" where
  "set_ch ch s = (if on_key s then s\<lparr>key_ch := ch\<rparr> else s\<lparr>main_ch := ch\<rparr>)"

definition rx_pre_init :: "rx_thread \<Rightarrow> rx_thread" where
  "rx_pre_init s = s\<lparr>main_ch := (main_ch s)\<lparr>ring := ring_reset (ring (main_ch s))\<rparr>,
     key_ch := (key_ch s)\<lparr>ring := ring_reset (ring (key_ch s))\<rparr>\<rparr>"

definition switch_callback :: "rx_thread \<Rightarrow> rx_thread" where
  "switch_callback s = s\<lparr>use_ringbuffer_key := False\<rparr>"

text \<open>
  One step of \<^verbatim>\<open>run\<close>; \<open>g\<close> is what \<^verbatim>\<open>ps_cdev_getchar\<close> returns, \<open>None\<close> for \<^verbatim>\<open>EOF\<close>.  When the flag is cleared while the first loop
  waits, the loop ends without a new character and \<^verbatim>\<open>c\<close> is stored as it is.
\<close>

definition rx_step :: "u8 option \<Rightarrow> rx_thread \<Rightarrow> rx_thread" where
  "rx_step g s =
     (case rx_pc s of
        RX_LOOP \<Rightarrow> if use_ringbuffer_key s then s\<lparr>rx_pc := RX_GETCHAR\<rparr> else s\<lparr>on_key := False, rx_pc := RX_GETCHAR\<rparr>
      | RX_GETCHAR \<Rightarrow>
          if on_key s \<and> \<not> use_ringbuffer_key s
          then set_ch ((cur_ch s)\<lparr>stored := stored (cur_ch s) @ [word_of_int (rx_c s)]\<rparr>) s\<lparr>rx_pc := RX_LOAD\<rparr>
          else (case g of
                  None \<Rightarrow> s\<lparr>rx_c := -1\<rparr>
                | Some c \<Rightarrow> set_ch ((cur_ch s)\<lparr>stored := stored (cur_ch s) @ [c]\<rparr>) s\<lparr>rx_c := uint c, rx_pc := RX_LOAD, got := got s @ [c]\<rparr>)
      | RX_LOAD \<Rightarrow> s\<lparr>rx_tail := rb_tail (ring (cur_ch s)), rx_pc := RX_STORE\<rparr>
      | RX_STORE \<Rightarrow>
          set_ch ((cur_ch s)\<lparr>ring := (ring (cur_ch s))\<lparr>rb_buffer := (rb_buffer (ring (cur_ch s)))[unat (rx_tail s) := word_of_int (rx_c s)]\<rparr>\<rparr>) s
            \<lparr>rx_pc := RX_ADVANCE\<rparr>
      | RX_ADVANCE \<Rightarrow>
          set_ch ((cur_ch s)\<lparr>ring := (ring (cur_ch s))\<lparr>rb_tail := (rx_tail s + 1) mod 2048\<rparr>\<rparr>) s
            \<lparr>rx_tail := (rx_tail s + 1) mod 2048, rx_pc := (if on_key s then RX_LOOP else RX_GETCHAR)\<rparr>)"

section \<open>The readers of the key-exchange buffers\<close>

text \<open>
  \<^verbatim>\<open>read_message\<close>, called again and again; \<open>ok\<close> is whether \<^verbatim>\<open>my_mavlink_parse_char\<close> completes a message with the byte.  It then returns from
  inside the loop, does not store its position, and the next call starts at \<^verbatim>\<open>head\<close> again; \<open>handled\<close> are the bytes of the current call.
\<close>

definition read_message_step :: "bool \<Rightarrow> rx_thread \<Rightarrow> rx_thread" where
  "read_message_step ok s =
     (let ch = key_ch s in
      case r_tail ch of
        None \<Rightarrow> s\<lparr>key_ch := ch\<lparr>r_tail := Some (rb_tail (ring ch))\<rparr>\<rparr>
      | Some tail \<Rightarrow>
          if r_head ch \<noteq> tail
          then let c = rb_buffer (ring ch) ! unat (r_head ch)
               in if ok then s\<lparr>key_ch := ch\<lparr>handled := [], r_head := rb_head (ring ch), r_tail := None\<rparr>, key_calls := key_calls s @ [handled ch @ [c]]\<rparr>
                  else s\<lparr>key_ch := ch\<lparr>handled := handled ch @ [c], r_head := (r_head ch + 1) mod 2048\<rparr>\<rparr>
          else s\<lparr>key_ch := ch\<lparr>r_tail := None\<rparr>\<rparr>)"

text \<open>
  \<^verbatim>\<open>read_from_telemetry\<close>, called for \<^verbatim>\<open>MSG_1_LEN\<close> and then for \<^verbatim>\<open>MSG_3_LEN\<close> bytes; a call that has its bytes stores its position in \<^verbatim>\<open>head\<close>, where
  the next one starts.
\<close>

abbreviation (input) telemetry_lens :: "nat list" where "telemetry_lens \<equiv> [32, 64]"

definition read_from_telemetry_step :: "rx_thread \<Rightarrow> rx_thread" where
  "read_from_telemetry_step s =
     (if 2 \<le> length (key_calls s) then s
      else let ch = key_ch s; buf = drop (length (concat (key_calls s))) (handled ch); len = telemetry_lens ! length (key_calls s) in
      case r_tail ch of
        None \<Rightarrow>
          if length buf < len then s\<lparr>key_ch := ch\<lparr>r_tail := Some (rb_tail (ring ch))\<rparr>\<rparr>
          else s\<lparr>key_ch := ch\<lparr>ring := (ring ch)\<lparr>rb_head := r_head ch\<rparr>\<rparr>, key_calls := key_calls s @ [buf]\<rparr>
      | Some tail \<Rightarrow>
          if length buf < len \<and> r_head ch \<noteq> tail
          then s\<lparr>key_ch := ch\<lparr>handled := handled ch @ [rb_buffer (ring ch) ! unat (r_head ch)], r_head := (r_head ch + 1) mod 2048\<rparr>\<rparr>
          else s\<lparr>key_ch := ch\<lparr>r_tail := None\<rparr>\<rparr>)"

section \<open>Interleavings\<close>

text \<open>
  A channel is paced when fewer bytes wait in it than the buffer has room for.  The bytes that \<^verbatim>\<open>read_message\<close> has seen keep waiting, since
  it never moves \<^verbatim>\<open>head\<close>.
\<close>

definition paced :: "chan \<Rightarrow> bool" where
  "paced ch \<longleftrightarrow> length (stored ch) < length (handled ch) + RING_BUFFER_SIZE"

datatype rx_component = Pixhawk | Telemetry

definition key_paced :: "rx_component \<Rightarrow> chan \<Rightarrow> bool" where
  "key_paced rc ch \<longleftrightarrow> (case rc of Pixhawk \<Rightarrow> length (stored ch) < RING_BUFFER_SIZE | Telemetry \<Rightarrow> paced ch)"

text \<open>The states of the paced runs of a receive thread with the two readers of its buffers.\<close>

inductive rx_paced_reach :: "rx_component \<Rightarrow> rx_thread \<Rightarrow> bool" where
  rx_start: "length (rb_buffer (ring (key_ch s))) = RING_BUFFER_SIZE \<Longrightarrow> length (rb_buffer (ring (main_ch s))) = RING_BUFFER_SIZE \<Longrightarrow>
     rx_paced_reach rc (rx_pre_init (s\<lparr>use_ringbuffer_key := True, on_key := True, rx_pc := RX_LOOP, got := [], key_calls := [],
       key_ch := (key_ch s)\<lparr>r_head := 0, r_tail := None, stored := [], handled := []\<rparr>,
       main_ch := (main_ch s)\<lparr>r_head := 0, r_tail := None, stored := [], handled := []\<rparr>\<rparr>))"
| rx_producer: "rx_paced_reach rc s \<Longrightarrow> s' = rx_step g s \<Longrightarrow> key_paced rc (key_ch s') \<Longrightarrow> paced (main_ch s') \<Longrightarrow> rx_paced_reach rc s'"
| rx_switch: "rx_paced_reach rc s \<Longrightarrow> rx_paced_reach rc (switch_callback s)"
| rx_read_message: "rx_paced_reach Pixhawk s \<Longrightarrow> rx_paced_reach Pixhawk (read_message_step ok s)"
| rx_encrypt: "rx_paced_reach Pixhawk s \<Longrightarrow> rx_paced_reach Pixhawk (s\<lparr>main_ch := reader_step (main_ch s)\<rparr>)"
| rx_read_from_telemetry: "rx_paced_reach Telemetry s \<Longrightarrow> rx_paced_reach Telemetry (read_from_telemetry_step s)"
| rx_decrypt: "rx_paced_reach Telemetry s \<Longrightarrow> rx_paced_reach Telemetry (s\<lparr>main_ch := decrypt_read_step reload (main_ch s)\<rparr>)"

section \<open>The invariant of a channel\<close>

text \<open>\<open>f\<close> is 1 while the last stored byte is not yet published by an update of \<^verbatim>\<open>tail\<close>.\<close>

definition chan_inv :: "chan \<Rightarrow> nat \<Rightarrow> bool" where
  "chan_inv ch f \<longleftrightarrow> length (rb_buffer (ring ch)) = RING_BUFFER_SIZE \<and> length (handled ch) + f \<le> length (stored ch) \<and>
     unat (rb_tail (ring ch)) = (length (stored ch) - f) mod RING_BUFFER_SIZE \<and>
     unat (r_head ch) = length (handled ch) mod RING_BUFFER_SIZE \<and> paced ch \<and>
     handled ch = take (length (handled ch)) (stored ch) \<and>
     (\<forall>i. length (handled ch) \<le> i \<longrightarrow> i + f < length (stored ch) \<longrightarrow> rb_buffer (ring ch) ! (i mod RING_BUFFER_SIZE) = stored ch ! i) \<and>
     (\<forall>t. r_tail ch = Some t \<longrightarrow>
        (\<exists>k. length (handled ch) \<le> k \<and> k + f \<le> length (stored ch) \<and> unat t = k mod RING_BUFFER_SIZE))"

lemma mod_inj:
  fixes i j n :: nat
  assumes "i mod n = j mod n" "i \<le> j" "j < i + n"
  shows "i = j"
proof -
  have "n dvd j - i" using assms(1,2) by (simp add: mod_eq_dvd_iff_nat[symmetric] eq_commute)
  then show ?thesis using assms(2,3) by (cases "j = i") (auto dest: dvd_imp_le)
qed

lemma unat_next: "unat (w :: u32) < 2048 \<Longrightarrow> unat ((w + 1) mod 2048) = Suc (unat w) mod 2048"
  by (simp add: unat_inc)

lemma chan_inv_put:
  assumes "chan_inv ch 0" "ch' = ch\<lparr>stored := stored ch @ [c]\<rparr>" "paced ch'"
  shows "chan_inv ch' 1"
  using assms by (fastforce simp: chan_inv_def paced_def nth_append)

lemma chan_inv_store:
  assumes "chan_inv ch 1"
  shows "chan_inv (ch\<lparr>ring := (ring ch)\<lparr>rb_buffer := (rb_buffer (ring ch))[unat (rb_tail (ring ch)) := x]\<rparr>\<rparr>) 1"
proof -
  let ?h = "length (handled ch)" and ?n = "length (stored ch) - 1"
  have i: "i mod 2048 \<noteq> ?n mod 2048" if "?h \<le> i" "Suc i < length (stored ch)" for i
  proof -
    have "length (stored ch) < length (handled ch) + 2048" using assms by (simp add: chan_inv_def paced_def)
    then have "?n < i + 2048" "i < ?n" using that by linarith+
    then show ?thesis using mod_inj[of i 2048 ?n] by auto
  qed
  then show ?thesis using assms by (simp add: chan_inv_def paced_def nth_list_update) metis
qed

lemma chan_inv_advance:
  assumes "chan_inv ch 1" "rb_buffer (ring ch) ! unat (rb_tail (ring ch)) = last (stored ch)"
  shows "chan_inv (ch\<lparr>ring := (ring ch)\<lparr>rb_tail := (rb_tail (ring ch) + 1) mod 2048\<rparr>\<rparr>) 0"
proof -
  have n: "stored ch \<noteq> []" using assms(1) by (auto simp: chan_inv_def)
  have t: "unat (rb_tail (ring ch)) = (length (stored ch) - 1) mod 2048" using assms(1) by (simp add: chan_inv_def)
  then have "unat ((rb_tail (ring ch) + 1) mod 2048) = length (stored ch) mod 2048"
    using unat_next[of "rb_tail (ring ch)"] n by (simp add: mod_Suc_eq)
  moreover have "rb_buffer (ring ch) ! (i mod 2048) = stored ch ! i" if "length (handled ch) \<le> i" "i < length (stored ch)" for i
  proof (cases "Suc i < length (stored ch)")
    case False
    then have "i = length (stored ch) - 1" using that(2) by linarith
    then show ?thesis using assms(2) n t by (simp add: last_conv_nth)
  qed (use assms(1) that in \<open>auto simp: chan_inv_def\<close>)
  moreover have "\<exists>k \<ge> length (handled ch). k \<le> length (stored ch) \<and> unat t = k mod 2048" if "r_tail ch = Some t" for t
    using assms(1) that by (auto simp: chan_inv_def dest: Suc_leD)
  ultimately show ?thesis using assms(1) by (auto simp: chan_inv_def paced_def)
qed

lemma chan_inv_read:
  assumes "chan_inv ch f"
  shows "chan_inv (reader_step ch) f"
proof (cases "r_tail ch")
  case None
  then show ?thesis using assms by (auto simp: reader_step_def chan_inv_def paced_def intro!: exI[of _ "length (stored ch) - f"])
next
  case (Some t)
  obtain k where k: "length (handled ch) \<le> k" "k + f \<le> length (stored ch)" "unat t = k mod 2048"
    using assms Some by (auto simp: chan_inv_def)
  show ?thesis
  proof (cases "r_head ch = t")
    case True
    then show ?thesis using assms Some by (simp add: reader_step_def chan_inv_def paced_def)
  next
    case False
    have h: "unat (r_head ch) = length (handled ch) mod 2048" "unat (r_head ch) < 2048" using assms by (simp_all add: chan_inv_def)
    have "length (handled ch) \<noteq> k" using False h(1) k(3) by (auto simp: word_unat_eq_iff)
    then have lt: "length (handled ch) < k" using k(1) by simp
    then have b: "rb_buffer (ring ch) ! unat (r_head ch) = stored ch ! length (handled ch)"
      using assms k(2) h(1) by (simp add: chan_inv_def)
    have "unat ((r_head ch + 1) mod 2048) = Suc (length (handled ch)) mod 2048" using unat_next[OF h(2)] h(1) by (simp add: mod_Suc_eq)
    moreover have "handled ch @ [stored ch ! length (handled ch)] = take (Suc (length (handled ch))) (stored ch)"
      using assms lt k(2) by (simp add: chan_inv_def take_Suc_conv_app_nth)
    ultimately show ?thesis using assms Some False lt k b
      by (auto simp: reader_step_def chan_inv_def paced_def intro!: exI[of _ k])
  qed
qed

lemma reader_step_keeps [simp]: "ring (reader_step ch) = ring ch" "stored (reader_step ch) = stored ch"
  by (simp_all add: reader_step_def split: option.split)

text \<open>The other readers move as \<open>reader_step\<close> does, or forget their copy of \<^verbatim>\<open>tail\<close>.\<close>

lemma chan_inv_forget: "chan_inv ch f \<Longrightarrow> chan_inv (ch\<lparr>r_tail := None\<rparr>) f"
  by (simp add: chan_inv_def paced_def)

lemma decrypt_read_step_eq:
  "decrypt_read_step reload ch = (if reload \<and> r_tail ch \<noteq> None then (reader_step ch)\<lparr>r_tail := None\<rparr> else reader_step ch)"
  by (auto simp: decrypt_read_step_def reader_step_def split: option.split)

lemma chan_inv_decrypt: "chan_inv ch f \<Longrightarrow> chan_inv (decrypt_read_step reload ch) f"
  by (simp add: decrypt_read_step_eq chan_inv_read chan_inv_forget)

section \<open>The invariant of the receive thread\<close>

text \<open>
  Of the key-exchange buffer of \<open>Pixhawk\<close> the invariant of a channel holds as for a reader that has not begun; \<open>message_inv\<close> is about the current and
  the finished calls of \<^verbatim>\<open>read_message\<close>, \<open>telemetry_inv\<close> about those of \<^verbatim>\<open>read_from_telemetry\<close>.
\<close>

definition key_view :: "rx_component \<Rightarrow> chan \<Rightarrow> chan" where
  "key_view rc ch = (case rc of Pixhawk \<Rightarrow> ch\<lparr>handled := [], r_head := 0, r_tail := None\<rparr> | Telemetry \<Rightarrow> ch)"

lemma key_view_simps [simp]:
  "ring (key_view rc ch) = ring ch" "stored (key_view rc ch) = stored ch"
  "key_view rc (ch\<lparr>ring := r\<rparr>) = (key_view rc ch)\<lparr>ring := r\<rparr>" "key_view rc (ch\<lparr>stored := bs\<rparr>) = (key_view rc ch)\<lparr>stored := bs\<rparr>"
  "key_view Pixhawk (ch\<lparr>handled := hs\<rparr>) = key_view Pixhawk ch" "key_view Pixhawk (ch\<lparr>r_head := h\<rparr>) = key_view Pixhawk ch"
  "key_view Pixhawk (ch\<lparr>r_tail := t\<rparr>) = key_view Pixhawk ch" "key_view Telemetry ch = ch"
  "paced (key_view rc ch) \<longleftrightarrow> key_paced rc ch"
  by (simp_all add: key_view_def key_paced_def paced_def split: rx_component.split)

definition prefix_of :: "bytes \<Rightarrow> bytes \<Rightarrow> bool" where
  "prefix_of xs ys \<longleftrightarrow> xs = take (length xs) ys"

definition unpublished :: "rx_thread \<Rightarrow> nat" where
  "unpublished s = (if rx_pc s = RX_LOOP \<or> rx_pc s = RX_GETCHAR then 0 else 1)"

definition message_inv :: "nat \<Rightarrow> rx_thread \<Rightarrow> bool" where
  "message_inv f s \<longleftrightarrow>
     (let ch = key_ch s; n = length (handled ch) in
      rb_head (ring ch) = 0 \<and> prefix_of (handled ch) (stored ch) \<and> unat (r_head ch) = n \<and> n + f \<le> length (stored ch) \<and>
      (\<forall>t. r_tail ch = Some t \<longrightarrow> n \<le> unat t \<and> unat t + f \<le> length (stored ch)) \<and>
      (\<forall>m \<in> set (key_calls s). prefix_of m (stored ch)))"

definition telemetry_inv :: "rx_thread \<Rightarrow> bool" where
  "telemetry_inv s \<longleftrightarrow>
     (let n = length (key_calls s); fin = concat (key_calls s); hs = handled (key_ch s) in
      n \<le> 2 \<and> map length (key_calls s) = take n telemetry_lens \<and> prefix_of fin hs \<and> length fin \<le> length hs \<and>
      (if n < 2 then length hs \<le> length fin + telemetry_lens ! n else True))"

definition key_inv :: "rx_component \<Rightarrow> nat \<Rightarrow> rx_thread \<Rightarrow> bool" where
  "key_inv rc f s \<longleftrightarrow> chan_inv (key_view rc (key_ch s)) f \<and>
     (case rc of Pixhawk \<Rightarrow> message_inv f s | Telemetry \<Rightarrow> telemetry_inv s)"

definition rx_inv :: "rx_component \<Rightarrow> rx_thread \<Rightarrow> bool" where
  "rx_inv rc s \<longleftrightarrow> (rx_pc s = RX_LOOP \<longrightarrow> on_key s) \<and> (\<not> on_key s \<longrightarrow> \<not> use_ringbuffer_key s) \<and>
     key_inv rc (if on_key s then unpublished s else 0) s \<and> chan_inv (main_ch s) (if on_key s then 0 else unpublished s) \<and>
     (unpublished s = 1 \<longrightarrow> last (stored (cur_ch s)) = word_of_int (rx_c s)) \<and>
     (rx_pc s = RX_STORE \<or> rx_pc s = RX_ADVANCE \<longrightarrow> rx_tail s = rb_tail (ring (cur_ch s))) \<and>
     (rx_pc s = RX_ADVANCE \<longrightarrow> rb_buffer (ring (cur_ch s)) ! unat (rx_tail s) = last (stored (cur_ch s)))"

text \<open>Where the bytes of the device went; at most one stale byte ends the first buffer.\<close>

definition rx_split :: "rx_thread \<Rightarrow> bool" where
  "rx_split s \<longleftrightarrow>
     (if on_key s then stored (main_ch s) = [] \<and>
        (stored (key_ch s) = got s \<or> \<not> use_ringbuffer_key s \<and> rx_pc s \<noteq> RX_GETCHAR \<and> (\<exists>b. stored (key_ch s) = got s @ [b]))
      else \<exists>xs. got s = xs @ stored (main_ch s) \<and> (stored (key_ch s) = xs \<or> (\<exists>b. stored (key_ch s) = xs @ [b])))"

lemmas rx_defs = rx_step_def cur_ch_def set_ch_def

subsection \<open>The writer\<close>

lemma prefix_of_snoc: "prefix_of xs ys \<Longrightarrow> prefix_of xs (ys @ [b])"
  unfolding prefix_of_def by (metis append_eq_conv_conj append_take_drop_id append.assoc)

lemma key_inv_put:
  assumes "key_inv rc 0 s" "key_paced rc ((key_ch s)\<lparr>stored := stored (key_ch s) @ [c]\<rparr>)"
    and "key_ch s' = (key_ch s)\<lparr>stored := stored (key_ch s) @ [c]\<rparr>" "key_calls s' = key_calls s"
  shows "key_inv rc 1 s'"
proof -
  have "chan_inv (key_view rc (key_ch s')) 1"
    using chan_inv_put[of "key_view rc (key_ch s)" _ c] assms by (auto simp: key_inv_def simp flip: key_view_simps(9))
  moreover have "message_inv 1 s'" if "rc = Pixhawk"
    using assms that by (auto simp: key_inv_def message_inv_def Let_def prefix_of_snoc)
  moreover have "telemetry_inv s'" if "rc = Telemetry"
    using assms that by (simp add: key_inv_def telemetry_inv_def Let_def)
  ultimately show ?thesis by (simp add: key_inv_def split: rx_component.split)
qed

lemma key_inv_store:
  assumes "key_inv rc 1 s" "key_ch s' = (key_ch s)\<lparr>ring := (ring (key_ch s))\<lparr>rb_buffer := (rb_buffer (ring (key_ch s)))[unat (rb_tail (ring (key_ch s))) := x]\<rparr>\<rparr>"
    and "key_calls s' = key_calls s"
  shows "key_inv rc 1 s'"
  using assms chan_inv_store[of "key_view rc (key_ch s)" x]
  by (cases rc) (simp_all add: key_inv_def message_inv_def telemetry_inv_def Let_def)

lemma key_inv_advance:
  assumes "key_inv rc 1 s" "rb_buffer (ring (key_ch s)) ! unat (rb_tail (ring (key_ch s))) = last (stored (key_ch s))"
    and "key_ch s' = (key_ch s)\<lparr>ring := (ring (key_ch s))\<lparr>rb_tail := (rb_tail (ring (key_ch s)) + 1) mod 2048\<rparr>\<rparr>" "key_calls s' = key_calls s"
  shows "key_inv rc 0 s'"
  using assms chan_inv_advance[of "key_view rc (key_ch s)"]
  by (cases rc) (auto simp: key_inv_def message_inv_def telemetry_inv_def Let_def)

lemma key_inv_same: "key_inv rc f s \<Longrightarrow> key_ch s' = key_ch s \<Longrightarrow> key_calls s' = key_calls s \<Longrightarrow> key_inv rc f s'"
  by (cases rc) (simp_all add: key_inv_def message_inv_def telemetry_inv_def)

lemma rx_inv_step_key:
  assumes "rx_inv rc s" "on_key s" "key_paced rc (key_ch (rx_step g s))"
  shows "rx_inv rc (rx_step g s)"
proof -
  have k: "key_inv rc (unpublished s) s" and m: "chan_inv (main_ch s) 0" using assms(1,2) by (simp_all add: rx_inv_def)
  show ?thesis
  proof (cases "rx_pc s")
    case RX_GETCHAR
    have put: "key_inv rc (Suc 0) s'" if "key_paced rc ((key_ch s)\<lparr>stored := stored (key_ch s) @ [c]\<rparr>)"
      "key_ch s' = (key_ch s)\<lparr>stored := stored (key_ch s) @ [c]\<rparr>" "key_calls s' = key_calls s" for c s'
      using key_inv_put[of rc s c s'] k that RX_GETCHAR by (simp add: unpublished_def)
    have same: "key_inv rc 0 (s\<lparr>rx_c := -1\<rparr>)" using key_inv_same[OF k] RX_GETCHAR by (simp add: unpublished_def)
    show ?thesis using assms RX_GETCHAR m
      by (cases g) (auto simp: rx_inv_def rx_defs unpublished_def intro!: put same)
  next
    case RX_STORE
    have t: "rx_tail s = rb_tail (ring (key_ch s))" "unat (rx_tail s) < length (rb_buffer (ring (key_ch s)))"
      using assms(1,2) k RX_STORE by (auto simp: rx_inv_def cur_ch_def key_inv_def chan_inv_def)
    have "key_inv rc 1 (rx_step g s)"
      using key_inv_store[of rc s "rx_step g s" "word_of_int (rx_c s)"] k t assms(2) RX_STORE by (simp add: rx_defs unpublished_def)
    then show ?thesis using assms(1,2) RX_STORE m t by (simp add: rx_inv_def rx_defs unpublished_def)
  next
    case RX_ADVANCE
    have "key_inv rc 0 (rx_step g s)"
      using key_inv_advance[of rc s "rx_step g s"] k assms(1,2) RX_ADVANCE by (auto simp: rx_inv_def rx_defs unpublished_def)
    then show ?thesis using assms(1,2) RX_ADVANCE m by (simp add: rx_inv_def rx_defs unpublished_def)
  next
    case RX_LOOP
    then show ?thesis using assms(1,2) m key_inv_same[OF k, of "rx_step g s"] by (auto simp: rx_inv_def rx_defs unpublished_def)
  next
    case RX_LOAD
    then show ?thesis using assms(1,2) m key_inv_same[OF k, of "rx_step g s"] by (auto simp: rx_inv_def rx_defs unpublished_def)
  qed
qed

lemma rx_inv_step_main:
  assumes "rx_inv rc s" "\<not> on_key s" "paced (main_ch (rx_step g s))"
  shows "rx_inv rc (rx_step g s)"
proof -
  have k: "key_inv rc 0 (rx_step g s)"
    using assms(1,2) key_inv_same[of rc 0 s "rx_step g s"] by (cases g) (auto simp: rx_inv_def rx_defs split: rx_pc.split)
  have m: "chan_inv (main_ch s) (unpublished s)" using assms(1,2) by (simp add: rx_inv_def)
  show ?thesis
  proof (cases "rx_pc s")
    case RX_GETCHAR
    then show ?thesis using assms k m chan_inv_put[OF _ refl] by (cases g) (auto simp: rx_inv_def rx_defs unpublished_def)
  next
    case RX_STORE
    have "rx_tail s = rb_tail (ring (main_ch s))" "unat (rx_tail s) < length (rb_buffer (ring (main_ch s)))"
      using assms(1,2) m RX_STORE by (auto simp: rx_inv_def cur_ch_def chan_inv_def)
    then show ?thesis using assms(1,2) RX_STORE k m chan_inv_store[of "main_ch s" "word_of_int (rx_c s)"]
      by (simp add: rx_inv_def rx_defs unpublished_def)
  next
    case RX_ADVANCE
    then show ?thesis using assms(1,2) k m chan_inv_advance[of "main_ch s"] by (auto simp: rx_inv_def rx_defs unpublished_def)
  qed (use assms(1,2) k m in \<open>auto simp: rx_inv_def rx_defs unpublished_def\<close>)
qed

lemma rx_inv_step:
  "rx_inv rc s \<Longrightarrow> key_paced rc (key_ch (rx_step g s)) \<Longrightarrow> paced (main_ch (rx_step g s)) \<Longrightarrow> rx_inv rc (rx_step g s)"
  using rx_inv_step_key rx_inv_step_main by (cases "on_key s") blast+

subsection \<open>The readers\<close>

lemma prefix_of_next: "prefix_of xs ys \<Longrightarrow> length xs < length ys \<Longrightarrow> prefix_of (xs @ [ys ! length xs]) ys"
  by (simp add: prefix_of_def take_Suc_conv_app_nth)

lemma message_inv_step:
  assumes "chan_inv (key_view Pixhawk (key_ch s)) f" "message_inv f s"
  shows "message_inv f (read_message_step ok s) \<and> key_view Pixhawk (key_ch (read_message_step ok s)) = key_view Pixhawk (key_ch s)"
proof -
  let ?ch = "key_ch s" let ?n = "length (handled ?ch)"
  have p: "length (stored ?ch) < 2048" "unat (rb_tail (ring ?ch)) = length (stored ?ch) - f" "f \<le> length (stored ?ch)"
    "\<And>i. i + f < length (stored ?ch) \<Longrightarrow> rb_buffer (ring ?ch) ! i = stored ?ch ! i"
    using assms(1) by (auto simp: chan_inv_def paced_def key_view_def)
  note m = assms(2)[unfolded message_inv_def Let_def]
  show ?thesis
  proof (cases "r_tail ?ch")
    case None
    then show ?thesis using m p by (auto simp: read_message_step_def message_inv_def Let_def)
  next
    case (Some t)
    show ?thesis
    proof (cases "r_head ?ch = t")
      case True
      then show ?thesis using m Some by (simp add: read_message_step_def message_inv_def Let_def)
    next
      case False
      then have lt: "?n < unat t" "unat t + f \<le> length (stored ?ch)" using m Some by (auto simp: word_unat_eq_iff)
      then have b: "rb_buffer (ring ?ch) ! unat (r_head ?ch) = stored ?ch ! ?n" using p(4)[of ?n] m by simp
      have h: "unat ((r_head ?ch + 1) mod 2048) = Suc ?n" using unat_next[of "r_head ?ch"] m lt p(1) by simp
      have "prefix_of (handled ?ch @ [stored ?ch ! ?n]) (stored ?ch)" using prefix_of_next m lt by simp
      then show ?thesis using m Some False lt b h
        by (simp add: read_message_step_def message_inv_def Let_def) (simp add: prefix_of_def)
    qed
  qed
qed

lemma telemetry_inv_step:
  assumes "chan_inv (key_ch s) f" "telemetry_inv s"
  shows "telemetry_inv (read_from_telemetry_step s) \<and> chan_inv (key_ch (read_from_telemetry_step s)) f"
proof -
  let ?ch = "key_ch s" let ?buf = "drop (length (concat (key_calls s))) (handled ?ch)"
  note t = assms(2)[unfolded telemetry_inv_def Let_def]
  show ?thesis
  proof (cases "2 \<le> length (key_calls s)")
    case False
    let ?len = "telemetry_lens ! length (key_calls s)"
    have l: "length ?buf \<le> ?len" "length (concat (key_calls s)) \<le> length (handled ?ch)" using t False by auto
    have step: "chan_inv (reader_step ?ch) f" by (rule chan_inv_read[OF assms(1)])
    show ?thesis
    proof (cases "length ?buf < ?len")
      case True
      then have "key_ch (read_from_telemetry_step s) = reader_step ?ch" "key_calls (read_from_telemetry_step s) = key_calls s"
        using False by (auto simp: read_from_telemetry_step_def reader_step_def Let_def split: option.split)
      moreover have "telemetry_inv (read_from_telemetry_step s)" unfolding telemetry_inv_def Let_def calculation
        using t True False by (auto simp: reader_step_def prefix_of_snoc split: option.split)
      ultimately show ?thesis using step by simp
    next
      case eq: False
      then have len: "length ?buf = ?len" using l by simp
      show ?thesis
      proof (cases "r_tail ?ch")
        case None
        have "concat (key_calls s @ [?buf]) = handled ?ch" using t by (simp add: prefix_of_def) (metis append_take_drop_id)
        moreover have "map length (key_calls s @ [?buf]) = take (Suc (length (key_calls s))) telemetry_lens"
        proof -
          consider "key_calls s = []" | z where "key_calls s = [z]"
            using False by (cases "key_calls s"; cases "tl (key_calls s)") auto
          then show ?thesis using t len by cases auto
        qed
        ultimately have "telemetry_inv (read_from_telemetry_step s)"
          using None eq False by (simp add: read_from_telemetry_step_def telemetry_inv_def Let_def prefix_of_def)
        moreover have "chan_inv (?ch\<lparr>ring := (ring ?ch)\<lparr>rb_head := r_head ?ch\<rparr>\<rparr>) f" using assms(1) by (simp add: chan_inv_def paced_def)
        ultimately show ?thesis using None eq False by (simp add: read_from_telemetry_step_def Let_def)
      next
        case (Some tl)
        then show ?thesis using assms(2) eq False chan_inv_forget[OF assms(1)]
          by (simp add: read_from_telemetry_step_def telemetry_inv_def Let_def)
      qed
    qed
  qed (use assms in \<open>simp add: read_from_telemetry_step_def\<close>)
qed

text \<open>The readers of the key-exchange buffer write nothing the receive thread reads.\<close>

definition key_read_only :: "rx_thread \<Rightarrow> rx_thread \<Rightarrow> bool" where
  "key_read_only s s' \<longleftrightarrow> s' = s\<lparr>key_ch := key_ch s', key_calls := key_calls s'\<rparr> \<and> stored (key_ch s') = stored (key_ch s) \<and>
     rb_tail (ring (key_ch s')) = rb_tail (ring (key_ch s)) \<and> rb_buffer (ring (key_ch s')) = rb_buffer (ring (key_ch s))"

lemma read_message_read_only: "key_read_only s (read_message_step ok s)"
  by (cases s; cases "r_tail (key_ch s)") (auto simp: key_read_only_def read_message_step_def Let_def)

lemma read_from_telemetry_read_only: "key_read_only s (read_from_telemetry_step s)"
  by (cases s; cases "r_tail (key_ch s)") (auto simp: key_read_only_def read_from_telemetry_step_def Let_def)

lemma rx_inv_key_reader:
  assumes "rx_inv rc s \<and> rx_split s" "\<And>f. key_inv rc f s \<Longrightarrow> key_inv rc f s'" "key_read_only s s'"
  shows "rx_inv rc s' \<and> rx_split s'"
proof -
  obtain ch calls where s': "s' = s\<lparr>key_ch := ch, key_calls := calls\<rparr>" and
    "stored ch = stored (key_ch s)" "rb_tail (ring ch) = rb_tail (ring (key_ch s))" "rb_buffer (ring ch) = rb_buffer (ring (key_ch s))"
    using assms(3) by (auto simp: key_read_only_def)
  then show ?thesis using assms(1,2) unfolding s' by (auto simp: rx_inv_def rx_split_def cur_ch_def unpublished_def split: if_splits)
qed

lemma rx_inv_main_reader:
  assumes "rx_inv rc s \<and> rx_split s" "\<And>f. chan_inv (main_ch s) f \<Longrightarrow> chan_inv ch f" "ring ch = ring (main_ch s)" "stored ch = stored (main_ch s)"
  shows "rx_inv rc (s\<lparr>main_ch := ch\<rparr>) \<and> rx_split (s\<lparr>main_ch := ch\<rparr>)"
proof -
  have "key_inv rc f (s\<lparr>main_ch := ch\<rparr>)" if "key_inv rc f s" for f using key_inv_same[OF that] by simp
  then show ?thesis using assms by (auto simp: rx_inv_def rx_split_def cur_ch_def unpublished_def split: if_splits)
qed

lemma rx_split_step: "rx_inv rc s \<Longrightarrow> rx_split s \<Longrightarrow> rx_split (rx_step g s)"
  by (cases g; cases "rx_pc s") (auto simp: rx_inv_def rx_split_def rx_defs split: if_splits)

lemma rx_inv_switch: "rx_inv rc s \<and> rx_split s \<Longrightarrow> rx_inv rc (switch_callback s) \<and> rx_split (switch_callback s)"
  using key_inv_same[of rc _ s "switch_callback s"]
  by (auto simp: rx_inv_def rx_split_def switch_callback_def cur_ch_def unpublished_def split: if_splits)

lemma rx_paced_reach_inv: "rx_paced_reach rc s \<Longrightarrow> rx_inv rc s \<and> rx_split s"
proof (induction rule: rx_paced_reach.induct)
  case (rx_start s rc)
  then show ?case
    by (cases rc) (simp_all add: rx_inv_def rx_split_def cur_ch_def rx_pre_init_def ring_reset_def chan_inv_def paced_def unpublished_def
        key_inv_def message_inv_def telemetry_inv_def prefix_of_def key_view_def Let_def)
next
  case (rx_producer rc s s' g)
  then show ?case using rx_inv_step rx_split_step by blast
next
  case (rx_switch rc s)
  then show ?case by (intro rx_inv_switch)
next
  case (rx_read_message s ok)
  then show ?case using message_inv_step by (intro rx_inv_key_reader[OF _ _ read_message_read_only]) (auto simp: key_inv_def)
next
  case (rx_encrypt s)
  then show ?case using chan_inv_read by (intro rx_inv_main_reader) auto
next
  case (rx_read_from_telemetry s)
  then show ?case using telemetry_inv_step by (intro rx_inv_key_reader[OF _ _ read_from_telemetry_read_only]) (auto simp: key_inv_def)
next
  case (rx_decrypt s reload)
  then show ?case using chan_inv_decrypt by (intro rx_inv_main_reader) (auto simp: decrypt_read_step_eq)
qed

section \<open>Properties\<close>

text \<open>
  Property C24 (safety): the shared ring buffers are first-in-first-out in every paced run, that is, under every interleaving of a receive
  thread, the readers of its two buffers and the switch in which the writer stays less than a buffer ahead.  What \<^verbatim>\<open>Encrypt\<close> or
  \<^verbatim>\<open>Decrypt\<close> took from the relay buffer is a prefix of what was stored there.  Of the key-exchange buffer, each call of \<^verbatim>\<open>read_message\<close>
  takes the stored bytes in order from the very first one on, since it never moves \<^verbatim>\<open>head\<close>; the two calls of \<^verbatim>\<open>read_from_telemetry\<close>
  return the first 32 and the following 64 bytes.  Every byte of the device is in exactly one of the two buffers, the first one
  ending in at most one stale byte; and every index into a buffer is in range.
\<close>

theorem ring_buffer_fifo:
  assumes "rx_paced_reach rc s"
  shows "handled (main_ch s) = take (length (handled (main_ch s))) (stored (main_ch s)) \<and>
    handled (key_ch s) = take (length (handled (key_ch s))) (stored (key_ch s)) \<and>
    (case rc of
       Pixhawk \<Rightarrow> \<forall>bs \<in> set (key_calls s). bs = take (length bs) (stored (key_ch s))
     | Telemetry \<Rightarrow> map length (key_calls s) = take (length (key_calls s)) [32, 64] \<and>
         concat (key_calls s) = take (length (concat (key_calls s))) (stored (key_ch s))) \<and>
    (if on_key s then stored (main_ch s) = [] \<and> (stored (key_ch s) = got s \<or> (\<exists>b. stored (key_ch s) = got s @ [b]))
     else \<exists>xs. got s = xs @ stored (main_ch s) \<and> (stored (key_ch s) = xs \<or> (\<exists>b. stored (key_ch s) = xs @ [b]))) \<and>
    unat (r_head (key_ch s)) < length (rb_buffer (ring (key_ch s))) \<and> unat (r_head (main_ch s)) < length (rb_buffer (ring (main_ch s))) \<and>
    (rx_pc s = RX_STORE \<longrightarrow> unat (rx_tail s) < length (rb_buffer (ring (cur_ch s))))"
proof -
  have rx: "rx_inv rc s" "rx_split s" using rx_paced_reach_inv[OF assms] by auto
  then obtain f g where "key_inv rc f s" "chan_inv (main_ch s) g" unfolding rx_inv_def by blast
  then have inv: "chan_inv (key_view rc (key_ch s)) f" "chan_inv (main_ch s) g" "key_inv rc f s" by (simp_all add: key_inv_def)
  have b: "length (rb_buffer (ring (key_ch s))) = 2048" "unat (rb_tail (ring (key_ch s))) < 2048"
    "length (rb_buffer (ring (main_ch s))) = 2048" "unat (rb_tail (ring (main_ch s))) < 2048"
    "unat (r_head (main_ch s)) < 2048" "handled (main_ch s) = take (length (handled (main_ch s))) (stored (main_ch s))"
    using inv(1,2) by (simp_all add: chan_inv_def)
  have t: "rx_pc s = RX_STORE \<Longrightarrow> unat (rx_tail s) < length (rb_buffer (ring (cur_ch s)))" using rx(1) b by (simp add: rx_inv_def cur_ch_def)
  have k: "unat (r_head (key_ch s)) < 2048 \<and> handled (key_ch s) = take (length (handled (key_ch s))) (stored (key_ch s)) \<and>
    (case rc of
       Pixhawk \<Rightarrow> \<forall>bs \<in> set (key_calls s). bs = take (length bs) (stored (key_ch s))
     | Telemetry \<Rightarrow> map length (key_calls s) = take (length (key_calls s)) [32, 64] \<and>
         concat (key_calls s) = take (length (concat (key_calls s))) (stored (key_ch s)))"
  proof (cases rc)
    case Pixhawk
    then have "message_inv f s" "length (stored (key_ch s)) < 2048" using inv by (auto simp: key_inv_def chan_inv_def key_paced_def)
    then show ?thesis using Pixhawk by (auto simp: message_inv_def prefix_of_def Let_def)
  next
    case Telemetry
    then have c: "chan_inv (key_ch s) f" "telemetry_inv s" using inv by (simp_all add: key_inv_def)
    have h: "handled (key_ch s) = take (length (handled (key_ch s))) (stored (key_ch s))" "unat (r_head (key_ch s)) < 2048"
      using c(1) by (simp_all add: chan_inv_def)
    have "concat (key_calls s) = take (length (concat (key_calls s))) (stored (key_ch s))"
      using c(2) h(1) unfolding telemetry_inv_def Let_def prefix_of_def by (metis min.absorb1 take_take)
    then show ?thesis using Telemetry c(2) h by (simp add: telemetry_inv_def Let_def)
  qed
  show ?thesis using b k t rx(2) by (auto simp: rx_split_def split: if_splits)
qed

definition rx_demo :: rx_thread where
  "rx_demo = \<lparr>use_ringbuffer_key = True, on_key = True, rx_pc = RX_LOOP, rx_c = 0, rx_tail = 0,
     key_ch = \<lparr>ring = \<lparr>rb_buffer = replicate 2048 0, rb_head = 0, rb_tail = 0\<rparr>, r_head = 0, r_tail = None, stored = [], handled = []\<rparr>,
     main_ch = \<lparr>ring = \<lparr>rb_buffer = replicate 2048 0, rb_head = 0, rb_tail = 0\<rparr>, r_head = 0, r_tail = None, stored = [], handled = []\<rparr>,
     got = [], key_calls = []\<rparr>"

lemma rx_demo_reach: "rx_paced_reach rc rx_demo"
  using rx_start[of rx_demo] by (simp add: rx_demo_def rx_pre_init_def ring_reset_def)

text \<open>The first byte of the device is stored and published in the key-exchange buffer; after the switch, the second one in the relay buffer.\<close>

definition rx_demo_key :: rx_thread where
  "rx_demo_key = rx_step None (rx_step None (rx_step None (rx_step (Some 7) (rx_step None rx_demo))))"

definition rx_demo_main :: rx_thread where
  "rx_demo_main = rx_step None (rx_step None (rx_step None (rx_step (Some 9) (rx_step None (switch_callback rx_demo_key)))))"

lemma rx_demo_key_reach: "rx_paced_reach rc rx_demo_key"
  unfolding rx_demo_key_def
  by (rule rx_producer[OF rx_producer[OF rx_producer[OF rx_producer[OF rx_producer[OF rx_demo_reach refl] refl] refl] refl] refl];
      cases rc) (simp_all add: rx_demo_def rx_defs paced_def key_paced_def)

lemma rx_demo_main_reach: "rx_paced_reach rc rx_demo_main"
  unfolding rx_demo_main_def
  by (rule rx_producer[OF rx_producer[OF rx_producer[OF rx_producer[OF rx_producer[OF rx_switch[OF rx_demo_key_reach] refl] refl] refl] refl] refl];
      cases rc) (simp_all add: rx_demo_key_def rx_demo_def rx_defs switch_callback_def paced_def key_paced_def)

text \<open>One call of \<^verbatim>\<open>read_message\<close> has returned with the first byte; the next one has loaded \<^verbatim>\<open>tail\<close>.\<close>

theorem ring_buffer_fifo_witness:
  "(\<lambda>s. key_calls s = [take 1 (stored (key_ch s))] \<and> stored (key_ch s) = [7] \<and>
      handled (key_ch s) = take (length (handled (key_ch s))) (stored (key_ch s)))
    (read_message_step False (read_message_step True (read_message_step False rx_demo_key)))"
  using ring_buffer_fifo[OF rx_read_message[OF rx_read_message[OF rx_read_message[OF rx_demo_key_reach]]], of False True False]
  by (simp add: rx_demo_key_def rx_demo_def rx_defs read_message_step_def)

lemma drain_inner:
  assumes "chan_inv ch f" "r_tail ch = Some t" "unat t = (length (handled ch) + n) mod 2048" "length (handled ch) + n + f \<le> length (stored ch)"
  shows "handled ((reader_step ^^ n) ch) = take (length (handled ch) + n) (stored ch) \<and> r_tail ((reader_step ^^ n) ch) = Some t \<and>
    r_head ((reader_step ^^ n) ch) = t \<and> chan_inv ((reader_step ^^ n) ch) f \<and> stored ((reader_step ^^ n) ch) = stored ch \<and>
    ring ((reader_step ^^ n) ch) = ring ch"
  using assms
proof (induction n arbitrary: ch)
  case 0
  then show ?case by (auto simp: chan_inv_def word_unat_eq_iff)
next
  case (Suc n)
  have "length (stored ch) < length (handled ch) + 2048" "unat (r_head ch) = length (handled ch) mod 2048"
    using Suc.prems(1) by (simp_all add: chan_inv_def paced_def)
  then have "r_head ch \<noteq> t"
    using Suc.prems(3,4) mod_inj[of "length (handled ch)" 2048 "length (handled ch) + Suc n"] by auto
  then have st: "r_tail (reader_step ch) = Some t" "length (handled (reader_step ch)) = Suc (length (handled ch))"
    using Suc.prems(2) by (simp_all add: reader_step_def)
  show ?case using Suc.IH[OF chan_inv_read[OF Suc.prems(1)] st(1)] Suc.prems(3,4) st(2) by (simp add: funpow_swap1)
qed

lemma drain_outer:
  assumes "chan_inv ch f" "r_tail ch = None"
  shows "handled ((reader_step ^^ (length (stored ch) - f - length (handled ch) + 1)) ch) = take (length (stored ch) - f) (stored ch)"
proof -
  have r: "r_tail (reader_step ch) = Some (rb_tail (ring ch))" "handled (reader_step ch) = handled ch"
    using assms(2) by (simp_all add: reader_step_def)
  have le: "length (handled ch) + f \<le> length (stored ch)" "unat (rb_tail (ring ch)) = (length (stored ch) - f) mod 2048"
    using assms(1) by (simp_all add: chan_inv_def)
  show ?thesis using drain_inner[OF chan_inv_read[OF assms(1)] r(1), of "length (stored ch) - f - length (handled ch)"] le r(2)
    by (simp add: funpow_swap1)
qed

text \<open>
  Property C28 (liveness): the reader catches up.  From every state of a paced run of \<open>Pixhawk\<close>, whose relay buffer \<^verbatim>\<open>Encrypt\<close> reads, if the receive
  thread pauses, at most 2049 steps of the polling loop hand out every byte that has been published, to the last one.
\<close>

theorem ring_buffer_drains:
  assumes "rx_paced_reach Pixhawk s"
  shows "\<exists>n \<le> 2049. handled ((reader_step ^^ n) (main_ch s)) =
    (if \<not> on_key s \<and> rx_pc s \<noteq> RX_GETCHAR then butlast (stored (main_ch s)) else stored (main_ch s))"
proof -
  define f where "f = (if \<not> on_key s \<and> rx_pc s \<noteq> RX_GETCHAR then 1 else 0 :: nat)"
  let ?ch = "main_ch s"
  have inv: "chan_inv ?ch f" using rx_paced_reach_inv[OF assms] by (auto simp: rx_inv_def unpublished_def f_def split: if_splits)
  have out: "(if \<not> on_key s \<and> rx_pc s \<noteq> RX_GETCHAR then butlast (stored ?ch) else stored ?ch) = take (length (stored ?ch) - f) (stored ?ch)"
    by (simp add: f_def butlast_conv_take)
  have room: "length (stored ?ch) < length (handled ?ch) + 2048" "length (handled ?ch) + f \<le> length (stored ?ch)"
    using inv by (simp_all add: chan_inv_def paced_def)
  show ?thesis
  proof (cases "r_tail ?ch")
    case None
    show ?thesis unfolding out using drain_outer[OF inv None] room by (intro exI[of _ "length (stored ?ch) - f - length (handled ?ch) + 1"]) simp
  next
    case (Some t)
    then obtain k where k: "length (handled ?ch) \<le> k" "k + f \<le> length (stored ?ch)" "unat t = k mod 2048" using inv by (auto simp: chan_inv_def)
    define n1 where "n1 = k - length (handled ?ch)"
    define c1 where "c1 = (reader_step ^^ n1) ?ch"
    have c1: "handled c1 = take k (stored ?ch)" "r_tail c1 = Some t" "r_head c1 = t" "chan_inv c1 f" "stored c1 = stored ?ch"
      using drain_inner[OF inv Some, of n1] k by (simp_all add: n1_def c1_def)
    have c2: "r_tail (reader_step c1) = None" "handled (reader_step c1) = take k (stored ?ch)"
      using c1(1-3) by (simp_all add: reader_step_def)
    let ?n = "length (stored ?ch) - f - k + 1 + Suc n1"
    have "handled ((reader_step ^^ ?n) ?ch) = take (length (stored ?ch) - f) (stored ?ch)"
      using drain_outer[OF chan_inv_read[OF c1(4)] c2(1)] c2(2) c1(5) min_absorb2[of k "length (stored ?ch)"] k(2)
      unfolding funpow_add by (simp add: c1_def)
    moreover have "?n \<le> 2049" using room k by (simp add: n1_def)
    ultimately show ?thesis unfolding out by blast
  qed
qed

theorem ring_buffer_drains_witness:
  "stored (main_ch rx_demo_main) = [9] \<and> handled (main_ch rx_demo_main) = [] \<and>
    (\<exists>n \<le> 2049. handled ((reader_step ^^ n) (main_ch rx_demo_main)) = [9])"
  using ring_buffer_drains[OF rx_demo_main_reach]
  by (simp add: rx_demo_main_def rx_demo_key_def rx_demo_def rx_defs switch_callback_def)

text \<open>One turn of the second loop of \<^verbatim>\<open>run\<close> with a character from the device.\<close>

definition rx_put :: "u8 \<Rightarrow> rx_thread \<Rightarrow> rx_thread" where
  "rx_put c s = rx_step None (rx_step None (rx_step None (rx_step (Some c) s)))"

lemma rx_put_main:
  assumes "\<not> on_key s" "rx_pc s = RX_GETCHAR" "unat (rb_tail (ring (main_ch s))) < 2048"
  shows "\<not> on_key (rx_put c s)" "rx_pc (rx_put c s) = RX_GETCHAR" "stored (main_ch (rx_put c s)) = stored (main_ch s) @ [c]"
    "unat (rb_tail (ring (main_ch (rx_put c s)))) = Suc (unat (rb_tail (ring (main_ch s)))) mod 2048"
    "r_tail (main_ch (rx_put c s)) = r_tail (main_ch s)" "r_head (main_ch (rx_put c s)) = r_head (main_ch s)"
    "handled (main_ch (rx_put c s)) = handled (main_ch s)"
  using assms unat_next[OF assms(3)] by (simp_all add: rx_put_def rx_defs)

text \<open>
  Property C38 (error): an overrun is not noticed.  The writer does not look at the reader's position, so when 2048 bytes arrive before the
  reader comes back, \<^verbatim>\<open>tail\<close> has gone round to where it was, the buffer looks empty, and the polling loop handles none of
  them, however long it runs.
\<close>

theorem ring_buffer_overrun_loses_all:
  assumes "\<not> on_key s" "rx_pc s = RX_GETCHAR" "r_tail (main_ch s) = None" "r_head (main_ch s) = rb_tail (ring (main_ch s))"
    "unat (rb_tail (ring (main_ch s))) < 2048" "length cs = 2048"
  shows "stored (main_ch (fold rx_put cs s)) = stored (main_ch s) @ cs \<and>
    handled ((reader_step ^^ n) (main_ch (fold rx_put cs s))) = handled (main_ch s)"
proof -
  have puts: "\<not> on_key (fold rx_put xs s) \<and> rx_pc (fold rx_put xs s) = RX_GETCHAR \<and> stored (main_ch (fold rx_put xs s)) = stored (main_ch s) @ xs \<and>
      unat (rb_tail (ring (main_ch (fold rx_put xs s)))) = (unat (rb_tail (ring (main_ch s))) + length xs) mod 2048 \<and>
      r_tail (main_ch (fold rx_put xs s)) = None \<and> r_head (main_ch (fold rx_put xs s)) = r_head (main_ch s) \<and>
      handled (main_ch (fold rx_put xs s)) = handled (main_ch s)" for xs
  proof (induction xs rule: rev_induct)
    case (snoc x xs)
    then show ?case using rx_put_main[of "fold rx_put xs s" x] by (simp add: mod_Suc_eq)
  qed (use assms in simp)
  let ?ch = "main_ch (fold rx_put cs s)"
  have eq: "r_head ?ch = rb_tail (ring ?ch)" "r_tail ?ch = None"
    using puts[of cs] assms(4-6) by (simp_all add: word_unat_eq_iff)
  have idle: "(reader_step ^^ m) ?ch = ?ch \<or> (reader_step ^^ m) ?ch = ?ch\<lparr>r_tail := Some (rb_tail (ring ?ch))\<rparr>" for m
    using eq by (induction m) (auto simp: reader_step_def)
  show ?thesis using puts[of cs] idle[of n] by auto
qed

theorem ring_buffer_overrun_loses_all_witness:
  "stored (main_ch (fold rx_put (replicate 2048 5) (rx_demo\<lparr>on_key := False, rx_pc := RX_GETCHAR\<rparr>))) = [] @ replicate 2048 5 \<and>
    handled ((reader_step ^^ 5000) (main_ch (fold rx_put (replicate 2048 5) (rx_demo\<lparr>on_key := False, rx_pc := RX_GETCHAR\<rparr>)))) = []"
  using ring_buffer_overrun_loses_all[of "rx_demo\<lparr>on_key := False, rx_pc := RX_GETCHAR\<rparr>" "replicate 2048 5" 5000]
  by (simp add: rx_demo_def)

end
