(* ===== verification/Aes_Field.thy ===== *)
theory Aes_Field
  imports Prelude
begin

text \<open>
  The arithmetic of FIPS-197, written from the standard and independent of the tables of the code: multiplication of
  bytes as polynomials modulo \<open>x\<^sup>8 + x\<^sup>4 + x\<^sup>3 + x + 1\<close> (section 4.2), the multiplicative inverse, and the
  S-box as the inverse followed by the affine transformation (section 5.1.1). The multiplication is shown to be
  commutative and associative, so the inverse is unique.
\<close>

section \<open>Multiplication\<close>

definition xtime :: "u8 \<Rightarrow> u8" where
  "xtime p = push_bit 1 p XOR (if bit p 7 then 0x1b else 0)"

primrec gmul_steps :: "nat \<Rightarrow> u8 \<Rightarrow> u8 \<Rightarrow> u8" where
  "gmul_steps 0 a b = 0"
| "gmul_steps (Suc n) a b = (if bit b 0 then a else 0) XOR gmul_steps n (xtime a) (drop_bit 1 b)"

definition gmul :: "u8 \<Rightarrow> u8 \<Rightarrow> u8" where
  "gmul a b = gmul_steps 8 a b"

section \<open>The S-box of the standard\<close>

definition ginv :: "u8 \<Rightarrow> u8" where
  "ginv b = (case List.find (\<lambda>c. gmul b c = 1) (map word_of_nat [0..<256]) of Some c \<Rightarrow> c | None \<Rightarrow> 0)"

definition rotl8 :: "nat \<Rightarrow> u8 \<Rightarrow> u8" where
  "rotl8 n b = push_bit n b XOR drop_bit (8 - n) b"

definition affine :: "u8 \<Rightarrow> u8" where
  "affine b = b XOR rotl8 1 b XOR rotl8 2 b XOR rotl8 3 b XOR rotl8 4 b XOR 0x63"

definition Sbox :: "u8 \<Rightarrow> u8" where
  "Sbox b = affine (ginv b)"

section \<open>The inverse is unique\<close>

lemma xtime_xor [simp]: "xtime (a XOR b) = xtime a XOR xtime b"
  by (auto simp: xtime_def bit_xor_iff push_bit_xor ac_simps)

lemma xtime_0 [simp]: "xtime 0 = 0"
  by (simp add: xtime_def)

lemma gmul_steps_xor:
  "gmul_steps n (a XOR a') b = gmul_steps n a b XOR gmul_steps n a' b"
  "gmul_steps n a (b XOR b') = gmul_steps n a b XOR gmul_steps n a b'"
  by (induction n arbitrary: a a' b b') (simp_all add: bit_xor_iff drop_bit_xor ac_simps)

lemma gmul_steps_xtime: "gmul_steps n (xtime a) b = xtime (gmul_steps n a b)"
  by (induction n arbitrary: a b) simp_all

lemma gmul_linear: "xor_linear (gmul a)" "xor_linear (\<lambda>a. gmul a b)"
  by (simp_all add: xor_linear_def gmul_def gmul_steps_xor)

lemma gmul_zero [simp]: "gmul 0 b = 0" "gmul a 0 = 0"
  using gmul_linear by (metis xor_linear_0)+

lemma byte_basis:
  assumes "i < LENGTH(8)"
  shows "(2 :: u8) ^ i \<in> {1, 2, 4, 8, 16, 32, 64, 128}"
proof -
  from assms have "i \<in> {0, 1, 2, 3, 4, 5, 6, 7}" by simp arith
  then show ?thesis by auto
qed

lemma xtime_pow:
  "(xtime ^^ 4) a = xtime (xtime (xtime (xtime a)))" "(xtime ^^ 5) a = xtime (xtime (xtime (xtime (xtime a))))"
  "(xtime ^^ 6) a = xtime (xtime (xtime (xtime (xtime (xtime a)))))"
  "(xtime ^^ 7) a = xtime (xtime (xtime (xtime (xtime (xtime (xtime a))))))"
  "(xtime ^^ 8) a = xtime (xtime (xtime (xtime (xtime (xtime (xtime (xtime a)))))))"
  by (simp_all add: eval_nat_numeral)

lemma gmul_steps_8:
  "gmul a b = gmul_steps (Suc (Suc (Suc (Suc (Suc (Suc (Suc (Suc 0)))))))) a b"
  by (simp add: gmul_def numeral_eq_Suc)

lemma bit_drop_bit_1: "bit (drop_bit 1 b) n = bit b (Suc n)" for b :: u8
  by (simp add: bit_drop_bit_eq)

lemma gmul_bits:
  "gmul a b = (if bit b 0 then a else 0) XOR (if bit b 1 then xtime a else 0) XOR
     (if bit b 2 then xtime (xtime a) else 0) XOR (if bit b 3 then xtime (xtime (xtime a)) else 0) XOR
     (if bit b 4 then (xtime ^^ 4) a else 0) XOR (if bit b 5 then (xtime ^^ 5) a else 0) XOR
     (if bit b 6 then (xtime ^^ 6) a else 0) XOR (if bit b 7 then (xtime ^^ 7) a else 0)"
  unfolding gmul_steps_8 xtime_pow gmul_steps.simps bit_drop_bit_1
  by (simp only: numeral_eq_Suc pred_numeral_simps BitM.simps One_nat_def numeral_One xor.right_neutral)

lemma gmul_basis:
  "gmul a 1 = a" "gmul a 2 = xtime a" "gmul a 4 = xtime (xtime a)" "gmul a 8 = xtime (xtime (xtime a))"
  "gmul a 16 = (xtime ^^ 4) a" "gmul a 32 = (xtime ^^ 5) a" "gmul a 64 = (xtime ^^ 6) a" "gmul a 128 = (xtime ^^ 7) a"
  by (simp_all add: gmul_bits)

lemma one_gmul [simp]: "gmul 1 b = b"
proof (rule xor_linear_eqI[where x = b and f = "gmul 1", OF gmul_linear(1) xor_linear_id])
  fix i assume "i < LENGTH(8)"
  from byte_basis[OF this] show "gmul 1 (2 ^ i) = 2 ^ i"
    by (elim insertE) (simp_all add: gmul_basis xtime_pow xtime_def)
qed

lemma gmul_xtime_left: "gmul (xtime a) b = xtime (gmul a b)"
  by (simp add: gmul_def gmul_steps_xtime)

lemma xtime_linear: "xor_linear xtime"
  by (simp add: xor_linear_def)

text \<open>The reduction polynomial: eight steps of \<open>xtime\<close> are the multiplication by \<open>x\<^sup>4 + x\<^sup>3 + x + 1\<close>.\<close>

lemma gmul_1b: "gmul a 0x1b = (xtime ^^ 8) a"
proof (rule xor_linear_eqI[where x = a and f = "\<lambda>a. gmul a 0x1b", OF gmul_linear(2)
      xor_linear_funpow[OF xtime_linear]])
  fix i assume "i < LENGTH(8)"
  have x: "(0x1b :: u8) = 16 XOR 8 XOR 2 XOR 1" by simp
  from byte_basis[OF \<open>i < LENGTH(8)\<close>] show "gmul (2 ^ i) 0x1b = (xtime ^^ 8) (2 ^ i)"
    unfolding x xor_linearD[OF gmul_linear(1)] gmul_basis
    by (elim insertE) (simp_all add: xtime_pow xtime_def)
qed

lemma gmul_xtime_right: "gmul a (xtime b) = xtime (gmul a b)"
proof (rule xor_linear_eqI[where x = b and f = "\<lambda>b. gmul a (xtime b)"])
  show "xor_linear (\<lambda>b. gmul a (xtime b))" "xor_linear (\<lambda>b. xtime (gmul a b))"
    by (rule xor_linear_comp[OF gmul_linear(1) xtime_linear] xor_linear_comp[OF xtime_linear gmul_linear(1)])+
  fix i assume "i < LENGTH(8)"
  have "xtime 1 = 2" "xtime 2 = 4" "xtime 4 = 8" "xtime 8 = 16" "xtime 16 = 32" "xtime 32 = 64" "xtime 64 = 128"
    "xtime 128 = 0x1b" by (simp_all add: xtime_def)
  with byte_basis[OF \<open>i < LENGTH(8)\<close>] show "gmul a (xtime (2 ^ i)) = xtime (gmul a (2 ^ i))"
    by (elim insertE) (simp_all add: gmul_basis gmul_1b xtime_pow)
qed

lemma power2_xtime:
  assumes "i < LENGTH(8)"
  shows "(2 :: u8) ^ i = (xtime ^^ i) 1"
proof -
  from assms have "i \<in> {0, 1, 2, 3, 4, 5, 6, 7}" by simp arith
  then show ?thesis by (elim insertE) (simp_all add: xtime_pow xtime_def numeral_2_eq_2 numeral_3_eq_3)
qed

lemma gmul_funpow:
  "gmul ((xtime ^^ n) a) b = (xtime ^^ n) (gmul a b)" "gmul a ((xtime ^^ n) b) = (xtime ^^ n) (gmul a b)"
  by (induction n) (simp_all add: gmul_xtime_left gmul_xtime_right)

lemma gmul_commute: "gmul a b = gmul b a"
proof (rule xor_linear_eqI[where x = b and f = "gmul a", OF gmul_linear])
  fix i assume "i < LENGTH(8)"
  then show "gmul a (2 ^ i) = gmul (2 ^ i) a"
    by (simp add: power2_xtime gmul_funpow gmul_basis(1))
qed

lemma gmul_assoc: "gmul (gmul a b) c = gmul a (gmul b c)"
proof (rule xor_linear_eqI[where x = c and f = "gmul (gmul a b)", OF gmul_linear(1)
      xor_linear_comp[OF gmul_linear(1) gmul_linear(1)]])
  fix i assume "i < LENGTH(8)"
  then show "gmul (gmul a b) (2 ^ i) = gmul a (gmul b (2 ^ i))"
    by (simp add: power2_xtime gmul_funpow gmul_basis(1))
qed

lemma byte_in_upt: "(c :: u8) \<in> set (map word_of_nat [0..<256])"
proof -
  have "unat c < 2 ^ LENGTH(8)" by (rule unsigned_less)
  then have "unat c \<in> set [0..<256]" unfolding set_upt by simp
  then show ?thesis unfolding set_map by (intro image_eqI[where x = "unat c"]) simp_all
qed

lemma gmul_inverse_unique: "gmul b c = 1 \<Longrightarrow> gmul b d = 1 \<Longrightarrow> d = c"
  by (metis gmul_assoc gmul_commute one_gmul)

lemma find_inverse: "c \<in> set xs \<Longrightarrow> gmul b c = 1 \<Longrightarrow> List.find (\<lambda>c. gmul b c = 1) xs = Some c"
  by (induction xs) (auto dest: gmul_inverse_unique)

lemma ginv_eq: "gmul b c = 1 \<Longrightarrow> ginv b = c"
  by (simp only: ginv_def find_inverse[OF byte_in_upt] option.case)

lemma ginv_0: "ginv 0 = 0"
proof -
  have "List.find (\<lambda>c. gmul 0 c = 1) xs = None" for xs by (simp add: find_None_iff)
  then show ?thesis by (simp only: ginv_def option.case)
qed

text \<open>The affine map is a bijection; its inverse takes a table entry back to the field element it comes from.\<close>

definition unaffine :: "u8 \<Rightarrow> u8" where
  "unaffine b = rotl8 1 b XOR rotl8 3 b XOR rotl8 6 b XOR 0x05"

lemma affine_unaffine: "affine (unaffine b) = b"
proof -
  let ?m = "\<lambda>b. b XOR rotl8 1 b XOR rotl8 2 b XOR rotl8 3 b XOR rotl8 4 b"
  let ?u = "\<lambda>b. rotl8 1 b XOR rotl8 3 b XOR rotl8 6 b"
  have r: "xor_linear (rotl8 n)" for n
    by (simp add: xor_linear_def rotl8_def push_bit_xor drop_bit_xor ac_simps)
  have m: "xor_linear ?m" and u: "xor_linear ?u" by (intro xor_linear_intros r)+
  have "?m (?u b) = b"
  proof (rule xor_linear_eqI[where x = b and f = "\<lambda>b. ?m (?u b)", OF xor_linear_comp[OF m u] xor_linear_id])
    fix i assume "i < LENGTH(8)"
    from byte_basis[OF this] show "?m (?u (2 ^ i)) = 2 ^ i"
      by (elim insertE) (simp_all add: rotl8_def)
  qed
  moreover have "?m (?u b XOR 0x05) = ?m (?u b) XOR ?m 0x05" by (rule xor_linearD[OF m])
  moreover have "?m 0x05 = 0x63" by (simp add: rotl8_def)
  ultimately show ?thesis by (simp add: affine_def unaffine_def ac_simps)
qed

lemma Sbox_eqI:
  assumes "gmul b (unaffine s) = 1"
  shows "Sbox b = s"
  using ginv_eq[OF assms] by (simp add: Sbox_def affine_unaffine)

end
