(* ===== verification/Aes_Tables.thy ===== *)
theory Aes_Tables
  imports Aes_Field
begin

text \<open>
  The fixed tables of the AES code, \<^verbatim>\<open>GEC-block/src/aestab.c\<close> with the macros of \<^verbatim>\<open>aesopt.h\<close> and \<^verbatim>\<open>aestab.h\<close>
  for the configuration of the library (\<^verbatim>\<open>FIXED_TABLES\<close>, four tables everywhere, little-endian words,
  \<^verbatim>\<open>SAFE_IO\<close>), and the algebra behind them: the S-box tables are inverse to each other, the column
  constants are the MixColumns matrix and its inverse.
\<close>

section \<open>Words and bytes\<close>

definition bytes2word :: "u32 \<Rightarrow> u32 \<Rightarrow> u32 \<Rightarrow> u32 \<Rightarrow> u32" where
  "bytes2word b0 b1 b2 b3 = push_bit 24 b3 OR push_bit 16 b2 OR push_bit 8 b1 OR b0"

definition bval :: "u32 \<Rightarrow> nat \<Rightarrow> u32" where
  "bval x n = drop_bit (8 * n) x AND 0xff"

definition word_in :: "bytes \<Rightarrow> nat \<Rightarrow> u32" where
  "word_in x c = bytes2word (ucast (x ! (4 * c))) (ucast (x ! (4 * c + 1)))
     (ucast (x ! (4 * c + 2))) (ucast (x ! (4 * c + 3)))"

definition word_out :: "bytes \<Rightarrow> nat \<Rightarrow> u32 \<Rightarrow> bytes" where
  "word_out x c v = x[4 * c := ucast (bval v 0), 4 * c + 1 := ucast (bval v 1),
     4 * c + 2 := ucast (bval v 2), 4 * c + 3 := ucast (bval v 3)]"

section \<open>The field macros\<close>

abbreviation WPOLY :: u32 where "WPOLY \<equiv> 0x011b"

definition f2 :: "u32 \<Rightarrow> u32" where
  "f2 x = push_bit 1 x XOR ((drop_bit 7 x AND 1) * WPOLY)"

definition f4 :: "u32 \<Rightarrow> u32" where
  "f4 x = push_bit 2 x XOR ((drop_bit 6 x AND 1) * WPOLY) XOR ((drop_bit 6 x AND 2) * WPOLY)"

definition f8 :: "u32 \<Rightarrow> u32" where
  "f8 x = push_bit 3 x XOR ((drop_bit 5 x AND 1) * WPOLY) XOR ((drop_bit 5 x AND 2) * WPOLY)
     XOR ((drop_bit 5 x AND 4) * WPOLY)"

definition f3 :: "u32 \<Rightarrow> u32" where "f3 x = f2 x XOR x"

definition f9 :: "u32 \<Rightarrow> u32" where "f9 x = f8 x XOR x"

definition fb :: "u32 \<Rightarrow> u32" where "fb x = f8 x XOR f2 x XOR x"

definition fd :: "u32 \<Rightarrow> u32" where "fd x = f8 x XOR f4 x XOR x"

definition fe :: "u32 \<Rightarrow> u32" where "fe x = f8 x XOR f4 x XOR f2 x"

section \<open>The tables\<close>

definition sb_data :: "u32 list" where
  "sb_data = [
    0x63, 0x7c, 0x77, 0x7b, 0xf2, 0x6b, 0x6f, 0xc5, 0x30, 0x01, 0x67, 0x2b, 0xfe, 0xd7, 0xab, 0x76,
    0xca, 0x82, 0xc9, 0x7d, 0xfa, 0x59, 0x47, 0xf0, 0xad, 0xd4, 0xa2, 0xaf, 0x9c, 0xa4, 0x72, 0xc0,
    0xb7, 0xfd, 0x93, 0x26, 0x36, 0x3f, 0xf7, 0xcc, 0x34, 0xa5, 0xe5, 0xf1, 0x71, 0xd8, 0x31, 0x15,
    0x04, 0xc7, 0x23, 0xc3, 0x18, 0x96, 0x05, 0x9a, 0x07, 0x12, 0x80, 0xe2, 0xeb, 0x27, 0xb2, 0x75,
    0x09, 0x83, 0x2c, 0x1a, 0x1b, 0x6e, 0x5a, 0xa0, 0x52, 0x3b, 0xd6, 0xb3, 0x29, 0xe3, 0x2f, 0x84,
    0x53, 0xd1, 0x00, 0xed, 0x20, 0xfc, 0xb1, 0x5b, 0x6a, 0xcb, 0xbe, 0x39, 0x4a, 0x4c, 0x58, 0xcf,
    0xd0, 0xef, 0xaa, 0xfb, 0x43, 0x4d, 0x33, 0x85, 0x45, 0xf9, 0x02, 0x7f, 0x50, 0x3c, 0x9f, 0xa8,
    0x51, 0xa3, 0x40, 0x8f, 0x92, 0x9d, 0x38, 0xf5, 0xbc, 0xb6, 0xda, 0x21, 0x10, 0xff, 0xf3, 0xd2,
    0xcd, 0x0c, 0x13, 0xec, 0x5f, 0x97, 0x44, 0x17, 0xc4, 0xa7, 0x7e, 0x3d, 0x64, 0x5d, 0x19, 0x73,
    0x60, 0x81, 0x4f, 0xdc, 0x22, 0x2a, 0x90, 0x88, 0x46, 0xee, 0xb8, 0x14, 0xde, 0x5e, 0x0b, 0xdb,
    0xe0, 0x32, 0x3a, 0x0a, 0x49, 0x06, 0x24, 0x5c, 0xc2, 0xd3, 0xac, 0x62, 0x91, 0x95, 0xe4, 0x79,
    0xe7, 0xc8, 0x37, 0x6d, 0x8d, 0xd5, 0x4e, 0xa9, 0x6c, 0x56, 0xf4, 0xea, 0x65, 0x7a, 0xae, 0x08,
    0xba, 0x78, 0x25, 0x2e, 0x1c, 0xa6, 0xb4, 0xc6, 0xe8, 0xdd, 0x74, 0x1f, 0x4b, 0xbd, 0x8b, 0x8a,
    0x70, 0x3e, 0xb5, 0x66, 0x48, 0x03, 0xf6, 0x0e, 0x61, 0x35, 0x57, 0xb9, 0x86, 0xc1, 0x1d, 0x9e,
    0xe1, 0xf8, 0x98, 0x11, 0x69, 0xd9, 0x8e, 0x94, 0x9b, 0x1e, 0x87, 0xe9, 0xce, 0x55, 0x28, 0xdf,
    0x8c, 0xa1, 0x89, 0x0d, 0xbf, 0xe6, 0x42, 0x68, 0x41, 0x99, 0x2d, 0x0f, 0xb0, 0x54, 0xbb, 0x16]"

definition isb_data :: "u32 list" where
  "isb_data = [
    0x52, 0x09, 0x6a, 0xd5, 0x30, 0x36, 0xa5, 0x38, 0xbf, 0x40, 0xa3, 0x9e, 0x81, 0xf3, 0xd7, 0xfb,
    0x7c, 0xe3, 0x39, 0x82, 0x9b, 0x2f, 0xff, 0x87, 0x34, 0x8e, 0x43, 0x44, 0xc4, 0xde, 0xe9, 0xcb,
    0x54, 0x7b, 0x94, 0x32, 0xa6, 0xc2, 0x23, 0x3d, 0xee, 0x4c, 0x95, 0x0b, 0x42, 0xfa, 0xc3, 0x4e,
    0x08, 0x2e, 0xa1, 0x66, 0x28, 0xd9, 0x24, 0xb2, 0x76, 0x5b, 0xa2, 0x49, 0x6d, 0x8b, 0xd1, 0x25,
    0x72, 0xf8, 0xf6, 0x64, 0x86, 0x68, 0x98, 0x16, 0xd4, 0xa4, 0x5c, 0xcc, 0x5d, 0x65, 0xb6, 0x92,
    0x6c, 0x70, 0x48, 0x50, 0xfd, 0xed, 0xb9, 0xda, 0x5e, 0x15, 0x46, 0x57, 0xa7, 0x8d, 0x9d, 0x84,
    0x90, 0xd8, 0xab, 0x00, 0x8c, 0xbc, 0xd3, 0x0a, 0xf7, 0xe4, 0x58, 0x05, 0xb8, 0xb3, 0x45, 0x06,
    0xd0, 0x2c, 0x1e, 0x8f, 0xca, 0x3f, 0x0f, 0x02, 0xc1, 0xaf, 0xbd, 0x03, 0x01, 0x13, 0x8a, 0x6b,
    0x3a, 0x91, 0x11, 0x41, 0x4f, 0x67, 0xdc, 0xea, 0x97, 0xf2, 0xcf, 0xce, 0xf0, 0xb4, 0xe6, 0x73,
    0x96, 0xac, 0x74, 0x22, 0xe7, 0xad, 0x35, 0x85, 0xe2, 0xf9, 0x37, 0xe8, 0x1c, 0x75, 0xdf, 0x6e,
    0x47, 0xf1, 0x1a, 0x71, 0x1d, 0x29, 0xc5, 0x89, 0x6f, 0xb7, 0x62, 0x0e, 0xaa, 0x18, 0xbe, 0x1b,
    0xfc, 0x56, 0x3e, 0x4b, 0xc6, 0xd2, 0x79, 0x20, 0x9a, 0xdb, 0xc0, 0xfe, 0x78, 0xcd, 0x5a, 0xf4,
    0x1f, 0xdd, 0xa8, 0x33, 0x88, 0x07, 0xc7, 0x31, 0xb1, 0x12, 0x10, 0x59, 0x27, 0x80, 0xec, 0x5f,
    0x60, 0x51, 0x7f, 0xa9, 0x19, 0xb5, 0x4a, 0x0d, 0x2d, 0xe5, 0x7a, 0x9f, 0x93, 0xc9, 0x9c, 0xef,
    0xa0, 0xe0, 0x3b, 0x4d, 0xae, 0x2a, 0xf5, 0xb0, 0xc8, 0xeb, 0xbb, 0x3c, 0x83, 0x53, 0x99, 0x61,
    0x17, 0x2b, 0x04, 0x7e, 0xba, 0x77, 0xd6, 0x26, 0xe1, 0x69, 0x14, 0x63, 0x55, 0x21, 0x0c, 0x7d]"

definition mm_data :: "u32 list" where
  "mm_data = map word_of_nat [0..<256]"

definition rc_data :: "u32 list" where
  "rc_data = [0x01, 0x02, 0x04, 0x08, 0x10, 0x20, 0x40, 0x80, 0x1b, 0x36]"

definition w0 :: "u32 \<Rightarrow> u32" where "w0 p = bytes2word p 0 0 0"
definition w1 :: "u32 \<Rightarrow> u32" where "w1 p = bytes2word 0 p 0 0"
definition w2 :: "u32 \<Rightarrow> u32" where "w2 p = bytes2word 0 0 p 0"
definition w3 :: "u32 \<Rightarrow> u32" where "w3 p = bytes2word 0 0 0 p"

definition u0 :: "u32 \<Rightarrow> u32" where "u0 p = bytes2word (f2 p) p p (f3 p)"
definition u1 :: "u32 \<Rightarrow> u32" where "u1 p = bytes2word (f3 p) (f2 p) p p"
definition u2 :: "u32 \<Rightarrow> u32" where "u2 p = bytes2word p (f3 p) (f2 p) p"
definition u3 :: "u32 \<Rightarrow> u32" where "u3 p = bytes2word p p (f3 p) (f2 p)"

definition v0 :: "u32 \<Rightarrow> u32" where "v0 p = bytes2word (fe p) (f9 p) (fd p) (fb p)"
definition v1 :: "u32 \<Rightarrow> u32" where "v1 p = bytes2word (fb p) (fe p) (f9 p) (fd p)"
definition v2 :: "u32 \<Rightarrow> u32" where "v2 p = bytes2word (fd p) (fb p) (fe p) (f9 p)"
definition v3 :: "u32 \<Rightarrow> u32" where "v3 p = bytes2word (f9 p) (fd p) (fb p) (fe p)"

definition t_rc :: "u32 list" where "t_rc = map w0 rc_data"
definition t_fn :: "u32 list list" where "t_fn = [map u0 sb_data, map u1 sb_data, map u2 sb_data, map u3 sb_data]"
definition t_fl :: "u32 list list" where "t_fl = [map w0 sb_data, map w1 sb_data, map w2 sb_data, map w3 sb_data]"
definition t_in :: "u32 list list" where "t_in = [map v0 isb_data, map v1 isb_data, map v2 isb_data, map v3 isb_data]"
definition t_il :: "u32 list list" where "t_il = [map w0 isb_data, map w1 isb_data, map w2 isb_data, map w3 isb_data]"
definition t_im :: "u32 list list" where "t_im = [map v0 mm_data, map v1 mm_data, map v2 mm_data, map v3 mm_data]"

section \<open>The S-boxes are inverse\<close>

lemma length_tables [simp]:
  "length sb_data = 256" "length isb_data = 256" "length mm_data = 256" "length rc_data = 10"
  by (simp_all add: sb_data_def isb_data_def mm_data_def rc_data_def)

lemma isb_sb_data: "map (\<lambda>b. isb_data ! unat b) sb_data = mm_data"
  unfolding mm_data_def sb_data_def isb_data_def
  by (simp add: upt_conv_Cons)

lemma table_bytes: "list_all (\<lambda>b. b \<le> 255) sb_data" "list_all (\<lambda>b. b \<le> 255) isb_data"
  by (simp_all add: sb_data_def isb_data_def)

text \<open>The S-box and its inverse as functions on bytes.\<close>

definition InvSbox :: "u8 \<Rightarrow> u8" where
  "InvSbox b = ucast (isb_data ! unat b)"

lemma unat_u8_less [simp]: "unat (b :: u8) < 256"
proof -
  have "unat b < 2 ^ LENGTH(8)" by (rule unsigned_less)
  then show ?thesis by simp
qed

lemma unat_ucast_u8: "unat (ucast (b :: u8) :: u32) = unat b"
  using unat_u8_less[of b] by (simp add: unsigned_ucast_eq take_bit_nat_eq_self del: unat_u8_less)

lemma ucast_up_down: "ucast (ucast (b :: u8) :: u32) = b"
  by (rule bit_word_eqI) (auto simp: bit_simps)

lemma ucast_ucast_byte: "(w :: u32) \<le> 255 \<Longrightarrow> ucast (ucast w :: u8) = w"
proof -
  assume "w \<le> 255"
  then have "unat w < 256" by (simp add: word_le_nat_alt)
  then show ?thesis by (simp add: word_unat_eq_iff unsigned_ucast_eq unsigned_take_bit_eq take_bit_nat_eq_self)
qed

text \<open>The table \<open>sb_data\<close> holds the S-box of the standard: each entry but the first, taken back through the affine map,
  is the inverse of its index.\<close>

lemma sb_data_0: "Sbox 0 = ucast (sb_data ! 0)"
  by (simp add: Sbox_def ginv_0 affine_def rotl8_def sb_data_def)

definition sbox_entry :: "u8 \<Rightarrow> u8 \<Rightarrow> bool" where
  "sbox_entry b s \<longleftrightarrow> gmul b (unaffine s) = 1"

lemma sb_data_inverses:
  "list_all2 sbox_entry (map word_of_nat [1..<256]) (map ucast (tl sb_data))"
  unfolding sb_data_def
  by (simp add: upt_conv_Cons sbox_entry_def gmul_bits unaffine_def rotl8_def xtime_pow xtime_def)

lemma ucast_Sbox [simp]: "ucast (Sbox b) = sb_data ! unat b"
proof -
  have "Sbox b = ucast (sb_data ! unat b)"
  proof (cases "b = 0")
    case True
    then show ?thesis by (simp add: sb_data_0)
  next
    case False
    then have n: "0 < unat b" "unat b < 256" by (simp_all add: unat_gt_0)
    then have "unat b - 1 < 255" by linarith
    with list_all2_nthD2[OF sb_data_inverses, of "unat b - 1"] n
    have "gmul (word_of_nat (unat b)) (unaffine (ucast (sb_data ! unat b))) = 1"
      by (simp add: nth_tl sbox_entry_def)
    then show ?thesis using Sbox_eqI by simp
  qed
  then show ?thesis using table_bytes(1) by (simp add: ucast_ucast_byte list_all_length)
qed

lemma ucast_InvSbox [simp]: "ucast (InvSbox b) = isb_data ! unat b"
  using table_bytes(2) by (simp add: InvSbox_def ucast_ucast_byte list_all_length)

lemma InvSbox_Sbox [simp]: "InvSbox (Sbox b) = b"
proof -
  have "unat (sb_data ! unat b) = unat (Sbox b)"
    unfolding ucast_Sbox[symmetric] by (simp add: unat_ucast_u8 del: ucast_Sbox)
  then have "isb_data ! unat (Sbox b) = map (\<lambda>b. isb_data ! unat b) sb_data ! unat b" by simp
  also have "\<dots> = word_of_nat (unat b)" unfolding isb_sb_data by (simp add: mm_data_def)
  also have "\<dots> = ucast b" by simp
  finally show ?thesis by (simp add: InvSbox_def ucast_up_down)
qed

section \<open>Bytes of a word\<close>

definition byte :: "u32 \<Rightarrow> nat \<Rightarrow> u8" where
  "byte w j = ucast (bval w j)"

definition wob :: "u8 \<Rightarrow> u8 \<Rightarrow> u8 \<Rightarrow> u8 \<Rightarrow> u32" where
  "wob b0 b1 b2 b3 = bytes2word (ucast b0) (ucast b1) (ucast b2) (ucast b3)"

lemma u32_and_ff: "(x :: u32) AND 0xff = take_bit 8 x"
proof -
  have m: "(0xff :: u32) = mask 8" by (simp add: mask_numeral)
  show ?thesis unfolding m by (simp add: take_bit_eq_mask)
qed

lemma ucast_byte [simp]: "ucast (byte w j) = bval w j"
  unfolding byte_def bval_def u32_and_ff by (rule bit_word_eqI) (auto simp: bit_simps)

lemma byte_xor [simp]: "byte (a XOR b) j = byte a j XOR byte b j"
  unfolding byte_def bval_def u32_and_ff by (rule bit_word_eqI) (auto simp: bit_simps)

lemma byte_wob [simp]:
  "byte (wob b0 b1 b2 b3) 0 = b0" "byte (wob b0 b1 b2 b3) (Suc 0) = b1"
  "byte (wob b0 b1 b2 b3) 2 = b2" "byte (wob b0 b1 b2 b3) 3 = b3"
  unfolding byte_def bval_def u32_and_ff wob_def bytes2word_def
  by (rule bit_word_eqI; auto simp: bit_simps dest: bit_imp_le_length)+

lemma wob_byte [simp]: "wob (byte w 0) (byte w (Suc 0)) (byte w 2) (byte w 3) = w"
  unfolding byte_def bval_def u32_and_ff wob_def bytes2word_def
proof (rule bit_word_eqI)
  fix n assume "n < LENGTH(32)"
  then consider "n < 8" | "8 \<le> n" "n < 16" | "16 \<le> n" "n < 24" | "24 \<le> n" "n < 32" by fastforce
  then show "bit (push_bit 24 (ucast (ucast (take_bit 8 (drop_bit (8 * 3) w)) :: u8)) OR
      push_bit 16 (ucast (ucast (take_bit 8 (drop_bit (8 * 2) w)) :: u8)) OR
      push_bit 8 (ucast (ucast (take_bit 8 (drop_bit (8 * Suc 0) w)) :: u8)) OR
      ucast (ucast (take_bit 8 (drop_bit (8 * 0) w)) :: u8) :: u32) n = bit w n"
    by cases (auto simp: bit_simps)
qed

lemma wob_eqI:
  "byte v 0 = b0 \<Longrightarrow> byte v (Suc 0) = b1 \<Longrightarrow> byte v 2 = b2 \<Longrightarrow> byte v 3 = b3 \<Longrightarrow> v = wob b0 b1 b2 b3"
  using wob_byte[of v] by simp

lemma wob_xor:
  "wob a0 a1 a2 a3 XOR wob b0 b1 b2 b3 = wob (a0 XOR b0) (a1 XOR b1) (a2 XOR b2) (a3 XOR b3)"
  by (rule wob_eqI) simp_all

section \<open>The field\<close>

lemma bit_mult_and:
  "(drop_bit n x AND 1) * c = (if bit x n then c else 0)" for x c :: u32
  by (simp add: and_one_eq bit_iff_odd_drop_bit mod_2_eq_odd)

lemma bit_mult_and_2:
  "(drop_bit n x AND 2) * c = (if bit x (Suc n) then 2 * c else 0)" for x c :: u32
proof -
  have "drop_bit n x AND 2 = (if bit x (Suc n) then 2 else 0)"
    by (rule bit_word_eqI) (auto simp: bit_simps bit_2_iff)
  then show ?thesis by simp
qed

lemma bit_mult_and_4:
  "(drop_bit n x AND 4) * c = (if bit x (Suc (Suc n)) then 4 * c else 0)" for x c :: u32
proof -
  have "bit (2 ^ 2 :: u32) k \<longleftrightarrow> k = 2" for k by (simp only: bit_exp_iff) auto
  then have m: "bit (4 :: u32) k \<longleftrightarrow> k = 2" for k by simp
  have "drop_bit n x AND 4 = (if bit x (Suc (Suc n)) then 4 else 0)"
    by (rule bit_word_eqI, cases "bit x (Suc (Suc n))")
      (simp_all only: bit_and_iff bit_drop_bit_eq comp_apply m if_True if_False bit_0_eq bot_apply, auto)
  then show ?thesis by simp
qed

lemmas f_linear_defs = f2_def f4_def f8_def bit_mult_and bit_mult_and_2 bit_mult_and_4

lemma f_xor:
  "f2 (a XOR b) = f2 a XOR f2 b" "f4 (a XOR b) = f4 a XOR f4 b" "f8 (a XOR b) = f8 a XOR f8 b"
  unfolding f_linear_defs by (auto simp: bit_xor_iff push_bit_xor ac_simps)

text \<open>On bytes, the macros are iterated \<open>xtime\<close>.\<close>

lemma f_basis:
  assumes "p \<in> {1, 2, 4, 8, 16, 32, 64, 128 :: u8}"
  shows "f2 (ucast p) = ucast (xtime p)" "f4 (ucast p) = ucast (xtime (xtime p))"
    "f8 (ucast p) = ucast (xtime (xtime (xtime p)))"
  using assms by (auto simp: f2_def f4_def f8_def xtime_def)

lemma f_ucast [simp]:
  "f2 (ucast p) = ucast (xtime p)" "f4 (ucast p) = ucast (xtime (xtime p))"
  "f8 (ucast p) = ucast (xtime (xtime (xtime p)))"
  by (rule xor_linear_eqI[where x = p]; auto intro!: xor_linearI simp: f_xor ucast_xor f_basis[OF byte_basis])+

lemma fn_ucast [simp]:
  "f3 (ucast p) = ucast (xtime p XOR p)"
  "f9 (ucast p) = ucast (xtime (xtime (xtime p)) XOR p)"
  "fb (ucast p) = ucast (xtime (xtime (xtime p)) XOR xtime p XOR p)"
  "fd (ucast p) = ucast (xtime (xtime (xtime p)) XOR xtime (xtime p) XOR p)"
  "fe (ucast p) = ucast (xtime (xtime (xtime p)) XOR xtime (xtime p) XOR xtime p)"
  by (simp_all add: f3_def f9_def fb_def fd_def fe_def ucast_xor)

end
