(* ===== verification/Aes.thy ===== *)
theory Aes
  imports Aes_Tables
begin

text \<open>
  AES-128 as \<^verbatim>\<open>GEC-block/src/aescrypt.c\<close> and \<^verbatim>\<open>aeskey.c\<close> implement it: fully unrolled rounds over four 32-bit
  columns with combined tables, and the two key schedules, the decryption one in reverse order
  (\<^verbatim>\<open>AES_REV_DKS\<close>) with the inverse column mix folded in.
\<close>

section \<open>Round functions\<close>

definition fwd_var :: "u32 list \<Rightarrow> nat \<Rightarrow> nat \<Rightarrow> u32" where
  "fwd_var x r c =
    (if r = 0 then (if c = 0 then x ! 0 else if c = 1 then x ! 1 else if c = 2 then x ! 2 else x ! 3)
     else if r = 1 then (if c = 0 then x ! 1 else if c = 1 then x ! 2 else if c = 2 then x ! 3 else x ! 0)
     else if r = 2 then (if c = 0 then x ! 2 else if c = 1 then x ! 3 else if c = 2 then x ! 0 else x ! 1)
     else (if c = 0 then x ! 3 else if c = 1 then x ! 0 else if c = 2 then x ! 1 else x ! 2))"

definition inv_var :: "u32 list \<Rightarrow> nat \<Rightarrow> nat \<Rightarrow> u32" where
  "inv_var x r c =
    (if r = 0 then (if c = 0 then x ! 0 else if c = 1 then x ! 1 else if c = 2 then x ! 2 else x ! 3)
     else if r = 1 then (if c = 0 then x ! 3 else if c = 1 then x ! 0 else if c = 2 then x ! 1 else x ! 2)
     else if r = 2 then (if c = 0 then x ! 2 else if c = 1 then x ! 3 else if c = 2 then x ! 0 else x ! 1)
     else (if c = 0 then x ! 1 else if c = 1 then x ! 2 else if c = 2 then x ! 3 else x ! 0))"

definition vf1 :: "u32 \<Rightarrow> nat \<Rightarrow> nat \<Rightarrow> u32" where "vf1 x r c = x"

definition rf1 :: "nat \<Rightarrow> nat \<Rightarrow> nat" where "rf1 r c = r"

definition rf2 :: "nat \<Rightarrow> nat \<Rightarrow> nat" where "rf2 r c = (8 + r - c) AND 3"

definition four_tables ::
    "'x \<Rightarrow> u32 list list \<Rightarrow> ('x \<Rightarrow> nat \<Rightarrow> nat \<Rightarrow> u32) \<Rightarrow> (nat \<Rightarrow> nat \<Rightarrow> nat) \<Rightarrow> nat \<Rightarrow> u32" where
  "four_tables x tab vf rf c =
     tab ! 0 ! unat (bval (vf x 0 c) (rf 0 c)) XOR tab ! 1 ! unat (bval (vf x 1 c) (rf 1 c)) XOR
     tab ! 2 ! unat (bval (vf x 2 c) (rf 2 c)) XOR tab ! 3 ! unat (bval (vf x 3 c) (rf 3 c))"

definition inv_mcol :: "u32 \<Rightarrow> u32" where
  "inv_mcol x = four_tables x t_im vf1 rf1 0"

definition ls_box :: "u32 \<Rightarrow> nat \<Rightarrow> u32" where
  "ls_box x c = four_tables x t_fl vf1 rf2 c"

text \<open>A round reads the state \<open>x\<close> and the round key at \<open>ks + kp\<close>.\<close>

definition fwd_rnd :: "u32 list \<Rightarrow> u32 list \<Rightarrow> nat \<Rightarrow> nat \<Rightarrow> u32" where
  "fwd_rnd x ks kp c = ks ! (kp + c) XOR four_tables x t_fn fwd_var rf1 c"

definition fwd_lrnd :: "u32 list \<Rightarrow> u32 list \<Rightarrow> nat \<Rightarrow> nat \<Rightarrow> u32" where
  "fwd_lrnd x ks kp c = ks ! (kp + c) XOR four_tables x t_fl fwd_var rf1 c"

definition inv_rnd :: "u32 list \<Rightarrow> u32 list \<Rightarrow> nat \<Rightarrow> nat \<Rightarrow> u32" where
  "inv_rnd x ks kp c = ks ! (kp + c) XOR four_tables x t_in inv_var rf1 c"

definition inv_lrnd :: "u32 list \<Rightarrow> u32 list \<Rightarrow> nat \<Rightarrow> nat \<Rightarrow> u32" where
  "inv_lrnd x ks kp c = ks ! (kp + c) XOR four_tables x t_il inv_var rf1 c"

definition aes_round :: "(u32 list \<Rightarrow> u32 list \<Rightarrow> nat \<Rightarrow> nat \<Rightarrow> u32) \<Rightarrow> u32 list \<Rightarrow> nat \<Rightarrow> u32 list \<Rightarrow> u32 list" where
  "aes_round rm ks kp x = [rm x ks kp 0, rm x ks kp 1, rm x ks kp 2, rm x ks kp 3]"

definition state_in :: "bytes \<Rightarrow> u32 list \<Rightarrow> nat \<Rightarrow> u32 list" where
  "state_in inp ks kp = [word_in inp 0 XOR ks ! kp, word_in inp 1 XOR ks ! (kp + 1),
     word_in inp 2 XOR ks ! (kp + 2), word_in inp 3 XOR ks ! (kp + 3)]"

definition state_out :: "bytes \<Rightarrow> u32 list \<Rightarrow> bytes" where
  "state_out out x = word_out (word_out (word_out (word_out out 0 (x ! 0)) 1 (x ! 1)) 2 (x ! 2)) 3 (x ! 3)"

section \<open>Contexts and the cipher\<close>

text \<open>\<^verbatim>\<open>aes_encrypt_ctx\<close> and \<^verbatim>\<open>aes_decrypt_ctx\<close> have the same fields; \<^verbatim>\<open>inf\<close> is read through its bytes.\<close>

record aes_ctx =
  ks :: "u32 list"
  inf :: bytes

abbreviation N_COLS :: nat where "N_COLS \<equiv> 4"
abbreviation KS_LENGTH :: nat where "KS_LENGTH \<equiv> 44"

text \<open>The switch falls through from 14 to 12 to 10 rounds, moving the key pointer.\<close>

definition aes_encrypt :: "bytes \<Rightarrow> bytes \<Rightarrow> aes_ctx \<Rightarrow> int \<times> bytes" where
  "aes_encrypt inp out cx =
    (let n = inf cx ! 0; k = ks cx;
         two = (\<lambda>(b0, kp). (aes_round fwd_rnd k (kp + 2 * N_COLS) (aes_round fwd_rnd k (kp + 1 * N_COLS) b0),
                            kp + 2 * N_COLS))
     in if n \<noteq> 160 \<and> n \<noteq> 192 \<and> n \<noteq> 224 then (-1, out)
        else
          let p0 = (state_in inp k 0, 0);
              p1 = (if n = 224 then two p0 else p0);
              (b0, kp) = (if n = 224 \<or> n = 192 then two p1 else p1);
              b = fold (\<lambda>r b. aes_round fwd_rnd k (kp + r * N_COLS) b) [1..<10] b0
          in (0, state_out out (aes_round fwd_lrnd k (kp + 10 * N_COLS) b)))"

text \<open>With \<^verbatim>\<open>AES_REV_DKS\<close>, \<^verbatim>\<open>key_ofs\<close> is 0 and \<^verbatim>\<open>rnd_key(-n)\<close> is \<^verbatim>\<open>kp - n * N_COLS\<close> with \<^verbatim>\<open>kp = ks + (inf.b[0] >> 2)\<close>.\<close>

definition aes_decrypt :: "bytes \<Rightarrow> bytes \<Rightarrow> aes_ctx \<Rightarrow> int \<times> bytes" where
  "aes_decrypt inp out cx =
    (let n = inf cx ! 0; k = ks cx; kp = unat (drop_bit 2 n);
         rnd = (\<lambda>r b. aes_round inv_rnd k (kp - r * N_COLS) b)
     in if n \<noteq> 160 \<and> n \<noteq> 192 \<and> n \<noteq> 224 then (-1, out)
        else
          let b0 = state_in inp k 0;
              b1 = (if n = 224 then rnd 12 (rnd 13 b0) else b0);
              b2 = (if n = 224 \<or> n = 192 then rnd 10 (rnd 11 b1) else b1);
              b = fold rnd (rev [1..<10]) b2
          in (0, state_out out (aes_round inv_lrnd k kp b)))"

section \<open>Key schedules\<close>

definition ke4 :: "nat \<Rightarrow> u32 list \<times> u32 list \<Rightarrow> u32 list \<times> u32 list" where
  "ke4 i p = (case p of (k, ss) \<Rightarrow>
     let s0 = ss ! 0 XOR (ls_box (ss ! 3) 3 XOR t_rc ! i);
         s1 = ss ! 1 XOR s0;
         s2 = ss ! 2 XOR s1;
         s3 = ss ! 3 XOR s2
     in (k[4 * i + 4 := s0, 4 * i + 5 := s1, 4 * i + 6 := s2, 4 * i + 7 := s3], [s0, s1, s2, s3]))"

definition aes_encrypt_key128 :: "bytes \<Rightarrow> aes_ctx \<Rightarrow> int \<times> aes_ctx" where
  "aes_encrypt_key128 key cx =
    (let ss = [word_in key 0, word_in key 1, word_in key 2, word_in key 3];
         k = (ks cx)[0 := ss ! 0, 1 := ss ! 1, 2 := ss ! 2, 3 := ss ! 3];
         (k', _) = fold ke4 [0..<10] (k, ss)
     in (0, cx\<lparr>ks := k', inf := [160, 0, 0, 0]\<rparr>))"

definition rev_idx :: "nat \<Rightarrow> nat \<Rightarrow> nat" where
  "rev_idx n i = n + 2 * (i AND 3) - i"

text \<open>
  The last four statements of \<^verbatim>\<open>kdf4\<close> and \<^verbatim>\<open>kd4\<close>: \<open>g\<close> (\<^verbatim>\<open>ss[4]\<close>) runs along the previous round key and \<open>f g\<close>
  is stored; \<open>f\<close> is \<^verbatim>\<open>ff\<close> in \<^verbatim>\<open>kdf4\<close>, and nothing in \<^verbatim>\<open>kd4\<close>.
\<close>

definition kd_store :: "(u32 \<Rightarrow> u32) \<Rightarrow> nat \<Rightarrow> u32 \<Rightarrow> u32 list \<Rightarrow> u32 list" where
  "kd_store f i g k =
    (let g = g XOR k ! rev_idx 40 (4 * i);
         k = k[rev_idx 40 (4 * i + 4) := f g];
         g = g XOR k ! rev_idx 40 (4 * i + 1);
         k = k[rev_idx 40 (4 * i + 5) := f g];
         g = g XOR k ! rev_idx 40 (4 * i + 2);
         k = k[rev_idx 40 (4 * i + 6) := f g];
         g = g XOR k ! rev_idx 40 (4 * i + 3)
     in k[rev_idx 40 (4 * i + 7) := f g])"

definition kdf4 :: "nat \<Rightarrow> u32 list \<times> u32 list \<Rightarrow> u32 list \<times> u32 list" where
  "kdf4 i p = (case p of (k, ss) \<Rightarrow>
     let ss = ss[0 := ss ! 0 XOR ss ! 2 XOR ss ! 1 XOR ss ! 3];
         ss = ss[1 := ss ! 1 XOR ss ! 3];
         ss = ss[2 := ss ! 2 XOR ss ! 3];
         g = ls_box (ss ! ((i + 3) mod 4)) 3 XOR t_rc ! i;
         ss = ss[i mod 4 := ss ! (i mod 4) XOR g]
     in (kd_store inv_mcol i g k, ss))"

definition kd4 :: "nat \<Rightarrow> u32 list \<times> u32 list \<Rightarrow> u32 list \<times> u32 list" where
  "kd4 i p = (case p of (k, ss) \<Rightarrow>
     let g = ls_box (ss ! ((i + 3) mod 4)) 3 XOR t_rc ! i;
         ss = ss[i mod 4 := ss ! (i mod 4) XOR g]
     in (kd_store (\<lambda>x. x) i (inv_mcol g) k, ss))"

definition kdl4 :: "nat \<Rightarrow> u32 list \<times> u32 list \<Rightarrow> u32 list \<times> u32 list" where
  "kdl4 i p = (case p of (k, ss) \<Rightarrow>
     let g = ls_box (ss ! ((i + 3) mod 4)) 3 XOR t_rc ! i;
         ss = ss[i mod 4 := ss ! (i mod 4) XOR g];
         ss = ss[0 := ss ! 0 XOR ss ! 1];
         k = k[rev_idx 40 (4 * i + 4) := ss ! 0 XOR ss ! 2 XOR ss ! 3];
         k = k[rev_idx 40 (4 * i + 5) := ss ! 1 XOR ss ! 3];
         k = k[rev_idx 40 (4 * i + 6) := ss ! 0];
         k = k[rev_idx 40 (4 * i + 7) := ss ! 1]
     in (k, ss))"

definition aes_decrypt_key128 :: "bytes \<Rightarrow> aes_ctx \<Rightarrow> int \<times> aes_ctx" where
  "aes_decrypt_key128 key cx =
    (let ss = [word_in key 0, word_in key 1, word_in key 2, word_in key 3];
         k = (ks cx)[rev_idx 40 0 := ss ! 0, rev_idx 40 1 := ss ! 1, rev_idx 40 2 := ss ! 2, rev_idx 40 3 := ss ! 3];
         (k', _) = kdl4 9 (fold kd4 [1..<9] (kdf4 0 (k, ss)))
     in (0, cx\<lparr>ks := k', inf := [160, 0, 0, 0]\<rparr>))"

end
