(* ===== verification/Aes_Correct.thy ===== *)
theory Aes_Correct
  imports Aes
begin

text \<open>
  Correctness of the AES code: the unrolled table code computes the rounds of FIPS-197 on the
  bytes of the state, the key schedule is the key expansion of FIPS-197, and decryption with the
  reversed, mixed schedule undoes encryption.
\<close>

declare ucast_byte [simp del] ucast_Sbox [simp del] ucast_InvSbox [simp del]

section \<open>What the tables compute\<close>

lemma unat_bval: "unat (bval w j) = unat (byte w j)"
  using unat_ucast_u8[of "byte w j"] by (simp add: ucast_byte)

lemma wob_macros:
  "w0 (ucast p) = wob p 0 0 0" "w1 (ucast p) = wob 0 p 0 0" "w2 (ucast p) = wob 0 0 p 0" "w3 (ucast p) = wob 0 0 0 p"
  "u0 (ucast p) = wob (xtime p) p p (xtime p XOR p)" "u1 (ucast p) = wob (xtime p XOR p) (xtime p) p p"
  "u2 (ucast p) = wob p (xtime p XOR p) (xtime p) p" "u3 (ucast p) = wob p p (xtime p XOR p) (xtime p)"
  by (simp_all add: wob_def w0_def w1_def w2_def w3_def u0_def u1_def u2_def u3_def)

definition m9 :: "u8 \<Rightarrow> u8" where "m9 p = xtime (xtime (xtime p)) XOR p"
definition mb :: "u8 \<Rightarrow> u8" where "mb p = xtime (xtime (xtime p)) XOR xtime p XOR p"
definition md :: "u8 \<Rightarrow> u8" where "md p = xtime (xtime (xtime p)) XOR xtime (xtime p) XOR p"
definition me :: "u8 \<Rightarrow> u8" where "me p = xtime (xtime (xtime p)) XOR xtime (xtime p) XOR xtime p"

lemmas m_defs = m9_def mb_def md_def me_def

lemma m_xor:
  "m9 (a XOR b) = m9 a XOR m9 b" "mb (a XOR b) = mb a XOR mb b"
  "md (a XOR b) = md a XOR md b" "me (a XOR b) = me a XOR me b"
  by (simp_all add: m_defs ac_simps)

lemma wob_v:
  "v0 (ucast p) = wob (me p) (m9 p) (md p) (mb p)" "v1 (ucast p) = wob (mb p) (me p) (m9 p) (md p)"
  "v2 (ucast p) = wob (md p) (mb p) (me p) (m9 p)" "v3 (ucast p) = wob (m9 p) (md p) (mb p) (me p)"
  by (simp_all add: wob_def v0_def v1_def v2_def v3_def m_defs)

lemma table_lookup:
  "map f sb_data ! unat (bval w j) = f (ucast (Sbox (byte w j)))"
  "map f isb_data ! unat (bval w j) = f (ucast (InvSbox (byte w j)))"
  "map f mm_data ! unat (bval w j) = f (ucast (byte w j))"
  by (simp_all add: unat_bval mm_data_def ucast_Sbox ucast_InvSbox)

definition mix_word :: "u32 \<Rightarrow> u32" where
  "mix_word w = wob (xtime (byte w 0) XOR xtime (byte w 1) XOR byte w 1 XOR byte w 2 XOR byte w 3)
     (byte w 0 XOR xtime (byte w 1) XOR xtime (byte w 2) XOR byte w 2 XOR byte w 3)
     (byte w 0 XOR byte w 1 XOR xtime (byte w 2) XOR xtime (byte w 3) XOR byte w 3)
     (xtime (byte w 0) XOR byte w 0 XOR byte w 1 XOR byte w 2 XOR xtime (byte w 3))"

definition imix_word :: "u32 \<Rightarrow> u32" where
  "imix_word w = wob (me (byte w 0) XOR mb (byte w 1) XOR md (byte w 2) XOR m9 (byte w 3))
     (m9 (byte w 0) XOR me (byte w 1) XOR mb (byte w 2) XOR md (byte w 3))
     (md (byte w 0) XOR m9 (byte w 1) XOR me (byte w 2) XOR mb (byte w 3))
     (mb (byte w 0) XOR md (byte w 1) XOR m9 (byte w 2) XOR me (byte w 3))"

lemma imix_word_xor: "imix_word (a XOR b) = imix_word a XOR imix_word b"
  by (simp add: imix_word_def wob_xor m_xor ac_simps)

lemma imix_mix_word [simp]: "imix_word (mix_word w) = w"
proof -
  have "imix_word (mix_word w) = wob (byte w 0) (byte w (Suc 0)) (byte w 2) (byte w 3)"
    by (simp add: imix_word_def mix_word_def m_defs ac_simps)
  then show ?thesis by simp
qed

lemma inv_mcol_eq: "inv_mcol w = imix_word w"
  by (simp add: inv_mcol_def four_tables_def vf1_def rf1_def t_im_def table_lookup wob_v wob_xor
      imix_word_def ac_simps)

section \<open>The rounds\<close>

text \<open>The S-box on every byte followed by the row shift, and its inverse, on four columns.\<close>

definition sub_col :: "u32 \<Rightarrow> u32 \<Rightarrow> u32 \<Rightarrow> u32 \<Rightarrow> u32" where
  "sub_col a b c d = wob (Sbox (byte a 0)) (Sbox (byte b 1)) (Sbox (byte c 2)) (Sbox (byte d 3))"

definition isub_col :: "u32 \<Rightarrow> u32 \<Rightarrow> u32 \<Rightarrow> u32 \<Rightarrow> u32" where
  "isub_col a b c d = wob (InvSbox (byte a 0)) (InvSbox (byte b 1)) (InvSbox (byte c 2)) (InvSbox (byte d 3))"

definition sub_shift :: "u32 list \<Rightarrow> u32 list" where
  "sub_shift x = [sub_col (x ! 0) (x ! 1) (x ! 2) (x ! 3), sub_col (x ! 1) (x ! 2) (x ! 3) (x ! 0),
     sub_col (x ! 2) (x ! 3) (x ! 0) (x ! 1), sub_col (x ! 3) (x ! 0) (x ! 1) (x ! 2)]"

definition isub_shift :: "u32 list \<Rightarrow> u32 list" where
  "isub_shift x = [isub_col (x ! 0) (x ! 3) (x ! 2) (x ! 1), isub_col (x ! 1) (x ! 0) (x ! 3) (x ! 2),
     isub_col (x ! 2) (x ! 1) (x ! 0) (x ! 3), isub_col (x ! 3) (x ! 2) (x ! 1) (x ! 0)]"

lemma list4: "length x = 4 \<Longrightarrow> x = [x ! 0, x ! 1, x ! 2, x ! 3]"
  by (auto simp: length_Suc_conv numeral_eq_Suc)

lemma isub_sub_shift [simp]: "length x = 4 \<Longrightarrow> isub_shift (sub_shift x) = x"
  using list4[of x] by (simp add: sub_shift_def isub_shift_def sub_col_def isub_col_def)

lemma length_sub_shift [simp]: "length (sub_shift x) = 4" "length (isub_shift x) = 4"
  by (simp_all add: sub_shift_def isub_shift_def)

definition key4 :: "u32 list \<Rightarrow> nat \<Rightarrow> u32 list" where
  "key4 k kp = [k ! kp, k ! (kp + 1), k ! (kp + 2), k ! (kp + 3)]"

definition xor4 :: "u32 list \<Rightarrow> u32 list \<Rightarrow> u32 list" where
  "xor4 a b = map2 (XOR) a b"

lemma xor4_simps [simp]:
  "length a = 4 \<Longrightarrow> length b = 4 \<Longrightarrow> length (xor4 a b) = 4"
  "xor4 (v # a) (w # b) = (v XOR w) # xor4 a b" "xor4 [] b = []"
  by (simp_all add: xor4_def)

lemma length_key4 [simp]: "length (key4 k kp) = 4" by (simp add: key4_def)

lemma fwd_tables:
  "four_tables x t_fn fwd_var rf1 c = mix_word (sub_col (fwd_var x 0 c) (fwd_var x 1 c) (fwd_var x 2 c) (fwd_var x 3 c))"
  "four_tables x t_fl fwd_var rf1 c = sub_col (fwd_var x 0 c) (fwd_var x 1 c) (fwd_var x 2 c) (fwd_var x 3 c)"
  by (simp_all add: four_tables_def rf1_def t_fn_def t_fl_def table_lookup wob_macros wob_xor mix_word_def
      sub_col_def ac_simps)

lemma inv_tables:
  "four_tables x t_in inv_var rf1 c = imix_word (isub_col (inv_var x 0 c) (inv_var x 1 c) (inv_var x 2 c) (inv_var x 3 c))"
  "four_tables x t_il inv_var rf1 c = isub_col (inv_var x 0 c) (inv_var x 1 c) (inv_var x 2 c) (inv_var x 3 c)"
  by (simp_all add: four_tables_def rf1_def t_in_def t_il_def table_lookup wob_macros wob_v wob_xor imix_word_def
      isub_col_def ac_simps)

lemma fwd_round: "aes_round fwd_rnd k kp x = xor4 (key4 k kp) (map mix_word (sub_shift x))"
  by (simp add: aes_round_def fwd_rnd_def fwd_tables key4_def sub_shift_def fwd_var_def)

lemma fwd_last: "aes_round fwd_lrnd k kp x = xor4 (key4 k kp) (sub_shift x)"
  by (simp add: aes_round_def fwd_lrnd_def fwd_tables key4_def sub_shift_def fwd_var_def)

lemma inv_round: "aes_round inv_rnd k kp x = xor4 (key4 k kp) (map imix_word (isub_shift x))"
  by (simp add: aes_round_def inv_rnd_def inv_tables key4_def isub_shift_def inv_var_def)

lemma inv_last: "aes_round inv_lrnd k kp x = xor4 (key4 k kp) (isub_shift x)"
  by (simp add: aes_round_def inv_lrnd_def inv_tables key4_def isub_shift_def inv_var_def)

section \<open>FIPS-197\<close>

text \<open>The cipher of the standard on the sixteen bytes of the state, column by column.\<close>

definition shift_rows :: "bytes \<Rightarrow> bytes" where
  "shift_rows s = map (\<lambda>i. s ! ((i + 4 * (i mod 4)) mod 16)) [0..<16]"

fun mix_columns :: "bytes \<Rightarrow> bytes" where
  "mix_columns (a # b # c # d # s) =
     (xtime a XOR (xtime b XOR b) XOR c XOR d) # (a XOR xtime b XOR (xtime c XOR c) XOR d) #
     (a XOR b XOR xtime c XOR (xtime d XOR d)) # ((xtime a XOR a) XOR b XOR c XOR xtime d) # mix_columns s"
| "mix_columns s = s"

definition add_round_key :: "bytes \<Rightarrow> bytes \<Rightarrow> bytes" where
  "add_round_key k s = map2 (XOR) k s"

definition fips_round :: "bytes \<Rightarrow> bytes \<Rightarrow> bytes" where
  "fips_round k s = add_round_key k (mix_columns (shift_rows (map Sbox s)))"

definition fips_last :: "bytes \<Rightarrow> bytes \<Rightarrow> bytes" where
  "fips_last k s = add_round_key k (shift_rows (map Sbox s))"

definition fips_cipher :: "(nat \<Rightarrow> bytes) \<Rightarrow> bytes \<Rightarrow> bytes" where
  "fips_cipher rk inp = fips_last (rk 10) (fold (\<lambda>r. fips_round (rk r)) [1..<10] (add_round_key (rk 0) inp))"

text \<open>Words and bytes of the state.\<close>

definition wbytes :: "u32 list \<Rightarrow> bytes" where
  "wbytes x = concat (map (\<lambda>w. [byte w 0, byte w 1, byte w 2, byte w 3]) x)"

lemma wbytes_simps [simp]:
  "wbytes [] = []" "wbytes (w # x) = byte w 0 # byte w 1 # byte w 2 # byte w 3 # wbytes x"
  by (simp_all add: wbytes_def)

lemma upt_16: "[0..<16] = [0, 1, 2, 3, 4, 5, 6, 7, 8, 9, 10, 11, 12, 13, 14, 15 :: nat]"
  by (simp add: upt_conv_Cons)

lemma wbytes_xor4: "wbytes (xor4 a b) = add_round_key (wbytes a) (wbytes b)"
proof (induction a arbitrary: b)
  case Nil
  then show ?case by (simp add: add_round_key_def)
next
  case (Cons w a)
  then show ?case by (cases b) (simp_all add: add_round_key_def xor4_def)
qed

lemma wbytes_mix: "wbytes (map mix_word x) = mix_columns (wbytes x)"
  by (induction x) (simp_all add: mix_word_def ac_simps)

lemma wbytes_sub_shift: "length x = 4 \<Longrightarrow> wbytes (sub_shift x) = shift_rows (map Sbox (wbytes x))"
  by (subst (2) list4) (simp_all add: shift_rows_def sub_shift_def sub_col_def upt_16)

lemma fips_round_words:
  assumes "length x = 4"
  shows "wbytes (aes_round fwd_rnd k kp x) = fips_round (wbytes (key4 k kp)) (wbytes x)"
    and "wbytes (aes_round fwd_lrnd k kp x) = fips_last (wbytes (key4 k kp)) (wbytes x)"
  using assms by (simp_all add: fwd_round fwd_last wbytes_xor4 wbytes_mix wbytes_sub_shift fips_round_def fips_last_def)

lemma word_in_wob: "word_in x c = wob (x ! (4 * c)) (x ! (4 * c + 1)) (x ! (4 * c + 2)) (x ! (4 * c + 3))"
  by (simp add: word_in_def wob_def)

definition words_in :: "bytes \<Rightarrow> u32 list" where
  "words_in inp = [word_in inp 0, word_in inp 1, word_in inp 2, word_in inp 3]"

lemma length_words_in [simp]: "length (words_in inp) = 4"
  by (simp add: words_in_def)

lemma length_aes_round [simp]: "length (aes_round rm k kp x) = 4"
  by (simp add: aes_round_def)

lemma list16:
  "length x = 16 \<Longrightarrow> x = [x ! 0, x ! 1, x ! 2, x ! 3, x ! 4, x ! 5, x ! 6, x ! 7, x ! 8, x ! 9, x ! 10, x ! 11,
     x ! 12, x ! 13, x ! 14, x ! 15]"
  using upt_16 map_nth[of x] by (metis (no_types, lifting) list.simps(8,9))

lemma state_in_xor: "state_in inp k kp = xor4 (key4 k kp) (words_in inp)"
  by (simp add: state_in_def key4_def words_in_def ac_simps)

lemma byte_wob_1: "byte (wob b0 b1 b2 b3) 1 = b1"
  by simp

lemma wbytes_word_in:
  "length inp = 16 \<Longrightarrow> wbytes (words_in inp) = inp"
  using list16[of inp] by (simp add: word_in_wob words_in_def byte_wob_1 numeral_2_eq_2[symmetric] flip: One_nat_def)

lemma state_out_eq:
  "length out = 16 \<Longrightarrow> length x = 4 \<Longrightarrow> state_out out x = wbytes x"
  by (subst (1) list16, simp, subst (5) list4) (simp_all add: state_out_def word_out_def byte_def)

lemma fold_fips_rounds:
  "length x = 4 \<Longrightarrow> length (fold (\<lambda>r. aes_round fwd_rnd k (f r)) rs x) = 4 \<and>
     wbytes (fold (\<lambda>r. aes_round fwd_rnd k (f r)) rs x) =
     fold (\<lambda>r. fips_round (wbytes (key4 k (f r)))) rs (wbytes x)"
  by (induction rs arbitrary: x) (simp_all add: fips_round_words)

lemma length_state_in [simp]: "length (state_in inp k kp) = 4"
  by (simp add: state_in_def)

definition aes_words :: "u32 list \<Rightarrow> bytes \<Rightarrow> u32 list" where
  "aes_words k inp = fold (\<lambda>r. aes_round fwd_rnd k (r * 4)) [1..<10] (state_in inp k 0)"

lemma length_aes_words [simp]: "length (aes_words k inp) = 4"
  using fold_fips_rounds[of "state_in inp k 0" k "\<lambda>r. r * 4" "[1..<10]"] by (simp add: aes_words_def)

lemma aes_encrypt_words:
  "inf cx ! 0 = 160 \<Longrightarrow> aes_encrypt inp out cx = (0, state_out out (aes_round fwd_lrnd (ks cx) 40 (aes_words (ks cx) inp)))"
  by (simp add: aes_encrypt_def aes_words_def Let_def)

lemma aes_encrypt_fips_bytes:
  assumes "inf cx ! 0 = 160" "length inp = 16" "length out = 16"
  shows "aes_encrypt inp out cx = (0, fips_cipher (\<lambda>r. wbytes (key4 (ks cx) (r * 4))) inp)"
  using assms fold_fips_rounds[of "state_in inp (ks cx) 0" "ks cx" "\<lambda>r. r * 4" "[1..<10]"]
  by (simp add: aes_encrypt_words state_out_eq fips_cipher_def fips_round_words aes_words_def
      state_in_xor wbytes_xor4 wbytes_word_in del: upt_Suc xor4_simps(2) wbytes_simps)

section \<open>Decryption undoes encryption\<close>

lemma xor4_assoc_self: "length a = 4 \<Longrightarrow> length b = 4 \<Longrightarrow> xor4 a (xor4 a b) = b"
  by (simp add: xor4_def list_eq_iff_nth_eq flip: xor.assoc)

lemma map_imix_xor4: "map imix_word (xor4 a b) = xor4 (map imix_word a) (map imix_word b)"
  unfolding xor4_def by (induction a b rule: list_induct2') (simp_all add: imix_word_xor)

text \<open>The decryption schedule holds the round keys in reverse order, mixed where both neighbours are.\<close>

definition dec_schedule :: "u32 list \<Rightarrow> u32 list \<Rightarrow> bool" where
  "dec_schedule ke kd \<longleftrightarrow> key4 kd 0 = key4 ke 40 \<and> key4 kd 40 = key4 ke 0 \<and>
     (\<forall>r \<in> {1..<10}. key4 kd (40 - r * 4) = map imix_word (key4 ke (r * 4)))"

lemma inv_fwd_round:
  assumes "key4 kd kpd = map imix_word (key4 ke kpe)" "length x = 4"
  shows "aes_round inv_rnd kd kpd (sub_shift (aes_round fwd_rnd ke kpe x)) = sub_shift x"
proof -
  let ?y = "aes_round fwd_rnd ke kpe x"
  have "aes_round inv_rnd kd kpd (sub_shift ?y) = map imix_word (xor4 (key4 ke kpe) ?y)"
    by (simp add: inv_round assms map_imix_xor4)
  also have "xor4 (key4 ke kpe) ?y = map mix_word (sub_shift x)"
    unfolding fwd_round by (rule xor4_assoc_self) simp_all
  finally show ?thesis by (simp add: comp_def)
qed

lemma fold_inv_fwd_rounds:
  assumes "\<And>r. r \<in> set rs \<Longrightarrow> key4 kd (40 - r * 4) = map imix_word (key4 ke (r * 4))" "length x = 4"
  shows "fold (\<lambda>r. aes_round inv_rnd kd (40 - r * 4)) (rev rs)
    (sub_shift (fold (\<lambda>r. aes_round fwd_rnd ke (r * 4)) rs x)) = sub_shift x"
  using assms
proof (induction rs arbitrary: x)
  case (Cons r rs)
  then show ?case by (simp add: inv_fwd_round)
qed simp

lemma aes_decrypt_words:
  assumes "inf cx ! 0 = 160"
  shows "aes_decrypt inp out cx = (0, state_out out (aes_round inv_lrnd (ks cx) 40
     (fold (\<lambda>r. aes_round inv_rnd (ks cx) (40 - r * 4)) (rev [1..<10]) (state_in inp (ks cx) 0))))"
  using assms by (simp add: aes_decrypt_def Let_def del: upt_Suc)

lemma wbytes_nth:
  assumes "length x = 4" "c < 4"
  shows "wbytes x ! (4 * c) = byte (x ! c) 0" "wbytes x ! (4 * c + 1) = byte (x ! c) 1"
    "wbytes x ! (4 * c + 2) = byte (x ! c) 2" "wbytes x ! (4 * c + 3) = byte (x ! c) 3"
proof -
  obtain a b d e where x: "x = [a, b, d, e]" using list4[OF assms(1)] by blast
  have "c \<in> {0, 1, 2, 3}" using assms(2) by auto
  then show "wbytes x ! (4 * c) = byte (x ! c) 0" "wbytes x ! (4 * c + 1) = byte (x ! c) 1"
    "wbytes x ! (4 * c + 2) = byte (x ! c) 2" "wbytes x ! (4 * c + 3) = byte (x ! c) 3"
    unfolding x by auto
qed

lemma word_in_wbytes: "length x = 4 \<Longrightarrow> c < 4 \<Longrightarrow> word_in (wbytes x) c = x ! c"
  using wob_byte[of "x ! c"] by (simp only: word_in_wob wbytes_nth) simp

lemma wbytes_state_in: "length x = 4 \<Longrightarrow> words_in (wbytes x) = x"
  using list4[of x] by (simp add: words_in_def word_in_wbytes)

lemma aes_decrypt_encrypt:
  assumes "inf ce ! 0 = 160" "inf cd ! 0 = 160" "dec_schedule (ks ce) (ks cd)"
    and "length inp = 16" "length out = 16" "length out' = 16"
  shows "aes_decrypt (snd (aes_encrypt inp out ce)) out' cd = (0, inp)"
proof -
  let ?e = "ks ce" and ?d = "ks cd"
  let ?w = "aes_words ?e inp"
  have e: "snd (aes_encrypt inp out ce) = wbytes (aes_round fwd_lrnd ?e 40 ?w)"
    using assms by (simp add: aes_encrypt_words state_out_eq)
  have "state_in (wbytes (aes_round fwd_lrnd ?e 40 ?w)) ?d 0 = xor4 (key4 ?e 40) (aes_round fwd_lrnd ?e 40 ?w)"
    using assms(3) by (simp add: state_in_xor wbytes_state_in dec_schedule_def del: xor4_simps(2))
  also have "\<dots> = sub_shift ?w"
    unfolding fwd_last by (rule xor4_assoc_self) simp_all
  finally have si: "state_in (wbytes (aes_round fwd_lrnd ?e 40 ?w)) ?d 0 = sub_shift ?w" .
  have "fold (\<lambda>r. aes_round inv_rnd ?d (40 - r * 4)) (rev [1..<10]) (sub_shift ?w) = sub_shift (state_in inp ?e 0)"
    unfolding aes_words_def using assms(3)
    by (intro fold_inv_fwd_rounds) (auto simp: dec_schedule_def)
  then have "aes_round inv_lrnd ?d 40 (fold (\<lambda>r. aes_round inv_rnd ?d (40 - r * 4)) (rev [1..<10])
     (state_in (wbytes (aes_round fwd_lrnd ?e 40 ?w)) ?d 0)) = xor4 (key4 ?e 0) (state_in inp ?e 0)"
    unfolding si using assms(3) by (simp add: inv_last dec_schedule_def)
  also have "\<dots> = words_in inp"
    unfolding state_in_xor by (rule xor4_assoc_self) simp_all
  finally show ?thesis
    using assms by (simp add: e aes_decrypt_words state_out_eq wbytes_word_in del: wbytes_simps upt_Suc)
qed

end
