(* ===== verification/Aes_Keys.thy ===== *)
theory Aes_Keys
  imports Aes_Correct
begin

text \<open>
  The two key schedules of \<^verbatim>\<open>aeskey.c\<close>: the encryption schedule is the key expansion of FIPS-197; the decryption
  schedule, which runs on linearly transformed key registers, is the same expansion in reverse order
  with the inverse column mix applied to the nine inner round keys.
\<close>

section \<open>The key expansion of the standard\<close>


definition sub_rot :: "u32 \<Rightarrow> u32" where
  "sub_rot w = wob (Sbox (byte w 1)) (Sbox (byte w 2)) (Sbox (byte w 3)) (Sbox (byte w 0))"

primrec rcon_byte :: "nat \<Rightarrow> u8" where
  "rcon_byte 0 = 1"
| "rcon_byte (Suc i) = xtime (rcon_byte i)"

definition rcon :: "nat \<Rightarrow> u32" where
  "rcon i = wob (rcon_byte i) 0 0 0"

fun key_word :: "bytes \<Rightarrow> nat \<Rightarrow> u32" where
  "key_word key i =
    (if i < 4 then word_in key i
     else if i mod 4 = 0 then key_word key (i - 4) XOR (sub_rot (key_word key (i - 1)) XOR rcon (i div 4 - 1))
     else key_word key (i - 4) XOR key_word key (i - 1))"

declare key_word.simps [simp del]

lemma ls_box_eq: "ls_box w 3 = sub_rot w"
proof -
  have "rf2 0 3 = 1" "rf2 1 3 = 2" "rf2 2 3 = 3" "rf2 3 3 = 0" by (simp_all add: rf2_def)
  then show ?thesis
    by (simp add: ls_box_def four_tables_def vf1_def t_fl_def table_lookup wob_macros wob_xor sub_rot_def)
qed

lemma rcon_byte_numeral: "rcon_byte (numeral k) = xtime (rcon_byte (pred_numeral k))"
  by (simp add: numeral_eq_Suc)

lemma t_rc_eq: "i < 10 \<Longrightarrow> t_rc ! i = rcon i"
proof -
  assume "i < 10"
  then have "i \<in> {0, 1, 2, 3, 4, 5, 6, 7, 8, 9}" by auto
  then show ?thesis
    by (auto simp: t_rc_def rc_data_def rcon_def w0_def wob_def xtime_def rcon_byte_numeral)
qed

lemma key_word_step:
  "key_word key (4 * i + 4) = key_word key (4 * i) XOR (sub_rot (key_word key (4 * i + 3)) XOR rcon i)"
  "key_word key (4 * i + 5) = key_word key (4 * i + 1) XOR key_word key (4 * i + 4)"
  "key_word key (4 * i + 6) = key_word key (4 * i + 2) XOR key_word key (4 * i + 5)"
  "key_word key (4 * i + 7) = key_word key (4 * i + 3) XOR key_word key (4 * i + 6)"
proof -
  have m: "(4 * i + 4) mod 4 = 0" "(4 * i + 4) div 4 - 1 = i" by simp_all
  have m1: "(4 * i + 5) mod 4 \<noteq> 0" "(4 * i + 6) mod 4 \<noteq> 0" "(4 * i + 7) mod 4 \<noteq> 0" by presburger+
  have s: "4 * i + 4 - 4 = 4 * i" "4 * i + 4 - 1 = 4 * i + 3" "4 * i + 5 - 4 = 4 * i + 1" "4 * i + 5 - 1 = 4 * i + 4"
    "4 * i + 6 - 4 = 4 * i + 2" "4 * i + 6 - 1 = 4 * i + 5" "4 * i + 7 - 4 = 4 * i + 3" "4 * i + 7 - 1 = 4 * i + 6"
    "\<not> 4 * i + 4 < 4" "\<not> 4 * i + 5 < 4" "\<not> 4 * i + 6 < 4" "\<not> 4 * i + 7 < 4"
    by simp_all
  show "key_word key (4 * i + 4) = key_word key (4 * i) XOR (sub_rot (key_word key (4 * i + 3)) XOR rcon i)"
    by (subst key_word.simps) (simp only: m s if_True if_False refl)
  show "key_word key (4 * i + 5) = key_word key (4 * i + 1) XOR key_word key (4 * i + 4)"
    "key_word key (4 * i + 6) = key_word key (4 * i + 2) XOR key_word key (4 * i + 5)"
    "key_word key (4 * i + 7) = key_word key (4 * i + 3) XOR key_word key (4 * i + 6)"
    by (subst key_word.simps, simp only: m1 s if_False)+
qed

definition key_block :: "bytes \<Rightarrow> nat \<Rightarrow> u32 list" where
  "key_block key i = [key_word key (4 * i), key_word key (4 * i + 1), key_word key (4 * i + 2), key_word key (4 * i + 3)]"

definition upd4 :: "u32 list \<Rightarrow> nat \<Rightarrow> u32 list \<Rightarrow> u32 list" where
  "upd4 k a w = k[a := w ! 0, a + 1 := w ! 1, a + 2 := w ! 2, a + 3 := w ! 3]"

lemma length_upd4 [simp]: "length (upd4 k a w) = length k"
  by (simp add: upd4_def)

lemma key4_upd4:
  assumes "a + 4 \<le> length k" "length w = 4"
  shows "key4 (upd4 k a w) a = w"
    and "a + 4 \<le> b \<or> b + 4 \<le> a \<Longrightarrow> key4 (upd4 k a w) b = key4 k b"
  using assms list4[of w] by (auto simp: key4_def upd4_def)

definition next_block :: "nat \<Rightarrow> u32 list \<Rightarrow> u32 list" where
  "next_block i e =
     (let a = e ! 0 XOR (sub_rot (e ! 3) XOR rcon i); b = e ! 1 XOR a; c = e ! 2 XOR b; d = e ! 3 XOR c in [a, b, c, d])"

lemma key_block_Suc: "key_block key (Suc i) = next_block i (key_block key i)"
proof -
  have "4 * Suc i = 4 * i + 4" "4 * i + 4 + 1 = 4 * i + 5" "4 * i + 4 + 2 = 4 * i + 6" "4 * i + 4 + 3 = 4 * i + 7"
    by simp_all
  then show ?thesis
    unfolding key_block_def by (simp only: key_word_step) (simp add: next_block_def Let_def)
qed

lemma length_next_block [simp]: "length (next_block i e) = 4" "length (key_block key i) = 4"
  by (simp_all add: next_block_def key_block_def Let_def)

lemma ke4_eq:
  "i < 10 \<Longrightarrow> ke4 i (k, e) = (upd4 k (4 * i + 4) (next_block i e), next_block i e)"
  by (simp add: ke4_def Let_def ls_box_eq t_rc_eq upd4_def next_block_def add.commute)

lemma kb_0: "key_block key 0 = words_in key"
  by (simp add: key_block_def words_in_def key_word.simps numeral_2_eq_2)

lemma fold_ke4:
  assumes "length k = 44" "key4 k 0 = key_block key 0" "n \<le> 10"
  shows "\<exists>k'. fold ke4 [0..<n] (k, key_block key 0) = (k', key_block key n) \<and> length k' = 44 \<and>
    (\<forall>r \<le> n. key4 k' (4 * r) = key_block key r)"
  using assms(3)
proof (induction n)
  case 0
  then show ?case using assms by simp
next
  case (Suc n)
  then obtain k' where k': "fold ke4 [0..<n] (k, key_block key 0) = (k', key_block key n)" "length k' = 44"
    "\<forall>r \<le> n. key4 k' (4 * r) = key_block key r" by auto
  let ?k = "upd4 k' (4 * n + 4) (key_block key (Suc n))"
  have "key4 ?k (4 * r) = key_block key r" if "r \<le> Suc n" for r
  proof (cases "r = Suc n")
    case True
    have "4 * n + 4 + 4 \<le> length k'" using k'(2) Suc.prems by simp
    from key4_upd4(1)[OF this, of "key_block key (Suc n)"] True show ?thesis by (simp add: add.commute)
  next
    case False
    then show ?thesis
      using that key4_upd4(2)[of "4 * n + 4" k' "key_block key (Suc n)" "4 * r"] k'(2,3) Suc.prems by simp
  qed
  then show ?case using k'(1,2) Suc.prems by (simp add: ke4_eq key_block_Suc)
qed

lemma aes_encrypt_key128_blocks:
  assumes "length (ks cx) = 44"
  shows "\<exists>cx'. aes_encrypt_key128 key cx = (0, cx') \<and> inf cx' ! 0 = 160 \<and> length (ks cx') = 44 \<and>
    (\<forall>r \<le> 10. key4 (ks cx') (4 * r) = key_block key r)"
proof -
  let ?k = "upd4 (ks cx) 0 (words_in key)"
  have "key4 ?k 0 = key_block key 0"
    using assms key4_upd4(1)[of 0 "ks cx" "words_in key"] by (simp add: kb_0)
  from fold_ke4[OF _ this, of 10] assms obtain k' where
    k': "fold ke4 [0..<10] (?k, key_block key 0) = (k', key_block key 10)" "length k' = 44"
      "\<forall>r \<le> 10. key4 k' (4 * r) = key_block key r" by auto
  have "aes_encrypt_key128 key cx = (0, cx\<lparr>ks := k', inf := [160, 0, 0, 0]\<rparr>)"
    using k'(1) unfolding kb_0 by (simp add: aes_encrypt_key128_def Let_def upd4_def words_in_def del: upt_Suc flip: numeral_2_eq_2)
  then show ?thesis using k'(2,3) by simp
qed

section \<open>The decryption schedule\<close>

lemma and_3_mod: "(n :: nat) AND 3 = n mod 4"
proof -
  have m: "(3 :: nat) = mask 2" by (simp add: mask_eq_exp_minus_1)
  show ?thesis unfolding m take_bit_eq_mask[symmetric] by (simp add: take_bit_eq_mod)
qed

lemma rev_idx_val: "c < 4 \<Longrightarrow> rev_idx 40 (4 * q + c) = 40 + c - 4 * q"
  by (simp add: rev_idx_def and_3_mod)

lemma rev_idx_vals:
  assumes "4 * i + a = 36"
  shows "rev_idx 40 (4 * i) = a + 4" "rev_idx 40 (4 * i + 1) = a + 5" "rev_idx 40 (4 * i + 2) = a + 6"
    "rev_idx 40 (4 * i + 3) = a + 7" "rev_idx 40 (4 * i + 4) = a" "rev_idx 40 (4 * i + 5) = a + 1"
    "rev_idx 40 (4 * i + 6) = a + 2" "rev_idx 40 (4 * i + 7) = a + 3"
proof -
  have a: "a = 36 - 4 * i" "4 * i \<le> 36" using assms by simp_all
  then show "rev_idx 40 (4 * i) = a + 4" "rev_idx 40 (4 * i + 1) = a + 5" "rev_idx 40 (4 * i + 2) = a + 6"
    "rev_idx 40 (4 * i + 3) = a + 7"
    using rev_idx_val[of 0 i] rev_idx_val[of 1 i] rev_idx_val[of 2 i] rev_idx_val[of 3 i] by auto
  show "rev_idx 40 (4 * i + 4) = a" using rev_idx_val[of 0 "i + 1"] a by (simp add: add.commute)
  show "rev_idx 40 (4 * i + 5) = a + 1" using rev_idx_val[of 1 "i + 1"] a by (simp add: add.commute)
  show "rev_idx 40 (4 * i + 6) = a + 2" using rev_idx_val[of 2 "i + 1"] a by (simp add: add.commute)
  show "rev_idx 40 (4 * i + 7) = a + 3" using rev_idx_val[of 3 "i + 1"] a by (simp add: add.commute)
qed

text \<open>
  The transformed key registers: before cycle \<open>i\<close> the register at \<open>i mod 4\<close> holds the sum of the four
  words of round key \<open>i\<close>, the next two the sums with the last word, and the last the last word.
\<close>

definition dec_regs :: "nat \<Rightarrow> u32 list \<Rightarrow> u32 list \<Rightarrow> bool" where
  "dec_regs i e ss \<longleftrightarrow> length ss = 4 \<and> ss ! (i mod 4) = e ! 0 XOR e ! 1 XOR e ! 2 XOR e ! 3 \<and>
     ss ! ((i + 1) mod 4) = e ! 1 XOR e ! 3 \<and> ss ! ((i + 2) mod 4) = e ! 2 XOR e ! 3 \<and>
     ss ! ((i + 3) mod 4) = e ! 3"

lemma dec_regs_step:
  assumes "dec_regs i e ss"
  shows "dec_regs (Suc i) (next_block i e) (ss[i mod 4 := ss ! (i mod 4) XOR (sub_rot (e ! 3) XOR rcon i)])"
proof -
  have "(Suc i + 1) mod 4 = (i + 2) mod 4" "(Suc i + 2) mod 4 = (i + 3) mod 4" "(Suc i + 3) mod 4 = i mod 4"
    "Suc i mod 4 \<noteq> i mod 4" "(i + 1) mod 4 \<noteq> i mod 4" "(i + 2) mod 4 \<noteq> i mod 4" "(i + 3) mod 4 \<noteq> i mod 4" "i mod 4 < 4"
    by presburger+
  then show ?thesis using assms by (simp add: dec_regs_def next_block_def Let_def ac_simps)
qed

lemma kd_store_eq:
  assumes "4 * i + a = 36"
  shows "kd_store f i g k = upd4 k a [f (g XOR k ! (a + 4)), f (g XOR k ! (a + 4) XOR k ! (a + 5)),
    f (g XOR k ! (a + 4) XOR k ! (a + 5) XOR k ! (a + 6)),
    f (g XOR k ! (a + 4) XOR k ! (a + 5) XOR k ! (a + 6) XOR k ! (a + 7))]"
  unfolding kd_store_def Let_def rev_idx_vals[OF assms]
  by (simp add: upd4_def ac_simps flip: numeral_2_eq_2)

lemma key4_nths:
  assumes "key4 k (a + 4) = e"
  shows "k ! (a + 4) = e ! 0" "k ! (a + 5) = e ! 1" "k ! (a + 6) = e ! 2" "k ! (a + 7) = e ! 3"
  using assms by (auto simp: key4_def numeral_eq_Suc)

lemma kd4_eq:
  assumes "4 * i + a = 36" "dec_regs i e ss" "key4 k (a + 4) = map imix_word e" "length e = 4"
  shows "kd4 i (k, ss) = (upd4 k a (map imix_word (next_block i e)),
    ss[i mod 4 := ss ! (i mod 4) XOR (sub_rot (e ! 3) XOR rcon i)])"
proof -
  have "ss ! ((i + 3) mod 4) = e ! 3" using assms(2) by (simp add: dec_regs_def)
  moreover have "t_rc ! i = rcon i" using assms(1) by (intro t_rc_eq) simp
  ultimately show ?thesis
    using key4_nths[OF assms(3)] assms(4)
    by (simp add: kd4_def Let_def kd_store_eq[OF assms(1)] ls_box_eq inv_mcol_eq next_block_def imix_word_xor ac_simps)
qed

lemma kdf4_eq:
  assumes "key4 k 40 = e" "length e = 4"
  shows "\<exists>ss. kdf4 0 (k, e) = (upd4 k 36 (map imix_word (next_block 0 e)), ss) \<and> dec_regs 1 (next_block 0 e) ss"
proof -
  have rc: "t_rc ! 0 = rcon 0" by (intro t_rc_eq) simp
  have idx: "4 * 0 + 36 = (36 :: nat)" by simp
  obtain a b c d where e: "e = [a, b, c, d]" using list4[OF assms(2)] by blast
  have regs: "dec_regs 0 e [a XOR c XOR b XOR d, b XOR d, c XOR d, d]"
    by (simp add: dec_regs_def e ac_simps)
  have "kdf4 0 (k, e) = (upd4 k 36 (map imix_word (next_block 0 e)),
      [a XOR c XOR b XOR d, b XOR d, c XOR d, d][0 mod 4 := (a XOR c XOR b XOR d) XOR (sub_rot d XOR rcon 0)])"
    using key4_nths[of k 36 e] assms(1)
    by (simp add: kdf4_def e Let_def kd_store_eq[OF idx] ls_box_eq rc inv_mcol_eq next_block_def ac_simps)
  then show ?thesis using dec_regs_step[OF regs] by (simp add: e)
qed

lemma kdl4_eq:
  assumes "dec_regs 9 e ss" "length k = 44"
  shows "fst (kdl4 9 (k, ss)) = upd4 k 0 (next_block 9 e)"
proof -
  have rc: "t_rc ! 9 = rcon 9" by (intro t_rc_eq) simp
  have idx: "4 * 9 + 0 = (36 :: nat)" by simp
  obtain s0 s1 s2 s3 where ss: "ss = [s0, s1, s2, s3]" using assms(1) list4[of ss] by (auto simp: dec_regs_def)
  have s: "s1 = e ! 0 XOR e ! 1 XOR e ! 2 XOR e ! 3" "s2 = e ! 1 XOR e ! 3" "s3 = e ! 2 XOR e ! 3" "s0 = e ! 3"
    using assms(1) by (simp_all add: dec_regs_def ss)
  show ?thesis
    unfolding kdl4_def Let_def prod.case rev_idx_vals[OF idx] rc
    by (simp add: ss s upd4_def next_block_def Let_def ls_box_eq ac_simps flip: numeral_2_eq_2)
qed

lemma fold_kd4:
  assumes "dec_regs 1 (key_block key 1) ss" "length k = 44" "key4 k 40 = key_block key 0"
    "key4 k 36 = map imix_word (key_block key 1)" "1 \<le> n" "n \<le> 9"
  shows "\<exists>k' ss'. fold kd4 [1..<n] (k, ss) = (k', ss') \<and> length k' = 44 \<and> dec_regs n (key_block key n) ss' \<and>
    key4 k' 40 = key_block key 0 \<and> (\<forall>r \<in> {1..n}. key4 k' (40 - r * 4) = map imix_word (key_block key r))"
  using assms(5,6)
proof (induction n rule: nat_induct_at_least)
  case base
  then show ?case using assms by simp
next
  case (Suc n)
  then obtain k' ss' where IH: "fold kd4 [1..<n] (k, ss) = (k', ss')" "length k' = 44"
    "dec_regs n (key_block key n) ss'" "key4 k' 40 = key_block key 0"
    "\<forall>r \<in> {1..n}. key4 k' (40 - r * 4) = map imix_word (key_block key r)" by auto
  let ?a = "36 - 4 * n"
  have a: "4 * n + ?a = 36" "?a + 4 = 40 - n * 4" using Suc.prems by auto
  define k2 where "k2 = upd4 k' ?a (map imix_word (key_block key (Suc n)))"
  have fit: "?a + 4 \<le> length k'" using IH(2) Suc.hyps by auto
  have "key4 k' (?a + 4) = map imix_word (key_block key n)" using IH(5) Suc.hyps a by auto
  from kd4_eq[OF a(1) IH(3) this]
  have step: "fold kd4 [1..<Suc n] (k, ss) = (k2,
      ss'[n mod 4 := ss' ! (n mod 4) XOR (sub_rot (key_block key n ! 3) XOR rcon n)])"
    using IH(1) Suc.hyps by (simp add: k2_def key_block_Suc)
  note upd = key4_upd4[OF fit, of "map imix_word (key_block key (Suc n))", folded k2_def]
  have "key4 k2 (40 - r * 4) = map imix_word (key_block key r)" if "r \<in> {1..Suc n}" for r
  proof (cases "r = Suc n")
    case True
    then have "40 - r * 4 = ?a" by simp
    then show ?thesis using upd(1) True by simp
  next
    case False
    then have "?a + 4 \<le> 40 - r * 4" "r \<in> {1..n}" using that Suc.prems by auto
    then show ?thesis using upd(2) IH(5) by simp
  qed
  moreover have "key4 k2 40 = key_block key 0" using upd(2)[of 40] IH(4) Suc.hyps by simp
  moreover have "length k2 = 44" using IH(2) by (simp add: k2_def)
  ultimately show ?case using step dec_regs_step[OF IH(3)] by (simp add: key_block_Suc)
qed

lemma aes_decrypt_key128_blocks:
  assumes "length (ks cx) = 44"
  shows "\<exists>cx'. aes_decrypt_key128 key cx = (0, cx') \<and> inf cx' ! 0 = 160 \<and> length (ks cx') = 44 \<and>
    key4 (ks cx') 0 = key_block key 10 \<and> key4 (ks cx') 40 = key_block key 0 \<and>
    (\<forall>r \<in> {1..<10}. key4 (ks cx') (40 - r * 4) = map imix_word (key_block key r))"
proof -
  let ?e = "words_in key"
  define k0 where "k0 = upd4 (ks cx) 40 ?e"
  have k0: "key4 k0 40 = ?e" "length k0 = 44"
    using assms key4_upd4(1)[of 40 "ks cx" ?e] by (simp_all add: k0_def)
  from kdf4_eq[OF k0(1)] obtain ss where
    f: "kdf4 0 (k0, ?e) = (upd4 k0 36 (map imix_word (key_block key 1)), ss)" "dec_regs 1 (key_block key 1) ss"
    by (auto simp: key_block_Suc[of key 0] kb_0)
  let ?k1 = "upd4 k0 36 (map imix_word (key_block key 1))"
  have k1: "length ?k1 = 44" "key4 ?k1 40 = key_block key 0" "key4 ?k1 36 = map imix_word (key_block key 1)"
    using k0 key4_upd4[of 36 k0 "map imix_word (key_block key 1)"] by (simp_all add: kb_0)
  from fold_kd4[OF f(2) k1, of 9] obtain k2 ss2 where
    k2: "fold kd4 [1..<9] (?k1, ss) = (k2, ss2)" "length k2 = 44" "dec_regs 9 (key_block key 9) ss2"
      "key4 k2 40 = key_block key 0" "\<forall>r \<in> {1..9}. key4 k2 (40 - r * 4) = map imix_word (key_block key r)"
    by auto
  have kb10: "next_block 9 (key_block key 9) = key_block key 10" using key_block_Suc[of key 9] by simp
  let ?k3 = "upd4 k2 0 (key_block key 10)"
  have "fst (kdl4 9 (k2, ss2)) = ?k3" using kdl4_eq[OF k2(3,2)] by (simp add: kb10)
  moreover have "rev_idx 40 0 = 40" "rev_idx 40 1 = 41" "rev_idx 40 2 = 42" "rev_idx 40 3 = 43"
    by (simp_all add: rev_idx_def and_3_mod)
  ultimately have "aes_decrypt_key128 key cx = (0, cx\<lparr>ks := ?k3, inf := [160, 0, 0, 0]\<rparr>)"
    using f(1) k2(1) unfolding aes_decrypt_key128_def k0_def upd4_def[of "ks cx"]
    by (simp add: Let_def words_in_def split_def del: upt_Suc)
  moreover have "key4 ?k3 0 = key_block key 10" "key4 ?k3 b = key4 k2 b" if "4 \<le> b" for b
    using key4_upd4[of 0 k2 "key_block key 10"] that k2(2) by simp_all
  ultimately show ?thesis using k2 by auto
qed

section \<open>Properties\<close>

definition fips_round_key :: "bytes \<Rightarrow> nat \<Rightarrow> bytes" where
  "fips_round_key key r = wbytes (map (key_word key) [4 * r, 4 * r + 1, 4 * r + 2, 4 * r + 3])"

lemma fips_round_key_block: "fips_round_key key r = wbytes (key_block key r)"
  by (simp add: fips_round_key_def key_block_def)

lemma fips_cipher_cong:
  "(\<And>r. r \<le> 10 \<Longrightarrow> rk r = rk' r) \<Longrightarrow> fips_cipher rk inp = fips_cipher rk' inp"
  unfolding fips_cipher_def by (auto intro!: arg_cong2[where f = fips_last] fold_cong)

text \<open>
  Property C9 (refinement).  With a context filled by \<^verbatim>\<open>aes_encrypt_key128\<close>, \<^verbatim>\<open>aes_encrypt\<close> succeeds and writes the
  AES-128 encryption of the block by the cipher of FIPS-197 under the key expansion of FIPS-197. The S-box of the
  standard is \<open>Sbox\<close> of \<open>Aes_Field\<close>, the inverse in the field of 256 elements followed by the affine map; that the
  code's table \<open>sb_data\<close> holds its 256 values is part of what is proved.
\<close>

theorem aes_encrypt_is_fips197:
  assumes "length (ks cx) = KS_LENGTH" "length inp = 16" "length out = 16"
  shows "fst (aes_encrypt_key128 key cx) = 0 \<and>
    aes_encrypt inp out (snd (aes_encrypt_key128 key cx)) = (0, fips_cipher (fips_round_key key) inp)"
proof -
  obtain cx' where cx': "aes_encrypt_key128 key cx = (0, cx')" "inf cx' ! 0 = 160"
    "\<forall>r \<le> 10. key4 (ks cx') (4 * r) = key_block key r"
    using aes_encrypt_key128_blocks[OF assms(1)] by blast
  have "aes_encrypt inp out cx' = (0, fips_cipher (\<lambda>r. wbytes (key4 (ks cx') (r * 4))) inp)"
    by (rule aes_encrypt_fips_bytes[OF cx'(2) assms(2,3)])
  also have "fips_cipher (\<lambda>r. wbytes (key4 (ks cx') (r * 4))) inp = fips_cipher (fips_round_key key) inp"
    using cx'(3) by (intro fips_cipher_cong) (simp add: fips_round_key_block mult.commute)
  finally show ?thesis by (simp add: cx')
qed

definition fresh_ctx :: aes_ctx where
  "fresh_ctx = \<lparr>ks = replicate KS_LENGTH 0, inf = replicate 4 0\<rparr>"

theorem aes_encrypt_is_fips197_witness:
  "aes_encrypt (replicate 16 7) (replicate 16 0) (snd (aes_encrypt_key128 (replicate 16 1) fresh_ctx)) =
     (0, fips_cipher (fips_round_key (replicate 16 1)) (replicate 16 7))"
  using aes_encrypt_is_fips197[of fresh_ctx "replicate 16 7" "replicate 16 0" "replicate 16 1"]
  by (simp add: fresh_ctx_def)

text \<open>
  Property C13 (round trip).  \<^verbatim>\<open>aes_decrypt\<close> with the schedule of \<^verbatim>\<open>aes_decrypt_key128\<close> restores every block that
  \<^verbatim>\<open>aes_encrypt\<close> produced with the schedule of \<^verbatim>\<open>aes_encrypt_key128\<close> for the same key.
\<close>

theorem aes_decrypt_inverts_encrypt:
  assumes "length (ks ce) = KS_LENGTH" "length (ks cd) = KS_LENGTH"
    and "length inp = 16" "length out = 16" "length out' = 16"
  shows "aes_decrypt (snd (aes_encrypt inp out (snd (aes_encrypt_key128 key ce)))) out'
    (snd (aes_decrypt_key128 key cd)) = (0, inp)"
proof -
  obtain ce' where e: "aes_encrypt_key128 key ce = (0, ce')" "inf ce' ! 0 = 160"
    "\<forall>r \<le> 10. key4 (ks ce') (4 * r) = key_block key r"
    using aes_encrypt_key128_blocks[OF assms(1)] by blast
  obtain cd' where d: "aes_decrypt_key128 key cd = (0, cd')" "inf cd' ! 0 = 160"
    "key4 (ks cd') 0 = key_block key 10" "key4 (ks cd') 40 = key_block key 0"
    "\<forall>r \<in> {1..<10}. key4 (ks cd') (40 - r * 4) = map imix_word (key_block key r)"
    using aes_decrypt_key128_blocks[OF assms(2)] by blast
  have "key4 (ks ce') (r * 4) = key_block key r" if "r \<le> 10" for r
    using e(3) that by (simp add: mult.commute)
  from this[of 10] this[of 0] this have "dec_schedule (ks ce') (ks cd')"
    using d by (auto simp: dec_schedule_def)
  from aes_decrypt_encrypt[OF e(2) d(2) this assms(3-5)] show ?thesis by (simp add: e d)
qed

theorem aes_decrypt_inverts_encrypt_witness:
  "aes_decrypt (snd (aes_encrypt (replicate 16 7) (replicate 16 0) (snd (aes_encrypt_key128 (replicate 16 1) fresh_ctx))))
     (replicate 16 0) (snd (aes_decrypt_key128 (replicate 16 1) fresh_ctx)) = (0, replicate 16 7)"
  using aes_decrypt_inverts_encrypt[of fresh_ctx fresh_ctx "replicate 16 7" "replicate 16 0" "replicate 16 0"]
  by (simp add: fresh_ctx_def)

end
