(* ===== verification/Aes_Modes.thy ===== *)
theory Aes_Modes
  imports Aes_Keys
begin

text \<open>
  The modes of operation of \<^verbatim>\<open>GEC-block/src/aes_modes.c\<close> (ECB, CBC, CFB, OFB and CTR), in the configuration without
  VIA ACE.  Buffers are byte lists; \<^verbatim>\<open>obuf\<close> is a list that is overwritten from its start, so a call in place
  passes the same list twice.  \<^verbatim>\<open>FAST_BUFFER_OPERATIONS\<close> is defined, so each routine has a 32-bit and an 8-bit
  variant of its block loop, chosen by the alignment of the pointers: a boolean parameter here.
\<close>

abbreviation EXIT_SUCCESS :: int where "EXIT_SUCCESS \<equiv> 0"
abbreviation EXIT_FAILURE :: int where "EXIT_FAILURE \<equiv> 1"
abbreviation AES_BLOCK_SIZE :: nat where "AES_BLOCK_SIZE \<equiv> 16"

section \<open>Block loops\<close>

text \<open>\<^verbatim>\<open>lp32(a)[i] ^ lp32(b)[i]\<close> for four words, or byte by byte.\<close>

definition xor_words :: "bytes \<Rightarrow> bytes \<Rightarrow> bytes" where
  "xor_words a b = wbytes [word_in a 0 XOR word_in b 0, word_in a 1 XOR word_in b 1,
     word_in a 2 XOR word_in b 2, word_in a 3 XOR word_in b 3]"

definition xor_bytes :: "bytes \<Rightarrow> bytes \<Rightarrow> bytes" where
  "xor_bytes a b = map (\<lambda>i. a ! i XOR b ! i) [0..<16]"

definition xor_block :: "bool \<Rightarrow> bytes \<Rightarrow> bytes \<Rightarrow> bytes" where
  "xor_block aligned a b = (if aligned then xor_words a b else xor_bytes a b)"

text \<open>\<^verbatim>\<open>while(nb--)\<close> of \<^verbatim>\<open>aes_ecb_encrypt\<close> and \<^verbatim>\<open>aes_ecb_decrypt\<close>; the second component is \<^verbatim>\<open>obuf\<close> afterwards.\<close>

primrec ecb_blocks :: "(bytes \<Rightarrow> bytes \<Rightarrow> aes_ctx \<Rightarrow> int \<times> bytes) \<Rightarrow> nat \<Rightarrow> bytes \<Rightarrow> bytes \<Rightarrow> aes_ctx \<Rightarrow> int \<times> bytes" where
  "ecb_blocks crypt 0 ibuf obuf ctx = (EXIT_SUCCESS, obuf)"
| "ecb_blocks crypt (Suc nb) ibuf obuf ctx =
     (let (r, o1) = crypt ibuf obuf ctx in
      if r \<noteq> EXIT_SUCCESS then (EXIT_FAILURE, o1)
      else let (r', o2) = ecb_blocks crypt nb (drop AES_BLOCK_SIZE ibuf) (drop AES_BLOCK_SIZE o1) ctx
           in (r', take AES_BLOCK_SIZE o1 @ o2))"

definition aes_ecb_encrypt :: "bytes \<Rightarrow> bytes \<Rightarrow> nat \<Rightarrow> aes_ctx \<Rightarrow> int \<times> bytes" where
  "aes_ecb_encrypt ibuf obuf len ctx =
     (if len AND (AES_BLOCK_SIZE - 1) \<noteq> 0 then (EXIT_FAILURE, obuf)
      else ecb_blocks aes_encrypt (drop_bit 4 len) ibuf obuf ctx)"

definition aes_ecb_decrypt :: "bytes \<Rightarrow> bytes \<Rightarrow> nat \<Rightarrow> aes_ctx \<Rightarrow> int \<times> bytes" where
  "aes_ecb_decrypt ibuf obuf len ctx =
     (if len AND (AES_BLOCK_SIZE - 1) \<noteq> 0 then (EXIT_FAILURE, obuf)
      else ecb_blocks aes_decrypt (drop_bit 4 len) ibuf obuf ctx)"

text \<open>CBC: the result is the return code, \<^verbatim>\<open>obuf\<close> and \<^verbatim>\<open>iv\<close>.\<close>

primrec cbc_enc_blocks :: "bool \<Rightarrow> nat \<Rightarrow> bytes \<Rightarrow> bytes \<Rightarrow> bytes \<Rightarrow> aes_ctx \<Rightarrow> int \<times> bytes \<times> bytes" where
  "cbc_enc_blocks aligned 0 ibuf obuf iv ctx = (EXIT_SUCCESS, obuf, iv)"
| "cbc_enc_blocks aligned (Suc nb) ibuf obuf iv ctx =
     (let iv1 = xor_block aligned iv ibuf; (r, iv2) = aes_encrypt iv1 iv1 ctx in
      if r \<noteq> EXIT_SUCCESS then (EXIT_FAILURE, obuf, iv2)
      else let (r', o', iv') = cbc_enc_blocks aligned nb (drop AES_BLOCK_SIZE ibuf) (drop AES_BLOCK_SIZE obuf) iv2 ctx
           in (r', iv2 @ o', iv'))"

definition aes_cbc_encrypt :: "bool \<Rightarrow> bytes \<Rightarrow> bytes \<Rightarrow> nat \<Rightarrow> bytes \<Rightarrow> aes_ctx \<Rightarrow> int \<times> bytes \<times> bytes" where
  "aes_cbc_encrypt aligned ibuf obuf len iv ctx =
     (if len AND (AES_BLOCK_SIZE - 1) \<noteq> 0 then (EXIT_FAILURE, obuf, iv)
      else cbc_enc_blocks aligned (drop_bit 4 len) ibuf obuf iv ctx)"

primrec cbc_dec_blocks :: "bool \<Rightarrow> nat \<Rightarrow> bytes \<Rightarrow> bytes \<Rightarrow> bytes \<Rightarrow> aes_ctx \<Rightarrow> int \<times> bytes \<times> bytes" where
  "cbc_dec_blocks aligned 0 ibuf obuf iv ctx = (EXIT_SUCCESS, obuf, iv)"
| "cbc_dec_blocks aligned (Suc nb) ibuf obuf iv ctx =
     (let tmp = take AES_BLOCK_SIZE ibuf; (r, o1) = aes_decrypt ibuf obuf ctx in
      if r \<noteq> EXIT_SUCCESS then (EXIT_FAILURE, o1, iv)
      else let b = xor_block aligned o1 iv;
               (r', o', iv') = cbc_dec_blocks aligned nb (drop AES_BLOCK_SIZE ibuf) (drop AES_BLOCK_SIZE o1) tmp ctx
           in (r', b @ o', iv'))"

definition aes_cbc_decrypt :: "bool \<Rightarrow> bytes \<Rightarrow> bytes \<Rightarrow> nat \<Rightarrow> bytes \<Rightarrow> aes_ctx \<Rightarrow> int \<times> bytes \<times> bytes" where
  "aes_cbc_decrypt aligned ibuf obuf len iv ctx =
     (if len AND (AES_BLOCK_SIZE - 1) \<noteq> 0 then (EXIT_FAILURE, obuf, iv)
      else cbc_dec_blocks aligned (drop_bit 4 len) ibuf obuf iv ctx)"

section \<open>CFB and OFB\<close>

text \<open>
  \<^verbatim>\<open>aes_cfb_encrypt\<close>, \<^verbatim>\<open>aes_cfb_decrypt\<close> and \<^verbatim>\<open>aes_ofb_crypt\<close> have the same three loops around a different assignment: from
  the byte of \<^verbatim>\<open>iv\<close> and the input byte to the output byte and the new byte of \<^verbatim>\<open>iv\<close> (and the same on words).
  \<^verbatim>\<open>ctx->inf.b[2]\<close> holds the position in the block across calls.  \<^verbatim>\<open>ibuf\<close> has exactly \<^verbatim>\<open>len\<close> bytes left, and
  the output is the list of bytes written.
\<close>

definition cfb_enc_op :: "'a::len word \<Rightarrow> 'a word \<Rightarrow> 'a word \<times> 'a word" where
  "cfb_enc_op v c = (v XOR c, v XOR c)"

definition cfb_dec_op :: "'a::len word \<Rightarrow> 'a word \<Rightarrow> 'a word \<times> 'a word" where
  "cfb_dec_op v t = (t XOR v, t)"

definition ofb_op :: "'a::len word \<Rightarrow> 'a word \<Rightarrow> 'a word \<times> 'a word" where
  "ofb_op v c = (v XOR c, v)"

text \<open>\<^verbatim>\<open>while(b_pos < AES_BLOCK_SIZE && cnt < len)\<close>: output, position, \<^verbatim>\<open>iv\<close> and the input that is left.\<close>

fun part_bytes :: "(u8 \<Rightarrow> u8 \<Rightarrow> u8 \<times> u8) \<Rightarrow> nat \<Rightarrow> bytes \<Rightarrow> bytes \<Rightarrow> bytes \<times> nat \<times> bytes \<times> bytes" where
  "part_bytes op p iv [] = ([], p, iv, [])"
| "part_bytes op p iv (c # cs) =
     (if p < AES_BLOCK_SIZE
      then let (x, v) = op (iv ! p) c; (os, r) = part_bytes op (p + 1) (iv[p := v]) cs in (x # os, r)
      else ([], p, iv, c # cs))"

definition op_words :: "(u32 \<Rightarrow> u32 \<Rightarrow> u32 \<times> u32) \<Rightarrow> bytes \<Rightarrow> bytes \<Rightarrow> bytes \<times> bytes" where
  "op_words op iv b = (wbytes (map (\<lambda>i. fst (op (word_in iv i) (word_in b i))) [0, 1, 2, 3]),
     wbytes (map (\<lambda>i. snd (op (word_in iv i) (word_in b i))) [0, 1, 2, 3]))"

definition op_bytes :: "(u8 \<Rightarrow> u8 \<Rightarrow> u8 \<times> u8) \<Rightarrow> bytes \<Rightarrow> bytes \<Rightarrow> bytes \<times> bytes" where
  "op_bytes op iv b = (map (\<lambda>i. fst (op (iv ! i) (b ! i))) [0..<16], map (\<lambda>i. snd (op (iv ! i) (b ! i))) [0..<16])"

text \<open>\<^verbatim>\<open>while(cnt + AES_BLOCK_SIZE <= len)\<close>.\<close>

function whole_blocks :: "bool \<Rightarrow> (u32 \<Rightarrow> u32 \<Rightarrow> u32 \<times> u32) \<Rightarrow> (u8 \<Rightarrow> u8 \<Rightarrow> u8 \<times> u8) \<Rightarrow> bytes \<Rightarrow> bytes \<Rightarrow> aes_ctx \<Rightarrow>
    int \<times> bytes \<times> bytes \<times> bytes" where
  "whole_blocks aligned op32 op8 iv cs ctx =
     (if length cs < AES_BLOCK_SIZE then (EXIT_SUCCESS, [], iv, cs)
      else let (r, iv1) = aes_encrypt iv iv ctx in
        if r \<noteq> EXIT_SUCCESS then (EXIT_FAILURE, [], iv1, cs)
        else let (o1, iv2) = (if aligned then op_words op32 iv1 cs else op_bytes op8 iv1 cs);
                 (r', o', iv', cs') = whole_blocks aligned op32 op8 iv2 (drop AES_BLOCK_SIZE cs) ctx
             in (r', o1 @ o', iv', cs'))"
  by pat_completeness auto

termination by (relation "measure (\<lambda>(_, _, _, _, cs, _). length cs)") auto

declare whole_blocks.simps [simp del]

text \<open>
  The last loop, \<^verbatim>\<open>while(cnt < len)\<close>.  It never ends when the position is above 16, which is the value \<open>None\<close>;
  the positions the code stores are at most 16.
\<close>

lemma part_bytes_rest: "length (snd (snd (snd (part_bytes op p iv cs)))) \<le> length cs"
  by (induction cs arbitrary: p iv) (auto simp: Let_def split_def le_SucI)

lemma part_bytes_progress:
  "cs \<noteq> [] \<Longrightarrow> p < AES_BLOCK_SIZE \<Longrightarrow> length (snd (snd (snd (part_bytes op p iv cs)))) < length cs"
  using part_bytes_rest by (cases cs) (auto simp: Let_def split_def le_imp_less_Suc)

lemma part_bytes_full: "AES_BLOCK_SIZE \<le> p \<Longrightarrow> part_bytes op p iv cs = ([], p, iv, cs)"
  by (cases cs) auto

function tail_bytes :: "(u8 \<Rightarrow> u8 \<Rightarrow> u8 \<times> u8) \<Rightarrow> nat \<Rightarrow> bytes \<Rightarrow> bytes \<Rightarrow> aes_ctx \<Rightarrow>
    (int \<times> bytes \<times> nat \<times> bytes) option" where
  "tail_bytes op p iv cs ctx =
     (if cs = [] then Some (EXIT_SUCCESS, [], p, iv)
      else if AES_BLOCK_SIZE < p then None
      else
        let (r, iv1) = (if p = 0 then aes_encrypt iv iv ctx else (EXIT_SUCCESS, iv)) in
        if r \<noteq> EXIT_SUCCESS then Some (EXIT_FAILURE, [], p, iv1)
        else
          let q = part_bytes op p iv1 cs;
              p' = (if fst (snd q) = AES_BLOCK_SIZE then 0 else fst (snd q))
          in case tail_bytes op p' (fst (snd (snd q))) (snd (snd (snd q))) ctx of
               Some (r', o', p'', iv'') \<Rightarrow> Some (r', fst q @ o', p'', iv'')
             | None \<Rightarrow> None)"
  by pat_completeness auto

termination
proof (relation "measures [\<lambda>(_, _, _, cs, _). length cs, \<lambda>(_, p, _, _, _). p]", goal_cases)
  case (2 op p iv cs ctx x y z q p')
  then show ?case
    using part_bytes_progress[of cs p op z] part_bytes_full[of p op z cs] by (cases "p < AES_BLOCK_SIZE") auto
qed simp

declare tail_bytes.simps [simp del]

text \<open>\<^verbatim>\<open>if(b_pos) { ... }\<close>: complete any partial block.\<close>

definition first_bytes :: "(u8 \<Rightarrow> u8 \<Rightarrow> u8 \<times> u8) \<Rightarrow> nat \<Rightarrow> bytes \<Rightarrow> bytes \<Rightarrow> bytes \<times> nat \<times> bytes \<times> bytes" where
  "first_bytes op p iv ibuf =
     (if p \<noteq> 0
      then let (o1, p1, r) = part_bytes op p iv ibuf in (o1, if p1 = AES_BLOCK_SIZE then 0 else p1, r)
      else ([], p, iv, ibuf))"

text \<open>The whole routine; a failed \<^verbatim>\<open>assert(b_pos == 0)\<close> in the block loop does not return either.\<close>

definition iv_mode :: "bool \<Rightarrow> (u32 \<Rightarrow> u32 \<Rightarrow> u32 \<times> u32) \<Rightarrow> (u8 \<Rightarrow> u8 \<Rightarrow> u8 \<times> u8) \<Rightarrow> bytes \<Rightarrow> bytes \<Rightarrow> aes_ctx \<Rightarrow>
    (int \<times> bytes \<times> bytes \<times> aes_ctx) option" where
  "iv_mode aligned op32 op8 ibuf iv ctx =
    (let (o1, p1, iv1, cs1) = first_bytes op8 (unat (inf ctx ! 2)) iv ibuf in
     if AES_BLOCK_SIZE \<le> length cs1 \<and> p1 \<noteq> 0 then None
     else let (r2, o2, iv2, cs2) = whole_blocks aligned op32 op8 iv1 cs1 ctx in
       if r2 \<noteq> EXIT_SUCCESS then Some (EXIT_FAILURE, o1 @ o2, iv2, ctx)
       else case tail_bytes op8 p1 iv2 cs2 ctx of
           None \<Rightarrow> None
         | Some (r3, o3, p3, iv3) \<Rightarrow>
             if r3 \<noteq> EXIT_SUCCESS then Some (EXIT_FAILURE, o1 @ o2 @ o3, iv3, ctx)
             else Some (EXIT_SUCCESS, o1 @ o2 @ o3, iv3, ctx\<lparr>inf := (inf ctx)[2 := word_of_nat p3]\<rparr>))"

definition aes_cfb_encrypt :: "bool \<Rightarrow> bytes \<Rightarrow> bytes \<Rightarrow> aes_ctx \<Rightarrow> (int \<times> bytes \<times> bytes \<times> aes_ctx) option" where
  "aes_cfb_encrypt aligned ibuf iv ctx = iv_mode aligned cfb_enc_op cfb_enc_op ibuf iv ctx"

definition aes_cfb_decrypt :: "bool \<Rightarrow> bytes \<Rightarrow> bytes \<Rightarrow> aes_ctx \<Rightarrow> (int \<times> bytes \<times> bytes \<times> aes_ctx) option" where
  "aes_cfb_decrypt aligned ibuf iv ctx = iv_mode aligned cfb_dec_op cfb_dec_op ibuf iv ctx"

definition aes_ofb_crypt :: "bool \<Rightarrow> bytes \<Rightarrow> bytes \<Rightarrow> aes_ctx \<Rightarrow> (int \<times> bytes \<times> bytes \<times> aes_ctx) option" where
  "aes_ofb_crypt aligned ibuf iv ctx = iv_mode aligned ofb_op ofb_op ibuf iv ctx"

definition aes_mode_reset :: "aes_ctx \<Rightarrow> int \<times> aes_ctx" where
  "aes_mode_reset ctx = (EXIT_SUCCESS, ctx\<lparr>inf := (inf ctx)[2 := 0]\<rparr>)"

section \<open>CTR\<close>

abbreviation BFR_LENGTH :: nat where "BFR_LENGTH \<equiv> 128"

text \<open>\<^verbatim>\<open>for(i = 0, ip = buf; i < (blen >> 4); ++i)\<close>: the counter blocks and the counter after them.\<close>

primrec ctr_fill :: "(bytes \<Rightarrow> bytes) \<Rightarrow> nat \<Rightarrow> bytes \<Rightarrow> bytes \<times> bytes" where
  "ctr_fill ctr_inc 0 cbuf = ([], cbuf)"
| "ctr_fill ctr_inc (Suc n) cbuf =
     (let (bs, c) = ctr_fill ctr_inc n (ctr_inc cbuf) in (take AES_BLOCK_SIZE cbuf @ bs, c))"

function ctr_loop :: "bool \<Rightarrow> (bytes \<Rightarrow> bytes) \<Rightarrow> bytes \<Rightarrow> bytes \<Rightarrow> bytes \<Rightarrow> nat \<Rightarrow> aes_ctx \<Rightarrow> int \<times> bytes \<times> bytes \<times> nat" where
  "ctr_loop aligned ctr_inc ibuf cbuf buf b_pos ctx =
    (if ibuf = [] then (EXIT_SUCCESS, [], cbuf, b_pos)
     else
       let blen = (if BFR_LENGTH < length ibuf then BFR_LENGTH else length ibuf);
           nb = drop_bit 4 blen;
           (bs, c1) = ctr_fill ctr_inc nb cbuf;
           buf1 = memcpy buf 0 bs;
           (buf2, i) = (if blen AND (AES_BLOCK_SIZE - 1) \<noteq> 0
                        then (memcpy buf1 (AES_BLOCK_SIZE * nb) (take AES_BLOCK_SIZE c1), nb + 1) else (buf1, nb));
           (r, buf3) = aes_ecb_encrypt buf2 buf2 (i * AES_BLOCK_SIZE) ctx
       in if r \<noteq> EXIT_SUCCESS then (EXIT_FAILURE, [], c1, b_pos)
          else
            let o1 = concat (map (\<lambda>j. xor_block aligned (drop (16 * j) ibuf) (drop (16 * j) buf3)) [0..<nb]);
                k = blen - AES_BLOCK_SIZE * nb;
                o2 = map (\<lambda>j. ibuf ! (16 * nb + j) XOR buf3 ! (16 * nb + (b_pos + j))) [0..<k];
                (r', o', c', p') = ctr_loop aligned ctr_inc (drop blen ibuf) c1 buf3 (b_pos + k) ctx
            in (r', o1 @ o2 @ o', c', p'))"
  by pat_completeness auto

termination by (relation "measure (\<lambda>(_, _, ibuf, _). length ibuf)") auto

declare ctr_loop.simps [simp del]

text \<open>\<open>buf\<close> is the local array, whose initial contents are arbitrary.\<close>

definition aes_ctr_crypt :: "bytes \<Rightarrow> bool \<Rightarrow> bytes \<Rightarrow> bytes \<Rightarrow> (bytes \<Rightarrow> bytes) \<Rightarrow> aes_ctx \<Rightarrow>
    int \<times> bytes \<times> bytes \<times> aes_ctx" where
  "aes_ctr_crypt buf aligned ibuf cbuf ctr_inc ctx =
    (let b_pos = unat (inf ctx ! 2);
         buf1 = memcpy buf 0 (take AES_BLOCK_SIZE cbuf);
         (r1, buf2) = (if b_pos \<noteq> 0 then aes_ecb_encrypt buf1 buf1 AES_BLOCK_SIZE ctx else (EXIT_SUCCESS, buf))
     in if r1 \<noteq> EXIT_SUCCESS then (EXIT_FAILURE, [], cbuf, ctx)
        else
          let (o1, p1, _, cs1) = (if b_pos \<noteq> 0 then part_bytes ofb_op b_pos buf2 ibuf else ([], 0, buf2, ibuf));
              (c1, p2) = (if b_pos \<noteq> 0 \<and> cs1 \<noteq> [] then (ctr_inc cbuf, 0) else (cbuf, p1));
              (r, o2, c2, p3) = ctr_loop aligned ctr_inc cs1 c1 buf2 p2 ctx
          in if r \<noteq> EXIT_SUCCESS then (EXIT_FAILURE, o1 @ o2, c2, ctx)
             else (EXIT_SUCCESS, o1 @ o2, c2, ctx\<lparr>inf := (inf ctx)[2 := word_of_nat p3]\<rparr>))"

end
