(* ===== verification/Aes_Mode_Props.thy ===== *)
theory Aes_Mode_Props
  imports Aes_Modes
begin

text \<open>
  The modes are correct: every routine refines a byte-at-a-time specification, ECB and CBC decryption
  invert encryption, and CFB, OFB and CTR are stream ciphers, for which cutting a stream into
  calls at any positions changes nothing.
\<close>

section \<open>One block\<close>

definition ctx_ok :: "aes_ctx \<Rightarrow> bool" where
  "ctx_ok cx \<longleftrightarrow> inf cx ! 0 = 160"

definition aes_block :: "aes_ctx \<Rightarrow> bytes \<Rightarrow> bytes" where
  "aes_block cx b = wbytes (aes_round fwd_lrnd (ks cx) 40 (aes_words (ks cx) b))"

definition aes_unblock :: "aes_ctx \<Rightarrow> bytes \<Rightarrow> bytes" where
  "aes_unblock cx b = wbytes (aes_round inv_lrnd (ks cx) 40
     (fold (\<lambda>r. aes_round inv_rnd (ks cx) (40 - r * 4)) (rev [1..<10]) (state_in b (ks cx) 0)))"

lemma length_wbytes: "length (wbytes x) = 4 * length x"
  by (induction x) simp_all

lemma length_aes_block [simp]: "length (aes_block cx b) = 16" "length (aes_unblock cx b) = 16"
  by (simp_all add: aes_block_def aes_unblock_def length_wbytes)

lemma word_in_take: "c < 4 \<Longrightarrow> word_in (take 16 x) c = word_in x c"
  by (simp add: word_in_def)

lemma state_in_take: "state_in (take 16 x) k kp = state_in x k kp"
  by (simp add: state_in_def word_in_take)

lemma word_out_append: "c < 4 \<Longrightarrow> length a = 16 \<Longrightarrow> word_out (a @ b) c v = word_out a c v @ b"
  by (simp add: word_out_def list_update_append)

lemma length_word_out [simp]: "length (word_out a c v) = length a"
  by (simp add: word_out_def)

lemma state_out_long:
  assumes "16 \<le> length out" "length x = 4"
  shows "state_out out x = wbytes x @ drop 16 out"
proof -
  have len: "length (take 16 out) = 16" using assms(1) by simp
  have "state_out (a @ b) x = state_out a x @ b" if "length a = 16" for a b
    unfolding state_out_def using that by (simp add: word_out_append)
  from this[OF len, of "drop 16 out"] have "state_out out x = state_out (take 16 out) x @ drop 16 out" by simp
  then show ?thesis using state_out_eq[OF len assms(2)] by simp
qed

lemma aes_encrypt_block:
  assumes "ctx_ok cx" "16 \<le> length out"
  shows "aes_encrypt inp out cx = (0, aes_block cx (take 16 inp) @ drop 16 out)"
  using assms by (simp add: aes_encrypt_words ctx_ok_def state_out_long aes_block_def aes_words_def state_in_take)

lemma aes_decrypt_block:
  assumes "ctx_ok cx" "16 \<le> length out"
  shows "aes_decrypt inp out cx = (0, aes_unblock cx (take 16 inp) @ drop 16 out)"
  using assms by (simp add: aes_decrypt_words ctx_ok_def state_out_long aes_unblock_def state_in_take del: upt_Suc)

lemma aes_bad_ctx:
  assumes "inf cx ! 0 \<notin> {160, 192, 224}"
  shows "aes_encrypt inp out cx = (-1, out)" "aes_decrypt inp out cx = (-1, out)"
  using assms by (auto simp: aes_encrypt_def aes_decrypt_def Let_def)

text \<open>Contexts whose schedules belong together.\<close>

definition ctx_pair :: "aes_ctx \<Rightarrow> aes_ctx \<Rightarrow> bool" where
  "ctx_pair ce cd \<longleftrightarrow> ctx_ok ce \<and> ctx_ok cd \<and> dec_schedule (ks ce) (ks cd)"

lemma aes_unblock_block:
  assumes "ctx_pair ce cd" "length b = 16"
  shows "aes_unblock cd (aes_block ce b) = b"
proof -
  have "aes_decrypt (snd (aes_encrypt b b ce)) b cd = (0, b)"
    using assms by (intro aes_decrypt_encrypt) (auto simp: ctx_pair_def ctx_ok_def)
  moreover have "snd (aes_encrypt b b ce) = aes_block ce b"
    using assms by (simp add: aes_encrypt_block ctx_pair_def)
  ultimately show ?thesis using assms aes_decrypt_block[of cd b "aes_block ce b"] by (simp add: ctx_pair_def)
qed

section \<open>Word and byte variants agree\<close>

lemma nth_wbytes_words_in: "length b = 16 \<Longrightarrow> wbytes (words_in b) = b"
  by (rule wbytes_word_in)

lemma xor_words_bytes:
  assumes "16 \<le> length a" "16 \<le> length b"
  shows "xor_words a b = xor_bytes a b"
proof -
  have "xor_words a b = wbytes (xor4 (words_in (take 16 a)) (words_in (take 16 b)))"
    by (simp add: xor_words_def words_in_def word_in_take del: wbytes_simps)
  also have "\<dots> = map2 (XOR) (take 16 a) (take 16 b)"
    using assms by (simp add: wbytes_xor4 wbytes_word_in add_round_key_def)
  also have "\<dots> = xor_bytes a b"
    using assms by (intro nth_equalityI) (simp_all add: xor_bytes_def)
  finally show ?thesis .
qed

lemma xor_block_bytes: "16 \<le> length a \<Longrightarrow> 16 \<le> length b \<Longrightarrow> xor_block aligned a b = xor_bytes a b"
  by (simp add: xor_block_def xor_words_bytes)

lemma length_xor_bytes [simp]: "length (xor_bytes a b) = 16"
  by (simp add: xor_bytes_def)

lemma xor_bytes_self: "length b = 16 \<Longrightarrow> xor_bytes (xor_bytes a b) a = b"
  by (intro nth_equalityI) (simp_all add: xor_bytes_def ac_simps)

lemma xor_bytes_take: "xor_bytes (take 16 a) b = xor_bytes a b" "xor_bytes a (take 16 b) = xor_bytes a b"
  by (simp_all add: xor_bytes_def)

lemma xor_bytes_append: "length a = 16 \<Longrightarrow> xor_bytes (a @ c) b = xor_bytes a b"
  by (simp add: xor_bytes_def nth_append)

section \<open>ECB and CBC\<close>

lemma and_15_mod: "(n :: nat) AND 15 = n mod 16"
proof -
  have m: "(15 :: nat) = mask 4" by (simp add: mask_eq_exp_minus_1)
  show ?thesis unfolding m take_bit_eq_mask[symmetric] by (simp add: take_bit_eq_mod)
qed

lemma drop_bit_4_div: "drop_bit 4 (n :: nat) = n div 16"
  by (simp add: drop_bit_eq_div)

primrec map_blocks :: "(bytes \<Rightarrow> bytes) \<Rightarrow> nat \<Rightarrow> bytes \<Rightarrow> bytes" where
  "map_blocks F 0 xs = []"
| "map_blocks F (Suc n) xs = F (take 16 xs) @ map_blocks F n (drop 16 xs)"

lemma length_map_blocks [simp]: "(\<And>b. length (F b) = 16) \<Longrightarrow> length (map_blocks F n xs) = 16 * n"
  by (induction n arbitrary: xs) simp_all

lemma ecb_blocks_eq:
  assumes "\<And>inp out. 16 \<le> length out \<Longrightarrow> crypt inp out cx = (0, F (take 16 inp) @ drop 16 out)"
    and "\<And>b. length (F b) = 16" "16 * n \<le> length obuf"
  shows "ecb_blocks crypt n ibuf obuf cx = (0, map_blocks F n ibuf @ drop (16 * n) obuf)"
  using assms(3)
proof (induction n arbitrary: ibuf obuf)
  case (Suc n)
  then have "16 \<le> length obuf" "16 * n \<le> length (drop 16 obuf)" by simp_all
  then show ?case using Suc.IH[of "drop 16 obuf" "drop 16 ibuf"] assms(1)[of obuf ibuf] assms(2) by (simp add: add.commute)
qed simp

lemma aes_ecb_encrypt_eq:
  assumes "ctx_ok cx" "16 * n \<le> length obuf"
  shows "aes_ecb_encrypt ibuf obuf (16 * n) cx = (0, map_blocks (aes_block cx) n ibuf @ drop (16 * n) obuf)"
  using assms ecb_blocks_eq[of aes_encrypt cx "aes_block cx" n obuf ibuf]
  by (simp add: aes_ecb_encrypt_def and_15_mod drop_bit_4_div aes_encrypt_block)

lemma aes_ecb_decrypt_eq:
  assumes "ctx_ok cx" "16 * n \<le> length obuf"
  shows "aes_ecb_decrypt ibuf obuf (16 * n) cx = (0, map_blocks (aes_unblock cx) n ibuf @ drop (16 * n) obuf)"
  using assms ecb_blocks_eq[of aes_decrypt cx "aes_unblock cx" n obuf ibuf]
  by (simp add: aes_ecb_decrypt_def and_15_mod drop_bit_4_div aes_decrypt_block)

lemma map_blocks_inverse:
  assumes "\<And>b. length b = 16 \<Longrightarrow> G (F b) = b" "\<And>b. length (F b) = 16" "length xs = 16 * n"
  shows "map_blocks G n (map_blocks F n xs) = xs"
  using assms(3)
proof (induction n arbitrary: xs)
  case (Suc n)
  then have "length (take 16 xs) = 16" "length (drop 16 xs) = 16 * n" by simp_all
  then show ?case using Suc.IH[of "drop 16 xs"] assms(1)[of "take 16 xs"] assms(2) by simp
qed simp

lemma cbc_roundtrip_blocks:
  assumes "ctx_pair ce cd" "length ibuf = 16 * n" "length iv = 16" "length obuf = 16 * n" "length obuf' = 16 * n"
  shows "\<exists>c iv'. cbc_enc_blocks al n ibuf obuf iv ce = (0, c, iv') \<and> length c = 16 * n \<and>
    (\<exists>iv''. cbc_dec_blocks al' n c obuf' iv cd = (0, ibuf, iv''))"
  using assms(2-)
proof (induction n arbitrary: ibuf obuf obuf' iv)
  case (Suc n)
  let ?x = "xor_bytes iv ibuf"
  let ?c = "aes_block ce ?x"
  have ok: "ctx_ok ce" "ctx_ok cd" using assms(1) by (simp_all add: ctx_pair_def)
  obtain c iv' where IH: "cbc_enc_blocks al n (drop 16 ibuf) (drop 16 obuf) ?c ce = (0, c, iv')" "length c = 16 * n"
    "\<exists>iv''. cbc_dec_blocks al' n c (drop 16 obuf') ?c cd = (0, drop 16 ibuf, iv'')"
    using Suc.IH[of "drop 16 ibuf" ?c "drop 16 obuf" "drop 16 obuf'"] Suc.prems by auto
  have enc: "cbc_enc_blocks al (Suc n) ibuf obuf iv ce = (0, ?c @ c, iv')"
    using Suc.prems ok IH(1) by (simp add: xor_block_bytes aes_encrypt_block)
  have "xor_bytes ?x iv = take 16 ibuf"
    using Suc.prems xor_bytes_self[of "take 16 ibuf" iv] by (simp add: xor_bytes_take)
  moreover have "aes_unblock cd ?c = ?x" using assms(1) by (intro aes_unblock_block) simp_all
  ultimately have "\<exists>iv''. cbc_dec_blocks al' (Suc n) (?c @ c) obuf' iv cd = (0, ibuf, iv'')"
    using Suc.prems ok IH(3) by (auto simp: xor_block_bytes aes_decrypt_block xor_bytes_append)
  moreover have "length (?c @ c) = 16 * Suc n" using IH(2) by simp
  ultimately show ?case using enc by blast
qed simp

section \<open>Streams\<close>

primrec run :: "('s \<Rightarrow> 'c \<Rightarrow> 'o \<times> 's) \<Rightarrow> 's \<Rightarrow> 'c list \<Rightarrow> 'o list \<times> 's" where
  "run f s [] = ([], s)"
| "run f s (c # cs) = (let (x, s1) = f s c; (xs, s2) = run f s1 cs in (x # xs, s2))"

primrec runs :: "('s \<Rightarrow> 'c list \<Rightarrow> 'o list \<times> 's) \<Rightarrow> 's \<Rightarrow> 'c list list \<Rightarrow> 'o list list \<times> 's" where
  "runs F s [] = ([], s)"
| "runs F s (cs # css) = (let (xs, s1) = F s cs; (xss, s2) = runs F s1 css in (xs # xss, s2))"

lemma run_append:
  "run f s (xs @ ys) = (let (os, s1) = run f s xs; (ps, s2) = run f s1 ys in (os @ ps, s2))"
  by (induction xs arbitrary: s) (auto simp: Let_def split_def)

lemma run_appendI: "run f s xs = (os, s1) \<Longrightarrow> run f s1 ys = (ps, s2) \<Longrightarrow> run f s (xs @ ys) = (os @ ps, s2)"
  by (simp add: run_append)

lemma length_run [simp]: "length (fst (run f s cs)) = length cs"
  by (induction cs arbitrary: s) (simp_all add: Let_def split_def)

lemma runs_run: "runs (run f) s css = (xss, s') \<Longrightarrow> run f s (concat css) = (concat xss, s')"
  by (induction css arbitrary: s xss) (auto simp: run_append split: prod.splits)

text \<open>
  Two steppers that undo each other when started in related states: the contract of a self-synchronising
  or keyed stream cipher.  Cutting the plain stream and the cipher stream into calls at
  different positions makes no difference.
\<close>

locale stream_pair =
  fixes enc :: "'s \<Rightarrow> 'c \<Rightarrow> 'c \<times> 's" and dec :: "'t \<Rightarrow> 'c \<Rightarrow> 'c \<times> 't" and rel :: "'s \<Rightarrow> 't \<Rightarrow> bool"
  assumes step_out: "rel s t \<Longrightarrow> fst (dec t (fst (enc s c))) = c"
    and step_rel: "rel s t \<Longrightarrow> rel (snd (enc s c)) (snd (dec t (fst (enc s c))))"
begin

lemma run_inverse: "rel s t \<Longrightarrow> fst (run dec t (fst (run enc s cs))) = cs"
proof (induction cs arbitrary: s t)
  case (Cons c cs)
  then show ?case using step_out[of s t c] step_rel[of s t c] by (simp add: Let_def split_def)
qed simp

lemma chunked_inverse:
  assumes "rel s t" "runs (run enc) s css = (xss, s')" "concat yss = concat xss"
    "runs (run dec) t yss = (zss, t')"
  shows "concat zss = concat css"
  using run_inverse[OF assms(1), of "concat css"] runs_run[OF assms(2)] runs_run[OF assms(4)] assms(3) by simp

end

section \<open>CFB and OFB, byte by byte\<close>

fun iv_step :: "(u8 \<Rightarrow> u8 \<Rightarrow> u8 \<times> u8) \<Rightarrow> (bytes \<Rightarrow> bytes) \<Rightarrow> nat \<times> bytes \<Rightarrow> u8 \<Rightarrow> u8 \<times> nat \<times> bytes" where
  "iv_step op E (p, iv) c =
     (let iv1 = (if p = 0 then E iv else iv); (x, v) = op (iv1 ! p) c in (x, (p + 1) mod 16, iv1[p := v]))"

lemma part_bytes_run:
  assumes "part_bytes op p iv cs = (os, p', iv', rest)" "p < 16" "cs \<noteq> []" "iv = (if p = 0 then E iv0 else iv0)"
  shows "rest = drop (16 - p) cs \<and> p' = p + min (16 - p) (length cs) \<and>
    run (iv_step op E) (p, iv0) (take (16 - p) cs) = (os, p' mod 16, iv')"
  using assms
proof (induction cs arbitrary: p iv iv0 os)
  case (Cons c cs)
  obtain x v where xv: "op (iv ! p) c = (x, v)" by (cases "op (iv ! p) c")
  from Cons.prems(1,2) xv obtain os' where
    rec: "part_bytes op (Suc p) (iv[p := v]) cs = (os', p', iv', rest)" "os = x # os'"
    by (auto simp: Let_def split: prod.splits)
  have step: "iv_step op E (p, iv0) c = (x, Suc p mod 16, iv[p := v])"
    using Cons.prems(4) xv by (simp add: Let_def split_def)
  have take: "take (16 - p) (c # cs) = c # take (16 - Suc p) cs" "drop (16 - p) (c # cs) = drop (16 - Suc p) cs"
    using Cons.prems(2) by (simp_all add: take_Cons' drop_Cons')
  show ?case
  proof (cases "cs = [] \<or> Suc p = 16")
    case True
    then have "part_bytes op (Suc p) (iv[p := v]) cs = ([], Suc p, iv[p := v], cs)" by (cases cs) auto
    then show ?thesis using rec step take True by (auto simp: Let_def)
  next
    case False
    then have p: "Suc p < 16" "cs \<noteq> []" "iv[p := v] = (if Suc p = 0 then E (iv[p := v]) else iv[p := v])"
      using Cons.prems(2) by simp_all
    from Cons.IH[OF rec(1) p(1,2,3)] show ?thesis
      using rec(2) step take p(1) by (simp add: Let_def min_Suc_Suc split: prod.splits)
  qed
qed simp

text \<open>The closed form of a run inside one block, and the block loops as such runs.\<close>

lemma part_bytes_closed:
  assumes "p + length cs \<le> 16" "length iv = 16"
  shows "part_bytes op p iv cs = (map (\<lambda>i. fst (op (iv ! (p + i)) (cs ! i))) [0..<length cs], p + length cs,
    take p iv @ map (\<lambda>i. snd (op (iv ! (p + i)) (cs ! i))) [0..<length cs] @ drop (p + length cs) iv, [])"
  using assms
proof (induction cs arbitrary: p iv)
  case (Cons c cs)
  obtain x v where xv: "op (iv ! p) c = (x, v)" by (cases "op (iv ! p) c")
  have p: "p < 16" "Suc p + length cs \<le> 16" using Cons.prems(1) by simp_all
  have upt: "[0..<Suc (length cs)] = 0 # map Suc [0..<length cs]"
    by (simp add: upt_conv_Cons map_Suc_upt del: upt_Suc)
  have iv: "take (Suc p) (iv[p := v]) = take p iv @ [v]"
    using p(1) Cons.prems(2) by (simp add: take_Suc_conv_app_nth)
  show ?case
    using p xv Cons.IH[OF p(2), of "iv[p := v]"] Cons.prems(2) iv
    by (simp add: upt Let_def comp_def del: upt_Suc)
qed simp

lemma op_bytes_part:
  assumes "16 \<le> length cs" "length iv = 16"
  shows "part_bytes op 0 iv (take 16 cs) = (fst (op_bytes op iv cs), 16, snd (op_bytes op iv cs), [])"
  using assms part_bytes_closed[of 0 "take 16 cs" iv op] by (simp add: op_bytes_def)

lemma op_bytes_run:
  assumes "16 \<le> length cs" "length (E iv) = 16"
  shows "run (iv_step op E) (0, iv) (take 16 cs) = (fst (op_bytes op (E iv) cs), 0, snd (op_bytes op (E iv) cs))"
  using part_bytes_run[OF op_bytes_part[OF assms], of E iv] assms(1) by force

definition bytewise :: "(u32 \<Rightarrow> u32 \<Rightarrow> u32 \<times> u32) \<Rightarrow> (u8 \<Rightarrow> u8 \<Rightarrow> u8 \<times> u8) \<Rightarrow> bool" where
  "bytewise op32 op8 \<longleftrightarrow> (\<forall>v w j. j < 4 \<longrightarrow>
     byte (fst (op32 v w)) j = fst (op8 (byte v j) (byte w j)) \<and> byte (snd (op32 v w)) j = snd (op8 (byte v j) (byte w j)))"

lemma bytewise_ops:
  "bytewise cfb_enc_op cfb_enc_op" "bytewise cfb_dec_op cfb_dec_op" "bytewise ofb_op ofb_op"
  by (simp_all add: bytewise_def cfb_enc_op_def cfb_dec_op_def ofb_op_def)

lemma byte_word_in:
  assumes "c < 4" "j < 4"
  shows "byte (word_in x c) j = x ! (4 * c + j)"
proof -
  have "j \<in> {0, 1, 2, 3}" using assms(2) by auto
  then show ?thesis by (auto simp: word_in_wob)
qed

lemma op_words_bytes:
  assumes "bytewise op32 op8"
  shows "op_words op32 iv b = op_bytes op8 iv b"
proof -
  have "byte (fst (op32 (word_in iv c) (word_in b c))) j = fst (op8 (iv ! (4 * c + j)) (b ! (4 * c + j))) \<and>
      byte (snd (op32 (word_in iv c) (word_in b c))) j = snd (op8 (iv ! (4 * c + j)) (b ! (4 * c + j)))"
    if "c < 4" "j < 4" for c j
    using assms that by (simp add: bytewise_def byte_word_in)
  from this[of 0 0] this[of 0 1] this[of 0 2] this[of 0 3] this[of 1 0] this[of 1 1] this[of 1 2] this[of 1 3]
    this[of 2 0] this[of 2 1] this[of 2 2] this[of 2 3] this[of 3 0] this[of 3 1] this[of 3 2] this[of 3 3]
  show ?thesis by (simp add: op_words_def op_bytes_def upt_16 flip: numeral_2_eq_2)
qed

lemma length_op_bytes [simp]: "length (snd (op_bytes op iv cs)) = 16"
  by (simp add: op_bytes_def)

lemma whole_blocks_run:
  assumes "ctx_ok ctx" "bytewise op32 op8" "length iv = 16"
  shows "\<exists>os iv' cs'. whole_blocks al op32 op8 iv cs ctx = (0, os, iv', cs') \<and> length cs' < 16 \<and> length iv' = 16 \<and>
    (\<exists>ds. cs = ds @ cs' \<and> run (iv_step op8 (aes_block ctx)) (0, iv) ds = (os, 0, iv'))"
  using assms(3)
proof (induction "length cs" arbitrary: cs iv rule: less_induct)
  case less
  show ?case
  proof (cases "length cs < 16")
    case True
    then show ?thesis using less.prems by (subst whole_blocks.simps) simp
  next
    case False
    let ?iv = "aes_block ctx iv"
    let ?o = "op_bytes op8 ?iv cs"
    from False have "length (drop 16 cs) < length cs" by simp
    from less.hyps[OF this, of "snd ?o"] obtain os iv' cs' ds where
      IH: "whole_blocks al op32 op8 (snd ?o) (drop 16 cs) ctx = (0, os, iv', cs')" "length cs' < 16" "length iv' = 16"
      "drop 16 cs = ds @ cs'" "run (iv_step op8 (aes_block ctx)) (0, snd ?o) ds = (os, 0, iv')" by auto
    have "aes_encrypt iv iv ctx = (0, ?iv)" using less.prems assms(1) by (simp add: aes_encrypt_block)
    then have "whole_blocks al op32 op8 iv cs ctx = (0, fst ?o @ os, iv', cs')"
      using False IH(1) by (subst whole_blocks.simps) (cases al, simp_all add: op_words_bytes[OF assms(2)] split_def Let_def)
    moreover have "run (iv_step op8 (aes_block ctx)) (0, iv) (take 16 cs @ ds) = (fst ?o @ os, 0, iv')"
      using False by (intro run_appendI[OF op_bytes_run IH(5)]) simp_all
    moreover have "cs = (take 16 cs @ ds) @ cs'" using IH(4) by (metis append_assoc append_take_drop_id)
    ultimately show ?thesis using IH(2,3) by blast
  qed
qed

lemma length_iv_run:
  "length iv = 16 \<Longrightarrow> (\<And>b. length (E b) = 16) \<Longrightarrow> length (snd (snd (run (iv_step op E) (p, iv) cs))) = 16"
  by (induction cs arbitrary: p iv) (simp_all add: Let_def split_def)

lemma tail_bytes_run:
  assumes "ctx_ok ctx" "p < 16" "length iv = 16"
  shows "\<exists>os p' iv'. tail_bytes op p iv cs ctx = Some (0, os, p', iv') \<and>
    run (iv_step op (aes_block ctx)) (p, iv) cs = (os, p', iv')"
  using assms(2,3)
proof (induction "length cs" arbitrary: cs p iv rule: less_induct)
  case less
  show ?case
  proof (cases "cs = []")
    case True
    then show ?thesis by (subst tail_bytes.simps) simp
  next
    case False
    let ?iv = "if p = 0 then aes_block ctx iv else iv"
    have enc: "(if p = 0 then aes_encrypt iv iv ctx else (0, iv)) = (0, ?iv)"
      using less.prems assms(1) by (simp add: aes_encrypt_block)
    obtain os p' iv' rest where q: "part_bytes op p ?iv cs = (os, p', iv', rest)" by (cases "part_bytes op p ?iv cs")
    note r = part_bytes_run[OF q less.prems(1) False, of "aes_block ctx" iv, OF refl]
    have p': "(if p' = 16 then 0 else p') = p' mod 16" using r less.prems(1) by (auto simp: min_def)
    have iv': "length iv' = 16" using r less.prems(2) length_iv_run[of iv "aes_block ctx" op p "take (16 - p) cs"] by simp
    have "length rest < length cs" using part_bytes_progress[OF False less.prems(1), of op ?iv] by (simp add: q)
    from less.hyps[OF this, of "p' mod 16" iv'] iv' obtain os2 p2 iv2 where
      IH: "tail_bytes op (p' mod 16) iv' rest ctx = Some (0, os2, p2, iv2)"
      "run (iv_step op (aes_block ctx)) (p' mod 16, iv') rest = (os2, p2, iv2)" by auto
    have "tail_bytes op p iv cs ctx = Some (0, os @ os2, p2, iv2)"
      unfolding tail_bytes.simps[of op p iv cs ctx] enc Let_def q prod.case fst_conv snd_conv p' IH(1)
      using False less.prems(1) by simp
    moreover have "run (iv_step op (aes_block ctx)) (p, iv) cs = (os @ os2, p2, iv2)"
      using run_appendI[of "iv_step op (aes_block ctx)" "(p, iv)" "take (16 - p) cs" os "(p' mod 16, iv')" rest os2 "(p2, iv2)"]
        r IH(2) by simp
    ultimately show ?thesis by blast
  qed
qed

lemma first_bytes_run:
  assumes "first_bytes op p iv cs = (os, p', iv', rest)" "p < 16" "length iv = 16" "\<And>b. length (E b) = 16"
  shows "p' < 16 \<and> length iv' = 16 \<and> (p' \<noteq> 0 \<longrightarrow> p \<noteq> 0 \<and> rest = []) \<and>
    (\<exists>ds. cs = ds @ rest \<and> run (iv_step op E) (p, iv) ds = (os, p', iv'))"
proof (cases "p = 0 \<or> cs = []")
  case True
  then show ?thesis using assms by (auto simp: first_bytes_def split: if_splits)
next
  case False
  then obtain q where q: "part_bytes op p iv cs = (os, q, iv', rest)" "p' = (if q = 16 then 0 else q)"
    using assms(1) by (auto simp: first_bytes_def split: prod.splits)
  have "cs \<noteq> []" using False by simp
  then have r: "rest = drop (16 - p) cs" "q = p + min (16 - p) (length cs)"
      "run (iv_step op E) (p, iv) (take (16 - p) cs) = (os, q mod 16, iv')"
    using part_bytes_run[where E = E and ?iv0.0 = iv, OF q(1) assms(2)] False by simp_all
  have p': "p' = q mod 16" "p' \<noteq> 0 \<longrightarrow> rest = []" using q(2) r assms(2) by (auto simp: min_def)
  have "length iv' = 16" using length_iv_run[of iv E op p "take (16 - p) cs"] assms(3,4) r by simp
  then show ?thesis using p' r False by (metis append_take_drop_id mod_less_divisor zero_less_numeral)
qed

text \<open>The three-loop routine is the byte-at-a-time machine.\<close>

lemma iv_mode_refines:
  assumes "ctx_ok ctx" "bytewise op32 op8" "length iv = 16" "unat (inf ctx ! 2) < 16"
  shows "\<exists>os p' iv'. run (iv_step op8 (aes_block ctx)) (unat (inf ctx ! 2), iv) ibuf = (os, p', iv') \<and>
    iv_mode al op32 op8 ibuf iv ctx = Some (0, os, iv', ctx\<lparr>inf := (inf ctx)[2 := word_of_nat p']\<rparr>)"
proof -
  let ?p = "unat (inf ctx ! 2)" and ?st = "iv_step op8 (aes_block ctx)"
  obtain os1 p1 iv1 cs1 where first: "first_bytes op8 ?p iv ibuf = (os1, p1, iv1, cs1)"
    by (cases "first_bytes op8 ?p iv ibuf")
  then obtain ds where d: "p1 < 16" "length iv1 = 16" "p1 \<noteq> 0 \<longrightarrow> cs1 = []" "ibuf = ds @ cs1"
    "run ?st (?p, iv) ds = (os1, p1, iv1)"
    using first_bytes_run[OF first assms(4,3), of "aes_block ctx"] by auto
  obtain os2 iv2 cs2 es where w: "whole_blocks al op32 op8 iv1 cs1 ctx = (0, os2, iv2, cs2)" "length iv2 = 16"
    "cs1 = es @ cs2" "run ?st (0, iv1) es = (os2, 0, iv2)"
    using whole_blocks_run[OF assms(1,2) d(2)] by blast
  have run2: "run ?st (p1, iv1) es = (os2, p1, iv2)"
    using w(3,4) d(3) by (cases "p1 = 0") auto
  obtain os3 p3 iv3 where t: "tail_bytes op8 p1 iv2 cs2 ctx = Some (0, os3, p3, iv3)"
    "run ?st (p1, iv2) cs2 = (os3, p3, iv3)"
    using tail_bytes_run[OF assms(1) d(1) w(2)] by blast
  have "run ?st (?p, iv) (ds @ es @ cs2) = (os1 @ os2 @ os3, p3, iv3)"
    by (intro run_appendI[OF d(5)] run_appendI[OF run2] t(2))
  moreover have "iv_mode al op32 op8 ibuf iv ctx = Some (0, os1 @ os2 @ os3, iv3, ctx\<lparr>inf := (inf ctx)[2 := word_of_nat p3]\<rparr>)"
    using first d(3) w(1) t(1) by (auto simp: iv_mode_def)
  ultimately show ?thesis using d(4) w(3) by auto
qed

section \<open>CTR, byte by byte\<close>

text \<open>The position is normalised: at the end of a block it is 0 in the next one.\<close>

definition ctr_norm :: "(bytes \<Rightarrow> bytes) \<Rightarrow> nat \<times> bytes \<Rightarrow> nat \<times> bytes" where
  "ctr_norm inc s = (if fst s = 16 then (0, inc (snd s)) else s)"

fun ctr_step :: "(bytes \<Rightarrow> bytes) \<Rightarrow> (bytes \<Rightarrow> bytes) \<Rightarrow> nat \<times> bytes \<Rightarrow> u8 \<Rightarrow> u8 \<times> nat \<times> bytes" where
  "ctr_step inc E (p, c) x = (x XOR E c ! p, ctr_norm inc (p + 1, c))"

lemma ctr_run_within:
  assumes "p + length xs \<le> 16" "p < 16"
  shows "run (ctr_step inc E) (p, c) xs =
    (map (\<lambda>i. xs ! i XOR E c ! (p + i)) [0..<length xs], ctr_norm inc (p + length xs, c))"
  using assms
proof (induction xs arbitrary: p)
  case Nil
  then show ?case by (simp add: ctr_norm_def)
next
  case (Cons x xs)
  have upt: "[0..<Suc (length xs)] = 0 # map Suc [0..<length xs]"
    by (simp add: upt_conv_Cons map_Suc_upt del: upt_Suc)
  show ?case
  proof (cases "xs = []")
    case True
    then show ?thesis by simp
  next
    case False
    then have "Suc p + length xs \<le> 16" "Suc p < 16" using Cons.prems by (cases xs; simp)+
    with Cons.IH[of "Suc p"] show ?thesis
      by (simp add: upt ctr_norm_def comp_def del: upt_Suc)
  qed
qed

lemma ctr_run_block:
  assumes "16 \<le> length xs"
  shows "run (ctr_step inc E) (0, c) (take 16 xs) = (xor_bytes xs (E c), 0, inc c)"
  using ctr_run_within[of 0 "take 16 xs" inc E c] assms by (simp add: xor_bytes_def ctr_norm_def)

text \<open>The counter blocks, encrypted, are the key stream of whole blocks.\<close>

definition keeps16 :: "(bytes \<Rightarrow> bytes) \<Rightarrow> bool" where
  "keeps16 inc \<longleftrightarrow> (\<forall>c. length c = 16 \<longrightarrow> length (inc c) = 16)"

lemma keeps16D: "keeps16 inc \<Longrightarrow> length c = 16 \<Longrightarrow> length (inc c) = 16"
  by (simp add: keeps16_def)

lemma ctr_fill_length:
  assumes "keeps16 inc" "length c = 16"
  shows "length (fst (ctr_fill inc n c)) = 16 * n \<and> length (snd (ctr_fill inc n c)) = 16"
  using assms(2) by (induction n arbitrary: c) (simp_all add: Let_def split_def keeps16D[OF assms(1)])

lemma ctr_blocks_run:
  assumes "keeps16 inc" "length c = 16" "16 * n \<le> length xs"
    and "\<And>b. length (E b) = 16"
  shows "run (ctr_step inc E) (0, c) (take (16 * n) xs) =
    (concat (map (\<lambda>j. xor_bytes (drop (16 * j) xs) (drop (16 * j) (map_blocks E n (fst (ctr_fill inc n c))))) [0..<n]),
     0, snd (ctr_fill inc n c))"
  using assms(2,3)
proof (induction n arbitrary: c xs)
  case (Suc n)
  have len: "length (inc c) = 16" "16 * n \<le> length (drop 16 xs)" "16 \<le> length xs" using Suc.prems keeps16D[OF assms(1)] by simp_all
  have take: "take (16 * Suc n) xs = take 16 xs @ take (16 * n) (drop 16 xs)"
    by (simp add: take_add)
  have upt: "[0..<Suc n] = 0 # map Suc [0..<n]" by (simp add: upt_conv_Cons map_Suc_upt del: upt_Suc)
  obtain bs c' where f: "ctr_fill inc n (inc c) = (bs, c')" by (cases "ctr_fill inc n (inc c)")
  have fill: "ctr_fill inc (Suc n) c = (c @ bs, c')" using f Suc.prems by simp
  have mb: "map_blocks E (Suc n) (c @ bs) = E c @ map_blocks E n bs" using Suc.prems by simp
  have first: "xor_bytes xs (E c @ ys) = xor_bytes xs (E c)" for ys
    using assms(4)[of c] by (simp add: xor_bytes_def nth_append)
  show ?case
    unfolding take fill fst_conv snd_conv mb upt
    using run_appendI[OF ctr_run_block[OF len(3), of inc E c] Suc.IH[OF len(1,2)]]
    by (simp add: f first comp_def assms(4) add.commute)
qed simp

lemma map_blocks_append: "length a = 16 * n \<Longrightarrow> map_blocks F (n + m) (a @ b) = map_blocks F n a @ map_blocks F m b"
proof (induction n arbitrary: a)
  case (Suc n)
  have "length (drop 16 a) = 16 * n" using Suc.prems by simp
  from Suc.IH[OF this] Suc.prems show ?case by simp
qed simp

text \<open>One pass of the outer loop fills the buffer with key stream for \<open>nb\<close> whole blocks and a partial one.\<close>

lemma ctr_buffer:
  assumes "ctx_ok ctx" "length bs = 16 * nb" "length c = 16" "length buf = 128" "16 * nb + k \<le> 128" "k < 16"
  shows "\<exists>buf3. aes_ecb_encrypt
      (if k \<noteq> 0 then memcpy (memcpy buf 0 bs) (16 * nb) (take 16 c) else memcpy buf 0 bs)
      (if k \<noteq> 0 then memcpy (memcpy buf 0 bs) (16 * nb) (take 16 c) else memcpy buf 0 bs)
      ((if k \<noteq> 0 then nb + 1 else nb) * 16) ctx = (0, buf3) \<and> length buf3 = 128 \<and>
    take (16 * nb) buf3 = map_blocks (aes_block ctx) nb bs \<and>
    (k \<noteq> 0 \<longrightarrow> take 16 (drop (16 * nb) buf3) = aes_block ctx c)"
proof (cases "k = 0")
  case True
  have len: "16 * nb \<le> length (bs @ drop (16 * nb) buf)" using assms(2) by simp
  have "aes_ecb_encrypt (memcpy buf 0 bs) (memcpy buf 0 bs) (nb * 16) ctx =
     (0, map_blocks (aes_block ctx) nb bs @ drop (16 * nb) buf)"
    using aes_ecb_encrypt_eq[OF assms(1) len, of "bs @ drop (16 * nb) buf"] assms(2)
      map_blocks_append[of bs nb "aes_block ctx" 0 "drop (16 * nb) buf"]
    by (simp add: memcpy_def mult.commute)
  then show ?thesis using True assms(2,4,5) by simp
next
  case False
  let ?r = "drop (16 * nb + 16) buf"
  have nb: "16 * nb + 16 \<le> 128" using assms(5) False by presburger
  have buf2: "memcpy (memcpy buf 0 bs) (16 * nb) (take 16 c) = bs @ c @ ?r"
    using assms(2-4) nb by (simp add: memcpy_def add.commute)
  have len: "16 * (nb + 1) \<le> length (bs @ c @ ?r)" using assms(2,3) by simp
  have "aes_ecb_encrypt (bs @ c @ ?r) (bs @ c @ ?r) ((nb + 1) * 16) ctx =
     (0, map_blocks (aes_block ctx) nb bs @ aes_block ctx c @ ?r)"
    using aes_ecb_encrypt_eq[OF assms(1) len, of "bs @ c @ ?r"] assms(2,3)
      map_blocks_append[of bs nb "aes_block ctx" 1 "c @ ?r"]
    by (simp add: mult.commute)
  then show ?thesis using False assms(2,4) nb buf2 by simp
qed

lemma nth_drop_take16: "take 16 (drop n buf) = b \<Longrightarrow> j < 16 \<Longrightarrow> n + j < length buf \<Longrightarrow> buf ! (n + j) = b ! j"
  by auto

lemma ctr_output:
  assumes "16 * nb + k \<le> length xs" "k < 16" "length buf3 = 128" "16 * nb + k \<le> 128"
    and "take (16 * nb) buf3 = map_blocks (aes_block ctx) nb (fst (ctr_fill inc nb c))"
    and "k \<noteq> 0 \<longrightarrow> take 16 (drop (16 * nb) buf3) = aes_block ctx (snd (ctr_fill inc nb c))"
    and "keeps16 inc" "length c = 16"
  shows "run (ctr_step inc (aes_block ctx)) (0, c) (take (16 * nb + k) xs) =
    (concat (map (\<lambda>j. xor_block al (drop (16 * j) xs) (drop (16 * j) buf3)) [0..<nb]) @
     map (\<lambda>j. xs ! (16 * nb + j) XOR buf3 ! (16 * nb + j)) [0..<k], k, snd (ctr_fill inc nb c))"
proof -
  let ?E = "aes_block ctx" and ?c = "snd (ctr_fill inc nb c)"
  let ?ks = "map_blocks ?E nb (fst (ctr_fill inc nb c))"
  have blk: "xor_block al (drop (16 * j) xs) (drop (16 * j) buf3) = xor_bytes (drop (16 * j) xs) (drop (16 * j) ?ks)"
    if "j < nb" for j
  proof -
    have "16 \<le> length (drop (16 * j) xs)" "16 \<le> length (drop (16 * j) buf3)" using that assms(1,3,4) by auto
    then have "xor_block al (drop (16 * j) xs) (drop (16 * j) buf3) = xor_bytes (drop (16 * j) xs) (drop (16 * j) buf3)"
      by (rule xor_block_bytes)
    also have "\<dots> = xor_bytes (drop (16 * j) xs) (drop (16 * j) (take (16 * nb) buf3))"
      using that assms(3,4) by (auto simp: xor_bytes_def)
    finally show ?thesis by (simp add: assms(5))
  qed
  have last: "buf3 ! (16 * nb + j) = ?E ?c ! j" if "j < k" for j
    using nth_drop_take16[of "16 * nb" buf3 "?E ?c" j] assms(2,3,4,6) that by simp
  have first: "run (ctr_step inc ?E) (0, c) (take (16 * nb) xs) =
      (concat (map (\<lambda>j. xor_block al (drop (16 * j) xs) (drop (16 * j) buf3)) [0..<nb]), 0, ?c)"
  proof -
    have eq: "map (\<lambda>j. xor_block al (drop (16 * j) xs) (drop (16 * j) buf3)) [0..<nb] =
        map (\<lambda>j. xor_bytes (drop (16 * j) xs) (drop (16 * j) ?ks)) [0..<nb]" using blk by simp
    show ?thesis unfolding eq using assms(1) by (intro ctr_blocks_run[OF assms(7,8)]) simp_all
  qed
  have "run (ctr_step inc ?E) (0, ?c) (take k (drop (16 * nb) xs)) =
      (map (\<lambda>j. xs ! (16 * nb + j) XOR buf3 ! (16 * nb + j)) [0..<k], k, ?c)"
    using ctr_run_within[of 0 "take k (drop (16 * nb) xs)" inc ?E ?c] assms(1,2) last by (simp add: ctr_norm_def)
  from run_appendI[OF first this] show ?thesis by (simp add: take_add)
qed

lemma ctr_loop_run:
  assumes "ctx_ok ctx" "keeps16 inc" "length c = 16" "length buf = 128"
  shows "\<exists>os c' p'. ctr_loop al inc xs c buf 0 ctx = (0, os, c', p') \<and> p' < 16 \<and> length c' = 16 \<and>
    run (ctr_step inc (aes_block ctx)) (0, c) xs = (os, p', c')"
  using assms(3,4)
proof (induction "length xs" arbitrary: xs c buf rule: less_induct)
  case less
  show ?case
  proof (cases "xs = []")
    case True
    then show ?thesis using less.prems by (subst ctr_loop.simps) simp
  next
    case False
    define blen where "blen = (if 128 < length xs then 128 else length xs)"
    define nb where "nb = blen div 16"
    define k where "k = blen mod 16"
    define bs where "bs = fst (ctr_fill inc nb c)"
    define c1 where "c1 = snd (ctr_fill inc nb c)"
    have fill: "ctr_fill inc nb c = (bs, c1)" by (simp add: bs_def c1_def)
    have bk: "blen = 16 * nb + k" "k < 16" "blen \<le> 128" "blen \<le> length xs" "blen \<noteq> 0"
      using False by (simp_all add: blen_def nb_def k_def)
    have len: "length bs = 16 * nb" "length c1 = 16"
      using ctr_fill_length[OF assms(2) less.prems(1), of nb] by (simp_all add: bs_def c1_def)
    have fit: "16 * nb + k \<le> 128" using bk by simp
    from ctr_buffer[OF assms(1) len less.prems(2) fit bk(2)] obtain buf3 where
      b3: "aes_ecb_encrypt
        (if k \<noteq> 0 then memcpy (memcpy buf 0 bs) (16 * nb) (take 16 c1) else memcpy buf 0 bs)
        (if k \<noteq> 0 then memcpy (memcpy buf 0 bs) (16 * nb) (take 16 c1) else memcpy buf 0 bs)
        ((if k \<noteq> 0 then nb + 1 else nb) * 16) ctx = (0, buf3)" "length buf3 = 128"
      "take (16 * nb) buf3 = map_blocks (aes_block ctx) nb bs"
      "k \<noteq> 0 \<longrightarrow> take 16 (drop (16 * nb) buf3) = aes_block ctx c1" by blast
    define o1 where "o1 = concat (map (\<lambda>j. xor_block al (drop (16 * j) xs) (drop (16 * j) buf3)) [0..<nb])"
    define o2 where "o2 = map (\<lambda>j. xs ! (16 * nb + j) XOR buf3 ! (16 * nb + j)) [0..<k]"
    have lx: "16 * nb + k \<le> length xs" using bk by simp
    have run1: "run (ctr_step inc (aes_block ctx)) (0, c) (take blen xs) = (o1 @ o2, k, c1)"
      using ctr_output[OF lx bk(2) b3(2) fit b3(3,4)[unfolded bs_def c1_def] assms(2) less.prems(1), of al]
      by (simp add: o1_def o2_def c1_def bk(1))
    have unfold: "ctr_loop al inc xs c buf 0 ctx =
      (let (r', o', c', p') = ctr_loop al inc (drop blen xs) c1 buf3 k ctx in (r', o1 @ o2 @ o', c', p'))"
    proof -
      have "drop_bit 4 blen = nb" "blen AND 15 = k" "blen - 16 * nb = k"
        by (simp_all add: drop_bit_4_div nb_def k_def and_15_mod minus_mult_div_eq_mod)
      then show ?thesis
        unfolding ctr_loop.simps[of al inc xs c buf 0 ctx] blen_def[symmetric] Let_def
        using False b3(1) by (cases "k = 0") (simp_all add: fill o1_def o2_def)
    qed
    show ?thesis
    proof (cases "128 < length xs")
      case True
      then have "k = 0" "length (drop blen xs) < length xs" by (simp_all add: blen_def k_def)
      with less.hyps[OF this(2) len(2) b3(2)] obtain os c' p' where
        IH: "ctr_loop al inc (drop blen xs) c1 buf3 0 ctx = (0, os, c', p')" "p' < 16" "length c' = 16"
        "run (ctr_step inc (aes_block ctx)) (0, c1) (drop blen xs) = (os, p', c')" by blast
      have "run (ctr_step inc (aes_block ctx)) (0, c) (take blen xs @ drop blen xs) = ((o1 @ o2) @ os, p', c')"
        using run1 IH(4) \<open>k = 0\<close> by (intro run_appendI) simp_all
      then show ?thesis using unfold IH \<open>k = 0\<close> by simp
    next
      case False
      then have "drop blen xs = []" "take blen xs = xs" by (simp_all add: blen_def)
      moreover have "ctr_loop al inc [] c1 buf3 k ctx = (0, [], c1, k)" by (subst ctr_loop.simps) simp
      ultimately show ?thesis using unfold run1 bk(2) len(2) by simp
    qed
  qed
qed

lemma part_bytes_ofb:
  assumes "p \<le> 16" "16 \<le> length buf"
  shows "part_bytes ofb_op p buf xs = (map (\<lambda>i. xs ! i XOR buf ! (p + i)) [0..<min (16 - p) (length xs)],
    p + min (16 - p) (length xs), buf, drop (16 - p) xs)"
  using assms(1)
proof (induction xs arbitrary: p)
  case (Cons x xs)
  show ?case
  proof (cases "p = 16")
    case True
    then show ?thesis by simp
  next
    case False
    then have p: "p < 16" "Suc p \<le> 16" "16 - p = Suc (16 - Suc p)" using Cons.prems by simp_all
    have upt: "[0..<Suc n] = 0 # map Suc [0..<n]" for n by (simp add: upt_conv_Cons map_Suc_upt del: upt_Suc)
    have "part_bytes ofb_op p buf (x # xs) =
        (let (os, r) = part_bytes ofb_op (Suc p) buf xs in ((x XOR buf ! p) # os, r))"
      using p(1) by (simp add: ofb_op_def xor.commute)
    then show ?thesis using Cons.IH[OF p(2)] p(3) by (simp add: upt comp_def del: upt_Suc)
  qed
qed simp

text \<open>The counter mode routine, across calls, is the byte-at-a-time machine on normalised positions.\<close>

lemma aes_ctr_crypt_refines:
  assumes "ctx_ok ctx" "keeps16 inc" "length c = 16" "length buf = 128" "unat (inf ctx ! 2) \<le> 16"
  shows "\<exists>os c' p'. aes_ctr_crypt buf al xs c inc ctx = (0, os, c', ctx\<lparr>inf := (inf ctx)[2 := word_of_nat p']\<rparr>) \<and>
    p' \<le> 16 \<and> length c' = 16 \<and>
    run (ctr_step inc (aes_block ctx)) (ctr_norm inc (unat (inf ctx ! 2), c)) xs = (os, ctr_norm inc (p', c'))"
proof -
  let ?p = "unat (inf ctx ! 2)" and ?st = "ctr_step inc (aes_block ctx)"
  show ?thesis
  proof (cases "?p = 0")
    case True
    obtain os c' p' where "ctr_loop al inc xs c buf 0 ctx = (0, os, c', p')" "p' < 16" "length c' = 16"
      "run ?st (0, c) xs = (os, p', c')" using ctr_loop_run[OF assms(1-4)] by blast
    then show ?thesis using True
      by (intro exI[of _ os] exI[of _ c'] exI[of _ p']) (simp add: aes_ctr_crypt_def ctr_norm_def)
  next
    case False
    define buf2 where "buf2 = aes_block ctx c @ drop 16 buf"
    have ecb: "aes_ecb_encrypt (memcpy buf 0 (take 16 c)) (memcpy buf 0 (take 16 c)) 16 ctx = (0, buf2)"
      using aes_ecb_encrypt_eq[of ctx 1 "memcpy buf 0 (take 16 c)" "memcpy buf 0 (take 16 c)"] assms(1,3,4)
      by (simp add: buf2_def memcpy_def)
    have b2: "length buf2 = 128" using assms(4) by (simp add: buf2_def)
    let ?n = "min (16 - ?p) (length xs)"
    define o1 where "o1 = map (\<lambda>i. xs ! i XOR aes_block ctx c ! (?p + i)) [0..<?n]"
    have "map (\<lambda>i. xs ! i XOR buf2 ! (?p + i)) [0..<?n] = o1"
      unfolding o1_def buf2_def by (auto simp: nth_append)
    then have pb: "part_bytes ofb_op ?p buf2 xs = (o1, ?p + ?n, buf2, drop (16 - ?p) xs)"
      using part_bytes_ofb[OF assms(5), of buf2 xs] b2 by simp
    have run1: "run ?st (ctr_norm inc (?p, c)) (take (16 - ?p) xs) = (o1, ctr_norm inc (?p + ?n, c))"
    proof (cases "?p = 16")
      case True
      then show ?thesis by (simp add: o1_def)
    next
      case False
      then have "?p < 16" "?p + length (take (16 - ?p) xs) \<le> 16" using assms(5) by auto
      then show ?thesis using ctr_run_within[of ?p "take (16 - ?p) xs" inc "aes_block ctx" c] False
        by (simp add: o1_def ctr_norm_def[of inc "(?p, c)"] min.commute)
    qed
    show ?thesis
    proof (cases "drop (16 - ?p) xs = []")
      case True
      then have x: "take (16 - ?p) xs = xs" "?p + ?n \<le> 16" using assms(5) by (simp_all add: min_def)
      have "ctr_loop al inc [] c buf2 (?p + ?n) ctx = (0, [], c, ?p + ?n)" by (subst ctr_loop.simps) simp
      then have "aes_ctr_crypt buf al xs c inc ctx = (0, o1, c, ctx\<lparr>inf := (inf ctx)[2 := word_of_nat (?p + ?n)]\<rparr>)"
        using False True pb ecb by (simp add: aes_ctr_crypt_def)
      then show ?thesis using run1 x assms(3) by metis
    next
      case rest: False
      then have n: "?p + ?n = 16" using assms(5) by (simp add: min_def)
      obtain os c' p' where l: "ctr_loop al inc (drop (16 - ?p) xs) (inc c) buf2 0 ctx = (0, os, c', p')" "p' < 16" "length c' = 16"
        "run ?st (0, inc c) (drop (16 - ?p) xs) = (os, p', c')"
        using ctr_loop_run[OF assms(1,2) keeps16D[OF assms(2,3)] b2] by blast
      have "run ?st (ctr_norm inc (?p, c)) (take (16 - ?p) xs @ drop (16 - ?p) xs) = (o1 @ os, p', c')"
        using run1 l(4) n by (intro run_appendI) (simp_all add: ctr_norm_def)
      moreover have "aes_ctr_crypt buf al xs c inc ctx = (0, o1 @ os, c', ctx\<lparr>inf := (inf ctx)[2 := word_of_nat p']\<rparr>)"
        using False rest pb ecb l(1) by (simp add: aes_ctr_crypt_def)
      ultimately show ?thesis using l(2,3)
        by (intro exI[of _ "o1 @ os"] exI[of _ c'] exI[of _ p']) (simp add: ctr_norm_def)
    qed
  qed
qed

section \<open>The stream ciphers as instances of the contract\<close>

interpretation cfb: stream_pair "iv_step cfb_enc_op E" "iv_step cfb_dec_op E" "(=)" for E
  by unfold_locales (auto simp: cfb_enc_op_def cfb_dec_op_def Let_def split_def ac_simps)

interpretation ofb: stream_pair "iv_step ofb_op E" "iv_step ofb_op E" "(=)" for E
  by unfold_locales (auto simp: ofb_op_def Let_def split_def ac_simps)

interpretation ctr: stream_pair "ctr_step inc E" "ctr_step inc E" "(=)" for inc E
  by unfold_locales (auto simp: ac_simps)

text \<open>A context ready for a stream at position \<open>p\<close>; the routines keep it ready.\<close>

definition ctx_at :: "nat \<Rightarrow> aes_ctx \<Rightarrow> bool" where
  "ctx_at p ctx \<longleftrightarrow> ctx_ok ctx \<and> length (inf ctx) = 4 \<and> unat (inf ctx ! 2) = p"

lemma iv_run_pos: "p < 16 \<Longrightarrow> fst (snd (run (iv_step op E) (p, iv) cs)) < 16"
  by (induction cs arbitrary: p iv) (simp_all add: Let_def split_def)

text \<open>What a call of one of the three routines does, with the state it leaves.\<close>

definition set_pos :: "nat \<Rightarrow> aes_ctx \<Rightarrow> aes_ctx" where
  "set_pos p ctx = ctx\<lparr>inf := (inf ctx)[2 := word_of_nat p]\<rparr>"

lemma set_pos_simps [simp]:
  "set_pos q (set_pos p ctx) = set_pos q ctx" "aes_block (set_pos p ctx) = aes_block ctx"
  by (simp_all add: set_pos_def aes_block_def fun_eq_iff)

lemma ctx_at_set_pos: "ctx_at p ctx \<Longrightarrow> q \<le> 16 \<Longrightarrow> ctx_at q (set_pos q ctx)"
  by (auto simp: ctx_at_def ctx_ok_def set_pos_def unat_of_nat)

lemma iv_mode_call:
  assumes "ctx_at p ctx" "p < 16" "length iv = 16" "bytewise op32 op8"
  shows "\<exists>os p' iv'. run (iv_step op8 (aes_block ctx)) (p, iv) ibuf = (os, p', iv') \<and>
    iv_mode al op32 op8 ibuf iv ctx = Some (0, os, iv', set_pos p' ctx) \<and> p' < 16 \<and> length iv' = 16"
proof -
  obtain os p' iv' where r: "run (iv_step op8 (aes_block ctx)) (p, iv) ibuf = (os, p', iv')"
    by (cases "run (iv_step op8 (aes_block ctx)) (p, iv) ibuf") auto
  have "p' < 16" "length iv' = 16"
    using iv_run_pos[OF assms(2), of op8 "aes_block ctx" iv ibuf]
      length_iv_run[OF assms(3), of "aes_block ctx" op8 p ibuf] r by simp_all
  moreover have "iv_mode al op32 op8 ibuf iv ctx = Some (0, os, iv', set_pos p' ctx)"
    using iv_mode_refines[of ctx op32 op8 iv ibuf al] assms r by (auto simp: ctx_at_def set_pos_def)
  ultimately show ?thesis using r by blast
qed

lemma iv_mode_split:
  assumes "ctx_at p ctx" "p < 16" "length iv = 16" "bytewise op32 op8"
  shows "\<exists>c1 iv1 ctx1 c2 iv2 ctx2. iv_mode al op32 op8 xs iv ctx = Some (0, c1, iv1, ctx1) \<and>
    iv_mode al' op32 op8 ys iv1 ctx1 = Some (0, c2, iv2, ctx2) \<and>
    iv_mode al'' op32 op8 (xs @ ys) iv ctx = Some (0, c1 @ c2, iv2, ctx2)"
proof -
  let ?st = "iv_step op8 (aes_block ctx)"
  obtain c1 p1 iv1 where 1: "run ?st (p, iv) xs = (c1, p1, iv1)"
    "iv_mode al op32 op8 xs iv ctx = Some (0, c1, iv1, set_pos p1 ctx)" "p1 < 16" "length iv1 = 16"
    using iv_mode_call[OF assms, of xs al] by blast
  have at1: "ctx_at p1 (set_pos p1 ctx)" using ctx_at_set_pos[OF assms(1), of p1] 1(3) by simp
  obtain c2 p2 iv2 where 2: "run ?st (p1, iv1) ys = (c2, p2, iv2)"
    "iv_mode al' op32 op8 ys iv1 (set_pos p1 ctx) = Some (0, c2, iv2, set_pos p2 ctx)"
    using iv_mode_call[OF at1 1(3,4) assms(4), of ys al'] by auto
  have "run ?st (p, iv) (xs @ ys) = (c1 @ c2, p2, iv2)" by (rule run_appendI[OF 1(1) 2(1)])
  then have "iv_mode al'' op32 op8 (xs @ ys) iv ctx = Some (0, c1 @ c2, iv2, set_pos p2 ctx)"
    using iv_mode_call[OF assms, of "xs @ ys" al''] by auto
  with 1(2) 2(2) show ?thesis by blast
qed

lemma aes_ctr_call:
  assumes "ctx_at p ctx" "p \<le> 16" "keeps16 inc" "length c = 16" "length buf = 128"
  shows "\<exists>os p' c'. run (ctr_step inc (aes_block ctx)) (ctr_norm inc (p, c)) xs = (os, ctr_norm inc (p', c')) \<and>
    aes_ctr_crypt buf al xs c inc ctx = (0, os, c', set_pos p' ctx) \<and> p' \<le> 16 \<and> length c' = 16"
  using aes_ctr_crypt_refines[of ctx inc c buf al xs] assms unfolding ctx_at_def set_pos_def by metis

section \<open>Properties\<close>

text \<open>
  CBC: decrypting with the decryption schedule of the same key and the initial IV restores
  every message of whole blocks, whichever of the word and byte variants the two sides ran.
\<close>

theorem aes_cbc_roundtrip:
  assumes "ctx_pair ce cd" "length msg = 16 * n" "length iv = 16" "length obuf = 16 * n" "length obuf' = 16 * n"
  shows "\<exists>c iv'. aes_cbc_encrypt al msg obuf (16 * n) iv ce = (EXIT_SUCCESS, c, iv') \<and>
    (\<exists>iv''. aes_cbc_decrypt al' c obuf' (16 * n) iv cd = (EXIT_SUCCESS, msg, iv''))"
  using cbc_roundtrip_blocks[OF assms, of al al']
  by (auto simp: aes_cbc_encrypt_def aes_cbc_decrypt_def and_15_mod drop_bit_4_div)

text \<open>The schedules of one key make such a pair.\<close>

lemma ctx_pair_of_key:
  assumes "length (ks ce) = 44" "length (ks cd) = 44"
  shows "ctx_pair (snd (aes_encrypt_key128 key ce)) (snd (aes_decrypt_key128 key cd))"
proof -
  obtain ce' where e: "aes_encrypt_key128 key ce = (0, ce')" "inf ce' ! 0 = 160"
    "\<forall>r \<le> 10. key4 (ks ce') (4 * r) = key_block key r"
    using aes_encrypt_key128_blocks[OF assms(1)] by blast
  obtain cd' where d: "aes_decrypt_key128 key cd = (0, cd')" "inf cd' ! 0 = 160"
    "key4 (ks cd') 0 = key_block key 10" "key4 (ks cd') 40 = key_block key 0"
    "\<forall>r \<in> {1..<10}. key4 (ks cd') (40 - r * 4) = map imix_word (key_block key r)"
    using aes_decrypt_key128_blocks[OF assms(2)] by blast
  have "key4 (ks ce') (r * 4) = key_block key r" if "r \<le> 10" for r
    using e(3) that by (simp add: mult.commute)
  from this[of 10] this[of 0] this show ?thesis
    using d e by (auto simp: dec_schedule_def ctx_pair_def ctx_ok_def)
qed

theorem aes_cbc_roundtrip_witness:
  "\<exists>c iv'. aes_cbc_encrypt True (replicate 32 5) (replicate 32 0) 32 (replicate 16 9)
       (snd (aes_encrypt_key128 (replicate 16 1) fresh_ctx)) = (EXIT_SUCCESS, c, iv') \<and>
    (\<exists>iv''. aes_cbc_decrypt False c (replicate 32 0) 32 (replicate 16 9)
       (snd (aes_decrypt_key128 (replicate 16 1) fresh_ctx)) = (EXIT_SUCCESS, replicate 32 5, iv''))"
  using aes_cbc_roundtrip[OF ctx_pair_of_key, of fresh_ctx fresh_ctx "replicate 32 5" 2 "replicate 16 9"
      "replicate 32 0" "replicate 32 0" True "replicate 16 1" False]
  by (simp add: fresh_ctx_def)

text \<open>
  CFB: decrypting what \<^verbatim>\<open>aes_cfb_encrypt\<close> produced from the same IV and block position gives
  the message back, for messages of any length, and both calls succeed.
\<close>

theorem aes_cfb_roundtrip:
  assumes "ctx_at p ctx" "p < 16" "length iv = 16"
  shows "\<exists>c iv' ctx'. aes_cfb_encrypt al msg iv ctx = Some (EXIT_SUCCESS, c, iv', ctx') \<and>
    (\<exists>iv'' ctx''. aes_cfb_decrypt al' c iv ctx = Some (EXIT_SUCCESS, msg, iv'', ctx''))"
proof -
  obtain c p' iv' ctx' where e: "run (iv_step cfb_enc_op (aes_block ctx)) (p, iv) msg = (c, p', iv')"
    "iv_mode al cfb_enc_op cfb_enc_op msg iv ctx = Some (0, c, iv', ctx')"
    using iv_mode_call[OF assms bytewise_ops(1)] by blast
  obtain m q iv'' ctx'' where d: "run (iv_step cfb_dec_op (aes_block ctx)) (p, iv) c = (m, q, iv'')"
    "iv_mode al' cfb_dec_op cfb_dec_op c iv ctx = Some (0, m, iv'', ctx'')"
    using iv_mode_call[OF assms bytewise_ops(2)] by blast
  have "m = msg" using cfb.run_inverse[OF refl, of "aes_block ctx" "(p, iv)" msg] e(1) d(1) by simp
  with e(2) d(2) show ?thesis by (auto simp: aes_cfb_encrypt_def aes_cfb_decrypt_def)
qed

definition demo_ctx :: aes_ctx where
  "demo_ctx = \<lparr>ks = replicate KS_LENGTH 0, inf = [160, 0, 0, 0]\<rparr>"

lemma demo_ctx_at: "ctx_at 0 demo_ctx"
  by (simp add: ctx_at_def ctx_ok_def demo_ctx_def)

theorem aes_cfb_roundtrip_witness:
  "\<exists>c iv' ctx'. aes_cfb_encrypt True (replicate 21 5) (replicate 16 9) demo_ctx = Some (EXIT_SUCCESS, c, iv', ctx') \<and>
    (\<exists>iv'' ctx''. aes_cfb_decrypt False c (replicate 16 9) demo_ctx = Some (EXIT_SUCCESS, replicate 21 5, iv'', ctx''))"
  using aes_cfb_roundtrip[OF demo_ctx_at, of "replicate 16 9" True "replicate 21 5" False] by simp

text \<open>
  CFB and OFB are streams: two calls on consecutive pieces of a message, whatever
  their lengths and alignments, produce the same output and leave the same IV and context as one call on the whole message.
\<close>

theorem aes_stream_split:
  assumes "ctx_at p ctx" "p < 16" "length iv = 16"
    and "f = aes_cfb_encrypt \<or> f = aes_cfb_decrypt \<or> f = aes_ofb_crypt"
  shows "\<exists>c1 iv1 ctx1 c2 iv2 ctx2. f al xs iv ctx = Some (EXIT_SUCCESS, c1, iv1, ctx1) \<and>
    f al' ys iv1 ctx1 = Some (EXIT_SUCCESS, c2, iv2, ctx2) \<and>
    f al'' (xs @ ys) iv ctx = Some (EXIT_SUCCESS, c1 @ c2, iv2, ctx2)"
  using assms(4) iv_mode_split[OF assms(1-3) bytewise_ops(1)] iv_mode_split[OF assms(1-3) bytewise_ops(2)]
    iv_mode_split[OF assms(1-3) bytewise_ops(3)]
  by (elim disjE) (simp_all add: aes_cfb_encrypt_def aes_cfb_decrypt_def aes_ofb_crypt_def)

theorem aes_stream_split_witness:
  "\<exists>c1 iv1 ctx1 c2 iv2 ctx2. aes_ofb_crypt True [1, 2, 3] (replicate 16 9) demo_ctx = Some (EXIT_SUCCESS, c1, iv1, ctx1) \<and>
    aes_ofb_crypt False (replicate 30 4) iv1 ctx1 = Some (EXIT_SUCCESS, c2, iv2, ctx2) \<and>
    aes_ofb_crypt True ([1, 2, 3] @ replicate 30 4) (replicate 16 9) demo_ctx = Some (EXIT_SUCCESS, c1 @ c2, iv2, ctx2)"
  by (rule aes_stream_split[OF demo_ctx_at]) simp_all

text \<open>
  Property C31 (round trip).  CTR: a message encrypted in two calls, cut anywhere, is restored by one call on the
  concatenated ciphertext from the first counter block and position, for any counter function that keeps 16-byte blocks.
\<close>

theorem aes_ctr_roundtrip:
  assumes "ctx_at p ctx" "p \<le> 16" "keeps16 inc" "length c = 16"
    and "length buf = 128" "length buf' = 128" "length buf'' = 128"
  shows "\<exists>o1 c1 ctx1 o2 c2 ctx2. aes_ctr_crypt buf al xs c inc ctx = (EXIT_SUCCESS, o1, c1, ctx1) \<and>
    aes_ctr_crypt buf' al' ys c1 inc ctx1 = (EXIT_SUCCESS, o2, c2, ctx2) \<and>
    (\<exists>c3 ctx3. aes_ctr_crypt buf'' al'' (o1 @ o2) c inc ctx = (EXIT_SUCCESS, xs @ ys, c3, ctx3))"
proof -
  let ?st = "ctr_step inc (aes_block ctx)" and ?s = "ctr_norm inc (p, c)"
  obtain o1 p1 c1 where 1: "run ?st ?s xs = (o1, ctr_norm inc (p1, c1))"
    "aes_ctr_crypt buf al xs c inc ctx = (0, o1, c1, set_pos p1 ctx)" "p1 \<le> 16" "length c1 = 16"
    using aes_ctr_call[OF assms(1-5), of xs al] by blast
  have at1: "ctx_at p1 (set_pos p1 ctx)" by (rule ctx_at_set_pos[OF assms(1) 1(3)])
  obtain o2 p2 c2 where 2: "run ?st (ctr_norm inc (p1, c1)) ys = (o2, ctr_norm inc (p2, c2))"
    "aes_ctr_crypt buf' al' ys c1 inc (set_pos p1 ctx) = (0, o2, c2, set_pos p2 ctx)"
    using aes_ctr_call[OF at1 1(3) assms(3) 1(4) assms(6), of ys al'] by auto
  obtain m p3 c3 where 3: "run ?st ?s (o1 @ o2) = (m, ctr_norm inc (p3, c3))"
    "aes_ctr_crypt buf'' al'' (o1 @ o2) c inc ctx = (0, m, c3, set_pos p3 ctx)"
    using aes_ctr_call[OF assms(1-4,7), of "o1 @ o2" al''] by blast
  have "run ?st ?s (xs @ ys) = (o1 @ o2, ctr_norm inc (p2, c2))" by (rule run_appendI[OF 1(1) 2(1)])
  then have "m = xs @ ys" using ctr.run_inverse[OF refl, of inc "aes_block ctx" ?s "xs @ ys"] 3(1) by simp
  with 1(2) 2(2) 3(2) show ?thesis by blast
qed

theorem aes_ctr_roundtrip_witness:
  "\<exists>o1 c1 ctx1 o2 c2 ctx2. aes_ctr_crypt (replicate 128 0) True [1, 2, 3] (replicate 16 0) (\<lambda>b. b) demo_ctx =
      (EXIT_SUCCESS, o1, c1, ctx1) \<and>
    aes_ctr_crypt (replicate 128 0) True (replicate 200 4) c1 (\<lambda>b. b) ctx1 = (EXIT_SUCCESS, o2, c2, ctx2) \<and>
    (\<exists>c3 ctx3. aes_ctr_crypt (replicate 128 0) True (o1 @ o2) (replicate 16 0) (\<lambda>b. b) demo_ctx =
      (EXIT_SUCCESS, [1, 2, 3] @ replicate 200 4, c3, ctx3))"
  by (rule aes_ctr_roundtrip[OF demo_ctx_at]) (simp_all add: keeps16_def)

end
