(* ===== verification/Gf128.thy ===== *)
theory Gf128
  imports Aes_Mode_Props
begin

text \<open>
  The multiplier of GF(2^128) that GCM uses, \<^verbatim>\<open>GEC-block/src/gf128mul.c\<close> with \<^verbatim>\<open>gf_mul_lo.h\<close> and the block
  operations of \<^verbatim>\<open>mode_hdr.h\<close>, in the configuration of the library: \<^verbatim>\<open>GF_MODE_LB\<close>, \<^verbatim>\<open>UNIT_BITS\<close> 32, little-endian,
  \<^verbatim>\<open>TABLES_4K\<close>.  A \<^verbatim>\<open>gf_t\<close> is the list of its 16 bytes, read as four words where the code casts it.
  The reference is \<open>gf_dot\<close>, multiplication of polynomials over GF(2) modulo \<open>x^128 + x^7 + x^2 + x + 1\<close>, shown
  here to be bilinear, commutative and associative.
\<close>

section \<open>Block operations of mode_hdr.h\<close>

definition xor_block_aligned :: "bytes \<Rightarrow> bytes \<Rightarrow> bytes" where
  "xor_block_aligned p q = wbytes [word_in p 0 XOR word_in q 0, word_in p 1 XOR word_in q 1,
     word_in p 2 XOR word_in q 2, word_in p 3 XOR word_in q 3]"

definition xor_block_u8 :: "bytes \<Rightarrow> bytes \<Rightarrow> bytes" where
  "xor_block_u8 p q = map (\<lambda>i. p ! i XOR q ! i) [0..<16]"

section \<open>Multiplication by powers of x (gf_mul_lo.h)\<close>

definition MASK :: "u32 \<Rightarrow> u32" where
  "MASK x = x * (0xffffffff div 0xff)"

definition gf_uint16_xor :: "nat \<Rightarrow> u16" where
  "gf_uint16_xor i =
     (if i AND 0x80 \<noteq> 0 then 0x00e1 else 0) XOR (if i AND 0x40 \<noteq> 0 then 0x8070 else 0) XOR
     (if i AND 0x20 \<noteq> 0 then 0x4038 else 0) XOR (if i AND 0x10 \<noteq> 0 then 0x201c else 0) XOR
     (if i AND 0x08 \<noteq> 0 then 0x100e else 0) XOR (if i AND 0x04 \<noteq> 0 then 0x0807 else 0) XOR
     (if i AND 0x02 \<noteq> 0 then 0x8403 else 0) XOR (if i AND 0x01 \<noteq> 0 then 0xc201 else 0)"

definition gf_tab :: "u16 list" where
  "gf_tab = map gf_uint16_xor [0..<256]"

text \<open>\<^verbatim>\<open>enum x_bit\<close>: the mask of the coefficient of \<open>x^k\<close> within a byte.\<close>

definition x_bit :: "nat \<Rightarrow> u8" where
  "x_bit k = [0x80, 0x40, 0x20, 0x10, 0x08, 0x04, 0x02, 0x01] ! k"

definition f1_lb :: "nat \<Rightarrow> bytes \<Rightarrow> u32" where
  "f1_lb n x = (drop_bit 1 (word_in x n) AND NOT (MASK 0x80)) OR
     ((push_bit 15 (word_in x n) OR (if n \<noteq> 0 then drop_bit 17 (word_in x (n - 1)) else 0)) AND MASK 0x80)"

definition f8_lb :: "nat \<Rightarrow> bytes \<Rightarrow> u32" where
  "f8_lb n x = push_bit 8 (word_in x n) OR (if n \<noteq> 0 then drop_bit 24 (word_in x (n - 1)) else 0)"

text \<open>\<^verbatim>\<open>gf_mulx1_lb(r, x)\<close>, called with \<^verbatim>\<open>r\<close> and \<^verbatim>\<open>x\<close> distinct; the result is \<^verbatim>\<open>r\<close>.\<close>

definition gf_mulx1_lb :: "bytes \<Rightarrow> bytes" where
  "gf_mulx1_lb x =
     (let tt = ucast (gf_tab ! unat (drop_bit 17 (word_in x 3) AND MASK 0x80))
      in wbytes [f1_lb 0 x XOR tt, f1_lb 1 x, f1_lb 2 x, f1_lb 3 x])"

text \<open>\<^verbatim>\<open>gf_mulx8_lb(x)\<close> works in place, from the last word down.\<close>

definition rep2_d4 :: "(nat \<Rightarrow> bytes \<Rightarrow> u32) \<Rightarrow> bytes \<Rightarrow> bytes" where
  "rep2_d4 f x = fold (\<lambda>n x. word_out x n (f n x)) [3, 2, 1, 0] x"

definition gf_mulx8_lb :: "bytes \<Rightarrow> bytes" where
  "gf_mulx8_lb x =
     (let tt = ucast (gf_tab ! unat (drop_bit 24 (word_in x 3)));
          x1 = rep2_d4 f8_lb x
      in word_out x1 0 (word_in x1 0 XOR tt))"

section \<open>The multipliers (gf128mul.c)\<close>

text \<open>
  \<^verbatim>\<open>gf_mulTMD(a, b)\<close>, the value left in \<^verbatim>\<open>a\<close>.  When \<^verbatim>\<open>a == b\<close> the code reads the copy \<^verbatim>\<open>p[0]\<close> for \<^verbatim>\<open>b\<close>, which
  holds the same value.
\<close>

primrec tmd_powers :: "nat \<Rightarrow> bytes \<Rightarrow> bytes list" where
  "tmd_powers 0 a = [a]"
| "tmd_powers (Suc n) a = (let p = tmd_powers n a in p @ [gf_mulx1_lb (p ! n)])"

definition tmd_xor :: "bytes list \<Rightarrow> u8 \<Rightarrow> bytes \<Rightarrow> bytes" where
  "tmd_xor p ch a = fold (\<lambda>k a. if ch AND x_bit k \<noteq> 0 then xor_block_aligned a (p ! k) else a) [0, 1, 2, 3, 4, 5, 6, 7] a"

primrec tmd_loop :: "bytes list \<Rightarrow> bytes \<Rightarrow> nat \<Rightarrow> bytes \<Rightarrow> bytes" where
  "tmd_loop p q 0 a = tmd_xor p (q ! 0) a"
| "tmd_loop p q (Suc i) a = tmd_loop p q i (gf_mulx8_lb (tmd_xor p (q ! Suc i) a))"

definition gf_mulTMD :: "bytes \<Rightarrow> bytes \<Rightarrow> bytes" where
  "gf_mulTMD a b = tmd_loop (tmd_powers 7 a) b 15 (replicate 16 0)"

text \<open>\<^verbatim>\<open>init_4k_table(g, t)\<close> on any previous contents of \<^verbatim>\<open>t\<close>.\<close>

definition init_4k_table :: "bytes \<Rightarrow> bytes list \<Rightarrow> bytes list" where
  "init_4k_table g t =
     (let t = t[0 := replicate 16 0];
          t = t[128 := g];
          t = fold (\<lambda>j t. t[j := gf_mulx1_lb (t ! (j + j))]) [64, 32, 16, 8, 4, 2, 1] t
      in fold (\<lambda>j t. fold (\<lambda>k t. t[j + k := xor_block_aligned (t ! j) (t ! k)]) [1..<j] t)
           [2, 4, 8, 16, 32, 64, 128] t)"

definition xor_4k :: "nat \<Rightarrow> bytes \<Rightarrow> bytes list \<Rightarrow> bytes \<Rightarrow> bytes" where
  "xor_4k i ap t r = xor_block_aligned (gf_mulx8_lb r) (t ! unat (ap ! i))"

definition gf_mul_4k :: "bytes \<Rightarrow> bytes list \<Rightarrow> bytes" where
  "gf_mul_4k a t = fold (\<lambda>i r. xor_4k i a t r) (rev [0..<16]) (replicate 16 0)"

section \<open>The field\<close>

text \<open>The coefficient of \<open>x^i\<close> is bit \<open>i\<close>.\<close>

definition mulx :: "128 word \<Rightarrow> 128 word" where
  "mulx a = push_bit 1 a XOR (if bit a 127 then 0x87 else 0)"

primrec gf_sum :: "128 word \<Rightarrow> 128 word \<Rightarrow> nat \<Rightarrow> 128 word" where
  "gf_sum a b 0 = 0"
| "gf_sum a b (Suc n) = gf_sum a b n XOR (if bit b n then (mulx ^^ n) a else 0)"

definition gf_dot :: "128 word \<Rightarrow> 128 word \<Rightarrow> 128 word" where
  "gf_dot a b = gf_sum a b 128"

lemma xor_if: "(if c then a else 0) XOR (if c then b else 0) = (if c then a XOR b else (0 :: 'a::len word))"
  by simp

lemma xor_linear_mulx: "xor_linear mulx"
  by (rule xor_linearI) (auto simp: mulx_def push_bit_xor bit_xor_iff ac_simps)

lemma gf_sum_left: "gf_sum (a XOR a') b n = gf_sum a b n XOR gf_sum a' b n"
  by (induction n) (simp_all add: xor_linearD[OF xor_linear_funpow[OF xor_linear_mulx]] ac_simps)

lemma gf_sum_right: "gf_sum a (b XOR b') n = gf_sum a b n XOR gf_sum a b' n"
  by (induction n) (auto simp: bit_xor_iff ac_simps)

lemma xor_linear_gf_dot: "xor_linear (\<lambda>a. gf_dot a b)" "xor_linear (gf_dot a)"
  by (simp_all add: xor_linear_def gf_dot_def gf_sum_left gf_sum_right)

lemma gf_sum_mulx: "gf_sum (mulx a) b n = mulx (gf_sum a b n)"
  by (induction n)
     (simp_all add: xor_linearD[OF xor_linear_mulx] xor_linear_0[OF xor_linear_mulx] funpow_swap1)

lemma gf_dot_mulx_pow: "gf_dot ((mulx ^^ k) a) b = (mulx ^^ k) (gf_dot a b)"
  by (induction k arbitrary: a) (simp_all add: gf_dot_def gf_sum_mulx)

lemma gf_sum_exp: "j < 128 \<Longrightarrow> gf_sum a (2 ^ j) n = (if j < n then (mulx ^^ j) a else 0)"
  by (induction n) (auto simp: bit_exp_iff less_Suc_eq)

lemma gf_dot_exp: "j < 128 \<Longrightarrow> gf_dot a (2 ^ j) = (mulx ^^ j) a"
  by (simp add: gf_dot_def gf_sum_exp)

lemma mulx_exp: "Suc j < 128 \<Longrightarrow> mulx (2 ^ j) = 2 ^ Suc j"
  by (simp add: mulx_def bit_exp_iff push_bit_eq_mult)

lemma mulx_pow_1: "j < 128 \<Longrightarrow> (mulx ^^ j) 1 = 2 ^ j"
  by (induction j) (simp_all add: mulx_exp del: power_Suc)

lemma gf_dot_1 [simp]: "gf_dot 1 b = b"
  by (rule xor_linear_eqI[OF xor_linear_gf_dot(2) xor_linear_id]) (simp add: gf_dot_exp mulx_pow_1)

lemma gf_dot_comm: "gf_dot a b = gf_dot b a"
proof (rule xor_linear_eqI[OF xor_linear_gf_dot])
  fix i :: nat assume "i < LENGTH(128)"
  then show "gf_dot (2 ^ i) b = gf_dot b (2 ^ i)"
    using gf_dot_mulx_pow[of i 1 b] by (simp add: gf_dot_exp mulx_pow_1)
qed

lemma gf_dot_assoc: "gf_dot (gf_dot a b) c = gf_dot a (gf_dot b c)"
proof (rule xor_linear_eqI[where f = "\<lambda>a. gf_dot (gf_dot a b) c" and g = "\<lambda>a. gf_dot a (gf_dot b c)"])
  show "xor_linear (\<lambda>a. gf_dot (gf_dot a b) c)"
    by (rule xor_linear_comp[OF xor_linear_gf_dot(1) xor_linear_gf_dot(1)])
  fix i :: nat assume "i < LENGTH(128)"
  then show "gf_dot (gf_dot (2 ^ i) b) c = gf_dot (2 ^ i) (gf_dot b c)"
    using gf_dot_mulx_pow[of i 1 b] gf_dot_mulx_pow[of i 1 "gf_dot b c"]
    by (simp add: mulx_pow_1 gf_dot_mulx_pow)
qed (rule xor_linear_gf_dot)

lemma gf_dot_0 [simp]: "gf_dot 0 a = 0" "gf_dot a 0 = 0"
  using xor_linear_0[OF xor_linear_gf_dot(1)] xor_linear_0[OF xor_linear_gf_dot(2)] by auto

end
