(* ===== verification/Gf128_Correct.thy ===== *)
theory Gf128_Correct
  imports Gf128
begin

text \<open>
  Correctness of the multipliers of \<^verbatim>\<open>gf128mul.c\<close>: blocks read as polynomials (\<open>gf_val\<close>), the word-wise shifts of
  \<^verbatim>\<open>gf_mul_lo.h\<close> as multiplication by \<open>x\<close> and \<open>x^8\<close>, the 4K table entry by entry, and both multipliers as the field
  product \<open>gf_dot\<close>.
\<close>

section \<open>Blocks as field elements\<close>

primrec byte_sum :: "128 word \<Rightarrow> u8 \<Rightarrow> nat \<Rightarrow> 128 word" where
  "byte_sum a c 0 = 0"
| "byte_sum a c (Suc n) = byte_sum a c n XOR (if bit c (7 - n) then (mulx ^^ n) a else 0)"

definition byte_dot :: "128 word \<Rightarrow> u8 \<Rightarrow> 128 word" where
  "byte_dot a c = byte_sum a c 8"

definition lb :: "u8 \<Rightarrow> 128 word" where
  "lb c = byte_dot 1 c"

fun gf_val :: "bytes \<Rightarrow> 128 word" where
  "gf_val [] = 0"
| "gf_val (c # cs) = lb c XOR push_bit 8 (gf_val cs)"

lemma bit_byte_sum: "n \<le> 8 \<Longrightarrow> bit (byte_sum 1 c n) i \<longleftrightarrow> i < n \<and> bit c (7 - i)"
  by (induction n) (auto simp: bit_xor_iff mulx_pow_1 bit_exp_iff less_Suc_eq)

lemma byte_sum_zero [simp]: "byte_sum a 0 n = 0"
  by (induction n) simp_all

lemma bit_lb: "bit (lb c) i \<longleftrightarrow> i < 8 \<and> bit c (7 - i)"
  by (simp add: lb_def byte_dot_def bit_byte_sum)

lemma xor_linear_lb: "xor_linear lb"
  by (rule xor_linearI, rule bit_word_eqI) (auto simp: bit_lb bit_xor_iff)

lemma bit_gf_val:
  "length b \<le> 16 \<Longrightarrow> bit (gf_val b) i \<longleftrightarrow> i < 8 * length b \<and> bit (b ! (i div 8)) (7 - i mod 8)"
proof (induction b arbitrary: i)
  case (Cons c cs)
  show ?case
  proof (cases "i < 8")
    case True
    then show ?thesis by (simp add: bit_xor_iff bit_lb bit_push_bit_iff)
  next
    case False
    then have "i div 8 = Suc ((i - 8) div 8)" "i mod 8 = (i - 8) mod 8"
      by (auto simp: le_div_geq le_mod_geq)
    moreover have "i < 8 * length (c # cs) \<Longrightarrow> i < 128" using Cons.prems by simp
    ultimately show ?thesis
      using False Cons.prems by (auto simp: bit_xor_iff bit_lb bit_push_bit_iff Cons.IH)
  qed
qed simp

lemma gf_val_eqI:
  assumes "length b = 16" "length c = 16" "gf_val b = gf_val c"
  shows "b = c"
proof (rule nth_equalityI)
  fix k assume "k < length b"
  show "b ! k = c ! k"
  proof (rule bit_word_eqI)
    fix n :: nat assume "n < LENGTH(8)"
    then obtain m where m: "n = 7 - m" "m < 8" using that[of "7 - n"] by simp
    have "8 * k + m < 128" using m assms(1) \<open>k < length b\<close> by simp
    then have "bit (gf_val x) (8 * k + m) \<longleftrightarrow> bit (x ! k) n" if "length x = 16" for x
      using that m by (simp add: bit_gf_val)
    then show "bit (b ! k) n \<longleftrightarrow> bit (c ! k) n" using assms by metis
  qed
qed (simp add: assms)

lemma less_16_cases: "(i :: nat) < 16 \<Longrightarrow> i \<in> {0, 1, 2, 3, 4, 5, 6, 7, 8, 9, 10, 11, 12, 13, 14, 15}"
  using atLeastLessThan_upt[of 0 16] unfolding upt_16 by (metis atLeastLessThan_iff le0 list.set)

lemma wbytes4_nth:
  assumes "i < 16"
  shows "wbytes [w 0, w 1, w 2, w 3] ! i = byte (w (i div 4)) (i mod 4)"
  using less_16_cases[OF assms] by auto

lemma xor_block_u8_aligned: "xor_block_aligned p q = xor_block_u8 p q"
proof (rule nth_equalityI)
  fix i assume "i < length (xor_block_aligned p q)"
  then have i: "i < 16" by (simp add: xor_block_aligned_def)
  have "i div 4 < 4" using i by simp
  then show "xor_block_aligned p q ! i = xor_block_u8 p q ! i"
    unfolding xor_block_aligned_def using i
    by (subst wbytes4_nth[of i "\<lambda>n. word_in p n XOR word_in q n"]) (simp_all add: xor_block_u8_def byte_word_in)
qed (simp add: xor_block_aligned_def xor_block_u8_def)

lemma gf_val_xor:
  assumes "length p = 16" "length q = 16"
  shows "gf_val (xor_block_u8 p q) = gf_val p XOR gf_val q"
  using assms by (intro bit_word_eqI) (auto simp: bit_xor_iff bit_gf_val xor_block_u8_def)

lemma length_xor_block [simp]: "length (xor_block_u8 p q) = 16"
  by (simp add: xor_block_u8_def)

subsection \<open>Multiplication by x\<close>

lemma bit_byte: "j < 4 \<Longrightarrow> m < 8 \<Longrightarrow> bit (byte w j) m \<longleftrightarrow> bit w (8 * j + m)"
  unfolding byte_def bval_def u32_and_ff by (auto simp: bit_simps ac_simps)

lemma bit_word_in:
  assumes "n < 4" "j < 4" "m < 8"
  shows "bit (word_in x n) (8 * j + m) \<longleftrightarrow> bit (x ! (4 * n + j)) m"
  using assms bit_byte[of j m "word_in x n"] by (simp add: byte_word_in)

lemma MASK_80: "MASK 0x80 = 2 ^ 7 OR 2 ^ 15 OR 2 ^ 23 OR 2 ^ 31"
  by (simp add: MASK_def)

lemma bit_MASK: "j < 4 \<Longrightarrow> m < 8 \<Longrightarrow> bit (MASK 0x80) (8 * j + m) \<longleftrightarrow> m = 7"
  unfolding MASK_80 bit_or_iff bit_exp_iff possible_bit_word by simp presburger

lemma bit_f1_lb:
  assumes n: "n < 4" and j: "j < 4" and m: "m < 8"
  shows "bit (byte (f1_lb n x) j) m \<longleftrightarrow>
    (if m < 7 then bit (x ! (4 * n + j)) (m + 1) else 0 < 4 * n + j \<and> bit (x ! (4 * n + j - 1)) 0)"
proof (cases "m < 7")
  case True
  then have "bit (f1_lb n x) (8 * j + m) \<longleftrightarrow> bit (word_in x n) (8 * j + (m + 1))"
    using bit_MASK[OF j m] j by (auto simp: f1_lb_def bit_simps)
  with True show ?thesis using n j bit_word_in[OF n j, of "m + 1" x] by (simp add: bit_byte)
next
  case False
  then have m7: "m = 7" using m by simp
  show ?thesis
  proof (cases "j = 0")
    case True
    then have "bit (f1_lb n x) 7 \<longleftrightarrow> 0 < n \<and> bit (word_in x (n - 1)) 24"
      using bit_MASK[OF j m] by (auto simp: f1_lb_def bit_simps m7)
    moreover have "4 * (n - 1) + 3 = 4 * n - 1" if "0 < n" using that by simp
    ultimately show ?thesis using True n bit_word_in[of "n - 1" 3 0 x] by (auto simp: bit_byte m7)
  next
    case False
    have ge: "bit (word_in x (n - 1)) (24 + 8 * j) = False"
      using False by (auto dest: bit_imp_le_length)
    have e: "8 * j + 7 - 15 = 8 * (j - 1)" using False by simp
    have "bit (f1_lb n x) (8 * j + 7) \<longleftrightarrow> bit (word_in x n) (8 * (j - 1))"
      using bit_MASK[OF j m] False j ge by (auto simp: f1_lb_def bit_simps m7 e)
    then show ?thesis using False n j bit_word_in[of n "j - 1" 0 x] by (simp add: bit_byte m7)
  qed
qed

lemma nth_shift1:
  assumes k: "k < 16" and m: "m < 8"
  shows "bit (wbytes [f1_lb 0 x, f1_lb 1 x, f1_lb 2 x, f1_lb 3 x] ! k) m \<longleftrightarrow>
    (if m < 7 then bit (x ! k) (m + 1) else 0 < k \<and> bit (x ! (k - 1)) 0)"
proof -
  have kd: "k div 4 < 4" "k mod 4 < 4" "4 * (k div 4) + k mod 4 = k" using k by simp_all
  show ?thesis
    unfolding wbytes4_nth[OF k, of "\<lambda>n. f1_lb n x"] bit_f1_lb[OF kd(1,2) m] kd(3) ..
qed

lemma gf_val_shift1:
  assumes "length x = 16"
  shows "gf_val (wbytes [f1_lb 0 x, f1_lb 1 x, f1_lb 2 x, f1_lb 3 x]) = push_bit 1 (gf_val x)"
proof (rule bit_word_eqI)
  fix i :: nat assume "i < LENGTH(128)"
  then have i: "i < 128" by simp
  then have k: "i div 8 < 16" and m: "7 - i mod 8 < 8" by simp_all
  have s: "7 - i mod 8 < 7 \<longleftrightarrow> 0 < i mod 8" "0 < i mod 8 \<Longrightarrow> 7 - i mod 8 + 1 = 8 - i mod 8"
    using mod_less_divisor[of 8 i] by linarith+
  let ?w = "wbytes [f1_lb 0 x, f1_lb 1 x, f1_lb 2 x, f1_lb 3 x]"
  have "bit (gf_val ?w) i \<longleftrightarrow> bit (?w ! (i div 8)) (7 - i mod 8)"
    using i by (simp add: bit_gf_val length_wbytes del: wbytes_simps)
  also have "\<dots> \<longleftrightarrow> (if 0 < i mod 8 then bit (x ! (i div 8)) (8 - i mod 8)
                      else 0 < i div 8 \<and> bit (x ! (i div 8 - 1)) 0)"
    unfolding nth_shift1[OF k m] using s by auto
  also have "\<dots> \<longleftrightarrow> 0 < i \<and> bit (x ! ((i - 1) div 8)) (7 - (i - 1) mod 8)"
  proof (cases "i mod 8 = 0")
    case True
    then obtain k where k: "i = 8 * k" by (metis mod_0_imp_dvd dvdE)
    show ?thesis
    proof (cases k)
      case (Suc l)
      then have "i - 1 = 8 * l + 7" using k by simp
      then have "(i - 1) div 8 = l" "(i - 1) mod 8 = 7" by simp_all
      then show ?thesis using k Suc by simp
    qed (simp add: k)
  next
    case False
    then have "i - 1 = 8 * (i div 8) + (i mod 8 - 1)" "i mod 8 - 1 < 8" by auto
    then have "(i - 1) div 8 = i div 8" "(i - 1) mod 8 = i mod 8 - 1"
      by (metis div_mult_self4 div_less add.right_neutral zero_neq_numeral, metis mod_mult_self4 mod_less)
    moreover have "0 < i" using False by (cases i) auto
    ultimately show ?thesis using False by (auto simp: gr0_conv_Suc Suc_diff_le)
  qed
  also have "\<dots> \<longleftrightarrow> bit (push_bit 1 (gf_val x)) i"
    unfolding bit_push_bit_iff using i assms by (auto simp: bit_gf_val)
  finally show "bit (gf_val ?w) i \<longleftrightarrow> bit (push_bit 1 (gf_val x)) i" .
qed

lemma mulx1_index: "drop_bit 17 (word_in x 3) AND MASK 0x80 = (if bit (x ! 15) 0 then 0x80 else 0)"
proof (rule bit_word_eqI)
  fix i :: nat assume "i < LENGTH(32)"
  then have i: "i div 8 < 4" "8 * (i div 8) + i mod 8 = i" by auto
  have m: "bit (MASK 0x80) i \<longleftrightarrow> i mod 8 = 7" using bit_MASK[OF i(1), of "i mod 8"] i(2) by simp
  have b: "bit (0x80 :: u32) i \<longleftrightarrow> i = 7"
    using bit_exp_iff[of 7 i, where 'a = "32 word"] \<open>i < LENGTH(32)\<close> by (simp add: possible_bit_word)
  have c: "i = 7 \<or> i = 15 \<or> i = 23 \<or> i = 31" if "i mod 8 = 7" using that i by presburger
  have "bit (word_in x 3) (17 + i) \<and> i mod 8 = 7 \<longleftrightarrow> bit (word_in x 3) 24 \<and> i = 7"
    using c bit_imp_le_length[of "word_in x 3" "17 + i"] by auto
  moreover have "bit (word_in x 3) 24 \<longleftrightarrow> bit (x ! 15) 0" using bit_word_in[of 3 3 0 x] by simp
  ultimately have "bit (drop_bit 17 (word_in x 3) AND MASK 0x80) i \<longleftrightarrow> bit (x ! 15) 0 \<and> bit (0x80 :: u32) i"
    unfolding bit_and_iff m b bit_drop_bit_eq o_def by blast
  then show "bit (drop_bit 17 (word_in x 3) AND MASK 0x80) i \<longleftrightarrow> bit (if bit (x ! 15) 0 then 0x80 else 0 :: u32) i"
    by (cases "bit (x ! 15) 0") (simp_all only: if_True if_False bit_0_eq simp_thms bot_apply bool_simps(6) HOL.simp_thms bot_bool_def)
qed

lemma byte_0 [simp]: "byte 0 j = 0"
  by (simp add: byte_def bval_def)

lemma gf_tab_0 [simp]: "gf_tab ! 0 = 0"
  by (simp add: gf_tab_def gf_uint16_xor_def)

lemma gf_val_mulx1:
  assumes "length x = 16"
  shows "gf_val (gf_mulx1_lb x) = mulx (gf_val x)"
proof -
  define tt :: u32 where "tt = (if bit (x ! 15) 0 then 0xe1 else 0)"
  have tab: "gf_tab ! 128 = 0xe1" by (simp add: gf_tab_def gf_uint16_xor_def)
  have "ucast (gf_tab ! unat (drop_bit 17 (word_in x 3) AND MASK 0x80)) = tt"
    unfolding mulx1_index tt_def using tab by simp
  then have "gf_mulx1_lb x = wbytes [f1_lb 0 x XOR tt, f1_lb 1 x, f1_lb 2 x, f1_lb 3 x]"
    by (simp add: gf_mulx1_lb_def)
  also have "\<dots> = xor_block_u8 (wbytes [f1_lb 0 x, f1_lb 1 x, f1_lb 2 x, f1_lb 3 x]) (wbytes [tt, 0, 0, 0])"
    by (simp add: xor_block_u8_def upt_16)
  finally have "gf_val (gf_mulx1_lb x) = push_bit 1 (gf_val x) XOR gf_val (wbytes [tt, 0, 0, 0])"
    using gf_val_shift1[OF assms] by (simp add: gf_val_xor length_wbytes del: wbytes_simps gf_val.simps)
  moreover have "gf_val (wbytes [0xe1, 0, 0, 0]) = 0x87" "gf_val (wbytes [0, 0, 0, 0]) = 0"
    by code_simp+
  moreover have "bit (gf_val x) 127 \<longleftrightarrow> bit (x ! 15) 0" using assms by (simp add: bit_gf_val)
  ultimately show ?thesis by (auto simp: mulx_def tt_def simp del: wbytes_simps gf_val.simps)
qed

lemma length_mulx1 [simp]: "length (gf_mulx1_lb x) = 16"
  by (simp add: gf_mulx1_lb_def Let_def)

subsection \<open>Multiplication by x^8\<close>

lemma words_in_nth: "c < 4 \<Longrightarrow> words_in x ! c = word_in x c"
proof -
  assume "c < 4"
  then have "c = 0 \<or> c = 1 \<or> c = 2 \<or> c = 3" by auto
  then show ?thesis by (auto simp: words_in_def)
qed

lemma word_out_wbytes:
  assumes "length w = 4" "c < 4"
  shows "word_out (wbytes w) c v = wbytes (w[c := v])"
proof -
  obtain a b d e where w: "w = [a, b, d, e]" using list4[OF assms(1)] by blast
  have "c = 0 \<or> c = 1 \<or> c = 2 \<or> c = 3" using assms(2) by auto
  then show ?thesis unfolding w by (auto simp: word_out_def byte_def)
qed

lemma f8_lb_wbytes:
  "length w = 4 \<Longrightarrow> n < 4 \<Longrightarrow> f8_lb n (wbytes w) = push_bit 8 (w ! n) OR (if n \<noteq> 0 then drop_bit 24 (w ! (n - 1)) else 0)"
  by (simp add: f8_lb_def word_in_wbytes)

lemma rep2_d4_f8:
  assumes "length x = 16"
  shows "rep2_d4 f8_lb x = wbytes [f8_lb 0 x, f8_lb 1 x, f8_lb 2 x, f8_lb 3 x]"
proof -
  obtain a b c d where w: "words_in x = [a, b, c, d]" by (simp add: words_in_def)
  then have x: "x = wbytes [a, b, c, d]" using wbytes_word_in[OF assms] by simp
  show ?thesis
    unfolding x by (simp add: rep2_d4_def f8_lb_wbytes word_out_wbytes del: wbytes_simps)
qed

lemma byte_f8_lb:
  assumes n: "n < 4" and j: "j < 4"
  shows "byte (f8_lb n x) j = (if 0 < 4 * n + j then x ! (4 * n + j - 1) else 0)"
proof (rule bit_word_eqI)
  fix m :: nat assume "m < LENGTH(8)"
  then have m: "m < 8" by simp
  show "bit (byte (f8_lb n x) j) m \<longleftrightarrow> bit (if 0 < 4 * n + j then x ! (4 * n + j - 1) else 0) m"
  proof (cases "j = 0")
    case True
    have "bit (f8_lb n x) m \<longleftrightarrow> n \<noteq> 0 \<and> bit (word_in x (n - 1)) (8 * 3 + m)"
      using m by (auto simp: f8_lb_def bit_simps)
    moreover have "4 * (n - 1) + 3 = 4 * n - 1" if "n \<noteq> 0" using that by simp
    ultimately show ?thesis using True n j m bit_word_in[of "n - 1" 3 m x] by (auto simp: bit_byte)
  next
    case False
    have ge: "bit (word_in x (n - 1)) (8 * j + m + 24) = False"
      using False bit_imp_le_length[of "word_in x (n - 1)" "8 * j + m + 24"] by auto
    have e: "8 * j + m - 8 = 8 * (j - 1) + m" using False by simp
    have "bit (f8_lb n x) (8 * j + m) \<longleftrightarrow> bit (word_in x n) (8 * (j - 1) + m)"
      using False j m ge e by (auto simp: f8_lb_def bit_simps ac_simps)
    then show ?thesis using False n j m bit_word_in[of n "j - 1" m x] by (simp add: bit_byte)
  qed
qed

lemma shift8_bytes:
  assumes "length x = 16"
  shows "wbytes [f8_lb 0 x, f8_lb 1 x, f8_lb 2 x, f8_lb 3 x] = 0 # take 15 x"
proof (rule nth_equalityI)
  fix i assume "i < length (wbytes [f8_lb 0 x, f8_lb 1 x, f8_lb 2 x, f8_lb 3 x])"
  then have i: "i < 16" by simp
  then have id: "i div 4 < 4" "i mod 4 < 4" "4 * (i div 4) + i mod 4 = i" by simp_all
  show "wbytes [f8_lb 0 x, f8_lb 1 x, f8_lb 2 x, f8_lb 3 x] ! i = (0 # take 15 x) ! i"
    unfolding wbytes4_nth[OF i, of "\<lambda>n. f8_lb n x"] byte_f8_lb[OF id(1,2)] id(3) using i by (cases i) simp_all
qed (simp add: assms)

definition tail_val :: "u8 \<Rightarrow> 128 word" where
  "tail_val c = gf_val (wbytes [ucast (gf_tab ! unat c), 0, 0, 0])"

lemma word_in_top: "drop_bit 24 (word_in x 3) = ucast (x ! 15)"
proof (rule bit_word_eqI)
  fix n :: nat assume "n < LENGTH(32)"
  have "bit (word_in x 3) (24 + n) \<longleftrightarrow> bit (x ! 15) n"
    using bit_word_in[of 3 3 n x] bit_imp_le_length[of "word_in x 3" "24 + n"] bit_imp_le_length[of "x ! 15" n]
    by (cases "n < 8") auto
  then show "bit (drop_bit 24 (word_in x 3)) n \<longleftrightarrow> bit (ucast (x ! 15) :: u32) n"
    using \<open>n < LENGTH(32)\<close> by (simp add: bit_simps)
qed

lemma gf_val_mulx8_raw:
  assumes "length x = 16"
  shows "gf_val (gf_mulx8_lb x) = push_bit 8 (gf_val (take 15 x)) XOR tail_val (x ! 15)"
    and "length (gf_mulx8_lb x) = 16"
proof -
  let ?w = "[f8_lb 0 x, f8_lb 1 x, f8_lb 2 x, f8_lb 3 x]"
  let ?t = "ucast (gf_tab ! unat (x ! 15)) :: u32"
  note u = unat_ucast_u8[of "x ! 15"]
  have "gf_mulx8_lb x = wbytes [f8_lb 0 x XOR ?t, f8_lb 1 x, f8_lb 2 x, f8_lb 3 x]"
    by (simp add: gf_mulx8_lb_def Let_def rep2_d4_f8[OF assms] word_out_wbytes word_in_wbytes word_in_top u del: wbytes_simps)
  also have "\<dots> = xor_block_u8 (wbytes ?w) (wbytes [?t, 0, 0, 0])"
    by (simp add: xor_block_u8_def upt_16)
  finally have e: "gf_mulx8_lb x = xor_block_u8 (0 # take 15 x) (wbytes [?t, 0, 0, 0])"
    unfolding shift8_bytes[OF assms] .
  show "length (gf_mulx8_lb x) = 16" by (simp add: e)
  have "gf_val (0 # take 15 x) = push_bit 8 (gf_val (take 15 x))" by (simp add: lb_def byte_dot_def byte_sum_zero)
  then show "gf_val (gf_mulx8_lb x) = push_bit 8 (gf_val (take 15 x)) XOR tail_val (x ! 15)"
    unfolding e tail_val_def using assms by (subst gf_val_xor) (simp_all add: length_wbytes del: wbytes_simps)
qed

lemma mulx_pow_small:
  "(\<And>i. bit v i \<Longrightarrow> i + k < 128) \<Longrightarrow> (mulx ^^ k) v = push_bit k v"
proof (induction k)
  case (Suc k)
  then have "(mulx ^^ k) v = push_bit k v" by (metis Suc_lessD add_Suc_right)
  moreover have "\<not> bit (push_bit k v) 127"
    using Suc.prems[of "127 - k"] by (auto simp: bit_push_bit_iff)
  ultimately have "mulx ((mulx ^^ k) v) = push_bit 1 (push_bit k v)" by (simp add: mulx_def)
  then show ?case by (simp add: push_bit_push_bit)
qed simp

lemma gf_val_append: "gf_val (xs @ ys) = gf_val xs XOR push_bit (8 * length xs) (gf_val ys)"
  by (induction xs) (simp_all add: push_bit_xor push_bit_push_bit xor.assoc)

lemma nat_and_exp: "(n :: nat) AND 2 ^ k \<noteq> 0 \<longleftrightarrow> bit n k"
  by (simp add: and_exp_eq_0_iff_not_bit)

lemma gf_tab_bits:
  "gf_tab ! unat (c :: u8) =
     (if bit c 7 then 0x00e1 else 0) XOR (if bit c 6 then 0x8070 else 0) XOR
     (if bit c 5 then 0x4038 else 0) XOR (if bit c 4 then 0x201c else 0) XOR
     (if bit c 3 then 0x100e else 0) XOR (if bit c 2 then 0x0807 else 0) XOR
     (if bit c 1 then 0x8403 else 0) XOR (if bit c 0 then 0xc201 else 0)"
proof -
  have "unat c < 2 ^ LENGTH(8)" by (rule unsigned_less)
  then have "unat c < 256" by simp
  then have t: "gf_tab ! unat c = gf_uint16_xor (unat c)" by (simp add: gf_tab_def)
  have a: "unat c AND 2 ^ k \<noteq> 0 \<longleftrightarrow> bit c k" if "k < 8" for k
    unfolding nat_and_exp using that by (simp add: bit_unsigned_iff)
  show ?thesis
    unfolding t gf_uint16_xor_def
    using a[of 0] a[of 1] a[of 2] a[of 3] a[of 4] a[of 5] a[of 6] a[of 7] by simp
qed

lemma xor_linear_bit: "xor_linear (\<lambda>c. if bit c k then w else 0)"
  by (rule xor_linearI) (simp add: bit_xor_iff)

lemma xor_linear_gf_tab: "xor_linear (\<lambda>c :: u8. gf_tab ! unat c)"
  unfolding gf_tab_bits by (intro xor_linear_xor xor_linear_bit)

lemma xor_linear_gf_word: "xor_linear (\<lambda>w. gf_val (wbytes [w, 0, 0, 0]))"
proof (rule xor_linearI)
  fix a b :: u32
  have "wbytes [a XOR b, 0, 0, 0] = xor_block_u8 (wbytes [a, 0, 0, 0]) (wbytes [b, 0, 0, 0])"
    by (simp add: xor_block_u8_def upt_16)
  then show "gf_val (wbytes [a XOR b, 0, 0, 0]) = gf_val (wbytes [a, 0, 0, 0]) XOR gf_val (wbytes [b, 0, 0, 0])"
    by (simp only: gf_val_xor length_wbytes) (simp add: gf_val_xor length_wbytes del: gf_val.simps wbytes_simps)
qed

lemma xor_linear_tail_val: "xor_linear tail_val"
  unfolding tail_val_def
  by (rule xor_linear_comp[OF xor_linear_gf_word xor_linear_comp[OF xor_linear_ucast xor_linear_gf_tab]])

lemma tail_val_exp: "i < 8 \<Longrightarrow> tail_val (2 ^ i) = push_bit (7 - i) 0x87"
proof -
  assume "i < 8"
  then have "i = 0 \<or> i = 1 \<or> i = 2 \<or> i = 3 \<or> i = 4 \<or> i = 5 \<or> i = 6 \<or> i = 7" by auto
  moreover have
    "gf_val (wbytes [0xe1, 0, 0, 0]) = 0x87" "gf_val (wbytes [0x8070, 0, 0, 0]) = 0x10e"
    "gf_val (wbytes [0x4038, 0, 0, 0]) = 0x21c" "gf_val (wbytes [0x201c, 0, 0, 0]) = 0x438"
    "gf_val (wbytes [0x100e, 0, 0, 0]) = 0x870" "gf_val (wbytes [0x0807, 0, 0, 0]) = 0x10e0"
    "gf_val (wbytes [0x8403, 0, 0, 0]) = 0x21c0" "gf_val (wbytes [0xc201, 0, 0, 0]) = 0x4380"
    by code_simp+
  ultimately show ?thesis
    unfolding tail_val_def gf_tab_bits by (elim disjE) (simp_all del: wbytes_simps gf_val.simps)
qed

lemma mulx8_top_exp: "i < 8 \<Longrightarrow> (mulx ^^ 8) (2 ^ (127 - i)) = push_bit (7 - i) 0x87"
proof -
  assume i: "i < 8"
  have top: "mulx (2 ^ 127) = 0x87" by (simp add: mulx_def)
  have small: "j + (7 - i) < 128" if "bit (0x87 :: 128 word) j" for j
  proof -
    have "take_bit 8 (0x87 :: 128 word) = 0x87" by simp
    with that have "j < 8" by (metis bit_take_bit_iff)
    then show ?thesis by simp
  qed
  have "(mulx ^^ 8) (2 ^ (127 - i)) = (mulx ^^ 8) ((mulx ^^ (127 - i)) 1)" by (simp add: mulx_pow_1)
  also have "\<dots> = (mulx ^^ (8 + (127 - i))) 1" by (simp only: funpow_add o_apply)
  also have "8 + (127 - i) = (7 - i) + Suc 127" using i by simp
  also have "(mulx ^^ \<dots>) 1 = (mulx ^^ (7 - i)) (mulx ((mulx ^^ 127) 1))"
    by (simp only: funpow_add o_apply funpow.simps)
  also have "\<dots> = (mulx ^^ (7 - i)) 0x87" by (simp only: mulx_pow_1 top)
  also have "\<dots> = push_bit (7 - i) 0x87" using small by (rule mulx_pow_small)
  finally show ?thesis .
qed

lemma lb_exp: "i < 8 \<Longrightarrow> lb (2 ^ i) = 2 ^ (7 - i)"
  by (rule bit_word_eqI) (auto simp: bit_lb bit_exp_iff)

lemma mulx8_top: "(mulx ^^ 8) (push_bit 120 (lb c)) = tail_val c"
proof (rule xor_linear_eqI[OF _ xor_linear_tail_val])
  show "xor_linear (\<lambda>c. (mulx ^^ 8) (push_bit 120 (lb c)))"
    by (rule xor_linear_comp[OF xor_linear_funpow[OF xor_linear_mulx]
          xor_linear_comp[OF xor_linear_push_bit xor_linear_lb]])
  fix i :: nat assume "i < LENGTH(8)"
  then have i: "i < 8" by simp
  have "push_bit 120 (lb (2 ^ i)) = 2 ^ (127 - i)"
    unfolding lb_exp[OF i] push_bit_eq_mult power_add[symmetric] using i by simp
  then show "(mulx ^^ 8) (push_bit 120 (lb (2 ^ i))) = tail_val (2 ^ i)"
    by (simp only: mulx8_top_exp[OF i] tail_val_exp[OF i])
qed

lemma gf_val_mulx8:
  assumes "length x = 16"
  shows "gf_val (gf_mulx8_lb x) = (mulx ^^ 8) (gf_val x)"
proof -
  have "x = take 15 x @ [x ! 15]" using assms take_Suc_conv_app_nth[of 15 x] by simp
  then have "gf_val x = gf_val (take 15 x @ [x ! 15])" by simp
  also have "\<dots> = gf_val (take 15 x) XOR push_bit 120 (lb (x ! 15))"
    unfolding gf_val_append using assms by simp
  finally have v: "gf_val x = gf_val (take 15 x) XOR push_bit 120 (lb (x ! 15))" .
  have "i + 8 < 128" if "bit (gf_val (take 15 x)) i" for i
    using that assms by (simp add: bit_gf_val)
  then have "(mulx ^^ 8) (gf_val (take 15 x)) = push_bit 8 (gf_val (take 15 x))" by (rule mulx_pow_small)
  then show ?thesis
    unfolding v gf_val_mulx8_raw(1)[OF assms] xor_linearD[OF xor_linear_funpow[OF xor_linear_mulx]] mulx8_top by simp
qed

section \<open>The multipliers are the field product\<close>

lemma byte_sum_dot: "n \<le> 8 \<Longrightarrow> gf_dot a (byte_sum 1 c n) = byte_sum a c n"
  by (induction n) (auto simp: xor_linearD[OF xor_linear_gf_dot(2)] mulx_pow_1 gf_dot_exp)

lemma gf_dot_lb: "gf_dot a (lb c) = byte_dot a c"
  by (simp add: lb_def byte_dot_def byte_sum_dot)

text \<open>Horner's rule over the bytes, from the last to the first.\<close>

primrec bytes_dot :: "128 word \<Rightarrow> bytes \<Rightarrow> 128 word" where
  "bytes_dot a [] = 0"
| "bytes_dot a (c # cs) = byte_dot a c XOR (mulx ^^ 8) (bytes_dot a cs)"

lemma gf_dot_bytes: "length q \<le> 16 \<Longrightarrow> gf_dot a (gf_val q) = bytes_dot a q"
proof (induction q)
  case (Cons c q)
  have "i + 8 < 128" if "bit (gf_val q) i" for i using that Cons.prems by (simp add: bit_gf_val)
  then have "push_bit 8 (gf_val q) = (mulx ^^ 8) (gf_val q)" by (rule mulx_pow_small[symmetric])
  then have "gf_dot a (push_bit 8 (gf_val q)) = (mulx ^^ 8) (gf_dot a (gf_val q))"
    by (metis gf_dot_comm gf_dot_mulx_pow)
  then show ?case using Cons by (simp add: xor_linearD[OF xor_linear_gf_dot(2)] gf_dot_lb)
qed simp

lemma upt_8: "[0..<8] = [0, 1, 2, 3, 4, 5, 6, 7 :: nat]"
  by (simp add: upt_rec)

lemma bytes_dot_append: "bytes_dot a (xs @ ys) = bytes_dot a xs XOR (mulx ^^ (8 * length xs)) (bytes_dot a ys)"
proof (induction xs)
  case (Cons c xs)
  have "(mulx ^^ (8 + 8 * length xs)) (bytes_dot a ys) = (mulx ^^ 8) ((mulx ^^ (8 * length xs)) (bytes_dot a ys))"
    by (simp only: funpow_add o_apply)
  then show ?case
    using Cons by (simp add: xor_linearD[OF xor_linear_funpow[OF xor_linear_mulx]] ac_simps del: funpow.simps)
qed simp

lemma bytes_dot_snoc:
  "n < length q \<Longrightarrow> bytes_dot a (take (Suc n) q) = bytes_dot a (take n q) XOR (mulx ^^ (8 * n)) (byte_dot a (q ! n))"
  by (simp add: take_Suc_conv_app_nth bytes_dot_append xor_linear_0[OF xor_linear_funpow[OF xor_linear_mulx]])

lemma mulx_step: "(mulx ^^ (8 * n)) ((mulx ^^ 8) v) = (mulx ^^ (8 * Suc n)) v"
  using funpow_add[of "8 * n" 8 mulx] by (simp add: fun_eq_iff add.commute)

lemma less_8_cases: "(i :: nat) < 8 \<Longrightarrow> i = 0 \<or> i = 1 \<or> i = 2 \<or> i = 3 \<or> i = 4 \<or> i = 5 \<or> i = 6 \<or> i = 7"
  by auto

lemma x_bit_iff: "k < 8 \<Longrightarrow> ch AND x_bit k \<noteq> 0 \<longleftrightarrow> bit ch (7 - k)"
proof -
  assume "k < 8"
  then have "k = 0 \<or> k = 1 \<or> k = 2 \<or> k = 3 \<or> k = 4 \<or> k = 5 \<or> k = 6 \<or> k = 7" by auto
  then have "x_bit k = 2 ^ (7 - k)" by (elim disjE) (simp_all add: x_bit_def)
  then show ?thesis by (simp add: and_exp_eq_0_iff_not_bit)
qed

definition is_powers :: "bytes list \<Rightarrow> 128 word \<Rightarrow> bool" where
  "is_powers p A \<longleftrightarrow> (\<forall>k<8. length (p ! k) = 16 \<and> gf_val (p ! k) = (mulx ^^ k) A)"

lemma tmd_xor_val:
  assumes "is_powers p A" "length a = 16"
  shows "length (tmd_xor p c a) = 16 \<and> gf_val (tmd_xor p c a) = gf_val a XOR byte_dot A c"
proof -
  let ?f = "\<lambda>k a. if c AND x_bit k \<noteq> 0 then xor_block_aligned a (p ! k) else a"
  have "length (fold ?f [0..<n] a) = 16 \<and> gf_val (fold ?f [0..<n] a) = gf_val a XOR byte_sum A c n" if "n \<le> 8" for n
    using that
  proof (induction n)
    case (Suc n)
    then show ?case
      using assms x_bit_iff[of n c] by (auto simp: is_powers_def xor_block_u8_aligned gf_val_xor ac_simps)
  qed (simp add: assms)
  from this[of 8] show ?thesis unfolding tmd_xor_def byte_dot_def upt_8[symmetric] by blast
qed

lemma tmd_loop_val:
  assumes "is_powers p A" "length a = 16" "i < length q"
  shows "length (tmd_loop p q i a) = 16 \<and>
    gf_val (tmd_loop p q i a) = bytes_dot A (take (Suc i) q) XOR (mulx ^^ (8 * i)) (gf_val a)"
  using assms(2,3)
proof (induction i arbitrary: a)
  case 0
  then show ?case using tmd_xor_val[OF assms(1), of a "q ! 0"] bytes_dot_snoc[of 0 q A] by (simp add: ac_simps)
next
  case (Suc i)
  let ?b = "tmd_xor p (q ! Suc i) a"
  have b: "length ?b = 16" "gf_val ?b = gf_val a XOR byte_dot A (q ! Suc i)"
    using tmd_xor_val[OF assms(1) Suc.prems(1)] by auto
  have "(mulx ^^ (8 * i)) (gf_val (gf_mulx8_lb ?b)) =
      (mulx ^^ (8 * Suc i)) (gf_val a) XOR (mulx ^^ (8 * Suc i)) (byte_dot A (q ! Suc i))"
    unfolding gf_val_mulx8[OF b(1)] mulx_step b(2) by (rule xor_linearD[OF xor_linear_funpow[OF xor_linear_mulx]])
  then show ?case
    using Suc.IH[of "gf_mulx8_lb ?b"] gf_val_mulx8_raw(2)[OF b(1)] Suc.prems(2)
    by (simp add: bytes_dot_snoc[of "Suc i"] ac_simps del: funpow.simps take_Suc)
qed

lemma tmd_powers_val:
  assumes "length a = 16"
  shows "length (tmd_powers n a) = Suc n \<and>
    (\<forall>k\<le>n. length (tmd_powers n a ! k) = 16 \<and> gf_val (tmd_powers n a ! k) = (mulx ^^ k) (gf_val a))"
  by (induction n) (auto simp: assms Let_def nth_append le_Suc_eq gf_val_mulx1)

lemma gf_mulTMD_val:
  assumes "length a = 16" "length b = 16"
  shows "length (gf_mulTMD a b) = 16" "gf_val (gf_mulTMD a b) = gf_dot (gf_val a) (gf_val b)"
proof -
  have p: "is_powers (tmd_powers 7 a) (gf_val a)"
    using tmd_powers_val[OF assms(1), of 7] by (auto simp: is_powers_def)
  have z: "gf_val (replicate n 0) = 0" for n by (induction n) (simp_all add: lb_def byte_dot_def)
  show "length (gf_mulTMD a b) = 16" "gf_val (gf_mulTMD a b) = gf_dot (gf_val a) (gf_val b)"
    using tmd_loop_val[OF p, of "replicate 16 0" 15 b] assms
    by (simp_all add: gf_mulTMD_def z gf_dot_bytes xor_linear_0[OF xor_linear_funpow[OF xor_linear_mulx]])
qed

subsection \<open>The table\<close>

lemma xor_linear_byte_dot: "xor_linear (byte_dot a)"
  unfolding gf_dot_lb[symmetric] by (rule xor_linear_comp[OF xor_linear_gf_dot(2) xor_linear_lb])

lemma byte_dot_exp: "e < 8 \<Longrightarrow> byte_dot a (2 ^ e) = (mulx ^^ (7 - e)) a"
  by (simp add: gf_dot_lb[symmetric] lb_exp gf_dot_exp)

definition entry_ok :: "128 word \<Rightarrow> bytes list \<Rightarrow> nat \<Rightarrow> bool" where
  "entry_ok g t c \<longleftrightarrow> length (t ! c) = 16 \<and> gf_val (t ! c) = byte_dot g (word_of_nat c)"

definition table_upto :: "128 word \<Rightarrow> nat \<Rightarrow> bytes list \<Rightarrow> bool" where
  "table_upto g n t \<longleftrightarrow> length t = 256 \<and> (\<forall>c<n. entry_ok g t c) \<and> (\<forall>e<8. entry_ok g t (2 ^ e))"

lemma word_add_disjoint:
  assumes "k < 2 ^ e" "e < 8"
  shows "(word_of_nat (2 ^ e + k) :: u8) = 2 ^ e XOR word_of_nat k"
proof -
  have "bit k n \<Longrightarrow> n < e" for n
    using assms(1) by (metis bit_take_bit_iff take_bit_nat_eq_self)
  then have d: "(2 ^ e :: nat) AND k = 0"
    by (intro bit_eqI) (auto simp: bit_and_iff bit_exp_iff)
  have "2 ^ e + k = 2 ^ e XOR k" using disjunctive_add_eq_xor[OF d] .
  then have "(word_of_nat (2 ^ e + k) :: u8) = word_of_nat (2 ^ e XOR k)" by simp
  also have "\<dots> = 2 ^ e XOR word_of_nat k"
    by (rule bit_word_eqI) (auto simp: bit_simps possible_bit_def)
  finally show ?thesis .
qed

lemma table_inner:
  assumes "table_upto g (2 ^ e) t" "e < 8" "m \<le> 2 ^ e" "0 < m"
  shows "table_upto g (2 ^ e + m) (fold (\<lambda>k t. t[2 ^ e + k := xor_block_aligned (t ! (2 ^ e)) (t ! k)]) [1..<m] t)"
  using assms(3,4)
proof (induction m)
  case (Suc m)
  let ?f = "\<lambda>k t. t[2 ^ e + k := xor_block_aligned (t ! (2 ^ e)) (t ! k)]"
  have l: "(2 :: nat) ^ e \<le> 128" using power_increasing[of e 7 "2 :: nat"] assms(2) by simp
  show ?case
  proof (cases "m = 0")
    case True
    then show ?thesis using assms(1,2) by (auto simp: table_upto_def less_Suc_eq)
  next
    case False
    define u where "u = fold ?f [1..<m] t"
    have u: "table_upto g (2 ^ e + m) u" using Suc False by (simp add: u_def)
    have m: "m < 2 ^ e" using Suc.prems by simp
    have fin: "fold ?f [1..<Suc m] t = u[2 ^ e + m := xor_block_aligned (u ! (2 ^ e)) (u ! m)]"
      using False by (simp add: u_def)
    have lu: "2 ^ e + m < length u" using u m l by (simp add: table_upto_def)
    have ok: "entry_ok g u (2 ^ e)" "entry_ok g u m" using u assms(2) by (auto simp: table_upto_def)
    have "entry_ok g (u[2 ^ e + m := xor_block_aligned (u ! (2 ^ e)) (u ! m)]) (2 ^ e + m)"
      using ok lu word_add_disjoint[OF m assms(2)]
      by (simp add: entry_ok_def xor_block_u8_aligned gf_val_xor xor_linearD[OF xor_linear_byte_dot])
    moreover have "entry_ok g (u[2 ^ e + m := v]) c" if "entry_ok g u c" "c \<noteq> 2 ^ e + m" for c v
      using that by (simp add: entry_ok_def)
    moreover have "2 ^ e' \<noteq> 2 ^ e + m" for e' :: nat
    proof
      assume a: "2 ^ e' = 2 ^ e + m"
      then have "2 ^ e < (2 :: nat) ^ e'" "(2 :: nat) ^ e' < 2 ^ Suc e" using m False by simp_all
      then have "e < e'" "e' < Suc e" by (simp_all only: power_strict_increasing_iff[of "2 :: nat"] one_less_numeral_iff semiring_norm)
      then show False by simp
    qed
    ultimately show ?thesis unfolding fin using u by (auto simp: table_upto_def less_Suc_eq)
  qed
qed simp

lemma table_step:
  assumes "table_upto g (2 ^ e) t" "e < 8"
  shows "table_upto g (2 ^ Suc e) (fold (\<lambda>k t. t[2 ^ e + k := xor_block_aligned (t ! (2 ^ e)) (t ! k)]) [1..<2 ^ e] t)"
  using table_inner[OF assms, of "2 ^ e"] by (simp add: mult_2)

lemma init_4k_table_val:
  assumes "length g = 16" "length t = 256"
  shows "table_upto (gf_val g) 256 (init_4k_table g t)"
proof -
  let ?g = "gf_val g"
  let ?in = "\<lambda>j t. fold (\<lambda>k t. t[j + k := xor_block_aligned (t ! j) (t ! k)]) [1..<j] t"
  define u where "u = fold (\<lambda>j t. t[j := gf_mulx1_lb (t ! (j + j))]) [64, 32, 16, 8, 4, 2, 1]
    (t[0 := replicate 16 0, 128 := g])"
  have z: "gf_val (replicate 16 0) = byte_dot ?g 0"
    using xor_linear_0[OF xor_linear_byte_dot] by (simp add: numeral_eq_Suc lb_def byte_dot_def)
  have pow: "byte_dot ?g 128 = ?g" "byte_dot ?g 64 = mulx ?g" "byte_dot ?g 32 = (mulx ^^ 2) ?g"
    "byte_dot ?g 16 = (mulx ^^ 3) ?g" "byte_dot ?g 8 = (mulx ^^ 4) ?g" "byte_dot ?g 4 = (mulx ^^ 5) ?g"
    "byte_dot ?g 2 = (mulx ^^ 6) ?g" "byte_dot ?g 1 = (mulx ^^ 7) ?g"
    using byte_dot_exp[of 7 ?g] byte_dot_exp[of 6 ?g] byte_dot_exp[of 5 ?g] byte_dot_exp[of 4 ?g]
      byte_dot_exp[of 3 ?g] byte_dot_exp[of 2 ?g] byte_dot_exp[of 1 ?g] byte_dot_exp[of 0 ?g] by simp_all
  have e: "entry_ok ?g u 0" "entry_ok ?g u 128" "entry_ok ?g u 64" "entry_ok ?g u 32" "entry_ok ?g u 16"
    "entry_ok ?g u 8" "entry_ok ?g u 4" "entry_ok ?g u 2" "entry_ok ?g u 1"
    using assms z pow by (simp_all add: u_def entry_ok_def gf_val_mulx1 eval_nat_numeral)
  have "table_upto ?g (2 ^ 1) u"
    unfolding table_upto_def
  proof (intro conjI allI impI)
    show "length u = 256" using assms by (simp add: u_def)
    fix c :: nat assume "c < 2 ^ 1"
    then have "c = 0 \<or> c = 1" by auto
    then show "entry_ok ?g u c" using e by auto
  next
    fix k :: nat assume "k < 8"
    from less_8_cases[OF this] show "entry_ok ?g u (2 ^ k)" using e by (elim disjE) simp_all
  qed
  from this table_step[OF this] have "table_upto ?g (2 ^ 2) (?in 2 u)" by simp
  then have "table_upto ?g (2 ^ 3) (?in 4 (?in 2 u))" using table_step[of ?g 2 "?in 2 u"] by simp
  then have "table_upto ?g (2 ^ 4) (?in 8 (?in 4 (?in 2 u)))" using table_step[of ?g 3] by simp
  then have "table_upto ?g (2 ^ 5) (?in 16 (?in 8 (?in 4 (?in 2 u))))" using table_step[of ?g 4] by simp
  then have "table_upto ?g (2 ^ 6) (?in 32 (?in 16 (?in 8 (?in 4 (?in 2 u)))))" using table_step[of ?g 5] by simp
  then have "table_upto ?g (2 ^ 7) (?in 64 (?in 32 (?in 16 (?in 8 (?in 4 (?in 2 u))))))" using table_step[of ?g 6] by simp
  then have "table_upto ?g (2 ^ 8) (?in 128 (?in 64 (?in 32 (?in 16 (?in 8 (?in 4 (?in 2 u)))))))" using table_step[of ?g 7] by simp
  moreover have "init_4k_table g t = ?in 128 (?in 64 (?in 32 (?in 16 (?in 8 (?in 4 (?in 2 u))))))"
    unfolding init_4k_table_def Let_def u_def[symmetric] by (simp only: fold.simps o_apply id_apply)
  ultimately show ?thesis by simp
qed

lemma gf_mul_4k_val:
  assumes "table_upto g 256 t" "length a = 16"
  shows "length (gf_mul_4k a t) = 16" "gf_val (gf_mul_4k a t) = gf_dot (gf_val a) g"
proof -
  have t: "length (t ! unat (c :: u8)) = 16" "gf_val (t ! unat c) = byte_dot g c" for c :: u8
  proof -
    have "unat c < 2 ^ LENGTH(8)" by (rule unsigned_less)
    then have "entry_ok g t (unat c)" using assms(1) by (simp add: table_upto_def)
    then show "length (t ! unat c) = 16" "gf_val (t ! unat c) = byte_dot g c" by (simp_all add: entry_ok_def)
  qed
  have loop: "length (fold (\<lambda>i r. xor_4k i a t r) (rev [0..<n]) r) = 16 \<and>
      gf_val (fold (\<lambda>i r. xor_4k i a t r) (rev [0..<n]) r) = bytes_dot g (take n a) XOR (mulx ^^ (8 * n)) (gf_val r)"
    if "n \<le> 16" "length r = 16" for n r
    using that
  proof (induction n arbitrary: r)
    case (Suc n)
    let ?r = "xor_4k n a t r"
    have r: "length ?r = 16" "gf_val ?r = (mulx ^^ 8) (gf_val r) XOR byte_dot g (a ! n)"
      using Suc.prems t[of "a ! n"] gf_val_mulx8_raw(2)
      by (simp_all add: xor_4k_def xor_block_u8_aligned gf_val_xor gf_val_mulx8)
    have "(mulx ^^ (8 * n)) (gf_val ?r) = (mulx ^^ (8 * Suc n)) (gf_val r) XOR (mulx ^^ (8 * n)) (byte_dot g (a ! n))"
      unfolding r(2) xor_linearD[OF xor_linear_funpow[OF xor_linear_mulx]] mulx_step ..
    then show ?case
      using Suc.IH[of ?r] r(1) Suc.prems assms(2)
      by (simp add: bytes_dot_snoc ac_simps del: funpow.simps take_Suc)
  qed simp
  have z: "gf_val (replicate n 0) = 0" for n by (induction n) (simp_all add: lb_def byte_dot_def)
  have "bytes_dot g a = gf_dot g (gf_val a)" using gf_dot_bytes[of a g] assms(2) by simp
  then show "length (gf_mul_4k a t) = 16" "gf_val (gf_mul_4k a t) = gf_dot (gf_val a) g"
    using loop[of 16 "replicate 16 0"] assms(2) gf_dot_comm[of "gf_val a" g]
    by (simp_all add: gf_mul_4k_def z xor_linear_0[OF xor_linear_funpow[OF xor_linear_mulx]])
qed

text \<open>
  Property C17 (equivalence): the table-driven multiplier \<^verbatim>\<open>gf_mul_4k\<close> with the table \<^verbatim>\<open>init_4k_table\<close> builds for a block
  \<open>g\<close> (over any previous contents of the table) gives, bit for bit, what the bitwise multiplier \<^verbatim>\<open>gf_mulTMD\<close> gives, and
  both are the product of the two blocks as polynomials over GF(2) modulo \<open>x^128 + x^7 + x^2 + x + 1\<close>, with bit \<open>7 - i\<close> of byte
  \<open>k\<close> the coefficient of \<open>x^(8k + i)\<close>.
\<close>

theorem gf_mul_4k_is_field_product:
  assumes "length a = 16" "length g = 16" "length t = 256"
  shows "gf_mul_4k a (init_4k_table g t) = gf_mulTMD a g \<and>
    gf_val (gf_mul_4k a (init_4k_table g t)) = gf_dot (gf_val a) (gf_val g)"
  using gf_mul_4k_val[OF init_4k_table_val[OF assms(2,3)] assms(1)] gf_mulTMD_val[OF assms(1,2)]
  by (simp add: gf_val_eqI)

theorem gf_mul_4k_is_field_product_witness:
  "gf_mul_4k (replicate 16 0x5a) (init_4k_table (replicate 16 0x80) (replicate 256 [])) =
     gf_mulTMD (replicate 16 0x5a) (replicate 16 0x80) \<and>
   gf_val (gf_mul_4k (replicate 16 0x5a) (init_4k_table (replicate 16 0x80) (replicate 256 []))) =
     gf_dot (gf_val (replicate 16 0x5a)) (gf_val (replicate 16 0x80))"
  by (rule gf_mul_4k_is_field_product) simp_all

end
