(* ===== verification/Gcm.thy ===== *)
theory Gcm
  imports Gf128_Correct
begin

text \<open>
  Galois/counter mode, \<^verbatim>\<open>GEC-block/src/gcm.c\<close> and \<^verbatim>\<open>gcm.h\<close>, in the configuration of the library (\<^verbatim>\<open>TABLES_4K\<close>, no
  \<^verbatim>\<open>GF_REPRESENTATION\<close>, 64-bit integers available).  A buffer and its length are one list; lists are assumed
  shorter than 2^32 - 16 bytes, where the 32-bit loop counters of the code do not wrap.  The counts kept in the
  context are 32-bit words.  Where the code tests the alignment of two pointers the model has a boolean parameter.
\<close>

abbreviation RETURN_GOOD :: int where "RETURN_GOOD \<equiv> 0"
abbreviation RETURN_WARN :: int where "RETURN_WARN \<equiv> 1"
abbreviation RETURN_ERROR :: int where "RETURN_ERROR \<equiv> -1"
abbreviation CTR_POS :: nat where "CTR_POS \<equiv> 12"

record gcm_ctx =
  gf_t4k :: "bytes list"
  ctr_val :: bytes
  enc_ctr :: bytes
  hdr_ghv :: bytes
  txt_ghv :: bytes
  ghash_h :: bytes
  aes :: aes_ctx
  y0_val :: u32
  hdr_cnt :: u32
  txt_ccnt :: u32
  txt_acnt :: u32

section \<open>Initialisation\<close>

text \<open>\<^verbatim>\<open>int i = BLOCK_SIZE; while(i-- > CTR_POS && !++(UI8_PTR(x)[i]));\<close>\<close>

fun inc_from :: "nat \<Rightarrow> bytes \<Rightarrow> bytes" where
  "inc_from i x =
     (if CTR_POS < i
      then let x' = x[i - 1 := x ! (i - 1) + 1] in if x' ! (i - 1) = 0 then inc_from (i - 1) x' else x'
      else x)"

declare inc_from.simps [simp del]

definition inc_ctr :: "bytes \<Rightarrow> bytes" where
  "inc_ctr x = inc_from AES_BLOCK_SIZE x"

definition gcm_init_and_key :: "bytes \<Rightarrow> gcm_ctx \<Rightarrow> int \<times> gcm_ctx" where
  "gcm_init_and_key key ctx =
     (let h0 = replicate 16 0;
          a = snd (aes_encrypt_key128 key (aes ctx));
          h = snd (aes_encrypt h0 h0 a)
      in (RETURN_GOOD, ctx\<lparr>aes := a, ghash_h := h, gf_t4k := init_4k_table h (gf_t4k ctx)\<rparr>))"

definition gf_mul_hh :: "bytes \<Rightarrow> gcm_ctx \<Rightarrow> bytes" where
  "gf_mul_hh a ctx = gf_mul_4k a (gf_t4k ctx)"

text \<open>\<^verbatim>\<open>while(n_pos >= BLOCK_SIZE)\<close> of \<^verbatim>\<open>gcm_init_message\<close>, and the loop that adds the bit length.\<close>

fun iv_blocks :: "nat \<Rightarrow> bytes \<Rightarrow> bytes \<Rightarrow> gcm_ctx \<Rightarrow> nat \<times> bytes \<times> bytes" where
  "iv_blocks n iv c ctx =
     (if AES_BLOCK_SIZE \<le> n
      then iv_blocks (n - AES_BLOCK_SIZE) (drop AES_BLOCK_SIZE iv) (gf_mul_hh (xor_block_aligned c iv) ctx) ctx
      else (n, iv, c))"

declare iv_blocks.simps [simp del]

fun len_xor :: "nat \<Rightarrow> nat \<Rightarrow> bytes \<Rightarrow> bytes" where
  "len_xor i n c = (if n = 0 then c else len_xor (i - 1) (n div 256) (c[i := c ! i XOR word_of_nat n]))"

declare len_xor.simps [simp del]

definition gcm_init_message :: "bytes \<Rightarrow> gcm_ctx \<Rightarrow> int \<times> gcm_ctx" where
  "gcm_init_message iv ctx =
     (let c0 = replicate 16 0;
          c = (if length iv = CTR_POS then (memcpy c0 0 iv)[15 := 1]
               else
                 let (n, iv1, c1) = iv_blocks (unat (word_of_nat (length iv) :: u32)) iv c0 ctx;
                     c2 = (if n \<noteq> 0
                           then gf_mul_hh (map (\<lambda>i. if i < n then c1 ! i XOR iv1 ! i else c1 ! i) [0..<16]) ctx
                           else c1)
                 in gf_mul_hh (len_xor 15 (unat (word_of_nat (8 * length iv) :: u32)) c2) ctx)
      in (RETURN_GOOD, ctx\<lparr>ctr_val := c, y0_val := word_in c 3, hdr_ghv := replicate 16 0,
            txt_ghv := replicate 16 0, hdr_cnt := 0, txt_ccnt := 0, txt_acnt := 0\<rparr>))"

section \<open>Authentication\<close>

text \<open>
  The loops of \<^verbatim>\<open>gcm_auth_header\<close>, repeated in \<^verbatim>\<open>gcm_auth_data\<close> on \<^verbatim>\<open>txt_ghv\<close> and \<^verbatim>\<open>txt_acnt\<close>: bytes while the position
  satisfies a test, 32-bit units up to the end of the block, whole blocks, and the bytes that are left.
\<close>

fun auth_bytes :: "(nat \<Rightarrow> bool) \<Rightarrow> nat \<Rightarrow> bytes \<Rightarrow> bytes \<Rightarrow> nat \<times> bytes \<times> bytes" where
  "auth_bytes P p v [] = (p, v, [])"
| "auth_bytes P p v (c # cs) =
     (if P p then auth_bytes P (p + 1) (v[p := v ! p XOR c]) cs else (p, v, c # cs))"

fun auth_words :: "nat \<Rightarrow> bytes \<Rightarrow> bytes \<Rightarrow> nat \<times> bytes \<times> bytes" where
  "auth_words p v cs =
     (if 4 \<le> length cs \<and> p \<le> AES_BLOCK_SIZE - 4
      then auth_words (p + 4) (memcpy v p (wbytes [word_in (drop p v) 0 XOR word_in cs 0])) (drop 4 cs)
      else (p, v, cs))"

declare auth_words.simps [simp del]

fun auth_blocks :: "(bytes \<Rightarrow> bytes \<Rightarrow> bytes) \<Rightarrow> gcm_ctx \<Rightarrow> bytes \<Rightarrow> bytes \<Rightarrow> bytes \<times> bytes" where
  "auth_blocks xb ctx v cs =
     (if AES_BLOCK_SIZE \<le> length cs
      then auth_blocks xb ctx (xb (gf_mul_hh v ctx) cs) (drop AES_BLOCK_SIZE cs)
      else (v, cs))"

declare auth_blocks.simps [simp del]

fun auth_tail :: "gcm_ctx \<Rightarrow> nat \<Rightarrow> bytes \<Rightarrow> bytes \<Rightarrow> bytes" where
  "auth_tail ctx p v [] = v"
| "auth_tail ctx p v (c # cs) =
     (let (p', v') = (if p = AES_BLOCK_SIZE then (0, gf_mul_hh v ctx) else (p, v))
      in auth_tail ctx (p' + 1) (v'[p' := v' ! p' XOR c]) cs)"

definition auth_loops :: "bool \<Rightarrow> gcm_ctx \<Rightarrow> nat \<Rightarrow> bytes \<Rightarrow> bytes \<Rightarrow> bytes" where
  "auth_loops aligned ctx b_pos ghv hdr =
     (if aligned then
        let (p1, v1, cs1) = auth_bytes (\<lambda>p. p AND 3 \<noteq> 0) b_pos ghv hdr;
            (p2, v2, cs2) = auth_words p1 v1 cs1;
            (v3, cs3) = auth_blocks xor_block_aligned ctx v2 cs2
        in auth_tail ctx p2 v3 cs3
      else
        let (p1, v1, cs1) = auth_bytes (\<lambda>p. p < AES_BLOCK_SIZE) b_pos ghv hdr;
            (v2, cs2) = auth_blocks xor_block_u8 ctx v1 cs1
        in auth_tail ctx p1 v2 cs2)"

definition gcm_auth_header :: "bool \<Rightarrow> bytes \<Rightarrow> gcm_ctx \<Rightarrow> int \<times> gcm_ctx" where
  "gcm_auth_header aligned hdr ctx =
     (let b_pos = unat (hdr_cnt ctx AND 15) in
      if hdr = [] then (RETURN_GOOD, ctx)
      else
        let v = (if hdr_cnt ctx \<noteq> 0 \<and> b_pos = 0 then gf_mul_hh (hdr_ghv ctx) ctx else hdr_ghv ctx)
        in (RETURN_GOOD, ctx\<lparr>hdr_ghv := auth_loops aligned ctx b_pos v hdr,
              hdr_cnt := hdr_cnt ctx + word_of_nat (length hdr)\<rparr>))"

definition gcm_auth_data :: "bool \<Rightarrow> bytes \<Rightarrow> gcm_ctx \<Rightarrow> int \<times> gcm_ctx" where
  "gcm_auth_data aligned data ctx =
     (let b_pos = unat (txt_acnt ctx AND 15) in
      if data = [] then (RETURN_GOOD, ctx)
      else
        let v = (if txt_acnt ctx \<noteq> 0 \<and> b_pos = 0 then gf_mul_hh (txt_ghv ctx) ctx else txt_ghv ctx)
        in (RETURN_GOOD, ctx\<lparr>txt_ghv := auth_loops aligned ctx b_pos v data,
              txt_acnt := txt_acnt ctx + word_of_nat (length data)\<rparr>))"

section \<open>Encryption\<close>

text \<open>The loops of \<^verbatim>\<open>gcm_crypt_data\<close>; the first component is the bytes of \<^verbatim>\<open>data\<close> they wrote.\<close>

fun crypt_bytes :: "(nat \<Rightarrow> bool) \<Rightarrow> nat \<Rightarrow> bytes \<Rightarrow> bytes \<Rightarrow> bytes \<times> nat \<times> bytes" where
  "crypt_bytes P p enc [] = ([], p, [])"
| "crypt_bytes P p enc (c # cs) =
     (if P p then let (os, r) = crypt_bytes P (p + 1) enc cs in ((c XOR enc ! p) # os, r) else ([], p, c # cs))"

fun crypt_words :: "nat \<Rightarrow> bytes \<Rightarrow> bytes \<Rightarrow> bytes \<times> nat \<times> bytes" where
  "crypt_words p enc cs =
     (if 4 \<le> length cs \<and> p \<le> AES_BLOCK_SIZE - 4
      then let (os, r) = crypt_words (p + 4) enc (drop 4 cs)
           in (wbytes [word_in cs 0 XOR word_in (drop p enc) 0] @ os, r)
      else ([], p, cs))"

declare crypt_words.simps [simp del]

fun crypt_blocks :: "(bytes \<Rightarrow> bytes \<Rightarrow> bytes) \<Rightarrow> aes_ctx \<Rightarrow> bytes \<Rightarrow> bytes \<Rightarrow> bytes \<Rightarrow> bytes \<times> bytes \<times> bytes \<times> bytes" where
  "crypt_blocks xb a ctr enc cs =
     (if AES_BLOCK_SIZE \<le> length cs
      then let ctr1 = inc_ctr ctr;
               enc1 = snd (aes_encrypt ctr1 enc a);
               (os, r) = crypt_blocks xb a ctr1 enc1 (drop AES_BLOCK_SIZE cs)
           in (xb cs enc1 @ os, r)
      else ([], ctr, enc, cs))"

declare crypt_blocks.simps [simp del]

fun crypt_tail :: "aes_ctx \<Rightarrow> nat \<Rightarrow> bytes \<Rightarrow> bytes \<Rightarrow> bytes \<Rightarrow> bytes \<times> bytes \<times> bytes" where
  "crypt_tail a p ctr enc [] = ([], ctr, enc)"
| "crypt_tail a p ctr enc (c # cs) =
     (let (p1, ctr1, enc1) = (if p = AES_BLOCK_SIZE \<or> p = 0
            then (0, inc_ctr ctr, snd (aes_encrypt (inc_ctr ctr) enc a)) else (p, ctr, enc));
          (os, r) = crypt_tail a (p1 + 1) ctr1 enc1 cs
      in ((c XOR enc1 ! p1) # os, r))"

text \<open>\<^verbatim>\<open>if(b_pos)\<close>: the key stream left over from the last call.\<close>

definition crypt_first :: "bool \<Rightarrow> nat \<Rightarrow> bytes \<Rightarrow> bytes \<Rightarrow> bytes \<times> nat \<times> bytes" where
  "crypt_first aligned b_pos enc data =
     (if b_pos = 0 then ([], b_pos, data)
      else if aligned then
        let (oa, pa, ca) = crypt_bytes (\<lambda>p. p AND 3 \<noteq> 0) b_pos enc data;
            (ob, pb, cb) = crypt_words pa enc ca
        in (oa @ ob, pb, cb)
      else crypt_bytes (\<lambda>p. p < AES_BLOCK_SIZE) b_pos enc data)"

definition gcm_crypt_data :: "bool \<Rightarrow> bytes \<Rightarrow> gcm_ctx \<Rightarrow> int \<times> bytes \<times> gcm_ctx" where
  "gcm_crypt_data aligned data ctx =
     (let b_pos = unat (txt_ccnt ctx AND 15) in
      if data = [] then (RETURN_GOOD, data, ctx)
      else
        let (o1, p1, cs1) = crypt_first aligned b_pos (enc_ctr ctx) data;
            (o2, ctr2, enc2, cs2) = crypt_blocks (if aligned then xor_block_aligned else xor_block_u8)
              (aes ctx) (ctr_val ctx) (enc_ctr ctx) cs1;
            (o3, ctr3, enc3) = crypt_tail (aes ctx) p1 ctr2 enc2 cs2
        in (RETURN_GOOD, o1 @ o2 @ o3, ctx\<lparr>ctr_val := ctr3, enc_ctr := enc3,
              txt_ccnt := txt_ccnt ctx + word_of_nat (length data)\<rparr>))"

section \<open>The tag\<close>

text \<open>\<^verbatim>\<open>for( ; ; )\<close> of \<^verbatim>\<open>gcm_compute_tag\<close>: multiply by \<^verbatim>\<open>tbuf\<close> to the power \<^verbatim>\<open>ln\<close>.\<close>

fun tag_power :: "nat \<Rightarrow> bytes \<Rightarrow> bytes \<Rightarrow> bytes" where
  "tag_power ln ghv tbuf =
     (let ghv' = (if ln AND 1 \<noteq> 0 then gf_mulTMD ghv tbuf else ghv)
      in if ln div 2 = 0 then ghv' else tag_power (ln div 2) ghv' (gf_mulTMD tbuf tbuf))"

declare tag_power.simps [simp del]

text \<open>\<^verbatim>\<open>while(i-- > 0)\<close>: add \<^verbatim>\<open>txt_ghv\<close> and the bit lengths.\<close>

primrec tag_lengths :: "nat \<Rightarrow> u64 \<Rightarrow> u32 \<Rightarrow> bytes \<Rightarrow> bytes \<Rightarrow> bytes" where
  "tag_lengths 0 tm hc ghv tghv = ghv"
| "tag_lengths (Suc i) tm hc ghv tghv =
     tag_lengths i (if i = 8 then push_bit 3 (ucast hc) else drop_bit 8 tm) hc
       (ghv[i := ghv ! i XOR (tghv ! i XOR ucast tm)]) tghv"

definition gcm_compute_tag :: "nat \<Rightarrow> gcm_ctx \<Rightarrow> int \<times> bytes \<times> gcm_ctx" where
  "gcm_compute_tag tag_len ctx =
     (if txt_acnt ctx \<noteq> txt_ccnt ctx \<and> 0 < txt_ccnt ctx then (RETURN_ERROR, [], ctx)
      else
        let h1 = gf_mul_hh (hdr_ghv ctx) ctx;
            t1 = gf_mul_hh (txt_ghv ctx) ctx;
            ln = unat ((txt_acnt ctx + 15) div 16);
            h2 = (if hdr_cnt ctx \<noteq> 0 \<and> ln \<noteq> 0 then tag_power ln h1 (ghash_h ctx) else h1);
            h3 = tag_lengths 16 (push_bit 3 (ucast (txt_acnt ctx))) (hdr_cnt ctx) h2 t1;
            h4 = gf_mul_hh h3 ctx;
            e1 = word_out (ctr_val ctx) 3 (y0_val ctx);
            e2 = snd (aes_encrypt e1 e1 (aes ctx))
        in (if txt_ccnt ctx = txt_acnt ctx then RETURN_GOOD else RETURN_WARN,
            map (\<lambda>i. h4 ! i XOR e2 ! i) [0..<tag_len],
            ctx\<lparr>hdr_ghv := h4, txt_ghv := t1, enc_ctr := e2\<rparr>))"

definition gcm_end :: "gcm_ctx \<Rightarrow> int \<times> gcm_ctx" where
  "gcm_end ctx = (RETURN_GOOD, \<lparr>gf_t4k = replicate 256 (replicate 16 0), ctr_val = replicate 16 0,
     enc_ctr = replicate 16 0, hdr_ghv = replicate 16 0, txt_ghv = replicate 16 0, ghash_h = replicate 16 0,
     aes = \<lparr>ks = replicate 44 0, inf = replicate 4 0\<rparr>, y0_val = 0, hdr_cnt = 0, txt_ccnt = 0, txt_acnt = 0\<rparr>)"

section \<open>Messages\<close>

definition gcm_encrypt :: "bool \<Rightarrow> bool \<Rightarrow> bytes \<Rightarrow> gcm_ctx \<Rightarrow> int \<times> bytes \<times> gcm_ctx" where
  "gcm_encrypt al_c al_a data ctx =
     (let (_, data1, ctx1) = gcm_crypt_data al_c data ctx;
          (_, ctx2) = gcm_auth_data al_a data1 ctx1
      in (RETURN_GOOD, data1, ctx2))"

definition gcm_decrypt :: "bool \<Rightarrow> bool \<Rightarrow> bytes \<Rightarrow> gcm_ctx \<Rightarrow> int \<times> bytes \<times> gcm_ctx" where
  "gcm_decrypt al_c al_a data ctx =
     (let (_, ctx1) = gcm_auth_data al_a data ctx;
          (_, data1, ctx2) = gcm_crypt_data al_c data ctx1
      in (RETURN_GOOD, data1, ctx2))"

text \<open>\<open>al_h\<close>, \<open>al_c\<close> and \<open>al_a\<close> are the three alignment tests; the result is the code, the message, the tag and the context.\<close>

definition gcm_encrypt_message :: "bool \<Rightarrow> bool \<Rightarrow> bool \<Rightarrow> bytes \<Rightarrow> bytes \<Rightarrow> bytes \<Rightarrow> nat \<Rightarrow> gcm_ctx \<Rightarrow>
    int \<times> bytes \<times> bytes \<times> gcm_ctx" where
  "gcm_encrypt_message al_h al_c al_a iv hdr msg tag_len ctx =
     (let (_, ctx1) = gcm_init_message iv ctx;
          (_, ctx2) = gcm_auth_header al_h hdr ctx1;
          (_, msg1, ctx3) = gcm_encrypt al_c al_a msg ctx2;
          (r, tag, ctx4) = gcm_compute_tag tag_len ctx3
      in (if r \<noteq> 0 then RETURN_ERROR else RETURN_GOOD, msg1, tag, ctx4))"

definition gcm_decrypt_message :: "bool \<Rightarrow> bool \<Rightarrow> bool \<Rightarrow> bytes \<Rightarrow> bytes \<Rightarrow> bytes \<Rightarrow> bytes \<Rightarrow> gcm_ctx \<Rightarrow>
    int \<times> bytes \<times> gcm_ctx" where
  "gcm_decrypt_message al_h al_c al_a iv hdr msg tag ctx =
     (let (_, ctx1) = gcm_init_message iv ctx;
          (_, ctx2) = gcm_auth_header al_h hdr ctx1;
          (_, msg1, ctx3) = gcm_decrypt al_c al_a msg ctx2;
          (rr, local_tag, ctx4) = gcm_compute_tag (length tag) ctx3
      in (if rr \<noteq> RETURN_GOOD \<or> tag \<noteq> local_tag then RETURN_ERROR else RETURN_GOOD, msg1, ctx4))"

end
