(* ===== verification/Gcm_Streams.thy ===== *)
theory Gcm_Streams
  imports Gcm
begin

text \<open>
  The loops of \<^verbatim>\<open>gcm.c\<close> as streams: every path through the byte, word and block loops of \<^verbatim>\<open>gcm_auth_header\<close>,
  \<^verbatim>\<open>gcm_auth_data\<close> and \<^verbatim>\<open>gcm_crypt_data\<close> does what a byte-at-a-time step does, from any position within a block.
\<close>

section \<open>Absorbing bytes into the hash\<close>

text \<open>
  One byte at a time: the block is full at position 16, and the multiplication is made when the next byte arrives.
  All the loops of \<^verbatim>\<open>gcm_auth_header\<close> and \<^verbatim>\<open>gcm_auth_data\<close> are runs of this step.
\<close>

fun gh_step :: "(bytes \<Rightarrow> bytes) \<Rightarrow> nat \<times> bytes \<Rightarrow> u8 \<Rightarrow> nat \<times> bytes" where
  "gh_step mul (p, v) c =
     (let (p1, v1) = (if p = 16 then (0, mul v) else (p, v)) in (p1 + 1, v1[p1 := v1 ! p1 XOR c]))"

abbreviation absorb :: "(bytes \<Rightarrow> bytes) \<Rightarrow> nat \<times> bytes \<Rightarrow> bytes \<Rightarrow> nat \<times> bytes" where
  "absorb mul \<equiv> foldl (gh_step mul)"

lemma absorb_full: "cs \<noteq> [] \<Longrightarrow> absorb mul (16, v) cs = absorb mul (0, mul v) cs"
  by (cases cs) simp_all

lemma auth_bytes_absorb:
  assumes "auth_bytes P p v cs = (p', v', rest)" "p \<le> 16" "\<not> P 16"
  shows "p' \<le> 16 \<and> (rest = [] \<or> \<not> P p') \<and> (\<exists>ds. cs = ds @ rest \<and> absorb mul (p, v) ds = (p', v'))"
  using assms
proof (induction P p v cs rule: auth_bytes.induct)
  case (2 P p v c cs)
  show ?case
  proof (cases "P p")
    case True
    then have p: "p \<noteq> 16" using 2 by auto
    then have "p' \<le> 16 \<and> (rest = [] \<or> \<not> P p') \<and>
        (\<exists>ds. cs = ds @ rest \<and> absorb mul (p + 1, v[p := v ! p XOR c]) ds = (p', v'))"
      using 2 True by simp
    then obtain ds where "p' \<le> 16" "rest = [] \<or> \<not> P p'" "cs = ds @ rest"
      "absorb mul (p, v) (c # ds) = (p', v')" using p by auto
    then show ?thesis by (metis append_Cons)
  qed (use 2 in auto)
qed auto

lemma list_4: "4 \<le> length cs \<Longrightarrow> cs = cs ! 0 # cs ! 1 # cs ! 2 # cs ! 3 # drop 4 cs"
  by (auto simp: numeral_eq_Suc Suc_le_length_iff)

lemma wbytes_word_xor:
  "wbytes [word_in a 0 XOR word_in b 0] = [a ! 0 XOR b ! 0, a ! 1 XOR b ! 1, a ! 2 XOR b ! 2, a ! 3 XOR b ! 3]"
  by (simp add: byte_word_in numeral_2_eq_2)

lemma memcpy_4:
  assumes "p + 4 \<le> length v"
  shows "memcpy v p [a, b, c, d] = v[p := a, p + 1 := b, p + 2 := c, p + 3 := d]"
  using assms by (intro nth_equalityI) (auto simp: memcpy_def nth_append nth_list_update nth_Cons' min_def intro!: arg_cong[where f = "(!) v"])

lemma absorb_word:
  assumes "4 \<le> length cs" "p \<le> 12" "length v = 16"
  shows "absorb mul (p, v) (take 4 cs) = (p + 4, memcpy v p (wbytes [word_in (drop p v) 0 XOR word_in cs 0]))"
proof -
  have "take 4 cs = [cs ! 0, cs ! 1, cs ! 2, cs ! 3]"
    using arg_cong[OF list_4[OF assms(1)], of "take 4"] by simp
  then show ?thesis
    using assms unfolding wbytes_word_xor by (simp add: memcpy_4 Let_def numeral_eq_Suc)
qed

lemma auth_words_absorb:
  assumes "auth_words p v cs = (p', v', rest)" "length v = 16" "p \<le> 16" "p mod 4 = 0 \<or> cs = []"
  shows "p' \<le> 16 \<and> length v' = 16 \<and> (p' = 16 \<or> length rest < 4) \<and> (\<exists>ds. cs = ds @ rest \<and> absorb mul (p, v) ds = (p', v'))"
  using assms
proof (induction p v cs rule: auth_words.induct)
  case (1 p v cs)
  show ?case
  proof (cases "4 \<le> length cs \<and> p \<le> 12")
    case True
    let ?v = "memcpy v p (wbytes [word_in (drop p v) 0 XOR word_in cs 0])"
    have lv: "length ?v = 16" using 1(3) True unfolding wbytes_word_xor by simp
    have "auth_words (p + 4) ?v (drop 4 cs) = (p', v', rest)"
      using 1(2) True by (subst (asm) auth_words.simps) simp
    moreover have "(p + 4) mod 4 = 0 \<or> drop 4 cs = []" using 1(5) True by auto
    ultimately have *: "p' \<le> 16 \<and> length v' = 16 \<and> (p' = 16 \<or> length rest < 4) \<and>
        (\<exists>ds. drop 4 cs = ds @ rest \<and> absorb mul (p + 4, ?v) ds = (p', v'))"
      using 1(1) True lv by simp
    then obtain ds where ds: "drop 4 cs = ds @ rest" "absorb mul (p + 4, ?v) ds = (p', v')" by blast
    have "cs = (take 4 cs @ ds) @ rest" using ds(1) by (metis append.assoc append_take_drop_id)
    moreover have "absorb mul (p, v) (take 4 cs @ ds) = (p', v')"
      using absorb_word[of cs p v mul] True 1(3) ds(2) by simp
    ultimately show ?thesis using * by blast
  next
    case False
    then have "p' = p \<and> v' = v \<and> rest = cs" using 1(2) by (subst (asm) auth_words.simps) auto
    moreover have "p = 16 \<or> length cs < 4" using False 1(4,5) by (cases "cs = []") auto
    ultimately show ?thesis using 1(3,4) by auto
  qed
qed

definition xor_prefix :: "bytes \<Rightarrow> bytes \<Rightarrow> bytes" where
  "xor_prefix v xs = map (\<lambda>i. if i < length xs then v ! i XOR xs ! i else v ! i) [0..<16]"

lemma length_xor_prefix [simp]: "length (xor_prefix v xs) = 16"
  by (simp add: xor_prefix_def)

lemma absorb_prefix:
  "length xs \<le> 16 \<Longrightarrow> length v = 16 \<Longrightarrow> absorb mul (0, v) xs = (length xs, xor_prefix v xs)"
proof (induction xs rule: rev_induct)
  case Nil
  then show ?case using map_nth[of v] by (simp add: xor_prefix_def)
next
  case (snoc c xs)
  then have "(xor_prefix v xs)[length xs := xor_prefix v xs ! length xs XOR c] = xor_prefix v (xs @ [c])"
    by (intro nth_equalityI) (auto simp: xor_prefix_def nth_list_update nth_append)
  then show ?case using snoc by simp
qed

lemma xor_prefix_block: "16 \<le> length xs \<Longrightarrow> xor_prefix v (take 16 xs) = xor_block_u8 v xs"
  by (simp add: xor_prefix_def xor_block_u8_def)

lemma absorb_block:
  assumes "16 \<le> length cs" "length (mul v) = 16"
  shows "absorb mul (16, v) (take 16 cs) = (16, xor_block_u8 (mul v) cs)"
proof -
  have "take 16 cs \<noteq> []" using assms(1) by auto
  then show ?thesis using assms by (simp add: absorb_full absorb_prefix xor_prefix_block)
qed

definition keeps_len :: "(bytes \<Rightarrow> bytes) \<Rightarrow> bool" where
  "keeps_len mul \<longleftrightarrow> (\<forall>v. length v = 16 \<longrightarrow> length (mul v) = 16)"

lemma auth_blocks_absorb:
  assumes "auth_blocks xb ctx v cs = (v', rest)" "xb = xor_block_aligned \<or> xb = xor_block_u8" "length v = 16"
    and k: "keeps_len (\<lambda>a. gf_mul_hh a ctx)"
  shows "length v' = 16 \<and> length rest < 16 \<and> (\<exists>ds. cs = ds @ rest \<and> (length cs < 16 \<longrightarrow> ds = []) \<and>
    absorb (\<lambda>a. gf_mul_hh a ctx) (16, v) ds = (16, v'))"
  using assms(1,3)
proof (induction "length cs" arbitrary: v cs rule: less_induct)
  case less
  let ?m = "\<lambda>a. gf_mul_hh a ctx"
  show ?case
  proof (cases "16 \<le> length cs")
    case True
    have m: "length (?m v) = 16" using k less(3) by (simp add: keeps_len_def)
    have "xb (?m v) cs = xor_block_u8 (?m v) cs" using assms(2) xor_block_u8_aligned by auto
    then have r: "auth_blocks xb ctx (xor_block_u8 (?m v) cs) (drop 16 cs) = (v', rest)"
      using less(2) True by (subst (asm) auth_blocks.simps) simp
    have "length (drop 16 cs) < length cs" using True by (simp add: numeral_eq_Suc)
    from less(1)[OF this r] obtain ds where ds: "length v' = 16" "length rest < 16" "drop 16 cs = ds @ rest"
      "absorb ?m (16, xor_block_u8 (?m v) cs) ds = (16, v')" by auto
    have "cs = (take 16 cs @ ds) @ rest" using ds(3) by (metis append.assoc append_take_drop_id)
    moreover have "absorb ?m (16, v) (take 16 cs @ ds) = (16, v')" using absorb_block[of cs ?m v] True m ds(4) by simp
    ultimately show ?thesis using ds True by fastforce
  next
    case False
    then show ?thesis using less(2,3) by (subst (asm) auth_blocks.simps) auto
  qed
qed

lemma auth_tail_absorb: "auth_tail ctx p v cs = snd (absorb (\<lambda>a. gf_mul_hh a ctx) (p, v) cs)"
  by (induction ctx p v cs rule: auth_tail.induct) (simp_all add: Let_def)

lemma length_absorb:
  "keeps_len mul \<Longrightarrow> length v = 16 \<Longrightarrow> length (snd (absorb mul (p, v) cs)) = 16"
  by (induction cs arbitrary: p v) (auto simp: Let_def keeps_len_def)

lemma auth_loops_absorb:
  assumes k: "keeps_len (\<lambda>a. gf_mul_hh a ctx)" and v: "length v = 16" and p: "p < 16"
  shows "auth_loops al ctx p v cs = snd (absorb (\<lambda>a. gf_mul_hh a ctx) (p, v) cs)"
proof -
  let ?m = "\<lambda>a. gf_mul_hh a ctx"
  have blocks: "auth_tail ctx q w3 r3 = snd (absorb ?m (q, w) r)"
    if b: "auth_blocks xb ctx w r = (w3, r3)" "xb = xor_block_aligned \<or> xb = xor_block_u8" "length w = 16"
      and q: "q = 16 \<or> length r < 16" for xb w r w3 r3 q
  proof -
    obtain ds where ds: "r = ds @ r3" "length r < 16 \<longrightarrow> ds = []" "absorb ?m (16, w) ds = (16, w3)"
      using auth_blocks_absorb[OF b k] by blast
    show ?thesis
    proof (cases "q = 16")
      case True
      then show ?thesis using ds by (simp add: auth_tail_absorb)
    next
      case False
      then show ?thesis using ds q by (simp add: auth_tail_absorb)
    qed
  qed
  have and3: "(n :: nat) AND 3 = n mod 4" for n using take_bit_eq_mask[of 2 n] by (simp add: take_bit_eq_mod mask_eq_exp_minus_1)
  show ?thesis
  proof (cases al)
    case True
    obtain p1 v1 r1 where 1: "auth_bytes (\<lambda>p. p AND 3 \<noteq> 0) p v cs = (p1, v1, r1)" by (metis prod_cases3)
    obtain p2 v2 r2 where 2: "auth_words p1 v1 r1 = (p2, v2, r2)" by (metis prod_cases3)
    obtain v3 r3 where 3: "auth_blocks xor_block_aligned ctx v2 r2 = (v3, r3)" by fastforce
    obtain d1 where d1: "p1 \<le> 16" "r1 = [] \<or> p1 AND 3 = 0" "cs = d1 @ r1" "absorb ?m (p, v) d1 = (p1, v1)"
      using auth_bytes_absorb[OF 1, of ?m] p by (auto simp: and3)
    have v1: "length v1 = 16" using length_absorb[OF k v, of p d1] d1(4) by simp
    obtain d2 where d2: "length v2 = 16" "p2 = 16 \<or> length r2 < 4" "r1 = d2 @ r2" "absorb ?m (p1, v1) d2 = (p2, v2)"
      using auth_words_absorb[OF 2 v1 d1(1), of ?m] d1(2) by (auto simp: and3)
    have "auth_loops al ctx p v cs = auth_tail ctx p2 v3 r3"
      using True by (simp only: auth_loops_def 1 2 3 Let_def prod.case if_True)
    then show ?thesis using blocks[OF 3 _ d2(1), of p2] d1 d2 by auto
  next
    case False
    obtain p1 v1 r1 where 1: "auth_bytes (\<lambda>p. p < 16) p v cs = (p1, v1, r1)" by (metis prod_cases3)
    obtain v3 r3 where 3: "auth_blocks xor_block_u8 ctx v1 r1 = (v3, r3)" by fastforce
    obtain d1 where d1: "p1 \<le> 16" "r1 = [] \<or> \<not> p1 < 16" "cs = d1 @ r1" "absorb ?m (p, v) d1 = (p1, v1)"
      using auth_bytes_absorb[OF 1, of ?m] p by auto
    have v1: "length v1 = 16" using length_absorb[OF k v, of p d1] d1(4) by simp
    have "auth_loops al ctx p v cs = auth_tail ctx p1 v3 r3"
      using False by (simp only: auth_loops_def 1 3 Let_def prod.case if_False)
    then show ?thesis using blocks[OF 3 _ v1, of p1] d1 by auto
  qed
qed

text \<open>The position within the block that a byte count stands for.\<close>

definition gh_pos :: "nat \<Rightarrow> nat" where
  "gh_pos n = (if n = 0 then 0 else if n mod 16 = 0 then 16 else n mod 16)"

lemma auth_absorb:
  assumes "keeps_len (\<lambda>a. gf_mul_hh a ctx)" "length v = 16" "cs \<noteq> []"
  shows "auth_loops al ctx (n mod 16) (if n \<noteq> 0 \<and> n mod 16 = 0 then gf_mul_hh v ctx else v) cs =
    snd (absorb (\<lambda>a. gf_mul_hh a ctx) (gh_pos n, v) cs)"
  using assms auth_loops_absorb[OF assms(1)] by (auto simp: gh_pos_def absorb_full keeps_len_def)

lemma u32_and_15: "unat ((w :: u32) AND 15) = unat w mod 16"
proof -
  have "w AND 15 = take_bit 4 w" using take_bit_eq_mask[of 4 w] by (simp add: mask_eq_exp_minus_1)
  then show ?thesis by (simp add: unsigned_take_bit_eq take_bit_eq_mod)
qed

lemma gcm_auth_absorb:
  assumes "keeps_len (\<lambda>a. gf_mul_hh a ctx)"
  shows "length (hdr_ghv ctx) = 16 \<Longrightarrow> gcm_auth_header al hdr ctx = (RETURN_GOOD, ctx\<lparr>
      hdr_ghv := snd (absorb (\<lambda>a. gf_mul_hh a ctx) (gh_pos (unat (hdr_cnt ctx)), hdr_ghv ctx) hdr),
      hdr_cnt := hdr_cnt ctx + word_of_nat (length hdr)\<rparr>)"
    and "length (txt_ghv ctx) = 16 \<Longrightarrow> gcm_auth_data al hdr ctx = (RETURN_GOOD, ctx\<lparr>
      txt_ghv := snd (absorb (\<lambda>a. gf_mul_hh a ctx) (gh_pos (unat (txt_acnt ctx)), txt_ghv ctx) hdr),
      txt_acnt := txt_acnt ctx + word_of_nat (length hdr)\<rparr>)"
  using auth_absorb[OF assms, of "hdr_ghv ctx" hdr al "unat (hdr_cnt ctx)"]
    auth_absorb[OF assms, of "txt_ghv ctx" hdr al "unat (txt_acnt ctx)"]
  by (auto simp: gcm_auth_header_def gcm_auth_data_def u32_and_15 Let_def unat_eq_0)

section \<open>The key stream\<close>

fun cr_step :: "(bytes \<Rightarrow> bytes) \<Rightarrow> nat \<times> bytes \<times> bytes \<Rightarrow> u8 \<Rightarrow> u8 \<times> nat \<times> bytes \<times> bytes" where
  "cr_step E (p, ctr, enc) c =
     (let (ctr1, enc1) = (if p = 0 then (inc_ctr ctr, E (inc_ctr ctr)) else (ctr, enc))
      in (c XOR enc1 ! p, (p + 1) mod 16, ctr1, enc1))"

lemma length_inc_from [simp]: "length (inc_from i x) = length x"
  by (induction i x rule: inc_from.induct) (subst inc_from.simps, simp add: Let_def)

lemma length_inc_ctr [simp]: "length (inc_ctr x) = length x"
  by (simp add: inc_ctr_def)

lemma cr_run_within:
  "0 < p \<Longrightarrow> p + length xs \<le> 16 \<Longrightarrow> run (cr_step E) (p mod 16, ctr, enc) xs =
     (map (\<lambda>i. xs ! i XOR enc ! (p + i)) [0..<length xs], (p + length xs) mod 16, ctr, enc)"
proof (induction xs rule: rev_induct)
  case (snoc c xs)
  then have "(p + length xs) mod 16 = p + length xs" "p \<noteq> 0" by simp_all
  then have "run (cr_step E) ((p + length xs) mod 16, ctr, enc) [c] =
      ([c XOR enc ! (p + length xs)], (p + length (xs @ [c])) mod 16, ctr, enc)" by simp
  with snoc show ?case
    by (subst run_appendI[where xs = xs and ys = "[c]"]) (auto simp: nth_append cong: map_cong)
qed simp

lemma cr_run_block:
  assumes "16 \<le> length cs"
  shows "run (cr_step E) (0, ctr, enc) (take 16 cs) =
    (xor_block_u8 cs (E (inc_ctr ctr)), 0, inc_ctr ctr, E (inc_ctr ctr))"
proof -
  let ?e = "E (inc_ctr ctr)"
  have l: "length (take 16 cs) = 16" using assms by simp
  then obtain c ds where c: "take 16 cs = c # ds" "length ds = 15" by (cases "take 16 cs") auto
  have "run (cr_step E) (1 mod 16, inc_ctr ctr, ?e) ds =
      (map (\<lambda>i. ds ! i XOR ?e ! (1 + i)) [0..<15], 0, inc_ctr ctr, ?e)"
    using cr_run_within[of 1 ds E "inc_ctr ctr" ?e] c(2) by simp
  moreover have "map (\<lambda>i. cs ! i XOR ?e ! i) [0..<16] = (c XOR ?e ! 0) # map (\<lambda>i. ds ! i XOR ?e ! (1 + i)) [0..<15]"
  proof -
    have "cs ! i = (c # ds) ! i" if "i < 16" for i using that c(1) by (metis nth_take)
    then show ?thesis by (intro nth_equalityI) (auto simp: nth_Cons' simp del: upt_Suc)
  qed
  ultimately show ?thesis by (simp add: c(1) xor_block_u8_def del: upt_Suc)
qed

lemma crypt_bytes_run:
  assumes "crypt_bytes P p enc cs = (os, p', rest)" "0 < p" "p \<le> 16" "\<not> P 16"
  shows "0 < p' \<and> p' \<le> 16 \<and> (rest = [] \<or> \<not> P p') \<and>
    (\<exists>ds. cs = ds @ rest \<and> run (cr_step E) (p mod 16, ctr, enc) ds = (os, p' mod 16, ctr, enc))"
  using assms
proof (induction P p enc cs arbitrary: os rule: crypt_bytes.induct)
  case (2 P p enc c cs)
  show ?case
  proof (cases "P p")
    case True
    then have p: "p < 16" using 2 by (cases "p = 16") auto
    obtain os' where o: "crypt_bytes P (p + 1) enc cs = (os', p', rest)" "os = (c XOR enc ! p) # os'"
      using 2(2) True by (auto split: prod.splits)
    obtain ds where "0 < p'" "p' \<le> 16" "rest = [] \<or> \<not> P p'" "cs = ds @ rest"
      "run (cr_step E) ((p + 1) mod 16, ctr, enc) ds = (os', p' mod 16, ctr, enc)"
      using 2(1)[OF True o(1)] 2(5) p by auto
    moreover from this have "run (cr_step E) (p mod 16, ctr, enc) (c # ds) = (os, p' mod 16, ctr, enc)"
      using p 2(3) o(2) by simp
    ultimately show ?thesis by (metis append_Cons)
  qed (use 2 in auto)
qed auto

lemma upt_4: "[0..<4] = [0, 1, 2, 3 :: nat]"
  by (simp add: upt_rec)

lemma crypt_words_run:
  assumes "crypt_words p enc cs = (os, p', rest)" "0 < p" "p \<le> 16" "p mod 4 = 0 \<or> cs = []" "length enc = 16"
  shows "0 < p' \<and> p' \<le> 16 \<and> (p' = 16 \<or> length rest < 4) \<and>
    (\<exists>ds. cs = ds @ rest \<and> run (cr_step E) (p mod 16, ctr, enc) ds = (os, p' mod 16, ctr, enc))"
  using assms
proof (induction p enc cs arbitrary: os rule: crypt_words.induct)
  case (1 p enc cs)
  show ?case
  proof (cases "4 \<le> length cs \<and> p \<le> 12")
    case True
    let ?w = "wbytes [word_in cs 0 XOR word_in (drop p enc) 0]"
    obtain os' where o: "crypt_words (p + 4) enc (drop 4 cs) = (os', p', rest)" "os = ?w @ os'"
      using 1(2) True by (subst (asm) crypt_words.simps) (auto split: prod.splits)
    obtain ds where ds: "0 < p'" "p' \<le> 16" "p' = 16 \<or> length rest < 4" "drop 4 cs = ds @ rest"
      "run (cr_step E) ((p + 4) mod 16, ctr, enc) ds = (os', p' mod 16, ctr, enc)"
      using 1(1)[OF _ o(1)] 1(5,6) True by auto
    have t: "take 4 cs = [cs ! 0, cs ! 1, cs ! 2, cs ! 3]" using arg_cong[OF list_4, of cs "take 4"] True by simp
    have "run (cr_step E) (p mod 16, ctr, enc) (take 4 cs) = (?w, (p + 4) mod 16, ctr, enc)"
      using cr_run_within[of p "take 4 cs" E ctr enc] True 1(3,6) unfolding t wbytes_word_xor by (simp add: upt_4 add.commute[of _ p])
    then have "run (cr_step E) (p mod 16, ctr, enc) (take 4 cs @ ds) = (os, p' mod 16, ctr, enc)"
      unfolding o(2) using ds(5) by (rule run_appendI)
    moreover have "cs = (take 4 cs @ ds) @ rest" using ds(4) by (metis append.assoc append_take_drop_id)
    ultimately show ?thesis using ds by blast
  next
    case False
    then have "p' = p \<and> os = [] \<and> rest = cs" using 1(2) by (subst (asm) crypt_words.simps) auto
    moreover have "p = 16 \<or> length cs < 4" using False 1(4,5) by (cases "cs = []") auto
    ultimately show ?thesis using 1(3,4) by auto
  qed
qed

lemma aes_refill: "ctx_ok a \<Longrightarrow> length ctr = 16 \<Longrightarrow> length enc = 16 \<Longrightarrow> snd (aes_encrypt ctr enc a) = aes_block a ctr"
  by (simp add: aes_encrypt_block)

lemma crypt_blocks_run:
  assumes "crypt_blocks xb a ctr enc cs = (os, ctr', enc', rest)" "ctx_ok a" "length ctr = 16" "length enc = 16"
    "xb = xor_block_aligned \<or> xb = xor_block_u8"
  shows "length rest < 16 \<and> length ctr' = 16 \<and> length enc' = 16 \<and> (\<exists>ds. cs = ds @ rest \<and> (length cs < 16 \<longrightarrow> ds = []) \<and>
    run (cr_step (aes_block a)) (0, ctr, enc) ds = (os, 0, ctr', enc')) \<and> (length cs < 16 \<longrightarrow> os = [] \<and> ctr' = ctr \<and> enc' = enc)"
  using assms(1,3,4)
proof (induction "length cs" arbitrary: ctr enc cs os rule: less_induct)
  case less
  show ?case
  proof (cases "16 \<le> length cs")
    case True
    let ?c = "inc_ctr ctr" and ?e = "aes_block a (inc_ctr ctr)"
    have xb: "xb cs ?e = xor_block_u8 cs ?e" using assms(5) xor_block_u8_aligned by auto
    obtain os' where o: "crypt_blocks xb a ?c ?e (drop 16 cs) = (os', ctr', enc', rest)" "os = xor_block_u8 cs ?e @ os'"
      using less(2) True aes_refill[OF assms(2), of ?c enc] less(3,4) xb
      by (subst (asm) crypt_blocks.simps) (auto simp: Let_def split: prod.splits)
    have "length (drop 16 cs) < length cs" using True by simp
    from less(1)[OF this o(1)] obtain ds where ds: "length rest < 16" "length ctr' = 16" "length enc' = 16"
      "drop 16 cs = ds @ rest" "run (cr_step (aes_block a)) (0, ?c, ?e) ds = (os', 0, ctr', enc')"
      using less(3) by auto
    have "run (cr_step (aes_block a)) (0, ctr, enc) (take 16 cs @ ds) = (os, 0, ctr', enc')"
      using run_appendI[OF cr_run_block[OF True] ds(5)] o(2) by simp
    moreover have "cs = (take 16 cs @ ds) @ rest" using ds(4) by (metis append.assoc append_take_drop_id)
    ultimately show ?thesis using ds True by fastforce
  next
    case False
    then show ?thesis using less(2,3,4) by (subst (asm) crypt_blocks.simps) auto
  qed
qed

lemma crypt_tail_run:
  assumes "ctx_ok a" "length ctr = 16" "length enc = 16" "p \<le> 16"
  shows "\<exists>p'. run (cr_step (aes_block a)) (p mod 16, ctr, enc) cs =
    (fst (crypt_tail a p ctr enc cs), p', snd (crypt_tail a p ctr enc cs))"
  using assms(2-4)
proof (induction cs arbitrary: p ctr enc)
  case (Cons c cs)
  let ?q = "if p = 16 \<or> p = 0 then 0 else p"
  let ?c = "if p = 16 \<or> p = 0 then inc_ctr ctr else ctr"
  let ?e = "if p = 16 \<or> p = 0 then aes_block a (inc_ctr ctr) else enc"
  have q: "?q + 1 \<le> 16" "p mod 16 = ?q" using Cons.prems(3) by auto
  have "\<exists>p'. run (cr_step (aes_block a)) ((?q + 1) mod 16, ?c, ?e) cs =
      (fst (crypt_tail a (?q + 1) ?c ?e cs), p', snd (crypt_tail a (?q + 1) ?c ?e cs))"
    using Cons.IH[of ?c ?e "?q + 1"] Cons.prems q(1) by simp
  moreover have "crypt_tail a p ctr enc (c # cs) =
      ((c XOR ?e ! ?q) # fst (crypt_tail a (?q + 1) ?c ?e cs), snd (crypt_tail a (?q + 1) ?c ?e cs))"
    using Cons.prems aes_refill[OF assms(1), of "inc_ctr ctr" enc] by (simp add: Let_def split_def)
  ultimately show ?case unfolding q(2) by (auto simp: split_def Let_def)
qed simp

lemma nat_and_3: "(n :: nat) AND 3 = n mod 4"
  using take_bit_eq_mask[of 2 n] by (simp add: take_bit_eq_mod mask_eq_exp_minus_1)

lemma crypt_first_run:
  assumes "crypt_first al b enc cs = (os, p, rest)" "b < 16" "length enc = 16"
  shows "p \<le> 16 \<and> (p mod 16 = 0 \<or> length rest < 16) \<and>
    (\<exists>ds. cs = ds @ rest \<and> run (cr_step E) (b, ctr, enc) ds = (os, p mod 16, ctr, enc))"
proof (cases "b = 0")
  case True
  then show ?thesis using assms(1) by (auto simp: crypt_first_def)
next
  case b0: False
  show ?thesis
  proof (cases al)
    case True
    obtain oa pa ra where 1: "crypt_bytes (\<lambda>p. p AND 3 \<noteq> 0) b enc cs = (oa, pa, ra)" by (metis prod_cases3)
    obtain ob where 2: "crypt_words pa enc ra = (ob, p, rest)" and os: "os = oa @ ob"
      using assms(1) b0 True unfolding crypt_first_def 1 by (auto split: prod.splits)
    obtain da where da: "0 < pa" "pa \<le> 16" "ra = [] \<or> pa mod 4 = 0" "cs = da @ ra"
      "run (cr_step E) (b mod 16, ctr, enc) da = (oa, pa mod 16, ctr, enc)"
      using crypt_bytes_run[OF 1, of E ctr] assms(2) b0 by (auto simp: nat_and_3)
    obtain db where db: "p \<le> 16" "p = 16 \<or> length rest < 4" "ra = db @ rest"
      "run (cr_step E) (pa mod 16, ctr, enc) db = (ob, p mod 16, ctr, enc)"
      using crypt_words_run[OF 2 da(1,2) _ assms(3), of E ctr] da(3) by auto
    have "run (cr_step E) (b, ctr, enc) (da @ db) = (os, p mod 16, ctr, enc)"
      using run_appendI[OF da(5) db(4)] assms(2) os by simp
    moreover have "cs = (da @ db) @ rest" using da(4) db(3) by simp
    ultimately show ?thesis using db(1,2) by fastforce
  next
    case False
    then have 1: "crypt_bytes (\<lambda>p. p < 16) b enc cs = (os, p, rest)" using assms(1) b0 by (simp add: crypt_first_def)
    show ?thesis using crypt_bytes_run[OF 1, of E ctr] assms(2) b0 by fastforce
  qed
qed

text \<open>\<^verbatim>\<open>gcm_crypt_data\<close> is a run of the step from the position of the count, whichever of its loops are taken.\<close>

lemma gcm_crypt_data_run:
  assumes a: "ctx_ok (aes ctx)" and c: "length (ctr_val ctx) = 16" and e: "length (enc_ctr ctx) = 16"
  shows "\<exists>os p' c' e'. run (cr_step (aes_block (aes ctx))) (unat (txt_ccnt ctx) mod 16, ctr_val ctx, enc_ctr ctx) data =
    (os, p', c', e') \<and> gcm_crypt_data al data ctx = (RETURN_GOOD, os,
      ctx\<lparr>ctr_val := c', enc_ctr := e', txt_ccnt := txt_ccnt ctx + word_of_nat (length data)\<rparr>)"
proof (cases "data = []")
  case True
  then show ?thesis by (simp add: gcm_crypt_data_def Let_def)
next
  case False
  let ?R = "run (cr_step (aes_block (aes ctx)))"
  let ?b = "unat (txt_ccnt ctx) mod 16"
  obtain o1 p1 r1 where 1: "crypt_first al ?b (enc_ctr ctx) data = (o1, p1, r1)" by (metis prod_cases3)
  obtain d1 where d1: "p1 \<le> 16" "p1 mod 16 = 0 \<or> length r1 < 16" "data = d1 @ r1"
    "?R (?b, ctr_val ctx, enc_ctr ctx) d1 = (o1, p1 mod 16, ctr_val ctx, enc_ctr ctx)"
    using crypt_first_run[OF 1 _ e, of "aes_block (aes ctx)" "ctr_val ctx"] by auto
  let ?xb = "if al then xor_block_aligned else xor_block_u8"
  have xb: "?xb = xor_block_aligned \<or> ?xb = xor_block_u8" by simp
  obtain o2 c2 e2 r2 where 2: "crypt_blocks ?xb (aes ctx) (ctr_val ctx) (enc_ctr ctx) r1 = (o2, c2, e2, r2)"
    by (metis prod_cases4)
  obtain d2 where d2: "length c2 = 16" "length e2 = 16" "r1 = d2 @ r2" "length r1 < 16 \<longrightarrow> d2 = []"
      "?R (0, ctr_val ctx, enc_ctr ctx) d2 = (o2, 0, c2, e2)"
      "length r1 < 16 \<longrightarrow> o2 = [] \<and> c2 = ctr_val ctx \<and> e2 = enc_ctr ctx"
    using crypt_blocks_run[OF 2 a c e xb] by blast
  have R2: "?R (p1 mod 16, ctr_val ctx, enc_ctr ctx) d2 = (o2, p1 mod 16, c2, e2)"
    using d1(2) d2(4-6) by (cases "p1 mod 16 = 0") auto
  obtain o3 c3 e3 where 3: "crypt_tail (aes ctx) p1 c2 e2 r2 = (o3, c3, e3)" by (metis prod_cases3)
  obtain p' where R3: "?R (p1 mod 16, c2, e2) r2 = (o3, p', c3, e3)"
    using crypt_tail_run[OF a d2(1,2) d1(1), of r2] 3 by auto
  have "data = d1 @ d2 @ r2" using d1(3) d2(3) by simp
  then have "?R (?b, ctr_val ctx, enc_ctr ctx) data = (o1 @ o2 @ o3, p', c3, e3)"
    using run_appendI[OF d1(4) run_appendI[OF R2 R3]] by simp
  moreover have "gcm_crypt_data al data ctx = (RETURN_GOOD, o1 @ o2 @ o3,
      ctx\<lparr>ctr_val := c3, enc_ctr := e3, txt_ccnt := txt_ccnt ctx + word_of_nat (length data)\<rparr>)"
    unfolding gcm_crypt_data_def Let_def u32_and_15 1 by (simp only: False if_False prod.case 2 3)
  ultimately show ?thesis by blast
qed

end
