(* ===== verification/Gcm_Correct.thy ===== *)
theory Gcm_Correct
  imports Gcm_Streams
begin

text \<open>
  NIST SP 800-38D as executable definitions, and the pieces of \<^verbatim>\<open>gcm.c\<close> against it: the counter increment, the key stream,
  the hash, the length block, exponentiation in the tag, the first counter block for every IV length, and the invariant
  \<open>gcm_at\<close> of a message in progress that every call keeps.
\<close>

section \<open>The standard\<close>

text \<open>
  AES-GCM of NIST SP 800-38D over a block cipher \<open>E\<close>.  Field elements are \<open>gf_val\<close> of blocks; a block shorter than
  16 bytes stands for the block padded with zeros, so \<open>ghash\<close> takes the padded string as a list of bytes.
\<close>

definition inc32 :: "bytes \<Rightarrow> bytes" where
  "inc32 c = take 12 c @ be_bytes 4 (be_val (drop 12 c) + 1)"

fun gctr :: "(bytes \<Rightarrow> bytes) \<Rightarrow> bytes \<Rightarrow> bytes \<Rightarrow> bytes" where
  "gctr E cb xs =
     (if xs = [] then [] else map2 (XOR) (take 16 xs) (E cb) @ gctr E (inc32 cb) (drop 16 xs))"

fun ghash :: "128 word \<Rightarrow> 128 word \<Rightarrow> bytes \<Rightarrow> 128 word" where
  "ghash h y xs = (if xs = [] then y else ghash h (gf_dot (y XOR gf_val (take 16 xs)) h) (drop 16 xs))"

declare gctr.simps [simp del]
declare ghash.simps [simp del]

primrec gf_byte :: "128 word \<Rightarrow> nat \<Rightarrow> nat \<Rightarrow> u8" where
  "gf_byte v k 0 = 0"
| "gf_byte v k (Suc n) = gf_byte v k n OR (if bit v (8 * k + n) then 2 ^ (7 - n) else 0)"

definition gf_bytes :: "128 word \<Rightarrow> bytes" where
  "gf_bytes v = map (\<lambda>k. gf_byte v k 8) [0..<16]"

definition gcm_j0 :: "128 word \<Rightarrow> bytes \<Rightarrow> bytes" where
  "gcm_j0 h iv = (if length iv = 12 then iv @ [0, 0, 0, 1]
     else gf_bytes (ghash h (ghash h 0 iv) (be_bytes 8 0 @ be_bytes 8 (8 * length iv))))"

definition gcm_hash :: "128 word \<Rightarrow> bytes \<Rightarrow> bytes \<Rightarrow> 128 word" where
  "gcm_hash h a c = ghash h (ghash h (ghash h 0 a) c) (be_bytes 8 (8 * length a) @ be_bytes 8 (8 * length c))"

definition gcm_tag :: "(bytes \<Rightarrow> bytes) \<Rightarrow> bytes \<Rightarrow> bytes \<Rightarrow> bytes \<Rightarrow> nat \<Rightarrow> bytes" where
  "gcm_tag E iv a c t =
     (let h = gf_val (E (replicate 16 0))
      in take t (map2 (XOR) (gf_bytes (gcm_hash h a c)) (E (gcm_j0 h iv))))"

definition gcm_cipher :: "(bytes \<Rightarrow> bytes) \<Rightarrow> bytes \<Rightarrow> bytes \<Rightarrow> bytes" where
  "gcm_cipher E iv xs = gctr E (inc32 (gcm_j0 (gf_val (E (replicate 16 0))) iv)) xs"

text \<open>AES-128 of FIPS-197 with the key expansion of the key.\<close>

definition aes128 :: "bytes \<Rightarrow> bytes \<Rightarrow> bytes" where
  "aes128 key b = fips_cipher (\<lambda>r. wbytes (key_block key r)) b"

lemma aes_block_aes128:
  assumes "length (ks cx) = 44" "length b = 16"
  shows "aes_block (snd (aes_encrypt_key128 key cx)) b = aes128 key b"
proof -
  obtain cx' where c: "aes_encrypt_key128 key cx = (0, cx')" "inf cx' ! 0 = 160"
    "\<forall>r \<le> 10. key4 (ks cx') (4 * r) = key_block key r" using aes_encrypt_key128_blocks[OF assms(1)] by blast
  have "aes_encrypt b b cx' = (0, aes_block cx' b)" using aes_encrypt_block[of cx' b b] c(2) assms(2) by (simp add: ctx_ok_def)
  moreover have "aes_encrypt b b cx' = (0, fips_cipher (\<lambda>r. wbytes (key4 (ks cx') (r * 4))) b)"
    using aes_encrypt_fips_bytes[of cx' b b] c(2) assms(2) by simp
  moreover have "fips_cipher (\<lambda>r. wbytes (key4 (ks cx') (r * 4))) b = fips_cipher (\<lambda>r. wbytes (key_block key r)) b"
    using c(3) by (auto simp: fips_cipher_def mult.commute intro!: arg_cong2[where f = fips_last] fold_cong simp del: upt_Suc)
  ultimately show ?thesis by (simp add: c(1) aes128_def)
qed

section \<open>Counters\<close>

lemma of_nat_256: "(word_of_nat (n * 256) :: u8) = 0"
proof -
  have "(256 :: u8) = 0" by simp
  then show ?thesis by (simp only: of_nat_mult of_nat_numeral mult_zero_right)
qed

lemma be_step:
  "(word_of_nat (n * 256 + unat e + 1) :: u8) = e + 1"
  "(n * 256 + unat (e :: u8) + 1) div 256 = (if e + 1 = 0 then n + 1 else n)"
proof -
  note z = of_nat_256[of n]
  then show "(word_of_nat (n * 256 + unat e + 1) :: u8) = e + 1" by (simp add: ac_simps)
  have lt: "unat e < 2 ^ LENGTH(8)" by (rule unsigned_less)
  show "(n * 256 + unat e + 1) div 256 = (if e + 1 = 0 then n + 1 else n)"
  proof (cases "e + 1 = 0")
    case True
    then have "e = - 1" by (simp add: eq_neg_iff_add_eq_0)
    then have "unat e = 255" by (simp add: unsigned_minus_1_eq_mask mask_eq_exp_minus_1)
    then show ?thesis using True by simp
  next
    case False
    have "e = 255" if "unat e = 255" using that by (simp add: word_unat_eq_iff)
    then have "unat e \<noteq> 255" using False by auto
    moreover have "unat e < 256" using lt by (simp only: power2_eq_square len_bit0 len_num1 mult_1_right) simp
    ultimately have "unat e + 1 < 256" by linarith
    then show ?thesis using False by (simp add: div_mult_self3[of 256 n] flip: add_Suc_right)
  qed
qed

lemma word_of_byte: "(word_of_nat (n * 256 + unat e) :: u8) = e" "(n * 256 + unat (e :: u8)) div 256 = n"
proof -
  note z = of_nat_256[of n]
  then show "(word_of_nat (n * 256 + unat e) :: u8) = e" by simp
  have "unat e < 2 ^ LENGTH(8)" by (rule unsigned_less)
  then show "(n * 256 + unat e) div 256 = n" by simp
qed

lemma be_bytes_4: "be_bytes 4 v = [word_of_nat (v div 256 div 256 div 256), word_of_nat (v div 256 div 256),
    word_of_nat (v div 256), word_of_nat v]"
  by (simp add: be_bytes_def upt_4 flip: div_mult2_eq)

lemma inc_ctr_inc32:
  assumes "length c = 16"
  shows "inc_ctr c = inc32 c"
proof -
  have "length (drop 12 c) = 4" using assms by simp
  from list4[OF this] obtain a b d e where t: "drop 12 c = [a, b, d, e]" by blast
  define pre where "pre = take 12 c"
  have pre: "length pre = 12" "c = pre @ [a, b, d, e]" using assms t append_take_drop_id[of 12 c] by (simp_all add: pre_def)
  have v: "be_val [a, b, d, e] + 1 = ((unat a * 256 + unat b) * 256 + unat d) * 256 + unat e + 1"
    by (simp add: be_val_def)
  have "be_bytes 4 (be_val [a, b, d, e] + 1) =
      (if e + 1 \<noteq> 0 then [a, b, d, e + 1] else if d + 1 \<noteq> 0 then [a, b, d + 1, e + 1]
       else if b + 1 \<noteq> 0 then [a, b + 1, d + 1, e + 1] else [a + 1, b + 1, d + 1, e + 1])"
    unfolding be_bytes_4 v be_step
    by (cases "e + 1 = 0"; cases "d + 1 = 0"; cases "b + 1 = 0";
        simp only: simp_thms if_True if_False be_step word_of_byte)
       simp_all
  moreover have "inc_ctr c = pre @ (if e + 1 \<noteq> 0 then [a, b, d, e + 1] else if d + 1 \<noteq> 0 then [a, b, d + 1, e + 1]
       else if b + 1 \<noteq> 0 then [a, b + 1, d + 1, e + 1] else [a + 1, b + 1, d + 1, e + 1])"
    by (simp add: inc_ctr_def inc_from.simps[of 16] inc_from.simps[of 15] inc_from.simps[of 14] inc_from.simps[of 13]
        inc_from.simps[of 12] pre Let_def nth_append list_update_append)
  ultimately show ?thesis unfolding inc32_def t pre_def by simp
qed

lemma take_12_inc32 [simp]: "length c = 16 \<Longrightarrow> take 12 (inc32 c) = take 12 c" "length c = 16 \<Longrightarrow> length (inc32 c) = 16"
  by (simp_all add: inc32_def be_bytes_def)

lemma cr_run_gctr:
  assumes "\<And>b. length (E b) = 16" "length ctr = 16"
  shows "fst (run (cr_step E) (0, ctr, enc) xs) = gctr E (inc32 ctr) xs \<and>
    take 12 (fst (snd (snd (run (cr_step E) (0, ctr, enc) xs)))) = take 12 ctr \<and>
    length (fst (snd (snd (run (cr_step E) (0, ctr, enc) xs)))) = 16 \<and>
    (length enc = 16 \<longrightarrow> length (snd (snd (snd (run (cr_step E) (0, ctr, enc) xs)))) = 16)"
  using assms(2)
proof (induction "length xs" arbitrary: xs ctr enc rule: less_induct)
  case less
  let ?c = "inc32 ctr"
  have c: "inc_ctr ctr = ?c" "length ?c = 16" "take 12 ?c = take 12 ctr" using less(2) by (simp_all add: inc_ctr_inc32)
  show ?case
  proof (cases "16 \<le> length xs")
    case True
    have l: "length (drop 16 xs) < length xs" using True by simp
    have m: "map2 (XOR) (take 16 xs) (E ?c) = xor_block_u8 xs (E ?c)"
      using True assms(1) by (intro nth_equalityI) (auto simp: xor_block_u8_def)
    obtain os s where r: "run (cr_step E) (0, ?c, E ?c) (drop 16 xs) = (os, s)" by (metis surj_pair)
    have "run (cr_step E) (0, ctr, enc) xs = (xor_block_u8 xs (E ?c) @ os, s)"
      using run_appendI[OF cr_run_block[OF True, of E ctr enc, unfolded c(1)] r] by simp
    moreover have "gctr E ?c xs = xor_block_u8 xs (E ?c) @ gctr E (inc32 ?c) (drop 16 xs)"
      using True m by (subst gctr.simps) auto
    ultimately show ?thesis using less(1)[OF l c(2), of "E ?c"] r c(3) assms(1) by simp
  next
    case False
    show ?thesis
    proof (cases xs)
      case (Cons x ys)
      have "run (cr_step E) (1 mod 16, ?c, E ?c) ys =
          (map (\<lambda>i. ys ! i XOR E ?c ! (1 + i)) [0..<length ys], (1 + length ys) mod 16, ?c, E ?c)"
        using cr_run_within[of 1 ys E ?c "E ?c"] False Cons by simp
      moreover have "gctr E ?c xs = map2 (XOR) xs (E ?c)" using False Cons by (subst gctr.simps) (simp add: gctr.simps)
      moreover have "map2 (XOR) xs (E ?c) = (x XOR E ?c ! 0) # map (\<lambda>i. ys ! i XOR E ?c ! (1 + i)) [0..<length ys]"
        using False Cons assms(1) by (intro nth_equalityI) (auto simp: nth_Cons' less_Suc_eq_0_disj)
      ultimately show ?thesis using Cons c assms(1) by simp
    qed (simp add: gctr.simps less(2))
  qed
qed

lemma gctr_cong:
  assumes "\<And>b. length b = 16 \<Longrightarrow> E b = E' b" "length c = 16"
  shows "gctr E c xs = gctr E' c xs"
  using assms(2)
proof (induction "length xs" arbitrary: xs c rule: less_induct)
  case less
  show ?case
  proof (cases "xs = []")
    case False
    then have "length (drop 16 xs) < length xs" by (cases xs) auto
    then show ?thesis using less False assms(1) by (subst (1 2) gctr.simps) simp
  qed (simp add: gctr.simps)
qed

section \<open>GHASH\<close>

lemma gf_val_xor_prefix:
  assumes "length v = 16" "length xs \<le> 16"
  shows "gf_val (xor_prefix v xs) = gf_val v XOR gf_val xs"
  using assms by (intro bit_word_eqI) (auto simp: bit_xor_iff bit_gf_val xor_prefix_def)

definition is_mul :: "(bytes \<Rightarrow> bytes) \<Rightarrow> 128 word \<Rightarrow> bool" where
  "is_mul m h \<longleftrightarrow> (\<forall>v. length v = 16 \<longrightarrow> length (m v) = 16 \<and> gf_val (m v) = gf_dot (gf_val v) h)"

lemma is_mul_keeps: "is_mul m h \<Longrightarrow> keeps_len m"
  by (simp add: is_mul_def keeps_len_def)

lemma ghash_absorb_full:
  assumes m: "is_mul m h" and "length v = 16"
  shows "gf_dot (gf_val (snd (absorb m (16, v) xs))) h = ghash h (gf_dot (gf_val v) h) xs"
  using assms(2)
proof (induction "length xs" arbitrary: xs v rule: less_induct)
  case less
  have mv: "length (m v) = 16" "gf_val (m v) = gf_dot (gf_val v) h" using m less(2) by (simp_all add: is_mul_def)
  show ?case
  proof (cases "16 < length xs")
    case True
    then have l: "length (drop 16 xs) < length xs" by simp
    have b: "absorb m (16, v) xs = absorb m (16, xor_block_u8 (m v) xs) (drop 16 xs)"
      using absorb_block[of xs m v] True mv(1) by (metis append_take_drop_id foldl_append less_imp_le_nat)
    have "gf_val (xor_block_u8 (m v) xs) = gf_dot (gf_val v) h XOR gf_val (take 16 xs)"
      using gf_val_xor_prefix[of "m v" "take 16 xs"] True mv by (simp add: xor_prefix_block)
    then show ?thesis
      unfolding b using less(1)[OF l, of "xor_block_u8 (m v) xs"] True by (subst ghash.simps) auto
  next
    case False
    show ?thesis
    proof (cases "xs = []")
      case xs: False
      then have "absorb m (16, v) xs = (length xs, xor_prefix (m v) xs)"
        using False absorb_prefix[of xs "m v" m] mv(1) by (simp add: absorb_full)
      moreover have "ghash h y xs = gf_dot (y XOR gf_val xs) h" for y
        using False xs by (subst ghash.simps) (simp add: ghash.simps[of _ _ "[]"])
      ultimately show ?thesis using False mv by (simp add: gf_val_xor_prefix)
    qed (simp add: ghash.simps)
  qed
qed

lemma gf_val_zeros [simp]: "gf_val (replicate n 0) = 0"
  by (induction n) (simp_all add: lb_def byte_dot_def)

lemma ghash_absorb:
  assumes m: "is_mul m h"
  shows "gf_dot (gf_val (snd (absorb m (0, replicate 16 0) xs))) h = ghash h 0 xs"
proof (cases "xs = []")
  case True
  then show ?thesis by (simp add: ghash.simps)
next
  case False
  have "length (m (replicate 16 0)) = 16" "gf_val (m (replicate 16 0)) = 0" using m by (simp_all add: is_mul_def)
  then have "m (replicate 16 0) = replicate 16 0" by (intro gf_val_eqI) simp_all
  then have "absorb m (0, replicate 16 0) xs = absorb m (16, replicate 16 0) xs" using absorb_full[OF False, of m "replicate 16 0"] by simp
  then show ?thesis using ghash_absorb_full[OF m, of "replicate 16 0" xs] by simp
qed

lemma bit_gf_byte: "n \<le> 8 \<Longrightarrow> bit (gf_byte v k n) j \<longleftrightarrow> j < 8 \<and> 7 - j < n \<and> bit v (8 * k + (7 - j))"
proof (induction n)
  case (Suc n)
  then have "bit (2 ^ (7 - n) :: u8) j \<longleftrightarrow> j < 8 \<and> 7 - j = n" by (auto simp: bit_exp_iff)
  with Suc show ?case by (auto simp: bit_or_iff less_Suc_eq)
qed simp

lemma length_gf_bytes [simp]: "length (gf_bytes v) = 16"
  by (simp add: gf_bytes_def)

lemma gf_val_bytes [simp]: "gf_val (gf_bytes v) = v"
proof (rule bit_word_eqI)
  fix i :: nat assume "i < LENGTH(128)"
  then have i: "i < 128" by simp
  then have k: "i div 8 < 16" by simp
  have m: "7 - i mod 8 < 8" "7 - (7 - i mod 8) = i mod 8" "i mod 8 < 8"
    using mod_less_divisor[of 8 i] by linarith+
  have "gf_bytes v ! (i div 8) = gf_byte v (i div 8) 8" using k by (simp add: gf_bytes_def del: upt_Suc)
  then have "bit (gf_bytes v ! (i div 8)) (7 - i mod 8) \<longleftrightarrow> bit v i" using m by (simp add: bit_gf_byte)
  then show "bit (gf_val (gf_bytes v)) i \<longleftrightarrow> bit v i" using i by (simp add: bit_gf_val)
qed

lemma gf_bytes_eqI: "length b = 16 \<Longrightarrow> gf_val b = v \<Longrightarrow> b = gf_bytes v"
  by (rule gf_val_eqI) simp_all

section \<open>The tag\<close>

primrec gf_pow :: "128 word \<Rightarrow> nat \<Rightarrow> 128 word" where
  "gf_pow h 0 = 1"
| "gf_pow h (Suc n) = gf_dot h (gf_pow h n)"

lemma gf_dot_1_right [simp]: "gf_dot a 1 = a"
  using gf_dot_comm[of a 1] by simp

lemma gf_pow_square: "gf_pow (gf_dot h h) n = gf_pow h (2 * n)"
  by (induction n) (simp_all add: gf_dot_assoc)

lemma tag_power_val:
  assumes "length v = 16" "length t = 16"
  shows "length (tag_power n v t) = 16 \<and> gf_val (tag_power n v t) = gf_dot (gf_val v) (gf_pow (gf_val t) n)"
  using assms
proof (induction n v t rule: tag_power.induct)
  case (1 n v t)
  let ?v = "if n AND 1 \<noteq> 0 then gf_mulTMD v t else v"
  have v: "length ?v = 16" "gf_val ?v = gf_dot (gf_val v) (gf_pow (gf_val t) (n mod 2))"
    using 1(2,3) by (auto simp: gf_mulTMD_val and_one_eq mod2_eq_if)
  show ?case
  proof (cases "n div 2 = 0")
    case True
    then show ?thesis using v by (subst (1 2) tag_power.simps) (simp add: div_eq_0_iff)
  next
    case False
    have "n = n mod 2 + 2 * (n div 2)" by simp
    then have p: "gf_pow (gf_val t) n = gf_dot (gf_pow (gf_val t) (n mod 2)) (gf_pow (gf_val t) (2 * (n div 2)))"
      by (cases "n mod 2 = 0") (simp, metis One_nat_def gf_dot_1_right gf_pow.simps not_mod_2_eq_0_eq_1 plus_1_eq_Suc)
    have "length (tag_power (n div 2) ?v (gf_mulTMD t t)) = 16 \<and> gf_val (tag_power (n div 2) ?v (gf_mulTMD t t)) =
        gf_dot (gf_val ?v) (gf_pow (gf_val (gf_mulTMD t t)) (n div 2))"
      using 1(1)[OF refl False] v(1) 1(3) gf_mulTMD_val(1) by simp
    then show ?thesis
      using False 1(3) unfolding v(2) p by (subst (1 2) tag_power.simps) (simp add: gf_mulTMD_val gf_pow_square gf_dot_assoc)
  qed
qed

lemma ghash_linear:
  "ghash h y xs = gf_dot y (gf_pow h ((length xs + 15) div 16)) XOR ghash h 0 xs"
proof (induction "length xs" arbitrary: y xs rule: less_induct)
  case less
  show ?case
  proof (cases "xs = []")
    case False
    let ?x = "gf_val (take 16 xs)" and ?n = "(length (drop 16 xs) + 15) div 16"
    have l: "length (drop 16 xs) < length xs" using False by (cases xs) auto
    have n: "(length xs + 15) div 16 = Suc ?n" 
    proof (cases "length xs \<le> 16")
      case True
      then have "0 < length xs" "length xs \<le> 16" using False by auto
      then have "(length xs + 15) div 16 = 1" by presburger
      then show ?thesis using True by simp
    next
      case False
      then have "length xs + 15 = (length xs - 16 + 15) + 16" by simp
      then show ?thesis by (metis div_add_self2 length_drop Suc_eq_plus1 zero_neq_numeral)
    qed
    have "ghash h z xs = gf_dot (gf_dot (z XOR ?x) h) (gf_pow h ?n) XOR ghash h 0 (drop 16 xs)" for z
      using False less[OF l, of "gf_dot (z XOR ?x) h"] by (subst ghash.simps) simp
    then show ?thesis
      unfolding n by (simp add: xor_linearD[OF xor_linear_gf_dot(1)] gf_dot_assoc ac_simps)
  qed (simp add: ghash.simps)
qed

lemma unat_bits_32: "unat (push_bit 3 (ucast (w :: u32)) :: u64) = 8 * unat w"
proof -
  have "unat w < 2 ^ LENGTH(32)" by (rule unsigned_less)
  then have w: "unat w < 2 ^ 32" by simp
  have "unat (ucast w :: u64) = unat w" using w by (simp add: unsigned_ucast_eq take_bit_nat_eq_self)
  then show ?thesis using w by (simp add: push_bit_eq_mult unat_word_ariths)
qed

lemma tag_lengths_low:
  "n \<le> 8 \<Longrightarrow> length v = 16 \<Longrightarrow> tag_lengths n tm hc v t =
     map (\<lambda>j. if j < n then v ! j XOR (t ! j XOR ucast (drop_bit (8 * (n - 1 - j)) tm)) else v ! j) [0..<16]"
proof (induction n arbitrary: tm v)
  case 0
  then show ?case using map_nth[of v] by simp
next
  case (Suc n)
  then have "tag_lengths (Suc n) tm hc v t = map (\<lambda>j. if j < n then v ! j XOR (t ! j XOR
      ucast (drop_bit (8 * (n - 1 - j)) (drop_bit 8 tm))) else v[n := v ! n XOR (t ! n XOR ucast tm)] ! j) [0..<16]"
    by (auto simp: nth_list_update)
  also have "\<dots> = map (\<lambda>j. if j < Suc n then v ! j XOR (t ! j XOR ucast (drop_bit (8 * (Suc n - 1 - j)) tm)) else v ! j) [0..<16]"
  proof (rule map_cong[OF refl])
    fix j assume "j \<in> set [0..<16]"
    have "8 * (n - 1 - j) + 8 = 8 * (n - j)" if "j < n" using that by simp
    then show "(if j < n then v ! j XOR (t ! j XOR ucast (drop_bit (8 * (n - 1 - j)) (drop_bit 8 tm)))
        else v[n := v ! n XOR (t ! n XOR ucast tm)] ! j) =
      (if j < Suc n then v ! j XOR (t ! j XOR ucast (drop_bit (8 * (Suc n - 1 - j)) tm)) else v ! j)"
      using Suc.prems by (auto simp: nth_list_update less_Suc_eq drop_bit_drop_bit)
  qed
  finally show ?case .
qed

lemma tag_lengths_high:
  "0 < m \<Longrightarrow> m \<le> 8 \<Longrightarrow> length v = 16 \<Longrightarrow> tag_lengths (8 + m) tm hc v t =
     tag_lengths 8 (push_bit 3 (ucast hc)) hc
       (map (\<lambda>j. if 8 \<le> j \<and> j < 8 + m then v ! j XOR (t ! j XOR ucast (drop_bit (8 * (8 + m - 1 - j)) tm)) else v ! j) [0..<16]) t"
proof (induction m arbitrary: tm v)
  case (Suc m)
  let ?v = "v[8 + m := v ! (8 + m) XOR (t ! (8 + m) XOR ucast tm)]"
  show ?case
  proof (cases "m = 0")
    case True
    have "map (\<lambda>j. if 8 \<le> j \<and> j < 8 + Suc m then v ! j XOR (t ! j XOR ucast (drop_bit (8 * (8 + Suc m - 1 - j)) tm)) else v ! j) [0..<16] = ?v"
      using Suc.prems True by (intro nth_equalityI) (auto simp: nth_list_update)
    moreover have "tag_lengths (8 + Suc m) tm hc v t = tag_lengths 8 (push_bit 3 (ucast hc)) hc ?v t"
      by (simp only: True add_Suc_right add_0_right tag_lengths.simps simp_thms if_True)
    ultimately show ?thesis by (simp only:)
  next
    case False
    have mp: "map (\<lambda>j. if 8 \<le> j \<and> j < 8 + m then ?v ! j XOR (t ! j XOR ucast (drop_bit (8 * (8 + m - 1 - j)) (drop_bit 8 tm))) else ?v ! j) [0..<16] =
        map (\<lambda>j. if 8 \<le> j \<and> j < 8 + Suc m then v ! j XOR (t ! j XOR ucast (drop_bit (8 * (8 + Suc m - 1 - j)) tm)) else v ! j) [0..<16]"
    proof (rule map_cong[OF refl])
      fix j assume "j \<in> set [0..<16]"
      have "8 * (8 + m - 1 - j) + 8 = 8 * (8 + m - j)" if "j < 8 + m" using that by simp
      then show "(if 8 \<le> j \<and> j < 8 + m then ?v ! j XOR (t ! j XOR ucast (drop_bit (8 * (8 + m - 1 - j)) (drop_bit 8 tm))) else ?v ! j) =
        (if 8 \<le> j \<and> j < 8 + Suc m then v ! j XOR (t ! j XOR ucast (drop_bit (8 * (8 + Suc m - 1 - j)) tm)) else v ! j)"
        using Suc.prems by (auto simp: nth_list_update less_Suc_eq drop_bit_drop_bit)
    qed
    have st: "tag_lengths (8 + Suc m) tm hc v t = tag_lengths (8 + m) (drop_bit 8 tm) hc ?v t"
      by (simp only: add_Suc_right tag_lengths.simps) (use False in simp)
    show ?thesis unfolding st mp[symmetric] using False Suc.prems by (intro Suc.IH) simp_all
  qed
qed simp

lemma tag_lengths_val:
  fixes tc hc :: u32
  assumes "length v = 16" "length t = 16"
  shows "length (tag_lengths 16 (push_bit 3 (ucast tc)) hc v t) = 16 \<and>
    gf_val (tag_lengths 16 (push_bit 3 (ucast tc)) hc v t) =
      gf_val v XOR gf_val t XOR gf_val (be_bytes 8 (8 * unat hc) @ be_bytes 8 (8 * unat tc))"
proof -
  let ?l = "be_bytes 8 (8 * unat hc) @ be_bytes 8 (8 * unat tc)"
  have "tag_lengths (8 + 8) (push_bit 3 (ucast tc)) hc v t = xor_block_u8 (xor_block_u8 v t) ?l"
    unfolding tag_lengths_high[OF zero_less_numeral order_refl assms(1)]
    using assms by (subst tag_lengths_low)
      (auto simp: xor_block_u8_def ucast_drop_byte unat_bits_32 nth_append nth_be_bytes xor.assoc intro!: nth_equalityI)
  then show ?thesis using assms by (simp add: gf_val_xor xor.assoc)
qed

section \<open>Contexts\<close>

text \<open>A context after \<^verbatim>\<open>gcm_init_and_key\<close>: what every later call keeps.\<close>

definition gcm_ok :: "gcm_ctx \<Rightarrow> bool" where
  "gcm_ok ctx \<longleftrightarrow> ctx_ok (aes ctx) \<and> length (enc_ctr ctx) = 16 \<and> length (ghash_h ctx) = 16 \<and>
     table_upto (gf_val (ghash_h ctx)) 256 (gf_t4k ctx) \<and> ghash_h ctx = aes_block (aes ctx) (replicate 16 0)"

lemma gcm_ok_is_mul: "gcm_ok ctx \<Longrightarrow> is_mul (\<lambda>a. gf_mul_hh a ctx) (gf_val (ghash_h ctx))"
  using gf_mul_4k_val unfolding gcm_ok_def is_mul_def gf_mul_hh_def by blast

lemma gcm_ok_mul:
  assumes "gcm_ok ctx" "length v = 16"
  shows "length (gf_mul_hh v ctx) = 16" "gf_val (gf_mul_hh v ctx) = gf_dot (gf_val v) (gf_val (ghash_h ctx))"
  using gcm_ok_is_mul[OF assms(1)] assms(2) by (simp_all add: is_mul_def)

text \<open>The sizes of the arrays of an uninitialised context.\<close>

definition gcm_shape :: "gcm_ctx \<Rightarrow> bool" where
  "gcm_shape ctx \<longleftrightarrow> length (gf_t4k ctx) = 256 \<and> length (enc_ctr ctx) = 16 \<and> length (ks (aes ctx)) = 44"

lemma gcm_init_and_key_ok:
  assumes "gcm_shape ctx"
  shows "gcm_ok (snd (gcm_init_and_key key ctx))" "fst (gcm_init_and_key key ctx) = RETURN_GOOD"
    "aes (snd (gcm_init_and_key key ctx)) = snd (aes_encrypt_key128 key (aes ctx))"
proof -
  obtain cx' where c: "aes_encrypt_key128 key (aes ctx) = (0, cx')" "inf cx' ! 0 = 160"
    using aes_encrypt_key128_blocks[of "aes ctx" key] assms by (auto simp: gcm_shape_def)
  then have ok: "ctx_ok cx'" by (simp add: ctx_ok_def)
  then have "snd (aes_encrypt (replicate 16 0) (replicate 16 0) cx') = aes_block cx' (replicate 16 0)" by (simp add: aes_refill)
  then show "gcm_ok (snd (gcm_init_and_key key ctx))" "fst (gcm_init_and_key key ctx) = RETURN_GOOD"
    "aes (snd (gcm_init_and_key key ctx)) = snd (aes_encrypt_key128 key (aes ctx))"
    using ok assms init_4k_table_val[of "aes_block cx' (replicate 16 0)" "gf_t4k ctx"]
    by (simp_all add: gcm_init_and_key_def Let_def c gcm_ok_def gcm_shape_def)
qed

section \<open>The first counter block\<close>

lemma iv_blocks_val:
  assumes "gcm_ok ctx" "length c = 16" "iv_blocks (length iv) iv c ctx = (n, iv1, c1)"
  shows "n = length iv1 \<and> n < 16 \<and> length c1 = 16 \<and> ghash (gf_val (ghash_h ctx)) (gf_val c) iv =
    (if n = 0 then gf_val c1 else gf_dot (gf_val c1 XOR gf_val iv1) (gf_val (ghash_h ctx)))"
  using assms(2,3)
proof (induction "length iv" arbitrary: iv c rule: less_induct)
  case less
  let ?h = "gf_val (ghash_h ctx)"
  show ?case
  proof (cases "16 \<le> length iv")
    case True
    let ?c = "gf_mul_hh (xor_block_aligned c iv) ctx"
    have l: "length (drop 16 iv) < length iv" using True by simp
    have x: "length (xor_block_aligned c iv) = 16" "gf_val (xor_block_aligned c iv) = gf_val c XOR gf_val (take 16 iv)"
      using True less(2) gf_val_xor_prefix[of c "take 16 iv"] by (simp_all add: xor_block_u8_aligned xor_prefix_block)
    have c: "length ?c = 16" "gf_val ?c = gf_dot (gf_val c XOR gf_val (take 16 iv)) ?h"
      using gcm_ok_mul[OF assms(1) x(1)] x(2) by simp_all
    have "iv_blocks (length (drop 16 iv)) (drop 16 iv) ?c ctx = (n, iv1, c1)"
      using less(3) True by (subst (asm) iv_blocks.simps) simp
    moreover have "ghash ?h (gf_val c) iv = ghash ?h (gf_val ?c) (drop 16 iv)" using True c(2) by (subst ghash.simps) auto
    ultimately show ?thesis using less(1)[OF l c(1)] by simp
  next
    case False
    then have e: "n = length iv" "iv1 = iv" "c1 = c" using less(3) by (subst (asm) iv_blocks.simps, simp)+
    have "ghash ?h y iv = gf_dot (y XOR gf_val iv) ?h" if "iv \<noteq> []" for y
      using False that by (subst ghash.simps) (simp add: ghash.simps[of _ _ "[]"])
    then show ?thesis using False less(2) e by (auto simp: ghash.simps)
  qed
qed

lemma len_xor_nth:
  "n < 256 ^ (i + 1) \<Longrightarrow> i < length c \<Longrightarrow> length (len_xor i n c) = length c \<and>
    (\<forall>j < length c. len_xor i n c ! j = (if j \<le> i then c ! j XOR word_of_nat (n div 256 ^ (i - j)) else c ! j))"
proof (induction i n c rule: len_xor.induct)
  case (1 i n c)
  show ?case
  proof (cases "n = 0")
    case False
    let ?c = "c[i := c ! i XOR word_of_nat n]"
    show ?thesis
    proof (cases i)
      case 0
      then have "n div 256 = 0" using 1(2) by simp
      then have "len_xor i n c = ?c" using False by (subst len_xor.simps) (simp add: len_xor.simps)
      then show ?thesis using 0 1(3) by (auto simp: nth_list_update)
    next
      case (Suc k)
      have "n div 256 < 256 ^ (k + 1)" using 1(2) Suc by (simp add: less_mult_imp_div_less mult.commute)
      then have IH: "length (len_xor k (n div 256) ?c) = length c"
        "\<And>j. j < length c \<Longrightarrow> len_xor k (n div 256) ?c ! j = (if j \<le> k then ?c ! j XOR word_of_nat (n div 256 div 256 ^ (k - j)) else ?c ! j)"
        using 1(1)[OF False] 1(3) Suc by auto
      have e: "len_xor i n c = len_xor k (n div 256) ?c" using False Suc by (subst len_xor.simps) simp
      have "n div 256 div 256 ^ (k - j) = n div 256 ^ (i - j)" if "j \<le> k" for j
        using that Suc by (simp add: Suc_diff_le flip: div_mult2_eq)
      then show ?thesis using IH Suc 1(3) unfolding e by (auto simp: nth_list_update le_Suc_eq)
    qed
  qed (simp add: len_xor.simps)
qed

lemma len_xor_val:
  assumes "n < 2 ^ 32" "length c = 16"
  shows "length (len_xor 15 n c) = 16" "gf_val (len_xor 15 n c) = gf_val c XOR gf_val (be_bytes 8 0 @ be_bytes 8 n)"
proof -
  have b: "n < 256 ^ (15 + 1)" using assms(1) by simp
  have z: "n div 256 ^ (15 - j) = 0" if "j < 8" for j
  proof -
    have "(256 :: nat) ^ 8 \<le> 256 ^ (15 - j)" using that by (intro power_increasing) auto
    then show ?thesis using assms(1) by (intro div_less) simp
  qed
  have "len_xor 15 n c = xor_block_u8 c (be_bytes 8 0 @ be_bytes 8 n)"
    using len_xor_nth[OF b, of c] assms(2) z
    by (intro nth_equalityI) (auto simp: xor_block_u8_def nth_append nth_be_bytes)
  then show "length (len_xor 15 n c) = 16" "gf_val (len_xor 15 n c) = gf_val c XOR gf_val (be_bytes 8 0 @ be_bytes 8 n)"
    using assms(2) by (simp_all add: gf_val_xor)
qed

lemma unat_of_len: "n < 2 ^ 32 \<Longrightarrow> unat (word_of_nat n :: u32) = n"
  by (simp add: unat_of_nat)

lemma iv_12: "length iv = 12 \<Longrightarrow> (memcpy (replicate 16 0) 0 iv)[15 := 1] = iv @ [0, 0, 0, 1]"
  by (simp add: memcpy_def list_update_append numeral_eq_Suc)

lemma ghash_Nil: "ghash h y [] = y"
  by (simp add: ghash.simps)

lemma ghash_block:
  assumes "length b = 16"
  shows "ghash h y b = gf_dot (y XOR gf_val b) h"
proof -
  have "b \<noteq> []" "take 16 b = b" "drop 16 b = []" using assms by auto
  then show ?thesis by (subst ghash.simps) (simp add: ghash.simps[of _ _ "[]"])
qed

lemma gcm_init_message_eq:
  assumes "gcm_ok ctx" "length iv < 2 ^ 29"
  shows "gcm_init_message iv ctx = (RETURN_GOOD, ctx\<lparr>ctr_val := gcm_j0 (gf_val (ghash_h ctx)) iv,
    y0_val := word_in (gcm_j0 (gf_val (ghash_h ctx)) iv) 3, hdr_ghv := replicate 16 0, txt_ghv := replicate 16 0,
    hdr_cnt := 0, txt_ccnt := 0, txt_acnt := 0\<rparr>)"
proof (cases "length iv = 12")
  case True
  then show ?thesis by (simp add: gcm_init_message_def gcm_j0_def iv_12 Let_def)
next
  case False
  let ?h = "gf_val (ghash_h ctx)"
  have u: "unat (word_of_nat (length iv) :: u32) = length iv" "unat (word_of_nat (8 * length iv) :: u32) = 8 * length iv"
    using assms(2) unat_of_len[of "length iv"] unat_of_len[of "8 * length iv"] by auto
  obtain n iv1 c1 where i: "iv_blocks (length iv) iv (replicate 16 0) ctx = (n, iv1, c1)" by (metis prod_cases3)
  note v = iv_blocks_val[OF assms(1) _ i, simplified]
  define c2 where "c2 = (if n \<noteq> 0 then gf_mul_hh (map (\<lambda>i. if i < n then c1 ! i XOR iv1 ! i else c1 ! i) [0..<16]) ctx else c1)"
  have "map (\<lambda>i. if i < n then c1 ! i XOR iv1 ! i else c1 ! i) [0..<16] = xor_prefix c1 iv1"
    using v by (simp add: xor_prefix_def)
  then have c2: "length c2 = 16" "gf_val c2 = ghash ?h 0 iv"
    using v gcm_ok_mul[OF assms(1), of "xor_prefix c1 iv1"] by (auto simp: c2_def gf_val_xor_prefix)
  let ?b = "be_bytes 8 0 @ be_bytes 8 (8 * length iv)"
  have l: "length (len_xor 15 (8 * length iv) c2) = 16" "gf_val (len_xor 15 (8 * length iv) c2) = ghash ?h 0 iv XOR gf_val ?b"
    using len_xor_val[OF _ c2(1), of "8 * length iv"] assms(2) c2(2) by simp_all
  have g: "ghash ?h y ?b = gf_dot (y XOR gf_val ?b) ?h" for y by (rule ghash_block) simp
  have "gf_mul_hh (len_xor 15 (8 * length iv) c2) ctx = gcm_j0 ?h iv"
    using False gcm_ok_mul[OF assms(1) l(1)] l(2) g by (auto simp: gcm_j0_def intro!: gf_bytes_eqI)
  then show ?thesis using False unfolding gcm_init_message_def u i Let_def prod.case c2_def[symmetric] by simp
qed

lemma length_gcm_j0 [simp]: "length (gcm_j0 h iv) = 16"
  by (simp add: gcm_j0_def)

section \<open>A message in progress\<close>

lemma absorb_pos:
  "keeps_len m \<Longrightarrow> fst (absorb m (0, v) xs) = gh_pos (length xs)"
proof (induction xs rule: rev_induct)
  case (snoc c xs)
  obtain p w where pw: "absorb m (0, v) xs = (p, w)" by fastforce
  then have p: "p = gh_pos (length xs)" using snoc by simp
  have "fst (gh_step m (p, w) c) = gh_pos (Suc (length xs))"
  proof (cases "length xs mod 16 = 0")
    case True
    then have "Suc (length xs) mod 16 = 1" by presburger
    then show ?thesis using True p by (auto simp: gh_pos_def)
  next
    case False
    then show ?thesis using p mod_Suc[of "length xs" 16] by (auto simp: gh_pos_def Let_def split: if_splits)
  qed
  then show ?case using pw by simp
qed (simp add: gh_pos_def)

lemma cr_run_pos: "p < 16 \<Longrightarrow> fst (snd (run (cr_step E) (p, c, e) xs)) = (p + length xs) mod 16"
proof (induction xs arbitrary: p c e)
  case (Cons x xs)
  obtain c1 e1 where s: "snd (cr_step E (p, c, e) x) = ((p + 1) mod 16, c1, e1)" by (cases "p = 0") simp_all
  have "fst (snd (run (cr_step E) ((p + 1) mod 16, c1, e1) xs)) = ((p + 1) mod 16 + length xs) mod 16"
    using Cons.IH by simp
  then show ?case using s by (simp add: split_def Let_def mod_simps del: cr_step.simps)
qed simp

text \<open>
  The context after \<open>a\<close> has been given to \<^verbatim>\<open>gcm_auth_header\<close>, \<open>x\<close> to \<^verbatim>\<open>gcm_crypt_data\<close>, which returned \<open>y\<close>, and \<open>c\<close> to
  \<^verbatim>\<open>gcm_auth_data\<close>, in pieces of any size.
\<close>

definition gcm_at :: "bytes \<Rightarrow> bytes \<Rightarrow> bytes \<Rightarrow> bytes \<Rightarrow> bytes \<Rightarrow> gcm_ctx \<Rightarrow> bool" where
  "gcm_at iv a x y c ctx \<longleftrightarrow>
     (let m = (\<lambda>v. gf_mul_hh v ctx); j = gcm_j0 (gf_val (ghash_h ctx)) iv in
      gcm_ok ctx \<and> y0_val ctx = word_in j 3 \<and>
      hdr_ghv ctx = snd (absorb m (0, replicate 16 0) a) \<and> hdr_cnt ctx = word_of_nat (length a) \<and>
      txt_ghv ctx = snd (absorb m (0, replicate 16 0) c) \<and> txt_acnt ctx = word_of_nat (length c) \<and>
      txt_ccnt ctx = word_of_nat (length x) \<and>
      (\<exists>e. run (cr_step (aes_block (aes ctx))) (0, j, e) x = (y, length x mod 16, ctr_val ctx, enc_ctr ctx)))"

lemma gcm_at_lengths:
  assumes "gcm_at iv a x y c ctx"
  shows "gcm_ok ctx" "length (hdr_ghv ctx) = 16" "length (txt_ghv ctx) = 16" "length (ctr_val ctx) = 16" "length (enc_ctr ctx) = 16"
    "keeps_len (\<lambda>v. gf_mul_hh v ctx)" "y = gcm_cipher (aes_block (aes ctx)) iv x"
    "take 12 (ctr_val ctx) = take 12 (gcm_j0 (gf_val (ghash_h ctx)) iv)"
proof -
  have ok: "gcm_ok ctx" using assms by (simp add: gcm_at_def Let_def)
  then show k: "gcm_ok ctx" "keeps_len (\<lambda>v. gf_mul_hh v ctx)" "length (enc_ctr ctx) = 16"
    using is_mul_keeps gcm_ok_is_mul by (auto simp: gcm_ok_def)
  show "length (hdr_ghv ctx) = 16" "length (txt_ghv ctx) = 16"
    using assms length_absorb[OF k(2), of "replicate 16 0"] by (simp_all add: gcm_at_def Let_def)
  obtain e where "run (cr_step (aes_block (aes ctx))) (0, gcm_j0 (gf_val (ghash_h ctx)) iv, e) x = (y, length x mod 16, ctr_val ctx, enc_ctr ctx)"
    using assms by (auto simp: gcm_at_def Let_def)
  then show "length (ctr_val ctx) = 16" "y = gcm_cipher (aes_block (aes ctx)) iv x"
    "take 12 (ctr_val ctx) = take 12 (gcm_j0 (gf_val (ghash_h ctx)) iv)"
    using cr_run_gctr[of "aes_block (aes ctx)" "gcm_j0 (gf_val (ghash_h ctx)) iv" e x] ok
    by (simp_all add: gcm_cipher_def gcm_ok_def)
qed

lemma gcm_ok_update [simp]:
  "gcm_ok (ctx\<lparr>hdr_ghv := v\<rparr>) = gcm_ok ctx" "gcm_ok (ctx\<lparr>txt_ghv := v\<rparr>) = gcm_ok ctx"
  "gcm_ok (ctx\<lparr>hdr_cnt := n\<rparr>) = gcm_ok ctx" "gcm_ok (ctx\<lparr>txt_acnt := n\<rparr>) = gcm_ok ctx"
  "gcm_ok (ctx\<lparr>txt_ccnt := n\<rparr>) = gcm_ok ctx" "gcm_ok (ctx\<lparr>ctr_val := v\<rparr>) = gcm_ok ctx"
  "gcm_ok (ctx\<lparr>y0_val := w\<rparr>) = gcm_ok ctx" "length v = 16 \<Longrightarrow> gcm_ok (ctx\<lparr>enc_ctr := v\<rparr>) = gcm_ok ctx \<or> length (enc_ctr ctx) \<noteq> 16"
  by (auto simp: gcm_ok_def)

lemma gf_mul_hh_update [simp]:
  "gf_mul_hh a (ctx\<lparr>hdr_ghv := v\<rparr>) = gf_mul_hh a ctx" "gf_mul_hh a (ctx\<lparr>txt_ghv := v\<rparr>) = gf_mul_hh a ctx"
  "gf_mul_hh a (ctx\<lparr>hdr_cnt := n\<rparr>) = gf_mul_hh a ctx" "gf_mul_hh a (ctx\<lparr>txt_acnt := n\<rparr>) = gf_mul_hh a ctx"
  "gf_mul_hh a (ctx\<lparr>txt_ccnt := n\<rparr>) = gf_mul_hh a ctx" "gf_mul_hh a (ctx\<lparr>ctr_val := v\<rparr>) = gf_mul_hh a ctx"
  "gf_mul_hh a (ctx\<lparr>y0_val := w\<rparr>) = gf_mul_hh a ctx" "gf_mul_hh a (ctx\<lparr>enc_ctr := v\<rparr>) = gf_mul_hh a ctx"
  by (simp_all add: gf_mul_hh_def)

lemma cr_length_enc:
  assumes "run (cr_step (aes_block a)) (p, c, e) xs = (os, p', c', e')" "length e = 16"
  shows "length e' = 16"
  using assms
proof (induction xs arbitrary: p c e os)
  case (Cons x xs)
  then show ?case by (cases "p = 0") (auto split: prod.splits)
qed simp

lemma gcm_at_init:
  assumes "gcm_ok ctx" "length iv < 2 ^ 29"
  shows "gcm_at iv [] [] [] [] (snd (gcm_init_message iv ctx))"
    "aes (snd (gcm_init_message iv ctx)) = aes ctx"
  using assms by (auto simp: gcm_init_message_eq gcm_at_def Let_def)

lemma absorb_resume:
  assumes "keeps_len m" "length a < 2 ^ 32"
  shows "snd (absorb m (gh_pos (unat (word_of_nat (length a) :: u32)), snd (absorb m (0, v) a)) xs) = snd (absorb m (0, v) (a @ xs))"
proof -
  have "absorb m (0, v) a = (gh_pos (length a), snd (absorb m (0, v) a))"
    using absorb_pos[OF assms(1)] by (metis prod.collapse)
  then show ?thesis by (simp add: unat_of_len[OF assms(2)])
qed

lemma gcm_at_header:
  assumes "gcm_at iv a x y c ctx" "length (a @ hdr) < 2 ^ 32"
  shows "gcm_at iv (a @ hdr) x y c (snd (gcm_auth_header al hdr ctx))" "aes (snd (gcm_auth_header al hdr ctx)) = aes ctx"
  using assms gcm_auth_absorb(1)[OF gcm_at_lengths(6,2)[OF assms(1)], of al hdr]
    absorb_resume[OF gcm_at_lengths(6)[OF assms(1)], of a "replicate 16 0" hdr]
  by (simp_all add: gcm_at_def Let_def)

lemma gcm_at_data:
  assumes "gcm_at iv a x y c ctx" "length (c @ data) < 2 ^ 32"
  shows "gcm_at iv a x y (c @ data) (snd (gcm_auth_data al data ctx))" "aes (snd (gcm_auth_data al data ctx)) = aes ctx"
  using assms gcm_auth_absorb(2)[OF gcm_at_lengths(6,3)[OF assms(1)], of al data]
    absorb_resume[OF gcm_at_lengths(6)[OF assms(1)], of c "replicate 16 0" data]
  by (simp_all add: gcm_at_def Let_def)

lemma gcm_at_crypt:
  assumes "gcm_at iv a x y c ctx" "length (x @ data) < 2 ^ 32"
  shows "\<exists>os ctx'. gcm_crypt_data al data ctx = (RETURN_GOOD, os, ctx') \<and> gcm_at iv a (x @ data) (y @ os) c ctx' \<and>
    aes ctx' = aes ctx \<and> length os = length data"
proof -
  let ?E = "aes_block (aes ctx)" and ?j = "gcm_j0 (gf_val (ghash_h ctx)) iv"
  have ok: "ctx_ok (aes ctx)" using gcm_at_lengths(1)[OF assms(1)] by (simp add: gcm_ok_def)
  obtain e where e: "run (cr_step ?E) (0, ?j, e) x = (y, length x mod 16, ctr_val ctx, enc_ctr ctx)"
    and cnt: "txt_ccnt ctx = word_of_nat (length x)" using assms(1) by (auto simp: gcm_at_def Let_def)
  have "unat (txt_ccnt ctx) mod 16 = length x mod 16" using assms(2) cnt by (simp add: unat_of_len)
  then obtain os p' c' e' where r: "run (cr_step ?E) (length x mod 16, ctr_val ctx, enc_ctr ctx) data = (os, p', c', e')"
    and g: "gcm_crypt_data al data ctx = (RETURN_GOOD, os, ctx\<lparr>ctr_val := c', enc_ctr := e', txt_ccnt := txt_ccnt ctx + word_of_nat (length data)\<rparr>)"
    using gcm_crypt_data_run[OF ok gcm_at_lengths(4,5)[OF assms(1)], of data al] by auto
  have R: "run (cr_step ?E) (0, ?j, e) (x @ data) = (y @ os, p', c', e')" using run_appendI[OF e r] .
  have p': "p' = length (x @ data) mod 16" using cr_run_pos[of 0 ?E ?j e "x @ data"] R by simp
  have "length os = length data" using length_run[of "cr_step ?E" "(length x mod 16, ctr_val ctx, enc_ctr ctx)" data] r by simp
  moreover have "length e' = 16"
    using cr_length_enc[OF r gcm_at_lengths(5)[OF assms(1)]] .
  ultimately show ?thesis
    using assms(1) R p' cnt gcm_at_lengths(1)[OF assms(1)] unfolding g
    by (auto simp: gcm_at_def Let_def gcm_ok_def)
qed

end
