(* ===== verification/Gcm_Messages.thy ===== *)
theory Gcm_Messages
  imports Gcm_Correct
begin

text \<open>
  Whole messages: the tag \<^verbatim>\<open>gcm_compute_tag\<close> returns for a message in progress, and the properties of \<^verbatim>\<open>gcm_encrypt_message\<close>,
  \<^verbatim>\<open>gcm_decrypt_message\<close> and the incremental interface.
\<close>

section \<open>The tag of a message\<close>

lemma word_out_top:
  assumes "length c = 16" "length j = 16" "take 12 c = take 12 j"
  shows "word_out c 3 (word_in j 3) = j"
proof (rule nth_equalityI)
  fix i assume "i < length (word_out c 3 (word_in j 3))"
  then have i: "i < 16" using assms(1) by simp
  have e: "ucast (bval (word_in j 3) k) = j ! (12 + k)" if "k < 4" for k
    using that byte_word_in[of 3 k j] by (simp add: byte_def)
  have "i < 12 \<or> i = 12 \<or> i = 13 \<or> i = 14 \<or> i = 15" using i by auto
  moreover have "c ! i = j ! i" if "i < 12" using that assms(3) by (metis nth_take)
  ultimately show "word_out c 3 (word_in j 3) ! i = j ! i"
    using assms(1) e[of 0] e[of 1] e[of 2] e[of 3] by (auto simp: word_out_def)
qed (simp add: assms)

lemma gcm_ok_enc: "gcm_ok ctx \<Longrightarrow> length v = 16 \<Longrightarrow> gcm_ok (ctx\<lparr>enc_ctr := v\<rparr>)"
  unfolding gcm_ok_def by (elim conjE) simp

lemma gcm_at_tag:
  assumes at: "gcm_at iv a x y c ctx" and len: "length x = length c" "length a < 2 ^ 32" "length c < 2 ^ 32 - 16" "t \<le> 16"
  shows "\<exists>ctx'. gcm_compute_tag t ctx = (RETURN_GOOD, gcm_tag (aes_block (aes ctx)) iv a c t, ctx') \<and>
    gcm_ok ctx' \<and> aes ctx' = aes ctx"
proof -
  let ?m = "\<lambda>v. gf_mul_hh v ctx" and ?h = "gf_val (ghash_h ctx)" and ?E = "aes_block (aes ctx)"
  let ?j = "gcm_j0 ?h iv"
  note ok = gcm_at_lengths(1)[OF at]
  define h1 where "h1 = ?m (hdr_ghv ctx)"
  define t1 where "t1 = ?m (txt_ghv ctx)"
  define ln where "ln = unat ((txt_acnt ctx + 15) div 16)"
  define h2 where "h2 = (if hdr_cnt ctx \<noteq> 0 \<and> ln \<noteq> 0 then tag_power ln h1 (ghash_h ctx) else h1)"
  define h3 where "h3 = tag_lengths 16 (push_bit 3 (ucast (txt_acnt ctx))) (hdr_cnt ctx) h2 t1"
  have cnt: "hdr_cnt ctx = word_of_nat (length a)" "txt_acnt ctx = word_of_nat (length c)" "txt_ccnt ctx = txt_acnt ctx"
    using at len(1) by (simp_all add: gcm_at_def Let_def)
  have un: "unat (hdr_cnt ctx) = length a" "unat (txt_acnt ctx) = length c" using cnt len by (simp_all add: unat_of_len)
  have ln: "ln = (length c + 15) div 16"
    using un(2) len(3) by (simp add: ln_def unat_div unat_word_ariths)
  have h1: "length h1 = 16" "gf_val h1 = ghash ?h 0 a" and t1: "length t1 = 16" "gf_val t1 = ghash ?h 0 c"
    using gcm_ok_mul[OF ok gcm_at_lengths(2)[OF at]] gcm_ok_mul[OF ok gcm_at_lengths(3)[OF at]]
      ghash_absorb[OF gcm_ok_is_mul[OF ok]] at by (simp_all add: h1_def t1_def gcm_at_def Let_def)
  have tp: "length (tag_power ln h1 (ghash_h ctx)) = 16"
    "gf_val (tag_power ln h1 (ghash_h ctx)) = gf_dot (ghash ?h 0 a) (gf_pow ?h ln)"
    using tag_power_val[OF h1(1), of "ghash_h ctx" ln] ok h1(2) by (simp_all add: gcm_ok_def)
  have z: "ghash ?h 0 a = 0" if "hdr_cnt ctx = 0" using un(1) that by (simp add: ghash_Nil)
  have h2: "length h2 = 16" "gf_val h2 = gf_dot (ghash ?h 0 a) (gf_pow ?h ln)"
    using tp h1 z by (cases "hdr_cnt ctx = 0"; cases "ln = 0"; simp add: h2_def)+
  let ?l = "be_bytes 8 (8 * length a) @ be_bytes 8 (8 * length c)"
  have "gf_val h2 XOR gf_val t1 = ghash ?h (ghash ?h 0 a) c"
    unfolding h2(2) t1(2) ln by (rule ghash_linear[symmetric])
  then have h3: "length h3 = 16" "gf_val h3 = ghash ?h (ghash ?h 0 a) c XOR gf_val ?l"
    using tag_lengths_val[OF h2(1) t1(1), of "txt_acnt ctx" "hdr_cnt ctx"] un by (simp_all add: h3_def flip: xor.assoc)
  have "ghash ?h z ?l = gf_dot (z XOR gf_val ?l) ?h" for z by (rule ghash_block) simp
  then have h4: "?m h3 = gf_bytes (gcm_hash ?h a c)"
    using gcm_ok_mul[OF ok h3(1)] h3(2) by (intro gf_bytes_eqI) (simp_all add: gcm_hash_def)
  have "word_out (ctr_val ctx) 3 (y0_val ctx) = ?j"
    using word_out_top[OF gcm_at_lengths(4)[OF at] length_gcm_j0 gcm_at_lengths(8)[OF at]] at by (simp add: gcm_at_def Let_def)
  then have e2: "snd (aes_encrypt (word_out (ctr_val ctx) 3 (y0_val ctx)) (word_out (ctr_val ctx) 3 (y0_val ctx)) (aes ctx)) = ?E ?j"
    using ok by (simp add: aes_refill gcm_ok_def)
  have "map (\<lambda>i. gf_bytes (gcm_hash ?h a c) ! i XOR ?E ?j ! i) [0..<t] = gcm_tag ?E iv a c t"
    using len(4) ok by (intro nth_equalityI) (auto simp: gcm_tag_def gcm_ok_def Let_def)
  then show ?thesis
    unfolding gcm_compute_tag_def Let_def h1_def[symmetric] t1_def[symmetric] ln_def[symmetric]
      h2_def[symmetric] h3_def[symmetric] h4 e2 using cnt(3) ok gcm_ok_enc by simp
qed

section \<open>Whole messages\<close>

lemma gcm_cong:
  assumes "\<And>b. length b = 16 \<Longrightarrow> E b = E' b"
  shows "gcm_cipher E iv xs = gcm_cipher E' iv xs" "gcm_tag E iv a c t = gcm_tag E' iv a c t"
proof -
  have z: "E (replicate 16 0) = E' (replicate 16 0)" by (simp add: assms)
  show "gcm_cipher E iv xs = gcm_cipher E' iv xs" unfolding gcm_cipher_def z by (rule gctr_cong) (simp_all add: assms)
  show "gcm_tag E iv a c t = gcm_tag E' iv a c t" by (simp add: gcm_tag_def z assms)
qed

lemma length_gctr: "(\<And>b. length b = 16 \<Longrightarrow> length (E b) = 16) \<Longrightarrow> length c = 16 \<Longrightarrow> length (gctr E c xs) = length xs"
proof (induction "length xs" arbitrary: xs c rule: less_induct)
  case less
  show ?case
  proof (cases "xs = []")
    case False
    then have "length (drop 16 xs) < length xs" by (cases xs) auto
    then show ?thesis using less False by (subst gctr.simps) simp
  qed (simp add: gctr.simps)
qed

lemma gctr_twice:
  "(\<And>b. length b = 16 \<Longrightarrow> length (E b) = 16) \<Longrightarrow> length c = 16 \<Longrightarrow> gctr E c (gctr E c xs) = xs"
proof (induction "length xs" arbitrary: xs c rule: less_induct)
  case less
  show ?case
  proof (cases "xs = []")
    case False
    let ?y = "map2 (XOR) (take 16 xs) (E c)" and ?r = "gctr E (inc32 c) (drop 16 xs)"
    have l: "length (drop 16 xs) < length xs" using False by (cases xs) auto
    have e: "gctr E c xs = ?y @ ?r" using False by (subst gctr.simps) simp
    have Ec: "length (E c) = 16" using less by simp
    have len: "length ?y = min 16 (length xs)" using Ec by simp
    have bk: "map2 (XOR) (map2 (XOR) (take 16 xs) (E c)) (E c) = take 16 xs"
      using Ec by (intro nth_equalityI) (auto simp: xor.assoc)
    have td: "take 16 (?y @ ?r) = ?y \<and> drop 16 (?y @ ?r) = ?r"
      using len by (cases "16 \<le> length xs") (simp_all add: gctr.simps[of _ _ "[]"])
    have "0 < length ?y" using len False by simp
    then have "?y @ ?r \<noteq> []" by auto
    then have "gctr E c (?y @ ?r) = map2 (XOR) ?y (E c) @ gctr E (inc32 c) ?r"
      by (subst gctr.simps) (simp only: td if_False)
    moreover have "gctr E (inc32 c) ?r = drop 16 xs" using less(1)[OF l less(2)] less(3) by simp
    ultimately show ?thesis unfolding e using bk by simp
  qed (simp add: gctr.simps)
qed

lemma length_aes128: "length b = 16 \<Longrightarrow> length (aes128 key b) = 16"
  using aes_block_aes128[of "\<lparr>ks = replicate 44 0, inf = []\<rparr>" b key] length_aes_block(1)
  by (metis aes_ctx.select_convs(1) length_replicate)

lemma gcm_cipher_facts:
  "length (gcm_cipher (aes128 key) iv xs) = length xs" "gcm_cipher (aes128 key) iv (gcm_cipher (aes128 key) iv xs) = xs"
  unfolding gcm_cipher_def by (rule length_gctr gctr_twice; simp add: length_aes128)+



text \<open>A context that holds a key; \<^verbatim>\<open>gcm_init_and_key\<close> makes it so, and it stays so from message to message.\<close>

definition gcm_keyed :: "bytes \<Rightarrow> gcm_ctx \<Rightarrow> bool" where
  "gcm_keyed key ctx \<longleftrightarrow> gcm_ok ctx \<and> (\<forall>b. length b = 16 \<longrightarrow> aes_block (aes ctx) b = aes128 key b)"

lemma gcm_keyed_init: "gcm_shape ctx \<Longrightarrow> gcm_keyed key (snd (gcm_init_and_key key ctx))"
  using gcm_init_and_key_ok[of ctx key] aes_block_aes128[of "aes ctx"] by (simp add: gcm_keyed_def gcm_shape_def)

lemma gcm_keyed_spec:
  assumes "gcm_keyed key ctx" "aes ctx' = aes ctx"
  shows "gcm_cipher (aes_block (aes ctx')) iv xs = gcm_cipher (aes128 key) iv xs"
    "gcm_tag (aes_block (aes ctx')) iv a c t = gcm_tag (aes128 key) iv a c t"
  using assms gcm_cong[of "aes_block (aes ctx')" "aes128 key"] by (auto simp: gcm_keyed_def)

lemma gcm_message_header:
  assumes "gcm_keyed key k" "length iv < 2 ^ 29" "length hdr < 2 ^ 32"
  shows "gcm_at iv hdr [] [] [] (snd (gcm_auth_header al hdr (snd (gcm_init_message iv k))))"
    "aes (snd (gcm_auth_header al hdr (snd (gcm_init_message iv k)))) = aes k"
  using gcm_at_header[OF gcm_at_init(1), of k iv hdr al] gcm_at_init(2)[of k iv] assms by (simp_all add: gcm_keyed_def)

lemma gcm_encrypt_message_val:
  assumes key: "gcm_keyed key k" and "length iv < 2 ^ 29" "length hdr < 2 ^ 32" "length msg < 2 ^ 32 - 16" "t \<le> 16"
  shows "\<exists>k'. gcm_encrypt_message al_h al_c al_a iv hdr msg t k =
    (RETURN_GOOD, gcm_cipher (aes128 key) iv msg, gcm_tag (aes128 key) iv hdr (gcm_cipher (aes128 key) iv msg) t, k') \<and>
    gcm_keyed key k'"
proof -
  define c2 where "c2 = snd (gcm_auth_header al_h hdr (snd (gcm_init_message iv k)))"
  have at: "gcm_at iv hdr [] [] [] c2" "aes c2 = aes k"
    using gcm_message_header[OF assms(1-3), of al_h] by (simp_all add: c2_def)
  obtain os c3 where c3: "gcm_crypt_data al_c msg c2 = (RETURN_GOOD, os, c3)" "gcm_at iv hdr msg os [] c3"
    "aes c3 = aes k" "length os = length msg" using gcm_at_crypt[OF at(1), of msg al_c] at(2) assms(4) by auto
  define c4 where "c4 = snd (gcm_auth_data al_a os c3)"
  have c4: "gcm_at iv hdr msg os os c4" "aes c4 = aes k"
    using gcm_at_data[OF c3(2), of os al_a] c3(3,4) assms(4) by (simp_all add: c4_def)
  obtain c5 where c5: "gcm_compute_tag t c4 = (RETURN_GOOD, gcm_tag (aes_block (aes c4)) iv hdr os t, c5)" "gcm_ok c5" "aes c5 = aes c4"
    using gcm_at_tag[OF c4(1) c3(4)[symmetric] assms(3) _ assms(5)] c3(4) assms(4) by auto
  have "os = gcm_cipher (aes128 key) iv msg"
    using gcm_at_lengths(7)[OF c3(2)] gcm_keyed_spec(1)[OF key c3(3)] by simp
  moreover have "gcm_encrypt_message al_h al_c al_a iv hdr msg t k = (RETURN_GOOD, os, gcm_tag (aes128 key) iv hdr os t, c5)"
    using c3(1) c5(1) gcm_keyed_spec(2)[OF key c4(2)]
    by (simp add: gcm_encrypt_message_def gcm_encrypt_def split_def Let_def flip: c2_def c4_def)
  ultimately show ?thesis using c5(2,3) c4(2) key by (simp add: gcm_keyed_def)
qed

lemma gcm_decrypt_message_val:
  assumes key: "gcm_keyed key k" and "length iv < 2 ^ 29" "length hdr < 2 ^ 32" "length msg < 2 ^ 32 - 16" "length tag \<le> 16"
  shows "\<exists>k'. gcm_decrypt_message al_h al_c al_a iv hdr msg tag k =
    (if tag = gcm_tag (aes128 key) iv hdr msg (length tag) then RETURN_GOOD else RETURN_ERROR,
     gcm_cipher (aes128 key) iv msg, k') \<and> gcm_keyed key k'"
proof -
  define c2 where "c2 = snd (gcm_auth_header al_h hdr (snd (gcm_init_message iv k)))"
  have at: "gcm_at iv hdr [] [] [] c2" "aes c2 = aes k"
    using gcm_message_header[OF assms(1-3), of al_h] by (simp_all add: c2_def)
  define c3 where "c3 = snd (gcm_auth_data al_a msg c2)"
  have c3: "gcm_at iv hdr [] [] msg c3" "aes c3 = aes k"
    using gcm_at_data[OF at(1), of msg al_a] at(2) assms(4) by (simp_all add: c3_def)
  obtain os c4 where c4: "gcm_crypt_data al_c msg c3 = (RETURN_GOOD, os, c4)" "gcm_at iv hdr msg os msg c4"
    "aes c4 = aes k" using gcm_at_crypt[OF c3(1), of msg al_c] c3(2) assms(4) by auto
  obtain c5 where c5: "gcm_compute_tag (length tag) c4 = (RETURN_GOOD, gcm_tag (aes_block (aes c4)) iv hdr msg (length tag), c5)"
    "gcm_ok c5" "aes c5 = aes c4" using gcm_at_tag[OF c4(2) refl assms(3-5)] by auto
  have "os = gcm_cipher (aes128 key) iv msg"
    using gcm_at_lengths(7)[OF c4(2)] gcm_keyed_spec(1)[OF key c4(3)] by simp
  moreover have "gcm_decrypt_message al_h al_c al_a iv hdr msg tag k =
      (if tag = gcm_tag (aes128 key) iv hdr msg (length tag) then RETURN_GOOD else RETURN_ERROR, os, c5)"
    using c4(1) c5(1) gcm_keyed_spec(2)[OF key c4(3)]
    by (simp add: gcm_decrypt_message_def gcm_decrypt_def split_def Let_def flip: c2_def c3_def)
  ultimately show ?thesis using c5(2,3) c4(3) key by (simp add: gcm_keyed_def)
qed

lemma length_gcm_tag: "t \<le> 16 \<Longrightarrow> length (gcm_tag (aes128 key) iv a c t) = t"
  by (simp add: gcm_tag_def Let_def length_aes128)

text \<open>
  Property C15 (refinement): with a key set by \<^verbatim>\<open>gcm_init_and_key\<close>, \<^verbatim>\<open>gcm_encrypt_message\<close> computes AES-128-GCM of NIST SP 800-38D:
  for every IV (of 12 bytes or any other length), header, message and tag length the ciphertext is the counter-mode
  encryption from \<open>inc32(J0)\<close> and the tag is the truncated GHASH of header, ciphertext and lengths masked with the
  encryption of \<open>J0\<close>, whichever way the three alignment tests go.
\<close>

theorem gcm_encrypt_message_is_nist:
  assumes "gcm_shape ctx" "length iv < 2 ^ 29" "length hdr < 2 ^ 32 - 16" "length msg < 2 ^ 32 - 16" "t \<le> 16"
  shows "\<exists>ctx'. gcm_encrypt_message al_h al_c al_a iv hdr msg t (snd (gcm_init_and_key key ctx)) =
    (RETURN_GOOD, gcm_cipher (aes128 key) iv msg, gcm_tag (aes128 key) iv hdr (gcm_cipher (aes128 key) iv msg) t, ctx')"
proof -
  have "length hdr < 2 ^ 32" using assms(3) by linarith
  then show ?thesis using gcm_encrypt_message_val[OF gcm_keyed_init[OF assms(1)] assms(2) _ assms(4,5)] by blast
qed

text \<open>A context as the C code declares it: arrays of the sizes of \<^verbatim>\<open>gcm.h\<close>, of any contents.\<close>

definition fresh_gcm :: gcm_ctx where
  "fresh_gcm = snd (gcm_end undefined)"

lemma fresh_gcm_shape: "gcm_shape fresh_gcm"
  by (simp add: gcm_shape_def fresh_gcm_def gcm_end_def)

theorem gcm_encrypt_message_is_nist_witness:
  "\<exists>ctx'. gcm_encrypt_message True False True (replicate 12 7) [1, 2, 3] (replicate 40 5) 12
      (snd (gcm_init_and_key (replicate 16 9) fresh_gcm)) =
    (RETURN_GOOD, gcm_cipher (aes128 (replicate 16 9)) (replicate 12 7) (replicate 40 5),
     gcm_tag (aes128 (replicate 16 9)) (replicate 12 7) [1, 2, 3]
       (gcm_cipher (aes128 (replicate 16 9)) (replicate 12 7) (replicate 40 5)) 12, ctx')"
  by (rule gcm_encrypt_message_is_nist[OF fresh_gcm_shape]) simp_all

text \<open>
  Property C16 (round trip): \<^verbatim>\<open>gcm_decrypt_message\<close> accepts what \<^verbatim>\<open>gcm_encrypt_message\<close> produced with the same key, IV and header and
  gives the message back, also when the buffers are aligned differently; with any other tag of the same length it
  returns an error.
\<close>

theorem gcm_roundtrip:
  assumes "gcm_shape ctx" "gcm_shape ctx'" "length iv < 2 ^ 29" "length hdr < 2 ^ 32 - 16" "length msg < 2 ^ 32 - 16" "t \<le> 16"
  shows "\<exists>c tag e. gcm_encrypt_message al_h al_c al_a iv hdr msg t (snd (gcm_init_and_key key ctx)) = (RETURN_GOOD, c, tag, e) \<and>
    length c = length msg \<and>
    (\<exists>d. gcm_decrypt_message al_h' al_c' al_a' iv hdr c tag (snd (gcm_init_and_key key ctx')) = (RETURN_GOOD, msg, d)) \<and>
    (\<forall>bad. length bad = t \<longrightarrow> bad \<noteq> tag \<longrightarrow>
      fst (gcm_decrypt_message al_h' al_c' al_a' iv hdr c bad (snd (gcm_init_and_key key ctx'))) = RETURN_ERROR)"
proof -
  let ?c = "gcm_cipher (aes128 key) iv msg"
  let ?t = "gcm_tag (aes128 key) iv hdr ?c t"
  have lt: "length ?t = t" using assms(6) by (rule length_gcm_tag)
  have lc: "length ?c < 2 ^ 32 - 16" using assms(5) by (simp add: gcm_cipher_facts)
  have lh: "length hdr < 2 ^ 32" using assms(4) by linarith
  have d: "\<exists>d. gcm_decrypt_message al_h' al_c' al_a' iv hdr ?c tag (snd (gcm_init_and_key key ctx')) =
      (if tag = ?t then RETURN_GOOD else RETURN_ERROR, msg, d)" if "length tag = t" for tag
    using gcm_decrypt_message_val[OF gcm_keyed_init[OF assms(2)] assms(3) lh lc, of tag al_h' al_c' al_a' key] that assms(6)
    unfolding gcm_cipher_facts(2) by auto
  from gcm_encrypt_message_val[OF gcm_keyed_init[OF assms(1)] assms(3) lh assms(5,6)] obtain e where
    "gcm_encrypt_message al_h al_c al_a iv hdr msg t (snd (gcm_init_and_key key ctx)) = (RETURN_GOOD, ?c, ?t, e)" by blast
  moreover have "fst (gcm_decrypt_message al_h' al_c' al_a' iv hdr ?c bad (snd (gcm_init_and_key key ctx'))) = RETURN_ERROR"
    if "length bad = t" "bad \<noteq> ?t" for bad using d[OF that(1)] that(2) by auto
  moreover have "\<exists>d. gcm_decrypt_message al_h' al_c' al_a' iv hdr ?c ?t (snd (gcm_init_and_key key ctx')) = (RETURN_GOOD, msg, d)"
    using d[OF lt] by simp
  ultimately show ?thesis using gcm_cipher_facts(1)[of key iv msg] by blast
qed

theorem gcm_roundtrip_witness:
  "\<exists>c tag e. gcm_encrypt_message False False False (replicate 8 7) [] (replicate 21 5) 12
      (snd (gcm_init_and_key (replicate 16 9) fresh_gcm)) = (RETURN_GOOD, c, tag, e) \<and> length c = length (replicate 21 (5 :: u8)) \<and>
    (\<exists>d. gcm_decrypt_message True True True (replicate 8 7) [] c tag (snd (gcm_init_and_key (replicate 16 9) fresh_gcm)) =
      (RETURN_GOOD, replicate 21 5, d)) \<and>
    (\<forall>bad. length bad = 12 \<longrightarrow> bad \<noteq> tag \<longrightarrow> fst (gcm_decrypt_message True True True (replicate 8 7) [] c bad
      (snd (gcm_init_and_key (replicate 16 9) fresh_gcm))) = RETURN_ERROR)"
  by (rule gcm_roundtrip[OF fresh_gcm_shape fresh_gcm_shape]) simp_all

section \<open>Messages in pieces\<close>

text \<open>Calls of \<^verbatim>\<open>gcm_auth_header\<close> and \<^verbatim>\<open>gcm_encrypt\<close> on consecutive pieces, each with its own alignments.\<close>

definition header_pieces :: "(bool \<times> bytes) list \<Rightarrow> gcm_ctx \<Rightarrow> gcm_ctx" where
  "header_pieces hs ctx = foldl (\<lambda>ctx h. snd (gcm_auth_header (fst h) (snd h) ctx)) ctx hs"

primrec encrypt_pieces :: "(bool \<times> bool \<times> bytes) list \<Rightarrow> gcm_ctx \<Rightarrow> bytes \<times> gcm_ctx" where
  "encrypt_pieces [] ctx = ([], ctx)"
| "encrypt_pieces (d # ds) ctx =
     (case gcm_encrypt (fst d) (fst (snd d)) (snd (snd d)) ctx of (_, o1, ctx1) \<Rightarrow>
        let (os, ctx2) = encrypt_pieces ds ctx1 in (o1 @ os, ctx2))"

lemma header_pieces_at:
  assumes "gcm_at iv a [] [] [] ctx" "length (a @ concat (map snd hs)) < 2 ^ 32"
  shows "gcm_at iv (a @ concat (map snd hs)) [] [] [] (header_pieces hs ctx) \<and> aes (header_pieces hs ctx) = aes ctx"
  using assms
proof (induction hs arbitrary: a ctx)
  case (Cons h hs)
  have "gcm_at iv (a @ snd h) [] [] [] (snd (gcm_auth_header (fst h) (snd h) ctx))"
    "aes (snd (gcm_auth_header (fst h) (snd h) ctx)) = aes ctx"
    using gcm_at_header[OF Cons.prems(1), of "snd h" "fst h"] Cons.prems(2) by simp_all
  then show ?case using Cons.IH[of "a @ snd h"] Cons.prems(2) by (simp add: header_pieces_def)
qed (simp add: header_pieces_def)

lemma encrypt_pieces_at:
  assumes "gcm_at iv a x y y ctx" "length (x @ concat (map (snd \<circ> snd) ds)) < 2 ^ 32" "length x = length y"
    "encrypt_pieces ds ctx = (os, ctx')"
  shows "gcm_at iv a (x @ concat (map (snd \<circ> snd) ds)) (y @ os) (y @ os) ctx' \<and> aes ctx' = aes ctx \<and>
    length os = length (concat (map (snd \<circ> snd) ds))"
  using assms
proof (induction ds arbitrary: x y ctx os)
  case (Cons d ds)
  let ?d = "snd (snd d)"
  obtain o1 c1 where c1: "gcm_crypt_data (fst d) ?d ctx = (RETURN_GOOD, o1, c1)" "gcm_at iv a (x @ ?d) (y @ o1) y c1"
    "aes c1 = aes ctx" "length o1 = length ?d" using gcm_at_crypt[OF Cons.prems(1), of ?d "fst d"] Cons.prems(2) by auto
  let ?c2 = "snd (gcm_auth_data (fst (snd d)) o1 c1)"
  have c2: "gcm_at iv a (x @ ?d) (y @ o1) (y @ o1) ?c2" "aes ?c2 = aes ctx"
    using gcm_at_data[OF c1(2), of o1 "fst (snd d)"] Cons.prems(2,3) c1(3,4) by simp_all
  obtain os2 where o2: "encrypt_pieces ds ?c2 = (os2, ctx')" "os = o1 @ os2"
    using Cons.prems(4) c1(1) by (cases "encrypt_pieces ds ?c2") (simp add: gcm_encrypt_def split_def Let_def)
  show ?case using Cons.IH[OF c2(1) _ _ o2(1)] Cons.prems(2,3) c1(4) c2(2) o2(2) by simp
qed simp

text \<open>
  Property C30 (functional): the incremental interface is insensitive to how a message is cut: feeding the header and the plaintext
  in any pieces, of any sizes and alignments, to \<^verbatim>\<open>gcm_auth_header\<close> and \<^verbatim>\<open>gcm_encrypt\<close> yields the ciphertext and, from
  \<^verbatim>\<open>gcm_compute_tag\<close>, the tag of the standard for the concatenated message.
\<close>

theorem gcm_pieces_are_one_message:
  assumes "gcm_shape ctx" "length iv < 2 ^ 29" "length (concat (map snd hs)) < 2 ^ 32 - 16"
    "length (concat (map (snd \<circ> snd) ds)) < 2 ^ 32 - 16" "t \<le> 16"
    and "encrypt_pieces ds (header_pieces hs (snd (gcm_init_message iv (snd (gcm_init_and_key key ctx))))) = (c, ctx')"
  shows "c = gcm_cipher (aes128 key) iv (concat (map (snd \<circ> snd) ds)) \<and>
    (\<exists>ctx''. gcm_compute_tag t ctx' = (RETURN_GOOD, gcm_tag (aes128 key) iv (concat (map snd hs)) c t, ctx''))"
proof -
  let ?k = "snd (gcm_init_and_key key ctx)" and ?a = "snd (aes_encrypt_key128 key (aes ctx))"
  note ok = gcm_init_and_key_ok[OF assms(1), of key]
  have l: "length (concat (map (snd \<circ> snd) ds)) < 2 ^ 32" "length (concat (map snd hs)) < 2 ^ 32" using assms(3,4) by linarith+
  have at: "gcm_at iv (concat (map snd hs)) [] [] [] (header_pieces hs (snd (gcm_init_message iv ?k)))"
    "aes (header_pieces hs (snd (gcm_init_message iv ?k))) = ?a"
    using header_pieces_at[OF gcm_at_init(1)[OF ok(1) assms(2)], of hs] gcm_at_init(2)[OF ok(1) assms(2)] ok(3) l(2) by simp_all
  have c: "gcm_at iv (concat (map snd hs)) (concat (map (snd \<circ> snd) ds)) c c ctx'" "aes ctx' = ?a"
    "length c = length (concat (map (snd \<circ> snd) ds))"
    using encrypt_pieces_at[OF at(1) _ refl assms(6)] l(1) at(2) by simp_all
  note spec = gcm_keyed_spec[OF gcm_keyed_init[OF assms(1), of key], of ctx', unfolded ok(3), OF c(2)]
  have "c = gcm_cipher (aes128 key) iv (concat (map (snd \<circ> snd) ds))"
    using gcm_at_lengths(7)[OF c(1)] spec(1) by simp
  then show ?thesis
    using gcm_at_tag[OF c(1) c(3)[symmetric] l(2) _ assms(5)] c(3) assms(4) spec(2) by auto
qed

theorem gcm_pieces_are_one_message_witness:
  "fst (encrypt_pieces [(True, False, [1, 2, 3]), (False, True, replicate 40 4)] (header_pieces [(True, [1]), (False, [2])]
      (snd (gcm_init_message (replicate 12 7) (snd (gcm_init_and_key (replicate 16 9) fresh_gcm)))))) =
    gcm_cipher (aes128 (replicate 16 9)) (replicate 12 7) (concat (map (snd \<circ> snd) [(True, False, [1, 2, 3]), (False, True, replicate 40 4)]))"
proof -
  let ?r = "encrypt_pieces [(True, False, [1, 2, 3]), (False, True, replicate 40 4)] (header_pieces [(True, [1]), (False, [2])]
      (snd (gcm_init_message (replicate 12 7) (snd (gcm_init_and_key (replicate 16 9) fresh_gcm)))))"
  show ?thesis
    by (rule gcm_pieces_are_one_message[OF fresh_gcm_shape _ _ _ _ prod.collapse[of ?r, symmetric], of 12, THEN conjunct1]) simp_all
qed

text \<open>
  \<^verbatim>\<open>gcm_compute_tag\<close> refuses, without touching tag or context, a message of which a different non-zero number of
  bytes was encrypted than authenticated; when nothing was encrypted it computes the tag and returns a warning
  unless nothing was authenticated either.
\<close>

theorem gcm_compute_tag_codes:
  "(txt_acnt ctx \<noteq> txt_ccnt ctx \<and> txt_ccnt ctx \<noteq> 0 \<longrightarrow> gcm_compute_tag t ctx = (RETURN_ERROR, [], ctx)) \<and>
   (txt_ccnt ctx = 0 \<longrightarrow> fst (gcm_compute_tag t ctx) = (if txt_acnt ctx = 0 then RETURN_GOOD else RETURN_WARN)) \<and>
   (txt_acnt ctx = txt_ccnt ctx \<longrightarrow> fst (gcm_compute_tag t ctx) = RETURN_GOOD)"
  by (auto simp: gcm_compute_tag_def Let_def word_gt_0)

theorem gcm_compute_tag_codes_witness:
  "gcm_compute_tag 12 (fresh_gcm\<lparr>txt_ccnt := 3\<rparr>) = (RETURN_ERROR, [], fresh_gcm\<lparr>txt_ccnt := 3\<rparr>)"
  using gcm_compute_tag_codes[of "fresh_gcm\<lparr>txt_ccnt := 3\<rparr>" 12] by (simp add: fresh_gcm_def gcm_end_def)

end
