(* ===== verification/Sha512.thy ===== *)
theory Sha512
  imports Prelude
begin

text \<open>
  The reference SHA-512 of \<^verbatim>\<open>GEC-block/include/ed25519-hash.h\<close> (the branch \<^verbatim>\<open>ED25519_REFHASH\<close>, which \<^verbatim>\<open>gec.h\<close> selects): the state,
  the compression loop and the incremental interface.  Lengths are those of the lists, so \<^verbatim>\<open>inlen\<close> is at most \<^verbatim>\<open>SIZE_MAX\<close>.
\<close>

abbreviation (input) HASH_BLOCK_SIZE :: nat where "HASH_BLOCK_SIZE \<equiv> 128"

record sha512_state =
  sha_H :: "u64 list"
  sha_T :: "u64 list"
  sha_leftover :: u32
  sha_buffer :: bytes

definition sha512_constants :: "u64 list" where
  "sha512_constants =
    concat [
      [0x428a2f98d728ae22, 0x7137449123ef65cd, 0xb5c0fbcfec4d3b2f, 0xe9b5dba58189dbbc],
      [0x3956c25bf348b538, 0x59f111f1b605d019, 0x923f82a4af194f9b, 0xab1c5ed5da6d8118],
      [0xd807aa98a3030242, 0x12835b0145706fbe, 0x243185be4ee4b28c, 0x550c7dc3d5ffb4e2],
      [0x72be5d74f27b896f, 0x80deb1fe3b1696b1, 0x9bdc06a725c71235, 0xc19bf174cf692694],
      [0xe49b69c19ef14ad2, 0xefbe4786384f25e3, 0x0fc19dc68b8cd5b5, 0x240ca1cc77ac9c65],
      [0x2de92c6f592b0275, 0x4a7484aa6ea6e483, 0x5cb0a9dcbd41fbd4, 0x76f988da831153b5],
      [0x983e5152ee66dfab, 0xa831c66d2db43210, 0xb00327c898fb213f, 0xbf597fc7beef0ee4],
      [0xc6e00bf33da88fc2, 0xd5a79147930aa725, 0x06ca6351e003826f, 0x142929670a0e6e70],
      [0x27b70a8546d22ffc, 0x2e1b21385c26c926, 0x4d2c6dfc5ac42aed, 0x53380d139d95b3df],
      [0x650a73548baf63de, 0x766a0abb3c77b2a8, 0x81c2c92e47edaee6, 0x92722c851482353b],
      [0xa2bfe8a14cf10364, 0xa81a664bbc423001, 0xc24b8b70d0f89791, 0xc76c51a30654be30],
      [0xd192e819d6ef5218, 0xd69906245565a910, 0xf40e35855771202a, 0x106aa07032bbd1b8],
      [0x19a4c116b8d2d0c8, 0x1e376c085141ab53, 0x2748774cdf8eeb99, 0x34b0bcb5e19b48a8],
      [0x391c0cb3c5c95a63, 0x4ed8aa4ae3418acb, 0x5b9cca4f7763e373, 0x682e6ff3d6b2b8a3],
      [0x748f82ee5defb2fc, 0x78a5636f43172f60, 0x84c87814a1f0ab72, 0x8cc702081a6439ec],
      [0x90befffa23631e28, 0xa4506cebde82bde9, 0xbef9a3f7b2c67915, 0xc67178f2e372532b],
      [0xca273eceea26619c, 0xd186b8c721c0c207, 0xeada7dd6cde0eb1e, 0xf57d4f7fee6ed178],
      [0x06f067aa72176fba, 0x0a637dc5a2c898a6, 0x113f9804bef90dae, 0x1b710b35131c471b],
      [0x28db77f523047d84, 0x32caab7b40c72493, 0x3c9ebe0a15c9bebc, 0x431d67c49c100d4c],
      [0x4cc5d4becb3e42b6, 0x597f299cfc657e2a, 0x5fcb6fab3ad6faec, 0x6c44198c4a475817]]"

definition sha512_ROTR64 :: "u64 \<Rightarrow> nat \<Rightarrow> u64" where
  "sha512_ROTR64 x k = drop_bit k x OR push_bit (64 - k) x"

definition sha512_LOAD64_BE :: "bytes \<Rightarrow> nat \<Rightarrow> u64" where
  "sha512_LOAD64_BE p off =
     push_bit 56 (ucast (p ! off)) OR push_bit 48 (ucast (p ! (off + 1))) OR push_bit 40 (ucast (p ! (off + 2))) OR
     push_bit 32 (ucast (p ! (off + 3))) OR push_bit 24 (ucast (p ! (off + 4))) OR push_bit 16 (ucast (p ! (off + 5))) OR
     push_bit 8 (ucast (p ! (off + 6))) OR ucast (p ! (off + 7))"

definition sha512_STORE64_BE :: "bytes \<Rightarrow> nat \<Rightarrow> u64 \<Rightarrow> bytes" where
  "sha512_STORE64_BE p off v = memcpy p off [ucast (drop_bit 56 v), ucast (drop_bit 48 v), ucast (drop_bit 40 v), ucast (drop_bit 32 v),
     ucast (drop_bit 24 v), ucast (drop_bit 16 v), ucast (drop_bit 8 v), ucast v]"

section \<open>The compression loop\<close>

definition ED25519_Ch :: "u64 \<Rightarrow> u64 \<Rightarrow> u64 \<Rightarrow> u64" where
  "ED25519_Ch x y z = z XOR (x AND (y XOR z))"

definition ED25519_Maj :: "u64 \<Rightarrow> u64 \<Rightarrow> u64 \<Rightarrow> u64" where
  "ED25519_Maj x y z = ((x OR y) AND z) OR (x AND y)"

definition sha_S0 :: "u64 \<Rightarrow> u64" where
  "sha_S0 x = sha512_ROTR64 x 28 XOR sha512_ROTR64 x 34 XOR sha512_ROTR64 x 39"

definition sha_S1 :: "u64 \<Rightarrow> u64" where
  "sha_S1 x = sha512_ROTR64 x 14 XOR sha512_ROTR64 x 18 XOR sha512_ROTR64 x 41"

definition sha_G0 :: "u64 \<Rightarrow> u64" where
  "sha_G0 x = sha512_ROTR64 x 1 XOR sha512_ROTR64 x 8 XOR drop_bit 7 x"

definition sha_G1 :: "u64 \<Rightarrow> u64" where
  "sha_G1 x = sha512_ROTR64 x 19 XOR sha512_ROTR64 x 61 XOR drop_bit 6 x"

definition sha_W0 :: "bytes \<Rightarrow> nat \<Rightarrow> u64" where
  "sha_W0 inp i = sha512_LOAD64_BE inp (i * 8)"

definition sha_W1 :: "u64 list \<Rightarrow> nat \<Rightarrow> u64" where
  "sha_W1 w i = sha_G1 (w ! (i - 2)) + w ! (i - 7) + sha_G0 (w ! (i - 15)) + w ! (i - 16)"

definition sha_STEP :: "u64 list \<Rightarrow> nat \<Rightarrow> u64 list \<Rightarrow> u64 list" where
  "sha_STEP w i r =
     (let t1 = sha_S0 (r ! 0) + ED25519_Maj (r ! 0) (r ! 1) (r ! 2);
          t0 = r ! 7 + sha_S1 (r ! 4) + ED25519_Ch (r ! 4) (r ! 5) (r ! 6) + sha512_constants ! i + w ! i;
          r = r[7 := r ! 6];
          r = r[6 := r ! 5];
          r = r[5 := r ! 4];
          r = r[4 := r ! 3 + t0];
          r = r[3 := r ! 2];
          r = r[2 := r ! 1];
          r = r[1 := r ! 0]
      in r[0 := t0 + t1])"

text \<open>The array \<^verbatim>\<open>w\<close>, every element of which is written before it is read, and one turn of the loop over the blocks.\<close>

definition sha_schedule :: "bytes \<Rightarrow> u64 list" where
  "sha_schedule inp =
     fold (\<lambda>i w. w[i := sha_W1 w i]) [16..<80] (fold (\<lambda>i w. w[i := sha_W0 inp i]) [0..<16] (replicate 80 0))"

definition sha_block :: "bytes \<Rightarrow> u64 list \<times> sha512_state \<Rightarrow> u64 list \<times> sha512_state" where
  "sha_block inp s =
     (case s of (r, S) \<Rightarrow>
        let r = fold (sha_STEP (sha_schedule inp)) [0..<80] r;
            (r, S) = fold (\<lambda>i (r, S). let r = r[i := r ! i + sha_H S ! i] in (r, S\<lparr>sha_H := (sha_H S)[i := r ! i]\<rparr>)) [0..<8] (r, S);
            S = S\<lparr>sha_T := (sha_T S)[0 := sha_T S ! 0 + word_of_nat (HASH_BLOCK_SIZE * 8)]\<rparr>
        in (r, S\<lparr>sha_T := (sha_T S)[1 := sha_T S ! 1 + (if sha_T S ! 0 = 0 then 1 else 0)]\<rparr>))"

primrec sha_blocks_loop :: "nat \<Rightarrow> bytes \<Rightarrow> u64 list \<times> sha512_state \<Rightarrow> u64 list \<times> sha512_state" where
  "sha_blocks_loop 0 inp s = s"
| "sha_blocks_loop (Suc blocks) inp s = sha_blocks_loop blocks (drop HASH_BLOCK_SIZE inp) (sha_block inp s)"

definition sha512_blocks :: "sha512_state \<Rightarrow> bytes \<Rightarrow> nat \<Rightarrow> sha512_state" where
  "sha512_blocks S inp blocks = snd (sha_blocks_loop blocks inp (map (\<lambda>i. sha_H S ! i) [0..<8], S))"

section \<open>The incremental interface\<close>

definition ed25519_hash_init :: "sha512_state \<Rightarrow> sha512_state" where
  "ed25519_hash_init S = S\<lparr>
     sha_H := [0x6a09e667f3bcc908, 0xbb67ae8584caa73b, 0x3c6ef372fe94f82b, 0xa54ff53a5f1d36f1,
       0x510e527fade682d1, 0x9b05688c2b3e6c1f, 0x1f83d9abfb41bd6b, 0x5be0cd19137e2179],
     sha_T := [0, 0],
     sha_leftover := 0\<rparr>"

definition hash_update_blocks :: "sha512_state \<Rightarrow> bytes \<Rightarrow> sha512_state" where
  "hash_update_blocks S inp =
     (let blocks = HASH_BLOCK_SIZE * (length inp div HASH_BLOCK_SIZE);
          S = S\<lparr>sha_leftover := word_of_nat (length inp - blocks)\<rparr>;
          (S, inp) = (if blocks \<noteq> 0 then (sha512_blocks S inp (blocks div HASH_BLOCK_SIZE), drop blocks inp) else (S, inp))
      in if sha_leftover S \<noteq> 0 then S\<lparr>sha_buffer := memcpy (sha_buffer S) 0 (take (unat (sha_leftover S)) inp)\<rparr> else S)"

definition ed25519_hash_update :: "sha512_state \<Rightarrow> bytes \<Rightarrow> sha512_state" where
  "ed25519_hash_update S inp =
     (if sha_leftover S \<noteq> 0
      then let want = HASH_BLOCK_SIZE - unat (sha_leftover S);
               want = (if want < length inp then want else length inp);
               S = S\<lparr>sha_buffer := memcpy (sha_buffer S) (unat (sha_leftover S)) (take want inp), sha_leftover := sha_leftover S + word_of_nat want\<rparr>
           in if unat (sha_leftover S) < HASH_BLOCK_SIZE then S
              else hash_update_blocks (sha512_blocks S (sha_buffer S) 1) (drop want inp)
      else hash_update_blocks S inp)"

definition ed25519_hash_final :: "sha512_state \<Rightarrow> bytes \<Rightarrow> sha512_state \<times> bytes" where
  "ed25519_hash_final S hash =
     (let t0 = sha_T S ! 0 + ucast (sha_leftover S * 8);
          t1 = sha_T S ! 1;
          n = unat (sha_leftover S);
          S = S\<lparr>sha_buffer := (sha_buffer S)[n := 0x80]\<rparr>;
          S = (if n \<le> 111 then S\<lparr>sha_buffer := memset (sha_buffer S) (n + 1) 0 (111 - n)\<rparr>
               else let S = S\<lparr>sha_buffer := memset (sha_buffer S) (n + 1) 0 (127 - n)\<rparr>;
                        S = sha512_blocks S (sha_buffer S) 1
                    in S\<lparr>sha_buffer := memset (sha_buffer S) 0 0 112\<rparr>);
          S = S\<lparr>sha_buffer := sha512_STORE64_BE (sha_buffer S) 112 t1\<rparr>;
          S = S\<lparr>sha_buffer := sha512_STORE64_BE (sha_buffer S) 120 t0\<rparr>;
          S = sha512_blocks S (sha_buffer S) 1
      in (S, fold (\<lambda>i hash. sha512_STORE64_BE hash (8 * i) (sha_H S ! i)) [0..<8] hash))"

text \<open>The local context is uninitialised; \<open>ctx\<close> is what it holds.\<close>

definition ed25519_hash_ctx :: "sha512_state \<Rightarrow> bytes \<Rightarrow> bytes \<Rightarrow> bytes" where
  "ed25519_hash_ctx ctx hash inp = snd (ed25519_hash_final (ed25519_hash_update (ed25519_hash_init ctx) inp) hash)"

text \<open>\<^verbatim>\<open>ed25519_hash\<close> as its callers see it; the digest does not depend on the local context (lemma \<open>ed25519_hash_ctx_eq\<close>).\<close>

definition ed25519_hash :: "bytes \<Rightarrow> bytes" where
  "ed25519_hash inp = ed25519_hash_ctx \<lparr>sha_H = replicate 8 0, sha_T = [0, 0], sha_leftover = 0, sha_buffer = replicate 128 0\<rparr> (replicate 64 0) inp"

end
