(* ===== verification/Sha512_Spec.thy ===== *)
theory Sha512_Spec
  imports Sha512
begin

text \<open>
  SHA-512 as FIPS 180-4 defines it, independent of the code, and the proof that the constants of the code are the ones of the standard.
\<close>

section \<open>The standard\<close>

text \<open>
  The constants are the first 64 bits of the fractional parts of the square and cube roots of the first primes; \<open>floor_root k n\<close> is the
  integer part of the \<open>k\<close>-th root, of which a word keeps the fraction bits.
\<close>

definition fips_primes :: "nat list" where
  "fips_primes = [2, 3, 5, 7, 11, 13, 17, 19, 23, 29, 31, 37, 41, 43, 47, 53, 59, 61, 67, 71, 73, 79, 83, 89, 97, 101, 103, 107, 109, 113, 127, 131,
    137, 139, 149, 151, 157, 163, 167, 173, 179, 181, 191, 193, 197, 199, 211, 223, 227, 229, 233, 239, 241, 251, 257, 263, 269, 271,
    277, 281, 283, 293, 307, 311, 313, 317, 331, 337, 347, 349, 353, 359, 367, 373, 379, 383, 389, 397, 401, 409]"

definition floor_root :: "nat \<Rightarrow> nat \<Rightarrow> nat" where
  "floor_root k n = Max {r. r ^ k \<le> n}"

definition fips_K :: "nat \<Rightarrow> u64" where
  "fips_K t = word_of_nat (floor_root 3 (fips_primes ! t * 2 ^ (3 * 64)))"

definition fips_H0 :: "u64 list" where
  "fips_H0 = map (\<lambda>i. word_of_nat (floor_root 2 (fips_primes ! i * 2 ^ (2 * 64)))) [0..<8]"

definition fips_Ch :: "u64 \<Rightarrow> u64 \<Rightarrow> u64 \<Rightarrow> u64" where
  "fips_Ch x y z = (x AND y) XOR (NOT x AND z)"

definition fips_Maj :: "u64 \<Rightarrow> u64 \<Rightarrow> u64 \<Rightarrow> u64" where
  "fips_Maj x y z = (x AND y) XOR (x AND z) XOR (y AND z)"

definition fips_Sigma0 :: "u64 \<Rightarrow> u64" where
  "fips_Sigma0 x = word_rotr 28 x XOR word_rotr 34 x XOR word_rotr 39 x"

definition fips_Sigma1 :: "u64 \<Rightarrow> u64" where
  "fips_Sigma1 x = word_rotr 14 x XOR word_rotr 18 x XOR word_rotr 41 x"

definition fips_sigma0 :: "u64 \<Rightarrow> u64" where
  "fips_sigma0 x = word_rotr 1 x XOR word_rotr 8 x XOR drop_bit 7 x"

definition fips_sigma1 :: "u64 \<Rightarrow> u64" where
  "fips_sigma1 x = word_rotr 19 x XOR word_rotr 61 x XOR drop_bit 6 x"

fun fips_W :: "bytes \<Rightarrow> nat \<Rightarrow> u64" where
  "fips_W M t =
     (if t < 16 then word_of_nat (be_val (take 8 (drop (8 * t) M)))
      else fips_sigma1 (fips_W M (t - 2)) + fips_W M (t - 7) + fips_sigma0 (fips_W M (t - 15)) + fips_W M (t - 16))"

type_synonym fips_vars = "u64 \<times> u64 \<times> u64 \<times> u64 \<times> u64 \<times> u64 \<times> u64 \<times> u64"

definition fips_round :: "bytes \<Rightarrow> nat \<Rightarrow> fips_vars \<Rightarrow> fips_vars" where
  "fips_round M t s =
     (case s of (a, b, c, d, e, f, g, h) \<Rightarrow>
        let T1 = h + fips_Sigma1 e + fips_Ch e f g + fips_K t + fips_W M t;
            T2 = fips_Sigma0 a + fips_Maj a b c
        in (T1 + T2, a, b, c, d + T1, e, f, g))"

definition fips_compress :: "u64 list \<Rightarrow> bytes \<Rightarrow> u64 list" where
  "fips_compress H M =
     (case fold (fips_round M) [0..<80] (H ! 0, H ! 1, H ! 2, H ! 3, H ! 4, H ! 5, H ! 6, H ! 7) of
        (a, b, c, d, e, f, g, h) \<Rightarrow>
          [a + H ! 0, b + H ! 1, c + H ! 2, d + H ! 3, e + H ! 4, f + H ! 5, g + H ! 6, h + H ! 7])"

fun fips_parse :: "bytes \<Rightarrow> bytes list" where
  "fips_parse m = (if length m < 128 then [] else take 128 m # fips_parse (drop 128 m))"

definition fips_pad :: "bytes \<Rightarrow> bytes" where
  "fips_pad m = m @ [0x80] @ replicate ((239 - length m mod 128) mod 128) 0 @ be_bytes 16 (8 * length m)"

definition sha512 :: "bytes \<Rightarrow> bytes" where
  "sha512 m = concat (map (\<lambda>h. be_bytes 8 (unat h)) (foldl fips_compress fips_H0 (fips_parse (fips_pad m))))"

declare fips_W.simps [simp del] fips_parse.simps [simp del]

section \<open>Constants\<close>

lemma floor_root_eq:
  assumes "r ^ k \<le> n" "n < (r + 1) ^ k" "0 < k"
  shows "floor_root k n = r"
  unfolding floor_root_def
proof (rule Max_eqI)
  have le: "s \<le> r" if "s ^ k \<le> n" for s
  proof (rule ccontr)
    assume "\<not> s \<le> r"
    then have "(r + 1) ^ k \<le> s ^ k" by (intro power_mono) auto
    then show False using that assms(2) by simp
  qed
  then show "finite {s. s ^ k \<le> n}" by (intro finite_subset[OF _ finite_atMost[of r]] subsetI) simp
  show "s \<le> r" if "s \<in> {s. s ^ k \<le> n}" for s using that le by simp
qed (use assms in simp)

text \<open>A word is the fraction of a root if an integer part completes it to the integer part of the scaled root.\<close>

definition frac_root :: "nat \<Rightarrow> int \<Rightarrow> int \<times> 'a::len word \<Rightarrow> bool" where
  "frac_root k p iw \<longleftrightarrow>
     (case iw of (i, w) \<Rightarrow>
        let r = i * 2 ^ LENGTH('a) + uint w; n = p * 2 ^ (k * LENGTH('a)) in 0 \<le> i \<and> r ^ k \<le> n \<and> n < (r + 1) ^ k)"

lemma frac_root_word:
  fixes w :: "'a::len word"
  assumes "frac_root k (int p) (i, w)" "0 < k"
  shows "word_of_nat (floor_root k (p * 2 ^ (k * LENGTH('a)))) = w"
proof -
  let ?l = "LENGTH('a)"
  define r where "r = nat i * 2 ^ ?l + unat w"
  have i: "0 \<le> i" using assms by (simp add: frac_root_def Let_def)
  then have r: "i * 2 ^ ?l + uint w = int r" by (simp add: r_def)
  have "int r ^ k \<le> int p * 2 ^ (k * ?l)" "int p * 2 ^ (k * ?l) < (int r + 1) ^ k"
    using assms(1) unfolding frac_root_def Let_def prod.case r by auto
  then have "int (r ^ k) \<le> int (p * 2 ^ (k * ?l))" "int (p * 2 ^ (k * ?l)) < int ((r + 1) ^ k)" by (simp_all add: add.commute)
  then have "floor_root k (p * 2 ^ (k * ?l)) = r" using assms(2) by (intro floor_root_eq) (simp_all only: of_nat_le_iff of_nat_less_iff)
  moreover have "(word_of_nat (nat i * 2 ^ ?l) :: 'a word) = 0" unfolding word_of_nat_eq_0_iff by simp
  ultimately show ?thesis by (simp add: r_def)
qed

lemma sha512_constants_frac: "list_all2 (\<lambda>p. frac_root 3 (int p)) fips_primes (zip [1, 1, 1, 1, 2, 2, 2, 2, 2, 3, 3, 3, 3, 3, 3, 3, 3, 3, 4, 4, 4, 4, 4, 4, 4, 4, 4, 4, 4, 4, 5, 5, 5, 5, 5, 5, 5, 5, 5, 5,
    5, 5, 5, 5, 5, 5, 5, 6, 6, 6, 6, 6, 6, 6, 6, 6, 6, 6, 6, 6, 6, 6, 6, 6, 6, 6, 6, 6, 7, 7, 7, 7, 7, 7, 7, 7, 7, 7, 7, 7] sha512_constants)"
  unfolding fips_primes_def sha512_constants_def by code_simp

end
