(* ===== verification/Sha512_Correct.thy ===== *)
theory Sha512_Correct
  imports Sha512_Spec
begin

text \<open>
  The incremental hash of \<^verbatim>\<open>ed25519-hash.h\<close> computes SHA-512 of FIPS 180-4: the word functions, the message schedule and the rounds of one block,
  sequences of blocks with the 128-bit count, messages taken in in pieces, and the padding.
\<close>

section \<open>Words\<close>

lemma sha512_ROTR64_eq: "0 < k \<Longrightarrow> k < 64 \<Longrightarrow> sha512_ROTR64 x k = word_rotr k x"
  using shifts_rotr[of k x] by (simp add: sha512_ROTR64_def)

lemma sha_functions_eq:
  "sha_S0 x = fips_Sigma0 x" "sha_S1 x = fips_Sigma1 x" "sha_G0 x = fips_sigma0 x" "sha_G1 x = fips_sigma1 x"
  by (simp_all add: sha_S0_def sha_S1_def sha_G0_def sha_G1_def fips_Sigma0_def fips_Sigma1_def fips_sigma0_def fips_sigma1_def sha512_ROTR64_eq)

lemma sha_choice_eq: "ED25519_Ch x y z = fips_Ch x y z" "ED25519_Maj x y z = fips_Maj x y z"
  by (rule bit_word_eqI, auto simp: ED25519_Ch_def fips_Ch_def ED25519_Maj_def fips_Maj_def bit_simps)+

lemma sha512_constants_eq: "i < 80 \<Longrightarrow> sha512_constants ! i = fips_K i"
  using frac_root_word[of 3 "fips_primes ! i" _ "sha512_constants ! i"] list_all2_nthD[OF sha512_constants_frac, of i]
  by (simp add: fips_K_def fips_primes_def[THEN arg_cong[where f = length]] sha512_constants_def[THEN arg_cong[where f = length]])

lemma list8: "length p = 8 \<Longrightarrow> p = [p ! 0, p ! 1, p ! 2, p ! 3, p ! 4, p ! 5, p ! 6, p ! 7]"
  by (rule nth_equalityI) (auto simp: less_Suc_eq numeral_eq_Suc)

lemma LOAD_be_val:
  assumes "off + 8 \<le> length p"
  shows "sha512_LOAD64_BE p off = word_of_nat (be_val (take 8 (drop off p)))"
proof -
  define q where "q = take 8 (drop off p)"
  have n: "p ! (off + i) = q ! i" if "i < 8" for i using that assms by (simp add: q_def)
  have "length q = 8" using assms by (simp add: q_def)
  note q = list8[OF this]
  have v: "be_val q = ((((((unat (q ! 0) * 256 + unat (q ! 1)) * 256 + unat (q ! 2)) * 256 + unat (q ! 3)) * 256 + unat (q ! 4)) * 256 +
      unat (q ! 5)) * 256 + unat (q ! 6)) * 256 + unat (q ! 7)"
    by (subst q) (simp add: be_val_def)
  have "sha512_LOAD64_BE p off = push_bit 8 (push_bit 8 (push_bit 8 (push_bit 8 (push_bit 8 (push_bit 8 (push_bit 8 (ucast (q ! 0)) OR ucast (q ! 1))
      OR ucast (q ! 2)) OR ucast (q ! 3)) OR ucast (q ! 4)) OR ucast (q ! 5)) OR ucast (q ! 6)) OR ucast (q ! 7)"
    using n[of 0] n[of 1] n[of 2] n[of 3] n[of 4] n[of 5] n[of 6] n[of 7] by (simp add: sha512_LOAD64_BE_def push_bit_or or.assoc)
  then show ?thesis using v by (simp only: push_byte_or q_def[symmetric]) (simp add: word_of_nat_unat)
qed

lemma STORE_be_bytes: "sha512_STORE64_BE p off v = memcpy p off (be_bytes 8 (unat v))"
proof -
  have "be_bytes 8 (unat v) = [ucast (drop_bit 56 v), ucast (drop_bit 48 v), ucast (drop_bit 40 v), ucast (drop_bit 32 v),
     ucast (drop_bit 24 v), ucast (drop_bit 16 v), ucast (drop_bit 8 v), ucast v]"
    using ucast_drop_byte[of 7 v] ucast_drop_byte[of 6 v] ucast_drop_byte[of 5 v] ucast_drop_byte[of 4 v] ucast_drop_byte[of 3 v]
      ucast_drop_byte[of 2 v] ucast_drop_byte[of 1 v] ucast_drop_byte[of 0 v]
    by (simp add: be_bytes_def upt_rec)
  then show ?thesis by (simp add: sha512_STORE64_BE_def)
qed

section \<open>One block\<close>

lemma sha_schedule_first:
  assumes "n \<le> 16" "128 \<le> length M"
  shows "length (fold (\<lambda>i w. w[i := sha_W0 M i]) [0..<n] (replicate 80 0)) = 80 \<and>
    (\<forall>i < n. fold (\<lambda>i w. w[i := sha_W0 M i]) [0..<n] (replicate 80 0) ! i = fips_W M i)"
  using assms(1)
proof (induction n)
  case (Suc n)
  have "sha_W0 M n = fips_W M n" using Suc.prems assms(2) by (simp add: sha_W0_def LOAD_be_val fips_W.simps[of M n] mult.commute)
  then show ?case using Suc by (auto simp: less_Suc_eq)
qed simp

lemma sha_schedule_rest:
  assumes "16 \<le> n" "n \<le> 80" "128 \<le> length M"
  defines "w \<equiv> fold (\<lambda>i w. w[i := sha_W1 w i]) [16..<n] (fold (\<lambda>i w. w[i := sha_W0 M i]) [0..<16] (replicate 80 0))"
  shows "length w = 80 \<and> (\<forall>i < n. w ! i = fips_W M i)"
  using assms(1,2) unfolding w_def
proof (induction n rule: dec_induct)
  case base
  then show ?case using sha_schedule_first[of 16 M] assms(3) by simp
next
  case (step n)
  let ?w = "fold (\<lambda>i w. w[i := sha_W1 w i]) [16..<n] (fold (\<lambda>i w. w[i := sha_W0 M i]) [0..<16] (replicate 80 0))"
  have ih: "length ?w = 80" "\<forall>i < n. ?w ! i = fips_W M i" using step by auto
  have "sha_W1 ?w n = fips_W M n" using ih step.hyps by (simp add: sha_W1_def sha_functions_eq fips_W.simps[of M n])
  then show ?case using ih step.hyps step.prems by (auto simp: less_Suc_eq)
qed

lemma sha_schedule_eq: "128 \<le> length M \<Longrightarrow> t < 80 \<Longrightarrow> sha_schedule M ! t = fips_W M t"
  using sha_schedule_rest[of 80 M] unfolding sha_schedule_def by (meson le_refl numeral_le_iff semiring_norm(68,70,71,72,78))

definition vars_list :: "fips_vars \<Rightarrow> u64 list" where
  "vars_list s = (case s of (a, b, c, d, e, f, g, h) \<Rightarrow> [a, b, c, d, e, f, g, h])"

lemma vars_cases [case_names vars]:
  obtains a b c d e f g h where "s = (a, b, c, d, e, f, g, h)"
  by (metis surj_pair)

lemma sha_STEP_eq: "128 \<le> length M \<Longrightarrow> t < 80 \<Longrightarrow> sha_STEP (sha_schedule M) t (vars_list s) = vars_list (fips_round M t s)"
  by (cases s rule: vars_cases) (simp add: sha_STEP_def vars_list_def fips_round_def Let_def sha_schedule_eq sha_functions_eq sha_choice_eq sha512_constants_eq ac_simps)

lemma sha_rounds_eq:
  "128 \<le> length M \<Longrightarrow> n \<le> 80 \<Longrightarrow> fold (sha_STEP (sha_schedule M)) [0..<n] (vars_list s) = vars_list (fold (fips_round M) [0..<n] s)"
  by (induction n) (simp_all add: sha_STEP_eq)

lemma fips_W_take: "fips_W (take 128 M) t = fips_W M t"
proof (induction t rule: less_induct)
  case (less t)
  have "take 8 (drop (8 * t) (take 128 M)) = take 8 (drop (8 * t) M)" if "t < 16" using that by (simp add: drop_take min_def)
  then show ?case using less by (subst (1 2) fips_W.simps) simp
qed

lemma fips_compress_take: "fips_compress H (take 128 M) = fips_compress H M"
proof -
  have "fips_round (take 128 M) = fips_round M" by (intro ext) (simp add: fips_round_def fips_W_take)
  then show ?thesis by (simp add: fips_compress_def)
qed

lemma length_fips_compress [simp]: "length (fips_compress H M) = 8"
  by (simp add: fips_compress_def split: prod.split)

lemma upt_0_8: "[0..<8] = [0, 1, 2, 3, 4, 5, 6, 7 :: nat]"
  by (simp add: upt_rec)

lemma sha_block_eq:
  assumes "128 \<le> length M" "length (sha_H S) = 8" "sha_T S = [t0, t1]"
  shows "sha_block M (sha_H S, S) = (fips_compress (sha_H S) M,
    S\<lparr>sha_H := fips_compress (sha_H S) M, sha_T := [t0 + 1024, t1 + (if t0 + 1024 = 0 then 1 else 0)]\<rparr>)"
proof -
  let ?H = "sha_H S"
  obtain a b c d e f g h where v: "fold (fips_round M) [0..<80] (?H ! 0, ?H ! 1, ?H ! 2, ?H ! 3, ?H ! 4, ?H ! 5, ?H ! 6, ?H ! 7) = (a, b, c, d, e, f, g, h)"
    by (rule vars_cases)
  have r: "fold (sha_STEP (sha_schedule M)) [0..<80] ?H = [a, b, c, d, e, f, g, h]"
    using sha_rounds_eq[OF assms(1), of 80 "(?H ! 0, ?H ! 1, ?H ! 2, ?H ! 3, ?H ! 4, ?H ! 5, ?H ! 6, ?H ! 7)"] list8[OF assms(2)] v
    by (simp add: vars_list_def)
  obtain H0 H1 H2 H3 H4 H5 H6 H7 where H: "?H = [H0, H1, H2, H3, H4, H5, H6, H7]" using list8[OF assms(2)] by blast
  have c: "fips_compress ?H M = [a + H0, b + H1, c + H2, d + H3, e + H4, f + H5, g + H6, h + H7]"
    using v by (simp add: fips_compress_def H)
  show ?thesis unfolding sha_block_def prod.case Let_def r c by (simp add: upt_0_8 H assms(3))
qed

section \<open>Sequences of blocks\<close>

definition sha_at :: "sha512_state \<Rightarrow> bytes \<Rightarrow> bool" where
  "sha_at S m \<longleftrightarrow> 128 dvd length m \<and> sha_H S = foldl fips_compress fips_H0 (fips_parse m) \<and>
     sha_T S = [word_of_nat (8 * length m), word_of_nat (8 * length m div 2 ^ 64)]"

lemma fips_parse_append: "128 dvd length a \<Longrightarrow> fips_parse (a @ b) = fips_parse a @ fips_parse b"
proof (induction a rule: fips_parse.induct)
  case (1 a)
  show ?case
  proof (cases "length a < 128")
    case True
    then have "a = []" using 1 by (auto dest: nat_dvd_not_less)
    then show ?thesis by (simp add: fips_parse.simps[of "[]"])
  next
    case False
    then have "fips_parse (drop 128 a @ b) = fips_parse (drop 128 a) @ fips_parse b" using 1 by (auto simp: dvd_minus_self)
    then show ?thesis using False by (simp add: fips_parse.simps[of "a @ b"] fips_parse.simps[of a])
  qed
qed

lemma fips_parse_block: "length b = 128 \<Longrightarrow> fips_parse b = [b]"
  by (simp add: fips_parse.simps[of b] fips_parse.simps[of "[]"])

lemma length_fips_fold: "length H = 8 \<Longrightarrow> length (foldl fips_compress H bs) = 8"
  by (induction bs arbitrary: H) simp_all

lemma length_sha_H: "sha_at S m \<Longrightarrow> length (sha_H S) = 8"
  by (simp add: sha_at_def length_fips_fold fips_H0_def)

lemma sha_count:
  assumes "128 dvd n"
  shows "[word_of_nat (8 * n) + 1024, word_of_nat (8 * n div 2 ^ 64) + (if word_of_nat (8 * n) + 1024 = (0 :: u64) then 1 else 0)] =
    [word_of_nat (8 * (n + 128)) :: u64, word_of_nat (8 * (n + 128) div 2 ^ 64)]"
proof -
  obtain q where q: "n = 128 * q" using assms by blast
  have t: "(word_of_nat (8 * n) + 1024 :: u64) = word_of_nat (8 * (n + 128))" by simp
  have "8 * (n + 128) = 2 ^ 10 * Suc q" by (simp add: q)
  moreover have "(2 :: nat) ^ LENGTH(64) = 2 ^ 10 * 2 ^ 54" by simp
  ultimately have z: "word_of_nat (8 * n) + 1024 = (0 :: u64) \<longleftrightarrow> Suc q mod 2 ^ 54 = 0"
    by (simp only: t word_of_nat_eq_0_iff mod_eq_0_iff_dvd dvd_times_left_cancel_iff zero_neq_numeral[symmetric] power_eq_0_iff simp_thms not_False_eq_True)
  have d: "8 * (128 * x) div 2 ^ 64 = x div 2 ^ 54" for x :: nat
    using div_mult_mult1[of "1024 :: nat" x "2 ^ 54"] by simp
  have "8 * (n + 128) = 8 * (128 * Suc q)" by (simp add: q)
  then have e: "8 * (n + 128) div 2 ^ 64 = Suc q div 2 ^ 54" "8 * n div 2 ^ 64 = q div 2 ^ 54" using d by (simp_all only: q)
  show ?thesis unfolding z e unfolding t by (simp add: div_Suc)
qed

lemma sha_at_block:
  assumes "sha_at S m" "128 \<le> length M"
  shows "\<exists>S'. sha_block M (sha_H S, S) = (sha_H S', S') \<and> sha_at S' (m @ take 128 M) \<and> sha_leftover S' = sha_leftover S \<and> sha_buffer S' = sha_buffer S"
proof -
  let ?n = "length m"
  have T: "sha_T S = [word_of_nat (8 * ?n), word_of_nat (8 * ?n div 2 ^ 64)]" "128 dvd ?n" using assms(1) by (simp_all add: sha_at_def)
  let ?S = "S\<lparr>sha_H := fips_compress (sha_H S) M, sha_T := [word_of_nat (8 * (?n + 128)), word_of_nat (8 * (?n + 128) div 2 ^ 64)]\<rparr>"
  have "fips_parse (m @ take 128 M) = fips_parse m @ [take 128 M]" using assms(2) T(2) by (simp add: fips_parse_append fips_parse_block)
  then have "sha_at ?S (m @ take 128 M)" using assms T(2) by (simp add: sha_at_def fips_compress_take min_absorb2)
  moreover have "sha_block M (sha_H S, S) = (sha_H ?S, ?S)"
    using sha_block_eq[OF assms(2) length_sha_H[OF assms(1)] T(1)] unfolding sha_count[OF T(2)] by simp
  ultimately show ?thesis by (intro exI[of _ ?S]) simp
qed

lemma sha_blocks_loop_at:
  assumes "sha_at S m" "128 * n \<le> length M"
  shows "\<exists>S'. sha_blocks_loop n M (sha_H S, S) = (sha_H S', S') \<and> sha_at S' (m @ take (128 * n) M) \<and> sha_leftover S' = sha_leftover S \<and> sha_buffer S' = sha_buffer S"
  using assms
proof (induction n arbitrary: S m M)
  case (Suc n)
  from sha_at_block[OF Suc.prems(1), of M] Suc.prems(2)
  obtain S1 where S1: "sha_block M (sha_H S, S) = (sha_H S1, S1)" "sha_at S1 (m @ take 128 M)"
    "sha_leftover S1 = sha_leftover S" "sha_buffer S1 = sha_buffer S" by auto
  have "take (128 * Suc n) M = take 128 M @ take (128 * n) (drop 128 M)" by (simp add: take_add)
  then show ?case using Suc.IH[OF S1(2), of "drop 128 M"] Suc.prems(2) S1 by auto
qed auto

lemma sha512_blocks_at:
  assumes "sha_at S m" "128 * n \<le> length M"
  shows "sha_at (sha512_blocks S M n) (m @ take (128 * n) M) \<and> sha_leftover (sha512_blocks S M n) = sha_leftover S \<and>
    sha_buffer (sha512_blocks S M n) = sha_buffer S"
proof -
  have "map (\<lambda>i. sha_H S ! i) [0..<8] = sha_H S" using length_sha_H[OF assms(1)] by (metis map_nth)
  then show ?thesis using sha_blocks_loop_at[OF assms] by (auto simp: sha512_blocks_def)
qed

section \<open>Messages in pieces\<close>

text \<open>A state that has taken in the message \<open>m\<close>: whole blocks are hashed, the rest is in the buffer.\<close>

definition absorbed :: "sha512_state \<Rightarrow> bytes \<Rightarrow> bool" where
  "absorbed S m \<longleftrightarrow> (\<exists>a b. m = a @ b \<and> sha_at S a \<and> length b < 128 \<and> length (sha_buffer S) = 128 \<and>
     take (length b) (sha_buffer S) = b \<and> sha_leftover S = word_of_nat (length b))"

lemma unat_word32: "n < 2 ^ 32 \<Longrightarrow> unat (word_of_nat n :: u32) = n"
  by (simp add: unsigned_of_nat take_bit_nat_eq_self)

lemma sha_H0_frac: "list_all2 (\<lambda>p. frac_root 2 (int p)) (take 8 fips_primes) (zip [1, 1, 2, 2, 3, 3, 4, 4] (sha_H (ed25519_hash_init S)))"
  by (simp add: fips_primes_def ed25519_hash_init_def frac_root_def)

lemma sha_H_init: "sha_H (ed25519_hash_init S) = fips_H0"
proof (rule nth_equalityI)
  fix i assume "i < length (sha_H (ed25519_hash_init S))"
  then have i: "i < 8" by (simp add: ed25519_hash_init_def)
  have "length fips_primes = 80" "length (sha_H (ed25519_hash_init S)) = 8" by (simp_all add: fips_primes_def ed25519_hash_init_def)
  then have f: "frac_root 2 (int (fips_primes ! i)) ([1, 1, 2, 2, 3, 3, 4, 4] ! i, sha_H (ed25519_hash_init S) ! i)"
    using list_all2_nthD[OF sha_H0_frac, of i S] i by simp
  show "sha_H (ed25519_hash_init S) ! i = fips_H0 ! i" using frac_root_word[OF f] i by (simp add: fips_H0_def)
qed (simp add: ed25519_hash_init_def fips_H0_def)

lemma absorbed_init: "length (sha_buffer S) = 128 \<Longrightarrow> absorbed (ed25519_hash_init S) []"
  unfolding absorbed_def by (intro exI[of _ "[]"]) (simp add: sha_at_def sha_H_init fips_parse.simps[of "[]"], simp add: ed25519_hash_init_def)

lemma update_blocks_absorbed:
  assumes "sha_at S m" "length (sha_buffer S) = 128"
  shows "absorbed (hash_update_blocks S inp) (m @ inp)"
proof -
  define n where "n = length inp div 128"
  define S1 where "S1 = S\<lparr>sha_leftover := word_of_nat (length inp mod 128)\<rparr>"
  define S2 where "S2 = (if n = 0 then S1 else sha512_blocks S1 inp n)"
  have S1: "sha_at S1 m" using assms(1) by (simp add: S1_def sha_at_def)
  have n: "128 * n \<le> length inp" "length inp - 128 * n = length inp mod 128" by (simp_all add: n_def minus_mult_div_eq_mod)
  have S2: "sha_at S2 (m @ take (128 * n) inp)" "sha_leftover S2 = sha_leftover S1" "sha_buffer S2 = sha_buffer S"
    using sha512_blocks_at[OF S1 n(1)] S1 by (auto simp: S2_def S1_def)
  let ?b = "drop (128 * n) inp"
  have b: "length ?b = length inp mod 128" "unat (sha_leftover S2) = length ?b" "sha_leftover S2 = word_of_nat (length ?b)"
    using n(2) S2(2) by (simp_all add: S1_def unat_word32)
  have u: "hash_update_blocks S inp = (if sha_leftover S2 \<noteq> 0 then S2\<lparr>sha_buffer := memcpy (sha_buffer S2) 0 ?b\<rparr> else S2)"
    using b(2) n(2) by (cases "n = 0") (simp_all add: hash_update_blocks_def Let_def S2_def n_def[symmetric] S1_def)
  have z: "sha_leftover S2 = 0 \<longleftrightarrow> ?b = []" using b(2) by (metis length_0_conv unat_eq_0)
  have "sha_at (S2\<lparr>sha_buffer := x\<rparr>) (m @ take (128 * n) inp)" for x using S2(1) by (simp add: sha_at_def)
  then show ?thesis unfolding absorbed_def u using S2 b z assms(2)
    by (intro exI[of _ "m @ take (128 * n) inp"] exI[of _ ?b]) (auto simp: memcpy_def)
qed

lemma update_absorbed:
  assumes "absorbed S m"
  shows "absorbed (ed25519_hash_update S inp) (m @ inp)"
proof -
  from assms obtain a b where ab: "m = a @ b" "sha_at S a" "length b < 128" "length (sha_buffer S) = 128"
    "take (length b) (sha_buffer S) = b" "sha_leftover S = word_of_nat (length b)" by (auto simp: absorbed_def)
  have l: "unat (sha_leftover S) = length b" using ab(3,6) by (simp add: unat_word32)
  show ?thesis
  proof (cases "b = []")
    case True
    then show ?thesis using update_blocks_absorbed[OF ab(2,4)] ab(1,6) by (simp add: ed25519_hash_update_def)
  next
    case False
    then have nz: "sha_leftover S \<noteq> 0" using l by auto
    define w where "w = (if 128 - length b < length inp then 128 - length b else length inp)"
    define S1 where "S1 = S\<lparr>sha_buffer := memcpy (sha_buffer S) (length b) (take w inp), sha_leftover := sha_leftover S + word_of_nat w\<rparr>"
    have w: "w \<le> length inp" "length b + w \<le> 128" using ab(3) by (auto simp: w_def)
    have "sha_leftover S1 = word_of_nat (length b + w)" using ab(6) by (simp add: S1_def)
    then have l1: "unat (sha_leftover S1) = length b + w" using w(2) by (simp add: unat_word32 del: of_nat_add)
    have b1: "length (sha_buffer S1) = 128" "take (length b + w) (sha_buffer S1) = b @ take w inp"
      using ab(4,5) w by (simp_all add: S1_def) (simp add: memcpy_def take_add)
    have at1: "sha_at S1 a" using ab(2) by (simp add: S1_def sha_at_def)
    have u: "ed25519_hash_update S inp = (if length b + w < 128 then S1 else hash_update_blocks (sha512_blocks S1 (sha_buffer S1) 1) (drop w inp))"
      using nz l1 unfolding ed25519_hash_update_def Let_def l w_def[symmetric] S1_def[symmetric] by simp
    show ?thesis
    proof (cases "length b + w < 128")
      case True
      then have "w = length inp" using w by (auto simp: w_def split: if_splits)
      then show ?thesis unfolding u absorbed_def using True ab at1 b1 by (intro exI[of _ a] exI[of _ "b @ inp"]) (auto simp: S1_def)
    next
      case False
      then have bw: "length b + w = 128" "128 - length b = w" using w by simp_all
      then have "sha_buffer S1 = b @ take w inp" using b1 by simp
      then have "sha_at (sha512_blocks S1 (sha_buffer S1) 1) (a @ b @ take w inp)" "sha_buffer (sha512_blocks S1 (sha_buffer S1) 1) = sha_buffer S1"
        using sha512_blocks_at[OF at1, of 1 "sha_buffer S1"] b1(1) bw by simp_all
      from update_blocks_absorbed[OF this(1), of "drop w inp"] this(2) b1(1) False show ?thesis by (simp add: u ab(1))
    qed
  qed
qed

lemma updates_absorbed: "absorbed S m \<Longrightarrow> absorbed (foldl ed25519_hash_update S xs) (m @ concat xs)"
  by (induction xs arbitrary: S m) (auto simp: update_absorbed simp flip: append_assoc)

section \<open>Finishing\<close>

lemma be_bytes_mod: "be_bytes 8 (unat (word_of_nat n :: u64)) = be_bytes 8 n"
proof (rule nth_equalityI)
  fix i assume "i < length (be_bytes 8 (unat (word_of_nat n :: u64)))"
  then have i: "i < 8" by simp
  have "unat (word_of_nat n :: u64) = take_bit 64 n" by (simp add: unsigned_of_nat)
  moreover have "(word_of_nat (take_bit 64 n div 256 ^ (7 - i)) :: u8) = word_of_nat (n div 256 ^ (7 - i))"
  proof (rule bit_word_eqI)
    fix k assume "k < LENGTH(8)"
    moreover have "(256 :: nat) ^ (7 - i) = 2 ^ (8 * (7 - i))" by (simp add: power_mult)
    ultimately show "bit (word_of_nat (take_bit 64 n div 256 ^ (7 - i)) :: u8) k = bit (word_of_nat (n div 256 ^ (7 - i)) :: u8) k"
      using i by (auto simp: bit_simps simp flip: drop_bit_eq_div)
  qed
  ultimately show "be_bytes 8 (unat (word_of_nat n :: u64)) ! i = be_bytes 8 n ! i" using i by (simp add: nth_be_bytes)
qed simp

lemma be_bytes_16: "be_bytes 16 n = be_bytes 8 (n div 2 ^ 64) @ be_bytes 8 n"
proof (rule nth_equalityI)
  fix i assume "i < length (be_bytes 16 n)"
  then have i: "i < 16" by simp
  have "n div 256 ^ (15 - i) = n div 2 ^ 64 div 256 ^ (7 - i)" if "i < 8"
  proof -
    have "15 - i = 8 + (7 - i)" using that by simp
    then have "(256 :: nat) ^ (15 - i) = 256 ^ 8 * 256 ^ (7 - i)" by (metis power_add)
    moreover have "(256 :: nat) ^ 8 = 2 ^ 64" by simp
    ultimately show ?thesis by (simp only: div_mult2_eq)
  qed
  then show "be_bytes 16 n ! i = (be_bytes 8 (n div 2 ^ 64) @ be_bytes 8 n) ! i" using i by (simp add: nth_be_bytes nth_append)
qed simp

lemma fold_STORE:
  assumes "length H = 8" "length hash = 64"
  shows "fold (\<lambda>i hash. sha512_STORE64_BE hash (8 * i) (H ! i)) [0..<8] hash = concat (map (\<lambda>h. be_bytes 8 (unat h)) H)"
proof -
  have "fold (\<lambda>i hash. sha512_STORE64_BE hash (8 * i) (H ! i)) [0..<n] hash =
      concat (map (\<lambda>h. be_bytes 8 (unat h)) (take n H)) @ drop (8 * n) hash" if "n \<le> 8" for n
    using that
  proof (induction n)
    case (Suc n)
    have "length (concat (map (\<lambda>h. be_bytes 8 (unat h)) (take n H))) = 8 * n" using Suc.prems assms(1) by (simp add: length_concat comp_def sum_list_triv)
    then show ?case using Suc assms by (simp add: STORE_be_bytes memcpy_def take_Suc_conv_app_nth)
  qed simp
  from this[of 8] show ?thesis using assms by simp
qed

lemma pad_tail:
  assumes "128 dvd length a" "length b < 128"
  defines "n \<equiv> 8 * length (a @ b)"
  shows "fips_pad (a @ b) = a @ (if length b \<le> 111 then b @ [0x80] @ replicate (111 - length b) 0 @ be_bytes 8 (n div 2 ^ 64) @ be_bytes 8 n
    else (b @ [0x80] @ replicate (127 - length b) 0) @ replicate 112 0 @ be_bytes 8 (n div 2 ^ 64) @ be_bytes 8 n)"
proof -
  have "length (a @ b) mod 128 = length b" using assms by auto
  moreover have "(239 - length b) mod 128 = (if length b \<le> 111 then 111 - length b else (127 - length b) + 112)"
    using assms(2) by (simp add: mod_if)
  moreover have "replicate (239 - length b) (0 :: u8) = replicate (127 - length b) 0 @ replicate 112 0" if "\<not> length b \<le> 111"
    using assms(2) that by (simp flip: replicate_add)
  ultimately show ?thesis by (simp add: fips_pad_def be_bytes_16 n_def)
qed

lemma final_buffer:
  assumes "n < 128" "length buf = 128" "take n buf = b" "length b = n"
  shows "memset (buf[n := 0x80]) (n + 1) 0 (127 - n) = b @ [0x80] @ replicate (127 - n) (0 :: u8)"
    and "n \<le> 111 \<Longrightarrow> memcpy (memcpy (memset (buf[n := 0x80]) (n + 1) 0 (111 - n)) 112 (be_bytes 8 x)) 120 (be_bytes 8 y) =
      b @ [0x80] @ replicate (111 - n) 0 @ be_bytes 8 x @ be_bytes 8 y"
proof -
  have t: "take (n + 1) (buf[n := 0x80]) = b @ [0x80]" using assms by (simp add: take_Suc_conv_app_nth)
  then show "memset (buf[n := 0x80]) (n + 1) 0 (127 - n) = b @ [0x80] @ replicate (127 - n) 0"
    using assms by (simp add: memset_def memcpy_def)
  show "memcpy (memcpy (memset (buf[n := 0x80]) (n + 1) 0 (111 - n)) 112 (be_bytes 8 x)) 120 (be_bytes 8 y) =
      b @ [0x80] @ replicate (111 - n) 0 @ be_bytes 8 x @ be_bytes 8 y" if "n \<le> 111"
  proof -
    define p where "p = b @ [0x80] @ replicate (111 - n) (0 :: u8)"
    have "memset (buf[n := 0x80]) (n + 1) 0 (111 - n) = p @ drop 112 buf" using assms that t by (simp add: memset_def memcpy_def p_def)
    moreover have "length p = 112" using assms that by (simp add: p_def)
    moreover have "length (drop 112 buf) = 16" using assms(2) by simp
    ultimately have "memcpy (memcpy (memset (buf[n := 0x80]) (n + 1) 0 (111 - n)) 112 (be_bytes 8 x)) 120 (be_bytes 8 y) = p @ be_bytes 8 x @ be_bytes 8 y"
      by (simp add: memcpy_def)
    then show ?thesis by (simp add: p_def)
  qed
qed

lemma sha_at_buffer [simp]: "sha_at (S\<lparr>sha_buffer := x\<rparr>) m \<longleftrightarrow> sha_at S m"
  by (simp add: sha_at_def)

lemma final_counts:
  assumes "sha_at S a" "length b < 128"
  defines "n \<equiv> 8 * length (a @ b)"
  shows "sha_T S ! 0 + ucast (word_of_nat (length b) * 8 :: u32) = (word_of_nat n :: u64)" "sha_T S ! 1 = word_of_nat (n div 2 ^ 64)"
proof -
  have T: "128 dvd length a" "sha_T S = [word_of_nat (8 * length a), word_of_nat (8 * length a div 2 ^ 64)]" using assms(1) by (simp_all add: sha_at_def)
  have "word_of_nat (length b) * 8 = (word_of_nat (8 * length b) :: u32)" by (simp add: mult.commute)
  then have "ucast (word_of_nat (length b) * 8 :: u32) = (word_of_nat (8 * length b) :: u64)"
    using unat_word32[of "8 * length b"] assms(2) by (simp add: word_of_nat_unat[symmetric] del: of_nat_mult)
  then show "sha_T S ! 0 + ucast (word_of_nat (length b) * 8 :: u32) = (word_of_nat n :: u64)" by (simp add: T(2) n_def)
  obtain q where q: "length a = 128 * q" using T(1) by blast
  have "(8 * (128 * q) + r) div 2 ^ 64 = 8 * (128 * q) div 2 ^ 64" if "r < 1024" for r :: nat
  proof -
    have "(8 * (128 * q) + r) div 1024 = q" "8 * (128 * q) div 1024 = q" using that by simp_all
    moreover have "(2 :: nat) ^ 64 = 1024 * 2 ^ 54" by simp
    ultimately show ?thesis by (simp only: div_mult2_eq)
  qed
  from this[of "8 * length b"] show "sha_T S ! 1 = word_of_nat (n div 2 ^ 64)" using assms(2) by (simp add: T(2) n_def q)
qed

lemma final_sha512:
  assumes "absorbed S m" "length hash = 64"
  shows "snd (ed25519_hash_final S hash) = sha512 m"
proof -
  from assms obtain a b where ab: "m = a @ b" "sha_at S a" "length b < 128" "length (sha_buffer S) = 128"
    "take (length b) (sha_buffer S) = b" "sha_leftover S = word_of_nat (length b)" by (auto simp: absorbed_def)
  have l: "unat (sha_leftover S) = length b" using ab(3,6) by (simp add: unat_word32)
  define n where "n = 8 * length m"
  define z where "z = be_bytes 8 (n div 2 ^ 64) @ be_bytes 8 n"
  have T: "sha_T S ! 0 + ucast (sha_leftover S * 8) = word_of_nat n" "sha_T S ! 1 = word_of_nat (n div 2 ^ 64)"
    using final_counts[OF ab(2,3)] by (simp_all add: ab(1,6) n_def)
  have pad: "fips_pad m = a @ (if length b \<le> 111 then b @ [0x80] @ replicate (111 - length b) 0 @ z
      else (b @ [0x80] @ replicate (127 - length b) 0) @ replicate 112 0 @ z)"
    using pad_tail[of a b] ab(2,3) unfolding ab(1) n_def z_def by (simp add: sha_at_def)
  define B where "B = (sha_buffer S)[length b := 0x80]"
  define S1 where "S1 = (if length b \<le> 111 then S\<lparr>sha_buffer := memset B (length b + 1) 0 (111 - length b)\<rparr>
     else (sha512_blocks (S\<lparr>sha_buffer := memset B (length b + 1) 0 (127 - length b)\<rparr>) (memset B (length b + 1) 0 (127 - length b)) 1)
       \<lparr>sha_buffer := memset (memset B (length b + 1) 0 (127 - length b)) 0 0 112\<rparr>)"
  define B2 where "B2 = memcpy (memcpy (sha_buffer S1) 112 (be_bytes 8 (n div 2 ^ 64))) 120 (be_bytes 8 n)"
  define S2 where "S2 = S1\<lparr>sha_buffer := B2\<rparr>"
  define C where "C = memset B (length b + 1) 0 (127 - length b)"
  have C': "memset B (Suc (length b)) 0 (127 - length b) = C" by (simp add: C_def)
  have C: "C = b @ [0x80] @ replicate (127 - length b) 0" using final_buffer(1)[OF ab(3,4,5) refl] by (simp add: C_def B_def)
  have c: "sha_at (sha512_blocks (S\<lparr>sha_buffer := C\<rparr>) C 1) (a @ C)" "sha_buffer (sha512_blocks (S\<lparr>sha_buffer := C\<rparr>) C 1) = C"
    using sha512_blocks_at[of "S\<lparr>sha_buffer := C\<rparr>" a 1 C] ab(2,3) by (simp_all add: C)
  have fin: "snd (ed25519_hash_final S hash) =
      fold (\<lambda>i hash. sha512_STORE64_BE hash (8 * i) (sha_H (sha512_blocks S2 B2 1) ! i)) [0..<8] hash"
    unfolding ed25519_hash_final_def Let_def l T S2_def B2_def S1_def C_def[symmetric] STORE_be_bytes be_bytes_mod
    by (simp add: c(2)[simplified] B_def[symmetric] C')
  have "\<exists>p. sha_at S2 p \<and> length B2 = 128 \<and> p @ B2 = fips_pad m"
  proof (cases "length b \<le> 111")
    case True
    then have "B2 = b @ [0x80] @ replicate (111 - length b) 0 @ z"
      using final_buffer(2)[OF ab(3,4,5) refl] by (simp add: B2_def S1_def B_def z_def)
    then show ?thesis using True ab(2) by (intro exI[of _ a]) (simp add: S2_def S1_def pad z_def)
  next
    case False
    have "length C = 128" using ab(3) by (simp add: C)
    then have "B2 = replicate 112 0 @ z" using False c(2) by (simp add: B2_def S1_def C' z_def) (simp add: memset_def memcpy_def)
    then show ?thesis using False c(1) by (intro exI[of _ "a @ C"]) (simp add: S2_def S1_def C' pad z_def, simp add: C)
  qed
  then obtain p where p: "sha_at S2 p" "length B2 = 128" "p @ B2 = fips_pad m" by blast
  have at: "sha_at (sha512_blocks S2 B2 1) (fips_pad m)" using sha512_blocks_at[OF p(1), of 1 B2] p(2,3) by simp
  then have "sha_H (sha512_blocks S2 B2 1) = foldl fips_compress fips_H0 (fips_parse (fips_pad m))" by (simp add: sha_at_def)
  then show ?thesis unfolding fin fold_STORE[OF length_sha_H[OF at] assms(2)] by (simp add: sha512_def)
qed

text \<open>
  Property C18 (refinement): the hash of the key derivation is SHA-512.  However a message is cut into pieces, \<^verbatim>\<open>ed25519_hash_init\<close>, one
  \<^verbatim>\<open>ed25519_hash_update\<close> for each piece and \<^verbatim>\<open>ed25519_hash_final\<close> write the FIPS 180-4 digest of the whole, whatever the uninitialised context held;
  the round constants are the standard's roots of primes, and the 128-bit count never loses its carry.
\<close>

theorem ed25519_hash_is_sha512:
  assumes "length (sha_buffer ctx) = 128" "length hash = 64"
  shows "snd (ed25519_hash_final (foldl ed25519_hash_update (ed25519_hash_init ctx) pieces) hash) = sha512 (concat pieces)"
  using final_sha512[OF updates_absorbed[OF absorbed_init[OF assms(1)]] assms(2)] by simp

theorem ed25519_hash_is_sha512_witness:
  "snd (ed25519_hash_final (foldl ed25519_hash_update (ed25519_hash_init \<lparr>sha_H = [], sha_T = [], sha_leftover = 7, sha_buffer = replicate 128 1\<rparr>)
     [[97], replicate 200 98, [99]]) (replicate 64 0)) = sha512 (concat [[97], replicate 200 98, [99]])"
  by (rule ed25519_hash_is_sha512) simp_all

lemma ed25519_hash_ctx_eq:
  "length (sha_buffer ctx) = 128 \<Longrightarrow> length hash = 64 \<Longrightarrow> ed25519_hash_ctx ctx hash inp = sha512 inp"
  unfolding ed25519_hash_ctx_def using final_sha512[OF update_absorbed[OF absorbed_init]] by simp

lemma ed25519_hash_eq: "ed25519_hash inp = sha512 inp"
  by (simp add: ed25519_hash_def ed25519_hash_ctx_eq)

lemma length_sha512 [simp]: "length (sha512 m) = 64"
proof -
  have "length (foldl fips_compress fips_H0 bs) = 8" for bs by (rule length_fips_fold) (simp add: fips_H0_def)
  then show ?thesis by (simp add: sha512_def length_concat comp_def sum_list_triv)
qed

end
