(* ===== verification/Curve25519.thy ===== *)
theory Curve25519
  imports Prelude
begin

text \<open>
  The scalar multiplication of \<^verbatim>\<open>GEC-block/src/curve25519-donna.c\<close>.  A limb is a 64-bit word read as a signed integer and \<^verbatim>\<open>s32\<close> a 32-bit one; \<open>+\<close>
  and \<open>*\<close> wrap, \<^verbatim>\<open>>>\<close> on signed values is \<open>signed_drop_bit\<close>.  Arrays are lists; a function returns what it writes through its output pointers.
\<close>

type_synonym limb = "64 word"
type_synonym s32 = "32 word"

section \<open>Field arithmetic\<close>

definition fsum :: "limb list \<Rightarrow> limb list \<Rightarrow> limb list" where
  "fsum output inp = fold (\<lambda>i output. output[i := output ! i + inp ! i, i + 1 := output ! (i + 1) + inp ! (i + 1)]) [0, 2, 4, 6, 8] output"

definition fdifference :: "limb list \<Rightarrow> limb list \<Rightarrow> limb list" where
  "fdifference output inp = fold (\<lambda>i output. output[i := inp ! i - output ! i]) [0..<10] output"

definition fscalar_product :: "limb list \<Rightarrow> limb list \<Rightarrow> limb \<Rightarrow> limb list" where
  "fscalar_product output inp scalar = fold (\<lambda>i output. output[i := inp ! i * scalar]) [0..<10] output"

text \<open>The cast \<^verbatim>\<open>(limb) (s32) x\<close>.\<close>

definition lo32 :: "limb \<Rightarrow> limb" where
  "lo32 x = scast (ucast x :: s32)"

text \<open>The nineteen sums of \<^verbatim>\<open>fproduct\<close> and of \<^verbatim>\<open>fsquare_inner\<close>, as polynomials in the limbs.\<close>

definition product_terms :: "'a::comm_ring_1 list \<Rightarrow> 'a list \<Rightarrow> 'a list" where
  "product_terms a b =
     [a ! 0 * b ! 0,
      a ! 0 * b ! 1 + a ! 1 * b ! 0,
      2 * a ! 1 * b ! 1 + a ! 0 * b ! 2 + a ! 2 * b ! 0,
      a ! 1 * b ! 2 + a ! 2 * b ! 1 + a ! 0 * b ! 3 + a ! 3 * b ! 0,
      a ! 2 * b ! 2 + 2 * (a ! 1 * b ! 3 + a ! 3 * b ! 1) + a ! 0 * b ! 4 + a ! 4 * b ! 0,
      a ! 2 * b ! 3 + a ! 3 * b ! 2 + a ! 1 * b ! 4 + a ! 4 * b ! 1 + a ! 0 * b ! 5 + a ! 5 * b ! 0,
      2 * (a ! 3 * b ! 3 + a ! 1 * b ! 5 + a ! 5 * b ! 1) + a ! 2 * b ! 4 + a ! 4 * b ! 2 + a ! 0 * b ! 6 + a ! 6 * b ! 0,
      a ! 3 * b ! 4 + a ! 4 * b ! 3 + a ! 2 * b ! 5 + a ! 5 * b ! 2 + a ! 1 * b ! 6 + a ! 6 * b ! 1 + a ! 0 * b ! 7 + a ! 7 * b ! 0,
      a ! 4 * b ! 4 + 2 * (a ! 3 * b ! 5 + a ! 5 * b ! 3 + a ! 1 * b ! 7 + a ! 7 * b ! 1) + a ! 2 * b ! 6 + a ! 6 * b ! 2 + a ! 0 * b ! 8 + a ! 8 * b ! 0,
      a ! 4 * b ! 5 + a ! 5 * b ! 4 + a ! 3 * b ! 6 + a ! 6 * b ! 3 + a ! 2 * b ! 7 + a ! 7 * b ! 2 + a ! 1 * b ! 8 + a ! 8 * b ! 1 + a ! 0 * b ! 9 + a ! 9 * b ! 0,
      2 * (a ! 5 * b ! 5 + a ! 3 * b ! 7 + a ! 7 * b ! 3 + a ! 1 * b ! 9 + a ! 9 * b ! 1) + a ! 4 * b ! 6 + a ! 6 * b ! 4 + a ! 2 * b ! 8 + a ! 8 * b ! 2,
      a ! 5 * b ! 6 + a ! 6 * b ! 5 + a ! 4 * b ! 7 + a ! 7 * b ! 4 + a ! 3 * b ! 8 + a ! 8 * b ! 3 + a ! 2 * b ! 9 + a ! 9 * b ! 2,
      a ! 6 * b ! 6 + 2 * (a ! 5 * b ! 7 + a ! 7 * b ! 5 + a ! 3 * b ! 9 + a ! 9 * b ! 3) + a ! 4 * b ! 8 + a ! 8 * b ! 4,
      a ! 6 * b ! 7 + a ! 7 * b ! 6 + a ! 5 * b ! 8 + a ! 8 * b ! 5 + a ! 4 * b ! 9 + a ! 9 * b ! 4,
      2 * (a ! 7 * b ! 7 + a ! 5 * b ! 9 + a ! 9 * b ! 5) + a ! 6 * b ! 8 + a ! 8 * b ! 6,
      a ! 7 * b ! 8 + a ! 8 * b ! 7 + a ! 6 * b ! 9 + a ! 9 * b ! 6,
      a ! 8 * b ! 8 + 2 * (a ! 7 * b ! 9 + a ! 9 * b ! 7),
      a ! 8 * b ! 9 + a ! 9 * b ! 8,
      2 * a ! 9 * b ! 9]"

definition square_terms :: "'a::comm_ring_1 list \<Rightarrow> 'a list" where
  "square_terms a =
     [a ! 0 * a ! 0,
      2 * a ! 0 * a ! 1,
      2 * (a ! 1 * a ! 1 + a ! 0 * a ! 2),
      2 * (a ! 1 * a ! 2 + a ! 0 * a ! 3),
      a ! 2 * a ! 2 + 4 * a ! 1 * a ! 3 + 2 * a ! 0 * a ! 4,
      2 * (a ! 2 * a ! 3 + a ! 1 * a ! 4 + a ! 0 * a ! 5),
      2 * (a ! 3 * a ! 3 + a ! 2 * a ! 4 + a ! 0 * a ! 6 + 2 * a ! 1 * a ! 5),
      2 * (a ! 3 * a ! 4 + a ! 2 * a ! 5 + a ! 1 * a ! 6 + a ! 0 * a ! 7),
      a ! 4 * a ! 4 + 2 * (a ! 2 * a ! 6 + a ! 0 * a ! 8 + 2 * (a ! 1 * a ! 7 + a ! 3 * a ! 5)),
      2 * (a ! 4 * a ! 5 + a ! 3 * a ! 6 + a ! 2 * a ! 7 + a ! 1 * a ! 8 + a ! 0 * a ! 9),
      2 * (a ! 5 * a ! 5 + a ! 4 * a ! 6 + a ! 2 * a ! 8 + 2 * (a ! 3 * a ! 7 + a ! 1 * a ! 9)),
      2 * (a ! 5 * a ! 6 + a ! 4 * a ! 7 + a ! 3 * a ! 8 + a ! 2 * a ! 9),
      a ! 6 * a ! 6 + 2 * (a ! 4 * a ! 8 + 2 * (a ! 5 * a ! 7 + a ! 3 * a ! 9)),
      2 * (a ! 6 * a ! 7 + a ! 5 * a ! 8 + a ! 4 * a ! 9),
      2 * (a ! 7 * a ! 7 + a ! 6 * a ! 8 + 2 * a ! 5 * a ! 9),
      2 * (a ! 7 * a ! 8 + a ! 6 * a ! 9),
      a ! 8 * a ! 8 + 4 * a ! 7 * a ! 9,
      2 * a ! 8 * a ! 9,
      2 * a ! 9 * a ! 9]"

definition fproduct :: "limb list \<Rightarrow> limb list \<Rightarrow> limb list" where
  "fproduct in2 inp = product_terms (map lo32 in2) (map lo32 inp)"

definition fsquare_inner :: "limb list \<Rightarrow> limb list" where
  "fsquare_inner inp = square_terms (map lo32 inp)"

definition freduce_degree :: "limb list \<Rightarrow> limb list" where
  "freduce_degree output =
     fold (\<lambda>i output.
       let output = output[i := output ! i + push_bit 4 (output ! (i + 10))];
           output = output[i := output ! i + push_bit 1 (output ! (i + 10))]
       in output[i := output ! i + output ! (i + 10)]) [8, 7, 6, 5, 4, 3, 2, 1, 0] output"

definition div_by_2_26 :: "limb \<Rightarrow> limb" where
  "div_by_2_26 v =
     (let highword = ucast (drop_bit 32 v) :: 32 word;
          sign = signed_drop_bit 31 highword;
          roundoff = drop_bit 6 sign
      in signed_drop_bit 26 (v + scast roundoff))"

definition div_by_2_25 :: "limb \<Rightarrow> limb" where
  "div_by_2_25 v =
     (let highword = ucast (drop_bit 32 v) :: 32 word;
          sign = signed_drop_bit 31 highword;
          roundoff = drop_bit 7 sign
      in signed_drop_bit 25 (v + scast roundoff))"

definition carry_26 :: "nat \<Rightarrow> limb list \<Rightarrow> limb list" where
  "carry_26 i output =
     (let over = div_by_2_26 (output ! i)
      in output[i := output ! i - push_bit 26 over, i + 1 := output ! (i + 1) + over])"

definition carry_25 :: "nat \<Rightarrow> limb list \<Rightarrow> limb list" where
  "carry_25 i output =
     (let over = div_by_2_25 (output ! i)
      in output[i := output ! i - push_bit 25 over, i + 1 := output ! (i + 1) + over])"

definition freduce_coefficients :: "limb list \<Rightarrow> limb list" where
  "freduce_coefficients output =
     (let output = output[10 := 0];
          output = fold (\<lambda>i output. carry_25 (i + 1) (carry_26 i output)) [0, 2, 4, 6, 8] output;
          output = output[0 := output ! 0 + push_bit 4 (output ! 10)];
          output = output[0 := output ! 0 + push_bit 1 (output ! 10)];
          output = output[0 := output ! 0 + output ! 10];
          output = output[10 := 0]
      in carry_26 0 output)"

definition fmul :: "limb list \<Rightarrow> limb list \<Rightarrow> limb list \<Rightarrow> limb list" where
  "fmul output inp in2 = memcpy output 0 (take 10 (freduce_coefficients (freduce_degree (fproduct inp in2))))"

definition fsquare :: "limb list \<Rightarrow> limb list \<Rightarrow> limb list" where
  "fsquare output inp = memcpy output 0 (take 10 (freduce_coefficients (freduce_degree (fsquare_inner inp))))"

section \<open>Bytes\<close>

definition fexpand_F :: "bytes \<Rightarrow> nat \<Rightarrow> nat \<Rightarrow> limb \<Rightarrow> limb" where
  "fexpand_F input start shift msk =
     drop_bit shift (ucast (input ! start) OR push_bit 8 (ucast (input ! (start + 1))) OR push_bit 16 (ucast (input ! (start + 2))) OR
       push_bit 24 (ucast (input ! (start + 3)))) AND msk"

definition fexpand :: "bytes \<Rightarrow> limb list" where
  "fexpand input =
     [fexpand_F input 0 0 0x3ffffff, fexpand_F input 3 2 0x1ffffff, fexpand_F input 6 3 0x3ffffff, fexpand_F input 9 5 0x1ffffff,
      fexpand_F input 12 6 0x3ffffff, fexpand_F input 16 0 0x1ffffff, fexpand_F input 19 1 0x3ffffff, fexpand_F input 22 3 0x1ffffff,
      fexpand_F input 25 4 0x3ffffff, fexpand_F input 28 6 0x1ffffff]"

definition s32_eq :: "s32 \<Rightarrow> s32 \<Rightarrow> s32" where
  "s32_eq a b =
     (let a = NOT (a XOR b);
          a = a AND push_bit 16 a;
          a = a AND push_bit 8 a;
          a = a AND push_bit 4 a;
          a = a AND push_bit 2 a;
          a = a AND push_bit 1 a
      in signed_drop_bit 31 a)"

definition s32_gte :: "s32 \<Rightarrow> s32 \<Rightarrow> s32" where
  "s32_gte a b = NOT (signed_drop_bit 31 (a - b))"

text \<open>One borrow and one carry of \<^verbatim>\<open>fcontract\<close>; \<open>k\<close> is the width of limb \<open>i\<close>.\<close>

definition fc_borrow :: "nat \<Rightarrow> nat \<Rightarrow> s32 list \<Rightarrow> s32 list" where
  "fc_borrow k i input =
     (let msk = signed_drop_bit 31 (input ! i);
          carry = - signed_drop_bit k (input ! i AND msk)
      in input[i := input ! i + push_bit k carry, i + 1 := input ! (i + 1) - carry])"

definition fc_borrow_pass :: "s32 list \<Rightarrow> s32 list" where
  "fc_borrow_pass input =
     (let input = fold (\<lambda>i input. if i AND 1 = 1 then fc_borrow 25 i input else fc_borrow 26 i input) [0..<9] input;
          msk = signed_drop_bit 31 (input ! 9);
          carry = - signed_drop_bit 25 (input ! 9 AND msk)
      in input[9 := input ! 9 + push_bit 25 carry, 0 := input ! 0 - carry * 19])"

definition fc_carry :: "nat \<Rightarrow> s32 \<Rightarrow> nat \<Rightarrow> s32 list \<Rightarrow> s32 list" where
  "fc_carry k m i input =
     (let carry = signed_drop_bit k (input ! i)
      in input[i := input ! i AND m, i + 1 := input ! (i + 1) + carry])"

definition fc_carry_pass :: "s32 list \<Rightarrow> s32 list" where
  "fc_carry_pass input =
     (let input = fold (\<lambda>i input. if i AND 1 = 1 then fc_carry 25 0x1ffffff i input else fc_carry 26 0x3ffffff i input) [0..<9] input;
          carry = signed_drop_bit 25 (input ! 9)
      in input[9 := input ! 9 AND 0x1ffffff, 0 := input ! 0 + 19 * carry])"

definition fc_subtract :: "s32 list \<Rightarrow> s32 list" where
  "fc_subtract input =
     (let msk = s32_gte (input ! 0) 0x3ffffed;
          msk = fold (\<lambda>i msk. if i AND 1 = 1 then msk AND s32_eq (input ! i) 0x1ffffff else msk AND s32_eq (input ! i) 0x3ffffff) [1..<10] msk;
          input = input[0 := input ! 0 - (msk AND 0x3ffffed)]
      in fold (\<lambda>i input. if i AND 1 = 1 then input[i := input ! i - (msk AND 0x1ffffff)] else input[i := input ! i - (msk AND 0x3ffffff)])
           [1..<10] input)"

definition fcontract_F :: "s32 list \<Rightarrow> nat \<Rightarrow> nat \<Rightarrow> bytes \<Rightarrow> bytes" where
  "fcontract_F input i s output =
     output[s := output ! s OR ucast (input ! i AND 0xff), s + 1 := ucast (signed_drop_bit 8 (input ! i) AND 0xff),
       s + 2 := ucast (signed_drop_bit 16 (input ! i) AND 0xff), s + 3 := ucast (signed_drop_bit 24 (input ! i) AND 0xff)]"

definition fc_output :: "s32 list \<Rightarrow> bytes \<Rightarrow> bytes" where
  "fc_output input output =
     (let input = fold (\<lambda>(i, k) input. input[i := push_bit k (input ! i)]) [(1, 2), (2, 3), (3, 5), (4, 6), (6, 1), (7, 3), (8, 4), (9, 6)] input;
          output = output[0 := 0];
          output = output[16 := 0]
      in fold (\<lambda>(i, s). fcontract_F input i s) [(0, 0), (1, 3), (2, 6), (3, 9), (4, 12), (5, 16), (6, 19), (7, 22), (8, 25), (9, 28)] output)"

definition fcontract :: "bytes \<Rightarrow> limb list \<Rightarrow> bytes" where
  "fcontract output input_limbs =
     (let input = map (\<lambda>i. ucast (input_limbs ! i) :: s32) [0..<10];
          input = fc_borrow_pass (fc_borrow_pass input);
          input = fc_borrow 26 0 input;
          input = fc_carry_pass (fc_carry_pass input)
      in fc_output (fc_subtract input) output)"

section \<open>The ladder\<close>

text \<open>
  \<open>(x2, z2, x3, z3, x, z, xprime, zprime)\<close> is the result of \<^verbatim>\<open>fmonty\<close>: the four outputs, then the four inputs it destroys.
\<close>

definition fmonty :: "limb list \<Rightarrow> limb list \<Rightarrow> limb list \<Rightarrow> limb list \<Rightarrow> limb list \<Rightarrow> limb list \<Rightarrow> limb list \<Rightarrow>
    limb list \<times> limb list \<times> limb list \<times> limb list \<times> limb list \<times> limb list \<times> limb list \<times> limb list" where
  "fmonty x3 z3 x z xprime zprime qmqp =
     (let origx = take 10 x;
          x = fsum x z;
          z = fdifference z origx;
          origxprime = take 10 xprime;
          xprime = fsum xprime zprime;
          zprime = fdifference zprime origxprime;
          xxprime = fproduct xprime z;
          zzprime = fproduct x zprime;
          xxprime = freduce_coefficients (freduce_degree xxprime);
          zzprime = freduce_coefficients (freduce_degree zzprime);
          origxprime = take 10 xxprime;
          xxprime = fsum xxprime zzprime;
          zzprime = fdifference zzprime origxprime;
          xxxprime = fsquare (replicate 19 0) xxprime;
          zzzprime = fsquare (replicate 19 0) zzprime;
          zzprime = fproduct zzzprime qmqp;
          zzprime = freduce_coefficients (freduce_degree zzprime);
          x3 = memcpy x3 0 (take 10 xxxprime);
          z3 = memcpy z3 0 (take 10 zzprime);
          xx = fsquare (replicate 19 0) x;
          zz = fsquare (replicate 19 0) z;
          x2 = fproduct xx zz;
          x2 = freduce_coefficients (freduce_degree x2);
          zz = fdifference zz xx;
          zzz = memset (replicate 19 0) 10 0 9;
          zzz = fscalar_product zzz zz 121665;
          zzz = freduce_coefficients zzz;
          zzz = fsum zzz xx;
          z2 = fproduct zz zzz;
          z2 = freduce_coefficients (freduce_degree z2)
      in (x2, z2, x3, z3, x, z, xprime, zprime))"

definition swap_conditional :: "limb list \<Rightarrow> limb list \<Rightarrow> limb \<Rightarrow> limb list \<times> limb list" where
  "swap_conditional a b iswap =
     (let swap = ucast (- iswap) :: s32
      in fold (\<lambda>i (a, b). let x = swap AND (ucast (a ! i) XOR ucast (b ! i))
                          in (a[i := scast (ucast (a ! i) XOR x)], b[i := scast (ucast (b ! i) XOR x)])) [0..<10] (a, b))"

record ladder_st =
  nqpqx :: "limb list"
  nqpqz :: "limb list"
  nqx :: "limb list"
  nqz :: "limb list"
  nqpqx2 :: "limb list"
  nqpqz2 :: "limb list"
  nqx2 :: "limb list"
  nqz2 :: "limb list"

definition cmult_bit :: "limb list \<Rightarrow> limb \<Rightarrow> ladder_st \<Rightarrow> ladder_st" where
  "cmult_bit q bt s =
     (let (ax, apx) = swap_conditional (nqx s) (nqpqx s) bt;
          (az, apz) = swap_conditional (nqz s) (nqpqz s) bt;
          (x2, z2, x3, z3, ax, az, apx, apz) = fmonty (nqpqx2 s) (nqpqz2 s) ax az apx apz q;
          (x2, x3) = swap_conditional x2 x3 bt;
          (z2, z3) = swap_conditional z2 z3 bt
      in \<lparr>nqpqx = x3, nqpqz = z3, nqx = x2, nqz = z2, nqpqx2 = apx, nqpqz2 = apz, nqx2 = ax, nqz2 = az\<rparr>)"

primrec cmult_bits :: "nat \<Rightarrow> limb list \<Rightarrow> u8 \<Rightarrow> ladder_st \<Rightarrow> ladder_st" where
  "cmult_bits 0 q byte s = s"
| "cmult_bits (Suc j) q byte s = cmult_bits j q (push_bit 1 byte) (cmult_bit q (ucast (drop_bit 7 byte)) s)"

definition cmult :: "bytes \<Rightarrow> limb list \<Rightarrow> limb list \<times> limb list" where
  "cmult n q =
     (let s = \<lparr>nqpqx = memcpy (replicate 19 0) 0 (take 10 q), nqpqz = 1 # replicate 18 0, nqx = 1 # replicate 18 0, nqz = replicate 19 0,
               nqpqx2 = replicate 19 0, nqpqz2 = 1 # replicate 18 0, nqx2 = replicate 19 0, nqz2 = 1 # replicate 18 0\<rparr>;
          s = fold (\<lambda>i s. cmult_bits 8 q (n ! (31 - i)) s) [0..<32] s
      in (take 10 (nqx s), take 10 (nqz s)))"

text \<open>The arrays of \<^verbatim>\<open>crecip\<close> are written completely before they are read; \<open>sq\<close> and \<open>mu\<close> write such an array.\<close>

definition recip_sq :: "limb list \<Rightarrow> limb list" where
  "recip_sq inp = fsquare (replicate 10 0) inp"

definition recip_mul :: "limb list \<Rightarrow> limb list \<Rightarrow> limb list" where
  "recip_mul inp in2 = fmul (replicate 10 0) inp in2"

definition crecip :: "limb list \<Rightarrow> limb list" where
  "crecip z =
     (let z2 = recip_sq z;
          t1 = recip_sq z2;
          t0 = recip_sq t1;
          z9 = recip_mul t0 z;
          z11 = recip_mul z9 z2;
          t0 = recip_sq z11;
          z2_5_0 = recip_mul t0 z9;
          t0 = recip_sq z2_5_0; t1 = recip_sq t0; t0 = recip_sq t1; t1 = recip_sq t0; t0 = recip_sq t1;
          z2_10_0 = recip_mul t0 z2_5_0;
          t0 = recip_sq z2_10_0; t1 = recip_sq t0;
          t1 = ((\<lambda>t1. recip_sq (recip_sq t1)) ^^ 4) t1;
          z2_20_0 = recip_mul t1 z2_10_0;
          t0 = recip_sq z2_20_0; t1 = recip_sq t0;
          t1 = ((\<lambda>t1. recip_sq (recip_sq t1)) ^^ 9) t1;
          t0 = recip_mul t1 z2_20_0;
          t1 = recip_sq t0; t0 = recip_sq t1;
          t0 = ((\<lambda>t0. recip_sq (recip_sq t0)) ^^ 4) t0;
          z2_50_0 = recip_mul t0 z2_10_0;
          t0 = recip_sq z2_50_0; t1 = recip_sq t0;
          t1 = ((\<lambda>t1. recip_sq (recip_sq t1)) ^^ 24) t1;
          z2_100_0 = recip_mul t1 z2_50_0;
          t1 = recip_sq z2_100_0; t0 = recip_sq t1;
          t0 = ((\<lambda>t0. recip_sq (recip_sq t0)) ^^ 49) t0;
          t1 = recip_mul t0 z2_100_0;
          t0 = recip_sq t1; t1 = recip_sq t0;
          t1 = ((\<lambda>t1. recip_sq (recip_sq t1)) ^^ 24) t1;
          t0 = recip_mul t1 z2_50_0;
          t1 = recip_sq t0; t0 = recip_sq t1; t1 = recip_sq t0; t0 = recip_sq t1; t1 = recip_sq t0
      in recip_mul t1 z11)"

definition curve25519_donna :: "bytes \<Rightarrow> bytes \<Rightarrow> bytes \<Rightarrow> bytes" where
  "curve25519_donna mypublic secret basepoint =
     (let e = take 32 secret;
          e = e[0 := e ! 0 AND 248];
          e = e[31 := e ! 31 AND 127];
          e = e[31 := e ! 31 OR 64];
          bp = fexpand basepoint;
          (x, z) = cmult e bp;
          zmone = crecip z;
          z = fmul z x zmone
      in fcontract mypublic z)"

end
