(* ===== verification/Curve25519_Field.thy ===== *)
theory Curve25519_Field
  imports Curve25519
begin

text \<open>
  The limb arithmetic of \<^verbatim>\<open>curve25519-donna.c\<close> computes in the field of 2^255 - 19 elements and never overflows: \<open>ival x\<close> is the integer that the first ten
  limbs of \<open>x\<close> stand for, \<open>tight\<close> and \<open>loose\<close> are the bounds of 2^26 and 2^27 on limbs that the comments of the code state.
\<close>

section \<open>Values\<close>

definition p25519 :: int where
  "p25519 = 2 ^ 255 - 19"

definition fpos :: "nat \<Rightarrow> nat" where
  "fpos i = (51 * i + 1) div 2"

definition poly :: "nat \<Rightarrow> int list \<Rightarrow> int" where
  "poly n x = (\<Sum>i < n. x ! i * 2 ^ fpos i)"

definition ival :: "limb list \<Rightarrow> int" where
  "ival x = (\<Sum>i < 10. sint (x ! i) * 2 ^ fpos i)"

definition limbs_le :: "nat \<Rightarrow> int \<Rightarrow> limb list \<Rightarrow> bool" where
  "limbs_le n B x \<longleftrightarrow> n \<le> length x \<and> (\<forall>i < n. \<bar>sint (x ! i)\<bar> \<le> B)"

abbreviation tight :: "limb list \<Rightarrow> bool" where "tight x \<equiv> limbs_le 10 (2 ^ 26 - 1) x"
abbreviation loose :: "limb list \<Rightarrow> bool" where "loose x \<equiv> limbs_le 10 (2 ^ 27 - 1) x"

lemma sum_10: "(\<Sum>i < 10. f i) = f 0 + f 1 + f 2 + f 3 + f 4 + f 5 + f 6 + f 7 + f 8 + f (9 :: nat)" for f :: "nat \<Rightarrow> int"
  by (simp add: eval_nat_numeral)

lemma sum_19: "(\<Sum>i < 19. f i) = f 0 + f 1 + f 2 + f 3 + f 4 + f 5 + f 6 + f 7 + f 8 + f (9 :: nat) + f 10 + f 11 + f 12 + f 13 + f 14 + f 15 +
    f 16 + f 17 + f 18" for f :: "nat \<Rightarrow> int"
  by (simp add: eval_nat_numeral)

lemma fpos_simps [simp]:
  "fpos 0 = 0" "fpos 1 = 26" "fpos 2 = 51" "fpos 3 = 77" "fpos 4 = 102" "fpos 5 = 128" "fpos 6 = 153" "fpos 7 = 179" "fpos 8 = 204" "fpos 9 = 230"
  "fpos 10 = 255" "fpos 11 = 281" "fpos 12 = 306" "fpos 13 = 332" "fpos 14 = 357" "fpos 15 = 383" "fpos 16 = 408" "fpos 17 = 434" "fpos 18 = 459"
  "fpos (Suc 0) = 26"
  by (simp_all add: fpos_def)

lemma sint_of_int64: "\<bar>e\<bar> < 2 ^ 63 \<Longrightarrow> sint (word_of_int e :: limb) = e"
  by (simp add: sint_sbintrunc' signed_take_bit_int_eq_self)

lemma sint_of_int32: "- (2 ^ 31) \<le> e \<Longrightarrow> e < 2 ^ 31 \<Longrightarrow> sint (word_of_int e :: s32) = e"
  by (simp add: sint_sbintrunc' signed_take_bit_int_eq_self)

lemma sint_arith:
  fixes a b :: limb
  shows "\<bar>sint a + sint b\<bar> < 2 ^ 63 \<Longrightarrow> sint (a + b) = sint a + sint b"
    "\<bar>sint a - sint b\<bar> < 2 ^ 63 \<Longrightarrow> sint (a - b) = sint a - sint b"
    "\<bar>sint a * sint b\<bar> < 2 ^ 63 \<Longrightarrow> sint (a * b) = sint a * sint b"
  using sint_of_int64[of "sint a + sint b"] sint_of_int64[of "sint a - sint b"] sint_of_int64[of "sint a * sint b"] by simp_all

lemma ucast_scast_32: "(ucast (x :: limb) :: s32) = word_of_int (sint x)"
  by (rule bit_word_eqI) (auto simp: bit_simps)

lemma sint_ucast_32: "\<bar>sint x\<bar> < 2 ^ 31 \<Longrightarrow> sint (ucast (x :: limb) :: s32) = sint x"
  unfolding ucast_scast_32 by (rule sint_of_int32) simp_all

lemma lo32_id: "\<bar>sint x\<bar> < 2 ^ 31 \<Longrightarrow> lo32 x = x"
  using sint_ucast_32[of x] by (simp add: lo32_def scast_eq)

section \<open>Products\<close>

lemma product_terms_value:
  fixes a b :: "int list"
  assumes "length a = 10" "length b = 10"
  shows "poly 19 (product_terms a b) = poly 10 a * poly 10 b"
  unfolding poly_def sum_10 sum_19 fpos_simps by (simp add: product_terms_def algebra_simps)

lemma square_product_terms: "square_terms a = product_terms a a"
  by (simp add: square_terms_def product_terms_def algebra_simps)

lemma product_terms_of_int:
  assumes "10 \<le> length a" "10 \<le> length b"
  shows "product_terms (map of_int a) (map of_int b :: 'a::comm_ring_1 list) = map of_int (product_terms a b)"
proof -
  have "map of_int a ! i = (of_int (a ! i) :: 'a)" "map of_int b ! i = (of_int (b ! i) :: 'a)" if "i < 10" for i using that assms by simp_all
  then show ?thesis by (simp add: product_terms_def del: nth_map)
qed

lemma abs_prod_le: "\<bar>a\<bar> \<le> A \<Longrightarrow> \<bar>b\<bar> \<le> A \<Longrightarrow> \<bar>a * b\<bar> \<le> A * A" for a b A :: int
  by (simp add: abs_mult mult_mono)

lemma abs_sum_intros:
  "\<bar>a\<bar> \<le> A \<Longrightarrow> \<bar>b\<bar> \<le> B \<Longrightarrow> \<bar>a + b\<bar> \<le> A + B" "\<bar>a\<bar> \<le> A \<Longrightarrow> \<bar>2 * a\<bar> \<le> A + A" for a b A B :: int
  by simp_all

lemma product_terms_bound:
  fixes a b :: "int list"
  assumes "\<forall>i < 10. \<bar>a ! i\<bar> \<le> A" "\<forall>i < 10. \<bar>b ! i\<bar> \<le> A" "k < 19"
  shows "\<bar>product_terms a b ! k\<bar> \<le> 14 * (A * A)"
proof -
  define Q where "Q = A * A"
  have m: "\<bar>a ! i * b ! j\<bar> \<le> Q" if "i < 10" "j < 10" for i j using assms that by (simp add: abs_prod_le Q_def)
  have nn: "0 \<le> Q" by (simp add: Q_def)
  have "list_all (\<lambda>c. \<bar>c\<bar> \<le> 14 * Q) (product_terms a b)"
    by (simp only: product_terms_def list.pred_inject mult.assoc simp_thms)
      (intro conjI; (rule order_trans, (rule abs_sum_intros | (rule m, simp, simp))+, use nn in linarith))
  then show ?thesis using assms(3) by (simp add: list_all_length product_terms_def Q_def)
qed

lemma limbs_leD: "limbs_le n B x \<Longrightarrow> i < n \<Longrightarrow> \<bar>sint (x ! i)\<bar> \<le> B"
  by (simp add: limbs_le_def)

lemma map_lo32: "limbs_le 10 B x \<Longrightarrow> B < 2 ^ 31 \<Longrightarrow> take 10 (map lo32 x) = map of_int (map sint (take 10 x))"
  by (auto simp: limbs_le_def lo32_id intro!: nth_equalityI)

lemma product_terms_take: "product_terms (take 10 a) (take 10 b) = product_terms a b"
  by (simp add: product_terms_def)

lemma length_product_terms [simp]: "length (product_terms a b) = 19"
  by (simp add: product_terms_def)

lemma fproduct_value:
  assumes "loose a" "loose b"
  shows "limbs_le 19 (14 * 2 ^ 54) (fproduct a b)" "length (fproduct a b) = 19"
    "(\<Sum>i < 19. sint (fproduct a b ! i) * 2 ^ fpos i) = ival a * ival b"
proof -
  let ?a = "map sint (take 10 a)" and ?b = "map sint (take 10 b)"
  have l: "10 \<le> length a" "10 \<le> length b" "length ?a = 10" "length ?b = 10" using assms by (simp_all add: limbs_le_def)
  have "fproduct a b = product_terms (take 10 (map lo32 a)) (take 10 (map lo32 b))" by (simp add: fproduct_def product_terms_take)
  also have "take 10 (map lo32 a) = map of_int ?a" using assms(1) by (rule map_lo32) simp
  also have "take 10 (map lo32 b) = map of_int ?b" using assms(2) by (rule map_lo32) simp
  finally have f: "fproduct a b = map of_int (product_terms ?a ?b)" using l(3,4) by (simp only: product_terms_of_int)
  have bnd: "\<bar>product_terms ?a ?b ! k\<bar> \<le> 14 * 2 ^ 54" if "k < 19" for k
    using product_terms_bound[of ?a "2 ^ 27 - 1" ?b k] assms that by (simp add: limbs_le_def)
  have s: "sint (fproduct a b ! k) = product_terms ?a ?b ! k" if "k < 19" for k
    using bnd[OF that] that by (simp add: f sint_of_int64)
  then show "limbs_le 19 (14 * 2 ^ 54) (fproduct a b)" using bnd by (simp add: limbs_le_def f)
  show "length (fproduct a b) = 19" by (simp add: f)
  have "poly 10 ?a = ival a" "poly 10 ?b = ival b" using l by (simp_all add: poly_def ival_def)
  then show "(\<Sum>i < 19. sint (fproduct a b ! i) * 2 ^ fpos i) = ival a * ival b"
    using product_terms_value[OF l(3,4)] s by (simp add: poly_def)
qed

lemma fsquare_inner_eq: "fsquare_inner a = fproduct a a"
  by (simp add: fsquare_inner_def fproduct_def square_product_terms)

section \<open>Reduction\<close>

lemma mod_eqI: "b - a = p * c \<Longrightarrow> a mod p = b mod p" for a b c p :: int
  by (metis dvd_triv_left mod_eq_dvd_iff)

text \<open>The degree: limb \<open>i + 10\<close> weighs 2^255 times limb \<open>i\<close>, that is 19 times modulo the prime.\<close>

lemma freduce_degree_nth:
  assumes "length x = 19"
  shows "length (freduce_degree x) = 19" "i < 9 \<Longrightarrow> freduce_degree x ! i = x ! i + 19 * x ! (i + 10)" "freduce_degree x ! 9 = x ! 9"
proof -
  obtain x0 x1 x2 x3 x4 x5 x6 x7 x8 x9 x10 x11 x12 x13 x14 x15 x16 x17 x18 where
    x: "x = [x0, x1, x2, x3, x4, x5, x6, x7, x8, x9, x10, x11, x12, x13, x14, x15, x16, x17, x18]"
    using assms by (auto simp: numeral_eq_Suc length_Suc_conv)
  have f: "freduce_degree x = [x0 + 19 * x10, x1 + 19 * x11, x2 + 19 * x12, x3 + 19 * x13, x4 + 19 * x14, x5 + 19 * x15, x6 + 19 * x16, x7 + 19 * x17,
      x8 + 19 * x18, x9, x10, x11, x12, x13, x14, x15, x16, x17, x18]"
    by (simp add: freduce_degree_def x Let_def push_bit_eq_mult)
  show "length (freduce_degree x) = 19" "freduce_degree x ! 9 = x ! 9" unfolding f by (simp_all add: x)
  show "i < 9 \<Longrightarrow> freduce_degree x ! i = x ! i + 19 * x ! (i + 10)" unfolding f by (auto simp: x less_Suc_eq numeral_eq_Suc)
qed

lemma freduce_degree_value:
  assumes "limbs_le 19 (14 * 2 ^ 54) x" "length x = 19"
  shows "limbs_le 10 (280 * 2 ^ 54) (freduce_degree x)" "length (freduce_degree x) = 19"
    "ival (freduce_degree x) mod p25519 = (\<Sum>i < 19. sint (x ! i) * 2 ^ fpos i) mod p25519"
proof -
  have b: "\<bar>sint (x ! i)\<bar> \<le> 14 * 2 ^ 54" if "i < 19" for i using assms(1) that by (rule limbs_leD)
  have s: "sint (x ! i + 19 * x ! (i + 10)) = sint (x ! i) + 19 * sint (x ! (i + 10))" if "i < 9" for i
  proof -
    have "word_of_int (sint (x ! i) + 19 * sint (x ! (i + 10))) = x ! i + 19 * x ! (i + 10)" by simp
    moreover have "\<bar>sint (x ! i) + 19 * sint (x ! (i + 10))\<bar> < 2 ^ 63" using b[of i] b[of "i + 10"] that by simp
    ultimately show ?thesis by (metis sint_of_int64)
  qed
  show l: "length (freduce_degree x) = 19" using assms(2) by (rule freduce_degree_nth)
  show "limbs_le 10 (280 * 2 ^ 54) (freduce_degree x)" unfolding limbs_le_def
  proof (intro conjI allI impI)
    fix i :: nat assume "i < 10"
    then consider "i < 9" | "i = 9" by linarith
    then show "\<bar>sint (freduce_degree x ! i)\<bar> \<le> 280 * 2 ^ 54"
    proof cases
      case 1
      then show ?thesis unfolding freduce_degree_nth(2)[OF assms(2) 1] s[OF 1] using b[of i] b[of "i + 10"] by simp
    next
      case 2
      then show ?thesis using b[of 9] by (simp add: freduce_degree_nth(3)[OF assms(2)])
    qed
  qed (simp add: l)
  define X where "X i = sint (x ! i)" for i
  have d: "sint (freduce_degree x ! i) = (if i < 9 then X i + 19 * X (i + 10) else X i)" if "i < 10" for i
  proof (cases "i < 9")
    case False
    then have "i = 9" using that by simp
    then show ?thesis by (simp add: freduce_degree_nth(3)[OF assms(2)] X_def)
  qed (simp add: freduce_degree_nth(2)[OF assms(2)] s X_def)
  have "(\<Sum>i < 19. X i * 2 ^ fpos i) - (\<Sum>i < 10. (if i < 9 then X i + 19 * X (i + 10) else X i) * 2 ^ fpos i) =
      p25519 * (X 10 + X 11 * 2 ^ 26 + X 12 * 2 ^ 51 + X 13 * 2 ^ 77 + X 14 * 2 ^ 102 + X 15 * 2 ^ 128 + X 16 * 2 ^ 153 + X 17 * 2 ^ 179 + X 18 * 2 ^ 204)"
    unfolding sum_10 sum_19 p25519_def by simp
  moreover have "ival (freduce_degree x) = (\<Sum>i < 10. (if i < 9 then X i + 19 * X (i + 10) else X i) * 2 ^ fpos i)"
    unfolding ival_def by (rule sum.cong) (simp_all only: d lessThan_iff)
  ultimately show "ival (freduce_degree x) mod p25519 = (\<Sum>i < 19. sint (x ! i) * 2 ^ fpos i) mod p25519"
    unfolding X_def[symmetric] by (simp only: mod_eqI)
qed

end
