(* ===== verification/Curve25519_Reduce.thy ===== *)
theory Curve25519_Reduce
  imports Curve25519_Field
begin

text \<open>
  Reduction of the coefficients, and with it the field operations: every one keeps the bounds that the comments of the code state and computes modulo 2^255 - 19.
\<close>

section \<open>Division by shifts\<close>

definition quot :: "int \<Rightarrow> int \<Rightarrow> int" where
  "quot v m = (if v < 0 then - (- v div m) else v div m)"

lemma quot_facts:
  assumes "0 < m"
  shows "\<bar>v - m * quot v m\<bar> < m" "\<bar>quot v m\<bar> \<le> \<bar>v\<bar> div m"
proof -
  have r: "0 \<le> w mod m" "w mod m < m" "w - m * (w div m) = w mod m" for w
    using assms by (simp_all add: minus_mult_div_eq_mod)
  show "\<bar>v - m * quot v m\<bar> < m" using r[of v] r[of "- v"] by (auto simp: quot_def)
  show "\<bar>quot v m\<bar> \<le> \<bar>v\<bar> div m" using assms by (auto simp: quot_def pos_imp_zdiv_nonneg_iff abs_of_nonneg)
qed

lemma quot_round: "0 < m \<Longrightarrow> quot v m = (if v < 0 then v + (m - 1) else v) div m"
proof -
  assume m: "0 < m"
  have "(v + (m - 1)) div m = - (- v div m)"
  proof (rule int_div_pos_eq)
    show "v + (m - 1) = m * - (- v div m) + (m - 1 - - v mod m)" using mult_div_mod_eq[of m "- v"] by (simp add: algebra_simps)
  qed (use m pos_mod_bound[of m "- v"] pos_mod_sign[of m "- v"] in linarith)+
  then show ?thesis by (simp add: quot_def)
qed

lemma sign_bits: "signed_drop_bit 31 (ucast (drop_bit 32 v) :: 32 word) = (if sint (v :: limb) < 0 then - 1 else 0)"
proof -
  have v: "bit v 63 \<longleftrightarrow> sint v < 0" using bit_last_iff[of v] by simp
  then show ?thesis
    by (intro bit_word_eqI) (auto simp: bit_simps Suc_le_eq)
qed

lemma div_by_eq:
  assumes "\<bar>sint v\<bar> \<le> 2 ^ 62 + 2 ^ 61"
  shows "sint (div_by_2_26 v) = quot (sint v) (2 ^ 26)" "sint (div_by_2_25 v) = quot (sint v) (2 ^ 25)"
proof -
  have r: "(scast (drop_bit 6 (- 1 :: 32 word)) :: limb) = 0x3ffffff" "(scast (drop_bit 7 (- 1 :: 32 word)) :: limb) = 0x1ffffff" by code_simp+
  have a: "sint (v + 0x3ffffff) = sint v + (2 ^ 26 - 1)" "sint (v + 0x1ffffff) = sint v + (2 ^ 25 - 1)"
    using assms by (subst sint_arith; simp)+
  have "scast (drop_bit 6 (if sint v < 0 then - 1 else 0 :: 32 word)) = (if sint v < 0 then 0x3ffffff else 0 :: limb)"
    "scast (drop_bit 7 (if sint v < 0 then - 1 else 0 :: 32 word)) = (if sint v < 0 then 0x1ffffff else 0 :: limb)" using r by simp_all
  then have "sint (div_by_2_26 v) = drop_bit 26 (sint (v + (if sint v < 0 then 0x3ffffff else 0)))"
    "sint (div_by_2_25 v) = drop_bit 25 (sint (v + (if sint v < 0 then 0x1ffffff else 0)))"
    by (simp_all only: div_by_2_26_def div_by_2_25_def Let_def sign_bits sint_signed_drop_bit_eq)
  then show "sint (div_by_2_26 v) = quot (sint v) (2 ^ 26)" "sint (div_by_2_25 v) = quot (sint v) (2 ^ 25)"
    using quot_round[of "2 ^ 26" "sint v"] quot_round[of "2 ^ 25" "sint v"] a by (simp_all add: drop_bit_eq_div)
qed

section \<open>Carries\<close>

text \<open>The value of the first eleven limbs, and a carry out of limb \<open>i\<close>, \<open>k\<close> bits wide.\<close>

definition ival11 :: "limb list \<Rightarrow> int" where
  "ival11 x = ival x + sint (x ! 10) * 2 ^ 255"

definition carry :: "nat \<Rightarrow> nat \<Rightarrow> limb list \<Rightarrow> limb list" where
  "carry k i x = (let over = word_of_int (quot (sint (x ! i)) (2 ^ k)) in x[i := x ! i - push_bit k over, i + 1 := x ! (i + 1) + over])"

lemma carry_eq:
  assumes "\<bar>sint (x ! i)\<bar> \<le> 2 ^ 62 + 2 ^ 61"
  shows "carry_26 i x = carry 26 i x" "carry_25 i x = carry 25 i x"
proof -
  have "word_of_int (quot (sint (x ! i)) (2 ^ 26)) = div_by_2_26 (x ! i)" "word_of_int (quot (sint (x ! i)) (2 ^ 25)) = div_by_2_25 (x ! i)"
    unfolding div_by_eq[OF assms, symmetric] by simp_all
  then show "carry_26 i x = carry 26 i x" "carry_25 i x = carry 25 i x" unfolding carry_26_def carry_25_def carry_def by simp_all
qed

lemma carry_limbs:
  assumes "i + 1 < length x" "\<bar>sint (x ! i)\<bar> \<le> 2 ^ 62 + 2 ^ 61" "\<bar>sint (x ! (i + 1))\<bar> \<le> 2 ^ 62 + 2 ^ 61" "k = 25 \<or> k = 26"
  defines "q \<equiv> quot (sint (x ! i)) (2 ^ k)"
  shows "sint (carry k i x ! i) = sint (x ! i) - 2 ^ k * q" "sint (carry k i x ! (i + 1)) = sint (x ! (i + 1)) + q"
    "j \<noteq> i \<Longrightarrow> j \<noteq> i + 1 \<Longrightarrow> carry k i x ! j = x ! j" "length (carry k i x) = length x"
    "\<bar>sint (x ! i) - 2 ^ k * q\<bar> < 2 ^ k" "\<bar>q\<bar> \<le> \<bar>sint (x ! i)\<bar> div 2 ^ k"
proof -
  show b: "\<bar>sint (x ! i) - 2 ^ k * q\<bar> < 2 ^ k" "\<bar>q\<bar> \<le> \<bar>sint (x ! i)\<bar> div 2 ^ k"
    using quot_facts[of "2 ^ k" "sint (x ! i)"] by (simp_all add: q_def)
  have "(2 :: int) ^ k \<le> 2 ^ 26" "\<bar>sint (x ! i)\<bar> div 2 ^ k \<le> (2 ^ 62 + 2 ^ 61) div 2 ^ k" using assms(2,4) by (auto intro!: zdiv_mono1)
  then have "(2 :: int) ^ k \<le> 2 ^ 26" "\<bar>q\<bar> \<le> 2 ^ 38" using b(2) assms(4) by auto
  then have "\<bar>sint (x ! i) - 2 ^ k * q\<bar> < 2 ^ 63" "\<bar>sint (x ! (i + 1)) + q\<bar> < 2 ^ 63" using b(1) assms(3) by auto
  note s = this[THEN sint_of_int64]
  have e: "carry k i x = x[i := x ! i - push_bit k (word_of_int q), i + 1 := x ! (i + 1) + word_of_int q]" unfolding carry_def q_def Let_def ..
  have "x ! i - push_bit k (word_of_int q) = word_of_int (sint (x ! i) - 2 ^ k * q)" by (simp add: push_bit_eq_mult mult.commute)
  moreover have "x ! (i + 1) + word_of_int q = word_of_int (sint (x ! (i + 1)) + q)" by simp
  ultimately show "sint (carry k i x ! i) = sint (x ! i) - 2 ^ k * q" "sint (carry k i x ! (i + 1)) = sint (x ! (i + 1)) + q"
    using s assms(1) unfolding e by (simp_all only: nth_list_update length_list_update) simp_all
  show "j \<noteq> i \<Longrightarrow> j \<noteq> i + 1 \<Longrightarrow> carry k i x ! j = x ! j" "length (carry k i x) = length x" by (simp_all add: e)
qed

definition width :: "nat \<Rightarrow> nat" where
  "width i = (if even i then 26 else 25)"

lemma fpos_Suc: "fpos (Suc i) = fpos i + width i"
  by (auto simp: fpos_def width_def elim!: evenE oddE)

text \<open>After \<open>i\<close> carries the limbs below \<open>i\<close> are reduced; the value is the same.\<close>

definition carried :: "nat \<Rightarrow> limb list \<Rightarrow> limb list \<Rightarrow> bool" where
  "carried i x y \<longleftrightarrow> length y = length x \<and> (\<Sum>j < 11. sint (y ! j) * 2 ^ fpos j) = (\<Sum>j < 11. sint (x ! j) * 2 ^ fpos j) \<and>
     (\<forall>j < i. \<bar>sint (y ! j)\<bar> < 2 ^ width j) \<and> \<bar>sint (y ! i) - sint (x ! i)\<bar> \<le> 2 ^ 38 \<and> (\<forall>j > i. y ! j = x ! j)"

lemma sum_update_two:
  fixes f g :: "nat \<Rightarrow> int"
  assumes "Suc i < n" "\<forall>j. j \<noteq> i \<longrightarrow> j \<noteq> Suc i \<longrightarrow> f j = g j" "f i + f (Suc i) = g i + g (Suc i)"
  shows "(\<Sum>j < n. f j) = (\<Sum>j < n. g j)"
proof -
  have "{..<n} = insert i (insert (Suc i) ({..<n} - {i, Suc i}))" using assms(1) by auto
  moreover have "(\<Sum>j \<in> {..<n} - {i, Suc i}. f j) = (\<Sum>j \<in> {..<n} - {i, Suc i}. g j)" using assms(2) by (intro sum.cong) auto
  moreover have "(\<Sum>j \<in> insert i (insert (Suc i) ({..<n} - {i, Suc i})). h j) = h i + (h (Suc i) + (\<Sum>j \<in> {..<n} - {i, Suc i}. h j))" for h :: "nat \<Rightarrow> int"
    by (simp add: sum.insert)
  ultimately show ?thesis using assms(3) by (metis add.assoc)
qed

lemma carry_carried:
  assumes "carried i x y" "i < 10" "11 \<le> length x" "\<forall>j < 11. \<bar>sint (x ! j)\<bar> \<le> 280 * 2 ^ 54"
  shows "carried (Suc i) x (carry (width i) i y)"
proof -
  let ?k = "width i" and ?z = "carry (width i) i y"
  define q where "q = quot (sint (y ! i)) (2 ^ ?k)"
  have y: "length y = length x" "\<bar>sint (y ! i) - sint (x ! i)\<bar> \<le> 2 ^ 38" "\<forall>j > i. y ! j = x ! j" using assms(1) by (simp_all add: carried_def)
  have b: "\<bar>sint (y ! i)\<bar> \<le> 281 * 2 ^ 54" "\<bar>sint (y ! (i + 1))\<bar> \<le> 280 * 2 ^ 54"
    using y(2,3) assms(4)[rule_format, of i] assms(4)[rule_format, of "i + 1"] assms(2) by auto
  note c = carry_limbs[of i y ?k, folded q_def]
  have k: "?k = 25 \<or> ?k = 26" by (simp add: width_def)
  have z: "sint (?z ! i) = sint (y ! i) - 2 ^ ?k * q" "sint (?z ! (i + 1)) = sint (y ! (i + 1)) + q" "\<forall>j. j \<noteq> i \<longrightarrow> j \<noteq> i + 1 \<longrightarrow> ?z ! j = y ! j"
    "length ?z = length y" "\<bar>sint (y ! i) - 2 ^ ?k * q\<bar> < 2 ^ ?k" "\<bar>q\<bar> \<le> \<bar>sint (y ! i)\<bar> div 2 ^ ?k"
    using c k b y(1) assms(2,3) by auto
  have "\<bar>sint (y ! i)\<bar> div 2 ^ ?k \<le> (281 * 2 ^ 54) div 2 ^ ?k" using b(1) by (intro zdiv_mono1) auto
  then have q: "\<bar>q\<bar> \<le> 2 ^ 38" using z(6) k by auto
  have "(\<Sum>j < 11. sint (?z ! j) * 2 ^ fpos j) = (\<Sum>j < 11. sint (y ! j) * 2 ^ fpos j)"
  proof (rule sum_update_two[of i])
    have "sint (?z ! i) * 2 ^ fpos i + sint (?z ! (i + 1)) * 2 ^ fpos (Suc i) = sint (y ! i) * 2 ^ fpos i + sint (y ! (i + 1)) * 2 ^ fpos (Suc i)"
      unfolding z(1,2) fpos_Suc by (simp add: power_add algebra_simps)
    then show "sint (?z ! i) * 2 ^ fpos i + sint (?z ! Suc i) * 2 ^ fpos (Suc i) = sint (y ! i) * 2 ^ fpos i + sint (y ! Suc i) * 2 ^ fpos (Suc i)" by simp
  qed (use assms(2) z(3) in auto)
  moreover have "\<forall>j < Suc i. \<bar>sint (?z ! j)\<bar> < 2 ^ width j" using z assms(1) by (auto simp: carried_def less_Suc_eq)
  moreover have "\<bar>sint (?z ! Suc i) - sint (x ! Suc i)\<bar> \<le> 2 ^ 38" using z(2) q y(3) by simp
  ultimately show ?thesis using assms(1) y z(3,4) by (simp add: carried_def)
qed

lemma carries_carried:
  assumes "11 \<le> length x" "\<forall>j < 11. \<bar>sint (x ! j)\<bar> \<le> 280 * 2 ^ 54" "n \<le> 10"
  shows "carried n x (fold (\<lambda>i. carry (width i) i) [0..<n] x)"
  using assms(3)
proof (induction n)
  case (Suc n)
  then show ?case using carry_carried[OF _ _ assms(1,2)] by simp
qed (simp add: carried_def)

lemma fold_carries:
  assumes "11 \<le> length x" "\<forall>j < 11. \<bar>sint (x ! j)\<bar> \<le> 280 * 2 ^ 54"
  shows "fold (\<lambda>i output. carry_25 (i + 1) (carry_26 i output)) [0, 2, 4, 6, 8] x = fold (\<lambda>i. carry (width i) i) [0..<10] x"
proof -
  let ?f = "\<lambda>n. fold (\<lambda>i. carry (width i) i) [0..<n] x"
  have b: "\<bar>sint (?f n ! n)\<bar> \<le> 2 ^ 62 + 2 ^ 61" if "n < 10" for n
    using carries_carried[OF assms, of n] assms(2)[rule_format, of n] that by (auto simp: carried_def)
  have "carry_25 (i + 1) (carry_26 i (?f i)) = ?f (i + 2)" if "even i" "i < 9" for i
    using b[of i] b[of "i + 1"] that carry_eq(1)[of "?f i" i] carry_eq(2)[of "?f (i + 1)" "i + 1"] by (simp add: width_def)
  then obtain F where F: "F = ?f" "\<And>i. even i \<Longrightarrow> i < 9 \<Longrightarrow> carry_25 (i + 1) (carry_26 i (F i)) = F (i + 2)" by blast
  have "F 0 = x" "F 10 = ?f 10" by (simp_all only: F(1)) simp
  then show ?thesis using F(2)[of 0] F(2)[of 2] F(2)[of 4] F(2)[of 6] F(2)[of 8] by (simp flip: numeral_2_eq_2)
qed

text \<open>What \<^verbatim>\<open>freduce_coefficients\<close> promises: limbs below 2^26 and the same residue.\<close>

lemma freduce_coefficients_value:
  assumes "limbs_le 10 (280 * 2 ^ 54) x" "11 \<le> length x"
  shows "tight (freduce_coefficients x)" "length (freduce_coefficients x) = length x"
    "ival (freduce_coefficients x) mod p25519 = ival x mod p25519"
proof -
  define x0 where "x0 = x[10 := 0 :: limb]"
  define y where "y = fold (\<lambda>i. carry (width i) i) [0..<10] x0"
  have x0: "11 \<le> length x0" "\<forall>j < 11. \<bar>sint (x0 ! j)\<bar> \<le> 280 * 2 ^ 54" "ival x0 = ival x" "sint (x0 ! 10) = 0"
    using assms by (auto simp: x0_def limbs_le_def nth_list_update less_Suc_eq numeral_eq_Suc ival_def)
  have y: "length y = length x" "(\<Sum>j < 11. sint (y ! j) * 2 ^ fpos j) = (\<Sum>j < 11. sint (x0 ! j) * 2 ^ fpos j)"
    "\<forall>j < 10. \<bar>sint (y ! j)\<bar> < 2 ^ width j" "\<bar>sint (y ! 10)\<bar> \<le> 2 ^ 38"
    using carries_carried[OF x0(1,2), of 10] x0(4) by (simp_all add: carried_def y_def x0_def)
  define w where "w = y[0 := y ! 0 + 19 * y ! 10, 10 := 0]"
  have "fold (\<lambda>i output. carry_25 (i + 1) (carry_26 i output)) [0, 2, 4, 6, 8] x0 = y" unfolding y_def using x0(1,2) by (rule fold_carries)
  moreover have ne: "x \<noteq> []" "y \<noteq> []" using assms(2) y(1) by auto
  ultimately have f: "freduce_coefficients x = carry_26 0 w"
    using assms(2) y(1) by (simp add: freduce_coefficients_def Let_def x0_def[symmetric] w_def push_bit_eq_mult algebra_simps)
  have "\<bar>sint (y ! 0)\<bar> < 2 ^ 26" using y(3)[rule_format, of 0] by (simp add: width_def)
  then have y0: "\<bar>sint (y ! 0) + 19 * sint (y ! 10)\<bar> < 2 ^ 26 + 19 * 2 ^ 38" using y(4) by simp
  have "word_of_int (sint (y ! 0) + 19 * sint (y ! 10)) = y ! 0 + 19 * y ! 10" by simp
  then have w: "length w = length x" "sint (w ! 0) = sint (y ! 0) + 19 * sint (y ! 10)" "\<forall>j. j \<noteq> 0 \<longrightarrow> j \<noteq> 10 \<longrightarrow> w ! j = y ! j" "w ! 10 = 0"
    using y0 sint_of_int64[of "sint (y ! 0) + 19 * sint (y ! 10)"] y(1) assms(2) ne by (simp_all add: w_def)
  have b1: "\<bar>sint (w ! 1)\<bar> < 2 ^ 25" using w(3) y(3)[rule_format, of 1] by (simp add: width_def)
  define q where "q = quot (sint (w ! 0)) (2 ^ 26)"
  have c: "sint (carry 26 0 w ! 0) = sint (w ! 0) - 2 ^ 26 * q" "sint (carry 26 0 w ! 1) = sint (w ! 1) + q" "\<forall>j. j \<noteq> 0 \<longrightarrow> j \<noteq> 1 \<longrightarrow> carry 26 0 w ! j = w ! j"
    "length (carry 26 0 w) = length w" "\<bar>sint (w ! 0) - 2 ^ 26 * q\<bar> < 2 ^ 26" "\<bar>q\<bar> \<le> \<bar>sint (w ! 0)\<bar> div 2 ^ 26"
    using carry_limbs[of 0 w 26, folded q_def] w(1,2) assms(2) y0 b1 by auto
  have "\<bar>sint (w ! 0)\<bar> div 2 ^ 26 \<le> (2 ^ 26 + 19 * 2 ^ 38) div 2 ^ 26" using y0 w(2) by (intro zdiv_mono1) auto
  then have q: "\<bar>q\<bar> \<le> 2 ^ 17" using c(6) by simp
  have r: "freduce_coefficients x = carry 26 0 w" unfolding f using w(2) y0 by (intro carry_eq) simp
  show "length (freduce_coefficients x) = length x" using r c(4) w(1) by simp
  show "tight (freduce_coefficients x)" unfolding limbs_le_def r
  proof (intro conjI allI impI)
    fix i :: nat assume i: "i < 10"
    consider "i = 0" | "i = 1" | "i \<noteq> 0" "i \<noteq> 1" by blast
    then show "\<bar>sint (carry 26 0 w ! i)\<bar> \<le> 2 ^ 26 - 1"
    proof cases
      case 3
      have "(2 :: int) ^ width i \<le> 2 ^ 26" by (simp add: width_def)
      then show ?thesis using 3 i c(3) w(3) y(3)[rule_format, of i] by simp
    qed (use c q b1 in auto)
  qed (use assms(2) w(1) c(4) in simp)
  have "ival (carry 26 0 w) = ival w" unfolding ival_def
  proof (rule sum_update_two[of 0])
    show "sint (carry 26 0 w ! 0) * 2 ^ fpos 0 + sint (carry 26 0 w ! Suc 0) * 2 ^ fpos (Suc 0) = sint (w ! 0) * 2 ^ fpos 0 + sint (w ! Suc 0) * 2 ^ fpos (Suc 0)"
      using c(1,2) by (simp add: algebra_simps)
  qed (use c(3) in auto)
  moreover have "ival w = ival y + 19 * sint (y ! 10)" using w(2,3) by (simp add: ival_def sum_10)
  moreover have s11: "(\<Sum>j < 11. f j) = (\<Sum>j < 10. f j) + f (10 :: nat)" for f :: "nat \<Rightarrow> int" using sum.lessThan_Suc[of f 10] by simp
  have "ival y + sint (y ! 10) * 2 ^ 255 = ival x" using y(2) x0(3,4) unfolding s11 by (simp add: ival_def)
  ultimately have "ival x - ival (freduce_coefficients x) = p25519 * sint (y ! 10)" unfolding r p25519_def by (simp add: algebra_simps)
  then show "ival (freduce_coefficients x) mod p25519 = ival x mod p25519" by (rule mod_eqI)
qed

section \<open>The field operations\<close>

lemma fold_pointwise:
  assumes "n \<le> length x"
  shows "i < n \<Longrightarrow> fold (\<lambda>i x. x[i := f i (x ! i)]) [0..<n] x ! i = f i (x ! i)" "n \<le> i \<Longrightarrow> fold (\<lambda>i x. x[i := f i (x ! i)]) [0..<n] x ! i = x ! i"
    "length (fold (\<lambda>i x. x[i := f i (x ! i)]) [0..<n] x) = length x"
proof -
  have "(\<forall>i. fold (\<lambda>i x. x[i := f i (x ! i)]) [0..<n] x ! i = (if i < n then f i (x ! i) else x ! i)) \<and>
      length (fold (\<lambda>i x. x[i := f i (x ! i)]) [0..<n] x) = length x"
    using assms by (induction n) (auto simp: nth_list_update less_Suc_eq)
  then show "i < n \<Longrightarrow> fold (\<lambda>i x. x[i := f i (x ! i)]) [0..<n] x ! i = f i (x ! i)" "n \<le> i \<Longrightarrow> fold (\<lambda>i x. x[i := f i (x ! i)]) [0..<n] x ! i = x ! i"
    "length (fold (\<lambda>i x. x[i := f i (x ! i)]) [0..<n] x) = length x" by auto
qed

lemma fsum_fold: "fsum x y = fold (\<lambda>i x. x[i := x ! i + y ! i]) [0..<10] x"
proof -
  have "[0..<10] = [0, 1, 2, 3, 4, 5, 6, 7, 8, 9 :: nat]" by (simp add: upt_rec)
  then show ?thesis by (simp add: fsum_def)
qed

lemma nth_fsum: "10 \<le> length x \<Longrightarrow> i < 10 \<Longrightarrow> fsum x y ! i = x ! i + y ! i" "10 \<le> length x \<Longrightarrow> length (fsum x y) = length x"
  using fold_pointwise[where n = 10 and x = x and f = "\<lambda>i a. a + y ! i"] by (simp_all only: fsum_fold)

lemma nth_fdifference: "10 \<le> length x \<Longrightarrow> i < 10 \<Longrightarrow> fdifference x y ! i = y ! i - x ! i" "10 \<le> length x \<Longrightarrow> length (fdifference x y) = length x"
  using fold_pointwise[where n = 10 and x = x and f = "\<lambda>i a. y ! i - a"] by (simp_all only: fdifference_def)

lemma nth_fscalar: "10 \<le> length x \<Longrightarrow> i < 10 \<Longrightarrow> fscalar_product x y c ! i = y ! i * c" "10 \<le> length x \<Longrightarrow> length (fscalar_product x y c) = length x"
  using fold_pointwise[where n = 10 and x = x and f = "\<lambda>i a. y ! i * c"] by (simp_all only: fscalar_product_def)

lemma loose_tight: "tight x \<Longrightarrow> loose x"
  by (auto simp: limbs_le_def)

lemma fsum_value:
  assumes "tight x" "tight y"
  shows "loose (fsum x y)" "length (fsum x y) = length x" "ival (fsum x y) = ival x + ival y"
proof -
  have l: "10 \<le> length x" using assms by (simp add: limbs_le_def)
  have s: "sint (fsum x y ! i) = sint (x ! i) + sint (y ! i)" if "i < 10" for i
    using limbs_leD[OF assms(1) that] limbs_leD[OF assms(2) that] nth_fsum(1)[OF l that] by (simp add: sint_arith)
  show "length (fsum x y) = length x" by (rule nth_fsum(2)[OF l])
  then show "loose (fsum x y)" unfolding limbs_le_def using l s limbs_leD[OF assms(1)] limbs_leD[OF assms(2)] by fastforce
  show "ival (fsum x y) = ival x + ival y" unfolding ival_def by (simp add: s distrib_right sum.distrib)
qed

lemma fdifference_value:
  assumes "tight x" "tight y"
  shows "loose (fdifference x y)" "length (fdifference x y) = length x" "ival (fdifference x y) = ival y - ival x"
proof -
  have l: "10 \<le> length x" using assms by (simp add: limbs_le_def)
  have s: "sint (fdifference x y ! i) = sint (y ! i) - sint (x ! i)" if "i < 10" for i
    using limbs_leD[OF assms(1) that] limbs_leD[OF assms(2) that] nth_fdifference(1)[OF l that] by (simp add: sint_arith)
  show "length (fdifference x y) = length x" by (rule nth_fdifference(2)[OF l])
  then show "loose (fdifference x y)" unfolding limbs_le_def using l s limbs_leD[OF assms(1)] limbs_leD[OF assms(2)] by fastforce
  show "ival (fdifference x y) = ival y - ival x" unfolding ival_def by (simp add: s left_diff_distrib sum_subtractf)
qed

lemma fscalar_value:
  assumes "loose y" "10 \<le> length x"
  shows "limbs_le 10 (280 * 2 ^ 54) (fscalar_product x y 121665)" "ival (fscalar_product x y 121665) = 121665 * ival y"
proof -
  have s: "sint (fscalar_product x y 121665 ! i) = sint (y ! i) * 121665" if "i < 10" for i
    using limbs_leD[OF assms(1) that] nth_fscalar(1)[OF assms(2) that] by (simp add: sint_arith)
  show "limbs_le 10 (280 * 2 ^ 54) (fscalar_product x y 121665)" unfolding limbs_le_def
    using s limbs_leD[OF assms(1)] nth_fscalar(2)[OF assms(2)] assms(2) by fastforce
  show "ival (fscalar_product x y 121665) = 121665 * ival y" unfolding ival_def by (simp add: s sum_distrib_left mult_ac)
qed

lemma product_value:
  assumes "loose a" "loose b"
  defines "r \<equiv> freduce_coefficients (freduce_degree (fproduct a b))"
  shows "tight r" "length r = 19" "ival r mod p25519 = (ival a * ival b) mod p25519"
  unfolding r_def using fproduct_value[OF assms(1,2)] freduce_degree_value[OF fproduct_value(1,2)[OF assms(1,2)]]
    freduce_coefficients_value[of "freduce_degree (fproduct a b)"] by simp_all

lemma ival_memcpy: "10 \<le> length r \<Longrightarrow> 10 \<le> length x \<Longrightarrow> ival (memcpy x 0 (take 10 r)) = ival r"
  "10 \<le> length r \<Longrightarrow> 10 \<le> length x \<Longrightarrow> limbs_le 10 B (memcpy x 0 (take 10 r)) = limbs_le 10 B r"
  by (simp_all add: ival_def memcpy_def nth_append limbs_le_def)

lemma fmul_value:
  assumes "loose a" "loose b" "10 \<le> length x"
  shows "tight (fmul x a b)" "length (fmul x a b) = length x" "ival (fmul x a b) mod p25519 = (ival a * ival b) mod p25519"
  using product_value[OF assms(1,2)] assms(3) by (simp_all add: fmul_def ival_memcpy)

lemma fsquare_value:
  assumes "loose a" "10 \<le> length x"
  shows "tight (fsquare x a)" "length (fsquare x a) = length x" "ival (fsquare x a) mod p25519 = (ival a * ival a) mod p25519"
  using product_value[OF assms(1,1)] assms(2) by (simp_all add: fsquare_def fsquare_inner_eq ival_memcpy)

end
