(* ===== verification/Curve25519_Ladder.thy ===== *)
theory Curve25519_Ladder
  imports Curve25519_Reduce
begin

text \<open>
  The Montgomery ladder of RFC 7748 over the integers modulo 2^255 - 19, and the proof that \<^verbatim>\<open>fmonty\<close>, \<^verbatim>\<open>cmult\<close> and \<^verbatim>\<open>crecip\<close> compute it on limbs.
\<close>

section \<open>The standard\<close>

text \<open>Section 5 of RFC 7748; a state is \<open>((x_2, z_2, x_3, z_3), swap)\<close>, arithmetic is in the field.\<close>

abbreviation fadd :: "int \<Rightarrow> int \<Rightarrow> int" where "fadd a b \<equiv> (a + b) mod p25519"
abbreviation fsub :: "int \<Rightarrow> int \<Rightarrow> int" where "fsub a b \<equiv> (a - b) mod p25519"
abbreviation fmult :: "int \<Rightarrow> int \<Rightarrow> int" where "fmult a b \<equiv> (a * b) mod p25519"

definition rfc_step :: "int \<Rightarrow> int \<times> int \<times> int \<times> int \<Rightarrow> int \<times> int \<times> int \<times> int" where
  "rfc_step x_1 s =
     (case s of (x_2, z_2, x_3, z_3) \<Rightarrow>
        let A = fadd x_2 z_2; AA = fmult A A;
            B = fsub x_2 z_2; BB = fmult B B;
            E = fsub AA BB;
            C = fadd x_3 z_3; D = fsub x_3 z_3;
            DA = fmult D A; CB = fmult C B;
            x_3 = fmult (fadd DA CB) (fadd DA CB);
            z_3 = fmult x_1 (fmult (fsub DA CB) (fsub DA CB));
            x_2 = fmult AA BB;
            z_2 = fmult E (fadd AA (fmult 121665 E))
        in (x_2, z_2, x_3, z_3))"

definition cswap :: "bool \<Rightarrow> 'a \<times> 'a \<times> 'a \<times> 'a \<Rightarrow> 'a \<times> 'a \<times> 'a \<times> 'a" where
  "cswap b s = (case s of (x_2, z_2, x_3, z_3) \<Rightarrow> if b then (x_3, z_3, x_2, z_2) else s)"

definition rfc_iter :: "int \<Rightarrow> bool \<Rightarrow> (int \<times> int \<times> int \<times> int) \<times> bool \<Rightarrow> (int \<times> int \<times> int \<times> int) \<times> bool" where
  "rfc_iter x_1 k_t s = (case s of (q, swap) \<Rightarrow> (rfc_step x_1 (cswap (swap \<noteq> k_t) q), k_t))"

definition rfc_ladder :: "nat \<Rightarrow> int \<Rightarrow> int \<Rightarrow> int" where
  "rfc_ladder bits k u =
     (case fold (\<lambda>t. rfc_iter u (bit k (bits - 1 - t))) [0..<bits] ((1, 0, u, 1), False) of (q, swap) \<Rightarrow>
        case cswap swap q of (x_2, z_2, _, _) \<Rightarrow> fmult x_2 (z_2 ^ nat (p25519 - 2) mod p25519))"

section \<open>One step\<close>

text \<open>A limb array stands for a field element.\<close>

definition felt :: "limb list \<Rightarrow> int \<Rightarrow> bool" where
  "felt x v \<longleftrightarrow> tight x \<and> ival x mod p25519 = v mod p25519"

definition loose_felt :: "limb list \<Rightarrow> int \<Rightarrow> bool" where
  "loose_felt x v \<longleftrightarrow> loose x \<and> ival x mod p25519 = v mod p25519"

lemma fe_len: "felt x v \<Longrightarrow> 10 \<le> length x" "loose_felt x v \<Longrightarrow> 10 \<le> length x"
  by (simp_all add: felt_def loose_felt_def limbs_le_def)

lemma fe_loose: "felt x v \<Longrightarrow> loose_felt x v"
  using loose_tight by (simp add: felt_def loose_felt_def)

lemma fe_cong: "felt x v \<Longrightarrow> v mod p25519 = w mod p25519 \<Longrightarrow> felt x w"
  by (simp add: felt_def)

lemma fe_sum: "felt x v \<Longrightarrow> felt y w \<Longrightarrow> loose_felt (fsum x y) (fadd v w)"
  using fsum_value[of x y] by (auto simp: felt_def loose_felt_def intro: mod_add_cong)

lemma fe_difference: "felt x v \<Longrightarrow> felt y w \<Longrightarrow> loose_felt (fdifference x y) (fsub w v)"
  using fdifference_value[of x y] by (auto simp: felt_def loose_felt_def intro: mod_diff_cong)

lemma fe_product: "loose_felt x v \<Longrightarrow> loose_felt y w \<Longrightarrow> felt (freduce_coefficients (freduce_degree (fproduct x y))) (fmult v w)"
  using product_value[of x y] by (auto simp: felt_def loose_felt_def intro: mod_mult_cong)

lemma fe_mul: "loose_felt x v \<Longrightarrow> loose_felt y w \<Longrightarrow> 10 \<le> length z \<Longrightarrow> felt (fmul z x y) (fmult v w)"
  using fmul_value[of x y z] by (auto simp: felt_def loose_felt_def intro: mod_mult_cong)

lemma fe_square: "loose_felt x v \<Longrightarrow> 10 \<le> length z \<Longrightarrow> felt (fsquare z x) (fmult v v)"
  using fsquare_value[of x z] by (auto simp: felt_def loose_felt_def intro: mod_mult_cong)

lemma fe_scalar:
  assumes "loose_felt y v" "11 \<le> length x"
  shows "felt (freduce_coefficients (fscalar_product x y 121665)) (fmult 121665 v)"
proof -
  have "length (fscalar_product x y 121665) = length x" using assms(2) by (simp add: nth_fscalar)
  then show ?thesis using freduce_coefficients_value[of "fscalar_product x y 121665"] fscalar_value[of y x] assms
    by (auto simp: felt_def loose_felt_def intro: mod_mult_cong)
qed

lemma fe_take: "felt x v \<Longrightarrow> felt (take 10 x) v"
  by (simp add: felt_def limbs_le_def ival_def)

lemma fe_memcpy: "felt x v \<Longrightarrow> 10 \<le> length y \<Longrightarrow> felt (memcpy y 0 (take 10 x)) v"
  using fe_len[of x v] by (simp add: felt_def ival_memcpy)

lemma length_fold: "(\<And>i y. length (f i y) = length y) \<Longrightarrow> length (fold f is x) = length x"
  by (induction "is" arbitrary: x) simp_all

lemma length_carry: "length (carry_26 i x) = length x" "length (carry_25 i x) = length x"
  by (simp_all add: carry_26_def carry_25_def Let_def)

lemma length_reduce [simp]: "length (freduce_degree x) = length x" "length (freduce_coefficients x) = length x"
proof -
  show "length (freduce_degree x) = length x"
    unfolding freduce_degree_def by (rule length_fold) (simp only: Let_def length_list_update)
  have "length (fold (\<lambda>i output. carry_25 (i + 1) (carry_26 i output)) [0, 2, 4, 6, 8] y) = length y" for y
    by (rule length_fold) (simp only: length_carry)
  then show "length (freduce_coefficients x) = length x"
    by (simp only: freduce_coefficients_def Let_def length_carry length_list_update)
qed

lemma length_products [simp]: "length (fproduct x y) = 19" "length (fsquare_inner x) = 19"
  by (simp_all add: fproduct_def fsquare_inner_def product_terms_def square_terms_def)

lemma length_fmul [simp]: "10 \<le> length z \<Longrightarrow> length (fsquare z x) = length z"
  "10 \<le> length z \<Longrightarrow> length (fmul z x y) = length z"
  by (simp_all add: fsquare_def fmul_def memcpy_def)

lemma fmult_sq_neg: "fmult (fmult (fsub a b) (fsub a b)) c = fmult c (fmult (fsub b a) (fsub b a))"
proof -
  have "(a - b) * (a - b) * c = c * ((b - a) * (b - a))" by (simp add: algebra_simps)
  then have "((a - b) * (a - b) * c) mod p25519 = (c * ((b - a) * (b - a))) mod p25519" by (rule arg_cong)
  then show ?thesis by (simp only: mod_simps)
qed

lemma fmonty_step:
  assumes "felt x x_2" "felt z z_2" "felt xprime x_3" "felt zprime z_3" "felt qmqp x_1" "10 \<le> length x3" "10 \<le> length z3"
  shows "\<exists>a b c d e f g h v2 w2 v3 w3. fmonty x3 z3 x z xprime zprime qmqp = (a, b, c, d, e, f, g, h) \<and>
    rfc_step x_1 (x_2, z_2, x_3, z_3) = (v2, w2, v3, w3) \<and> felt a v2 \<and> felt b w2 \<and> felt c v3 \<and> felt d w3 \<and>
    length e = length x \<and> length f = length z \<and> length g = length xprime \<and> length h = length zprime \<and>
    length a = 19 \<and> length b = 19 \<and> length c = length x3 \<and> length d = length z3"
proof -
  note len = fe_len(1)[OF assms(1)] fe_len(1)[OF assms(2)] fe_len(1)[OF assms(3)] fe_len(1)[OF assms(4)]
  define A B where "A = fadd x_2 z_2" and "B = fsub x_2 z_2"
  define C D where "C = fadd x_3 z_3" and "D = fsub x_3 z_3"
  define AA BB where "AA = fmult A A" and "BB = fmult B B"
  define E DA CB where "E = fsub AA BB" and "DA = fmult D A" and "CB = fmult C B"
  define xa where "xa = fsum x z"
  define za where "za = fdifference z (take 10 x)"
  define xp where "xp = fsum xprime zprime"
  define zp where "zp = fdifference zprime (take 10 xprime)"
  define xxp where "xxp = freduce_coefficients (freduce_degree (fproduct xp za))"
  define zzp where "zzp = freduce_coefficients (freduce_degree (fproduct xa zp))"
  define xxx where "xxx = fsquare (replicate 19 0) (fsum xxp zzp)"
  define zzz where "zzz = fsquare (replicate 19 0) (fdifference zzp (take 10 xxp))"
  define zq where "zq = freduce_coefficients (freduce_degree (fproduct zzz qmqp))"
  define xx where "xx = fsquare (replicate 19 0) xa"
  define zz where "zz = fsquare (replicate 19 0) za"
  define ze where "ze = fdifference zz xx"
  define zs where "zs = fsum (freduce_coefficients (fscalar_product (memset (replicate 19 0) 10 0 9) ze 121665)) xx"
  have v: "loose_felt xa A" "loose_felt za B" "loose_felt xp C" "loose_felt zp D"
    unfolding xa_def za_def xp_def zp_def A_def B_def C_def D_def
    using fe_sum[OF assms(1,2)] fe_difference[OF assms(2) fe_take[OF assms(1)]] fe_sum[OF assms(3,4)]
      fe_difference[OF assms(4) fe_take[OF assms(3)]] by simp_all
  have p: "felt xxp CB" "felt zzp DA"
    using fe_product[OF v(3,2)] fe_product[OF v(1,4)] by (simp_all add: xxp_def zzp_def CB_def DA_def mult.commute)
  have q: "felt xxx (fmult (fadd DA CB) (fadd DA CB))" "felt zzz (fmult (fsub CB DA) (fsub CB DA))"
    using fe_square[OF fe_sum[OF p], of "replicate 19 0"] fe_square[OF fe_difference[OF p(2) fe_take[OF p(1)]], of "replicate 19 0"]
    by (simp_all add: xxx_def zzz_def add.commute)
  have r: "felt zq (fmult x_1 (fmult (fsub DA CB) (fsub DA CB)))"
    using fe_product[OF fe_loose[OF q(2)] fe_loose[OF assms(5)]] by (simp add: zq_def fmult_sq_neg)
  have s: "felt xx AA" "felt zz BB"
    using fe_square[OF v(1), of "replicate 19 0"] fe_square[OF v(2), of "replicate 19 0"] by (simp_all add: xx_def zz_def AA_def BB_def)
  have e: "loose_felt ze E" using fe_difference[OF s(2,1)] by (simp add: ze_def E_def)
  have "felt (freduce_coefficients (fscalar_product (memset (replicate 19 0) 10 0 9) ze 121665)) (fmult 121665 E)"
    by (rule fe_scalar[OF e]) (simp add: memset_def)
  from fe_sum[OF this s(1)] have t: "loose_felt zs (fadd AA (fmult 121665 E))" by (simp add: zs_def add.commute)
  have eq: "fmonty x3 z3 x z xprime zprime qmqp =
      (freduce_coefficients (freduce_degree (fproduct xx zz)), freduce_coefficients (freduce_degree (fproduct ze zs)),
       memcpy x3 0 (take 10 xxx), memcpy z3 0 (take 10 zq), xa, za, xp, zp)"
    by (simp only: fmonty_def Let_def xa_def za_def xp_def zp_def xxp_def zzp_def xxx_def zzz_def zq_def xx_def zz_def ze_def zs_def)
  have spec: "rfc_step x_1 (x_2, z_2, x_3, z_3) =
      (fmult AA BB, fmult E (fadd AA (fmult 121665 E)), fmult (fadd DA CB) (fadd DA CB), fmult x_1 (fmult (fsub DA CB) (fsub DA CB)))"
    by (simp only: rfc_step_def prod.case Let_def A_def B_def C_def D_def AA_def BB_def E_def DA_def CB_def)
  have l: "length xxx = 19" "length zq = 19" by (simp_all add: xxx_def zq_def)
  have f: "felt (freduce_coefficients (freduce_degree (fproduct xx zz))) (fmult AA BB)"
    "felt (freduce_coefficients (freduce_degree (fproduct ze zs))) (fmult E (fadd AA (fmult 121665 E)))"
    "felt (memcpy x3 0 (take 10 xxx)) (fmult (fadd DA CB) (fadd DA CB))"
    "felt (memcpy z3 0 (take 10 zq)) (fmult x_1 (fmult (fsub DA CB) (fsub DA CB)))"
    by (rule fe_product[OF fe_loose[OF s(1)] fe_loose[OF s(2)]] fe_product[OF e t] fe_memcpy[OF q(1) assms(6)] fe_memcpy[OF r assms(7)])+
  show ?thesis
    unfolding eq spec using f len assms(6,7) l
    by (simp add: xa_def za_def xp_def zp_def nth_fsum(2) nth_fdifference(2) memcpy_def)
qed

section \<open>The scalar multiplication\<close>

lemma swap_fold:
  fixes f g :: "'a \<Rightarrow> 'a \<Rightarrow> 'a"
  assumes "n \<le> length a" "n \<le> length b"
  shows "fold (\<lambda>i (a, b). (a[i := f (a ! i) (b ! i)], b[i := g (a ! i) (b ! i)])) [0..<n] (a, b) =
    (map (\<lambda>i. if i < n then f (a ! i) (b ! i) else a ! i) [0..<length a], map (\<lambda>i. if i < n then g (a ! i) (b ! i) else b ! i) [0..<length b])"
  using assms
proof (induction n)
  case 0
  show ?case by (simp add: map_nth)
next
  case (Suc n)
  then show ?case by (auto simp: intro!: nth_equalityI simp: nth_list_update less_Suc_eq)
qed

lemma scast_ucast_small: "\<bar>sint (v :: limb)\<bar> \<le> 2 ^ 26 - 1 \<Longrightarrow> scast (ucast v :: s32) = v"
  using lo32_id[of v] by (simp add: lo32_def)

lemma fe_nth: "felt x v \<Longrightarrow> \<forall>i < 10. y ! i = x ! i \<Longrightarrow> 10 \<le> length y \<Longrightarrow> felt y v"
  by (simp add: felt_def limbs_le_def ival_def)

lemma swap_conditional_fe:
  assumes "felt a v" "felt b w" "bt = 0 \<or> bt = 1"
  shows "\<exists>a' b'. swap_conditional a b bt = (a', b') \<and> length a' = length a \<and> length b' = length b \<and>
    felt a' (if bt = 1 then w else v) \<and> felt b' (if bt = 1 then v else w)"
proof -
  let ?s = "ucast (- bt) :: s32"
  let ?x = "\<lambda>c d :: limb. ?s AND (ucast c XOR ucast d)"
  define f where "f c d = (scast (ucast c XOR ?x c d) :: limb)" for c d :: limb
  define g where "g c d = (scast (ucast d XOR ?x c d) :: limb)" for c d :: limb
  have "ucast (- 1 :: limb) = (- 1 :: s32)" by (rule bit_word_eqI) (simp add: bit_simps)
  then have s: "?s = (if bt = 1 then - 1 else 0)" using assms(3) by auto
  have len: "10 \<le> length a" "10 \<le> length b" using fe_len assms(1,2) by blast+
  have val: "f c d = (if bt = 1 then d else c)" "g c d = (if bt = 1 then c else d)"
    if "\<bar>sint c\<bar> \<le> 2 ^ 26 - 1" "\<bar>sint d\<bar> \<le> 2 ^ 26 - 1" for c d :: limb
  proof -
    have "y XOR (y XOR w) = w" "w XOR (y XOR w) = y" for y w :: s32 by (rule bit_word_eqI, auto simp: bit_simps)+
    then show "f c d = (if bt = 1 then d else c)" "g c d = (if bt = 1 then c else d)"
      using scast_ucast_small[OF that(1)] scast_ucast_small[OF that(2)] by (simp_all add: f_def g_def s)
  qed
  have sm: "\<bar>sint (a ! i)\<bar> \<le> 2 ^ 26 - 1" "\<bar>sint (b ! i)\<bar> \<le> 2 ^ 26 - 1" if "i < 10" for i
    using assms(1,2) that by (simp_all add: felt_def limbs_le_def)
  define a' where "a' = map (\<lambda>i. if i < 10 then f (a ! i) (b ! i) else a ! i) [0..<length a]"
  define b' where "b' = map (\<lambda>i. if i < 10 then g (a ! i) (b ! i) else b ! i) [0..<length b]"
  have eq: "swap_conditional a b bt = (a', b')"
    using swap_fold[OF len, of f g] by (simp only: swap_conditional_def Let_def f_def g_def a'_def b'_def)
  have "a' ! i = (if bt = 1 then b ! i else a ! i)" "b' ! i = (if bt = 1 then a ! i else b ! i)" if "i < 10" for i
    using that len val[OF sm(1)[OF that] sm(2)[OF that]] by (simp_all add: a'_def b'_def)
  then have "felt a' (if bt = 1 then w else v)" "felt b' (if bt = 1 then v else w)"
    using len assms(1,2) by (auto intro!: fe_nth[OF assms(1)] fe_nth[OF assms(2)] simp: a'_def b'_def)
  then show ?thesis using eq by (simp add: a'_def b'_def)
qed


text \<open>A state of \<^verbatim>\<open>cmult\<close> holds the two points of a state of the standard, swapped back.\<close>

definition holds :: "ladder_st \<Rightarrow> (int \<times> int \<times> int \<times> int) \<times> bool \<Rightarrow> bool" where
  "holds s r \<longleftrightarrow>
     (case r of (q, swap) \<Rightarrow> case cswap swap q of (x_2, z_2, x_3, z_3) \<Rightarrow>
        felt (nqx s) x_2 \<and> felt (nqz s) z_2 \<and> felt (nqpqx s) x_3 \<and> felt (nqpqz s) z_3) \<and> 10 \<le> length (nqpqx2 s) \<and> 10 \<le> length (nqpqz2 s)"

lemma cmult_bit_holds:
  assumes "holds s (r, sw)" "felt q u"
  shows "holds (cmult_bit q (of_bool b) s) (rfc_iter u b (r, sw))"
proof -
  obtain x2 z2 x3 z3 where r: "cswap sw r = (x2, z2, x3, z3)" by (cases "cswap sw r")
  let ?b = "of_bool b :: limb"
  have bt: "?b = 0 \<or> ?b = 1" by simp
  have h: "felt (nqx s) x2" "felt (nqz s) z2" "felt (nqpqx s) x3" "felt (nqpqz s) z3" "10 \<le> length (nqpqx2 s)" "10 \<le> length (nqpqz2 s)"
    using assms(1) r by (simp_all add: holds_def)
  obtain ax apx where x: "swap_conditional (nqx s) (nqpqx s) ?b = (ax, apx)" "felt ax (if b then x3 else x2)" "felt apx (if b then x2 else x3)"
    using swap_conditional_fe[OF h(1,3) bt] by auto
  obtain az apz where z: "swap_conditional (nqz s) (nqpqz s) ?b = (az, apz)" "felt az (if b then z3 else z2)" "felt apz (if b then z2 else z3)"
    using swap_conditional_fe[OF h(2,4) bt] by auto
  obtain f1 f2 f3 f4 f5 f6 f7 f8 v2 w2 v3 w3 where m: "fmonty (nqpqx2 s) (nqpqz2 s) ax az apx apz q = (f1, f2, f3, f4, f5, f6, f7, f8)"
    and st: "rfc_step u (if b then x3 else x2, if b then z3 else z2, if b then x2 else x3, if b then z2 else z3) = (v2, w2, v3, w3)"
    and f: "felt f1 v2" "felt f2 w2" "felt f3 v3" "felt f4 w3" "length f7 = length apx" "length f8 = length apz"
    using fmonty_step[OF x(2) z(2) x(3) z(3) assms(2) h(5,6)] by blast
  obtain g1 g3 where g: "swap_conditional f1 f3 ?b = (g1, g3)" "felt g1 (if b then v3 else v2)" "felt g3 (if b then v2 else v3)"
    using swap_conditional_fe[OF f(1,3) bt] by auto
  obtain g2 g4 where g': "swap_conditional f2 f4 ?b = (g2, g4)" "felt g2 (if b then w3 else w2)" "felt g4 (if b then w2 else w3)"
    using swap_conditional_fe[OF f(2,4) bt] by auto
  have "cswap (sw \<noteq> b) r = (if b then x3 else x2, if b then z3 else z2, if b then x2 else x3, if b then z2 else z3)"
    using r by (auto simp: cswap_def split: prod.splits if_splits)
  then have "rfc_iter u b (r, sw) = ((v2, w2, v3, w3), b)" using st by (simp add: rfc_iter_def)
  moreover have "10 \<le> length f7" "10 \<le> length f8" using f(5,6) fe_len x(3) z(3) by metis+
  ultimately show ?thesis using x(1) z(1) m g g' by (simp add: cmult_bit_def holds_def cswap_def split: if_splits)
qed

lemma cmult_bits_holds:
  assumes "holds s r" "felt q u" "j \<le> 8"
  shows "holds (cmult_bits j q byte s) (fold (\<lambda>t. rfc_iter u (bit byte (7 - t))) [0..<j] r)"
  using assms(1,3)
proof (induction j arbitrary: byte s r)
  case (Suc j)
  have "drop_bit 7 byte = of_bool (bit byte 7)" 
  proof (rule bit_word_eqI)
    fix n :: nat
    have "\<not> bit byte (7 + n)" if "0 < n" using that bit_imp_le_length[of byte "7 + n"] by auto
    then show "bit (drop_bit 7 byte) n = bit (of_bool (bit byte 7) :: u8) n" by (cases "n = 0") (auto simp: bit_simps)
  qed
  then have b: "ucast (drop_bit 7 byte) = (of_bool (bit byte 7) :: limb)" by simp
  have "holds (cmult_bit q (ucast (drop_bit 7 byte)) s) (rfc_iter u (bit byte 7) r)"
    unfolding b using cmult_bit_holds[OF _ assms(2)] Suc.prems(1) by (metis surj_pair)
  from Suc.IH[OF this, of "push_bit 1 byte"] Suc.prems(2)
  have "holds (cmult_bits (Suc j) q byte s) (fold (\<lambda>t. rfc_iter u (bit (push_bit 1 byte) (7 - t))) [0..<j] (rfc_iter u (bit byte 7) r))" by simp
  moreover have "bit (push_bit 1 byte) (7 - t) = bit byte (7 - Suc t)" if "t < j" for t
  proof -
    have "7 - t = Suc (7 - Suc t)" "7 - t < 8" using that Suc.prems(2) by simp_all
    then show ?thesis unfolding bit_push_bit_iff by simp
  qed
  then have "fold (\<lambda>t. rfc_iter u (bit (push_bit 1 byte) (7 - t))) [0..<j] y = fold (\<lambda>t. rfc_iter u (bit byte (7 - Suc t))) [0..<j] y" for y
    by (intro fold_cong) simp_all
  moreover have "fold (\<lambda>t. rfc_iter u (bit byte (7 - t))) [0..<Suc j] r = fold (\<lambda>t. rfc_iter u (bit byte (7 - Suc t))) [0..<j] (rfc_iter u (bit byte 7) r)"
    by (simp only: upt_conv_Cons zero_less_Suc map_Suc_upt[symmetric] fold_map fold_simps comp_def diff_zero) 
  ultimately show ?case by simp
qed simp


section \<open>Numbers as bytes\<close>

primrec le_int :: "bytes \<Rightarrow> int" where
  "le_int [] = 0"
| "le_int (b # bs) = uint b + 256 * le_int bs"

lemma bit_le_int: "bit (le_int bs) m \<longleftrightarrow> m div 8 < length bs \<and> bit (bs ! (m div 8)) (m mod 8)"
proof (induction bs arbitrary: m)
  case (Cons b bs)
  have "uint b + 256 * le_int bs = uint b OR push_bit 8 (le_int bs)"
  proof -
    have "uint b AND push_bit 8 (le_int bs) = 0" by (rule bit_eqI) (auto simp: bit_simps dest: bit_imp_le_length)
    then show ?thesis using disjunctive_add_eq_or[of "uint b" "push_bit 8 (le_int bs)"] by (simp add: push_bit_eq_mult mult.commute)
  qed
  then have "bit (le_int (b # bs)) m \<longleftrightarrow> bit (uint b) m \<or> 8 \<le> m \<and> bit (le_int bs) (m - 8)"
    by (simp add: bit_simps)
  moreover have "m div 8 = Suc ((m - 8) div 8)" "m mod 8 = (m - 8) mod 8" if "8 \<le> m"
    using that by (simp_all add: le_div_geq le_mod_geq)
  moreover have "m div 8 = 0" "m mod 8 = m" if "\<not> 8 \<le> m" using that by simp_all
  moreover have "bit (uint b) m \<longleftrightarrow> m < 8 \<and> bit b m" by (auto simp: bit_simps dest: bit_imp_le_length)
  ultimately show ?case using Cons.IH[of "m - 8"] by (cases "8 \<le> m") auto
qed simp

lemma fold_blocks: "fold (\<lambda>i. fold (\<lambda>j. f (8 * i + j)) [0..<8]) [0..<n] = fold f [0..<8 * n]"
proof (induction n)
  case (Suc n)
  have "[0..<8 * Suc n] = [0..<8 * n] @ map (\<lambda>j. j + 8 * n) [0..<8]" 
    using map_add_upt[of "8 * n" 8] upt_add_eq_append[of 0 "8 * n" 8] by (simp add: add.commute)
  then show ?case using Suc by (simp add: fold_map comp_def add.commute)
qed simp

text \<open>The 256 steps of \<^verbatim>\<open>cmult\<close> are those of the standard on the bits of the scalar.\<close>

lemma cmult_holds:
  assumes "length n = 32" "felt q u"
  shows "\<exists>s. cmult n q = (take 10 (nqx s), take 10 (nqz s)) \<and>
    holds s (fold (\<lambda>t. rfc_iter u (bit (le_int n) (255 - t))) [0..<256] ((1, 0, u, 1), False))"
proof -
  let ?s = "\<lparr>nqpqx = memcpy (replicate 19 0) 0 (take 10 q), nqpqz = 1 # replicate 18 0, nqx = 1 # replicate 18 0, nqz = replicate 19 0,
               nqpqx2 = replicate 19 0, nqpqz2 = 1 # replicate 18 0, nqx2 = replicate 19 0, nqz2 = 1 # replicate 18 0\<rparr>"
  let ?r = "((1, 0, u, 1), False) :: (int \<times> int \<times> int \<times> int) \<times> bool"
  have "felt (memcpy (replicate 19 0) 0 (take 10 q)) u" by (rule fe_memcpy[OF assms(2)]) simp
  moreover have "felt (1 # replicate 18 0) 1" "felt (replicate 19 0) 0"
    by (simp_all add: felt_def limbs_le_def ival_def sum_10 fpos_def nth_Cons')
  ultimately have h0: "holds ?s ?r" by (simp add: holds_def cswap_def)
  have byte: "fold (\<lambda>j. rfc_iter u (bit (n ! (31 - i)) (7 - j))) [0..<8] r = fold (\<lambda>j. rfc_iter u (bit (le_int n) (255 - (8 * i + j)))) [0..<8] r"
    if "i < 32" for i r
  proof (rule fold_cong)
    fix j :: nat assume "j \<in> set [0..<8]"
    then have "255 - (8 * i + j) = 8 * (31 - i) + (7 - j)" using that by auto
    moreover have "31 - i < 32" by simp
    moreover have "(8 * (31 - i) + (7 - j)) div 8 = 31 - i" "(8 * (31 - i) + (7 - j)) mod 8 = 7 - j" by simp_all
    ultimately show "rfc_iter u (bit (n ! (31 - i)) (7 - j)) = rfc_iter u (bit (le_int n) (255 - (8 * i + j)))"
      using assms(1) by (simp only: bit_le_int) (simp add: less_Suc_eq_le)
  qed simp_all
  have "holds (fold (\<lambda>i s. cmult_bits 8 q (n ! (31 - i)) s) [0..<m] ?s)
      (fold (\<lambda>i. fold (\<lambda>j. rfc_iter u (bit (le_int n) (255 - (8 * i + j)))) [0..<8]) [0..<m] ?r)" if "m \<le> 32" for m
    using that
  proof (induction m)
    case 0
    show ?case using h0 by simp
  next
    case (Suc m)
    then show ?case using cmult_bits_holds[OF Suc.IH assms(2), of 8 "n ! (31 - m)"] byte[of m] by simp
  qed
  from this[of 32] show ?thesis
    by (simp only: cmult_def Let_def fold_blocks[where f = "\<lambda>t. rfc_iter u (bit (le_int n) (255 - t))"]) auto
qed


section \<open>The inverse\<close>

lemma fe_recip: "felt x (v ^ m) \<Longrightarrow> felt y (v ^ k) \<Longrightarrow> felt (recip_mul x y) (v ^ (m + k))" "felt x (v ^ m) \<Longrightarrow> felt (recip_sq x) (v ^ (2 * m))"
  using fe_mul[OF fe_loose fe_loose, of x "v ^ m" y "v ^ k" "replicate 10 0"] fe_square[OF fe_loose, of x "v ^ m" "replicate 10 0"]
  by (auto simp: recip_mul_def recip_sq_def power_add mult_2 intro: fe_cong)

lemma fe_squares: "felt x (v ^ m) \<Longrightarrow> felt (((\<lambda>t. recip_sq (recip_sq t)) ^^ n) x) (v ^ (4 ^ n * m))"
proof (induction n)
  case (Suc n)
  from fe_recip(2)[OF fe_recip(2)[OF Suc.IH[OF Suc.prems]]] show ?case by (simp add: mult.assoc)
qed simp

lemma fe_crecip:
  assumes "felt z v"
  shows "felt (crecip z) (v ^ nat (p25519 - 2))"
proof -
  define z2 where "z2 = recip_sq z"
  define z9 where "z9 = recip_mul (recip_sq (recip_sq z2)) z"
  define z11 where "z11 = recip_mul z9 z2"
  define z5 where "z5 = recip_mul (recip_sq z11) z9"
  define z10 where "z10 = recip_mul (recip_sq (recip_sq (recip_sq (recip_sq (recip_sq z5))))) z5"
  define sqs where "sqs n t = ((\<lambda>t. recip_sq (recip_sq t)) ^^ n) (recip_sq (recip_sq t))" for n t
  define z20 where "z20 = recip_mul (sqs 4 z10) z10"
  define z40 where "z40 = recip_mul (sqs 9 z20) z20"
  define z50 where "z50 = recip_mul (sqs 4 z40) z10"
  define z100 where "z100 = recip_mul (sqs 24 z50) z50"
  define z200 where "z200 = recip_mul (sqs 49 z100) z100"
  define z250 where "z250 = recip_mul (sqs 24 z200) z50"
  note sq = fe_recip(2) and mu = fe_recip(1)
  have sqs: "felt (sqs n t) (v ^ (4 ^ n * (2 * (2 * m))))" if "felt t (v ^ m)" for n t m
    unfolding sqs_def by (rule fe_squares[OF sq[OF sq[OF that]]])
  have 1: "felt z (v ^ 1)" using assms by simp
  have 2: "felt z2 (v ^ 2)" using sq[OF 1] by (simp add: z2_def)
  have 9: "felt z9 (v ^ 9)" using mu[OF sq[OF sq[OF 2]] 1] by (simp add: z9_def)
  have 11: "felt z11 (v ^ 11)" using mu[OF 9 2] by (simp add: z11_def)
  have 5: "felt z5 (v ^ (2 ^ 5 - 1))" using mu[OF sq[OF 11] 9] by (simp add: z5_def)
  have 10: "felt z10 (v ^ (2 ^ 10 - 1))" using mu[OF sq[OF sq[OF sq[OF sq[OF sq[OF 5]]]]] 5] by (simp add: z10_def)
  have 20: "felt z20 (v ^ (2 ^ 20 - 1))" using mu[OF sqs[OF 10, of 4] 10] by (simp add: z20_def)
  have 40: "felt z40 (v ^ (2 ^ 40 - 1))" using mu[OF sqs[OF 20, of 9] 20] by (simp add: z40_def)
  have 50: "felt z50 (v ^ (2 ^ 50 - 1))" using mu[OF sqs[OF 40, of 4] 10] by (simp add: z50_def)
  have 100: "felt z100 (v ^ (2 ^ 100 - 1))" using mu[OF sqs[OF 50, of 24] 50] by (simp add: z100_def)
  have 200: "felt z200 (v ^ (2 ^ 200 - 1))" using mu[OF sqs[OF 100, of 49] 100] by (simp add: z200_def)
  have 250: "felt z250 (v ^ (2 ^ 250 - 1))" using mu[OF sqs[OF 200, of 24] 50] by (simp add: z250_def)
  have "felt (recip_mul (recip_sq (recip_sq (recip_sq (recip_sq (recip_sq z250))))) z11) (v ^ nat (p25519 - 2))"
    using mu[OF sq[OF sq[OF sq[OF sq[OF sq[OF 250]]]]] 11] by (simp add: p25519_def)
  moreover have "crecip z = recip_mul (recip_sq (recip_sq (recip_sq (recip_sq (recip_sq z250))))) z11"
    by (simp only: crecip_def Let_def z2_def z9_def z11_def z5_def z10_def sqs_def z20_def z40_def z50_def z100_def z200_def z250_def)
  ultimately show ?thesis by simp
qed

end
