(* ===== verification/Curve25519_Normal.thy ===== *)
theory Curve25519_Normal
  imports Curve25519_Ladder
begin

text \<open>
  The normalisation at the end of the scalar multiplication: the borrow and carry chains of \<^verbatim>\<open>fcontract\<close> and its conditional subtraction turn any
  ten limbs below 2^26 in size into the least non-negative representative modulo 2^255 - 19.
\<close>

section \<open>Normalisation\<close>

text \<open>The borrow and carry chains of \<^verbatim>\<open>fcontract\<close> on integers, with an eleventh limb for what leaves the tenth.\<close>

definition imv :: "bool \<Rightarrow> nat \<Rightarrow> int list \<Rightarrow> int list" where
  "imv b i X = (let d = (if b \<or> X ! i < 0 then X ! i div 2 ^ width i else 0) in X[i := X ! i - 2 ^ width i * d, i + 1 := X ! (i + 1) + d])"

definition ivalue :: "int list \<Rightarrow> int" where
  "ivalue X = (\<Sum>j < 11. X ! j * 2 ^ fpos j)"

lemma imv_facts:
  fixes b :: bool and X :: "int list" and i :: nat
  assumes "i < 10" "length X = 11"
  defines "d \<equiv> (if b \<or> X ! i < 0 then X ! i div 2 ^ width i else 0)"
  shows "length (imv b i X) = 11" "imv b i X ! i = X ! i - 2 ^ width i * d" "imv b i X ! Suc i = X ! Suc i + d"
    "j \<noteq> i \<Longrightarrow> j \<noteq> Suc i \<Longrightarrow> imv b i X ! j = X ! j" "ivalue (imv b i X) = ivalue X"
proof -
  show 1: "length (imv b i X) = 11" "imv b i X ! i = X ! i - 2 ^ width i * d" "imv b i X ! Suc i = X ! Suc i + d"
    "\<And>j. j \<noteq> i \<Longrightarrow> j \<noteq> Suc i \<Longrightarrow> imv b i X ! j = X ! j"
    using assms(1,2) by (simp_all only: imv_def Let_def d_def[symmetric]) simp_all
  show "ivalue (imv b i X) = ivalue X"
    unfolding ivalue_def
  proof (rule sum_update_two[of i])
    show "imv b i X ! i * 2 ^ fpos i + imv b i X ! Suc i * 2 ^ fpos (Suc i) = X ! i * 2 ^ fpos i + X ! Suc i * 2 ^ fpos (Suc i)"
      unfolding 1(2,3) fpos_Suc by (simp add: power_add algebra_simps)
  qed (use assms(1) 1(4) in auto)
qed

definition moved :: "bool \<Rightarrow> nat \<Rightarrow> int list \<Rightarrow> int list" where
  "moved b n X = fold (imv b) [0..<n] X"

lemma moved_Suc: "moved b (Suc n) X = imv b n (moved b n X)" "moved b 0 X = X"
  by (simp_all add: moved_def)

lemma moved_facts:
  assumes "length X = 11" "n \<le> 10"
  shows "length (moved b n X) = 11" "ivalue (moved b n X) = ivalue X" "n < j \<Longrightarrow> moved b n X ! j = X ! j"
  using assms(2) by (induction n) (simp_all add: moved_Suc assms(1) imv_facts)

lemma width_cases: "width i = 25 \<or> width i = 26"
  by (simp add: width_def)

lemma borrow_bounds:
  assumes "length X = 11" "\<forall>j < 10. \<bar>X ! j\<bar> \<le> 2 ^ 26 - 1" "n \<le> 10"
  shows "(\<forall>j < n. 0 \<le> moved False n X ! j \<and> moved False n X ! j \<le> 2 ^ 26 - 1) \<and> - 3 \<le> moved False n X ! n - X ! n \<and> moved False n X ! n - X ! n \<le> 0"
  using assms(3)
proof (induction n)
  case (Suc n)
  define Y where "Y = moved False n X"
  have Y: "length Y = 11" "Y ! Suc n = X ! Suc n" using moved_facts[OF assms(1), where b = False and n = n] Suc.prems by (simp_all add: Y_def)
  have IH: "\<forall>j < n. 0 \<le> Y ! j \<and> Y ! j \<le> 2 ^ 26 - 1" "- 3 \<le> Y ! n - X ! n" "Y ! n - X ! n \<le> 0" using Suc by (simp_all add: Y_def)
  have y: "- (2 ^ 26 + 2) \<le> Y ! n" "Y ! n \<le> 2 ^ 26 - 1" using IH(2,3) assms(2)[rule_format, of n] Suc.prems by auto
  define d where "d = (if False \<or> Y ! n < 0 then Y ! n div 2 ^ width n else 0)"
  note f = imv_facts[where i = n and X = Y and b = False, folded d_def, OF _ Y(1)]
  have "0 \<le> Y ! n - 2 ^ width n * d \<and> Y ! n - 2 ^ width n * d \<le> 2 ^ 26 - 1 \<and> - 3 \<le> d \<and> d \<le> 0"
    using y width_cases[of n] unfolding d_def by auto
  then show ?case using IH(1) f(2,3,4) Y(2) Suc.prems by (auto simp: moved_Suc Y_def[symmetric] less_Suc_eq)
qed (use assms in \<open>simp add: moved_Suc\<close>)

lemma borrow_bounds2:
  assumes "length X = 11" "\<forall>j < 10. X ! j \<le> 2 ^ 26 - 1" "\<forall>j. 1 \<le> j \<longrightarrow> j < 10 \<longrightarrow> 0 \<le> X ! j" "- 57 \<le> X ! 0" "n \<le> 10"
  shows "(X ! 0 < 0 \<longrightarrow> - 1 \<le> moved False n X ! n - X ! n \<or> n = 0) \<and> (0 \<le> X ! 0 \<longrightarrow> moved False n X = X) \<and> (0 < n \<longrightarrow> X ! 0 < 0 \<longrightarrow> moved False n X ! 0 = X ! 0 + 2 ^ 26)"
  using assms(5)
proof (induction n)
  case (Suc n)
  define Y where "Y = moved False n X"
  have Y: "length Y = 11" "Y ! Suc n = X ! Suc n" using moved_facts[OF assms(1), where b = False and n = n] Suc.prems by (simp_all add: Y_def)
  have IH: "X ! 0 < 0 \<longrightarrow> - 1 \<le> Y ! n - X ! n \<or> n = 0" "0 \<le> X ! 0 \<longrightarrow> Y = X" "0 < n \<longrightarrow> X ! 0 < 0 \<longrightarrow> Y ! 0 = X ! 0 + 2 ^ 26"
    using Suc by (simp_all add: Y_def)
  define d where "d = (if False \<or> Y ! n < 0 then Y ! n div 2 ^ width n else 0)"
  note f = imv_facts[where i = n and X = Y and b = False, folded d_def, OF _ Y(1)]
  show ?case
  proof (cases "X ! 0 < 0")
    case True
    have y: "- 57 \<le> Y ! n" using IH(1) True assms(3)[rule_format, of n] assms(4) Suc.prems by (cases n) (auto simp: Y_def moved_Suc)
    then have "- 1 \<le> d" using width_cases[of n] unfolding d_def by auto
    moreover have "imv False n Y ! 0 = X ! 0 + 2 ^ 26"
    proof (cases n)
      case 0
      moreover have "X ! 0 div 2 ^ 26 = - 1" using True assms(4) by simp
      ultimately show ?thesis using f(2) True unfolding d_def by (simp add: Y_def moved_Suc width_def)
    qed (use f(4)[of 0] IH(3) True Suc.prems in simp)
    ultimately show ?thesis using True f(3) Y(2) Suc.prems by (simp add: moved_Suc Y_def[symmetric])
  next
    case False
    then have "Y = X" "\<not> X ! n < 0" using IH(2) assms(3)[rule_format, of n] Suc.prems by (cases n; simp)+
    then show ?thesis using False by (simp add: moved_Suc Y_def[symmetric] imv_def)
  qed
qed (simp add: moved_Suc)


lemma carry_bounds:
  assumes "length X = 11" "\<forall>j < 10. 0 \<le> X ! j \<and> X ! j \<le> 2 ^ 26 + 37" "n \<le> 10"
  shows "(\<forall>j < n. 0 \<le> moved True n X ! j \<and> moved True n X ! j < 2 ^ width j) \<and> 0 \<le> moved True n X ! n - X ! n \<and> moved True n X ! n - X ! n \<le> 2"
  using assms(3)
proof (induction n)
  case (Suc n)
  define Y where "Y = moved True n X"
  have Y: "length Y = 11" "Y ! Suc n = X ! Suc n"
    using moved_facts[OF assms(1), where b = True and n = n] Suc.prems by (simp_all add: Y_def)
  have IH: "\<forall>j < n. 0 \<le> Y ! j \<and> Y ! j < 2 ^ width j" "0 \<le> Y ! n - X ! n" "Y ! n - X ! n \<le> 2" using Suc by (simp_all add: Y_def)
  have y: "0 \<le> Y ! n" "Y ! n \<le> 2 ^ 26 + 39" using IH(2,3) assms(2)[rule_format, of n] Suc.prems by auto
  define d where "d = (if True \<or> Y ! n < 0 then Y ! n div 2 ^ width n else 0)"
  note f = imv_facts[where i = n and X = Y and b = True, folded d_def, OF _ Y(1)]
  have "0 \<le> Y ! n - 2 ^ width n * d \<and> Y ! n - 2 ^ width n * d < 2 ^ width n \<and> 0 \<le> d \<and> d \<le> 2"
    using y width_cases[of n] unfolding d_def by auto
  then show ?case using IH(1) f(2,3,4) Y(2) Suc.prems by (auto simp: moved_Suc Y_def[symmetric] less_Suc_eq)
qed (use assms in \<open>simp add: moved_Suc\<close>)

lemma carry_bounds2:
  assumes "length X = 11" "\<forall>j. 1 \<le> j \<longrightarrow> j < 10 \<longrightarrow> 0 \<le> X ! j \<and> X ! j < 2 ^ width j" "0 \<le> X ! 0" "X ! 0 \<le> 2 ^ 26 + 37" "n \<le> 10"
  shows "moved True n X ! n - X ! n \<le> (if X ! 0 < 2 ^ 26 then 0 else 1) \<and> (0 < n \<longrightarrow> moved True n X ! 0 = X ! 0 mod 2 ^ 26)"
  using assms(5)
proof (induction n)
  case (Suc n)
  define Y where "Y = moved True n X"
  have Y: "length Y = 11" "Y ! Suc n = X ! Suc n"
    using moved_facts[OF assms(1), where b = True and n = n] Suc.prems by (simp_all add: Y_def)
  have IH: "Y ! n - X ! n \<le> (if X ! 0 < 2 ^ 26 then 0 else 1)" "0 < n \<longrightarrow> Y ! 0 = X ! 0 mod 2 ^ 26" using Suc by (simp_all add: Y_def)
  define d where "d = (if True \<or> Y ! n < 0 then Y ! n div 2 ^ width n else 0)"
  note f = imv_facts[where i = n and X = Y and b = True, folded d_def, OF _ Y(1)]
  have "d \<le> (if X ! 0 < 2 ^ 26 then 0 else 1) \<and> imv True n Y ! 0 = X ! 0 mod 2 ^ 26"
  proof (cases n)
    case 0
    then have "Y = X" "width n = 26" by (simp_all add: Y_def moved_Suc width_def)
    then show ?thesis using f(2) 0 assms(3,4) unfolding d_def by (auto simp: minus_mult_div_eq_mod)
  next
    case (Suc m)
    then have "X ! n < 2 ^ width n" using assms(2) Suc.prems by simp
    then have "Y ! n \<le> 2 ^ width n - 1 + (if X ! 0 < 2 ^ 26 then 0 else 1)" using IH(1) by linarith
    then have "d \<le> (if X ! 0 < 2 ^ 26 then 0 else 1)" using width_cases[of n] unfolding d_def by (auto split: if_splits)
    then show ?thesis using f(4)[of 0] IH(2) Suc Suc.prems by simp
  qed
  then show ?case using f(3) Y(2) Suc.prems by (simp add: moved_Suc Y_def[symmetric])
qed (simp add: moved_Suc)

text \<open>One pass: what leaves the tenth limb comes back, times 19, into the first.\<close>

definition pass :: "bool \<Rightarrow> int list \<Rightarrow> int list" where
  "pass b X = (let Y = moved b 10 X in Y[0 := Y ! 0 + 19 * Y ! 10, 10 := 0])"

lemma ivalue_10: "length X = 11 \<Longrightarrow> ivalue X = (\<Sum>j < 10. X ! j * 2 ^ fpos j) + X ! 10 * 2 ^ 255"
  using sum.lessThan_Suc[of "\<lambda>j. X ! j * 2 ^ fpos j" 10] by (simp add: ivalue_def)

lemma pass_facts:
  fixes b :: bool and X :: "int list"
  assumes "length X = 11"
  defines "Y \<equiv> moved b 10 X"
  shows "length (pass b X) = 11" "pass b X ! 0 = Y ! 0 + 19 * Y ! 10" "pass b X ! 10 = 0" "j \<noteq> 0 \<Longrightarrow> j \<noteq> 10 \<Longrightarrow> pass b X ! j = Y ! j"
    "ivalue (pass b X) mod p25519 = ivalue X mod p25519"
proof -
  have Y: "length Y = 11" "ivalue Y = ivalue X" using moved_facts[OF assms(1)] by (simp_all add: Y_def)
  show 1: "length (pass b X) = 11" "pass b X ! 0 = Y ! 0 + 19 * Y ! 10" "pass b X ! 10 = 0" "\<And>j. j \<noteq> 0 \<Longrightarrow> j \<noteq> 10 \<Longrightarrow> pass b X ! j = Y ! j"
    using Y(1) by (simp_all add: pass_def Let_def Y_def)
  have "(\<Sum>j < 11. pass b X ! j * 2 ^ fpos j) - (\<Sum>j < 11. Y ! j * 2 ^ fpos j) = (\<Sum>j < 11. (pass b X ! j - Y ! j) * 2 ^ fpos j)"
    by (simp add: sum_subtractf left_diff_distrib)
  also have "\<dots> = (\<Sum>j \<in> {0, 10}. (pass b X ! j - Y ! j) * 2 ^ fpos j)"
    by (rule sum.mono_neutral_right) (auto simp: 1(4))
  also have "\<dots> = - Y ! 10 * p25519" by (simp add: 1(2,3) p25519_def algebra_simps)
  finally have "ivalue (pass b X) = ivalue X + (- Y ! 10) * p25519" using Y(2) by (simp add: ivalue_def)
  then show "ivalue (pass b X) mod p25519 = ivalue X mod p25519" by (simp only: mod_mult_self1)
qed

definition in_range :: "int list \<Rightarrow> (nat \<Rightarrow> int) \<Rightarrow> (nat \<Rightarrow> int) \<Rightarrow> bool" where
  "in_range X lo hi \<longleftrightarrow> length X = 11 \<and> X ! 10 = 0 \<and> (\<forall>j < 10. lo j \<le> X ! j \<and> X ! j \<le> hi j)"

lemma in_rangeI:
  assumes "length X = 11" "X ! 10 = 0" "lo 0 \<le> X ! 0" "X ! 0 \<le> hi 0" "\<And>j. 1 \<le> j \<Longrightarrow> j < 10 \<Longrightarrow> lo j \<le> X ! j \<and> X ! j \<le> hi j"
  shows "in_range X lo hi"
proof -
  have "lo j \<le> X ! j \<and> X ! j \<le> hi j" if "j < 10" for j using assms(3-5) that by (cases "j = 0") simp_all
  then show ?thesis using assms(1,2) by (simp add: in_range_def)
qed

lemma pass_borrow1:
  assumes "in_range X (\<lambda>_. 1 - 2 ^ 26) (\<lambda>_. 2 ^ 26 - 1)"
  shows "in_range (pass False X) (\<lambda>j. if j = 0 then - 57 else 0) (\<lambda>_. 2 ^ 26 - 1)"
proof -
  have X: "length X = 11" "X ! 10 = 0" "\<forall>j < 10. \<bar>X ! j\<bar> \<le> 2 ^ 26 - 1" using assms by (auto simp: in_range_def)
  note f = pass_facts[OF X(1), where b = False]
  have m: "\<forall>j < 10. 0 \<le> moved False 10 X ! j \<and> moved False 10 X ! j \<le> 2 ^ 26 - 1" "- 3 \<le> moved False 10 X ! 10" "moved False 10 X ! 10 \<le> 0"
    using borrow_bounds[OF X(1,3), of 10] X(2) by simp_all
  have "0 \<le> moved False 10 X ! 0" "moved False 10 X ! 0 \<le> 2 ^ 26 - 1" using m(1) by simp_all
  then have "- 57 \<le> pass False X ! 0" "pass False X ! 0 \<le> 2 ^ 26 - 1" using f(2) m(2,3) by linarith+
  then show ?thesis by (intro in_rangeI) (use f(1,3,4) m(1) in simp_all)
qed

lemma pass_borrow2:
  assumes "in_range X (\<lambda>j. if j = 0 then - 57 else 0) (\<lambda>_. 2 ^ 26 - 1)"
  shows "in_range (pass False X) (\<lambda>_. 0) (\<lambda>_. 2 ^ 26 - 1)"
proof -
  have X: "length X = 11" "X ! 10 = 0" "- 57 \<le> X ! 0" "\<forall>j. 1 \<le> j \<longrightarrow> j < 10 \<longrightarrow> 0 \<le> X ! j" "\<forall>j < 10. X ! j \<le> 2 ^ 26 - 1"
    using assms assms[unfolded in_range_def, THEN conjunct2, THEN conjunct2, rule_format, of 0] by (auto simp: in_range_def split: if_splits)
  have X': "\<forall>j < 10. \<bar>X ! j\<bar> \<le> 2 ^ 26 - 1"
  proof (intro allI impI)
    fix j :: nat assume "j < 10"
    then have "- 57 \<le> X ! j" "X ! j \<le> 2 ^ 26 - 1" using X(3,5) X(4)[rule_format, of j] by (cases j; simp)+
    then show "\<bar>X ! j\<bar> \<le> 2 ^ 26 - 1" by simp
  qed
  note f = pass_facts[OF X(1), where b = False]
  have m: "\<forall>j < 10. 0 \<le> moved False 10 X ! j \<and> moved False 10 X ! j \<le> 2 ^ 26 - 1" "moved False 10 X ! 10 \<le> 0"
    using borrow_bounds[OF X(1) X', of 10] X(2) by simp_all
  have "0 \<le> pass False X ! 0"
    using borrow_bounds2[OF X(1,5,4,3), of 10] f(2) X by (cases "X ! 0 < 0") auto
  moreover have "pass False X ! 0 \<le> 2 ^ 26 - 1" using m(1)[rule_format, of 0] m(2) f(2) by simp
  ultimately show ?thesis by (intro in_rangeI) (use f(1,3,4) m(1) in simp_all)
qed

lemma pass_carry1:
  assumes "in_range X (\<lambda>_. 0) (\<lambda>_. 2 ^ 26 - 1)"
  shows "in_range (pass True X) (\<lambda>_. 0) (\<lambda>j. if j = 0 then 2 ^ 26 + 37 else 2 ^ width j - 1)"
proof -
  have X: "length X = 11" "X ! 10 = 0" "\<forall>j < 10. 0 \<le> X ! j \<and> X ! j \<le> 2 ^ 26 + 37" using assms by (auto simp: in_range_def)
  note f = pass_facts[OF X(1), where b = True]
  have m: "\<forall>j < 10. 0 \<le> moved True 10 X ! j \<and> moved True 10 X ! j < 2 ^ width j" "0 \<le> moved True 10 X ! 10" "moved True 10 X ! 10 \<le> 2"
    using carry_bounds[OF X(1,3), of 10] X(2) by simp_all
  have "moved True 10 X ! 0 < 2 ^ 26" using m(1)[rule_format, of 0] by (simp add: width_def)
  then show ?thesis by (intro in_rangeI) (use f(1-4) m m(1)[rule_format, of 0] in auto)
qed

lemma pass_carry2:
  assumes "in_range X (\<lambda>_. 0) (\<lambda>j. if j = 0 then 2 ^ 26 + 37 else 2 ^ width j - 1)"
  shows "in_range (pass True X) (\<lambda>_. 0) (\<lambda>j. 2 ^ width j - 1)"
proof -
  have r: "0 \<le> X ! j \<and> X ! j \<le> (if j = 0 then 2 ^ 26 + 37 else 2 ^ width j - 1)" if "j < 10" for j using assms that by (simp add: in_range_def)
  have X: "length X = 11" "X ! 10 = 0" "0 \<le> X ! 0" "X ! 0 \<le> 2 ^ 26 + 37"
    using assms r[of 0] by (simp_all add: in_range_def split: if_splits)
  have X5: "\<forall>j. 1 \<le> j \<longrightarrow> j < 10 \<longrightarrow> 0 \<le> X ! j \<and> X ! j < 2 ^ width j"
  proof (intro allI impI)
    fix j :: nat assume "1 \<le> j" "j < 10"
    then show "0 \<le> X ! j \<and> X ! j < 2 ^ width j" using r[of j] by simp
  qed
  have "X ! j \<le> 2 ^ 26 + 37" if "j < 10" for j using r[OF that] width_cases[of j] by (auto split: if_splits)
  then have X': "\<forall>j < 10. 0 \<le> X ! j \<and> X ! j \<le> 2 ^ 26 + 37" using r by blast
  note f = pass_facts[OF X(1), where b = True]
  have m: "\<forall>j < 10. 0 \<le> moved True 10 X ! j \<and> moved True 10 X ! j < 2 ^ width j" "0 \<le> moved True 10 X ! 10"
    using carry_bounds[OF X(1) X', of 10] X(2) by simp_all
  have "moved True 10 X ! 10 \<le> (if X ! 0 < 2 ^ 26 then 0 else 1)" "moved True 10 X ! 0 = X ! 0 mod 2 ^ 26"
    using carry_bounds2[OF X(1) X5 X(3,4), of 10] X(2) by simp_all
  moreover have "X ! 0 mod 2 ^ 26 \<le> 37" if "\<not> X ! 0 < 2 ^ 26"
  proof -
    have "X ! 0 mod 2 ^ 26 = X ! 0 - 2 ^ 26" using that X(4) mod_pos_pos_trivial[of "X ! 0 - 2 ^ 26" "2 ^ 26"] minus_mod_self2[of "X ! 0" "2 ^ 26"] by simp
    then show ?thesis using X(4) by simp
  qed
  moreover have "0 \<le> X ! 0 mod 2 ^ 26" "X ! 0 mod 2 ^ 26 \<le> 2 ^ 26 - 1" by simp_all
  ultimately have "0 \<le> pass True X ! 0" "pass True X ! 0 \<le> 2 ^ 26 - 1" using f(2) m(2) X(3) by (auto split: if_splits)
  then show ?thesis by (intro in_rangeI) (use f(1,3,4) m(1) in \<open>simp_all add: width_def\<close>)
qed

text \<open>The words of \<^verbatim>\<open>fcontract\<close> that hold ten integers.\<close>

definition words :: "int list \<Rightarrow> s32 list" where
  "words X = map word_of_int (take 10 X)"

lemma nth_words: "j < 10 \<Longrightarrow> length X = 11 \<Longrightarrow> words X ! j = word_of_int (X ! j)" "length X = 11 \<Longrightarrow> length (words X) = 10"
  by (simp_all add: words_def)

lemma words_update: "j < 10 \<Longrightarrow> length X = 11 \<Longrightarrow> words (X[j := v]) = (words X)[j := word_of_int v]" "words (X[10 := v]) = words X"
  by (simp_all add: words_def take_update_swap map_update) (simp add: take_update_cancel flip: take_update_swap map_update)

definition small :: "int \<Rightarrow> bool" where
  "small y \<longleftrightarrow> - (2 ^ 31) \<le> y \<and> y < 2 ^ 31"

lemma sint_small: "small y \<Longrightarrow> sint (word_of_int y :: s32) = y"
  unfolding small_def by (rule sint_of_int32) simp_all

lemma sdrop_word: "small y \<Longrightarrow> signed_drop_bit k (word_of_int y :: s32) = word_of_int (y div 2 ^ k)"
proof -
  assume "small y"
  then have "sint (signed_drop_bit k (word_of_int y :: s32)) = y div 2 ^ k"
    using sint_signed_drop_bit_eq[of k "word_of_int y :: s32"] sint_small[of y] by (simp only: drop_bit_eq_div)
  from arg_cong[where f = "word_of_int :: int \<Rightarrow> s32", OF this] show ?thesis by (simp only: of_int_sint scast_id)
qed

lemma sign_word: "small y \<Longrightarrow> signed_drop_bit 31 (word_of_int y :: s32) = (if y < 0 then - 1 else 0)"
proof -
  assume y: "small y"
  then have "y div 2 ^ 31 = (if y < 0 then - 1 else 0)" unfolding small_def by auto
  then show ?thesis using sdrop_word[OF y, of 31] by simp
qed

lemma borrow_word:
  assumes "small y"
  shows "- signed_drop_bit k (word_of_int y AND signed_drop_bit 31 (word_of_int y :: s32)) = - word_of_int (if y < 0 then y div 2 ^ k else 0)"
  unfolding sign_word[OF assms] using sdrop_word[OF assms, of k] by simp

lemma fc_borrow_words:
  assumes "i < 9" "length X = 11" "small (X ! i)"
  shows "fc_borrow (width i) i (words X) = words (imv False i X)"
proof -
  define d where "d = (if X ! i < 0 then X ! i div 2 ^ width i else 0)"
  have "- signed_drop_bit (width i) (words X ! i AND signed_drop_bit 31 (words X ! i)) = - word_of_int d"
    using borrow_word[OF assms(3), of "width i"] assms by (simp add: d_def nth_words)
  then show ?thesis using assms
    by (simp add: fc_borrow_def Let_def imv_def words_update nth_words push_bit_eq_mult flip: d_def) (simp add: d_def mult.commute)
qed

lemma fc_carry_words:
  assumes "i < 9" "length X = 11" "small (X ! i)"
  shows "fc_carry (width i) (mask (width i)) i (words X) = words (imv True i X)"
proof -
  have "word_of_int (X ! i) AND mask (width i) = (word_of_int (X ! i - 2 ^ width i * (X ! i div 2 ^ width i)) :: s32)"
    by (simp only: minus_mult_div_eq_mod flip: take_bit_eq_mod take_bit_eq_mask) (rule bit_word_eqI, auto simp: bit_simps)
  then show ?thesis using assms
    by (simp add: fc_carry_def Let_def imv_def words_update nth_words sdrop_word)
qed

lemma odd_and: "i AND 1 = (1 :: nat) \<longleftrightarrow> odd i"
  by (simp add: and_one_eq odd_iff_mod_2_eq_one)

lemma masks_32: "(0x3ffffff :: s32) = mask 26" "(0x1ffffff :: s32) = mask 25"
  by (simp_all add: mask_eq_exp_minus_1)

lemma fold_words:
  assumes "length X = 11" "n \<le> 9" "\<forall>i < n. small (moved b i X ! i)"
    "\<And>i Y. i < 9 \<Longrightarrow> length Y = 11 \<Longrightarrow> small (Y ! i) \<Longrightarrow> f i (words Y) = words (imv b i Y)"
  shows "fold f [0..<n] (words X) = words (moved b n X)"
  using assms(2,3)
proof (induction n)
  case (Suc n)
  then show ?case using assms(4)[of n "moved b n X"] moved_facts(1)[OF assms(1), of n] by (simp add: moved_Suc)
qed (simp add: moved_Suc)

lemma fc_borrow_pass_words:
  assumes "length X = 11" "X ! 10 = 0" "\<forall>i < 10. small (moved False i X ! i)"
  shows "fc_borrow_pass (words X) = words (pass False X)"
proof -
  define Y where "Y = moved False 9 X"
  have Y: "length Y = 11" "Y ! 10 = 0" "small (Y ! 9)" using moved_facts[OF assms(1), where n = 9 and b = False] assms(2,3) by (simp_all add: Y_def)
  define d where "d = (if Y ! 9 < 0 then Y ! 9 div 2 ^ 25 else 0)"
  have w: "(if i AND 1 = 1 then fc_borrow 25 i input else fc_borrow 26 i input) = fc_borrow (width i) i input" for i input
    by (simp only: odd_and width_def) simp
  have "fold (\<lambda>i input. if i AND 1 = 1 then fc_borrow 25 i input else fc_borrow 26 i input) [0..<9] (words X) = words Y"
    unfolding w Y_def using assms(1,3) by (intro fold_words fc_borrow_words) auto
  moreover have "- signed_drop_bit 25 (words Y ! 9 AND signed_drop_bit 31 (words Y ! 9)) = - word_of_int d"
    using borrow_word[OF Y(3), of 25] Y(1) by (simp add: d_def nth_words)
  moreover have "pass False X = Y[9 := Y ! 9 - 2 ^ 25 * d, 10 := d, 0 := Y ! 0 + 19 * d, 10 := 0]"
  proof -
    have m: "moved False 10 X = Y[9 := Y ! 9 - 2 ^ 25 * d, 10 := d]"
      using moved_Suc(1)[of False 9 X] Y(2) by (simp add: Y_def[symmetric] imv_def Let_def d_def width_def)
    show ?thesis unfolding pass_def m Let_def using Y(1) by simp
  qed
  ultimately show ?thesis using Y(1)
    by (simp add: fc_borrow_pass_def Let_def words_update nth_words push_bit_eq_mult) (simp add: mult.commute list_update_swap)
qed

lemma fc_carry_pass_words:
  assumes "length X = 11" "X ! 10 = 0" "\<forall>i < 10. small (moved True i X ! i)"
  shows "fc_carry_pass (words X) = words (pass True X)"
proof -
  define Y where "Y = moved True 9 X"
  have Y: "length Y = 11" "Y ! 10 = 0" "small (Y ! 9)" using moved_facts[OF assms(1), where n = 9 and b = True] assms(2,3) by (simp_all add: Y_def)
  define d where "d = Y ! 9 div 2 ^ 25"
  have w: "(if i AND 1 = 1 then fc_carry 25 0x1ffffff i input else fc_carry 26 0x3ffffff i input) = fc_carry (width i) (mask (width i)) i input" for i input
    by (simp only: odd_and width_def masks_32) simp
  have "fold (\<lambda>i input. if i AND 1 = 1 then fc_carry 25 0x1ffffff i input else fc_carry 26 0x3ffffff i input) [0..<9] (words X) = words Y"
    unfolding w Y_def using assms(1,3) by (intro fold_words fc_carry_words) auto
  moreover have "signed_drop_bit 25 (words Y ! 9) = word_of_int d"
    using sdrop_word[OF Y(3), of 25] Y(1) by (simp add: d_def nth_words)
  moreover have "words Y ! 9 AND 0x1ffffff = word_of_int (Y ! 9 - 2 ^ 25 * d)"
    unfolding masks_32 d_def using Y(1) 
    by (simp only: minus_mult_div_eq_mod nth_words flip: take_bit_eq_mod take_bit_eq_mask) (rule bit_word_eqI, auto simp: bit_simps nth_words)
  moreover have "pass True X = Y[9 := Y ! 9 - 2 ^ 25 * d, 10 := d, 0 := Y ! 0 + 19 * d, 10 := 0]"
  proof -
    have m: "moved True 10 X = Y[9 := Y ! 9 - 2 ^ 25 * d, 10 := d]"
      using moved_Suc(1)[of True 9 X] Y(2) by (simp add: Y_def[symmetric] imv_def Let_def d_def width_def)
    show ?thesis unfolding pass_def m Let_def using Y(1) by simp
  qed
  ultimately show ?thesis using Y(1)
    by (simp add: fc_carry_pass_def Let_def words_update nth_words) 
qed

lemma imv_nonneg: "0 \<le> X ! i \<Longrightarrow> imv False i X = X"
  by (simp add: imv_def)

lemma small_borrow:
  assumes "length X = 11" "\<forall>j < 10. \<bar>X ! j\<bar> \<le> 2 ^ 26 - 1"
  shows "\<forall>i < 10. small (moved False i X ! i)"
proof (intro allI impI)
  fix i :: nat assume i: "i < 10"
  then have "- 3 \<le> moved False i X ! i - X ! i" "moved False i X ! i - X ! i \<le> 0" "\<bar>X ! i\<bar> \<le> 2 ^ 26 - 1"
    using borrow_bounds[OF assms, of i] assms(2) by auto
  then show "small (moved False i X ! i)" by (auto simp: small_def abs_le_iff)
qed

lemma small_carry:
  assumes "length X = 11" "\<forall>j < 10. 0 \<le> X ! j \<and> X ! j \<le> 2 ^ 26 + 37"
  shows "\<forall>i < 10. small (moved True i X ! i)"
proof (intro allI impI)
  fix i :: nat assume i: "i < 10"
  then have "0 \<le> moved True i X ! i - X ! i" "moved True i X ! i - X ! i \<le> 2" "0 \<le> X ! i" "X ! i \<le> 2 ^ 26 + 37"
    using carry_bounds[OF assms, of i] assms(2) by auto
  then show "small (moved True i X ! i)" by (auto simp: small_def abs_le_iff)
qed

definition normal :: "int list \<Rightarrow> int list" where
  "normal X = pass True (pass True (pass False (pass False X)))"

lemma normal_words:
  assumes "in_range X (\<lambda>_. 1 - 2 ^ 26) (\<lambda>_. 2 ^ 26 - 1)"
  shows "fc_carry_pass (fc_carry_pass (fc_borrow 26 0 (fc_borrow_pass (fc_borrow_pass (words X))))) = words (normal X)"
    "in_range (normal X) (\<lambda>_. 0) (\<lambda>j. 2 ^ width j - 1)" "ivalue (normal X) mod p25519 = ivalue X mod p25519"
proof -
  define X1 X2 X3 where "X1 = pass False X" and "X2 = pass False X1" and "X3 = pass True X2"
  have r0: "length X = 11" "X ! 10 = 0" "\<forall>j < 10. \<bar>X ! j\<bar> \<le> 2 ^ 26 - 1" using assms by (auto simp: in_range_def)
  have r: "in_range X1 (\<lambda>j. if j = 0 then - 57 else 0) (\<lambda>_. 2 ^ 26 - 1)" "in_range X2 (\<lambda>_. 0) (\<lambda>_. 2 ^ 26 - 1)"
    "in_range X3 (\<lambda>_. 0) (\<lambda>j. if j = 0 then 2 ^ 26 + 37 else 2 ^ width j - 1)"
    using pass_borrow1[OF assms] pass_borrow2 pass_carry1 by (auto simp: X1_def X2_def X3_def)
  show "in_range (normal X) (\<lambda>_. 0) (\<lambda>j. 2 ^ width j - 1)" using pass_carry2[OF r(3)] by (simp add: normal_def X1_def X2_def X3_def)
  have l: "length X1 = 11" "X1 ! 10 = 0" "length X2 = 11" "X2 ! 10 = 0" "length X3 = 11" "X3 ! 10 = 0" using r by (simp_all add: in_range_def)
  have b1: "\<forall>j < 10. \<bar>X1 ! j\<bar> \<le> 2 ^ 26 - 1"
  proof (intro allI impI)
    fix j :: nat assume "j < 10"
    then have "(if j = 0 then - 57 else 0) \<le> X1 ! j" "X1 ! j \<le> 2 ^ 26 - 1" using r(1) by (simp_all add: in_range_def)
    then show "\<bar>X1 ! j\<bar> \<le> 2 ^ 26 - 1" by (simp split: if_splits)
  qed
  have b2: "\<forall>j < 10. 0 \<le> X2 ! j \<and> X2 ! j \<le> 2 ^ 26 + 37" using r(2) by (auto simp: in_range_def)
  have b3: "\<forall>j < 10. 0 \<le> X3 ! j \<and> X3 ! j \<le> 2 ^ 26 + 37"
  proof (intro allI impI)
    fix j :: nat assume "j < 10"
    then have "0 \<le> X3 ! j" "X3 ! j \<le> (if j = 0 then 2 ^ 26 + 37 else 2 ^ width j - 1)" using r(3) by (simp_all add: in_range_def)
    then show "0 \<le> X3 ! j \<and> X3 ! j \<le> 2 ^ 26 + 37" using width_cases[of j] by (auto split: if_splits)
  qed
  have x20: "0 \<le> X2 ! 0" using r(2) by (simp add: in_range_def)
  have "fc_borrow 26 0 (words X2) = words X2"
    using fc_borrow_words[of 0 X2] l(3) imv_nonneg[of X2 0, OF x20] small_borrow[OF l(3), THEN spec[of _ 0]] r(2)
    by (simp add: in_range_def width_def moved_Suc small_def)
  then show "fc_carry_pass (fc_carry_pass (fc_borrow 26 0 (fc_borrow_pass (fc_borrow_pass (words X))))) = words (normal X)"
    using fc_borrow_pass_words[OF r0(1,2) small_borrow[OF r0(1,3)]] fc_borrow_pass_words[OF l(1,2) small_borrow[OF l(1) b1]]
      fc_carry_pass_words[OF l(3,4) small_carry[OF l(3) b2]] fc_carry_pass_words[OF l(5,6) small_carry[OF l(5) b3]]
    by (simp add: normal_def X1_def X2_def X3_def)
  show "ivalue (normal X) mod p25519 = ivalue X mod p25519"
    using pass_facts(5)[OF r0(1), of False] pass_facts(5)[OF l(1), of False] pass_facts(5)[OF l(3), of True] pass_facts(5)[OF l(5), of True]
    by (simp add: normal_def X1_def X2_def X3_def)
qed

text \<open>The masks of the comparisons.\<close>

lemma s32_gte_mask: "small (y - z) \<Longrightarrow> s32_gte (word_of_int y) (word_of_int z) = (if z \<le> y then - 1 else 0)"
  using sign_word[of "y - z"] by (simp add: s32_gte_def)

lemma s32_eq_mask: "s32_eq a b = (if a = b then - 1 else 0)"
proof -
  have h: "bit (let a = c; a = a AND push_bit 16 a; a = a AND push_bit 8 a; a = a AND push_bit 4 a; a = a AND push_bit 2 a in a AND push_bit 1 a) 31 \<longleftrightarrow>
    list_all (bit c) [0..<32]" for c :: s32
  proof -
    have "[0..<32] = [0, 1, 2, 3, 4, 5, 6, 7, 8, 9, 10, 11, 12, 13, 14, 15, 16, 17, 18, 19, 20, 21, 22, 23, 24, 25, 26, 27, 28, 29, 30, 31 :: nat]" by (simp add: upt_rec)
    then show ?thesis unfolding Let_def bit_and_iff bit_push_bit_iff possible_bit_word by auto
  qed
  have "list_all (bit (NOT (a XOR b))) [0..<32] \<longleftrightarrow> a = b"
    by (auto simp: list_all_iff bit_simps intro: bit_word_eqI)
  moreover have "signed_drop_bit 31 c = (if bit c 31 then - 1 else 0)" for c :: s32
  proof (rule bit_word_eqI)
    fix n :: nat assume "n < LENGTH(32)"
    then show "bit (signed_drop_bit 31 c) n = bit (if bit c 31 then - 1 else 0 :: s32) n" by (cases n) (simp_all add: bit_simps)
  qed
  ultimately show ?thesis using h[of "NOT (a XOR b)"] by (simp only: s32_eq_def Let_def)
qed

text \<open>The limbs of the prime, and the conditional subtraction.\<close>

definition plimb :: "nat \<Rightarrow> int" where
  "plimb j = (if j = 0 then 2 ^ 26 - 19 else 2 ^ width j - 1)"

lemma p25519_limbs: "p25519 = (\<Sum>j < 10. plimb j * 2 ^ fpos j)"
  by (simp add: sum_10 plimb_def width_def p25519_def)

lemma ge_p25519:
  assumes "in_range X (\<lambda>_. 0) (\<lambda>j. 2 ^ width j - 1)"
  shows "(plimb 0 \<le> X ! 0 \<and> (\<forall>j. 1 \<le> j \<longrightarrow> j < 10 \<longrightarrow> X ! j = plimb j) \<longrightarrow> ivalue X - p25519 = X ! 0 - plimb 0) \<and>
    (\<not> (plimb 0 \<le> X ! 0 \<and> (\<forall>j. 1 \<le> j \<longrightarrow> j < 10 \<longrightarrow> X ! j = plimb j)) \<longrightarrow> ivalue X < p25519) \<and> X ! 0 - plimb 0 \<le> 18 \<and> 0 \<le> ivalue X"
proof -
  have X: "length X = 11" "X ! 10 = 0" "\<And>j. j < 10 \<Longrightarrow> 0 \<le> X ! j \<and> X ! j \<le> 2 ^ width j - 1" using assms by (simp_all add: in_range_def)
  have x0: "X ! 0 - plimb 0 \<le> 18" using X(3)[of 0] by (simp add: plimb_def width_def)
  have le: "X ! j \<le> plimb j" if "1 \<le> j" "j < 10" for j using X(3)[of j] that by (simp add: plimb_def)
  have "ivalue X - p25519 = (\<Sum>j < 10. (X ! j - plimb j) * 2 ^ fpos j)"
    using ivalue_10[OF X(1)] X(2) p25519_limbs by (simp add: sum_subtractf left_diff_distrib)
  also have "\<dots> = (X ! 0 - plimb 0) + (\<Sum>j \<in> {1..<10}. (X ! j - plimb j) * 2 ^ fpos j)"
    by (simp add: lessThan_atLeast0 sum.atLeast_Suc_lessThan)
  finally have d: "ivalue X - p25519 = (X ! 0 - plimb 0) + (\<Sum>j \<in> {1..<10}. (X ! j - plimb j) * 2 ^ fpos j)" .
  have n: "(X ! j - plimb j) * 2 ^ fpos j \<le> 0" if "j \<in> {1..<10}" for j using le[of j] that by (simp add: mult_nonpos_nonneg)
  have s: "(\<Sum>j \<in> {1..<10}. (X ! j - plimb j) * 2 ^ fpos j) \<le> 0" using n by (rule sum_nonpos)
  have small: "(\<Sum>j \<in> {1..<10}. (X ! j - plimb j) * 2 ^ fpos j) \<le> - (2 ^ 26)" if j: "j \<in> {1..<10}" "X ! j \<noteq> plimb j" for j
  proof -
    have "(\<Sum>j \<in> {1..<10}. (X ! j - plimb j) * 2 ^ fpos j) = (X ! j - plimb j) * 2 ^ fpos j + (\<Sum>j \<in> {1..<10} - {j}. (X ! j - plimb j) * 2 ^ fpos j)"
      using j(1) by (intro sum.remove) simp_all
    moreover have "(\<Sum>j \<in> {1..<10} - {j}. (X ! j - plimb j) * 2 ^ fpos j) \<le> 0" using n by (intro sum_nonpos) blast
    moreover have "(X ! j - plimb j) * 2 ^ fpos j \<le> (- 1) * 2 ^ fpos j" using j le[of j] by (intro mult_right_mono) simp_all
    moreover have "(2 :: int) ^ 26 \<le> 2 ^ fpos j" using j(1) by (intro power_increasing) (auto simp: fpos_def less_eq_div_iff_mult_less_eq)
    ultimately show ?thesis by linarith
  qed
  have "ivalue X < p25519" if neg: "\<not> (plimb 0 \<le> X ! 0 \<and> (\<forall>j. 1 \<le> j \<longrightarrow> j < 10 \<longrightarrow> X ! j = plimb j))"
  proof (cases "plimb 0 \<le> X ! 0")
    case True
    then obtain j where "j \<in> {1..<10}" "X ! j \<noteq> plimb j" using neg by (metis atLeastLessThan_iff)
    from small[OF this] show ?thesis using d x0 by simp
  qed (use d s in linarith)
  moreover have "0 \<le> ivalue X" using X by (auto simp: ivalue_10 intro!: sum_nonneg)
  ultimately show ?thesis using d x0 by simp
qed

definition reduced :: "int list \<Rightarrow> int list" where
  "reduced X = (if ivalue X < p25519 then X else (X ! 0 - plimb 0) # replicate 10 0)"

lemma reduced_value:
  assumes "in_range X (\<lambda>_. 0) (\<lambda>j. 2 ^ width j - 1)"
  shows "in_range (reduced X) (\<lambda>_. 0) (\<lambda>j. 2 ^ width j - 1)" "ivalue (reduced X) = ivalue X mod p25519"
proof -
  have g: "ivalue X < p25519 \<or> (plimb 0 \<le> X ! 0 \<and> ivalue X - p25519 = X ! 0 - plimb 0)" "X ! 0 - plimb 0 \<le> 18" "0 \<le> ivalue X"
    using ge_p25519[OF assms] by blast+
  have v: "ivalue ((X ! 0 - plimb 0) # replicate 10 0) = X ! 0 - plimb 0"
    by (simp add: ivalue_10 sum_10)
  have p: "18 < p25519" by (simp add: p25519_def)
  show "ivalue (reduced X) = ivalue X mod p25519"
  proof (cases "ivalue X < p25519")
    case False
    then have e: "plimb 0 \<le> X ! 0" "ivalue X - p25519 = X ! 0 - plimb 0" using g(1) by auto
    have "ivalue X mod p25519 = (ivalue X - p25519) mod p25519" by simp
    also have "\<dots> = X ! 0 - plimb 0" unfolding e(2) using e(1) g(2) p by (intro mod_pos_pos_trivial) linarith+
    finally show ?thesis using False v by (simp add: reduced_def)
  qed (use g(3) in \<open>simp add: reduced_def\<close>)
  show "in_range (reduced X) (\<lambda>_. 0) (\<lambda>j. 2 ^ width j - 1)"
  proof (cases "ivalue X < p25519")
    case False
    then have "plimb 0 \<le> X ! 0" using g(1) by auto
    then show ?thesis using g(2) False by (intro in_rangeI) (simp_all add: reduced_def width_def nth_Cons')
  qed (use assms in \<open>simp add: reduced_def\<close>)
qed

lemma fc_subtract_words:
  assumes "in_range X (\<lambda>_. 0) (\<lambda>j. 2 ^ width j - 1)"
  shows "fc_subtract (words X) = words (reduced X)"
proof -
  have X: "length X = 11" "\<And>j. j < 10 \<Longrightarrow> 0 \<le> X ! j \<and> X ! j \<le> 2 ^ width j - 1" using assms by (simp_all add: in_range_def)
  have pl: "word_of_int (plimb j) = (if j AND 1 = 1 then 0x1ffffff else 0x3ffffff :: s32)" if "1 \<le> j" for j
    using that unfolding odd_and by (simp add: plimb_def width_def)
  have sm: "small (X ! j)" "small (plimb j)" "small (X ! j - plimb j)" if "j < 10" for j
    using X(2)[OF that] width_cases[of j] by (auto simp: small_def plimb_def)
  have eq: "word_of_int (X ! j) = (word_of_int (plimb j) :: s32) \<longleftrightarrow> X ! j = plimb j" if "j < 10" for j
    using sint_small[OF sm(1)[OF that]] sint_small[OF sm(2)[OF that]] by metis
  have e: "(if i AND 1 = 1 then msk AND s32_eq (words X ! i) 0x1ffffff else msk AND s32_eq (words X ! i) 0x3ffffff) =
      (if X ! i = plimb i then msk else 0)" if "1 \<le> i" "i < 10" for i msk
    using eq[OF that(2)] pl[OF that(1)] that X(1) unfolding odd_and by (cases "odd i") (simp_all add: nth_words s32_eq_mask)
  have fm: "fold (\<lambda>i msk. if i AND 1 = 1 then msk AND s32_eq (words X ! i) 0x1ffffff else msk AND s32_eq (words X ! i) 0x3ffffff) [1..<n] msk =
      (if \<forall>j. 1 \<le> j \<longrightarrow> j < n \<longrightarrow> X ! j = plimb j then msk else 0)" if "n \<le> 10" for n msk
    using that
  proof (induction n)
    case (Suc n)
    show ?case
    proof (cases "n = 0")
      case False
      then have "(\<forall>j. 1 \<le> j \<longrightarrow> j < Suc n \<longrightarrow> X ! j = plimb j) \<longleftrightarrow> (\<forall>j. 1 \<le> j \<longrightarrow> j < n \<longrightarrow> X ! j = plimb j) \<and> X ! n = plimb n"
        by (auto simp: less_Suc_eq dest: spec[of _ n])
      moreover have "[1..<Suc n] = [1..<n] @ [n]" using False by simp
      ultimately show ?thesis using Suc e[of n] False by (simp only: fold_append fold_simps comp_apply) auto
    qed simp
  qed simp
  define c where "c \<longleftrightarrow> plimb 0 \<le> X ! 0 \<and> (\<forall>j. 1 \<le> j \<longrightarrow> j < 10 \<longrightarrow> X ! j = plimb j)"
  define msk where "msk = (if c then - 1 else 0 :: s32)"
  have p0: "(0x3ffffed :: s32) = word_of_int (plimb 0)" by (simp add: plimb_def)
  have "s32_gte (words X ! 0) 0x3ffffed = (if plimb 0 \<le> X ! 0 then - 1 else 0)"
    unfolding p0 using s32_gte_mask[OF sm(3)[of 0]] X(1) by (simp add: nth_words)
  then have m: "fold (\<lambda>i msk. if i AND 1 = 1 then msk AND s32_eq (words X ! i) 0x1ffffff else msk AND s32_eq (words X ! i) 0x3ffffff) [1..<10]
      (s32_gte (words X ! 0) 0x3ffffed) = msk" using fm[of 10] by (simp add: msk_def c_def)
  have "(if i AND 1 = 1 then input[i := input ! i - (msk AND 0x1ffffff)] else input[i := input ! i - (msk AND 0x3ffffff)]) =
      input[i := input ! i - (msk AND word_of_int (plimb i))]" if "1 \<le> i" for i input using pl[OF that] by (cases "i AND 1 = 1") simp_all
  then have "fold (\<lambda>i input. if i AND 1 = 1 then input[i := input ! i - (msk AND 0x1ffffff)] else input[i := input ! i - (msk AND 0x3ffffff)])
      [1..<10] y = fold (\<lambda>i input. input[i := input ! i - (msk AND word_of_int (plimb i))]) [1..<10] y" for y
    by (intro fold_cong) auto
  note F = this
  have up: "[0..<10] = 0 # [1..<10]" using upt_conv_Cons[of 0 10] by simp
  have "fc_subtract (words X) = fold (\<lambda>i input. input[i := input ! i - (msk AND word_of_int (plimb i))]) [0..<10] (words X)"
    unfolding fc_subtract_def Let_def m unfolding p0 F up fold_simps ..
  moreover have "fold (\<lambda>i input. input[i := input ! i - (msk AND word_of_int (plimb i))]) [0..<10] (words X) ! j = words (reduced X) ! j" if "j < 10" for j
  proof -
    have l: "length (reduced X) = 11" using X(1) by (simp add: reduced_def)
    have "fold (\<lambda>i input. input[i := input ! i - (msk AND word_of_int (plimb i))]) [0..<10] (words X) ! j = word_of_int (X ! j) - (msk AND word_of_int (plimb j))"
      using fold_pointwise(1)[of 10 "words X" j "\<lambda>i a. a - (msk AND word_of_int (plimb i))"] that X(1) by (simp add: nth_words)
    moreover have "ivalue X < p25519 \<longleftrightarrow> \<not> c" using ge_p25519[OF assms] unfolding c_def by auto
    moreover have "c \<Longrightarrow> j \<noteq> 0 \<Longrightarrow> X ! j = plimb j" using that by (simp add: c_def)
    ultimately show ?thesis using that X(1) l by (auto simp: nth_words reduced_def msk_def nth_Cons')
  qed
  moreover have "length (fold (\<lambda>i input. input[i := input ! i - (msk AND word_of_int (plimb i))]) [0..<10] (words X)) = 10"
    using fold_pointwise(3)[of 10 "words X" "\<lambda>i a. a - (msk AND word_of_int (plimb i))"] X(1) by (simp add: nth_words)
  moreover have "length (words (reduced X)) = 10" using X(1) by (simp add: reduced_def words_def)
  ultimately show ?thesis by (auto intro!: nth_equalityI)
qed

end
