(* ===== verification/Curve25519_Correct.thy ===== *)
theory Curve25519_Correct
  imports Curve25519_Normal
begin

text \<open>
  \<^verbatim>\<open>fexpand\<close> and \<^verbatim>\<open>fcontract\<close> as decoding and encoding of little-endian numbers, and the correctness of \<^verbatim>\<open>curve25519_donna\<close>: it is the
  function X25519 of RFC 7748.
\<close>

section \<open>Decoding\<close>

lemma bit_four_bytes:
  fixes b0 b1 b2 b3 :: u8
  shows "bit (ucast b0 OR push_bit 8 (ucast b1) OR push_bit 16 (ucast b2) OR push_bit 24 (ucast b3) :: limb) j \<longleftrightarrow>
    j < 32 \<and> bit ([b0, b1, b2, b3] ! (j div 8)) (j mod 8)"
proof -
  have h: "bit b n \<Longrightarrow> n < 8" for b :: u8 and n using bit_imp_le_length[of b n] by simp
  consider "j < 8" | "8 \<le> j" "j < 16" | "16 \<le> j" "j < 24" | "24 \<le> j" "j < 32" | "32 \<le> j" by linarith
  then show ?thesis
  proof cases
    case 2
    then have "j div 8 = 1" by (simp add: div_nat_eqI)
    then have "j div 8 = 1" "j mod 8 = j - 8" by (simp_all add: modulo_nat_def)
    then show ?thesis using 2 by (auto simp: bit_simps dest: h)
  next
    case 3
    then have "j div 8 = 2" by (simp add: div_nat_eqI)
    then have "j div 8 = 2" "j mod 8 = j - 16" by (simp_all add: modulo_nat_def)
    then show ?thesis using 3 by (auto simp: bit_simps dest: h)
  next
    case 4
    then have "j div 8 = 3" by (simp add: div_nat_eqI)
    then have "j div 8 = 3" "j mod 8 = j - 24" by (simp_all add: modulo_nat_def)
    then show ?thesis using 4 by (auto simp: bit_simps dest: h)
  qed (auto simp: bit_simps dest: h)
qed

lemma fexpand_F_value:
  assumes "start + 3 < length input" "shift + k \<le> 32"
  shows "uint (fexpand_F input start shift (mask k)) = take_bit k (drop_bit (8 * start + shift) (le_int input))"
proof (rule bit_eqI)
  fix n
  have n4: "[input ! start, input ! (start + 1), input ! (start + 2), input ! (start + 3)] ! d = input ! (start + d)" if "d < 4" for d
    using that by (auto simp: less_Suc_eq numeral_eq_Suc)
  have "bit (le_int input) (8 * start + shift + n) \<longleftrightarrow> bit (input ! (start + (shift + n) div 8)) ((shift + n) mod 8)" if "n < k"
  proof -
    have "(8 * start + shift + n) div 8 = start + (shift + n) div 8" "(8 * start + shift + n) mod 8 = (shift + n) mod 8"
      by (simp_all add: add.assoc)
    moreover have "(shift + n) div 8 < 4" using that assms(2) by (simp add: less_mult_imp_div_less)
    ultimately show ?thesis using assms(1) by (simp add: bit_le_int)
  qed
  moreover have "(shift + n) div 8 < 4" "shift + n < 32" if "n < k" using that assms(2) by (simp_all add: less_mult_imp_div_less)
  ultimately show "bit (uint (fexpand_F input start shift (mask k))) n = bit (take_bit k (drop_bit (8 * start + shift) (le_int input))) n"
    unfolding fexpand_F_def bit_uint_iff bit_and_iff bit_drop_bit_eq bit_take_bit_iff comp_def bit_four_bytes bit_mask_iff
    using n4[of "(shift + n) div 8"] assms(2) by auto
qed

lemma limbs_sum: "(\<Sum>i < n. take_bit (width i) (drop_bit (fpos i) N) * 2 ^ fpos i) = take_bit (fpos n) (N :: int)"
proof (induction n)
  case 0
  show ?case by (simp add: fpos_def)
next
  case (Suc n)
  have "N mod (2 ^ fpos n * 2 ^ width n) = 2 ^ fpos n * (N div 2 ^ fpos n mod 2 ^ width n) + N mod 2 ^ fpos n"
    by (rule zmod_zmult2_eq) simp
  then show ?case using Suc by (simp add: fpos_Suc power_add take_bit_eq_mod drop_bit_eq_div mult.commute)
qed

lemma fexpand_limb:
  assumes "length input = 32" "i < 10"
  shows "sint (fexpand input ! i) = take_bit (width i) (drop_bit (fpos i) (le_int input))"
proof -
  have m: "(0x3ffffff :: limb) = mask 26" "(0x1ffffff :: limb) = mask 25" by (simp_all add: mask_eq_exp_minus_1)
  have v: "uint (fexpand_F input start shift (mask k)) = take_bit k (drop_bit (8 * start + shift) (le_int input))"
    if "start < 29" "shift + k \<le> 32" for start shift k using fexpand_F_value that assms(1) by simp
  have "uint (fexpand input ! i) = take_bit (width i) (drop_bit (fpos i) (le_int input))"
  proof -
    have "i \<in> {0, 1, 2, 3, 4, 5, 6, 7, 8, 9}" using assms(2) by auto
    then show ?thesis unfolding fexpand_def m by (elim insertE emptyE) (simp_all add: v fpos_def width_def)
  qed
  moreover have "take_bit (width i) (drop_bit (fpos i) (le_int input)) < 2 ^ 63"
  proof -
    have "take_bit (width i) (drop_bit (fpos i) (le_int input)) < 2 ^ width i" by simp
    also have "(2 :: int) ^ width i \<le> 2 ^ 63" by (rule power_increasing) (simp_all add: width_def)
    finally show ?thesis .
  qed
  moreover have "- (2 ^ 63) \<le> take_bit (width i) (drop_bit (fpos i) (le_int input))" by (rule order_trans[of _ 0]) simp_all
  ultimately show ?thesis using signed_take_bit_int_eq_self[of 63] by (simp only: sint_uint) simp
qed

lemma fe_fexpand:
  assumes "length input = 32"
  shows "felt (fexpand input) (le_int input mod 2 ^ 255)"
proof -
  have "length (fexpand input) = 10" by (simp add: fexpand_def)
  moreover have "\<bar>sint (fexpand input ! i)\<bar> \<le> 2 ^ 26 - 1" if "i < 10" for i
  proof -
    have "take_bit (width i) (drop_bit (fpos i) (le_int input)) < 2 ^ width i" by simp
    also have "(2 :: int) ^ width i \<le> 2 ^ 26" by (rule power_increasing) (simp_all add: width_def)
    finally show ?thesis using fexpand_limb[OF assms that] by simp
  qed
  moreover have "ival (fexpand input) = take_bit (fpos 10) (le_int input)"
    unfolding ival_def limbs_sum[symmetric] by (rule sum.cong) (simp_all add: fexpand_limb[OF assms])
  ultimately show ?thesis by (simp add: felt_def limbs_le_def take_bit_eq_mod fpos_def)
qed

section \<open>Encoding\<close>

lemma fpos_mono: "i \<le> j \<Longrightarrow> fpos i \<le> fpos j"
  by (simp add: fpos_def div_le_mono)

lemma limb_unique:
  fixes f :: "nat \<Rightarrow> int"
  assumes "\<And>j. 0 \<le> f j \<and> f j < 2 ^ width j"
  defines "S \<equiv> \<lambda>n. \<Sum>j < n. f j * 2 ^ fpos j"
  shows "0 \<le> S n" "S n < 2 ^ fpos n" "j < n \<Longrightarrow> S n div 2 ^ fpos j mod 2 ^ width j = f j"
proof -
  show nn: "0 \<le> S n" for n unfolding S_def using assms(1) by (intro sum_nonneg) simp
  show ub: "S n < 2 ^ fpos n" for n
  proof (induction n)
    case (Suc n)
    have "f n * 2 ^ fpos n \<le> (2 ^ width n - 1) * 2 ^ fpos n" using assms(1)[of n] by (intro mult_right_mono) simp_all
    then show ?case using Suc by (simp add: S_def fpos_Suc power_add algebra_simps)
  qed (simp add: S_def)
  show "j < n \<Longrightarrow> S n div 2 ^ fpos j mod 2 ^ width j = f j" for n
  proof (induction n)
    case (Suc n)
    have S: "S (Suc n) = S n + f n * 2 ^ fpos n" by (simp add: S_def)
    show ?case
    proof (cases "j = n")
      case True
      have "S (Suc n) div 2 ^ fpos n = f n" unfolding S using nn[of n] ub[of n] by simp
      then show ?thesis using assms(1)[of n] True by simp
    next
      case False
      then have "fpos (Suc j) \<le> fpos n" using Suc.prems by (intro fpos_mono) simp
      then obtain c where c: "fpos n = c + width j + fpos j" by (metis add.commute fpos_Suc le_Suc_ex add.assoc)
      have "(2 :: int) ^ fpos n = 2 ^ c * 2 ^ width j * 2 ^ fpos j" unfolding c power_add ..
      then have "S (Suc n) div 2 ^ fpos j = S n div 2 ^ fpos j + f n * 2 ^ c * 2 ^ width j" unfolding S
        by (simp add: mult.assoc[symmetric])
      then show ?thesis using Suc False by simp
    qed
  qed simp
qed

lemma limb_bits:
  assumes "in_range X (\<lambda>_. 0) (\<lambda>j. 2 ^ width j - 1)" "j < 10"
  shows "bit (words X ! j) n \<longleftrightarrow> n < width j \<and> bit (ivalue X) (fpos j + n)" "0 \<le> ivalue X" "ivalue X < 2 ^ 255"
proof -
  have X: "length X = 11" "X ! 10 = 0" "\<And>j. j < 10 \<Longrightarrow> 0 \<le> X ! j \<and> X ! j \<le> 2 ^ width j - 1" using assms(1) by (simp_all add: in_range_def)
  define f where "f j = (if j < 10 then X ! j else 0)" for j
  have f: "0 \<le> f j \<and> f j < 2 ^ width j" for j using X(3)[of j] by (simp add: f_def)
  have v: "ivalue X = (\<Sum>j < 10. f j * 2 ^ fpos j)" using ivalue_10[OF X(1)] X(2) by (simp add: f_def)
  show "0 \<le> ivalue X" "ivalue X < 2 ^ 255" using limb_unique(1,2)[of f 10, OF f] by (simp_all add: v)
  have "X ! j = take_bit (width j) (drop_bit (fpos j) (ivalue X))"
    using limb_unique(3)[of f j 10, OF f assms(2)] assms(2) by (simp add: v f_def take_bit_eq_mod drop_bit_eq_div)
  moreover have "width j \<le> 26" by (simp add: width_def)
  ultimately show "bit (words X ! j) n \<longleftrightarrow> n < width j \<and> bit (ivalue X) (fpos j + n)"
    using X(1) assms(2) by (auto simp: nth_words bit_simps)
qed

definition le_bytes :: "nat \<Rightarrow> int \<Rightarrow> bytes" where
  "le_bytes n v = map (\<lambda>i. word_of_int (drop_bit (8 * i) v)) [0..<n]"

lemma bit_le_bytes: "i < n \<Longrightarrow> bit (le_bytes n v ! i) k \<longleftrightarrow> k < 8 \<and> bit v (8 * i + k)"
  by (simp add: le_bytes_def bit_simps)

lemma length_fcontract_F [simp]: "length (fcontract_F input i s output) = length output"
  by (simp add: fcontract_F_def)

lemma nth_fcontract_F:
  assumes "s + 3 < length output" "m < length output"
  shows "fcontract_F input i s output ! m =
    (if m = s then output ! s OR ucast (input ! i) else if m = s + 1 then ucast (drop_bit 8 (input ! i))
     else if m = s + 2 then ucast (drop_bit 16 (input ! i)) else if m = s + 3 then ucast (drop_bit 24 (input ! i)) else output ! m)"
proof -
  have b: "(ucast (x AND 0xff) :: u8) = ucast x" for x :: s32
  proof -
    have m: "(0xff :: s32) = mask 8" by (simp add: mask_eq_exp_minus_1)
    show ?thesis unfolding m by (rule bit_word_eqI) (auto simp: bit_simps)
  qed
  have d: "(ucast (signed_drop_bit 8 x) :: u8) = ucast (drop_bit 8 x)" "(ucast (signed_drop_bit 16 x) :: u8) = ucast (drop_bit 16 x)"
    "(ucast (signed_drop_bit 24 x) :: u8) = ucast (drop_bit 24 x)" for x :: s32
    by (rule bit_word_eqI, auto simp: bit_simps)+
  show "fcontract_F input i s output ! m =
    (if m = s then output ! s OR ucast (input ! i) else if m = s + 1 then ucast (drop_bit 8 (input ! i))
     else if m = s + 2 then ucast (drop_bit 16 (input ! i)) else if m = s + 3 then ucast (drop_bit 24 (input ! i)) else output ! m)"
    unfolding fcontract_F_def b d using assms by (auto simp: nth_list_update)
qed


definition shift_of :: "nat \<Rightarrow> nat" where
  "shift_of i = fpos i mod 8"

definition start_of :: "nat \<Rightarrow> nat" where
  "start_of i = fpos i div 8"

lemma shift_start: "fpos i = 8 * start_of i + shift_of i"
  by (simp add: shift_of_def start_of_def)

lemma upt_32: "[0..<32] = [0, 1, 2, 3, 4, 5, 6, 7, 8, 9, 10, 11, 12, 13, 14, 15, 16, 17, 18, 19, 20, 21, 22, 23, 24, 25, 26, 27, 28, 29, 30, 31 :: nat]"
  by (simp add: upt_rec)

lemma fc_output_value:
  assumes "in_range X (\<lambda>_. 0) (\<lambda>j. 2 ^ width j - 1)" "length output = 32"
  shows "fc_output (words X) output = le_bytes 32 (ivalue X)"
proof -
  have len: "length (words X) = 10" using assms(1) by (simp add: in_range_def words_def)
  define inp where "inp = fold (\<lambda>(i, k) input. input[i := push_bit k (input ! i)]) [(1, 2), (2, 3), (3, 5), (4, 6), (6, 1), (7, 3), (8, 4), (9, 6)] (words X)"
  have inp: "inp ! i = push_bit (shift_of i) (words X ! i)" if "i < 10" for i
  proof -
    have "i \<in> {0, 1, 2, 3, 4, 5, 6, 7, 8, 9}" using that by auto
    then show ?thesis using len by (elim insertE emptyE) (simp_all add: inp_def shift_of_def)
  qed
  have bi: "bit (inp ! i) n \<longleftrightarrow> shift_of i \<le> n \<and> n < shift_of i + width i \<and> bit (ivalue X) (8 * start_of i + n)" if "i < 10" for i n
  proof -
    have "shift_of i + width i \<le> 32"
    proof -
      have "i \<in> {0, 1, 2, 3, 4, 5, 6, 7, 8, 9}" using that by auto
      then show ?thesis by (elim insertE emptyE) (simp_all add: shift_of_def width_def)
    qed
    moreover have "fpos i + (n - shift_of i) = 8 * start_of i + n" if "shift_of i \<le> n" using that shift_start[of i] by linarith
    ultimately show ?thesis unfolding inp[OF that] bit_push_bit_iff limb_bits(1)[OF assms(1) that] possible_bit_word by auto
  qed
  have byte: "bit (ucast (drop_bit (8 * c) (inp ! i)) :: u8) r \<longleftrightarrow>
      r < 8 \<and> shift_of i \<le> 8 * c + r \<and> 8 * c + r < shift_of i + width i \<and> bit (ivalue X) (8 * (start_of i + c) + r)" if "i < 10" for i c r
    by (auto simp: bit_ucast_iff bit_drop_bit_eq bi[OF that] algebra_simps)
  note b0 = byte[of _ 0, simplified] and b1 = byte[of _ 1, simplified] and b2 = byte[of _ 2, simplified] and b3 = byte[of _ 3, simplified]
  define O1 where "O1 = output[0 := 0, 16 := 0]"
  have O1: "length O1 = 32" "O1 ! 0 = 0" "O1 ! 16 = 0" using assms(2) by (simp_all add: O1_def)
  have out: "fc_output (words X) output = fold (\<lambda>(i, s). fcontract_F inp i s)
      [(0, 0), (1, 3), (2, 6), (3, 9), (4, 12), (5, 16), (6, 19), (7, 22), (8, 25), (9, 28)] O1"
    by (simp only: fc_output_def Let_def inp_def O1_def)
  have vals: "shift_of 0 = 0" "shift_of 1 = 2" "shift_of 2 = 3" "shift_of 3 = 5" "shift_of 4 = 6" "shift_of 5 = 0" "shift_of 6 = 1" "shift_of 7 = 3"
    "shift_of 8 = 4" "shift_of 9 = 6" "start_of 0 = 0" "start_of 1 = 3" "start_of 2 = 6" "start_of 3 = 9" "start_of 4 = 12" "start_of 5 = 16" "start_of 6 = 19"
    "start_of 7 = 22" "start_of 8 = 25" "start_of 9 = 28" by (simp_all add: shift_of_def start_of_def)
  have w: "width 0 = 26" "width 1 = 25" "width 2 = 26" "width 3 = 25" "width 4 = 26" "width 5 = 25" "width 6 = 26" "width 7 = 25" "width 8 = 26" "width 9 = 25"
    by (simp_all add: width_def)
  have l: "length (fc_output (words X) output) = 32" by (simp add: out O1)
  have "fc_output (words X) output ! m = le_bytes 32 (ivalue X) ! m" if "m < 32" for m
  proof (rule bit_word_eqI)
    fix r :: nat assume "r < LENGTH(8)"
    then have r: "r < 8" by simp
    have m: "m \<in> set [0..<32]" using that by simp
    have "take_bit 255 (ivalue X) = ivalue X" using limb_bits(2,3)[OF assms(1), of 0] by (simp add: take_bit_int_eq_self)
    then have hi: "r < 7" if "bit (ivalue X) (248 + r)" using that bit_take_bit_iff[of 255 "ivalue X" "248 + r"] by simp
    have "bit (fc_output (words X) output ! m) r \<longleftrightarrow> bit (ivalue X) (8 * m + r)"
      using m r hi unfolding out by (simp only: upt_32 list.set) (elim insertE emptyE; simp add: nth_fcontract_F O1 bit_or_iff b0 b1 b2 b3 vals[simplified] w[simplified]; auto)
    then show "bit (fc_output (words X) output ! m) r = bit (le_bytes 32 (ivalue X) ! m) r" using that r by (simp add: bit_le_bytes)
  qed
  then show ?thesis using l by (intro nth_equalityI) (simp_all add: le_bytes_def)
qed

lemma fcontract_value:
  assumes "felt z v" "length output = 32"
  shows "fcontract output z = le_bytes 32 (v mod p25519)"
proof -
  define X where "X = map (\<lambda>i. sint (z ! i)) [0..<10] @ [0]"
  have len: "length X = 11" "X ! 10 = 0" by (simp_all add: X_def nth_append)
  have nth: "X ! i = sint (z ! i)" if "i < 10" for i using that by (simp add: X_def nth_append)
  have "words X = map (\<lambda>i. ucast (z ! i)) [0..<10]" by (simp add: words_def X_def ucast_scast_32)
  moreover have r: "in_range X (\<lambda>_. 1 - 2 ^ 26) (\<lambda>_. 2 ^ 26 - 1)"
  proof -
    have "\<bar>X ! j\<bar> \<le> 2 ^ 26 - 1" if "j < 10" for j using assms(1) that by (simp add: nth felt_def limbs_le_def)
    then show ?thesis using len by (fastforce simp: in_range_def abs_le_iff)
  qed
  moreover have "ivalue X = ival z" using ivalue_10[OF len(1)] len(2) by (simp add: ival_def nth)
  ultimately show ?thesis
    using normal_words[OF r] reduced_value[OF normal_words(2)[OF r]] fc_subtract_words[OF normal_words(2)[OF r]] assms
      fc_output_value[OF reduced_value(1)[OF normal_words(2)[OF r]] assms(2)]
    by (simp add: fcontract_def Let_def felt_def)
qed

section \<open>The function X25519\<close>

text \<open>
  Section 5 of RFC 7748.  The code runs the ladder over all 256 bits of the clamped scalar, the cleared top bit included, where the text of the standard
  starts at bit 254; the additional first step works on the point at infinity.
\<close>

definition decode_scalar :: "bytes \<Rightarrow> int" where
  "decode_scalar k = le_int (k[0 := k ! 0 AND 248, 31 := k ! 31 AND 127 OR 64])"

definition decode_u :: "bytes \<Rightarrow> int" where
  "decode_u u = le_int u mod 2 ^ 255 mod p25519"

definition x25519 :: "bytes \<Rightarrow> bytes \<Rightarrow> bytes" where
  "x25519 k u = le_bytes 32 (rfc_ladder 256 (decode_scalar k) (decode_u u))"

lemma length_x25519 [simp]: "length (x25519 k u) = 32"
  by (simp add: x25519_def le_bytes_def)

lemma curve25519_donna_val:
  assumes "length mypublic = 32" "length secret = 32" "length basepoint = 32"
  shows "curve25519_donna mypublic secret basepoint = x25519 secret basepoint"
proof -
  define e where "e = secret[0 := secret ! 0 AND 248, 31 := secret ! 31 AND 127 OR 64]"
  define r where "r = fold (\<lambda>t. rfc_iter (decode_u basepoint) (bit (le_int e) (255 - t))) [0..<256] ((1, 0, decode_u basepoint, 1), False)"
  have q: "felt (fexpand basepoint) (decode_u basepoint)" using fe_fexpand[OF assms(3)] by (rule fe_cong) (simp add: decode_u_def)
  obtain s where s: "cmult e (fexpand basepoint) = (take 10 (nqx s), take 10 (nqz s))" "holds s r"
    using cmult_holds[OF _ q, of e] assms(2) by (auto simp: e_def r_def)
  obtain x_2 z_2 x_3 z_3 where c: "cswap (snd r) (fst r) = (x_2, z_2, x_3, z_3)" by (cases "cswap (snd r) (fst r)")
  have f: "felt (take 10 (nqx s)) x_2" "felt (take 10 (nqz s)) z_2" using s(2) c by (auto simp: holds_def fe_take split: prod.splits)
  have "felt (fmul (take 10 (nqz s)) (take 10 (nqx s)) (crecip (take 10 (nqz s)))) (fmult x_2 (z_2 ^ nat (p25519 - 2)))"
    by (rule fe_mul[OF fe_loose[OF f(1)] fe_loose[OF fe_crecip[OF f(2)]] fe_len(1)[OF f(2)]])
  from fcontract_value[OF this assms(1)]
  have "fcontract mypublic (fmul (take 10 (nqz s)) (take 10 (nqx s)) (crecip (take 10 (nqz s)))) = le_bytes 32 (fmult x_2 (z_2 ^ nat (p25519 - 2)))"
    by simp
  moreover have "rfc_ladder 256 (decode_scalar secret) (decode_u basepoint) = fmult x_2 (z_2 ^ nat (p25519 - 2))"
  proof -
    have "rfc_ladder 256 (decode_scalar secret) (decode_u basepoint) = (case r of (q, swap) \<Rightarrow>
        case cswap swap q of (x_2, z_2, _, _) \<Rightarrow> fmult x_2 (z_2 ^ nat (p25519 - 2) mod p25519))"
      by (simp only: rfc_ladder_def r_def decode_scalar_def e_def) simp
    then show ?thesis using c by (simp add: case_prod_beta mod_mult_right_eq)
  qed
  moreover have "(let e = take 32 secret; e = e[0 := e ! 0 AND 248]; e = e[31 := e ! 31 AND 127] in e[31 := e ! 31 OR 64]) = e"
    using assms(2) by (simp add: Let_def e_def)
  ultimately show ?thesis using s(1) by (simp add: curve25519_donna_def x25519_def Let_def)
qed

text \<open>
  Property C4 (refinement): \<^verbatim>\<open>curve25519_donna\<close> is X25519.  For every secret and every point, also an encoding that is not reduced or has its top
  bit set, and whatever the output array holds, the routine on ten signed limbs, with its lazy carries, constant-time swaps and addition chain for the
  inverse, writes the 32 bytes that the ladder of RFC 7748 over the integers modulo 2^255 - 19 gives for the clamped scalar.
\<close>

theorem curve25519_donna_is_x25519:
  assumes "length mypublic = 32" "length secret = 32" "length basepoint = 32"
  shows "curve25519_donna mypublic secret basepoint = x25519 secret basepoint"
  using curve25519_donna_val[OF assms] .

theorem curve25519_donna_is_x25519_witness:
  "curve25519_donna (replicate 32 0) (map word_of_nat [0..<32]) (9 # replicate 31 0) = x25519 (map word_of_nat [0..<32]) (9 # replicate 31 0)"
  by (rule curve25519_donna_is_x25519) simp_all

text \<open>Secrets that differ only in the bits that are cleared or set give the same function.\<close>

lemma x25519_clamp: "decode_scalar k = decode_scalar k' \<Longrightarrow> x25519 k u = x25519 k' u"
  by (simp add: x25519_def)

end
