(* ===== verification/Gec.thy ===== *)
theory Gec
  imports Gcm_Messages Sha512_Correct Curve25519_Correct
begin

text \<open>
  The Galois embedded crypto layer, \<^verbatim>\<open>GEC-block/src/gec.c\<close> and \<^verbatim>\<open>gec.h\<close>: symmetric keys with a counter and a salt,
  authenticated encryption of fixed-size messages, counter-mode encryption without authentication, and the wrappers of
  the hash and the asymmetric operations.  Ed25519 is a parameter (\<open>publickey\<close>, \<open>sign\<close>, \<open>sign_open\<close>);
  what the protocol relies on of it is stated where it is used.  Local arrays that the code fills
  completely start as zeros.
\<close>

abbreviation (input) GEC_SALT_LEN :: nat where "GEC_SALT_LEN \<equiv> 8"
abbreviation (input) GEC_CTR_LEN :: nat where "GEC_CTR_LEN \<equiv> 4"
abbreviation (input) GEC_TAG_LEN :: nat where "GEC_TAG_LEN \<equiv> 12"
abbreviation (input) GEC_SYM_CIPHER_KEY_LEN :: nat where "GEC_SYM_CIPHER_KEY_LEN \<equiv> 16"
abbreviation (input) GEC_RAW_KEY_LEN :: nat where "GEC_RAW_KEY_LEN \<equiv> 24"
abbreviation (input) GEC_PT_LEN :: nat where "GEC_PT_LEN \<equiv> 64"
abbreviation (input) GEC_CT_LEN :: nat where "GEC_CT_LEN \<equiv> 80"
abbreviation (input) GEC_PUB_KEY_LEN :: nat where "GEC_PUB_KEY_LEN \<equiv> 32"
abbreviation (input) GEC_PRIV_KEY_LEN :: nat where "GEC_PRIV_KEY_LEN \<equiv> 32"
abbreviation (input) UINT32_MAX :: nat where "UINT32_MAX \<equiv> 4294967295"

abbreviation (input) GEC_SUCCESS :: int where "GEC_SUCCESS \<equiv> 0"
abbreviation (input) GEC_ERROR_INVALID :: int where "GEC_ERROR_INVALID \<equiv> 1"
abbreviation (input) GEC_ERROR_DUPLICATE_COUNTER :: int where "GEC_ERROR_DUPLICATE_COUNTER \<equiv> 2"
abbreviation (input) GEC_ERROR_DECRYPT_AUTH_FAILED :: int where "GEC_ERROR_DECRYPT_AUTH_FAILED \<equiv> 3"
abbreviation (input) GEC_ERROR_COUNTER_ROLLOVER :: int where "GEC_ERROR_COUNTER_ROLLOVER \<equiv> 4"
abbreviation (input) GEC_ERROR_ENCRYPT_AUTH_FAILED :: int where "GEC_ERROR_ENCRYPT_AUTH_FAILED \<equiv> 5"

record gec_sym_key =
  gctx :: gcm_ctx
  salt :: bytes
  ctr :: u64

record gec_sym_key_conf =
  cctx :: aes_ctx
  csalt :: bytes
  cctr :: u64

record gec_privkey =
  priv :: bytes
  pub :: bytes

record gec_pubkey =
  ppub :: bytes

section \<open>Words in byte buffers\<close>

text \<open>The reads shift after adding each byte, the last one included.\<close>

definition read_word64_be :: "bytes \<Rightarrow> u64" where
  "read_word64_be buf = fold (\<lambda>i c. push_bit 8 (c OR ucast (buf ! i))) [0..<8] 0"

definition read_word32_be :: "bytes \<Rightarrow> u32" where
  "read_word32_be buf = fold (\<lambda>i c. push_bit 8 (c OR ucast (buf ! i))) [0..<4] 0"

definition write_word64_be :: "bytes \<Rightarrow> u64 \<Rightarrow> bytes" where
  "write_word64_be buf c = fst (fold (\<lambda>i (b, c). (b[i := ucast (c AND 0xff)], drop_bit 8 c)) [7, 6, 5, 4, 3, 2, 1, 0] (buf, c))"

definition write_word32_be :: "bytes \<Rightarrow> u32 \<Rightarrow> bytes" where
  "write_word32_be buf c = fst (fold (\<lambda>i (b, c). (b[i := ucast (c AND 0xff)], drop_bit 8 c)) [3, 2, 1, 0] (buf, c))"

definition gec_ctr_inc_func :: "bytes \<Rightarrow> bytes" where
  "gec_ctr_inc_func ctr_buf = write_word32_be ctr_buf (read_word32_be ctr_buf + 1)"

section \<open>Keys\<close>

definition gec_mk_privkey :: "gec_privkey \<Rightarrow> bytes \<Rightarrow> bytes \<Rightarrow> gec_privkey" where
  "gec_mk_privkey k privkey pubkey =
     k\<lparr>pub := memcpy (pub k) 0 (take GEC_PUB_KEY_LEN pubkey), priv := memcpy (priv k) 0 (take GEC_PRIV_KEY_LEN privkey)\<rparr>"

definition gec_mk_pubkey :: "gec_pubkey \<Rightarrow> bytes \<Rightarrow> gec_pubkey" where
  "gec_mk_pubkey k pubkey = k\<lparr>ppub := memcpy (ppub k) 0 (take GEC_PUB_KEY_LEN pubkey)\<rparr>"

definition gec_init_sym_key_conf_auth :: "gec_sym_key \<Rightarrow> bytes \<Rightarrow> gec_sym_key" where
  "gec_init_sym_key_conf_auth k rawkey =
     k\<lparr>gctx := snd (gcm_init_and_key (take GEC_SYM_CIPHER_KEY_LEN rawkey) (gctx k)),
        salt := memcpy (salt k) 0 (take GEC_SALT_LEN (drop GEC_SYM_CIPHER_KEY_LEN rawkey)),
        ctr := 0\<rparr>"

definition gec_key_material_to_2_channels :: "gec_sym_key \<Rightarrow> gec_sym_key \<Rightarrow> bytes \<Rightarrow> gec_sym_key \<times> gec_sym_key" where
  "gec_key_material_to_2_channels chan1 chan2 key_material =
     (gec_init_sym_key_conf_auth chan1 key_material,
      gec_init_sym_key_conf_auth chan2 (drop GEC_RAW_KEY_LEN key_material))"

definition gec_init_sym_key_conf :: "gec_sym_key_conf \<Rightarrow> bytes \<Rightarrow> gec_sym_key_conf" where
  "gec_init_sym_key_conf k rawkey =
     k\<lparr>cctx := snd (aes_encrypt_key128 (take GEC_SYM_CIPHER_KEY_LEN rawkey) (cctx k)),
        csalt := memcpy (csalt k) 0 (take GEC_SALT_LEN (drop GEC_SYM_CIPHER_KEY_LEN rawkey)),
        cctr := 0\<rparr>"

definition gec_clear :: "gec_sym_key \<Rightarrow> gec_sym_key" where
  "gec_clear k = \<lparr>gctx = snd (gcm_end (gctx k)), salt = replicate GEC_SALT_LEN 0, ctr = 0\<rparr>"

definition gec_clear_conf :: "gec_sym_key_conf \<Rightarrow> gec_sym_key_conf" where
  "gec_clear_conf k = \<lparr>cctx = \<lparr>ks = replicate 44 0, inf = replicate 4 0\<rparr>, csalt = replicate GEC_SALT_LEN 0, cctr = 0\<rparr>"

section \<open>Authenticated encryption\<close>

text \<open>\<open>al\<close> holds the outcomes of the alignment tests made inside GCM; \<open>ct\<close> and \<open>pt\<close> are the output buffers.\<close>

definition nrBlks :: "nat \<Rightarrow> nat" where
  "nrBlks len = (len + AES_BLOCK_SIZE - 1) mod AES_BLOCK_SIZE"

definition gec_encrypt :: "bool \<times> bool \<times> bool \<Rightarrow> gec_sym_key \<Rightarrow> bytes \<Rightarrow> bytes \<Rightarrow> int \<times> gec_sym_key \<times> bytes" where
  "gec_encrypt al k pt ct =
     (if UINT32_MAX - nrBlks GEC_PT_LEN \<le> unat (ctr k) then (GEC_ERROR_COUNTER_ROLLOVER, k, ct)
      else
        let c = ctr k + 1;
            iv1 = write_word32_be (replicate 12 0) (ucast c);
            ct1 = write_word32_be ct (ucast c);
            iv2 = memcpy iv1 4 (salt k);
            ct2 = memcpy ct1 GEC_CTR_LEN (take GEC_PT_LEN pt);
            (gcm_ret, msg, tag, g) = gcm_encrypt_message (fst al) (fst (snd al)) (snd (snd al)) iv2 []
              (take GEC_PT_LEN (drop GEC_CTR_LEN ct2)) GEC_TAG_LEN (gctx k);
            ct3 = memcpy (memcpy ct2 GEC_CTR_LEN msg) (GEC_CT_LEN - GEC_TAG_LEN) tag;
            k' = k\<lparr>ctr := c, gctx := g\<rparr>
        in if gcm_ret = RETURN_GOOD then (GEC_SUCCESS, k', ct3)
           else (GEC_ERROR_ENCRYPT_AUTH_FAILED, k', memset ct3 0 0 GEC_CT_LEN))"

definition gec_decrypt :: "bool \<times> bool \<times> bool \<Rightarrow> gec_sym_key \<Rightarrow> bytes \<Rightarrow> bytes \<Rightarrow> int \<times> gec_sym_key \<times> bytes" where
  "gec_decrypt al k ct pt =
     (let tag = take GEC_TAG_LEN (drop (GEC_CT_LEN - GEC_TAG_LEN) ct);
          their_counter = ucast (read_word32_be ct);
          iv = memcpy (memcpy (replicate 12 0) 0 (take GEC_CTR_LEN ct)) GEC_CTR_LEN (salt k);
          pt1 = memcpy pt 0 (take GEC_PT_LEN (drop GEC_CTR_LEN ct));
          (gcm_ret, msg, g) = gcm_decrypt_message (fst al) (fst (snd al)) (snd (snd al)) iv []
            (take GEC_PT_LEN pt1) tag (gctx k);
          pt2 = memcpy pt1 0 msg
      in if gcm_ret = RETURN_GOOD then (GEC_SUCCESS, k\<lparr>gctx := g, ctr := their_counter\<rparr>, pt2)
         else (GEC_ERROR_DECRYPT_AUTH_FAILED, k\<lparr>gctx := g\<rparr>, memset pt2 0 0 GEC_PT_LEN))"

section \<open>Encryption without authentication\<close>

text \<open>\<open>buf\<close> is the local array of \<^verbatim>\<open>aes_ctr_crypt\<close>, \<open>al\<close> its alignment test.\<close>

definition gec_encrypt_conf :: "bytes \<Rightarrow> bool \<Rightarrow> gec_sym_key_conf \<Rightarrow> bytes \<Rightarrow> bytes \<Rightarrow> int \<times> gec_sym_key_conf \<times> bytes" where
  "gec_encrypt_conf buf al k pt ct =
     (if UINT32_MAX - nrBlks (length pt) \<le> unat (cctr k) then (GEC_ERROR_COUNTER_ROLLOVER, k, ct)
      else
        let ctr_buf = write_word32_be (replicate 16 0) (ucast (cctr k));
            (_, out, ctr_buf', c) = aes_ctr_crypt buf al pt ctr_buf gec_ctr_inc_func (cctx k)
        in (GEC_SUCCESS, k\<lparr>cctx := c, cctr := ucast (read_word32_be ctr_buf')\<rparr>, memcpy ct 0 out))"

definition gec_decrypt_conf :: "bytes \<Rightarrow> bool \<Rightarrow> gec_sym_key_conf \<Rightarrow> bytes \<Rightarrow> bytes \<Rightarrow> int \<times> gec_sym_key_conf \<times> bytes" where
  "gec_decrypt_conf buf al k ct pt = gec_encrypt_conf buf al k ct pt"

section \<open>Asymmetric operations\<close>

definition gec_generate_sign_keypair :: "(bytes \<Rightarrow> bytes) \<Rightarrow> gec_privkey \<Rightarrow> gec_pubkey \<Rightarrow> gec_privkey \<times> gec_pubkey" where
  "gec_generate_sign_keypair publickey q p =
     (let p' = p\<lparr>ppub := publickey (priv q)\<rparr> in (q\<lparr>pub := memcpy (pub q) 0 (take GEC_PUB_KEY_LEN (ppub p'))\<rparr>, p'))"

definition gec_sign :: "(bytes \<Rightarrow> bytes \<Rightarrow> bytes \<Rightarrow> bytes) \<Rightarrow> gec_privkey \<Rightarrow> bytes \<Rightarrow> bytes" where
  "gec_sign sign k msg = sign msg (priv k) (pub k)"

definition gec_verify :: "(bytes \<Rightarrow> bytes \<Rightarrow> bytes \<Rightarrow> int) \<Rightarrow> gec_pubkey \<Rightarrow> bytes \<Rightarrow> bytes \<Rightarrow> int" where
  "gec_verify sign_open k msg sig =
     (let ed_ret = sign_open msg (ppub k) sig in if ed_ret \<noteq> 0 then GEC_ERROR_INVALID else GEC_SUCCESS)"

definition gec_basepoint :: bytes where
  "gec_basepoint = 9 # replicate 31 0"

definition gec_generate_ephemeral_keypair :: "bytes \<Rightarrow> bytes \<Rightarrow> bytes" where
  "gec_generate_ephemeral_keypair gec_ephemeral_priv gec_ephemeral_pub = curve25519_donna gec_ephemeral_pub gec_ephemeral_priv gec_basepoint"

definition gec_ecdh :: "bytes \<Rightarrow> bytes \<Rightarrow> bytes \<Rightarrow> bytes" where
  "gec_ecdh secret_bytes pub_asym priv_asym = curve25519_donna secret_bytes priv_asym pub_asym"

definition gec_hash :: "bytes \<Rightarrow> bytes" where
  "gec_hash inp = ed25519_hash inp"

lemma length_gec_basepoint [simp]: "length gec_basepoint = 32"
  by (simp add: gec_basepoint_def)

text \<open>Both are X25519 of RFC 7748 on arrays of the declared sizes.\<close>

lemma gec_curve_vals:
  "length e = 32 \<Longrightarrow> length q = 32 \<Longrightarrow> gec_generate_ephemeral_keypair e q = x25519 e gec_basepoint"
  "length z = 32 \<Longrightarrow> length q = 32 \<Longrightarrow> length e = 32 \<Longrightarrow> gec_ecdh z q e = x25519 e q"
  by (simp_all add: gec_generate_ephemeral_keypair_def gec_ecdh_def curve25519_donna_val)

end
