(* ===== verification/Gec_Props.thy ===== *)
theory Gec_Props
  imports Gec
begin

text \<open>
  Correctness of \<^verbatim>\<open>gec.c\<close>: the format of a ciphertext, the channel between two holders of a raw key, what a receiver accepts,
  the counters a sender uses, and the behaviour of the two counter routines that shift once too often.
\<close>

section \<open>Words in buffers\<close>

lemma list_ge4: "4 \<le> length xs \<Longrightarrow> \<exists>a b c d ys. xs = a # b # c # d # ys"
  by (cases xs; cases "tl xs"; cases "tl (tl xs)"; cases "tl (tl (tl xs))") auto

lemma byte_of_word: "(ucast (w AND 0xff) :: u8) = ucast (w :: u32)"
proof -
  have "w AND 0xff = take_bit 8 w" by (simp add: take_bit_eq_mask mask_eq_exp_minus_1)
  then show ?thesis by (auto intro!: bit_word_eqI simp: bit_simps)
qed

lemma write_word32_be_eq:
  assumes "4 \<le> length buf"
  shows "write_word32_be buf c = be_bytes 4 (unat c) @ drop 4 buf"
proof -
  obtain a b x y ys where b: "buf = a # b # x # y # ys" using list_ge4[OF assms] by blast
  have byte: "(ucast (drop_bit (8 * k) c AND 0xff) :: u8) = word_of_nat (unat c div 256 ^ k)" for k
  proof -
    have "(ucast (drop_bit (8 * k) c AND 0xff) :: u8) = word_of_nat (unat (drop_bit (8 * k) c))"
      by (simp only: byte_of_word word_of_nat_unat)
    also have "unat (drop_bit (8 * k) c) = unat c div 256 ^ k"
      by (simp only: unat_drop_bit_eq) (simp add: drop_bit_eq_div power_mult)
    finally show ?thesis .
  qed
  show ?thesis using byte[of 0] byte[of 1] byte[of 2] byte[of 3]
    by (simp add: write_word32_be_def b be_bytes_4 drop_bit_drop_bit div_mult2_eq[symmetric])
qed

text \<open>The counter function drops the first byte and appends a 1: the read has shifted once too often.\<close>

lemma gec_ctr_inc_func_eq: "gec_ctr_inc_func ([a, b, c, d] @ ys) = [b, c, d, 1] @ ys"
proof -
  let ?buf = "[a, b, c, d] @ ys"
  define w where "w = read_word32_be ?buf"
  have w: "w = push_bit 8 (push_bit 8 (push_bit 8 (push_bit 8 (ucast a) OR ucast b) OR ucast c) OR ucast d)"
    by (simp add: w_def read_word32_be_def upt_rec)
  have bit_w: "bit w n \<longleftrightarrow> n < 32 \<and> (if n < 8 then False else if n < 16 then bit d (n - 8) else if n < 24 then bit c (n - 16) else bit b (n - 24))" for n
    unfolding w by (auto simp: bit_simps dest: bit_imp_le_length)
  have "w AND 1 = 0" by (rule bit_word_eqI) (auto simp: bit_simps bit_w)
  then have plus: "w + 1 = w OR 1" by (simp add: disjunctive_add_eq_or)
  have out: "write_word32_be ?buf v = [ucast (drop_bit 24 v), ucast (drop_bit 16 v), ucast (drop_bit 8 v), ucast v] @ ys" for v
    by (simp add: write_word32_be_def drop_bit_drop_bit byte_of_word)
  have "(ucast (drop_bit 24 (w OR 1)) :: u8) = b" "(ucast (drop_bit 16 (w OR 1)) :: u8) = c"
    "(ucast (drop_bit 8 (w OR 1)) :: u8) = d" "(ucast (w OR 1) :: u8) = 1"
    by (intro bit_word_eqI; auto simp: bit_simps bit_w dest: bit_imp_le_length)+
  then show ?thesis unfolding gec_ctr_inc_func_def w_def[symmetric] plus out by simp
qed


section \<open>Keyed channels\<close>

text \<open>A key structure that holds the raw key \<open>raw\<close>, whatever its counter; the nonce and the ciphertext for counter \<open>c\<close>.\<close>

definition gec_keyed :: "bytes \<Rightarrow> gec_sym_key \<Rightarrow> bool" where
  "gec_keyed raw k \<longleftrightarrow> gcm_keyed (take 16 raw) (gctx k) \<and> salt k = take 8 (drop 16 raw) \<and> 24 \<le> length raw"

definition gec_frame :: "bytes \<Rightarrow> bytes \<Rightarrow> bytes \<Rightarrow> bytes" where
  "gec_frame raw c4 pt =
     (let E = aes128 (take 16 raw); iv = c4 @ take 8 (drop 16 raw); x = gcm_cipher E iv pt
      in c4 @ x @ gcm_tag E iv [] x GEC_TAG_LEN)"

lemma gec_keyed_init:
  assumes "gcm_shape (gctx k)" "length (salt k) = 8" "length raw = 24"
  shows "gec_keyed raw (gec_init_sym_key_conf_auth k raw)" "ctr (gec_init_sym_key_conf_auth k raw) = 0"
  using assms gcm_keyed_init[OF assms(1)] by (simp_all add: gec_keyed_def gec_init_sym_key_conf_auth_def)

lemma length_gec_frame: "length c4 = 4 \<Longrightarrow> length pt = 64 \<Longrightarrow> length (gec_frame raw c4 pt) = 80"
  by (simp add: gec_frame_def Let_def gcm_cipher_facts length_gcm_tag)

lemma gec_encrypt_rollover: "UINT32_MAX - 15 \<le> unat (ctr k) \<Longrightarrow> gec_encrypt al k pt ct = (GEC_ERROR_COUNTER_ROLLOVER, k, ct)"
  by (simp add: gec_encrypt_def nrBlks_def)

lemma gec_encrypt_val:
  assumes "gec_keyed raw k" "unat (ctr k) < UINT32_MAX - 15" "length pt = 64" "length ct = 80"
  shows "\<exists>k'. gec_encrypt al k pt ct = (GEC_SUCCESS, k', gec_frame raw (be_bytes 4 (unat (ctr k) + 1)) pt) \<and>
    gec_keyed raw k' \<and> ctr k' = ctr k + 1"
proof -
  define c4 where "c4 = be_bytes 4 (unat (ctr k) + 1)"
  let ?E = "aes128 (take 16 raw)" and ?iv = "c4 @ take 8 (drop 16 raw)"
  have l4: "length c4 = 4" by (simp add: c4_def)
  have "unat (ucast (ctr k + 1) :: u32) = unat (ctr k) + 1"
    using assms(2) by (simp add: unat_inc unsigned_ucast_eq take_bit_nat_eq_self)
  then have w: "write_word32_be b (ucast (ctr k + 1)) = c4 @ drop 4 b" if "4 \<le> length b" for b
    by (simp only: write_word32_be_eq[OF that] c4_def)
  have iv: "memcpy (write_word32_be (replicate 12 0) (ucast (ctr k + 1))) 4 (salt k) = ?iv"
    using assms(1) by (auto simp: w l4 gec_keyed_def memcpy_def)
  have ct: "memcpy (write_word32_be ct (ucast (ctr k + 1))) 4 pt = c4 @ pt @ drop 68 ct"
    using assms(3) by (simp add: w l4 assms(4) memcpy_def)
  obtain g where g: "gcm_encrypt_message (fst al) (fst (snd al)) (snd (snd al)) ?iv [] pt 12 (gctx k) =
      (RETURN_GOOD, gcm_cipher ?E ?iv pt, gcm_tag ?E ?iv [] (gcm_cipher ?E ?iv pt) 12, g)" "gcm_keyed (take 16 raw) g"
    using gcm_encrypt_message_val[of "take 16 raw" "gctx k" ?iv "[]" pt 12] assms(1,3) l4 by (fastforce simp: gec_keyed_def)
  have out: "memcpy (memcpy (c4 @ pt @ drop 68 ct) 4 x) 68 t = c4 @ x @ t" if "length x = 64" "length t = 12" for x t
    using that assms(3,4) l4 by (simp add: memcpy_def)
  have "gec_encrypt al k pt ct = (GEC_SUCCESS, k\<lparr>ctr := ctr k + 1, gctx := g\<rparr>, gec_frame raw c4 pt)"
    using assms(2,3) l4 by (simp add: gec_encrypt_def nrBlks_def Let_def iv ct g(1) gec_frame_def out gcm_cipher_facts length_gcm_tag)
  then show ?thesis using g(2) assms(1) unfolding c4_def
    by (intro exI[of _ "k\<lparr>ctr := ctr k + 1, gctx := g\<rparr>"]) (simp add: gec_keyed_def)
qed

text \<open>What a receiver computes: it accepts exactly the frames of its own raw key.\<close>

lemma gec_frame_inj:
  assumes "length c4 = 4" "length m = 64" "length x = 64" "length t = 12"
  shows "c4 @ x @ t = gec_frame raw c4 m \<longleftrightarrow>
    m = gcm_cipher (aes128 (take 16 raw)) (c4 @ take 8 (drop 16 raw)) x \<and>
    t = gcm_tag (aes128 (take 16 raw)) (c4 @ take 8 (drop 16 raw)) [] x 12"
  using assms gcm_cipher_facts(2)[of "take 16 raw" "c4 @ take 8 (drop 16 raw)" m]
    gcm_cipher_facts(2)[of "take 16 raw" "c4 @ take 8 (drop 16 raw)" x]
  by (auto simp: gec_frame_def Let_def gcm_cipher_facts(1))

lemma gec_ct_parts:
  assumes "length ct = 80"
  obtains c4 x t where "ct = c4 @ x @ t" "length c4 = 4" "length x = 64" "length t = 12"
proof (rule that)
  have "ct = take 4 ct @ take 64 (drop 4 ct) @ drop 64 (drop 4 ct)" by (simp only: append_take_drop_id)
  then show "ct = take 4 ct @ take 64 (drop 4 ct) @ drop 68 ct" by (simp add: drop_drop)
qed (simp_all add: assms)

lemma gec_decrypt_val:
  assumes "gec_keyed raw k" "length c4 = 4" "length x = 64" "length t = 12" "length pt = 64"
    and ok: "ok \<longleftrightarrow> t = gcm_tag (aes128 (take 16 raw)) (c4 @ take 8 (drop 16 raw)) [] x 12"
  shows "\<exists>k'. gec_decrypt al k (c4 @ x @ t) pt =
    (if ok then GEC_SUCCESS else GEC_ERROR_DECRYPT_AUTH_FAILED, k',
     if ok then gcm_cipher (aes128 (take 16 raw)) (c4 @ take 8 (drop 16 raw)) x else replicate 64 0) \<and>
    gec_keyed raw k' \<and> ctr k' = (if ok then ucast (read_word32_be (c4 @ x @ t)) else ctr k)"
proof -
  let ?key = "take 16 raw" and ?iv = "c4 @ take 8 (drop 16 raw)"
  obtain g where g: "gcm_decrypt_message (fst al) (fst (snd al)) (snd (snd al)) ?iv [] x t (gctx k) =
      (if ok then RETURN_GOOD else RETURN_ERROR, gcm_cipher (aes128 ?key) ?iv x, g)" "gcm_keyed ?key g"
    using gcm_decrypt_message_val[of ?key "gctx k" ?iv "[]" x t] assms(1-4) ok by (fastforce simp: gec_keyed_def)
  have iv: "memcpy (memcpy (replicate 12 0) 0 c4) 4 (salt k) = ?iv"
    using assms(1,2) by (auto simp: gec_keyed_def memcpy_def)
  have "gec_decrypt al k (c4 @ x @ t) pt =
      (if ok then (GEC_SUCCESS, k\<lparr>gctx := g, ctr := ucast (read_word32_be (c4 @ x @ t))\<rparr>, gcm_cipher (aes128 ?key) ?iv x)
       else (GEC_ERROR_DECRYPT_AUTH_FAILED, k\<lparr>gctx := g\<rparr>, replicate 64 0))"
    using assms(2-5) by (simp add: gec_decrypt_def Let_def iv g(1) gcm_cipher_facts memset_def)
  then show ?thesis using g(2) assms(1) by (cases ok) (auto simp: gec_keyed_def)
qed

section \<open>Properties of the authenticated channel\<close>

text \<open>
  Property C7 (round trip): two parties that hold the same raw key understand each other at every point of their lives.  Whatever
  counters the two structures are at, as long as the sender's is below the rollover bound, \<^verbatim>\<open>gec_encrypt\<close> succeeds, its output is
  the counter in four big-endian bytes, the AES-GCM ciphertext under the nonce counter and salt, and the 12-byte tag;
  \<^verbatim>\<open>gec_decrypt\<close> gives the plaintext back, and both structures still hold the key afterwards.
\<close>

theorem gec_channel_roundtrip:
  assumes "gec_keyed raw kt" "gec_keyed raw kr" "unat (ctr kt) < UINT32_MAX - 15" "length pt = 64" "length ct = 80" "length pt' = 64"
  shows "\<exists>kt' kr'. gec_encrypt al kt pt ct = (GEC_SUCCESS, kt', gec_frame raw (be_bytes 4 (unat (ctr kt) + 1)) pt) \<and>
    gec_decrypt al' kr (gec_frame raw (be_bytes 4 (unat (ctr kt) + 1)) pt) pt' = (GEC_SUCCESS, kr', pt) \<and>
    gec_keyed raw kt' \<and> ctr kt' = ctr kt + 1 \<and> gec_keyed raw kr'"
proof -
  let ?c = "be_bytes 4 (unat (ctr kt) + 1)"
  let ?x = "gcm_cipher (aes128 (take 16 raw)) (?c @ take 8 (drop 16 raw)) pt"
  have "gec_frame raw ?c pt = ?c @ ?x @ gcm_tag (aes128 (take 16 raw)) (?c @ take 8 (drop 16 raw)) [] ?x 12"
    by (simp add: gec_frame_def Let_def)
  moreover have "length ?x = 64" using assms(4) by (simp add: gcm_cipher_facts)
  ultimately obtain kr' where "gec_decrypt al' kr (gec_frame raw ?c pt) pt' = (GEC_SUCCESS, kr', pt)" "gec_keyed raw kr'"
    using gec_decrypt_val[OF assms(2) _ _ _ assms(6), of ?c ?x _ True al'] by (auto simp: length_gcm_tag gcm_cipher_facts)
  then show ?thesis using gec_encrypt_val[OF assms(1,3-5), of al] by auto
qed

text \<open>A structure as declared, with arrays of the sizes of \<^verbatim>\<open>gec.h\<close>.\<close>

definition blank_key :: gec_sym_key where
  "blank_key = gec_clear \<lparr>gctx = fresh_gcm, salt = [], ctr = 0\<rparr>"

lemma blank_key_init: "length raw = 24 \<Longrightarrow> gec_keyed raw (gec_init_sym_key_conf_auth blank_key raw)"
    "length raw = 24 \<Longrightarrow> ctr (gec_init_sym_key_conf_auth blank_key raw) = 0"
  by (auto intro!: gec_keyed_init simp: blank_key_def gec_clear_def gcm_shape_def gcm_end_def)

theorem gec_channel_roundtrip_witness:
  "\<exists>kt' kr'. gec_encrypt (True, True, True) (gec_init_sym_key_conf_auth blank_key (replicate 24 7)) (replicate 64 1) (replicate 80 0) =
      (GEC_SUCCESS, kt', gec_frame (replicate 24 7) (be_bytes 4 (unat (0 :: u64) + 1)) (replicate 64 1)) \<and>
    gec_decrypt (False, True, False) (gec_init_sym_key_conf_auth blank_key (replicate 24 7))
      (gec_frame (replicate 24 7) (be_bytes 4 (unat (0 :: u64) + 1)) (replicate 64 1)) (replicate 64 0) = (GEC_SUCCESS, kr', replicate 64 1) \<and>
    gec_keyed (replicate 24 7) kt' \<and> ctr kt' = 0 + 1 \<and> gec_keyed (replicate 24 7) kr'"
  using gec_channel_roundtrip[OF blank_key_init(1) blank_key_init(1), of "replicate 24 7" "replicate 64 1" "replicate 80 0"
      "replicate 64 0" "(True, True, True)" "(False, True, False)"]
  by (simp add: blank_key_init(2))

lemma be_bytes_4_inj:
  assumes "be_bytes 4 v = be_bytes 4 w" "v < 2 ^ 32" "w < 2 ^ 32"
  shows "v = w"
proof -
  have eq: "a mod 256 = b mod 256" if "(word_of_nat a :: u8) = word_of_nat b" for a b
    using that by (simp add: word_of_nat_eq_iff take_bit_eq_mod)
  have step: "a = b" if "a div 256 = b div 256" "a mod 256 = b mod 256" for a b :: nat
    using that by (metis div_mult_mod_eq)
  have "v div 256 div 256 div 256 < 256" "w div 256 div 256 div 256 < 256" using assms(2,3) by simp_all
  then have "v div 256 div 256 div 256 = w div 256 div 256 div 256"
    using assms(1) eq[of "v div 256 div 256 div 256" "w div 256 div 256 div 256"] unfolding be_bytes_4 by simp
  moreover have "v div 256 div 256 mod 256 = w div 256 div 256 mod 256" "v div 256 mod 256 = w div 256 mod 256" "v mod 256 = w mod 256"
    using assms(1) unfolding be_bytes_4 by (auto intro: eq)
  ultimately show ?thesis by (rule step[OF step[OF step]])
qed

lemma be_bytes_val_4:
  assumes "length c = 4"
  shows "be_bytes 4 (be_val c) = c"
proof -
  obtain a b d e where c: "c = [a, b, d, e]" using assms by (auto simp: length_Suc_conv numeral_eq_Suc)
  have v: "be_val c = ((unat a * 256 + unat b) * 256 + unat d) * 256 + unat e" by (simp add: c be_val_def)
  show ?thesis unfolding be_bytes_4 v by (simp only: word_of_byte c) simp
qed

lemma be_val_bound: "length c = 4 \<Longrightarrow> be_val c < 2 ^ 32"
proof -
  assume "length c = 4"
  then obtain a b d e where c: "c = [a, b, d, e]" by (auto simp: length_Suc_conv numeral_eq_Suc)
  have v: "be_val c = 16777216 * unat a + 65536 * unat b + 256 * unat d + unat e" by (simp add: c be_val_def)
  have "unat a < 256" "unat b < 256" "unat d < 256" "unat e < 256" by simp_all
  then have "be_val c < 4294967296" unfolding v by linarith
  then show ?thesis by simp
qed

lemma be_val_bytes_4: "v < 2 ^ 32 \<Longrightarrow> be_val (be_bytes 4 v) = v"
  using be_bytes_4_inj[OF be_bytes_val_4] be_val_bound[of "be_bytes 4 v"] by simp

lemma gec_frame_plaintext:
  assumes "gec_frame raw c4 m = gec_frame raw c4 m'" "length c4 = 4" "length m = 64" "length m' = 64"
  shows "m = m'"
proof -
  obtain x t where f: "gec_frame raw c4 m = c4 @ x @ t" "length x = 64" "length t = 12"
    using assms(2,3) by (simp add: gec_frame_def Let_def gcm_cipher_facts length_gcm_tag)
  then show ?thesis
    using gec_frame_inj[OF assms(2,3) f(2,3), of raw] gec_frame_inj[OF assms(2,4) f(2,3), of raw] assms(1) by simp
qed

text \<open>When a sender's next call of \<^verbatim>\<open>gec_encrypt\<close> makes a given frame.\<close>

lemma gec_encrypt_makes_frame:
  assumes "gec_keyed raw kt" "length m = 64" "length buf = 80" "ct = gec_frame raw c4 m" "length c4 = 4"
  shows "(\<exists>kt'. gec_encrypt al kt m buf = (GEC_SUCCESS, kt', ct)) \<longleftrightarrow> be_val c4 = unat (ctr kt) + 1 \<and> unat (ctr kt) < UINT32_MAX - 15"
proof (cases "unat (ctr kt) < UINT32_MAX - 15")
  case True
  have hd4: "take 4 (gec_frame raw c m) = c" if "length c = 4" for c using that by (simp add: gec_frame_def Let_def)
  obtain kt' where e: "gec_encrypt al kt m buf = (GEC_SUCCESS, kt', gec_frame raw (be_bytes 4 (unat (ctr kt) + 1)) m)"
    using gec_encrypt_val[OF assms(1) True assms(2,3)] by blast
  have "ct = gec_frame raw (be_bytes 4 (unat (ctr kt) + 1)) m \<longleftrightarrow> c4 = be_bytes 4 (unat (ctr kt) + 1)"
    unfolding assms(4) using hd4[OF assms(5)] hd4[OF length_be_bytes] by metis
  also have "\<dots> \<longleftrightarrow> be_val c4 = unat (ctr kt) + 1"
  proof -
    have "unat (ctr kt) + 1 < 2 ^ 32" using True by simp
    from be_val_bytes_4[OF this] show ?thesis using be_bytes_val_4[OF assms(5)] by metis
  qed
  finally show ?thesis unfolding e using True by auto
next
  case False
  then show ?thesis using gec_encrypt_rollover[of kt al m buf] by simp
qed

text \<open>
  Property C11 (safety): what \<^verbatim>\<open>gec_decrypt\<close> accepts.  An 80-byte input is accepted exactly when it has the format of \<^verbatim>\<open>gec_encrypt\<close> under
  the same raw key for its own first four bytes as counter and some plaintext, which is then the output; every other input is answered
  with \<^verbatim>\<open>GEC_ERROR_DECRYPT_AUTH_FAILED\<close>, the output buffer is wiped and the counter is left as it was; the structure holds its key in both
  cases.  An accepted input is what a sender's call of \<^verbatim>\<open>gec_encrypt\<close> makes of the output if, and only if, the counter in it is the sender's
  next one and that is below the rollover bound: \<^verbatim>\<open>gec_decrypt\<close> has no such bound, and also accepts the counter 0 and the fifteen
  highest ones, which no sender writes.
\<close>

theorem gec_decrypt_accepts_only_frames:
  assumes "gec_keyed raw k" "length ct = 80" "length pt = 64"
  shows "\<exists>ret k' out. gec_decrypt al k ct pt = (ret, k', out) \<and> gec_keyed raw k' \<and>
    (if \<exists>m. length m = 64 \<and> ct = gec_frame raw (take 4 ct) m
     then ret = GEC_SUCCESS \<and> length out = 64 \<and> ct = gec_frame raw (take 4 ct) out \<and>
       (\<forall>al kt buf. gec_keyed raw kt \<longrightarrow> length buf = 80 \<longrightarrow>
          ((\<exists>kt'. gec_encrypt al kt out buf = (GEC_SUCCESS, kt', ct)) \<longleftrightarrow>
             be_val (take 4 ct) = unat (ctr kt) + 1 \<and> unat (ctr kt) < UINT32_MAX - 15))
     else ret = GEC_ERROR_DECRYPT_AUTH_FAILED \<and> out = replicate 64 0 \<and> ctr k' = ctr k)"
proof -
  obtain c4 x t where ct: "ct = c4 @ x @ t" "length c4 = 4" "length x = 64" "length t = 12"
    using gec_ct_parts[OF assms(2)] .
  let ?m = "gcm_cipher (aes128 (take 16 raw)) (c4 @ take 8 (drop 16 raw)) x"
  define ok where "ok = (t = gcm_tag (aes128 (take 16 raw)) (c4 @ take 8 (drop 16 raw)) [] x 12)"
  have m: "length ?m = 64" using ct(3) by (simp add: gcm_cipher_facts)
  have frame: "ct = gec_frame raw (take 4 ct) m \<longleftrightarrow> m = ?m \<and> ok" if "length m = 64" for m
    using gec_frame_inj[OF ct(2) that ct(3,4), of raw] ct(1,2) by (simp add: ok_def)
  have makes: "(\<exists>kt'. gec_encrypt al kt m buf = (GEC_SUCCESS, kt', ct)) \<longleftrightarrow>
      be_val (take 4 ct) = unat (ctr kt) + 1 \<and> unat (ctr kt) < UINT32_MAX - 15"
    if "ct = gec_frame raw (take 4 ct) m" "length m = 64" "gec_keyed raw kt" "length buf = 80" for m al kt buf
    using gec_encrypt_makes_frame[OF that(3,2,4,1)] assms(2) by simp
  have "(\<exists>m. length m = 64 \<and> ct = gec_frame raw (take 4 ct) m) \<longleftrightarrow> ok" using frame m by blast
  moreover obtain ret k' out where d: "gec_decrypt al k ct pt = (ret, k', out)" "gec_keyed raw k'"
    "if ok then ret = GEC_SUCCESS \<and> out = ?m else ret = GEC_ERROR_DECRYPT_AUTH_FAILED \<and> out = replicate 64 0 \<and> ctr k' = ctr k"
    using gec_decrypt_val[OF assms(1) ct(2-4) assms(3) ok_def, of al] unfolding ct(1) by (auto split: if_splits)
  moreover have "length out = 64 \<and> ct = gec_frame raw (take 4 ct) out" if ok using that d(3) frame[OF m] m by simp
  ultimately show ?thesis using makes[of out] by (simp split: if_splits)
qed

text \<open>A frame of a sender whose counter was 4, which is accepted, and which that sender makes.\<close>

theorem gec_decrypt_accepts_only_frames_witness:
  "(\<lambda>raw k ct. \<exists>k'. gec_decrypt (True, True, True) k ct (replicate 64 0) = (GEC_SUCCESS, k', replicate 64 1) \<and>
      (\<exists>kt'. gec_encrypt (True, True, True) (k\<lparr>ctr := 4\<rparr>) (replicate 64 1) (replicate 80 0) = (GEC_SUCCESS, kt', ct)))
    (replicate 24 7) (gec_init_sym_key_conf_auth blank_key (replicate 24 7)) (gec_frame (replicate 24 7) [0, 0, 0, 5] (replicate 64 1))"
proof -
  let ?raw = "replicate 24 7" and ?k = "gec_init_sym_key_conf_auth blank_key (replicate 24 7)"
  let ?ct = "gec_frame ?raw [0, 0, 0, 5] (replicate 64 1)"
  have k: "gec_keyed ?raw ?k" "gec_keyed ?raw (?k\<lparr>ctr := 4\<rparr>)" using blank_key_init(1)[of ?raw] by (simp_all add: gec_keyed_def)
  have ct: "length ?ct = 80" "take 4 ?ct = [0, 0, 0, 5]" by (simp add: length_gec_frame) (simp add: gec_frame_def Let_def)
  have v: "be_val [0, 0, 0, 5] = 5" by (simp add: be_val_def)
  obtain k' out where d: "gec_decrypt (True, True, True) ?k ?ct (replicate 64 0) = (GEC_SUCCESS, k', out)" "length out = 64"
    "?ct = gec_frame ?raw [0, 0, 0, 5] out"
    "\<exists>kt'. gec_encrypt (True, True, True) (?k\<lparr>ctr := 4\<rparr>) out (replicate 80 0) = (GEC_SUCCESS, kt', ?ct)"
    using gec_decrypt_accepts_only_frames[OF k(1) ct(1), of "replicate 64 0" "(True, True, True)"] k(2) v
    unfolding ct(2) by (force split: if_splits)
  have "out = replicate 64 1" using gec_frame_plaintext[OF d(3)[symmetric]] d(2) by simp
  then show ?thesis using d(1,4) by auto
qed

section \<open>Counters of a sender\<close>

text \<open>Successive calls of \<^verbatim>\<open>gec_encrypt\<close> on one key structure, each with its alignments, plaintext and output buffer.\<close>

primrec gec_encrypts :: "((bool \<times> bool \<times> bool) \<times> bytes \<times> bytes) list \<Rightarrow> gec_sym_key \<Rightarrow> (int \<times> bytes) list \<times> gec_sym_key" where
  "gec_encrypts [] k = ([], k)"
| "gec_encrypts (m # ms) k =
     (case gec_encrypt (fst m) k (fst (snd m)) (snd (snd m)) of (r, k1, ct) \<Rightarrow>
        let (rs, k2) = gec_encrypts ms k1 in ((r, ct) # rs, k2))"

text \<open>What the \<open>i\<close>-th call from counter \<open>c\<close> answers.\<close>

definition gec_answer :: "bytes \<Rightarrow> nat \<Rightarrow> ((bool \<times> bool \<times> bool) \<times> bytes \<times> bytes) \<Rightarrow> nat \<Rightarrow> int \<times> bytes" where
  "gec_answer raw c m i =
     (if c + i < UINT32_MAX - 15 then (GEC_SUCCESS, gec_frame raw (be_bytes 4 (c + i + 1)) (fst (snd m)))
      else (GEC_ERROR_COUNTER_ROLLOVER, snd (snd m)))"

lemma gec_encrypts_val:
  assumes "gec_keyed raw k" "\<forall>m \<in> set ms. length (fst (snd m)) = 64 \<and> length (snd (snd m)) = 80"
  shows "\<exists>k'. gec_encrypts ms k = (map (\<lambda>i. gec_answer raw (unat (ctr k)) (ms ! i) i) [0..<length ms], k') \<and> gec_keyed raw k'"
  using assms
proof (induction ms arbitrary: k)
  case (Cons m ms)
  have upt: "[0..<Suc n] = 0 # map Suc [0..<n]" for n by (simp add: map_Suc_upt upt_conv_Cons del: upt_Suc)
  show ?case
  proof (cases "unat (ctr k) < UINT32_MAX - 15")
    case True
    then obtain k1 where k1: "gec_encrypt (fst m) k (fst (snd m)) (snd (snd m)) =
        (GEC_SUCCESS, k1, gec_frame raw (be_bytes 4 (unat (ctr k) + 1)) (fst (snd m)))" "gec_keyed raw k1" "ctr k1 = ctr k + 1"
      using gec_encrypt_val[OF Cons.prems(1) True] Cons.prems(2) by (meson list.set_intros(1))
    have "unat (ctr k1) = unat (ctr k) + 1" using True k1(3) by (simp add: unat_inc)
    then show ?thesis using Cons.IH[OF k1(2)] Cons.prems(2) k1(1) True
      by (auto simp: upt gec_answer_def comp_def simp del: upt_Suc)
  next
    case False
    then have k1: "gec_encrypt (fst m) k (fst (snd m)) (snd (snd m)) = (GEC_ERROR_COUNTER_ROLLOVER, k, snd (snd m))"
      by (intro gec_encrypt_rollover) simp
    have "gec_answer raw (unat (ctr k)) n (Suc i) = gec_answer raw (unat (ctr k)) n i" for n i
      using False by (simp add: gec_answer_def)
    then show ?thesis using Cons.IH[OF Cons.prems(1)] Cons.prems(2) k1 False
      by (auto simp: upt gec_answer_def[of raw _ m] comp_def simp del: upt_Suc)
  qed
qed simp

text \<open>
  Property C14 (invariant): a sender never uses a nonce twice.  In any sequence of \<^verbatim>\<open>gec_encrypt\<close> calls on one key structure the
  ciphertexts that are produced start with pairwise different counters, which is what GCM needs of its nonces; each call
  either succeeds with the next counter or, once the counter has reached its bound, fails with
  \<^verbatim>\<open>GEC_ERROR_COUNTER_ROLLOVER\<close> and leaves the output buffer alone, and so does every later call.
\<close>

theorem gec_counters_never_repeat:
  assumes "gec_keyed raw k" "\<forall>m \<in> set ms. length (fst (snd m)) = 64 \<and> length (snd (snd m)) = 80"
    and rs: "rs = fst (gec_encrypts ms k)"
  shows "rs = map (\<lambda>i. gec_answer raw (unat (ctr k)) (ms ! i) i) [0..<length ms] \<and>
    distinct (map (take 4 \<circ> snd) (filter (\<lambda>r. fst r = GEC_SUCCESS) rs))"
proof -
  let ?c = "unat (ctr k)"
  have r: "rs = map (\<lambda>i. gec_answer raw ?c (ms ! i) i) [0..<length ms]"
    using gec_encrypts_val[OF assms(1,2)] rs by auto
  have ok: "filter (\<lambda>r. fst r = GEC_SUCCESS) rs =
      map (\<lambda>i. gec_answer raw ?c (ms ! i) i) (filter (\<lambda>i. ?c + i < UINT32_MAX - 15) [0..<length ms])"
    unfolding r filter_map by (rule arg_cong[of _ _ "map _"], rule filter_cong) (simp_all add: gec_answer_def)
  have hd4: "take 4 (snd (gec_answer raw ?c m i)) = be_bytes 4 (?c + i + 1)" if "?c + i < UINT32_MAX - 15" for m i
    using that by (simp add: gec_answer_def gec_frame_def Let_def)
  have "map (take 4 \<circ> snd) (filter (\<lambda>r. fst r = GEC_SUCCESS) rs) =
      map (\<lambda>i. be_bytes 4 (?c + i + 1)) (filter (\<lambda>i. ?c + i < UINT32_MAX - 15) [0..<length ms])"
    unfolding ok map_map by (rule map_cong) (simp_all add: hd4)
  moreover have "inj_on (\<lambda>i. be_bytes 4 (?c + i + 1)) {i. ?c + i < UINT32_MAX - 15}"
    by (rule inj_onI) (use be_bytes_4_inj in fastforce)
  ultimately have "distinct (map (take 4 \<circ> snd) (filter (\<lambda>r. fst r = GEC_SUCCESS) rs))"
    by (auto simp: distinct_map intro: inj_on_subset)
  with r show ?thesis by blast
qed

theorem gec_counters_never_repeat_witness:
  "fst (gec_encrypts (replicate 2 ((True, True, True), replicate 64 1, replicate 80 0))
      ((gec_init_sym_key_conf_auth blank_key (replicate 24 7))\<lparr>ctr := 4294967279\<rparr>)) =
    [(GEC_SUCCESS, gec_frame (replicate 24 7) [255, 255, 255, 240] (replicate 64 1)), (GEC_ERROR_COUNTER_ROLLOVER, replicate 80 0)]"
proof -
  let ?k = "(gec_init_sym_key_conf_auth blank_key (replicate 24 7))\<lparr>ctr := 4294967279\<rparr>"
  have "gec_keyed (replicate 24 7) ?k" using blank_key_init(1)[of "replicate 24 7"] by (simp add: gec_keyed_def)
  moreover have "be_bytes 4 4294967280 = [255, 255, 255, 240]" by (simp add: be_bytes_4)
  ultimately show ?thesis using gec_counters_never_repeat[of "replicate 24 7" ?k
      "replicate 2 ((True, True, True), replicate 64 1, replicate 80 0)", OF _ _ refl]
    by (simp add: gec_answer_def upt_rec)
qed

section \<open>Replays\<close>

lemma read_word32_be_val: "unat (read_word32_be ([a, b, c, d] @ ys)) = be_val [b, c, d, 0]"
proof -
  have step: "push_bit 8 (x OR ucast y) = (x + ucast y) * 256" if "take_bit 8 x = 0" for x :: u32 and y :: u8
  proof -
    have "x AND ucast y = 0"
      using that by (intro bit_word_eqI) (auto simp: bit_simps bit_eq_iff[of "take_bit 8 x"] dest: bit_imp_le_length)
    then show ?thesis by (simp add: disjunctive_add_eq_or push_bit_eq_mult)
  qed
  have low: "take_bit 8 (v * 256) = 0" for v :: u32
    using take_bit_push_bit[of 8 8 v] by (simp add: push_bit_eq_mult)
  have "read_word32_be ([a, b, c, d] @ ys) = (((ucast a * 256 + ucast b) * 256 + ucast c) * 256 + ucast d) * 256"
    using step[of 0 a] step[OF low, of "ucast a" b] step[OF low, of "ucast a * 256 + ucast b" c]
      step[OF low, of "(ucast a * 256 + ucast b) * 256 + ucast c" d]
    by (simp add: read_word32_be_def upt_rec)
  also have "\<dots> = word_of_nat (2 ^ 32 * unat a + be_val [b, c, d, 0])"
    by (simp add: be_val_def algebra_simps word_of_nat_unat)
  finally have "unat (read_word32_be ([a, b, c, d] @ ys)) = (2 ^ 32 * unat a + be_val [b, c, d, 0]) mod 2 ^ 32"
    by (simp only: unsigned_of_nat take_bit_eq_mod) simp
  moreover have "unat b < 2 ^ LENGTH(8)" "unat c < 2 ^ LENGTH(8)" "unat d < 2 ^ LENGTH(8)" by (rule unsigned_less)+
  then have "unat b < 256" "unat c < 256" "unat d < 256" by (simp_all only: len_bit0 len_num1) simp_all
  then have "unat b * 16777216 + unat c * 65536 + unat d * 256 < 4294967296" by linarith
  then have "be_val [b, c, d, 0] < 2 ^ 32" by (simp add: be_val_def algebra_simps)
  ultimately show ?thesis by simp
qed

text \<open>
  Property C40 (functional): the receiver has no protection against replays.  The check of the counter is commented out in
  \<^verbatim>\<open>gec_decrypt\<close>, so a frame that was accepted is accepted again by the state it left, and
  \<^verbatim>\<open>GEC_ERROR_DUPLICATE_COUNTER\<close> is never returned.  The counter that is stored is not the one received either:
  \<^verbatim>\<open>_read_word32_be\<close> shifts once too often and drops the most significant byte.
\<close>

theorem gec_replay_accepted:
  assumes "gec_keyed raw k" "length m = 64" "length pt = 64" "length pt' = 64" "length c4 = 4"
  shows "\<exists>k1 k2. gec_decrypt al k (gec_frame raw c4 m) pt = (GEC_SUCCESS, k1, m) \<and>
    gec_decrypt al' k1 (gec_frame raw c4 m) pt' = (GEC_SUCCESS, k2, m) \<and>
    unat (ctr k1) = be_val (tl c4 @ [0]) \<and> ctr k2 = ctr k1"
proof -
  let ?E = "aes128 (take 16 raw)" and ?iv = "c4 @ take 8 (drop 16 raw)"
  let ?x = "gcm_cipher ?E ?iv m" and ?t = "gcm_tag ?E ?iv [] (gcm_cipher ?E ?iv m) 12"
  obtain a b c d where c4: "c4 = [a, b, c, d]" using list4[OF assms(5)] by blast
  have f: "gec_frame raw c4 m = c4 @ ?x @ ?t" by (simp add: gec_frame_def Let_def)
  have l: "length ?x = 64" "length ?t = 12" using assms(2) by (simp_all add: gcm_cipher_facts length_gcm_tag)
  have dec: "\<exists>k'. gec_decrypt al k (gec_frame raw c4 m) pt = (GEC_SUCCESS, k', m) \<and> gec_keyed raw k' \<and>
      ctr k' = ucast (read_word32_be (gec_frame raw c4 m))" if "gec_keyed raw k" "length pt = 64" for al k pt
    unfolding f using gec_decrypt_val[OF that(1) assms(5) l that(2), of True al] by (simp add: gcm_cipher_facts)
  have "unat (ucast (read_word32_be (gec_frame raw c4 m)) :: u64) = unat (read_word32_be (gec_frame raw c4 m))"
    by (simp add: unsigned_ucast_eq take_bit_nat_eq_self_iff less_trans[OF unsigned_less])
  then have v: "unat (ucast (read_word32_be (gec_frame raw c4 m)) :: u64) = be_val (tl c4 @ [0])"
    using read_word32_be_val[of a b c d "?x @ ?t"] f by (simp add: c4)
  obtain k1 where k1: "gec_decrypt al k (gec_frame raw c4 m) pt = (GEC_SUCCESS, k1, m)" "gec_keyed raw k1"
      "ctr k1 = ucast (read_word32_be (gec_frame raw c4 m))" using dec[OF assms(1,3)] by blast
  obtain k2 where "gec_decrypt al' k1 (gec_frame raw c4 m) pt' = (GEC_SUCCESS, k2, m)"
      "ctr k2 = ucast (read_word32_be (gec_frame raw c4 m))" using dec[OF k1(2) assms(4)] by blast
  then show ?thesis using k1 v by simp
qed

theorem gec_replay_accepted_witness:
  "\<exists>k1 k2. gec_decrypt (True, True, True) (gec_init_sym_key_conf_auth blank_key (replicate 24 7))
      (gec_frame (replicate 24 7) [1, 0, 0, 5] (replicate 64 1)) (replicate 64 0) = (GEC_SUCCESS, k1, replicate 64 1) \<and>
    gec_decrypt (True, True, True) k1 (gec_frame (replicate 24 7) [1, 0, 0, 5] (replicate 64 1)) (replicate 64 0) =
      (GEC_SUCCESS, k2, replicate 64 1) \<and> unat (ctr k1) = be_val (tl [1, 0, 0, 5] @ [0]) \<and> ctr k2 = ctr k1"
  by (rule gec_replay_accepted[OF blank_key_init(1)]) simp_all

section \<open>Encryption without authentication\<close>

text \<open>The key stream of a fresh key: the counter blocks run through \<^verbatim>\<open>_gec_ctr_inc_func\<close> from zero.\<close>

definition gec_block :: "nat \<Rightarrow> bytes" where
  "gec_block j = (gec_ctr_inc_func ^^ j) (replicate 16 0)"

definition gec_stream :: "bytes \<Rightarrow> bytes \<Rightarrow> bytes" where
  "gec_stream raw xs = map (\<lambda>i. xs ! i XOR aes128 (take 16 raw) (gec_block (i div 16)) ! (i mod 16)) [0..<length xs]"

definition gec_conf_fresh :: "bytes \<Rightarrow> gec_sym_key_conf \<Rightarrow> bool" where
  "gec_conf_fresh raw k \<longleftrightarrow> ctx_at 0 (cctx k) \<and> cctr k = 0 \<and>
     (\<forall>b. length b = 16 \<longrightarrow> aes_block (cctx k) b = aes128 (take 16 raw) b)"

lemma gec_conf_fresh_init: "length (ks (cctx k)) = 44 \<Longrightarrow> gec_conf_fresh raw (gec_init_sym_key_conf k raw)"
  using aes_block_aes128[of "cctx k" _ "take 16 raw"]
  by (auto simp: gec_conf_fresh_def gec_init_sym_key_conf_def ctx_at_def ctx_ok_def aes_encrypt_key128_def Let_def split_def)

lemma keeps16_ctr_inc: "keeps16 gec_ctr_inc_func"
  unfolding keeps16_def
proof (intro allI impI)
  fix c :: bytes assume "length c = 16"
  moreover from this obtain a b x y ys where "c = a # b # x # y # ys" using list_ge4[of c] by auto
  ultimately show "length (gec_ctr_inc_func c) = 16" using gec_ctr_inc_func_eq[of a b x y ys] by simp
qed

lemma length_gec_block [simp]: "length (gec_block j) = 16"
  by (induction j) (simp_all add: gec_block_def keeps16D[OF keeps16_ctr_inc])

lemma ctr_run_nth:
  assumes "p < 16"
  shows "fst (run (ctr_step inc E) (p, c) xs) =
    map (\<lambda>i. xs ! i XOR E ((inc ^^ ((p + i) div 16)) c) ! ((p + i) mod 16)) [0..<length xs]"
  using assms
proof (induction xs arbitrary: p c)
  case (Cons x xs)
  have upt: "[0..<Suc n] = 0 # map Suc [0..<n]" for n by (simp add: map_Suc_upt upt_conv_Cons del: upt_Suc)
  show ?case
  proof (cases "p = 15")
    case True
    have "(16 + i) div 16 = Suc (i div 16)" for i :: nat by simp
    then show ?thesis using True Cons.IH[of 0 "inc c"]
      by (simp add: ctr_norm_def split_def Let_def upt comp_def funpow_swap1 del: upt_Suc)
  next
    case False
    then have "Suc p < 16" "Suc p \<noteq> 16" using Cons.prems by simp_all
    then show ?thesis using Cons.IH[of "Suc p" c] Cons.prems
      by (simp add: ctr_norm_def split_def Let_def upt comp_def del: upt_Suc)
  qed
qed simp

lemma gec_stream_run:
  assumes "gec_conf_fresh raw k"
  shows "fst (run (ctr_step gec_ctr_inc_func (aes_block (cctx k))) (0, replicate 16 0) xs) = gec_stream raw xs"
  using assms by (auto simp: ctr_run_nth gec_stream_def gec_conf_fresh_def simp flip: gec_block_def)

lemma gec_conf_val:
  assumes "gec_conf_fresh raw k" "length buf = 128" "length pt \<le> length ct"
  shows "\<exists>k'. gec_encrypt_conf buf al k pt ct = (GEC_SUCCESS, k', gec_stream raw pt @ drop (length pt) ct)"
proof -
  have z: "write_word32_be (replicate 16 0) 0 = replicate 16 0"
    by (simp add: write_word32_be_eq be_bytes_4) (simp add: numeral_eq_Suc)
  obtain os p' c' where r: "run (ctr_step gec_ctr_inc_func (aes_block (cctx k))) (0, replicate 16 0) pt = (os, ctr_norm gec_ctr_inc_func (p', c'))"
    "aes_ctr_crypt buf al pt (replicate 16 0) gec_ctr_inc_func (cctx k) = (0, os, c', set_pos p' (cctx k))"
    using aes_ctr_call[of 0 "cctx k" gec_ctr_inc_func "replicate 16 0" buf pt al] assms(1,2) keeps16_ctr_inc
    by (auto simp: gec_conf_fresh_def ctr_norm_def)
  have os: "os = gec_stream raw pt" using gec_stream_run[OF assms(1), of pt] r(1) by simp
  have "nrBlks n < 16" for n by (simp add: nrBlks_def)
  then have "\<not> UINT32_MAX - nrBlks (length pt) \<le> unat (cctr k)"
    using assms(1) less_trans[of "nrBlks (length pt)" 16 UINT32_MAX] by (simp add: gec_conf_fresh_def)
  then show ?thesis using assms r(2) os
    by (simp add: gec_encrypt_conf_def z gec_conf_fresh_def memcpy_def gec_stream_def)
qed

text \<open>
  With two structures initialised from the same raw key, \<^verbatim>\<open>gec_decrypt_conf\<close> gives back the plaintext of any
  length that \<^verbatim>\<open>gec_encrypt_conf\<close> encrypted, and both write exactly as many bytes as the message has.
\<close>

theorem gec_conf_roundtrip:
  assumes "length (ks (cctx k)) = 44" "length (ks (cctx k')) = 44" "length buf = 128" "length buf' = 128"
    and "length pt \<le> length ct" "length pt \<le> length out"
  shows "\<exists>k1 k2 x. gec_encrypt_conf buf al (gec_init_sym_key_conf k raw) pt ct = (GEC_SUCCESS, k1, x @ drop (length pt) ct) \<and>
    length x = length pt \<and>
    gec_decrypt_conf buf' al' (gec_init_sym_key_conf k' raw) x out = (GEC_SUCCESS, k2, pt @ drop (length pt) out)"
proof -
  note f = gec_conf_fresh_init[OF assms(1), of raw] gec_conf_fresh_init[OF assms(2), of raw]
  have l: "length (gec_stream raw pt) = length pt" by (simp add: gec_stream_def)
  have "gec_stream raw (gec_stream raw pt) = pt" by (auto simp: gec_stream_def xor.assoc intro!: nth_equalityI)
  then show ?thesis using gec_conf_val[OF f(1) assms(3,5), of al] gec_conf_val[OF f(2) assms(4), of "gec_stream raw pt" out al'] assms(6) l
    by (auto simp: gec_decrypt_conf_def)
qed

definition blank_conf :: gec_sym_key_conf where
  "blank_conf = gec_clear_conf \<lparr>cctx = fresh_ctx, csalt = [], cctr = 0\<rparr>"

theorem gec_conf_roundtrip_witness:
  "\<exists>k1 k2 x. gec_encrypt_conf (replicate 128 0) True (gec_init_sym_key_conf blank_conf (replicate 24 7)) (replicate 64 3) (replicate 70 9) =
      (GEC_SUCCESS, k1, x @ drop (length (replicate 64 (3 :: u8))) (replicate 70 9)) \<and> length x = length (replicate 64 (3 :: u8)) \<and>
    gec_decrypt_conf (replicate 128 5) False (gec_init_sym_key_conf blank_conf (replicate 24 7)) x (replicate 64 0) =
      (GEC_SUCCESS, k2, replicate 64 3 @ drop (length (replicate 64 (3 :: u8))) (replicate 64 0))"
  by (rule gec_conf_roundtrip) (simp_all add: blank_conf_def gec_clear_conf_def)

text \<open>
  \<^verbatim>\<open>gec_encrypt_conf\<close> reuses its key stream from the fifth block of a message on.  The counter function maps the
  bytes \<open>a b c d\<close> to \<open>b c d 1\<close>, so it stays at \<open>1 1 1 1\<close> after four steps, and any two bytes sixteen apart after the first
  64 are masked with the same byte.
\<close>

theorem gec_conf_keystream_repeats:
  assumes "length (ks (cctx k)) = 44" "length buf = 128" "length pt \<le> length ct" "64 \<le> i" "i + 16 < length pt"
    and "gec_encrypt_conf buf al (gec_init_sym_key_conf k raw) pt ct = (r, k', x)"
  shows "x ! i XOR pt ! i = x ! (i + 16) XOR pt ! (i + 16)"
proof -
  have stuck: "gec_block (j + 4) = [1, 1, 1, 1] @ replicate 12 0" for j
  proof (induction j)
    case 0
    have z: "replicate 16 (0 :: u8) = [0, 0, 0, 0] @ replicate 12 0" by (simp add: numeral_eq_Suc)
    have "gec_block (0 + 4) = gec_ctr_inc_func (gec_ctr_inc_func (gec_ctr_inc_func (gec_ctr_inc_func (replicate 16 0))))"
      by (simp add: gec_block_def eval_nat_numeral)
    then show ?case by (simp only: z gec_ctr_inc_func_eq)
  next
    case (Suc j)
    have "gec_block (Suc j + 4) = gec_ctr_inc_func (gec_block (j + 4))" by (simp only: gec_block_def add_Suc funpow.simps comp_apply)
    then show ?case by (simp only: Suc.IH gec_ctr_inc_func_eq)
  qed
  have "gec_block (i div 16) = gec_block ((i + 16) div 16)"
    using stuck[of "i div 16 - 4"] stuck[of "(i + 16) div 16 - 4"] assms(4) by simp
  moreover have "x = gec_stream raw pt @ drop (length pt) ct"
    using gec_conf_val[OF gec_conf_fresh_init[OF assms(1)] assms(2,3), of al raw] assms(6) by auto
  moreover have "(a XOR e) XOR a = e" for a e :: u8 by (simp add: xor.commute[of a e] xor.assoc)
  ultimately show ?thesis using assms(5) by (simp add: gec_stream_def nth_append)
qed

theorem gec_conf_keystream_repeats_witness:
  "snd (snd (gec_encrypt_conf (replicate 128 0) True (gec_init_sym_key_conf blank_conf (replicate 24 7)) (replicate 96 3) (replicate 96 0))) ! 70
     XOR replicate 96 3 ! 70 =
   snd (snd (gec_encrypt_conf (replicate 128 0) True (gec_init_sym_key_conf blank_conf (replicate 24 7)) (replicate 96 3) (replicate 96 0))) ! (70 + 16)
     XOR replicate 96 3 ! (70 + 16)"
  by (rule gec_conf_keystream_repeats[where k = blank_conf and buf = "replicate 128 0" and ct = "replicate 96 0" and al = True and raw = "replicate 24 7"])
    (simp_all add: blank_conf_def gec_clear_conf_def prod_eq_iff)

end
