(* ===== verification/Mavlink_Crc.thy ===== *)
theory Mavlink_Crc
  imports Prelude
begin

text \<open>
  The MAVLink checksum of \<^verbatim>\<open>mavlink/v2.0/checksum.h\<close>: the byte-wise update \<^verbatim>\<open>crc_accumulate\<close> and
  its loops, and the proof that it is CRC-16/MCRF4XX, that is, eight steps of the reflected
  shift register with polynomial 0x8408.
\<close>

definition X25_INIT_CRC :: u16 where
  [c_consts]: "X25_INIT_CRC = 0xffff"

definition crc_accumulate :: "u8 \<Rightarrow> u16 \<Rightarrow> u16" where
  "crc_accumulate data crcAccum =
     (let tmp0 = data XOR ucast (crcAccum AND 0xff);
          tmp = tmp0 XOR push_bit 4 tmp0
      in drop_bit 8 crcAccum XOR push_bit 8 (ucast tmp) XOR push_bit 3 (ucast tmp) XOR drop_bit 4 (ucast tmp))"

definition crc_init :: u16 where
  "crc_init = X25_INIT_CRC"

primrec crc_accumulate_buffer :: "u16 \<Rightarrow> bytes \<Rightarrow> u16" where
  "crc_accumulate_buffer crc [] = crc"
| "crc_accumulate_buffer crc (b # bs) = crc_accumulate_buffer (crc_accumulate b crc) bs"

definition crc_calculate :: "bytes \<Rightarrow> u16" where
  "crc_calculate buf = crc_accumulate_buffer crc_init buf"

lemma crc_accumulate_buffer_append:
  "crc_accumulate_buffer crc (xs @ ys) = crc_accumulate_buffer (crc_accumulate_buffer crc xs) ys"
  by (induction xs arbitrary: crc) auto

section \<open>The reference shift register\<close>

definition crc_shift :: "u16 \<Rightarrow> u16" where
  "crc_shift c = (if bit c 0 then drop_bit 1 c XOR 0x8408 else drop_bit 1 c)"

definition crc16_mcrf4xx :: "u8 \<Rightarrow> u16 \<Rightarrow> u16" where
  "crc16_mcrf4xx data crc = (crc_shift ^^ 8) (crc XOR ucast data)"

text \<open>
  The register is linear over exclusive or; its eight steps shift the high byte down and act on
  the low byte alone.
\<close>

lemma crc_shift_xor: "crc_shift (a XOR b) = crc_shift a XOR crc_shift b"
  by (auto simp: crc_shift_def bit_xor_iff drop_bit_xor ac_simps)

lemma crc_shift_pow_xor: "(crc_shift ^^ k) (a XOR b) = (crc_shift ^^ k) a XOR (crc_shift ^^ k) b"
  by (induction k arbitrary: a b) (simp_all add: crc_shift_xor)

lemma crc_shift_pow_zero_low:
  "(\<forall>i < k. \<not> bit y i) \<Longrightarrow> (crc_shift ^^ k) y = drop_bit k y"
proof (induction k)
  case (Suc k)
  then have "(crc_shift ^^ k) y = drop_bit k y" by simp
  then show ?case using Suc.prems crc_shift_def[of "drop_bit k y"]
    by (simp add: bit_drop_bit_eq)
qed simp

definition crc_low :: "u8 \<Rightarrow> u16" where
  "crc_low b = (let tmp = b XOR push_bit 4 b
     in push_bit 8 (ucast tmp) XOR push_bit 3 (ucast tmp) XOR drop_bit 4 (ucast tmp))"

lemma xor_linear_crc_low: "xor_linear crc_low"
  by (rule xor_linearI) (simp add: crc_low_def Let_def push_bit_xor drop_bit_xor ucast_xor ac_simps)

lemma crc_low_basis:
  "(crc_shift ^^ 8) 1 = crc_low 1" "(crc_shift ^^ 8) 2 = crc_low 2"
  "(crc_shift ^^ 8) 4 = crc_low 4" "(crc_shift ^^ 8) 8 = crc_low 8"
  "(crc_shift ^^ 8) 16 = crc_low 16" "(crc_shift ^^ 8) 32 = crc_low 32"
  "(crc_shift ^^ 8) 64 = crc_low 64" "(crc_shift ^^ 8) 128 = crc_low 128"
  by (simp_all add: funpow_8 crc_shift_def crc_low_def Let_def)

lemma crc_low_shift: "(crc_shift ^^ 8) (ucast b) = crc_low b"
proof (rule xor_linear_eqI[where f = "\<lambda>b. (crc_shift ^^ 8) (ucast b)" and g = crc_low])
  show "xor_linear (\<lambda>b :: u8. (crc_shift ^^ 8) (ucast b))"
    by (rule xor_linear_comp[OF xor_linear_funpow[OF xor_linearI[OF crc_shift_xor]] xor_linear_ucast])
  fix i assume "i < LENGTH(8)"
  then have "i = 0 \<or> i = 1 \<or> i = 2 \<or> i = 3 \<or> i = 4 \<or> i = 5 \<or> i = 6 \<or> i = 7"
    by simp arith
  then show "(crc_shift ^^ 8) (ucast (2 ^ i :: u8)) = crc_low (2 ^ i)"
    by (elim disjE) (simp_all add: crc_low_basis)
qed (rule xor_linear_crc_low)

lemma u16_and_ff: "(x :: u16) AND 0xff = take_bit 8 x"
proof -
  have m: "(0xff :: u16) = mask 8" by (simp add: mask_numeral)
  show ?thesis unfolding m by (simp add: take_bit_eq_mask)
qed

lemma bit_high_byte: "bit ((x :: u16) AND 0xff00) n \<longleftrightarrow> 8 \<le> n \<and> bit x n"
proof -
  have m: "(0xff00 :: u16) = NOT (mask 8)" by (simp add: mask_numeral)
  show ?thesis unfolding m by (auto simp: bit_simps dest: bit_imp_le_length)
qed

lemma u16_split: "(x :: u16) = (x AND 0xff00) XOR ucast (ucast x :: u8)"
  by (rule bit_word_eqI) (auto simp: bit_xor_iff bit_high_byte bit_ucast_iff)

lemma crc16_mcrf4xx_split: "(crc_shift ^^ 8) x = drop_bit 8 x XOR crc_low (ucast x)"
proof -
  have "(crc_shift ^^ 8) (x AND 0xff00) = drop_bit 8 (x AND 0xff00)"
    by (rule crc_shift_pow_zero_low) (simp add: bit_high_byte)
  also have "\<dots> = drop_bit 8 x"
    by (rule bit_word_eqI) (simp only: bit_drop_bit_eq o_apply bit_high_byte, simp)
  finally show ?thesis
    using crc_shift_pow_xor[of 8 "x AND 0xff00" "ucast (ucast x :: u8)"] u16_split[of x]
    by (simp add: crc_low_shift)
qed

lemma crc_accumulate_eq_ref: "crc_accumulate data crc = crc16_mcrf4xx data crc"
proof -
  let ?x = "crc XOR ucast data"
  have "drop_bit 8 ?x = drop_bit 8 crc"
    by (rule bit_word_eqI) (auto simp: bit_simps dest: bit_imp_le_length)
  moreover have "ucast ?x = data XOR ucast (crc AND 0xff)"
    by (rule bit_word_eqI) (auto simp: u16_and_ff bit_simps)
  ultimately show ?thesis
    by (simp add: crc16_mcrf4xx_def crc16_mcrf4xx_split crc_low_def crc_accumulate_def Let_def)
qed

section \<open>Properties\<close>

text \<open>
  Property C36 (equivalence).  \<^verbatim>\<open>crc_accumulate\<close> computes, for every byte and every accumulated value, the eight
  steps of the reflected shift register with polynomial 0x8408, so \<^verbatim>\<open>crc_calculate\<close> over any buffer is
  CRC-16/MCRF4XX with initial value 0xFFFF.
\<close>

theorem crc_calculate_is_mcrf4xx:
  "crc_calculate buf = foldl (\<lambda>crc b. crc16_mcrf4xx b crc) 0xFFFF buf"
proof -
  have "crc_accumulate_buffer crc buf = foldl (\<lambda>crc b. crc16_mcrf4xx b crc) crc buf" for crc
    by (induction buf arbitrary: crc) (simp_all add: crc_accumulate_eq_ref)
  then show ?thesis by (simp add: crc_calculate_def crc_init_def X25_INIT_CRC_def)
qed

end
