(* ===== verification/Mavlink.thy ===== *)
theory Mavlink
  imports Mavlink_Crc Mavlink_Table
begin

text \<open>
  The MAVLink 2 framing layer of \<^verbatim>\<open>mavlink/v2.0/mavlink_helpers.h\<close> and \<^verbatim>\<open>mavlink_types.h\<close>: the message
  and status structures, serialisation (\<^verbatim>\<open>mavlink_msg_to_send_buffer\<close>) and the byte-driven parser
  \<^verbatim>\<open>mavlink_frame_char_buffer\<close>.

  Every component of the applications keeps its parser in static variables that nothing else
  writes, so \<^verbatim>\<open>status->signing\<close> and \<^verbatim>\<open>status->signing_streams\<close> are NULL: the status record leaves them
  out, \<^verbatim>\<open>mavlink_signature_check\<close> is its branch for a NULL context, and the branches guarded by a
  signing context are the ones that are not taken; the theory \<open>Mavlink_Signing\<close> has them.  \<^verbatim>\<open>r_message\<close> and \<^verbatim>\<open>r_mavlink_status\<close> are never NULL.
\<close>

section \<open>Data\<close>

abbreviation MAVLINK_STX :: u8 where "MAVLINK_STX \<equiv> 253"
abbreviation MAVLINK_STX_MAVLINK1 :: u8 where "MAVLINK_STX_MAVLINK1 \<equiv> 0xFE"
abbreviation MAVLINK_SIGNATURE_BLOCK_LEN :: nat where "MAVLINK_SIGNATURE_BLOCK_LEN \<equiv> 13"
abbreviation MAVLINK_PAYLOAD_BYTES :: nat where "MAVLINK_PAYLOAD_BYTES \<equiv> 264"

text \<open>
  \<^verbatim>\<open>payload64\<close> holds \<open>(255 + 2 + 7) / 8 = 33\<close> 64-bit words and is only accessed through byte
  pointers; the 24-bit bit field \<^verbatim>\<open>msgid\<close> is a word of that width.
\<close>

record mavlink_message_t =
  m_checksum :: u16
  m_magic :: u8
  m_len :: u8
  m_incompat_flags :: u8
  m_compat_flags :: u8
  m_seq :: u8
  m_sysid :: u8
  m_compid :: u8
  m_msgid :: "24 word"
  m_payload :: bytes
  m_ck :: bytes
  m_signature :: bytes

datatype mavlink_parse_state_t =
    PARSE_STATE_UNINIT | PARSE_STATE_IDLE | PARSE_STATE_GOT_STX | PARSE_STATE_GOT_LENGTH
  | PARSE_STATE_GOT_INCOMPAT_FLAGS | PARSE_STATE_GOT_COMPAT_FLAGS | PARSE_STATE_GOT_SEQ
  | PARSE_STATE_GOT_SYSID | PARSE_STATE_GOT_COMPID | PARSE_STATE_GOT_MSGID1
  | PARSE_STATE_GOT_MSGID2 | PARSE_STATE_GOT_MSGID3 | PARSE_STATE_GOT_PAYLOAD
  | PARSE_STATE_GOT_CRC1 | PARSE_STATE_GOT_BAD_CRC1 | PARSE_STATE_SIGNATURE_WAIT

datatype mavlink_framing_t = FRAMING_INCOMPLETE | FRAMING_OK | FRAMING_BAD_CRC | FRAMING_BAD_SIGNATURE

record mavlink_status_t =
  s_msg_received :: mavlink_framing_t
  s_buffer_overrun :: u8
  s_parse_error :: u8
  s_parse_state :: mavlink_parse_state_t
  s_packet_idx :: u8
  s_current_rx_seq :: u8
  s_current_tx_seq :: u8
  s_packet_rx_success_count :: u16
  s_packet_rx_drop_count :: u16
  s_flags :: u8
  s_signature_wait :: u8

text \<open>Static variables start zeroed.\<close>

definition zero_message :: mavlink_message_t where
  "zero_message = \<lparr>m_checksum = 0, m_magic = 0, m_len = 0, m_incompat_flags = 0, m_compat_flags = 0,
     m_seq = 0, m_sysid = 0, m_compid = 0, m_msgid = 0, m_payload = replicate MAVLINK_PAYLOAD_BYTES 0,
     m_ck = replicate 2 0, m_signature = replicate MAVLINK_SIGNATURE_BLOCK_LEN 0\<rparr>"

definition zero_status :: mavlink_status_t where
  "zero_status = \<lparr>s_msg_received = FRAMING_INCOMPLETE, s_buffer_overrun = 0, s_parse_error = 0,
     s_parse_state = PARSE_STATE_UNINIT, s_packet_idx = 0, s_current_rx_seq = 0, s_current_tx_seq = 0,
     s_packet_rx_success_count = 0, s_packet_rx_drop_count = 0, s_flags = 0, s_signature_wait = 0\<rparr>"

section \<open>Serialisation\<close>

text \<open>\<^verbatim>\<open>_mav_trim_payload\<close>: drop trailing zero bytes, but keep at least one byte.\<close>

fun mav_trim_payload :: "bytes \<Rightarrow> nat \<Rightarrow> nat" where
  "mav_trim_payload payload n =
     (if 1 < n \<and> payload ! (n - 1) = 0 then mav_trim_payload payload (n - 1) else n)"

declare mav_trim_payload.simps [simp del]

definition header_mavlink1 :: "mavlink_message_t \<Rightarrow> bytes" where
  "header_mavlink1 msg =
     [m_magic msg, m_len msg, m_seq msg, m_sysid msg, m_compid msg, ucast (m_msgid msg AND 0xFF)]"

definition header_mavlink2 :: "mavlink_message_t \<Rightarrow> nat \<Rightarrow> bytes" where
  "header_mavlink2 msg len =
     [m_magic msg, word_of_nat len, m_incompat_flags msg, m_compat_flags msg, m_seq msg, m_sysid msg,
      m_compid msg, ucast (m_msgid msg AND 0xFF), ucast (drop_bit 8 (m_msgid msg) AND 0xFF),
      ucast (drop_bit 16 (m_msgid msg) AND 0xFF)]"

text \<open>The bytes \<^verbatim>\<open>mavlink_msg_to_send_buffer\<close> stores, in order from \<^verbatim>\<open>buf[0]\<close>, and what it returns.\<close>

definition send_bytes :: "mavlink_message_t \<Rightarrow> bytes" where
  "send_bytes msg =
     (let ck = [ucast (m_checksum msg AND 0xFF), ucast (drop_bit 8 (m_checksum msg))] in
      if m_magic msg = MAVLINK_STX_MAVLINK1
      then header_mavlink1 msg @ take (unat (m_len msg)) (m_payload msg) @ ck
      else let length = mav_trim_payload (m_payload msg) (unat (m_len msg));
               sig = (if m_incompat_flags msg AND 1 \<noteq> 0
                      then take MAVLINK_SIGNATURE_BLOCK_LEN (m_signature msg) else [])
           in header_mavlink2 msg length @ take length (m_payload msg) @ ck @ sig)"

definition mavlink_msg_to_send_buffer :: "bytes \<Rightarrow> mavlink_message_t \<Rightarrow> u16 \<times> bytes" where
  "mavlink_msg_to_send_buffer buf msg =
     (let (header_len, length, signature_len) =
        (if m_magic msg = MAVLINK_STX_MAVLINK1 then (5, unat (m_len msg), 0)
         else (9, mav_trim_payload (m_payload msg) (unat (m_len msg)),
               if m_incompat_flags msg AND 1 \<noteq> 0 then MAVLINK_SIGNATURE_BLOCK_LEN else 0))
      in (word_of_nat (header_len + 1 + 2 + length + signature_len), memcpy buf 0 (send_bytes msg)))"

section \<open>The parser\<close>

definition mavlink_start_checksum :: "mavlink_message_t \<Rightarrow> mavlink_message_t" where
  "mavlink_start_checksum msg = msg\<lparr>m_checksum := crc_init\<rparr>"

definition mavlink_update_checksum :: "mavlink_message_t \<Rightarrow> u8 \<Rightarrow> mavlink_message_t" where
  "mavlink_update_checksum msg c = msg\<lparr>m_checksum := crc_accumulate c (m_checksum msg)\<rparr>"

definition mav_parse_error :: "mavlink_status_t \<Rightarrow> mavlink_status_t" where
  "mav_parse_error status = status\<lparr>s_parse_error := s_parse_error status + 1\<rparr>"

text \<open>\<^verbatim>\<open>mavlink_signature_check\<close> with \<^verbatim>\<open>signing == NULL\<close>.\<close>

definition null_signature_check :: "mavlink_message_t \<Rightarrow> bool" where
  "null_signature_check msg = True"

definition in_mavlink1 :: "mavlink_status_t \<Rightarrow> bool" where
  "in_mavlink1 status \<longleftrightarrow> s_flags status AND 1 \<noteq> 0"

text \<open>Two cases of the switch are shared by two labels each: the idle states and the second checksum byte.\<close>

definition frame_idle :: "u8 \<Rightarrow> mavlink_message_t \<Rightarrow> mavlink_status_t \<Rightarrow> mavlink_message_t \<Rightarrow>
    mavlink_message_t \<times> mavlink_status_t \<times> mavlink_message_t" where
  "frame_idle c rx st r =
     (if c = MAVLINK_STX then
        (mavlink_start_checksum (rx\<lparr>m_len := 0, m_magic := c\<rparr>),
         st\<lparr>s_parse_state := PARSE_STATE_GOT_STX, s_flags := s_flags st AND NOT 1\<rparr>, r)
      else if c = MAVLINK_STX_MAVLINK1 then
        (mavlink_start_checksum (rx\<lparr>m_len := 0, m_magic := c\<rparr>),
         st\<lparr>s_parse_state := PARSE_STATE_GOT_STX, s_flags := s_flags st OR 1\<rparr>, r)
      else (rx, st, r))"

definition frame_crc2 :: "u8 \<Rightarrow> mavlink_message_t \<Rightarrow> mavlink_status_t \<Rightarrow> mavlink_message_t \<Rightarrow>
    mavlink_message_t \<times> mavlink_status_t \<times> mavlink_message_t" where
  "frame_crc2 c rx st r =
     (let received = (if s_parse_state st = PARSE_STATE_GOT_BAD_CRC1 \<or> ucast c \<noteq> drop_bit 8 (m_checksum rx)
                      then FRAMING_BAD_CRC else FRAMING_OK);
          rx' = rx\<lparr>m_ck := (m_ck rx)[1 := c]\<rparr>
      in if m_incompat_flags rx AND 1 \<noteq> 0 then
           (rx', st\<lparr>s_parse_state := PARSE_STATE_SIGNATURE_WAIT,
                    s_signature_wait := word_of_nat MAVLINK_SIGNATURE_BLOCK_LEN,
                    s_msg_received := (if received \<noteq> FRAMING_BAD_CRC then FRAMING_INCOMPLETE else received)\<rparr>, r)
         else (rx', st\<lparr>s_msg_received := received, s_parse_state := PARSE_STATE_IDLE\<rparr>, rx'))"

text \<open>The switch of \<^verbatim>\<open>mavlink_frame_char_buffer\<close>, one equation per state, on \<open>(rxmsg, status, r_message)\<close>.\<close>

fun frame_switch :: "mavlink_parse_state_t \<Rightarrow> u8 \<Rightarrow> mavlink_message_t \<Rightarrow> mavlink_status_t \<Rightarrow>
    mavlink_message_t \<Rightarrow> mavlink_message_t \<times> mavlink_status_t \<times> mavlink_message_t" where
  "frame_switch PARSE_STATE_UNINIT c rx st r = frame_idle c rx st r"
| "frame_switch PARSE_STATE_IDLE c rx st r = frame_idle c rx st r"
| "frame_switch PARSE_STATE_GOT_STX c rx st r =
     (if s_msg_received st \<noteq> FRAMING_INCOMPLETE then
        (rx, (mav_parse_error (st\<lparr>s_buffer_overrun := s_buffer_overrun st + 1\<rparr>))
               \<lparr>s_msg_received := FRAMING_INCOMPLETE, s_parse_state := PARSE_STATE_IDLE\<rparr>, r)
      else
        let rx' = mavlink_update_checksum (rx\<lparr>m_len := c\<rparr>) c; st' = st\<lparr>s_packet_idx := 0\<rparr> in
        if in_mavlink1 st then
          (rx'\<lparr>m_incompat_flags := 0, m_compat_flags := 0\<rparr>,
           st'\<lparr>s_parse_state := PARSE_STATE_GOT_COMPAT_FLAGS\<rparr>, r)
        else (rx', st'\<lparr>s_parse_state := PARSE_STATE_GOT_LENGTH\<rparr>, r))"
| "frame_switch PARSE_STATE_GOT_LENGTH c rx st r =
     (let rx' = rx\<lparr>m_incompat_flags := c\<rparr> in
      if c AND NOT 1 \<noteq> 0 then
        (rx', (mav_parse_error st)\<lparr>s_msg_received := FRAMING_INCOMPLETE,
                                   s_parse_state := PARSE_STATE_IDLE\<rparr>, r)
      else (mavlink_update_checksum rx' c, st\<lparr>s_parse_state := PARSE_STATE_GOT_INCOMPAT_FLAGS\<rparr>, r))"
| "frame_switch PARSE_STATE_GOT_INCOMPAT_FLAGS c rx st r =
     (mavlink_update_checksum (rx\<lparr>m_compat_flags := c\<rparr>) c,
      st\<lparr>s_parse_state := PARSE_STATE_GOT_COMPAT_FLAGS\<rparr>, r)"
| "frame_switch PARSE_STATE_GOT_COMPAT_FLAGS c rx st r =
     (mavlink_update_checksum (rx\<lparr>m_seq := c\<rparr>) c, st\<lparr>s_parse_state := PARSE_STATE_GOT_SEQ\<rparr>, r)"
| "frame_switch PARSE_STATE_GOT_SEQ c rx st r =
     (mavlink_update_checksum (rx\<lparr>m_sysid := c\<rparr>) c, st\<lparr>s_parse_state := PARSE_STATE_GOT_SYSID\<rparr>, r)"
| "frame_switch PARSE_STATE_GOT_SYSID c rx st r =
     (mavlink_update_checksum (rx\<lparr>m_compid := c\<rparr>) c, st\<lparr>s_parse_state := PARSE_STATE_GOT_COMPID\<rparr>, r)"
| "frame_switch PARSE_STATE_GOT_COMPID c rx st r =
     (let rx' = mavlink_update_checksum (rx\<lparr>m_msgid := ucast c\<rparr>) c in
      (rx', st\<lparr>s_parse_state := (if in_mavlink1 st
                 then (if 0 < m_len rx then PARSE_STATE_GOT_MSGID3 else PARSE_STATE_GOT_PAYLOAD)
                 else PARSE_STATE_GOT_MSGID1)\<rparr>, r))"
| "frame_switch PARSE_STATE_GOT_MSGID1 c rx st r =
     (mavlink_update_checksum (rx\<lparr>m_msgid := m_msgid rx OR push_bit 8 (ucast c)\<rparr>) c,
      st\<lparr>s_parse_state := PARSE_STATE_GOT_MSGID2\<rparr>, r)"
| "frame_switch PARSE_STATE_GOT_MSGID2 c rx st r =
     (mavlink_update_checksum (rx\<lparr>m_msgid := m_msgid rx OR push_bit 16 (ucast c)\<rparr>) c,
      st\<lparr>s_parse_state := (if 0 < m_len rx then PARSE_STATE_GOT_MSGID3 else PARSE_STATE_GOT_PAYLOAD)\<rparr>, r)"
| "frame_switch PARSE_STATE_GOT_MSGID3 c rx st r =
     (let idx = s_packet_idx st + 1 in
      (mavlink_update_checksum (rx\<lparr>m_payload := (m_payload rx)[unat (s_packet_idx st) := c]\<rparr>) c,
       st\<lparr>s_packet_idx := idx,
          s_parse_state := (if idx = m_len rx then PARSE_STATE_GOT_PAYLOAD else PARSE_STATE_GOT_MSGID3)\<rparr>, r))"
| "frame_switch PARSE_STATE_GOT_PAYLOAD c rx st r =
     (let e = mavlink_get_msg_entry (ucast (m_msgid rx));
          crc_extra = (case e of Some e \<Rightarrow> e_crc_extra e | None \<Rightarrow> 0);
          rx1 = mavlink_update_checksum rx crc_extra;
          st1 = st\<lparr>s_parse_state := (if ucast c \<noteq> m_checksum rx1 AND 0xFF
                     then PARSE_STATE_GOT_BAD_CRC1 else PARSE_STATE_GOT_CRC1)\<rparr>;
          rx2 = rx1\<lparr>m_ck := (m_ck rx1)[0 := c]\<rparr>;
          rx3 = (case e of
                   Some e \<Rightarrow> (if s_packet_idx st < e_max_msg_len e
                     then rx2\<lparr>m_payload := memset (m_payload rx2) (unat (s_packet_idx st)) 0
                                (unat (e_max_msg_len e) - unat (s_packet_idx st))\<rparr>
                     else rx2)
                 | None \<Rightarrow> rx2)
      in (rx3, st1, r))"
| "frame_switch PARSE_STATE_GOT_CRC1 c rx st r = frame_crc2 c rx st r"
| "frame_switch PARSE_STATE_GOT_BAD_CRC1 c rx st r = frame_crc2 c rx st r"
| "frame_switch PARSE_STATE_SIGNATURE_WAIT c rx st r =
     (let rx' = rx\<lparr>m_signature := (m_signature rx)
            [MAVLINK_SIGNATURE_BLOCK_LEN - unat (s_signature_wait st) := c]\<rparr>;
          st' = st\<lparr>s_signature_wait := s_signature_wait st - 1\<rparr>
      in if s_signature_wait st' = 0 then
           (rx', st'\<lparr>s_msg_received := (if null_signature_check rx' then FRAMING_OK
                                        else FRAMING_BAD_SIGNATURE),
                     s_parse_state := PARSE_STATE_IDLE\<rparr>, rx')
         else (rx', st', r))"

text \<open>What follows the switch: statistics, \<^verbatim>\<open>r_message->len\<close>, the status copied out, the wire checksum.\<close>

definition frame_count :: "mavlink_message_t \<Rightarrow> mavlink_status_t \<Rightarrow> mavlink_status_t" where
  "frame_count rx st =
     (if s_msg_received st = FRAMING_OK then
        st\<lparr>s_current_rx_seq := m_seq rx,
           s_packet_rx_drop_count := (if s_packet_rx_success_count st = 0 then 0
                                      else s_packet_rx_drop_count st),
           s_packet_rx_success_count := s_packet_rx_success_count st + 1\<rparr>
      else st)"

definition frame_status_out :: "mavlink_status_t \<Rightarrow> mavlink_status_t \<Rightarrow> mavlink_status_t" where
  "frame_status_out st rs =
     rs\<lparr>s_parse_state := s_parse_state st, s_packet_idx := s_packet_idx st,
        s_current_rx_seq := s_current_rx_seq st + 1,
        s_packet_rx_success_count := s_packet_rx_success_count st,
        s_packet_rx_drop_count := ucast (s_parse_error st), s_flags := s_flags st\<rparr>"

definition wire_checksum :: "bytes \<Rightarrow> u16" where
  "wire_checksum ck = ucast (ck ! 0) OR push_bit 8 (ucast (ck ! 1))"

definition mavlink_frame_char_buffer :: "mavlink_message_t \<Rightarrow> mavlink_status_t \<Rightarrow> u8 \<Rightarrow>
    mavlink_message_t \<Rightarrow> mavlink_status_t \<Rightarrow>
    mavlink_framing_t \<times> mavlink_message_t \<times> mavlink_status_t \<times> mavlink_message_t \<times> mavlink_status_t" where
  "mavlink_frame_char_buffer rx st c r rs =
     (let st0 = st\<lparr>s_msg_received := FRAMING_INCOMPLETE\<rparr>;
          (rx1, st1, r1) = frame_switch (s_parse_state st0) c rx st0 r;
          st2 = frame_count rx1 st1;
          r2 = r1\<lparr>m_len := m_len rx1\<rparr>;
          rs' = frame_status_out st2 rs;
          st3 = st2\<lparr>s_parse_error := 0\<rparr>;
          r3 = (if s_msg_received st3 = FRAMING_BAD_CRC then r2\<lparr>m_checksum := wire_checksum (m_ck rx1)\<rparr> else r2)
      in (s_msg_received st3, rx1, st3, r3, rs'))"

end
