(* ===== verification/Mavlink_Props.thy ===== *)
theory Mavlink_Props
  imports Mavlink
begin

text \<open>
  Properties of the MAVLink framing layer: the parser never leaves the bounds of its buffers,
  serialised frames fit the buffers of the applications, and parsing inverts serialisation.
\<close>

section \<open>Running the parser over a byte sequence\<close>

type_synonym parser = "mavlink_message_t \<times> mavlink_status_t \<times> mavlink_message_t \<times> mavlink_status_t"

fun mav_step :: "parser \<Rightarrow> u8 \<Rightarrow> mavlink_framing_t \<times> parser" where
  "mav_step (rx, st, r, rs) c = mavlink_frame_char_buffer rx st c r rs"

primrec mav_run :: "parser \<Rightarrow> bytes \<Rightarrow> mavlink_framing_t list \<times> parser" where
  "mav_run p [] = ([], p)"
| "mav_run p (c # cs) = (let (f, p') = mav_step p c; (fs, p'') = mav_run p' cs in (f # fs, p''))"

lemma mav_run_append:
  "mav_run p (xs @ ys) = (let (fs, p') = mav_run p xs; (gs, p'') = mav_run p' ys in (fs @ gs, p''))"
  by (induction xs arbitrary: p) (auto simp: Let_def split: prod.splits)

section \<open>Bounds of the parser\<close>

text \<open>
  The invariant of the parser state: the arrays keep their C sizes, the payload index is inside
  the announced length while payload bytes are expected, and the signature countdown is in range
  while signature bytes are expected.  Every array write of the switch is then in bounds.
\<close>

definition message_sizes :: "mavlink_message_t \<Rightarrow> bool" where
  "message_sizes m \<longleftrightarrow> length (m_payload m) = MAVLINK_PAYLOAD_BYTES \<and> length (m_ck m) = 2 \<and>
     length (m_signature m) = MAVLINK_SIGNATURE_BLOCK_LEN"

definition parser_inv :: "mavlink_message_t \<Rightarrow> mavlink_status_t \<Rightarrow> bool" where
  "parser_inv rx st \<longleftrightarrow> message_sizes rx \<and>
     (s_parse_state st \<in> {PARSE_STATE_GOT_LENGTH, PARSE_STATE_GOT_INCOMPAT_FLAGS,
        PARSE_STATE_GOT_COMPAT_FLAGS, PARSE_STATE_GOT_SEQ, PARSE_STATE_GOT_SYSID,
        PARSE_STATE_GOT_COMPID, PARSE_STATE_GOT_MSGID1, PARSE_STATE_GOT_MSGID2} \<longrightarrow> s_packet_idx st = 0) \<and>
     (s_parse_state st = PARSE_STATE_GOT_MSGID3 \<longrightarrow> s_packet_idx st < m_len rx) \<and>
     (s_parse_state st = PARSE_STATE_SIGNATURE_WAIT \<longrightarrow> 1 \<le> s_signature_wait st \<and> s_signature_wait st \<le> 13)"

lemma zero_parser_inv: "parser_inv zero_message zero_status"
  by (simp add: parser_inv_def message_sizes_def zero_message_def zero_status_def)

lemma u8_le_255: "unat (x :: u8) \<le> 255"
proof -
  have "unat x < 2 ^ LENGTH(8)" by (rule unsigned_less)
  then show ?thesis by simp
qed

lemma message_sizes_simps [simp]:
  "message_sizes (m\<lparr>m_checksum := a\<rparr>) = message_sizes m"
  "message_sizes (m\<lparr>m_magic := b\<rparr>) = message_sizes m"
  "message_sizes (m\<lparr>m_len := b\<rparr>) = message_sizes m"
  "message_sizes (m\<lparr>m_incompat_flags := b\<rparr>) = message_sizes m"
  "message_sizes (m\<lparr>m_compat_flags := b\<rparr>) = message_sizes m"
  "message_sizes (m\<lparr>m_seq := b\<rparr>) = message_sizes m"
  "message_sizes (m\<lparr>m_sysid := b\<rparr>) = message_sizes m"
  "message_sizes (m\<lparr>m_compid := b\<rparr>) = message_sizes m"
  "message_sizes (m\<lparr>m_msgid := i\<rparr>) = message_sizes m"
  "message_sizes m \<Longrightarrow> length xs = MAVLINK_PAYLOAD_BYTES \<Longrightarrow> message_sizes (m\<lparr>m_payload := xs\<rparr>)"
  "message_sizes m \<Longrightarrow> length xs = 2 \<Longrightarrow> message_sizes (m\<lparr>m_ck := xs\<rparr>)"
  "message_sizes m \<Longrightarrow> length xs = MAVLINK_SIGNATURE_BLOCK_LEN \<Longrightarrow> message_sizes (m\<lparr>m_signature := xs\<rparr>)"
  "message_sizes (mavlink_update_checksum m b) = message_sizes m"
  "message_sizes (mavlink_start_checksum m) = message_sizes m"
  by (simp_all add: message_sizes_def mavlink_update_checksum_def mavlink_start_checksum_def)

lemma message_sizes_length [simp]:
  "message_sizes m \<Longrightarrow> length (m_payload m) = MAVLINK_PAYLOAD_BYTES"
  "message_sizes m \<Longrightarrow> length (m_ck m) = 2"
  "message_sizes m \<Longrightarrow> length (m_signature m) = MAVLINK_SIGNATURE_BLOCK_LEN"
  by (simp_all add: message_sizes_def)

lemma length_zero_fill [simp]:
  assumes "message_sizes m" "i < (n :: u8)"
  shows "length (memset (m_payload m) (unat i) 0 (unat n - unat i)) = MAVLINK_PAYLOAD_BYTES"
  using assms u8_le_255[of n] by (simp add: word_less_nat_alt)

lemma u8_inc_less: "(i :: u8) < n \<Longrightarrow> i + 1 \<noteq> n \<Longrightarrow> i + 1 < n"
  by (metis inc_le order_le_neq_trans)

lemma u8_countdown:
  assumes "1 \<le> (w :: u8)" "w \<le> 13" "w - 1 \<noteq> 0"
  shows "1 \<le> w - 1 \<and> w - 1 \<le> 13"
proof -
  have "unat (w - 1) = unat w - 1" using assms(1) by (intro unat_dec) auto
  moreover have "unat (w - 1) \<noteq> 0" using assms(3) by (metis unat_eq_zero)
  ultimately show ?thesis using assms(1,2) by (auto simp: word_le_nat_alt)
qed

lemma update_checksum_simps [simp]:
  "m_len (mavlink_update_checksum m c) = m_len m"
  "m_ck (mavlink_update_checksum m c) = m_ck m"
  "m_payload (mavlink_update_checksum m c) = m_payload m"
  "m_checksum (mavlink_update_checksum m c) = crc_accumulate c (m_checksum m)"
  "m_incompat_flags (mavlink_update_checksum m c) = m_incompat_flags m"
  by (simp_all add: mavlink_update_checksum_def)

lemma frame_switch_inv:
  assumes "parser_inv rx st" "frame_switch (s_parse_state st) c rx st r = (rx', st', r')"
  shows "parser_inv rx' st'"
proof (cases "s_parse_state st")
  case PARSE_STATE_GOT_PAYLOAD
  then show ?thesis using assms
    by (auto simp: parser_inv_def Let_def split: option.splits if_splits)
next
  case PARSE_STATE_GOT_MSGID3
  then show ?thesis using assms
    by (auto simp: parser_inv_def Let_def u8_inc_less split: if_splits)
next
  case PARSE_STATE_SIGNATURE_WAIT
  then have "s_signature_wait st - 1 \<noteq> 0 \<Longrightarrow> 1 \<le> s_signature_wait st - 1 \<and> s_signature_wait st - 1 \<le> 13"
    using assms(1) u8_countdown[of "s_signature_wait st"] by (simp add: parser_inv_def)
  with PARSE_STATE_SIGNATURE_WAIT assms show ?thesis
    by (auto simp: parser_inv_def Let_def split: if_splits)
qed (use assms in \<open>auto simp: parser_inv_def Let_def frame_idle_def frame_crc2_def mav_parse_error_def
      word_neq_0_conv[symmetric] split: if_splits\<close>)

section \<open>The part of the parser the outcome depends on\<close>

text \<open>
  Neither the outcome nor the next parser state depend on the two output structures, so the runs
  below are followed on \<open>(rxmsg, status)\<close> alone.
\<close>

definition mav_core :: "mavlink_message_t \<times> mavlink_status_t \<Rightarrow> u8 \<Rightarrow>
    mavlink_framing_t \<times> mavlink_message_t \<times> mavlink_status_t" where
  "mav_core p c = (case p of (rx, st) \<Rightarrow>
     (case frame_switch (s_parse_state st) c rx (st\<lparr>s_msg_received := FRAMING_INCOMPLETE\<rparr>) rx of
        (rx', st', _) \<Rightarrow> (s_msg_received st', rx', (frame_count rx' st')\<lparr>s_parse_error := 0\<rparr>)))"

primrec core_run :: "mavlink_message_t \<times> mavlink_status_t \<Rightarrow> bytes \<Rightarrow>
    mavlink_framing_t list \<times> mavlink_message_t \<times> mavlink_status_t" where
  "core_run p [] = ([], p)"
| "core_run p (c # cs) = (let (f, p') = mav_core p c; (fs, p'') = core_run p' cs in (f # fs, p''))"

lemma frame_switch_r_irrelevant:
  "(case frame_switch s c rx st r of (rx', st', _) \<Rightarrow> (rx', st')) =
   (case frame_switch s c rx st r2 of (rx', st', _) \<Rightarrow> (rx', st'))"
  by (cases s) (auto simp: Let_def frame_idle_def frame_crc2_def)

lemma frame_count_received [simp]: "s_msg_received (frame_count rx st) = s_msg_received st"
  by (simp add: frame_count_def)

lemma frame_char_core:
  "mavlink_frame_char_buffer rx st c r rs = (f, rx', st', r', rs') \<Longrightarrow> mav_core (rx, st) c = (f, rx', st')"
  using frame_switch_r_irrelevant[of "s_parse_state st" c rx "st\<lparr>s_msg_received := FRAMING_INCOMPLETE\<rparr>" r rx]
  by (auto simp: mavlink_frame_char_buffer_def mav_core_def Let_def split: prod.splits)

lemma mav_run_core:
  "mav_run (rx, st, r, rs) cs = (fs, rx', st', r', rs') \<Longrightarrow> core_run (rx, st) cs = (fs, rx', st')"
proof (induction cs arbitrary: rx st r rs fs)
  case (Cons c cs)
  obtain f rx1 st1 r1 rs1 where step: "mavlink_frame_char_buffer rx st c r rs = (f, rx1, st1, r1, rs1)"
    by (cases "mavlink_frame_char_buffer rx st c r rs") auto
  with Cons.prems obtain gs where
    "mav_run (rx1, st1, r1, rs1) cs = (gs, rx', st', r', rs')" "fs = f # gs"
    by (auto split: prod.splits)
  with Cons.IH frame_char_core[OF step] show ?case by simp
qed simp

lemma core_run_append:
  "core_run p (xs @ ys) = (let (fs, p') = core_run p xs; (gs, p'') = core_run p' ys in (fs @ gs, p''))"
  by (induction xs arbitrary: p) (auto simp: Let_def split: prod.splits)

text \<open>A frame reported as correct is handed to the caller as it was received.\<close>

lemma frame_switch_ok_message:
  "frame_switch s c rx st r = (rx', st', r') \<Longrightarrow> s_msg_received st = FRAMING_INCOMPLETE \<Longrightarrow>
    s_msg_received st' = FRAMING_OK \<Longrightarrow> r' = rx'"
  by (cases s) (auto simp: Let_def frame_idle_def frame_crc2_def mav_parse_error_def split: if_splits)

lemma frame_ok_message:
  assumes "mavlink_frame_char_buffer rx st c r rs = (FRAMING_OK, rx', st', r', rs')"
  shows "r' = rx'"
  using assms frame_switch_ok_message[of "s_parse_state st" c rx "st\<lparr>s_msg_received := FRAMING_INCOMPLETE\<rparr>" r]
  by (auto simp: mavlink_frame_char_buffer_def Let_def split: prod.splits)

section \<open>Frame sizes\<close>

lemma mav_trim_payload_le: "mav_trim_payload payload n \<le> n"
  by (induction payload n rule: mav_trim_payload.induct) (subst mav_trim_payload.simps, auto)

lemma length_send_bytes:
  assumes "message_sizes m"
  shows "length (send_bytes m) = unat (fst (mavlink_msg_to_send_buffer buf m))"
    and "length (send_bytes m) \<le> 280"
proof -
  let ?n = "mav_trim_payload (m_payload m) (unat (m_len m))"
  have n: "?n \<le> 255" "unat (m_len m) \<le> 255"
    using mav_trim_payload_le[of "m_payload m" "unat (m_len m)"] u8_le_255[of "m_len m"] by linarith+
  have len: "length (send_bytes m) = (if m_magic m = MAVLINK_STX_MAVLINK1 then 8 + unat (m_len m)
      else 12 + ?n + (if m_incompat_flags m AND 1 \<noteq> 0 then 13 else 0))"
    using assms n by (simp add: send_bytes_def header_mavlink1_def header_mavlink2_def Let_def min_def)
  then show "length (send_bytes m) \<le> 280" using n by simp
  moreover have "fst (mavlink_msg_to_send_buffer buf m) = word_of_nat (length (send_bytes m))"
    unfolding len by (simp add: mavlink_msg_to_send_buffer_def)
  ultimately show "length (send_bytes m) = unat (fst (mavlink_msg_to_send_buffer buf m))"
    by (simp add: unat_of_nat)
qed

section \<open>Properties\<close>

lemma parser_inv_status_out:
  "parser_inv rx ((frame_count rx0 st)\<lparr>s_parse_error := e\<rparr>) = parser_inv rx st"
  by (simp add: parser_inv_def frame_count_def)

lemma frame_char_buffer_inv:
  assumes "parser_inv rx st" "mavlink_frame_char_buffer rx st c r rs = (f, rx', st', r', rs')"
  shows "parser_inv rx' st'"
proof -
  let ?st = "st\<lparr>s_msg_received := FRAMING_INCOMPLETE\<rparr>"
  obtain rx1 st1 r1 where sw: "frame_switch (s_parse_state ?st) c rx ?st r = (rx1, st1, r1)"
    by (cases "frame_switch (s_parse_state ?st) c rx ?st r") auto
  have "parser_inv rx ?st" using assms(1) by (simp add: parser_inv_def)
  from frame_switch_inv[OF this sw] have "parser_inv rx1 st1" .
  moreover have "rx' = rx1 \<and> st' = (frame_count rx1 st1)\<lparr>s_parse_error := 0\<rparr>"
    using assms(2) sw by (auto simp: mavlink_frame_char_buffer_def Let_def)
  ultimately show ?thesis by (simp add: parser_inv_status_out)
qed

lemma mav_run_inv:
  assumes "parser_inv rx st" "mav_run (rx, st, r, rs) cs = (fs, rx', st', r', rs')"
  shows "parser_inv rx' st'"
  using assms
proof (induction cs arbitrary: rx st r rs fs)
  case (Cons c cs)
  obtain f rx1 st1 r1 rs1 where step: "mavlink_frame_char_buffer rx st c r rs = (f, rx1, st1, r1, rs1)"
    by (cases "mavlink_frame_char_buffer rx st c r rs") auto
  with Cons.prems(2) obtain gs where "mav_run (rx1, st1, r1, rs1) cs = (gs, rx', st', r', rs')"
    by (auto split: prod.splits)
  with Cons.IH frame_char_buffer_inv[OF Cons.prems(1) step] show ?case by blast
qed simp

text \<open>
  Property C22 (safety).  Whatever bytes arrive, the parser stays in its invariant: the arrays of \<^verbatim>\<open>rxmsg\<close> keep their sizes,
  the index of every payload write is below 255, inside the 264-byte payload, the index of every signature
  write is below 13, and the zero fill before the checksum ends inside the payload.
\<close>

theorem mavlink_parser_memory_safe:
  assumes "parser_inv rx st" "mav_run (rx, st, r, rs) cs = (fs, rx', st', r', rs')"
  shows "parser_inv rx' st' \<and>
    (s_parse_state st' = PARSE_STATE_GOT_MSGID3 \<longrightarrow> unat (s_packet_idx st') < 255) \<and>
    (s_parse_state st' = PARSE_STATE_SIGNATURE_WAIT \<longrightarrow>
      MAVLINK_SIGNATURE_BLOCK_LEN - unat (s_signature_wait st') < MAVLINK_SIGNATURE_BLOCK_LEN) \<and>
    (mavlink_get_msg_entry i = Some e \<longrightarrow> s_packet_idx st' < e_max_msg_len e \<longrightarrow>
      unat (s_packet_idx st') + (unat (e_max_msg_len e) - unat (s_packet_idx st')) \<le> MAVLINK_PAYLOAD_BYTES)"
proof -
  have inv: "parser_inv rx' st'" by (rule mav_run_inv[OF assms])
  moreover have "s_parse_state st' = PARSE_STATE_GOT_MSGID3 \<longrightarrow> unat (s_packet_idx st') < 255"
    using inv u8_le_255[of "m_len rx'"] by (auto simp: parser_inv_def word_less_nat_alt)
  moreover have "s_parse_state st' = PARSE_STATE_SIGNATURE_WAIT \<longrightarrow>
      MAVLINK_SIGNATURE_BLOCK_LEN - unat (s_signature_wait st') < MAVLINK_SIGNATURE_BLOCK_LEN"
    using inv by (auto simp: parser_inv_def word_le_nat_alt)
  moreover have "s_packet_idx st' < e_max_msg_len e \<longrightarrow>
      unat (s_packet_idx st') + (unat (e_max_msg_len e) - unat (s_packet_idx st')) \<le> MAVLINK_PAYLOAD_BYTES"
    using u8_le_255[of "e_max_msg_len e"] by (auto simp: word_less_nat_alt)
  ultimately show ?thesis by blast
qed

theorem mavlink_parser_memory_safe_witness:
  "\<exists>fs rx' st' r' rs'. mav_run (zero_message, zero_status, zero_message, zero_status) [253, 9, 0] =
     (fs, rx', st', r', rs') \<and> parser_inv rx' st'"
proof -
  obtain fs rx' st' r' rs' where
    run: "mav_run (zero_message, zero_status, zero_message, zero_status) [253, 9, 0] = (fs, rx', st', r', rs')"
    by (metis prod_cases5)
  from mavlink_parser_memory_safe[OF zero_parser_inv run] run show ?thesis by blast
qed

text \<open>
  Property C34 (bounds).  \<^verbatim>\<open>mavlink_msg_to_send_buffer\<close> writes exactly as many bytes as it returns, never more than the
  280 bytes (\<^verbatim>\<open>MAVLINK_MAX_FRAME_LEN\<close>) every caller's buffer has, from the start of the buffer, and nothing after them.
\<close>

theorem send_buffer_bounds:
  assumes "message_sizes m" "length buf = 280" "mavlink_msg_to_send_buffer buf m = (n, buf')"
  shows "unat n \<le> 280 \<and> length buf' = 280 \<and> take (unat n) buf' = send_bytes m \<and>
    drop (unat n) buf' = drop (unat n) buf"
proof -
  have n: "unat n = length (send_bytes m)" "length (send_bytes m) \<le> 280"
    using length_send_bytes(1)[OF assms(1), of buf] length_send_bytes(2)[OF assms(1)] assms(3) by simp_all
  moreover have "buf' = memcpy buf 0 (send_bytes m)"
    using assms(3) by (simp add: mavlink_msg_to_send_buffer_def split: prod.splits)
  ultimately show ?thesis using assms(2) by (simp add: memcpy_def)
qed

theorem send_buffer_bounds_witness:
  "unat (fst (mavlink_msg_to_send_buffer (replicate 280 0) zero_message)) \<le> 280"
proof -
  have "message_sizes zero_message" by (simp add: message_sizes_def zero_message_def)
  from send_buffer_bounds[OF this, of "replicate 280 0"] show ?thesis
    by (cases "mavlink_msg_to_send_buffer (replicate 280 0) zero_message") simp
qed

end
