(* ===== verification/Mavlink_Roundtrip.thy ===== *)
theory Mavlink_Roundtrip
  imports Mavlink_Props
begin

text \<open>
  Parsing inverts serialisation: the parser, fed the bytes of a well-formed MAVLink 2 frame from
  an idle state, reports exactly one message, on the last byte, and that message is the one that
  was serialised.  The proof follows the parser through the stages of a frame: ten header bytes,
  the payload, two checksum bytes and, for a signed frame, thirteen signature bytes.
\<close>

section \<open>Well-formed frames\<close>

text \<open>
  The checksum a receiver recomputes: over all bytes but the start byte, then the extra byte that
  \<^verbatim>\<open>mavlink_get_msg_entry\<close> gives for the message id (0 for an unknown id).
\<close>

definition mav_extra :: "mavlink_message_t \<Rightarrow> u8" where
  "mav_extra m = (case mavlink_get_msg_entry (ucast (m_msgid m)) of Some e \<Rightarrow> e_crc_extra e | None \<Rightarrow> 0)"

definition mav_body :: "mavlink_message_t \<Rightarrow> bytes" where
  "mav_body m = tl (header_mavlink2 m (unat (m_len m))) @ take (unat (m_len m)) (m_payload m)"

definition mav_checksum :: "mavlink_message_t \<Rightarrow> u16" where
  "mav_checksum m = crc_calculate (mav_body m @ [mav_extra m])"

definition same_header :: "mavlink_message_t \<Rightarrow> mavlink_message_t \<Rightarrow> bool" where
  "same_header a b \<longleftrightarrow> m_magic a = m_magic b \<and> m_len a = m_len b \<and>
     m_incompat_flags a = m_incompat_flags b \<and> m_compat_flags a = m_compat_flags b \<and>
     m_seq a = m_seq b \<and> m_sysid a = m_sysid b \<and> m_compid a = m_compid b \<and> m_msgid a = m_msgid b"

section \<open>The header\<close>

lemma msgid_reassembled:
  "(ucast (ucast (i AND 0xFF) :: u8) OR push_bit 8 (ucast (ucast (drop_bit 8 i AND 0xFF) :: u8)))
     OR push_bit 16 (ucast (ucast (drop_bit 16 i AND 0xFF) :: u8)) = (i :: 24 word)"
proof -
  have m: "(0xFF :: 24 word) = mask 8" by (simp add: mask_numeral)
  show ?thesis unfolding m
  proof (rule bit_word_eqI)
    fix n assume "n < LENGTH(24)"
    then consider "n < 8" | "8 \<le> n" "n < 16" | "16 \<le> n" "n < 24" by fastforce
    then show "bit ((ucast (ucast (i AND mask 8) :: u8) OR push_bit 8 (ucast (ucast (drop_bit 8 i AND mask 8) :: u8)))
     OR push_bit 16 (ucast (ucast (drop_bit 16 i AND mask 8) :: u8)) :: 24 word) n = bit i n"
      by cases (auto simp: bit_simps)
  qed
qed

text \<open>One step of the parser in each header state, for a MAVLink 2 frame.\<close>

lemma not_in_mavlink1 [simp]:
  "in_mavlink1 (st\<lparr>s_flags := f\<rparr>) \<longleftrightarrow> f AND 1 \<noteq> 0"
  "in_mavlink1 (st\<lparr>s_msg_received := g\<rparr>) \<longleftrightarrow> in_mavlink1 st"
  "in_mavlink1 (st\<lparr>s_parse_state := p\<rparr>) \<longleftrightarrow> in_mavlink1 st"
  "in_mavlink1 (st\<lparr>s_packet_idx := b\<rparr>) \<longleftrightarrow> in_mavlink1 st"
  "in_mavlink1 (st\<lparr>s_parse_error := b\<rparr>) \<longleftrightarrow> in_mavlink1 st"
  by (simp_all add: in_mavlink1_def)

definition mav_at :: "mavlink_status_t \<Rightarrow> mavlink_parse_state_t \<Rightarrow> bool" where
  "mav_at st p \<longleftrightarrow> s_parse_state st = p \<and> s_packet_idx st = 0 \<and> \<not> in_mavlink1 st"

lemma core_stx:
  assumes "s_parse_state st = PARSE_STATE_IDLE \<or> s_parse_state st = PARSE_STATE_UNINIT"
  shows "\<exists>st'. mav_core (rx, st) MAVLINK_STX =
      (FRAMING_INCOMPLETE, rx\<lparr>m_len := 0, m_magic := MAVLINK_STX, m_checksum := crc_init\<rparr>, st') \<and>
     s_parse_state st' = PARSE_STATE_GOT_STX \<and> \<not> in_mavlink1 st'"
proof -
  have "(s_flags st AND NOT 1) AND 1 = 0" by (rule bit_word_eqI) (auto simp: bit_simps)
  then show ?thesis using assms
    by (auto simp: mav_core_def frame_idle_def frame_count_def mavlink_start_checksum_def)
qed

lemma core_len:
  assumes "s_parse_state st = PARSE_STATE_GOT_STX" "\<not> in_mavlink1 st"
  shows "\<exists>st'. mav_core (rx, st) c = (FRAMING_INCOMPLETE, mavlink_update_checksum (rx\<lparr>m_len := c\<rparr>) c, st') \<and>
     mav_at st' PARSE_STATE_GOT_LENGTH"
  using assms by (auto simp: mav_core_def frame_count_def Let_def mav_at_def)

lemma core_incompat:
  assumes "mav_at st PARSE_STATE_GOT_LENGTH" "c AND NOT 1 = 0"
  shows "\<exists>st'. mav_core (rx, st) c =
      (FRAMING_INCOMPLETE, mavlink_update_checksum (rx\<lparr>m_incompat_flags := c\<rparr>) c, st') \<and>
     mav_at st' PARSE_STATE_GOT_INCOMPAT_FLAGS"
  using assms by (auto simp: mav_core_def frame_count_def Let_def mav_at_def)

lemma core_header:
  "mav_at st PARSE_STATE_GOT_INCOMPAT_FLAGS \<Longrightarrow> \<exists>st'. mav_core (rx, st) c =
      (FRAMING_INCOMPLETE, mavlink_update_checksum (rx\<lparr>m_compat_flags := c\<rparr>) c, st') \<and>
     mav_at st' PARSE_STATE_GOT_COMPAT_FLAGS"
  "mav_at st PARSE_STATE_GOT_COMPAT_FLAGS \<Longrightarrow> \<exists>st'. mav_core (rx, st) c =
      (FRAMING_INCOMPLETE, mavlink_update_checksum (rx\<lparr>m_seq := c\<rparr>) c, st') \<and>
     mav_at st' PARSE_STATE_GOT_SEQ"
  "mav_at st PARSE_STATE_GOT_SEQ \<Longrightarrow> \<exists>st'. mav_core (rx, st) c =
      (FRAMING_INCOMPLETE, mavlink_update_checksum (rx\<lparr>m_sysid := c\<rparr>) c, st') \<and>
     mav_at st' PARSE_STATE_GOT_SYSID"
  "mav_at st PARSE_STATE_GOT_SYSID \<Longrightarrow> \<exists>st'. mav_core (rx, st) c =
      (FRAMING_INCOMPLETE, mavlink_update_checksum (rx\<lparr>m_compid := c\<rparr>) c, st') \<and>
     mav_at st' PARSE_STATE_GOT_COMPID"
  "mav_at st PARSE_STATE_GOT_COMPID \<Longrightarrow> \<exists>st'. mav_core (rx, st) c =
      (FRAMING_INCOMPLETE, mavlink_update_checksum (rx\<lparr>m_msgid := ucast c\<rparr>) c, st') \<and>
     mav_at st' PARSE_STATE_GOT_MSGID1"
  "mav_at st PARSE_STATE_GOT_MSGID1 \<Longrightarrow> \<exists>st'. mav_core (rx, st) c =
      (FRAMING_INCOMPLETE, mavlink_update_checksum (rx\<lparr>m_msgid := m_msgid rx OR push_bit 8 (ucast c)\<rparr>) c, st') \<and>
     mav_at st' PARSE_STATE_GOT_MSGID2"
  "mav_at st PARSE_STATE_GOT_MSGID2 \<Longrightarrow> \<exists>st'. mav_core (rx, st) c =
      (FRAMING_INCOMPLETE, mavlink_update_checksum (rx\<lparr>m_msgid := m_msgid rx OR push_bit 16 (ucast c)\<rparr>) c, st') \<and>
     mav_at st' (if 0 < m_len rx then PARSE_STATE_GOT_MSGID3 else PARSE_STATE_GOT_PAYLOAD)"
  by (simp_all add: mav_core_def frame_count_def Let_def mav_at_def)

text \<open>A step, when its successor state is described by \<open>P\<close>, in front of a run.\<close>

lemma core_run_step:
  assumes "\<exists>st'. mav_core (rx, st) c = (f, rx1, st') \<and> P st'"
    and "\<And>st'. P st' \<Longrightarrow> \<exists>st''. core_run (rx1, st') cs = (fs, rx2, st'') \<and> Q st''"
  shows "\<exists>st''. core_run (rx, st) (c # cs) = (f # fs, rx2, st'') \<and> Q st''"
proof -
  from assms(1) obtain st' where "mav_core (rx, st) c = (f, rx1, st')" "P st'" by blast
  moreover from assms(2)[OF this(2)] obtain st'' where "core_run (rx1, st') cs = (fs, rx2, st'')" "Q st''"
    by blast
  ultimately show ?thesis by simp
qed

lemma replicate_10: "replicate 10 x = [x, x, x, x, x, x, x, x, x, x]"
  by (simp add: numeral_eq_Suc)

lemma core_run_header:
  assumes idle: "s_parse_state st = PARSE_STATE_IDLE \<or> s_parse_state st = PARSE_STATE_UNINIT"
    and inc: "inc AND NOT 1 = 0"
  shows "\<exists>st'. core_run (rx, st) [MAVLINK_STX, len, inc, com, seq, sysid, compid, i0, i1, i2] =
      (replicate 10 FRAMING_INCOMPLETE,
       rx\<lparr>m_checksum := crc_calculate [len, inc, com, seq, sysid, compid, i0, i1, i2],
          m_magic := MAVLINK_STX, m_len := len, m_incompat_flags := inc, m_compat_flags := com, m_seq := seq,
          m_sysid := sysid, m_compid := compid,
          m_msgid := (ucast i0 OR push_bit 8 (ucast i1)) OR push_bit 16 (ucast i2)\<rparr>, st') \<and>
     mav_at st' (if 0 < len then PARSE_STATE_GOT_MSGID3 else PARSE_STATE_GOT_PAYLOAD)"
  unfolding replicate_10
  apply (rule core_run_step[OF core_stx[OF idle]], elim conjE)
  apply (rule core_run_step[OF core_len], assumption, assumption)
  apply (rule core_run_step[OF core_incompat[OF _ inc]], assumption)
  apply (rule core_run_step[OF core_header(1)], assumption)
  apply (rule core_run_step[OF core_header(2)], assumption)
  apply (rule core_run_step[OF core_header(3)], assumption)
  apply (rule core_run_step[OF core_header(4)], assumption)
  apply (rule core_run_step[OF core_header(5)], assumption)
  apply (rule core_run_step[OF core_header(6)], assumption)
  apply (rule core_run_step[OF core_header(7)], assumption)
  apply (simp add: mavlink_update_checksum_def crc_calculate_def)
  done

lemma header_received:
  assumes "s_parse_state st = PARSE_STATE_IDLE \<or> s_parse_state st = PARSE_STATE_UNINIT"
    and "m_magic m = MAVLINK_STX" "m_incompat_flags m AND NOT 1 = 0"
  shows "\<exists>rx' st'. core_run (rx, st) (header_mavlink2 m (unat (m_len m))) =
       (replicate 10 FRAMING_INCOMPLETE, rx', st') \<and>
     same_header rx' m \<and> m_payload rx' = m_payload rx \<and> m_ck rx' = m_ck rx \<and>
     m_signature rx' = m_signature rx \<and>
     m_checksum rx' = crc_calculate (tl (header_mavlink2 m (unat (m_len m)))) \<and>
     mav_at st' (if 0 < m_len m then PARSE_STATE_GOT_MSGID3 else PARSE_STATE_GOT_PAYLOAD)"
  using core_run_header[OF assms(1,3), of rx "m_len m" "m_compat_flags m" "m_seq m" "m_sysid m"
      "m_compid m" "ucast (m_msgid m AND 0xFF)" "ucast (drop_bit 8 (m_msgid m) AND 0xFF)"
      "ucast (drop_bit 16 (m_msgid m) AND 0xFF)"]
  unfolding header_mavlink2_def assms(2) msgid_reassembled
  by (auto simp: same_header_def assms(2))

section \<open>Payload, checksum and signature\<close>

text \<open>The payload bytes: each goes to the next index and into the checksum.\<close>

lemma payload_received:
  assumes "s_parse_state st = PARSE_STATE_GOT_MSGID3" "cs \<noteq> []"
    and "unat (s_packet_idx st) + length cs = unat (m_len rx)" "length (m_payload rx) = 264"
  shows "\<exists>rx' st'. core_run (rx, st) cs = (replicate (length cs) FRAMING_INCOMPLETE, rx', st') \<and>
     same_header rx' rx \<and> m_ck rx' = m_ck rx \<and> m_signature rx' = m_signature rx \<and>
     m_payload rx' = memcpy (m_payload rx) (unat (s_packet_idx st)) cs \<and>
     m_checksum rx' = crc_accumulate_buffer (m_checksum rx) cs \<and>
     s_packet_idx st' = m_len rx \<and> s_parse_state st' = PARSE_STATE_GOT_PAYLOAD"
  using assms
proof (induction cs arbitrary: rx st)
  case (Cons c cs)
  let ?i = "s_packet_idx st"
  have i: "unat ?i < 255" using Cons.prems(3) u8_le_255[of "m_len rx"] by simp
  then have i1: "unat (?i + 1) = Suc (unat ?i)" by (simp add: unat_inc)
  define rx1 where "rx1 = mavlink_update_checksum (rx\<lparr>m_payload := (m_payload rx)[unat ?i := c]\<rparr>) c"
  define st1 where "st1 = st\<lparr>s_msg_received := FRAMING_INCOMPLETE, s_packet_idx := ?i + 1, s_parse_error := 0,
     s_parse_state := (if ?i + 1 = m_len rx then PARSE_STATE_GOT_PAYLOAD else PARSE_STATE_GOT_MSGID3)\<rparr>"
  have step: "mav_core (rx, st) c = (FRAMING_INCOMPLETE, rx1, st1)"
    using Cons.prems(1) by (simp add: mav_core_def rx1_def st1_def Let_def frame_count_def)
  have pay: "m_payload rx1 = memcpy (m_payload rx) (unat ?i) [c]"
    using Cons.prems(4) i by (simp add: rx1_def memcpy_def upd_conv_take_nth_drop)
  have hdr: "same_header rx1 rx" "m_ck rx1 = m_ck rx" "m_signature rx1 = m_signature rx"
    "m_checksum rx1 = crc_accumulate c (m_checksum rx)" "length (m_payload rx1) = 264" "m_len rx1 = m_len rx"
    using Cons.prems(4) by (simp_all add: rx1_def same_header_def mavlink_update_checksum_def)
  show ?case
  proof (cases "cs = []")
    case True
    then have "?i + 1 = m_len rx" using Cons.prems(3) i1 by (simp add: word_unat_eq_iff)
    then show ?thesis using True step hdr pay by (simp add: st1_def)
  next
    case False
    then have ne: "?i + 1 \<noteq> m_len rx" using Cons.prems(3) i1 by (cases cs) (auto simp: word_unat_eq_iff)
    have "unat (s_packet_idx st1) + length cs = unat (m_len rx1)"
      using Cons.prems(3) by (simp add: st1_def i1 hdr)
    from Cons.IH[OF _ False this hdr(5)] ne obtain rx' st' where
      "core_run (rx1, st1) cs = (replicate (length cs) FRAMING_INCOMPLETE, rx', st')"
      "same_header rx' rx1" "m_ck rx' = m_ck rx1" "m_signature rx' = m_signature rx1"
      "m_payload rx' = memcpy (m_payload rx1) (unat (s_packet_idx st1)) cs"
      "m_checksum rx' = crc_accumulate_buffer (m_checksum rx1) cs"
      "s_packet_idx st' = m_len rx1" "s_parse_state st' = PARSE_STATE_GOT_PAYLOAD"
      by (auto simp: st1_def)
    moreover have "memcpy (m_payload rx1) (unat (s_packet_idx st1)) cs = memcpy (m_payload rx) (unat ?i) (c # cs)"
      using i Cons.prems(4) memcpy_snoc[of "unat ?i" "m_payload rx" c cs] by (simp add: pay st1_def i1)
    ultimately show ?thesis using step hdr by (simp add: same_header_def)
  qed
qed simp

text \<open>The first checksum byte, with the extra byte of the message table mixed in.\<close>

lemma core_crc1:
  assumes "s_parse_state st = PARSE_STATE_GOT_PAYLOAD"
    and "s_packet_idx st = m_len rx" "length (m_payload rx) = 264"
    and "ucast c = crc_accumulate (mav_extra rx) (m_checksum rx) AND 0xFF"
  shows "\<exists>rx' st'. mav_core (rx, st) c = (FRAMING_INCOMPLETE, rx', st') \<and>
     same_header rx' rx \<and> take (unat (m_len rx)) (m_payload rx') = take (unat (m_len rx)) (m_payload rx) \<and>
     m_signature rx' = m_signature rx \<and> length (m_payload rx') = 264 \<and> m_ck rx' = (m_ck rx)[0 := c] \<and>
     m_checksum rx' = crc_accumulate (mav_extra rx) (m_checksum rx) \<and>
     s_parse_state st' = PARSE_STATE_GOT_CRC1"
proof -
  have fill: "take (unat (m_len rx)) (memset (m_payload rx) (unat (m_len rx)) 0 (unat n - unat (m_len rx)))
     = take (unat (m_len rx)) (m_payload rx) \<and>
     length (memset (m_payload rx) (unat (m_len rx)) 0 (unat n - unat (m_len rx))) = 264"
    if "m_len rx < n" for n
    using that assms(3) u8_le_255[of n]
    by (simp add: memset_def take_memcpy_before word_less_nat_alt)
  show ?thesis
    using assms fill
    by (auto simp: mav_core_def frame_count_def Let_def same_header_def mav_extra_def
        mavlink_update_checksum_def split: option.splits)
qed

lemma core_crc2:
  assumes "s_parse_state st = PARSE_STATE_GOT_CRC1" "ucast c = drop_bit 8 (m_checksum rx)"
  shows "\<exists>rx' st'. mav_core (rx, st) c =
      (if m_incompat_flags rx AND 1 \<noteq> 0 then FRAMING_INCOMPLETE else FRAMING_OK, rx', st') \<and>
     rx' = rx\<lparr>m_ck := (m_ck rx)[1 := c]\<rparr> \<and>
     (if m_incompat_flags rx AND 1 \<noteq> 0
      then s_parse_state st' = PARSE_STATE_SIGNATURE_WAIT \<and> s_signature_wait st' = 13
      else s_parse_state st' = PARSE_STATE_IDLE)"
  using assms by (simp add: mav_core_def frame_count_def Let_def frame_crc2_def)

text \<open>The signature block.\<close>

lemma signature_received:
  assumes "s_parse_state st = PARSE_STATE_SIGNATURE_WAIT" "unat (s_signature_wait st) = length cs"
    and "cs \<noteq> []" "length cs \<le> 13" "length (m_signature rx) = 13"
  shows "\<exists>rx' st'. core_run (rx, st) cs = (replicate (length cs - 1) FRAMING_INCOMPLETE @ [FRAMING_OK], rx', st') \<and>
     rx' = rx\<lparr>m_signature := memcpy (m_signature rx) (13 - length cs) cs\<rparr> \<and>
     s_parse_state st' = PARSE_STATE_IDLE"
  using assms
proof (induction cs arbitrary: rx st)
  case (Cons c cs)
  let ?w = "s_signature_wait st"
  have "?w \<noteq> 0" using Cons.prems(2) by auto
  then have w1: "unat (?w - 1) = length cs" using Cons.prems(2) by (simp add: unat_dec)
  define rx1 where "rx1 = rx\<lparr>m_signature := (m_signature rx)[13 - unat ?w := c]\<rparr>"
  have upd: "m_signature rx1 = memcpy (m_signature rx) (13 - Suc (length cs)) [c]"
    using Cons.prems(2,4,5) by (simp add: rx1_def memcpy_def upd_conv_take_nth_drop)
  show ?case
  proof (cases "cs = []")
    case True
    then have "?w - 1 = 0" using w1 by (simp add: unat_eq_zero)
    then show ?thesis using True Cons.prems upd
      by (simp add: mav_core_def Let_def null_signature_check_def rx1_def frame_count_def)
  next
    case False
    then have ne: "?w - 1 \<noteq> 0" using w1 by auto
    have step: "mav_core (rx, st) c = (FRAMING_INCOMPLETE, rx1,
        st\<lparr>s_msg_received := FRAMING_INCOMPLETE, s_signature_wait := ?w - 1, s_parse_error := 0\<rparr>)" (is "_ = (_, _, ?st1)")
      using ne Cons.prems(1) by (simp add: mav_core_def Let_def rx1_def frame_count_def)
    have "\<exists>rx' st'. core_run (rx1, ?st1) cs =
        (replicate (length cs - 1) FRAMING_INCOMPLETE @ [FRAMING_OK], rx', st') \<and>
       rx' = rx1\<lparr>m_signature := memcpy (m_signature rx1) (13 - length cs) cs\<rparr> \<and>
       s_parse_state st' = PARSE_STATE_IDLE"
      using Cons.prems False by (intro Cons.IH) (simp_all add: w1 rx1_def)
    moreover have "memcpy (m_signature rx1) (13 - length cs) cs = memcpy (m_signature rx) (13 - Suc (length cs)) (c # cs)"
    proof -
      have "13 - length cs = Suc (13 - Suc (length cs))" "13 - Suc (length cs) < 13"
        using Cons.prems(4) by auto
      then show ?thesis
        using Cons.prems(5) memcpy_snoc[of "13 - Suc (length cs)" "m_signature rx" c cs] unfolding upd by metis
    qed
    moreover have "length cs = Suc (length cs - 1)" using False by simp
    ultimately show ?thesis using step
      by (auto simp: rx1_def simp del: replicate.simps) (metis replicate_Suc append_Cons)
  qed
qed simp

section \<open>A whole frame\<close>

lemma core_run_appendI:
  "core_run p xs = (fs, p') \<Longrightarrow> core_run p' ys = (gs, p'') \<Longrightarrow> core_run p (xs @ ys) = (fs @ gs, p'')"
  by (simp add: core_run_append)

definition wf_frame :: "mavlink_message_t \<Rightarrow> bool" where
  "wf_frame m \<longleftrightarrow> message_sizes m \<and> m_magic m = MAVLINK_STX \<and> m_incompat_flags m AND NOT 1 = 0 \<and>
     mav_trim_payload (m_payload m) (unat (m_len m)) = unat (m_len m) \<and> m_checksum m = mav_checksum m"

lemma body_received_any:
  assumes "s_parse_state st = PARSE_STATE_IDLE \<or> s_parse_state st = PARSE_STATE_UNINIT"
    and "message_sizes rx" "message_sizes m" "m_magic m = MAVLINK_STX" "m_incompat_flags m AND NOT 1 = 0"
  shows "\<exists>rx' st'. core_run (rx, st) (header_mavlink2 m (unat (m_len m)) @ take (unat (m_len m)) (m_payload m)) =
       (replicate (10 + unat (m_len m)) FRAMING_INCOMPLETE, rx', st') \<and>
     same_header rx' m \<and> take (unat (m_len m)) (m_payload rx') = take (unat (m_len m)) (m_payload m) \<and>
     length (m_payload rx') = 264 \<and>
     m_signature rx' = m_signature rx \<and> s_packet_idx st' = m_len m \<and>
     m_checksum rx' = crc_calculate (mav_body m) \<and> s_parse_state st' = PARSE_STATE_GOT_PAYLOAD \<and> m_ck rx' = m_ck rx"
proof -
  let ?n = "unat (m_len m)"
  obtain rx1 st1 where h: "core_run (rx, st) (header_mavlink2 m ?n) = (replicate 10 FRAMING_INCOMPLETE, rx1, st1)"
     "same_header rx1 m" "m_payload rx1 = m_payload rx" "m_signature rx1 = m_signature rx"
     "m_checksum rx1 = crc_calculate (tl (header_mavlink2 m ?n))"
     "mav_at st1 (if 0 < m_len m then PARSE_STATE_GOT_MSGID3 else PARSE_STATE_GOT_PAYLOAD)" "m_ck rx1 = m_ck rx"
    using header_received[OF assms(1,4,5), of rx] by auto
  have len: "length (m_payload rx1) = 264" "length (m_payload m) = 264" "?n \<le> 255"
    using h(3) assms(2,3) u8_le_255 by auto
  show ?thesis
  proof (cases "m_len m = 0")
    case True
    then show ?thesis using h len
      by (simp add: mav_at_def mav_body_def)
  next
    case False
    then have pos: "0 < m_len m" "?n \<noteq> 0" by (auto simp: unat_eq_zero word_neq_0_conv)
    have st1: "s_parse_state st1 = PARSE_STATE_GOT_MSGID3" "s_packet_idx st1 = 0"
      using h(6) pos by (auto simp: mav_at_def)
    have ne: "take ?n (m_payload m) \<noteq> []" using pos len by auto
    have ix: "unat (s_packet_idx st1) + length (take ?n (m_payload m)) = unat (m_len rx1)"
      using h(2) len st1 by (simp add: same_header_def)
    obtain rx2 st2 where p: "core_run (rx1, st1) (take ?n (m_payload m)) = (replicate ?n FRAMING_INCOMPLETE, rx2, st2)"
      "same_header rx2 rx1" "m_signature rx2 = m_signature rx1"
      "m_payload rx2 = memcpy (m_payload rx1) 0 (take ?n (m_payload m))"
      "m_checksum rx2 = crc_accumulate_buffer (m_checksum rx1) (take ?n (m_payload m))"
      "s_packet_idx st2 = m_len rx1" "s_parse_state st2 = PARSE_STATE_GOT_PAYLOAD" "m_ck rx2 = m_ck rx1"
      using payload_received[OF st1(1) ne ix len(1)] len st1 by auto
    have "take ?n (m_payload rx2) = take ?n (m_payload m)" "length (m_payload rx2) = 264"
      using p(4) len by (simp_all add: memcpy_def)
    moreover have "m_checksum rx2 = crc_calculate (mav_body m)"
      by (simp add: p(5) h(5) mav_body_def crc_calculate_def crc_accumulate_buffer_append)
    ultimately show ?thesis
      using core_run_appendI[OF h(1) p(1)] p h by (simp add: same_header_def replicate_add)
  qed
qed

lemma body_received:
  assumes "s_parse_state st = PARSE_STATE_IDLE \<or> s_parse_state st = PARSE_STATE_UNINIT"
    and "message_sizes rx" "wf_frame m"
  shows "\<exists>rx' st'. core_run (rx, st) (header_mavlink2 m (unat (m_len m)) @ take (unat (m_len m)) (m_payload m)) =
       (replicate (10 + unat (m_len m)) FRAMING_INCOMPLETE, rx', st') \<and>
     same_header rx' m \<and> take (unat (m_len m)) (m_payload rx') = take (unat (m_len m)) (m_payload m) \<and>
     length (m_payload rx') = 264 \<and>
     m_signature rx' = m_signature rx \<and> s_packet_idx st' = m_len m \<and>
     m_checksum rx' = crc_calculate (mav_body m) \<and> s_parse_state st' = PARSE_STATE_GOT_PAYLOAD \<and> m_ck rx' = m_ck rx"
  using body_received_any[OF assms(1,2)] assms(3) by (simp add: wf_frame_def)

lemma mav_extra_cong: "same_header a b \<Longrightarrow> mav_extra a = mav_extra b"
  by (simp add: same_header_def mav_extra_def)

lemma checksum_bytes:
  "ucast (ucast (x AND 0xFF) :: u8) = x AND (0xFF :: u16)"
  "ucast (ucast (drop_bit 8 x) :: u8) = drop_bit 8 (x :: u16)"
  unfolding u16_and_ff by (rule bit_word_eqI, auto simp: bit_simps dest: bit_imp_le_length)+

definition frame_bytes :: "mavlink_message_t \<Rightarrow> bytes" where
  "frame_bytes m = header_mavlink2 m (unat (m_len m)) @ take (unat (m_len m)) (m_payload m) @
     [ucast (m_checksum m AND 0xFF), ucast (drop_bit 8 (m_checksum m))]"

lemma send_bytes_frame:
  "wf_frame m \<Longrightarrow> send_bytes m = frame_bytes m @ (if m_incompat_flags m AND 1 \<noteq> 0 then m_signature m else [])"
  by (simp add: send_bytes_def frame_bytes_def wf_frame_def Let_def)

lemma length_frame_bytes: "message_sizes m \<Longrightarrow> length (frame_bytes m) = 12 + unat (m_len m)"
  using u8_le_255[of "m_len m"] by (simp add: frame_bytes_def header_mavlink2_def)

lemma frame_bytes_received:
  assumes "s_parse_state st = PARSE_STATE_IDLE \<or> s_parse_state st = PARSE_STATE_UNINIT"
    and "message_sizes rx" "wf_frame m"
  shows "\<exists>rx' st'. core_run (rx, st) (frame_bytes m) =
       (replicate (11 + unat (m_len m)) FRAMING_INCOMPLETE @
          [if m_incompat_flags m AND 1 \<noteq> 0 then FRAMING_INCOMPLETE else FRAMING_OK], rx', st') \<and>
     same_header rx' m \<and> take (unat (m_len m)) (m_payload rx') = take (unat (m_len m)) (m_payload m) \<and>
     m_checksum rx' = m_checksum m \<and> m_signature rx' = m_signature rx \<and>
     (if m_incompat_flags m AND 1 \<noteq> 0
      then s_parse_state st' = PARSE_STATE_SIGNATURE_WAIT \<and> s_signature_wait st' = 13
      else s_parse_state st' = PARSE_STATE_IDLE) \<and>
     m_ck rx' = (m_ck rx)[0 := ucast (m_checksum m AND 0xFF), 1 := ucast (drop_bit 8 (m_checksum m))]"
proof -
  let ?n = "unat (m_len m)"
  let ?k0 = "ucast (m_checksum m AND 0xFF) :: u8" and ?k1 = "ucast (drop_bit 8 (m_checksum m)) :: u8"
  obtain rx1 st1 where b: "core_run (rx, st) (header_mavlink2 m ?n @ take ?n (m_payload m)) =
       (replicate (10 + ?n) FRAMING_INCOMPLETE, rx1, st1)" "same_header rx1 m"
    "take ?n (m_payload rx1) = take ?n (m_payload m)" "length (m_payload rx1) = 264"
    "m_signature rx1 = m_signature rx" "s_packet_idx st1 = m_len m"
    "m_checksum rx1 = crc_calculate (mav_body m)" "s_parse_state st1 = PARSE_STATE_GOT_PAYLOAD" "m_ck rx1 = m_ck rx"
    using body_received[OF assms] by blast
  have crc: "crc_accumulate (mav_extra rx1) (m_checksum rx1) = m_checksum m"
    using assms(3) b(7) mav_extra_cong[OF b(2)]
    by (simp add: wf_frame_def mav_checksum_def crc_calculate_def crc_accumulate_buffer_append)
  have len1: "m_len rx1 = m_len m" using b(2) by (simp add: same_header_def)
  obtain rx2 st2 where c1: "mav_core (rx1, st1) ?k0 = (FRAMING_INCOMPLETE, rx2, st2)"
    "same_header rx2 rx1" "take ?n (m_payload rx2) = take ?n (m_payload rx1)"
    "m_signature rx2 = m_signature rx1" "m_checksum rx2 = m_checksum m" "s_parse_state st2 = PARSE_STATE_GOT_CRC1"
    "m_ck rx2 = (m_ck rx1)[0 := ?k0]"
    using core_crc1[OF b(8) _ b(4), of ?k0] crc len1 b(6) checksum_bytes(1)[of "m_checksum m"] by auto
  have hdr: "same_header rx2 m" using b(2) c1(2) by (simp add: same_header_def)
  then have inc: "m_incompat_flags rx2 = m_incompat_flags m" by (simp add: same_header_def)
  obtain rx3 st3 where c2: "mav_core (rx2, st2) ?k1 =
      (if m_incompat_flags m AND 1 \<noteq> 0 then FRAMING_INCOMPLETE else FRAMING_OK, rx3, st3)"
    "rx3 = rx2\<lparr>m_ck := (m_ck rx2)[1 := ?k1]\<rparr>"
    "if m_incompat_flags m AND 1 \<noteq> 0 then s_parse_state st3 = PARSE_STATE_SIGNATURE_WAIT \<and> s_signature_wait st3 = 13
     else s_parse_state st3 = PARSE_STATE_IDLE"
    using core_crc2[OF c1(6), of ?k1 rx2] c1(5) inc checksum_bytes(2)[of "m_checksum m"] by auto
  have "replicate (11 + ?n) FRAMING_INCOMPLETE = replicate (10 + ?n) FRAMING_INCOMPLETE @ [FRAMING_INCOMPLETE]"
    by (simp add: replicate_append_same flip: replicate_Suc)
  then show ?thesis
    using core_run_appendI[OF b(1), of "[?k0, ?k1]"] c1 c2 hdr b(3,5,9)
    by (simp add: frame_bytes_def same_header_def)
qed

lemma core_roundtrip:
  assumes "s_parse_state st = PARSE_STATE_IDLE \<or> s_parse_state st = PARSE_STATE_UNINIT"
    and "message_sizes rx" "wf_frame m"
  shows "\<exists>rx' st'. core_run (rx, st) (send_bytes m) =
       (replicate (length (send_bytes m) - 1) FRAMING_INCOMPLETE @ [FRAMING_OK], rx', st') \<and>
     same_header rx' m \<and> take (unat (m_len m)) (m_payload rx') = take (unat (m_len m)) (m_payload m) \<and>
     m_checksum rx' = m_checksum m \<and>
     (m_incompat_flags m AND 1 \<noteq> 0 \<longrightarrow> m_signature rx' = m_signature m) \<and>
     s_parse_state st' = PARSE_STATE_IDLE"
proof -
  let ?n = "unat (m_len m)"
  let ?signed = "m_incompat_flags m AND 1 \<noteq> 0"
  have len: "length (frame_bytes m) = 12 + ?n" using assms(3) by (simp add: length_frame_bytes wf_frame_def)
  obtain rx3 st3 where f: "core_run (rx, st) (frame_bytes m) =
       (replicate (11 + ?n) FRAMING_INCOMPLETE @ [if ?signed then FRAMING_INCOMPLETE else FRAMING_OK], rx3, st3)"
     "same_header rx3 m" "take ?n (m_payload rx3) = take ?n (m_payload m)" "m_checksum rx3 = m_checksum m"
     "m_signature rx3 = m_signature rx"
     "if ?signed then s_parse_state st3 = PARSE_STATE_SIGNATURE_WAIT \<and> s_signature_wait st3 = 13
      else s_parse_state st3 = PARSE_STATE_IDLE"
    using frame_bytes_received[OF assms] by blast
  show ?thesis
  proof (cases ?signed)
    case False
    then show ?thesis using f send_bytes_frame[OF assms(3)] len by simp
  next
    case True
    have sig: "length (m_signature m) = 13" "length (m_signature rx3) = 13"
      using assms(2,3) f(5) by (simp_all add: wf_frame_def)
    then have "m_signature m \<noteq> []" by auto
    then obtain rx4 st4 where s: "core_run (rx3, st3) (m_signature m) =
        (replicate 12 FRAMING_INCOMPLETE @ [FRAMING_OK], rx4, st4)"
       "rx4 = rx3\<lparr>m_signature := memcpy (m_signature rx3) 0 (m_signature m)\<rparr>"
       "s_parse_state st4 = PARSE_STATE_IDLE"
      using signature_received[of st3 "m_signature m" rx3] True f(6) sig by auto
    have "length (send_bytes m) - 1 = (11 + ?n) + 1 + 12"
      using send_bytes_frame[OF assms(3)] len sig True by simp
    then have "replicate (length (send_bytes m) - 1) FRAMING_INCOMPLETE @ [FRAMING_OK] =
       (replicate (11 + ?n) FRAMING_INCOMPLETE @ [FRAMING_INCOMPLETE]) @ replicate 12 FRAMING_INCOMPLETE @ [FRAMING_OK]"
      by (simp only: replicate_add) simp
    then show ?thesis
      using core_run_appendI[OF f(1) s(1)] True f s sig send_bytes_frame[OF assms(3)]
      by (simp add: same_header_def)
  qed
qed

lemma mav_run_ok_message:
  assumes "mav_run p cs = (fs @ [FRAMING_OK], rx', st', r', rs')"
  shows "r' = rx'"
proof (cases cs rule: rev_cases)
  case Nil
  then show ?thesis using assms by simp
next
  case (snoc cs0 c)
  obtain gs rx st r rs where "mav_run p cs0 = (gs, rx, st, r, rs)" by (cases "mav_run p cs0") auto
  then have "mavlink_frame_char_buffer rx st c r rs = (FRAMING_OK, rx', st', r', rs')"
    using assms snoc by (auto simp: mav_run_append split: prod.splits)
  then show ?thesis by (rule frame_ok_message)
qed

text \<open>A heartbeat as an autopilot sends it, used as a concrete frame.\<close>

definition heartbeat_body :: mavlink_message_t where
  "heartbeat_body = zero_message\<lparr>m_magic := MAVLINK_STX, m_len := 9, m_seq := 7, m_sysid := 1, m_compid := 1,
     m_payload := [0, 0, 0, 0, 2, 3, 81, 4, 3] @ replicate 255 0\<rparr>"

definition heartbeat :: mavlink_message_t where
  "heartbeat = heartbeat_body\<lparr>m_checksum := mav_checksum heartbeat_body\<rparr>"

lemma mav_checksum_update [simp]: "mav_checksum (m\<lparr>m_checksum := k\<rparr>) = mav_checksum m"
  by (simp add: mav_checksum_def mav_body_def mav_extra_def header_mavlink2_def)

lemma heartbeat_checksum: "m_checksum heartbeat = mav_checksum heartbeat"
  by (simp add: heartbeat_def)

lemma heartbeat_wf: "wf_frame heartbeat"
  unfolding wf_frame_def heartbeat_checksum
  by (simp add: heartbeat_def heartbeat_body_def message_sizes_def zero_message_def
      mav_trim_payload.simps nth_append)

lemma zero_message_sizes: "message_sizes zero_message"
  by (simp add: message_sizes_def zero_message_def)

section \<open>Properties\<close>

lemma mavlink_roundtrip_core:
  assumes idle: "s_parse_state st = PARSE_STATE_IDLE \<or> s_parse_state st = PARSE_STATE_UNINIT"
    and "message_sizes rx" "wf_frame m"
  shows "\<exists>rx' st' r' rs'. mav_run (rx, st, r, rs) (send_bytes m) =
       (replicate (length (send_bytes m) - 1) FRAMING_INCOMPLETE @ [FRAMING_OK], rx', st', r', rs') \<and>
     same_header r' m \<and> take (unat (m_len m)) (m_payload r') = take (unat (m_len m)) (m_payload m) \<and>
     m_checksum r' = m_checksum m \<and>
     (m_incompat_flags m AND 1 \<noteq> 0 \<longrightarrow> m_signature r' = m_signature m) \<and>
     s_parse_state st' = PARSE_STATE_IDLE"
proof -
  obtain fs rx' st' r' rs' where run: "mav_run (rx, st, r, rs) (send_bytes m) = (fs, rx', st', r', rs')"
    by (cases "mav_run (rx, st, r, rs) (send_bytes m)") auto
  note core = mav_run_core[OF run] core_roundtrip[OF assms]
  then have "r' = rx'" using run mav_run_ok_message by (metis fst_conv)
  with core run show ?thesis by auto
qed

text \<open>
  Property C6 (round trip).  From an idle parser, the bytes that \<^verbatim>\<open>mavlink_msg_to_send_buffer\<close> writes for a
  well-formed MAVLink 2 message, signed or not, make \<^verbatim>\<open>mavlink_frame_char_buffer\<close> report
  \<^verbatim>\<open>MAVLINK_FRAMING_INCOMPLETE\<close> on every byte but the last and \<^verbatim>\<open>MAVLINK_FRAMING_OK\<close> on the last one; the
  message handed out then has the header, payload, checksum and signature that were sent, and the parser is idle again.
\<close>

theorem mavlink_roundtrip:
  assumes idle: "s_parse_state st = PARSE_STATE_IDLE \<or> s_parse_state st = PARSE_STATE_UNINIT"
    and "message_sizes rx" "wf_frame m"
  shows "\<exists>rx' st' r' rs'. mav_run (rx, st, r, rs) (send_bytes m) =
       (replicate (length (send_bytes m) - 1) FRAMING_INCOMPLETE @ [FRAMING_OK], rx', st', r', rs') \<and>
     same_header r' m \<and> take (unat (m_len m)) (m_payload r') = take (unat (m_len m)) (m_payload m) \<and>
     m_checksum r' = m_checksum m \<and>
     (m_incompat_flags m AND 1 \<noteq> 0 \<longrightarrow> m_signature r' = m_signature m) \<and>
     s_parse_state st' = PARSE_STATE_IDLE"
  using mavlink_roundtrip_core[OF assms, of r rs] .

theorem mavlink_roundtrip_witness:
  "\<exists>rx' st' r' rs'. mav_run (zero_message, zero_status, zero_message, zero_status) (send_bytes heartbeat) =
       (replicate (length (send_bytes heartbeat) - 1) FRAMING_INCOMPLETE @ [FRAMING_OK], rx', st', r', rs') \<and>
     same_header r' heartbeat"
proof -
  have "s_parse_state zero_status = PARSE_STATE_IDLE \<or> s_parse_state zero_status = PARSE_STATE_UNINIT"
    by (simp add: zero_status_def)
  from mavlink_roundtrip[OF this zero_message_sizes heartbeat_wf] show ?thesis by blast
qed

text \<open>The two checksum bytes of a signed frame when they are not the right ones.\<close>

lemma core_bad_crc:
  assumes "s_parse_state st = PARSE_STATE_GOT_PAYLOAD" "s_packet_idx st = m_len rx" "length (m_payload rx) = 264"
    and "m_incompat_flags rx AND 1 \<noteq> 0" "k = crc_accumulate (mav_extra rx) (m_checksum rx)"
    and "(k0, k1) \<noteq> (ucast (k AND 0xFF), ucast (drop_bit 8 k))"
  shows "\<exists>rx' st'. core_run (rx, st) [k0, k1] = ([FRAMING_INCOMPLETE, FRAMING_BAD_CRC], rx', st') \<and>
     same_header rx' rx \<and> take (unat (m_len rx)) (m_payload rx') = take (unat (m_len rx)) (m_payload rx) \<and>
     m_signature rx' = m_signature rx \<and> m_checksum rx' = k \<and>
     s_parse_state st' = PARSE_STATE_SIGNATURE_WAIT \<and> s_signature_wait st' = 13"
proof -
  have fill: "take (unat (m_len rx)) (memset (m_payload rx) (unat (m_len rx)) 0 (unat n - unat (m_len rx)))
     = take (unat (m_len rx)) (m_payload rx)" if "m_len rx < n" for n
    using that assms(3) u8_le_255[of n] by (simp add: memset_def take_memcpy_before word_less_nat_alt)
  obtain rx1 st1 where c1: "mav_core (rx, st) k0 = (FRAMING_INCOMPLETE, rx1, st1)" "same_header rx1 rx"
    "take (unat (m_len rx)) (m_payload rx1) = take (unat (m_len rx)) (m_payload rx)" "m_signature rx1 = m_signature rx" "m_checksum rx1 = k"
    "s_parse_state st1 = (if ucast k0 = k AND 0xFF then PARSE_STATE_GOT_CRC1 else PARSE_STATE_GOT_BAD_CRC1)"
    using assms(1-3,5) fill
    by (auto simp: mav_core_def frame_count_def Let_def same_header_def mav_extra_def mavlink_update_checksum_def split: option.splits)
  have "ucast (ucast b :: u16) = b" for b :: u8 by (rule bit_word_eqI) (auto simp: bit_simps)
  then have bad: "s_parse_state st1 = PARSE_STATE_GOT_BAD_CRC1 \<or> s_parse_state st1 = PARSE_STATE_GOT_CRC1 \<and> ucast k1 \<noteq> drop_bit 8 k"
    using assms(6) c1(6) by (metis)
  have "m_incompat_flags rx1 AND 1 \<noteq> 0" using c1(2) assms(4) by (simp add: same_header_def)
  then obtain st2 where "mav_core (rx1, st1) k1 = (FRAMING_BAD_CRC, rx1\<lparr>m_ck := (m_ck rx1)[1 := k1]\<rparr>, st2)"
    "s_parse_state st2 = PARSE_STATE_SIGNATURE_WAIT" "s_signature_wait st2 = 13"
    using bad c1(5) by (auto simp: mav_core_def frame_crc2_def Let_def frame_count_def)
  then show ?thesis using c1 by (simp add: same_header_def)
qed

text \<open>
  Property C39 (error).  A receiver without a signing context accepts a corrupted frame that sets the signed flag.  Fed, from an idle state,
  the header and payload of a signed frame, any two checksum bytes that are not the right ones and any thirteen signature
  bytes, \<^verbatim>\<open>mavlink_frame_char_buffer\<close> reports \<^verbatim>\<open>MAVLINK_FRAMING_BAD_CRC\<close> on the second checksum byte, but goes on to read the signature
  and reports \<^verbatim>\<open>MAVLINK_FRAMING_OK\<close> on its last byte, handing out the received message with the checksum it computed itself.
\<close>

theorem signed_bad_crc_accepted:
  assumes "s_parse_state st = PARSE_STATE_IDLE \<or> s_parse_state st = PARSE_STATE_UNINIT" "message_sizes rx"
    and "message_sizes m" "m_magic m = MAVLINK_STX" "m_incompat_flags m = 1" "length sig = 13"
    and "(k0, k1) \<noteq> (ucast (mav_checksum m AND 0xFF), ucast (drop_bit 8 (mav_checksum m)))"
  shows "\<exists>rx' st' rs'. mav_run (rx, st, r, rs)
       (header_mavlink2 m (unat (m_len m)) @ take (unat (m_len m)) (m_payload m) @ [k0, k1] @ sig) =
       (replicate (11 + unat (m_len m)) FRAMING_INCOMPLETE @ [FRAMING_BAD_CRC] @ replicate 12 FRAMING_INCOMPLETE @ [FRAMING_OK], rx', st', rx', rs') \<and>
     same_header rx' m \<and> take (unat (m_len m)) (m_payload rx') = take (unat (m_len m)) (m_payload m) \<and>
     m_checksum rx' = mav_checksum m \<and> m_signature rx' = sig \<and> s_parse_state st' = PARSE_STATE_IDLE"
proof -
  let ?n = "unat (m_len m)" let ?cs = "header_mavlink2 m ?n @ take ?n (m_payload m) @ [k0, k1] @ sig"
  obtain fs rx' st' r' rs' where run: "mav_run (rx, st, r, rs) ?cs = (fs, rx', st', r', rs')"
    by (cases "mav_run (rx, st, r, rs) ?cs") auto
  have flag: "m_incompat_flags m AND NOT 1 = 0" using assms(5) by simp
  obtain rx1 st1 where b: "core_run (rx, st) (header_mavlink2 m ?n @ take ?n (m_payload m)) =
       (replicate (10 + ?n) FRAMING_INCOMPLETE, rx1, st1)" "same_header rx1 m" "take ?n (m_payload rx1) = take ?n (m_payload m)"
    "length (m_payload rx1) = 264" "m_signature rx1 = m_signature rx" "s_packet_idx st1 = m_len m"
    "m_checksum rx1 = crc_calculate (mav_body m)" "s_parse_state st1 = PARSE_STATE_GOT_PAYLOAD"
    using body_received_any[OF assms(1-4) flag] by blast
  have k: "mav_checksum m = crc_accumulate (mav_extra rx1) (m_checksum rx1)"
    using b(7) mav_extra_cong[OF b(2)] by (simp add: mav_checksum_def crc_calculate_def crc_accumulate_buffer_append)
  have h: "m_len rx1 = m_len m" "m_incompat_flags rx1 AND 1 \<noteq> 0" using b(2) assms(5) by (simp_all add: same_header_def)
  obtain rx2 st2 where c: "core_run (rx1, st1) [k0, k1] = ([FRAMING_INCOMPLETE, FRAMING_BAD_CRC], rx2, st2)" "same_header rx2 rx1"
    "take ?n (m_payload rx2) = take ?n (m_payload m)" "m_signature rx2 = m_signature rx" "m_checksum rx2 = mav_checksum m"
    "s_parse_state st2 = PARSE_STATE_SIGNATURE_WAIT" "s_signature_wait st2 = 13"
    using core_bad_crc[OF b(8) _ b(4) h(2) k assms(7)] b(3,5,6) h(1) by auto
  obtain st3 where s: "core_run (rx2, st2) sig =
     (replicate 12 FRAMING_INCOMPLETE @ [FRAMING_OK], rx2\<lparr>m_signature := sig\<rparr>, st3)" "s_parse_state st3 = PARSE_STATE_IDLE"
    using signature_received[OF c(6), of sig rx2] assms(2,6) c(4,7) by force
  have inc: "replicate (11 + ?n) FRAMING_INCOMPLETE = replicate (10 + ?n) FRAMING_INCOMPLETE @ [FRAMING_INCOMPLETE]"
    by (simp add: replicate_append_same flip: replicate_Suc)
  have "core_run (rx, st) ?cs = (replicate (11 + ?n) FRAMING_INCOMPLETE @ [FRAMING_BAD_CRC] @ replicate 12 FRAMING_INCOMPLETE @ [FRAMING_OK],
      rx2\<lparr>m_signature := sig\<rparr>, st3)"
    using core_run_appendI[OF b(1) core_run_appendI[OF c(1) s(1)]] inc by simp
  then have fs: "fs = (replicate (11 + ?n) FRAMING_INCOMPLETE @ [FRAMING_BAD_CRC] @ replicate 12 FRAMING_INCOMPLETE) @ [FRAMING_OK]"
    and rx': "rx' = rx2\<lparr>m_signature := sig\<rparr>" "st' = st3" using mav_run_core[OF run] by auto
  from run fs have "r' = rx'" by (metis mav_run_ok_message)
  with run fs rx' show ?thesis using b(2) c(2,3,5) s(2) by (auto simp: same_header_def)
qed

lemma heartbeat_entry: "mavlink_get_msg_entry 0 = Some (msg_entry (0, 50, 9, 9, 0, 0, 0))"
proof -
  have "msg_entry (0, 50, 9, 9, 0, 0, 0) \<in> set mavlink_message_crcs"
    unfolding mavlink_message_crcs_def set_map by (rule imageI) code_simp
  then show ?thesis unfolding mavlink_get_msg_entry_def using get_msg_entry_correct[OF message_crcs_sorted message_crcs_nonempty] by simp
qed

text \<open>The heartbeat with the signed flag, checksum bytes 0 and 0, and an empty signature.\<close>

theorem signed_bad_crc_accepted_witness:
  "\<exists>rx' st' rs'. mav_run (zero_message, zero_status, zero_message, zero_status)
       ([253, 9, 1, 0, 7, 1, 1, 0, 0, 0] @ [0, 0, 0, 0, 2, 3, 81, 4, 3] @ [0, 0] @ replicate 13 0) =
       (replicate 20 FRAMING_INCOMPLETE @ [FRAMING_BAD_CRC] @ replicate 12 FRAMING_INCOMPLETE @ [FRAMING_OK], rx', st', rx', rs') \<and>
     take 9 (m_payload rx') = [0, 0, 0, 0, 2, 3, 81, 4, 3]"
proof -
  let ?m = "heartbeat_body\<lparr>m_incompat_flags := 1\<rparr>"
  have idle: "s_parse_state zero_status = PARSE_STATE_IDLE \<or> s_parse_state zero_status = PARSE_STATE_UNINIT" by (simp add: zero_status_def)
  have m: "message_sizes ?m" "m_magic ?m = MAVLINK_STX" "m_incompat_flags ?m = 1" "m_len ?m = 9"
    "header_mavlink2 ?m 9 = [253, 9, 1, 0, 7, 1, 1, 0, 0, 0]" "take 9 (m_payload ?m) = [0, 0, 0, 0, 2, 3, 81, 4, 3]"
    by (simp_all add: heartbeat_body_def zero_message_def message_sizes_def header_mavlink2_def)
  have x: "mav_extra ?m = 50" unfolding mav_extra_def heartbeat_body_def zero_message_def by (simp add: heartbeat_entry)
  have "mav_body ?m = [9, 1, 0, 7, 1, 1, 0, 0, 0] @ [0, 0, 0, 0, 2, 3, 81, 4, 3]" using m(4-6) by (simp add: mav_body_def)
  then have "mav_checksum ?m = 21571" unfolding mav_checksum_def x crc_calculate_def crc_init_def X25_INIT_CRC_def
    by (simp add: crc_accumulate_def Let_def)
  then have "(0, 0) \<noteq> (ucast (mav_checksum ?m AND 0xFF) :: u8, ucast (drop_bit 8 (mav_checksum ?m)) :: u8)" by simp
  from signed_bad_crc_accepted[OF idle zero_message_sizes m(1-3) _ this, of "replicate 13 0" zero_message zero_status]
  show ?thesis using m(4-6) by simp blast
qed

end
