(* ===== verification/Byte_Queue.thy ===== *)
theory Byte_Queue
  imports Prelude
begin

text \<open>
  The byte queue of \<^verbatim>\<open>apps/key-exchange/include/my_type.h\<close> (macros \<^verbatim>\<open>queue_init\<close>, \<^verbatim>\<open>queue_full\<close>,
  \<^verbatim>\<open>queue_empty\<close>, \<^verbatim>\<open>enqueue\<close>, \<^verbatim>\<open>dequeue\<close>) and the deque of
  \<^verbatim>\<open>apps/comm-crypto-block/include/my_type.h\<close>, over 32-bit indices as in C.  Both implement
  the bounded FIFO contract of the locale \<open>bounded_fifo\<close>, under which the enqueue and dequeue
  loops of the Encrypt and Decrypt components are verified once.
\<close>

section \<open>The contract\<close>

text \<open>
  The loops of the clients: \<^verbatim>\<open>for (...) enqueue(&queue, buf[i])\<close> ignores the return code,
  \<^verbatim>\<open>for (...) { dequeue(&queue, &c); buf[j] = c; }\<close> leaves \<open>c\<close> as it was when the queue is empty.
\<close>

primrec enqueue_all :: "('q \<Rightarrow> 'x \<Rightarrow> int \<times> 'q) \<Rightarrow> 'q \<Rightarrow> 'x list \<Rightarrow> 'q" where
  "enqueue_all enq q [] = q"
| "enqueue_all enq q (x # xs) = enqueue_all enq (snd (enq q x)) xs"

primrec dequeue_n :: "('q \<Rightarrow> 'x \<Rightarrow> int \<times> 'x \<times> 'q) \<Rightarrow> nat \<Rightarrow> 'x \<Rightarrow> 'q \<Rightarrow> 'x list \<times> 'q" where
  "dequeue_n deq 0 c q = ([], q)"
| "dequeue_n deq (Suc n) c q =
     (let (r, c', q') = deq q c; (xs, q'') = dequeue_n deq n c' q' in (c' # xs, q''))"

locale bounded_fifo =
  fixes inv :: "'q \<Rightarrow> bool"
    and contents :: "'q \<Rightarrow> 'x list"
    and cap :: nat
    and enq :: "'q \<Rightarrow> 'x \<Rightarrow> int \<times> 'q"
    and deq :: "'q \<Rightarrow> 'x \<Rightarrow> int \<times> 'x \<times> 'q"
  assumes bounded: "inv q \<Longrightarrow> length (contents q) \<le> cap"
    and enq_full: "inv q \<Longrightarrow> length (contents q) = cap \<Longrightarrow> enq q x = (-1, q)"
    and enq_ret: "inv q \<Longrightarrow> length (contents q) < cap \<Longrightarrow> fst (enq q x) = 0"
    and enq_inv: "inv q \<Longrightarrow> inv (snd (enq q x))"
    and enq_contents: "inv q \<Longrightarrow> length (contents q) < cap \<Longrightarrow> contents (snd (enq q x)) = contents q @ [x]"
    and deq_empty: "inv q \<Longrightarrow> contents q = [] \<Longrightarrow> deq q c = (-1, c, q)"
    and deq_ret: "inv q \<Longrightarrow> contents q = y # ys \<Longrightarrow> fst (deq q c) = 0"
    and deq_val: "inv q \<Longrightarrow> contents q = y # ys \<Longrightarrow> fst (snd (deq q c)) = y"
    and deq_inv: "inv q \<Longrightarrow> inv (snd (snd (deq q c)))"
    and deq_contents: "inv q \<Longrightarrow> contents q = y # ys \<Longrightarrow> contents (snd (snd (deq q c))) = ys"
begin

lemma enqueue_all_inv: "inv q \<Longrightarrow> inv (enqueue_all enq q xs)"
  by (induction xs arbitrary: q) (auto intro: enq_inv)

text \<open>What the loop keeps of an over-long input: the prefix that fits.\<close>

lemma enqueue_all_contents:
  "inv q \<Longrightarrow> contents (enqueue_all enq q xs) = take cap (contents q @ xs)"
proof (induction xs arbitrary: q)
  case Nil
  then show ?case by (simp add: bounded)
next
  case (Cons x xs)
  show ?case
  proof (cases "length (contents q) = cap")
    case True
    then show ?thesis using Cons by (simp add: enq_full)
  next
    case False
    then have "length (contents q) < cap" using bounded[OF Cons.prems] by simp
    then show ?thesis using Cons enq_inv enq_contents by (simp add: take_Cons')
  qed
qed

lemma enqueue_all_fits:
  "inv q \<Longrightarrow> length (contents q) + length xs \<le> cap \<Longrightarrow>
    contents (enqueue_all enq q xs) = contents q @ xs"
  by (simp add: enqueue_all_contents)

lemma dequeue_n_inv: "inv q \<Longrightarrow> inv (snd (dequeue_n deq n c q))"
  by (induction n arbitrary: c q) (simp_all add: Let_def split_def deq_inv)

lemma dequeue_n_contents:
  "inv q \<Longrightarrow> n \<le> length (contents q) \<Longrightarrow>
    fst (dequeue_n deq n c q) = take n (contents q) \<and>
    contents (snd (dequeue_n deq n c q)) = drop n (contents q)"
proof (induction n arbitrary: c q)
  case 0
  then show ?case by simp
next
  case (Suc n)
  then obtain y ys where yys: "contents q = y # ys" by (cases "contents q") auto
  obtain r c' q' where d: "deq q c = (r, c', q')" by (cases "deq q c") auto
  have c': "c' = y" and q': "contents q' = ys" and "inv q'"
    using deq_val[OF Suc.prems(1) yys, of c] deq_contents[OF Suc.prems(1) yys, of c]
      deq_inv[OF Suc.prems(1), of c] d by auto
  then show ?case
    using Suc.IH[of q' c'] Suc.prems(2) yys by (simp add: d Let_def split_def)
qed

text \<open>First in, first out, for a whole burst.\<close>

lemma fifo_burst:
  assumes "inv q" "contents q = []" "length xs \<le> cap"
  shows "fst (dequeue_n deq (length xs) c (enqueue_all enq q xs)) = xs"
  using assms dequeue_n_contents[of "enqueue_all enq q xs" "length xs" c]
  by (simp add: enqueue_all_inv enqueue_all_fits)

end

section \<open>The queue of the relay applications\<close>

abbreviation MAX_QUEUE_SIZE :: nat where "MAX_QUEUE_SIZE \<equiv> 4096"

record queue_t =
  raw_queue :: bytes
  q_head :: u32
  q_size :: u32

text \<open>\<^verbatim>\<open>memset(raw_queue, -1, ...)\<close> fills the array with 0xFF.\<close>

definition queue_init :: "queue_t \<Rightarrow> queue_t" where
  "queue_init q = q\<lparr>raw_queue := memset (raw_queue q) 0 0xFF MAX_QUEUE_SIZE, q_head := 0, q_size := 0\<rparr>"

definition queue_full :: "queue_t \<Rightarrow> bool" where
  "queue_full q \<longleftrightarrow> q_size q = 4096"

definition queue_empty :: "queue_t \<Rightarrow> bool" where
  "queue_empty q \<longleftrightarrow> q_size q = 0"

definition enqueue :: "queue_t \<Rightarrow> u8 \<Rightarrow> int \<times> queue_t" where
  "enqueue q x =
     (if queue_full q then (-1, q)
      else let index = (q_head q + q_size q) mod 4096 in
        (0, q\<lparr>raw_queue := (raw_queue q)[unat index := x], q_size := q_size q + 1\<rparr>))"

text \<open>The second component is \<^verbatim>\<open>*ret\<close> after the call; it keeps its old value \<open>c\<close> on failure.\<close>

definition dequeue :: "queue_t \<Rightarrow> u8 \<Rightarrow> int \<times> u8 \<times> queue_t" where
  "dequeue q c =
     (if queue_empty q then (-1, c, q)
      else (0, raw_queue q ! unat (q_head q),
            q\<lparr>q_head := (q_head q + 1) mod 4096, q_size := q_size q - 1\<rparr>))"

text \<open>The invariant of the representation and the list of bytes it stands for.\<close>

definition queue_inv :: "queue_t \<Rightarrow> bool" where
  "queue_inv q \<longleftrightarrow> length (raw_queue q) = MAX_QUEUE_SIZE \<and>
     unat (q_head q) < MAX_QUEUE_SIZE \<and> unat (q_size q) \<le> MAX_QUEUE_SIZE"

definition queue_contents :: "queue_t \<Rightarrow> bytes" where
  "queue_contents q = ring_slice (raw_queue q) (unat (q_head q)) (unat (q_size q))"

lemma length_queue_contents [simp]: "length (queue_contents q) = unat (q_size q)"
  by (simp add: queue_contents_def)

lemma queue_full_iff: "queue_full q \<longleftrightarrow> unat (q_size q) = MAX_QUEUE_SIZE"
  by (auto simp: queue_full_def word_unat_eq_iff)

lemma queue_empty_iff: "queue_empty q \<longleftrightarrow> unat (q_size q) = 0"
  by (auto simp: queue_empty_def word_unat_eq_iff)

lemma unat_index_4096:
  fixes h s :: u32
  assumes "unat h \<le> 4096" "unat s \<le> 4096"
  shows "unat ((h + s) mod 4096) = (unat h + unat s) mod 4096"
  using assms by (simp add: unat_word_ariths)

lemma unat_size_inc:
  fixes s :: u32
  assumes "unat s < 4096"
  shows "unat (s + 1) = Suc (unat s)"
  using assms by (intro unat_inc) simp

lemma queue_init_inv: "length (raw_queue q) = MAX_QUEUE_SIZE \<Longrightarrow> queue_inv (queue_init q)"
  by (simp add: queue_init_def queue_inv_def)

lemma queue_init_contents: "queue_contents (queue_init q) = []"
  by (simp add: queue_init_def queue_contents_def)

lemma enqueue_inv: "queue_inv q \<Longrightarrow> queue_inv (snd (enqueue q x))"
  by (auto simp: enqueue_def queue_inv_def Let_def queue_full_iff unat_size_inc)

lemma enqueue_contents:
  assumes "queue_inv q" "unat (q_size q) < MAX_QUEUE_SIZE"
  shows "queue_contents (snd (enqueue q x)) = queue_contents q @ [x]"
  using assms ring_slice_snoc[of "unat (q_size q)" "raw_queue q" "unat (q_head q)" x]
  by (simp add: enqueue_def queue_inv_def queue_contents_def Let_def queue_full_iff
      unat_index_4096 unat_size_inc del: unat_mod_word)

lemma dequeue_inv: "queue_inv q \<Longrightarrow> queue_inv (snd (snd (dequeue q c)))"
  by (auto simp: dequeue_def queue_inv_def queue_empty_def unat_dec)

lemma queue_contents_Cons:
  assumes "queue_inv q" "\<not> queue_empty q"
  shows "queue_contents q = raw_queue q ! unat (q_head q) #
    ring_slice (raw_queue q) (Suc (unat (q_head q))) (unat (q_size q) - 1)"
proof -
  have "unat (q_size q) = Suc (unat (q_size q) - 1)" using assms by (simp add: queue_empty_iff)
  then show ?thesis
    using assms ring_slice_Cons[of "raw_queue q" "unat (q_head q)" "unat (q_size q) - 1"]
    by (simp add: queue_contents_def queue_inv_def)
qed

lemma dequeue_contents:
  assumes "queue_inv q" "\<not> queue_empty q"
  shows "queue_contents (snd (snd (dequeue q c))) = tl (queue_contents q)"
proof -
  have "unat ((q_head q + 1) mod 4096) = Suc (unat (q_head q)) mod 4096"
    using assms unat_index_4096[of "q_head q" 1] by (simp add: queue_inv_def)
  then show ?thesis
    using assms ring_slice_mod[of "raw_queue q" "Suc (unat (q_head q))"]
    by (simp add: queue_contents_Cons del: unat_mod_word ring_slice_mod)
      (simp add: dequeue_def queue_contents_def queue_inv_def unat_dec queue_empty_def)
qed

lemma queue_contents_nonempty: "queue_contents q = y # ys \<Longrightarrow> \<not> queue_empty q"
  using length_queue_contents[of q] by (auto simp: queue_empty_iff simp del: length_queue_contents)

lemma queue_bounded: "queue_inv q \<Longrightarrow> unat (q_size q) \<le> MAX_QUEUE_SIZE"
  by (simp add: queue_inv_def)

lemma enqueue_on_full: "unat (q_size q) = MAX_QUEUE_SIZE \<Longrightarrow> enqueue q x = (-1, q)"
  by (simp add: enqueue_def queue_full_iff)

lemma enqueue_ret: "unat (q_size q) < MAX_QUEUE_SIZE \<Longrightarrow> fst (enqueue q x) = 0"
  by (simp add: enqueue_def queue_full_iff Let_def)

lemma dequeue_on_empty: "queue_contents q = [] \<Longrightarrow> dequeue q c = (-1, c, q)"
  using length_queue_contents[of q] by (simp add: dequeue_def queue_empty_iff del: length_queue_contents)

lemma dequeue_ret: "\<not> queue_empty q \<Longrightarrow> fst (dequeue q c) = 0"
  by (simp add: dequeue_def)

lemma dequeue_value:
  "queue_inv q \<Longrightarrow> \<not> queue_empty q \<Longrightarrow> fst (snd (dequeue q c)) = hd (queue_contents q)"
  by (simp add: dequeue_def queue_contents_Cons)

interpretation bq: bounded_fifo queue_inv queue_contents MAX_QUEUE_SIZE enqueue dequeue
  by unfold_locales
    (simp_all add: queue_bounded enqueue_on_full enqueue_ret enqueue_inv enqueue_contents
      dequeue_on_empty dequeue_ret dequeue_value dequeue_inv dequeue_contents queue_contents_nonempty)

section \<open>The deque of comm-crypto-block\<close>

abbreviation MAX_DEQUE_SIZE :: nat where "MAX_DEQUE_SIZE \<equiv> 4096"

record deque_t =
  d_raw :: bytes
  d_head :: u32
  d_tail :: u32
  d_size :: u32

definition deque_init :: "deque_t \<Rightarrow> deque_t" where
  "deque_init q = q\<lparr>d_raw := memset (d_raw q) 0 0xFF MAX_DEQUE_SIZE, d_head := 0, d_tail := 0, d_size := 0\<rparr>"

definition deque_empty :: "deque_t \<Rightarrow> bool" where
  "deque_empty q \<longleftrightarrow> d_size q = 0"

definition deque_full :: "deque_t \<Rightarrow> bool" where
  "deque_full q \<longleftrightarrow> d_size q = 4096"

definition deque_pop_front :: "deque_t \<Rightarrow> u8 \<Rightarrow> int \<times> u8 \<times> deque_t" where
  "deque_pop_front q c =
     (if deque_empty q then (-1, c, q)
      else (0, d_raw q ! unat (d_head q),
            q\<lparr>d_head := (d_head q + 1) mod 4096, d_size := d_size q - 1\<rparr>))"

definition deque_push_back :: "deque_t \<Rightarrow> u8 \<Rightarrow> int \<times> deque_t" where
  "deque_push_back q x =
     (if deque_full q then (-1, q)
      else (0, q\<lparr>d_raw := (d_raw q)[unat (d_tail q) := x],
                 d_tail := (d_tail q + 1) mod 4096, d_size := d_size q + 1\<rparr>))"

text \<open>
  \<^verbatim>\<open>deque_push_front\<close> declares \<^verbatim>\<open>_ret\<close> and never assigns it on the successful branch: the macro's
  value there is the indeterminate \<open>ret0\<close>.
\<close>

definition deque_push_front :: "int \<Rightarrow> deque_t \<Rightarrow> u8 \<Rightarrow> int \<times> deque_t" where
  "deque_push_front ret0 q x =
     (if deque_full q then (-1, q)
      else let index = (d_head q - 1 + 4096) mod 4096 in
        (ret0, q\<lparr>d_raw := (d_raw q)[unat index := x],
                  d_head := (d_head q - 1) mod 4096, d_size := d_size q + 1\<rparr>))"

definition deque_inv :: "deque_t \<Rightarrow> bool" where
  "deque_inv q \<longleftrightarrow> length (d_raw q) = MAX_DEQUE_SIZE \<and> unat (d_head q) < MAX_DEQUE_SIZE \<and>
     unat (d_size q) \<le> MAX_DEQUE_SIZE \<and>
     unat (d_tail q) = (unat (d_head q) + unat (d_size q)) mod MAX_DEQUE_SIZE"

definition deque_contents :: "deque_t \<Rightarrow> bytes" where
  "deque_contents q = ring_slice (d_raw q) (unat (d_head q)) (unat (d_size q))"

lemma length_deque_contents [simp]: "length (deque_contents q) = unat (d_size q)"
  by (simp add: deque_contents_def)

lemma deque_full_iff: "deque_full q \<longleftrightarrow> unat (d_size q) = MAX_DEQUE_SIZE"
  by (auto simp: deque_full_def word_unat_eq_iff)

lemma deque_empty_iff: "deque_empty q \<longleftrightarrow> unat (d_size q) = 0"
  by (auto simp: deque_empty_def word_unat_eq_iff)

lemma deque_init_inv: "length (d_raw q) = MAX_DEQUE_SIZE \<Longrightarrow> deque_inv (deque_init q)"
  by (simp add: deque_init_def deque_inv_def)

lemma deque_push_back_inv:
  assumes "deque_inv q"
  shows "deque_inv (snd (deque_push_back q x))"
proof (cases "deque_full q")
  case True
  then show ?thesis using assms by (simp add: deque_push_back_def)
next
  case False
  then have "unat (d_size q) < 4096" using assms by (simp add: deque_inv_def deque_full_iff)
  moreover have "unat (d_tail q) < 4096" using assms by (simp add: deque_inv_def)
  ultimately show ?thesis using assms False unat_index_4096[of "d_tail q" 1]
    by (simp add: deque_push_back_def deque_inv_def unat_size_inc mod_Suc_eq del: unat_mod_word)
qed

lemma deque_push_back_contents:
  assumes "deque_inv q" "unat (d_size q) < MAX_DEQUE_SIZE"
  shows "deque_contents (snd (deque_push_back q x)) = deque_contents q @ [x]"
  using assms ring_slice_snoc[of "unat (d_size q)" "d_raw q" "unat (d_head q)" x]
  by (simp add: deque_push_back_def deque_inv_def deque_contents_def deque_full_iff unat_size_inc)

lemma deque_contents_Cons:
  assumes "deque_inv q" "\<not> deque_empty q"
  shows "deque_contents q = d_raw q ! unat (d_head q) #
    ring_slice (d_raw q) (Suc (unat (d_head q))) (unat (d_size q) - 1)"
proof -
  have "unat (d_size q) = Suc (unat (d_size q) - 1)" using assms by (simp add: deque_empty_iff)
  then show ?thesis
    using assms ring_slice_Cons[of "d_raw q" "unat (d_head q)" "unat (d_size q) - 1"]
    by (simp add: deque_contents_def deque_inv_def)
qed

lemma deque_head_inc:
  "deque_inv q \<Longrightarrow> unat ((d_head q + 1) mod 4096) = Suc (unat (d_head q)) mod 4096"
  using unat_index_4096[of "d_head q" 1] by (simp add: deque_inv_def)

lemma ring_step_forth: "0 < n \<Longrightarrow> (Suc h mod N + (n - 1)) mod N = (h + n) mod (N :: nat)"
  by (cases n) (simp_all add: mod_add_left_eq)

lemma ring_step_back: "0 < N \<Longrightarrow> ((h + N - 1) mod N + Suc n) mod N = (h + n) mod (N :: nat)"
proof -
  assume "0 < N"
  then have "h + N - 1 + Suc n = h + n + N" by simp
  then show ?thesis by (metis mod_add_left_eq mod_add_self2)
qed

lemma deque_pop_front_inv:
  assumes "deque_inv q"
  shows "deque_inv (snd (snd (deque_pop_front q c)))"
proof (cases "deque_empty q")
  case True
  then show ?thesis using assms by (simp add: deque_pop_front_def)
next
  case False
  then have "unat (d_size q) \<noteq> 0" by (simp add: deque_empty_iff)
  moreover have "unat (d_size q - 1) = unat (d_size q) - 1"
    using False by (intro unat_dec) (simp add: deque_empty_def)
  ultimately show ?thesis using assms False deque_head_inc[OF assms]
      ring_step_forth[of "unat (d_size q)" "unat (d_head q)" 4096]
    by (auto simp: deque_pop_front_def deque_inv_def simp del: unat_mod_word)
qed

lemma deque_pop_front_contents:
  assumes "deque_inv q" "\<not> deque_empty q"
  shows "deque_contents (snd (snd (deque_pop_front q c))) = tl (deque_contents q)"
  using assms ring_slice_mod[of "d_raw q" "Suc (unat (d_head q))"] deque_head_inc[of q]
  by (simp add: deque_contents_Cons del: unat_mod_word ring_slice_mod)
    (simp add: deque_pop_front_def deque_contents_def deque_inv_def unat_dec deque_empty_def
      del: unat_mod_word)

lemma deque_contents_nonempty: "deque_contents q = y # ys \<Longrightarrow> \<not> deque_empty q"
  using length_deque_contents[of q] by (auto simp: deque_empty_iff simp del: length_deque_contents)

lemma deque_bounded: "deque_inv q \<Longrightarrow> unat (d_size q) \<le> MAX_DEQUE_SIZE"
  by (simp add: deque_inv_def)

lemma deque_push_back_on_full: "unat (d_size q) = MAX_DEQUE_SIZE \<Longrightarrow> deque_push_back q x = (-1, q)"
  by (simp add: deque_push_back_def deque_full_iff)

lemma deque_push_back_ret: "unat (d_size q) < MAX_DEQUE_SIZE \<Longrightarrow> fst (deque_push_back q x) = 0"
  by (simp add: deque_push_back_def deque_full_iff)

lemma deque_pop_on_empty: "deque_contents q = [] \<Longrightarrow> deque_pop_front q c = (-1, c, q)"
  using length_deque_contents[of q]
  by (simp add: deque_pop_front_def deque_empty_iff del: length_deque_contents)

lemma deque_pop_ret: "\<not> deque_empty q \<Longrightarrow> fst (deque_pop_front q c) = 0"
  by (simp add: deque_pop_front_def)

lemma deque_pop_value:
  "deque_inv q \<Longrightarrow> \<not> deque_empty q \<Longrightarrow> fst (snd (deque_pop_front q c)) = hd (deque_contents q)"
  by (simp add: deque_pop_front_def deque_contents_Cons)

interpretation dq: bounded_fifo deque_inv deque_contents MAX_DEQUE_SIZE deque_push_back deque_pop_front
  by unfold_locales
    (simp_all add: deque_bounded deque_push_back_on_full deque_push_back_ret deque_push_back_inv
      deque_push_back_contents deque_pop_on_empty deque_pop_ret deque_pop_value deque_pop_front_inv
      deque_pop_front_contents deque_contents_nonempty)

text \<open>Pushing at the front: the new byte comes first, and the index arithmetic wraps correctly at 0.\<close>

lemma deque_front_index:
  fixes h :: u32
  assumes "unat h < 4096"
  shows "unat ((h - 1 + 4096) mod 4096) = (unat h + 4096 - 1) mod 4096"
    and "unat ((h - 1) mod 4096) = (unat h + 4096 - 1) mod 4096"
proof -
  have eq: "h - 1 + 4096 = h + 4095" by simp
  show "unat ((h - 1 + 4096) mod 4096) = (unat h + 4096 - 1) mod 4096"
    unfolding eq using assms unat_index_4096[of h 4095]
    by (simp add: add.commute[of 4095 "unat h"])
  show "unat ((h - 1) mod 4096) = (unat h + 4096 - 1) mod 4096"
  proof (cases "h = 0")
    case True
    then show ?thesis by simp
  next
    case False
    then have "0 < unat h" by (simp add: unat_gt_0)
    then have "unat h + 4096 - 1 = (unat h - 1) + 4096" by simp
    then have "(unat h + 4096 - 1) mod 4096 = (unat h - 1) mod 4096" by (metis mod_add_self2)
    then show ?thesis using False unat_dec[of h] by simp
  qed
qed

lemma deque_push_front_correct:
  assumes "deque_inv q" "unat (d_size q) < MAX_DEQUE_SIZE"
  shows "deque_inv (snd (deque_push_front ret0 q x)) \<and>
    deque_contents (snd (deque_push_front ret0 q x)) = x # deque_contents q"
proof -
  let ?h = "unat (d_head q)" and ?n = "unat (d_size q)"
  let ?q = "snd (deque_push_front ret0 q x)"
  have len: "length (d_raw q) = 4096" and h: "?h < 4096" using assms by (auto simp: deque_inv_def)
  note idx = deque_front_index[OF h]
  have head: "unat (d_head ?q) = (?h + 4096 - 1) mod 4096"
    and raw: "d_raw ?q = (d_raw q)[(?h + 4096 - 1) mod 4096 := x]"
    and sz: "unat (d_size ?q) = Suc ?n" and tl: "d_tail ?q = d_tail q"
    using assms idx by (simp_all add: deque_push_front_def deque_full_iff Let_def unat_size_inc
        del: unat_mod_word)
  have "deque_inv ?q" using assms len h ring_step_back[of 4096 ?h ?n]
    by (simp add: deque_inv_def head raw sz tl del: One_nat_def)
  moreover have "deque_contents ?q = x # deque_contents q"
    using ring_slice_push_front[of ?n "d_raw q" ?h x] assms len h
      ring_slice_mod[of "(d_raw q)[(?h + 4096 - 1) mod 4096 := x]" "?h + 4096 - 1" "Suc ?n"]
    by (simp add: deque_contents_def head raw sz del: ring_slice_mod)
  ultimately show ?thesis by simp
qed

section \<open>Properties\<close>

text \<open>
  Property C29 (refinement).  The byte queue refines a list bounded by 4096 bytes: enqueueing any sequence onto a
  queue in its invariant appends the part of it that fits and drops the rest, and dequeueing \<open>n\<close> stored
  bytes returns them oldest first and leaves the others; the invariant is kept by both, whatever position the ring is in.
\<close>

theorem queue_refines_list:
  assumes "queue_inv q"
  shows "queue_inv (enqueue_all enqueue q xs) \<and>
    queue_contents (enqueue_all enqueue q xs) = take MAX_QUEUE_SIZE (queue_contents q @ xs) \<and>
    queue_inv (snd (dequeue_n dequeue n c q)) \<and>
    (n \<le> unat (q_size q) \<longrightarrow> fst (dequeue_n dequeue n c q) = take n (queue_contents q) \<and>
       queue_contents (snd (dequeue_n dequeue n c q)) = drop n (queue_contents q))"
  using assms bq.dequeue_n_contents[of q n c]
  by (simp add: bq.enqueue_all_inv bq.enqueue_all_contents bq.dequeue_n_inv)

theorem queue_refines_list_witness:
  "\<exists>q. queue_inv q \<and> queue_contents (enqueue_all enqueue q [1, 2, 3]) = [1, 2, 3] \<and>
     fst (dequeue_n dequeue 2 0 (enqueue_all enqueue q [1, 2, 3])) = [1, 2]"
proof -
  let ?q = "queue_init \<lparr>raw_queue = replicate 4096 0, q_head = 0, q_size = 0\<rparr>"
  let ?q' = "enqueue_all enqueue ?q [1, 2, 3]"
  have inv: "queue_inv ?q" by (rule queue_init_inv) simp
  have q': "queue_inv ?q'" "queue_contents ?q' = [1, 2, 3]"
    using queue_refines_list[OF inv, of "[1, 2, 3]" 0 0] by (simp_all add: queue_init_contents)
  then have "unat (q_size ?q') = 3" using length_queue_contents[of ?q'] by simp
  then show ?thesis using inv q' queue_refines_list[OF q'(1), of "[]" 2 0] by auto
qed

text \<open>
  On a deque in its invariant that is not full, \<^verbatim>\<open>deque_push_front\<close> keeps the
  invariant and puts the new byte before all others, also when the head index wraps from 0 to the end of the array.
\<close>

theorem deque_push_front_first:
  assumes "deque_inv q" "unat (d_size q) < MAX_DEQUE_SIZE"
  shows "deque_inv (snd (deque_push_front ret0 q x)) \<and>
    deque_contents (snd (deque_push_front ret0 q x)) = x # deque_contents q"
  by (rule deque_push_front_correct[OF assms])

theorem deque_push_front_first_witness:
  "\<exists>q. deque_inv q \<and> d_head q = 0 \<and> deque_contents (snd (deque_push_front 0 q 5)) = [5]"
proof -
  let ?q = "deque_init \<lparr>d_raw = replicate 4096 0, d_head = 9, d_tail = 9, d_size = 0\<rparr>"
  have inv: "deque_inv ?q" by (rule deque_init_inv) simp
  have "unat (d_size ?q) < MAX_DEQUE_SIZE" "d_head ?q = 0" "deque_contents ?q = []"
    by (simp_all add: deque_init_def deque_contents_def)
  with deque_push_front_first[OF inv, of 0 5] inv show ?thesis by auto
qed

end
