(* ===== verification/Relay.thy ===== *)
theory Relay
  imports Ring_Buffer Gec_Props Mavlink_Roundtrip Byte_Queue
begin

text \<open>
  The two relay components of \<^verbatim>\<open>apps/key-exchange\<close>: \<^verbatim>\<open>Encrypt\<close> parses MAVLink messages from the autopilot, cuts their bytes into
  blocks and sends each block as a GEC frame; \<^verbatim>\<open>Decrypt\<close> finds frames in the bytes of the radio, decrypts them and passes the messages
  it parses to the autopilot.  What \<^verbatim>\<open>ps_cdev_write\<close> is given is the output of a step, a list of byte strings; its return value only
  chooses a log line.  Log lines are left out.
\<close>

abbreviation (input) GEC_CIPHERTEXT_FRAME_MAGIC :: u8 where "GEC_CIPHERTEXT_FRAME_MAGIC \<equiv> 0x7e"
abbreviation (input) GEC_CIPHERTEXT_FRAME_TAG :: u8 where "GEC_CIPHERTEXT_FRAME_TAG \<equiv> 0"

definition my_mavlink_parse_char :: "u8 \<Rightarrow> mavlink_message_t \<Rightarrow> mavlink_status_t \<Rightarrow> mavlink_message_t \<Rightarrow> mavlink_status_t \<Rightarrow>
    mavlink_framing_t \<times> mavlink_message_t \<times> mavlink_status_t \<times> mavlink_message_t \<times> mavlink_status_t" where
  "my_mavlink_parse_char c rx st r_message r_mavlink_status = mavlink_frame_char_buffer rx st c r_message r_mavlink_status"

section \<open>Encrypt\<close>

record encrypt_st =
  e_rx :: mavlink_message_t
  e_status :: mavlink_status_t
  symkey_chan2 :: gec_sym_key
  e_key_ready :: bool
  e_queue :: queue_t

text \<open>
  The loop over the blocks: \<open>buf\<close> receives the bytes of a block, \<open>ct\<close> is the part of \<^verbatim>\<open>ct_buf\<close> after magic and tag.  The byte
  variable of the inner loop is written by every \<^verbatim>\<open>dequeue\<close>, since a block is only started when its bytes are there.
\<close>

primrec encrypt_blocks :: "bool \<times> bool \<times> bool \<Rightarrow> nat \<Rightarrow> bytes \<Rightarrow> bytes \<Rightarrow> queue_t \<Rightarrow> gec_sym_key \<Rightarrow> bytes list \<times> queue_t \<times> gec_sym_key" where
  "encrypt_blocks al 0 buf ct q k = ([], q, k)"
| "encrypt_blocks al (Suc n) buf ct q k =
     (let (block, q) = dequeue_n dequeue GEC_PT_LEN 0 q;
          buf = memcpy buf 0 block;
          (ret, k, ct) = gec_encrypt al k buf ct;
          (frames, q, k) = encrypt_blocks al n buf ct q k
      in (if ret \<noteq> GEC_SUCCESS then frames else ([GEC_CIPHERTEXT_FRAME_MAGIC, GEC_CIPHERTEXT_FRAME_TAG] @ ct) # frames, q, k))"

definition encrypt_to_frame :: "bool \<times> bool \<times> bool \<Rightarrow> mavlink_message_t \<Rightarrow> encrypt_st \<Rightarrow> bytes list \<times> encrypt_st" where
  "encrypt_to_frame al msg st =
     (let (len, buf) = mavlink_msg_to_send_buffer (replicate 280 0) msg;
          q = enqueue_all enqueue (e_queue st) (take (unat len) buf);
          loop = q_size q div 64;
          (frames, q, k) = encrypt_blocks al (unat loop) buf (replicate GEC_CT_LEN 0) q (symkey_chan2 st)
      in (frames, st\<lparr>e_queue := q, symkey_chan2 := k\<rparr>))"

text \<open>
  \<open>u\<close> is what the uninitialised local message and status hold in this call.  The parser copies the message out before it
  reports one, except when it reports a wrong checksum of a signed frame.
\<close>

definition encrypt_handle_char :: "bool \<times> bool \<times> bool \<Rightarrow> mavlink_message_t \<times> mavlink_status_t \<Rightarrow> u8 \<Rightarrow> encrypt_st \<Rightarrow> bytes list \<times> encrypt_st" where
  "encrypt_handle_char al u c st =
     (let (result, rx, s, msg, _) = my_mavlink_parse_char c (e_rx st) (e_status st) (fst u) (snd u);
          st = st\<lparr>e_rx := rx, e_status := s\<rparr>
      in if result \<noteq> FRAMING_INCOMPLETE then encrypt_to_frame al msg st else ([], st))"

definition encrypt_key_send :: "gec_sym_key \<Rightarrow> encrypt_st \<Rightarrow> encrypt_st" where
  "encrypt_key_send symkey st = st\<lparr>symkey_chan2 := symkey, e_key_ready := True\<rparr>"

definition encrypt_pre_init :: "encrypt_st \<Rightarrow> encrypt_st" where
  "encrypt_pre_init st = st\<lparr>e_queue := queue_init (e_queue st)\<rparr>"

text \<open>\<^verbatim>\<open>run\<close> on the bytes that the ring buffer hands out, each with the locals of its call; it starts once the key has arrived.\<close>

primrec encrypt_run :: "bool \<times> bool \<times> bool \<Rightarrow> ((mavlink_message_t \<times> mavlink_status_t) \<times> u8) list \<Rightarrow> encrypt_st \<Rightarrow> bytes list \<times> encrypt_st" where
  "encrypt_run al [] st = ([], st)"
| "encrypt_run al (uc # cs) st =
     (if e_key_ready st
      then let (frames, st) = encrypt_handle_char al (fst uc) (snd uc) st; (rest, st) = encrypt_run al cs st in (frames @ rest, st)
      else ([], st))"

section \<open>Decrypt: finding frames\<close>

text \<open>
  The blocking reads, on one view of the shared buffer and the component's own position: \<open>None\<close> means that the loop goes on
  waiting for the writer.
\<close>

definition read_byte :: "ring_buffer_t \<Rightarrow> u32 \<Rightarrow> (u8 \<times> u32) option" where
  "read_byte rb head = (if rb_tail rb = head then None else Some (rb_buffer rb ! unat head, (head + 1) mod 2048))"

primrec read_buffer :: "nat \<Rightarrow> ring_buffer_t \<Rightarrow> u32 \<Rightarrow> (bytes \<times> u32) option" where
  "read_buffer 0 rb head = Some ([], head)"
| "read_buffer (Suc n) rb head =
     (if head = rb_tail rb then None
      else case read_buffer n rb ((head + 1) mod 2048) of
             None \<Rightarrow> None
           | Some (bs, head') \<Rightarrow> Some (rb_buffer rb ! unat head # bs, head'))"

text \<open>The search for magic and tag takes at least one byte a turn; a buffer holds at most 2047, which bounds the turns.\<close>

primrec find_header :: "nat \<Rightarrow> ring_buffer_t \<Rightarrow> u32 \<Rightarrow> u32 option" where
  "find_header 0 rb head = None"
| "find_header (Suc n) rb head =
     (case read_byte rb head of
        None \<Rightarrow> None
      | Some (c, head) \<Rightarrow>
          if c = GEC_CIPHERTEXT_FRAME_MAGIC
          then (case read_byte rb head of
                  None \<Rightarrow> None
                | Some (c, head) \<Rightarrow> if c = GEC_CIPHERTEXT_FRAME_TAG then Some head else find_header n rb head)
          else find_header n rb head)"

definition read_ciphertext_frame :: "ring_buffer_t \<Rightarrow> u32 \<Rightarrow> (bytes \<times> u32) option" where
  "read_ciphertext_frame rb head =
     (case find_header RING_BUFFER_SIZE rb head of None \<Rightarrow> None | Some head \<Rightarrow> read_buffer GEC_CT_LEN rb head)"

section \<open>Decrypt: handling a frame\<close>

record decrypt_st =
  dc_rx :: mavlink_message_t
  dc_status :: mavlink_status_t
  dc_queue :: queue_t
  dc_head :: u32
  symkey_chan1 :: gec_sym_key
  dc_key_ready :: bool
  dc_pt :: bytes
  dc_msg :: mavlink_message_t
  dc_rstatus :: mavlink_status_t
  dc_buf :: bytes
  dc_c :: u8

definition decrypt_pre_init :: "decrypt_st \<Rightarrow> decrypt_st" where
  "decrypt_pre_init st = st\<lparr>dc_queue := queue_init (dc_queue st)\<rparr>"

definition decrypt_key_send :: "gec_sym_key \<Rightarrow> decrypt_st \<Rightarrow> decrypt_st" where
  "decrypt_key_send symkey st = st\<lparr>symkey_chan1 := symkey, dc_key_ready := True\<rparr>"

definition decrypt_handle :: "decrypt_st \<Rightarrow> bytes list \<times> decrypt_st" where
  "decrypt_handle st =
     (let (_, c, q) = dequeue (dc_queue st) (dc_c st);
          (result, rx, s, msg, rs) = my_mavlink_parse_char c (dc_rx st) (dc_status st) (dc_msg st) (dc_rstatus st);
          st = st\<lparr>dc_queue := q, dc_c := c, dc_rx := rx, dc_status := s, dc_msg := msg, dc_rstatus := rs\<rparr>
      in if result \<noteq> FRAMING_INCOMPLETE
         then let (len, buf) = mavlink_msg_to_send_buffer (dc_buf st) msg in ([take (unat len) buf], st\<lparr>dc_buf := buf\<rparr>)
         else ([], st))"

lemma decrypt_handle_size: "q_size (dc_queue st) \<noteq> 0 \<Longrightarrow> q_size (dc_queue (snd (decrypt_handle st))) = q_size (dc_queue st) - 1"
  by (simp add: decrypt_handle_def dequeue_def queue_empty_def split_def Let_def)

text \<open>\<^verbatim>\<open>for (int i = 0; i < queue.size; i++)\<close>, whose bound shrinks with every turn.\<close>

function decrypt_drain :: "nat \<Rightarrow> decrypt_st \<Rightarrow> bytes list \<times> decrypt_st" where
  "decrypt_drain i st =
     (if i < unat (q_size (dc_queue st))
      then let (outs, st) = decrypt_handle st; (rest, st) = decrypt_drain (i + 1) st in (outs @ rest, st)
      else ([], st))"
  by pat_completeness auto

termination
proof (relation "measure (\<lambda>(i, st). unat (q_size (dc_queue st)) - i)")
  fix i st x outs st'
  assume i: "i < unat (q_size (dc_queue st))" "x = decrypt_handle st" "(outs, st') = x"
  then have "q_size (dc_queue st') = q_size (dc_queue st) - 1" using decrypt_handle_size[of st] by (metis snd_conv unsigned_0 less_nat_zero_code)
  moreover have "unat (q_size (dc_queue st) - 1) = unat (q_size (dc_queue st)) - 1" using i(1) by (intro unat_dec) auto
  ultimately show "((i + 1, st'), i, st) \<in> measure (\<lambda>(i, st). unat (q_size (dc_queue st)) - i)" using i(1) by simp
qed simp

declare decrypt_drain.simps [simp del]

definition decrypt_frame :: "bool \<times> bool \<times> bool \<Rightarrow> bytes \<Rightarrow> decrypt_st \<Rightarrow> bytes list \<times> decrypt_st" where
  "decrypt_frame al ciphertext st =
     (let (ret, k, pt) = gec_decrypt al (symkey_chan1 st) ciphertext (dc_pt st);
          st = st\<lparr>symkey_chan1 := k, dc_pt := pt\<rparr>;
          st = (if ret \<noteq> 0 then st else st\<lparr>dc_queue := enqueue_all enqueue (dc_queue st) (take GEC_PT_LEN pt)\<rparr>)
      in decrypt_drain 0 st)"

text \<open>One turn of the loop of \<^verbatim>\<open>run\<close> on a view of the shared buffer; \<open>None\<close> while it waits for the key or for bytes.\<close>

definition decrypt_turn :: "bool \<times> bool \<times> bool \<Rightarrow> ring_buffer_t \<Rightarrow> decrypt_st \<Rightarrow> (bytes list \<times> decrypt_st) option" where
  "decrypt_turn al rb st =
     (if \<not> dc_key_ready st then None
      else case read_ciphertext_frame rb (dc_head st) of
             None \<Rightarrow> None
           | Some (ciphertext, head) \<Rightarrow> Some (decrypt_frame al ciphertext (st\<lparr>dc_head := head\<rparr>)))"

end
