(* ===== verification/Relay_Frames.thy ===== *)
theory Relay_Frames
  imports Relay
begin

text \<open>
  How \<^verbatim>\<open>Decrypt\<close> finds frames in its ring buffer: the reads on a view of the buffer are reads on the list of its unread bytes.
\<close>

section \<open>Frames in the ring buffer\<close>

definition ring_ok :: "ring_buffer_t \<Rightarrow> u32 \<Rightarrow> bool" where
  "ring_ok rb head \<longleftrightarrow> length (rb_buffer rb) = RING_BUFFER_SIZE \<and> unat (rb_tail rb) < RING_BUFFER_SIZE \<and> unat head < RING_BUFFER_SIZE"

definition unread :: "ring_buffer_t \<Rightarrow> u32 \<Rightarrow> bytes" where
  "unread rb head = ring_slice (rb_buffer rb) (unat head) ((unat (rb_tail rb) + RING_BUFFER_SIZE - unat head) mod RING_BUFFER_SIZE)"

lemma ring_count:
  fixes t h :: nat
  assumes "t < 2048" "h < 2048"
  shows "(t + 2048 - h) mod 2048 = (if h \<le> t then t - h else t + 2048 - h)"
proof (cases "h \<le> t")
  case True
  then have "t + 2048 - h = (t - h) + 2048" by simp
  then show ?thesis using True assms by (simp only: mod_add_self2) simp
qed (use assms in simp)

lemma unread_cases:
  assumes "ring_ok rb head"
  shows "rb_tail rb = head \<Longrightarrow> unread rb head = []"
    "rb_tail rb \<noteq> head \<Longrightarrow> unread rb head = rb_buffer rb ! unat head # unread rb ((head + 1) mod 2048)"
    "ring_ok rb ((head + 1) mod 2048)"
proof -
  let ?h = "unat head" and ?t = "unat (rb_tail rb)"
  have b: "?h < 2048" "?t < 2048" "length (rb_buffer rb) = 2048" using assms by (simp_all add: ring_ok_def)
  have nx: "unat ((head + 1) mod 2048) = Suc ?h mod 2048" by (rule unat_next[OF b(1)])
  show "ring_ok rb ((head + 1) mod 2048)" using b nx by (simp add: ring_ok_def)
  show "unread rb head = []" if "rb_tail rb = head" using that b by (simp add: unread_def)
  assume "rb_tail rb \<noteq> head"
  then have ne: "?t \<noteq> ?h" by (simp add: word_unat_eq_iff)
  have n: "(?t + 2048 - ?h) mod 2048 = Suc ((?t + 2048 - (Suc ?h mod 2048)) mod 2048)"
  proof (cases "Suc ?h < 2048")
    case True
    then show ?thesis using ring_count[OF b(2,1)] ring_count[OF b(2) True] ne b by auto
  next
    case False
    then have "Suc ?h = 2048" using b by simp
    then show ?thesis using ring_count[OF b(2,1)] ne b by auto
  qed
  show "unread rb head = rb_buffer rb ! ?h # unread rb ((head + 1) mod 2048)"
    unfolding unread_def n nx using ring_slice_Cons[of "rb_buffer rb" ?h] ring_slice_mod[of "rb_buffer rb" "Suc ?h"] b by simp
qed

text \<open>The searches on the list of unread bytes.\<close>

fun find_list :: "bytes \<Rightarrow> bytes option" where
  "find_list (c # d # cs) =
     (if c = GEC_CIPHERTEXT_FRAME_MAGIC then if d = GEC_CIPHERTEXT_FRAME_TAG then Some cs else find_list cs
      else find_list (d # cs))"
| "find_list _ = None"

lemma read_byte_unread:
  assumes "ring_ok rb head"
  shows "read_byte rb head = (case unread rb head of [] \<Rightarrow> None | c # _ \<Rightarrow> Some (c, (head + 1) mod 2048))"
  using unread_cases[OF assms] by (auto simp: read_byte_def)

lemma find_header_list:
  assumes "ring_ok rb head" "length (unread rb head) < n"
  shows "(case find_list (unread rb head) of
      None \<Rightarrow> find_header n rb head = None
    | Some cs \<Rightarrow> \<exists>h. find_header n rb head = Some h \<and> ring_ok rb h \<and> unread rb h = cs)"
  using assms
proof (induction n arbitrary: head)
  case (Suc n)
  let ?h1 = "(head + 1) mod 2048"
  note u = unread_cases[OF Suc.prems(1)] and u1 = unread_cases[OF unread_cases(3)[OF Suc.prems(1)]]
  show ?case
  proof (cases "unread rb head")
    case Nil
    then show ?thesis using read_byte_unread[OF Suc.prems(1)] by simp
  next
    case (Cons c cs)
    then have cs: "cs = unread rb ?h1" "read_byte rb head = Some (c, ?h1)"
      using u(1,2) read_byte_unread[OF Suc.prems(1)] by auto
    show ?thesis
    proof (cases cs)
      case Nil
      then show ?thesis using Cons cs read_byte_unread[OF u(3)] Suc.IH[OF u(3)] Suc.prems(2) by auto
    next
      case (Cons d ds)
      then have ds: "ds = unread rb ((?h1 + 1) mod 2048)" "read_byte rb ?h1 = Some (d, (?h1 + 1) mod 2048)"
        using u1(1,2) cs(1) read_byte_unread[OF u(3)] by auto
      have l: "length (unread rb ?h1) < n" "length (unread rb ((?h1 + 1) mod 2048)) < n"
        using Suc.prems(2) Cons cs(1) ds(1) \<open>unread rb head = c # cs\<close> by auto
      have fh: "find_header (Suc n) rb head =
          (if c = 0x7e then if d = 0 then Some ((?h1 + 1) mod 2048) else find_header n rb ((?h1 + 1) mod 2048) else find_header n rb ?h1)"
        by (simp add: cs(2) ds(2))
      have fl: "find_list (unread rb head) =
          (if c = 0x7e then if d = 0 then Some ds else find_list (unread rb ((?h1 + 1) mod 2048)) else find_list (unread rb ?h1))"
        using \<open>unread rb head = c # cs\<close> Cons cs(1) ds(1) by simp
      show ?thesis unfolding fh fl using Suc.IH[OF u(3) l(1)] Suc.IH[OF u1(3) l(2)] u1(3) ds(1) by simp
    qed
  qed
qed simp

lemma read_buffer_list:
  assumes "ring_ok rb head"
  shows "(if n \<le> length (unread rb head)
    then \<exists>h. read_buffer n rb head = Some (take n (unread rb head), h) \<and> ring_ok rb h \<and> unread rb h = drop n (unread rb head)
    else read_buffer n rb head = None)"
  using assms
proof (induction n arbitrary: head)
  case (Suc n)
  note u = unread_cases[OF Suc.prems]
  show ?case using u Suc.IH[OF u(3)] by (cases "rb_tail rb = head") auto
qed simp

lemma length_unread: "length (unread rb head) < 2048"
  by (simp add: unread_def)

lemma read_ciphertext_frame_list:
  assumes "ring_ok rb head"
  shows "(case find_list (unread rb head) of
      None \<Rightarrow> read_ciphertext_frame rb head = None
    | Some cs \<Rightarrow> if 80 \<le> length cs
        then \<exists>h. read_ciphertext_frame rb head = Some (take 80 cs, h) \<and> ring_ok rb h \<and> unread rb h = drop 80 cs
        else read_ciphertext_frame rb head = None)"
  using find_header_list[OF assms length_unread] read_buffer_list
  by (fastforce simp: read_ciphertext_frame_def split: option.split)

lemma find_list_skip: "0x7e \<notin> set pre \<Longrightarrow> find_list (pre @ 0x7e # 0 # cs) = Some cs"
  by (induction pre rule: find_list.induct) auto

section \<open>Where the headers are\<close>

text \<open>
  The search takes the byte after a magic byte as the tag or throws it away, also when it is a magic byte itself.  So a header is a
  magic byte with the tag behind it that ends a run of magic bytes of odd length; in \<^verbatim>\<open>7e 7e 00\<close> there is none.
\<close>

definition header_at :: "bytes \<Rightarrow> nat \<Rightarrow> bool" where
  "header_at u i \<longleftrightarrow> i + 1 < length u \<and> u ! i = GEC_CIPHERTEXT_FRAME_MAGIC \<and> u ! (i + 1) = GEC_CIPHERTEXT_FRAME_TAG \<and>
     odd (length (takeWhile (\<lambda>b. b = GEC_CIPHERTEXT_FRAME_MAGIC) (rev (take (i + 1) u))))"

definition first_header :: "bytes \<Rightarrow> nat \<Rightarrow> bool" where
  "first_header u i \<longleftrightarrow> header_at u i \<and> (\<forall>j < i. \<not> header_at u j)"

lemma header_at_short: "\<not> header_at [] i" "\<not> header_at [c] i"
  by (auto simp: header_at_def)

lemma header_at_Cons:
  assumes "c \<noteq> 0x7e"
  shows "\<not> header_at (c # u) 0" "header_at (c # u) (Suc i) \<longleftrightarrow> header_at u i"
proof -
  have "takeWhile (\<lambda>b. b = 0x7e) (xs @ [c]) = takeWhile (\<lambda>b. b = 0x7e) xs" for xs using assms by (simp add: takeWhile_tail)
  then show "\<not> header_at (c # u) 0" "header_at (c # u) (Suc i) \<longleftrightarrow> header_at u i" using assms by (auto simp: header_at_def)
qed

lemma header_at_Cons2:
  "header_at (0x7e # d # u) 0 \<longleftrightarrow> d = 0" "\<not> header_at (0x7e # d # u) (Suc 0)"
  "header_at (0x7e # d # u) (Suc (Suc i)) \<longleftrightarrow> header_at u i"
proof -
  have "odd (length (takeWhile (\<lambda>b. b = 0x7e) (xs @ [d, 0x7e]))) = odd (length (takeWhile (\<lambda>b. b = 0x7e) xs))" for xs :: bytes
    by (induction xs) simp_all
  then show "header_at (0x7e # d # u) (Suc (Suc i)) \<longleftrightarrow> header_at u i" by (simp add: header_at_def)
qed (auto simp: header_at_def)

lemma all_Suc_less: "(\<forall>j < Suc n. P j) \<longleftrightarrow> P 0 \<and> (\<forall>j < n. P (Suc j))"
  by (metis less_Suc_eq_0_disj)

lemma find_list_first:
  "case find_list u of None \<Rightarrow> \<forall>i. \<not> header_at u i | Some cs \<Rightarrow> \<exists>i. first_header u i \<and> cs = drop (i + 2) u"
proof (induction u rule: find_list.induct)
  case (1 c d cs)
  show ?case
  proof (cases "c = 0x7e")
    case False
    have all: "(\<forall>i. \<not> header_at (c # d # cs) i) \<longleftrightarrow> (\<forall>i. \<not> header_at (d # cs) i)"
      using header_at_Cons[OF False] by (metis not0_implies_Suc)
    have first: "first_header (c # d # cs) (Suc i) \<longleftrightarrow> first_header (d # cs) i" for i
      by (simp add: first_header_def all_Suc_less header_at_Cons[OF False])
    show ?thesis using 1(2) False all first by (fastforce split: option.splits)
  next
    case True
    show ?thesis
    proof (cases "d = 0")
      case True
      then have "first_header (c # d # cs) 0" using \<open>c = 0x7e\<close> by (simp add: first_header_def header_at_Cons2)
      then show ?thesis using True \<open>c = 0x7e\<close> by (auto intro!: exI[of _ 0])
    next
      case False
      have all: "(\<forall>i. \<not> header_at (c # d # cs) i) \<longleftrightarrow> (\<forall>i. \<not> header_at cs i)"
        using header_at_Cons2 False \<open>c = 0x7e\<close> by (metis not0_implies_Suc)
      have first: "first_header (c # d # cs) (Suc (Suc i)) \<longleftrightarrow> first_header cs i" for i
        using False \<open>c = 0x7e\<close> by (simp add: first_header_def all_Suc_less header_at_Cons2)
      show ?thesis using 1(1) False \<open>c = 0x7e\<close> all first by (fastforce split: option.splits)
    qed
  qed
qed (simp_all add: header_at_short)

text \<open>
  Property C27 (functional): what \<^verbatim>\<open>read_ciphertext_frame\<close> finds, for every content of the ring buffer and at whatever position of the
  buffer.  When the unread bytes have a header with 80 bytes behind it, it returns the 80 bytes after the first header and leaves the
  position behind them.  It waits exactly when there is no header or fewer than 80 bytes follow the first one; the turns of its search
  never exceed the size of the buffer.
\<close>

theorem read_ciphertext_frame_finds:
  assumes "ring_ok rb head" "u = unread rb head"
  shows "(\<forall>i. first_header u i \<longrightarrow> i + 82 \<le> length u \<longrightarrow>
      (\<exists>h. read_ciphertext_frame rb head = Some (take 80 (drop (i + 2) u), h) \<and> ring_ok rb h \<and> unread rb h = drop (i + 82) u)) \<and>
    (read_ciphertext_frame rb head = None \<longleftrightarrow> (\<forall>i. first_header u i \<longrightarrow> length u < i + 82))"
proof -
  have uniq: "i = j" if "first_header u i" "first_header u j" for i j
    using that by (metis first_header_def linorder_neqE_nat)
  show ?thesis
  proof (cases "find_list u")
    case None
    then show ?thesis using find_list_first[of u] read_ciphertext_frame_list[OF assms(1)] assms(2) by (auto simp: first_header_def)
  next
    case (Some cs)
    then obtain i where i: "first_header u i" "cs = drop (i + 2) u" using find_list_first[of u] by auto
    have len: "80 \<le> length cs \<longleftrightarrow> i + 82 \<le> length u" using i by (auto simp: first_header_def header_at_def)
    have only: "(\<forall>j. first_header u j \<longrightarrow> P j) \<longleftrightarrow> P i" for P using uniq i(1) by blast
    show ?thesis unfolding only using Some i(2) len read_ciphertext_frame_list[OF assms(1)] assms(2)
      by (auto simp: add.commute split: if_splits)
  qed
qed

text \<open>In the demonstration the magic and tag behind another magic byte are passed over.\<close>

definition demo_ring :: ring_buffer_t where
  "demo_ring = \<lparr>rb_buffer = replicate 2040 1 @ [1, 1, 1, 0x7e, 0x7e, 0, 0x7e, 0], rb_head = 0, rb_tail = 90\<rparr>"

lemma demo_ring_unread:
  "unread demo_ring 2040 = [1, 1, 1, 0x7e, 0x7e, 0, 0x7e, 0] @ replicate 80 1 @ replicate 10 1"
proof -
  have l: "length (rb_buffer demo_ring) = 2048" by (simp add: demo_ring_def)
  have a: "ring_slice (rb_buffer demo_ring) 2040 8 = [1, 1, 1, 0x7e, 0x7e, 0, 0x7e, 0]"
    by (simp add: ring_slice_def demo_ring_def nth_append upt_rec)
  have b: "ring_slice (rb_buffer demo_ring) 2048 90 = replicate 80 1 @ replicate 10 1"
    by (rule nth_equalityI) (auto simp: l nth_append, simp add: demo_ring_def nth_append)
  have "unread demo_ring 2040 = ring_slice (rb_buffer demo_ring) 2040 (8 + 90)" by (simp add: unread_def demo_ring_def)
  also have "\<dots> = ring_slice (rb_buffer demo_ring) 2040 8 @ ring_slice (rb_buffer demo_ring) (2040 + 8) 90" by (rule ring_slice_append)
  also have "\<dots> = [1, 1, 1, 0x7e, 0x7e, 0, 0x7e, 0] @ replicate 80 1 @ replicate 10 1" using a b by simp
  finally show ?thesis by simp
qed

lemma demo_ring_header: "first_header ([1, 1, 1, 0x7e, 0x7e, 0, 0x7e, 0] @ rest) 6"
proof -
  have "(6 :: nat) = Suc (Suc (Suc (Suc (Suc (Suc 0)))))" by simp
  then show ?thesis unfolding first_header_def by (simp only:) (simp add: all_Suc_less header_at_Cons header_at_Cons2)
qed

theorem read_ciphertext_frame_finds_witness:
  "first_header (unread demo_ring 2040) 6 \<and>
    (\<exists>h. read_ciphertext_frame demo_ring 2040 = Some (replicate 80 1, h) \<and> ring_ok demo_ring h \<and> unread demo_ring h = replicate 10 1)"
proof -
  have "ring_ok demo_ring 2040" by (simp add: ring_ok_def demo_ring_def)
  from conjunct1[OF read_ciphertext_frame_finds[OF this refl], rule_format, of 6] show ?thesis
    unfolding demo_ring_unread by (simp add: demo_ring_header[simplified])
qed

end
