(* ===== verification/Relay_Encrypt.thy ===== *)
theory Relay_Encrypt
  imports Relay_Frames
begin

text \<open>
  \<^verbatim>\<open>Encrypt\<close> as a stream transformer: the frames it writes carry, block by block, the serialised messages its parser reported.
\<close>

section \<open>Blocks and frames\<close>

text \<open>The frames for the whole blocks of a byte stream, with consecutive counters after \<open>c\<close>; the rest waits in the queue.\<close>

fun gec_frames :: "bytes \<Rightarrow> nat \<Rightarrow> bytes \<Rightarrow> bytes list" where
  "gec_frames raw c xs =
     (if length xs < 64 then []
      else ([GEC_CIPHERTEXT_FRAME_MAGIC, GEC_CIPHERTEXT_FRAME_TAG] @ gec_frame raw (be_bytes 4 (c + 1)) (take 64 xs)) #
        gec_frames raw (c + 1) (drop 64 xs))"

fun gec_rest :: "bytes \<Rightarrow> bytes" where
  "gec_rest xs = (if length xs < 64 then xs else gec_rest (drop 64 xs))"

declare gec_frames.simps [simp del]
declare gec_rest.simps [simp del]

lemma gec_short: "length xs < 64 \<Longrightarrow> gec_frames raw c xs = []" "length xs < 64 \<Longrightarrow> gec_rest xs = xs"
  by (simp_all add: gec_frames.simps gec_rest.simps)

lemma gec_long:
  assumes "64 \<le> length xs"
  shows "gec_frames raw c xs = ([GEC_CIPHERTEXT_FRAME_MAGIC, GEC_CIPHERTEXT_FRAME_TAG] @ gec_frame raw (be_bytes 4 (c + 1)) (take 64 xs)) #
      gec_frames raw (c + 1) (drop 64 xs)"
    "gec_rest xs = gec_rest (drop 64 xs)" "length xs div 64 = Suc (length (drop 64 xs) div 64)"
  using assms by (simp_all add: gec_frames.simps[of raw c xs] gec_rest.simps[of xs] le_div_geq)

lemma length_gec_rest: "length (gec_rest xs) < 64"
  by (induction xs rule: gec_rest.induct) (metis gec_short(2) gec_long(2) not_less)

lemma gec_append:
  "gec_frames raw c (xs @ ys) = gec_frames raw c xs @ gec_frames raw (c + length xs div 64) (gec_rest xs @ ys) \<and>
   gec_rest (xs @ ys) = gec_rest (gec_rest xs @ ys) \<and>
   length (xs @ ys) div 64 = length xs div 64 + length (gec_rest xs @ ys) div 64"
proof (induction xs arbitrary: c rule: gec_rest.induct)
  case (1 xs)
  show ?case
  proof (cases "length xs < 64")
    case True
    then show ?thesis by (simp add: gec_short)
  next
    case False
    then have l: "64 \<le> length xs" "64 \<le> length (xs @ ys)" by simp_all
    have d: "take 64 (xs @ ys) = take 64 xs" "drop 64 (xs @ ys) = drop 64 xs @ ys" using l by simp_all
    show ?thesis using "1.IH"[OF False, of "c + 1"]
      unfolding gec_long[OF l(1)] gec_long[OF l(2)] d by simp
  qed
qed

section \<open>Encrypt\<close>

lemma gec_encrypt_take: "gec_encrypt al k (take 64 buf) ct = gec_encrypt al k buf ct"
  by (simp add: gec_encrypt_def)

lemma encrypt_blocks_val:
  assumes "queue_inv q" "gec_keyed raw k" "unat (ctr k) + n < UINT32_MAX - 15" "64 * n \<le> length (queue_contents q)"
    "64 \<le> length buf" "length ct = 80" "n = length (queue_contents q) div 64"
  shows "\<exists>q' k'. encrypt_blocks al n buf ct q k = (gec_frames raw (unat (ctr k)) (queue_contents q), q', k') \<and>
    queue_inv q' \<and> queue_contents q' = gec_rest (queue_contents q) \<and> gec_keyed raw k' \<and> unat (ctr k') = unat (ctr k) + n"
  using assms
proof (induction n arbitrary: q k buf ct)
  case 0
  then have "length (queue_contents q) < 64" by (metis div_eq_0_iff zero_neq_numeral)
  then show ?case using 0 by (simp only: encrypt_blocks.simps gec_short) simp
next
  case (Suc n)
  let ?xs = "queue_contents q"
  have l: "64 \<le> length ?xs" using Suc.prems(4) by simp
  obtain blk q1 where d0: "dequeue_n dequeue 64 0 q = (blk, q1)" by (cases "dequeue_n dequeue 64 0 q")
  then have d: "dequeue_n dequeue 64 0 q = (take 64 ?xs, q1)" "queue_contents q1 = drop 64 ?xs" "queue_inv q1"
    using bq.dequeue_n_contents[OF Suc.prems(1) l, of 0] bq.dequeue_n_inv[OF Suc.prems(1), of 64 0] by simp_all
  have b: "take 64 (memcpy buf 0 (take 64 ?xs)) = take 64 ?xs" "64 \<le> length (memcpy buf 0 (take 64 ?xs))"
    using l Suc.prems(5) by (simp_all add: memcpy_def del: length_queue_contents)
  obtain k1 where k1: "gec_encrypt al k (memcpy buf 0 (take 64 ?xs)) ct = (GEC_SUCCESS, k1, gec_frame raw (be_bytes 4 (unat (ctr k) + 1)) (take 64 ?xs))"
    "gec_keyed raw k1" "ctr k1 = ctr k + 1"
    using gec_encrypt_val[OF Suc.prems(2) _ _ Suc.prems(6), of "take 64 ?xs" al] Suc.prems(3) l
    unfolding gec_encrypt_take[of al k "memcpy buf 0 (take 64 ?xs)", symmetric] b(1) by auto
  have u: "unat (ctr k1) = unat (ctr k) + 1" using Suc.prems(3) k1(3) by (simp add: unat_inc)
  have n: "n = length (queue_contents q1) div 64" using Suc.prems(7) gec_long(3)[OF l] d(2) by simp
  have "length (gec_frame raw (be_bytes 4 (unat (ctr k) + 1)) (take 64 ?xs)) = 80" using l by (simp add: length_gec_frame)
  moreover have "64 * n \<le> length (queue_contents q1)" unfolding d(2) using Suc.prems(4) by (simp del: length_queue_contents)
  moreover have "unat (ctr k1) + n < UINT32_MAX - 15" using Suc.prems(3) u by simp
  ultimately obtain q' k' where
    "encrypt_blocks al n (memcpy buf 0 (take 64 ?xs)) (gec_frame raw (be_bytes 4 (unat (ctr k) + 1)) (take 64 ?xs)) q1 k1 =
       (gec_frames raw (unat (ctr k) + 1) (drop 64 ?xs), q', k')"
    "queue_inv q'" "queue_contents q' = gec_rest (drop 64 ?xs)" "gec_keyed raw k'" "unat (ctr k') = unat (ctr k) + Suc n"
    using Suc.IH[OF d(3) k1(2) _ _ b(2) _ n, of "gec_frame raw (be_bytes 4 (unat (ctr k) + 1)) (take 64 ?xs)"] u d(2) by (auto simp del: length_queue_contents)
  then show ?case unfolding gec_long[OF l] using d(1) k1(1) by (auto simp del: length_queue_contents)
qed

text \<open>The state between two messages: less than a block waits in the queue.\<close>

definition enc_inv :: "bytes \<Rightarrow> encrypt_st \<Rightarrow> bool" where
  "enc_inv raw st \<longleftrightarrow> parser_inv (e_rx st) (e_status st) \<and> queue_inv (e_queue st) \<and> length (queue_contents (e_queue st)) < 64 \<and>
     gec_keyed raw (symkey_chan2 st) \<and> e_key_ready st"

lemma send_buffer_snd: "snd (mavlink_msg_to_send_buffer b m) = memcpy b 0 (send_bytes m)"
  unfolding mavlink_msg_to_send_buffer_def by (simp only: split_def Let_def snd_conv)

lemma encrypt_to_frame_val:
  assumes "enc_inv raw st" "message_sizes msg" and xs: "xs = queue_contents (e_queue st) @ send_bytes msg"
    and "unat (ctr (symkey_chan2 st)) + length xs div 64 < UINT32_MAX - 15"
  shows "\<exists>q k. encrypt_to_frame al msg st = (gec_frames raw (unat (ctr (symkey_chan2 st))) xs, st\<lparr>e_queue := q, symkey_chan2 := k\<rparr>) \<and>
    queue_inv q \<and> queue_contents q = gec_rest xs \<and> gec_keyed raw k \<and> unat (ctr k) = unat (ctr (symkey_chan2 st)) + length xs div 64"
proof -
  have inv: "queue_inv (e_queue st)" "length (queue_contents (e_queue st)) < 64" "gec_keyed raw (symkey_chan2 st)"
    using assms(1) by (simp_all add: enc_inv_def del: length_queue_contents)
  have l: "length (send_bytes msg) \<le> 280" by (rule length_send_bytes(2)[OF assms(2)])
  obtain len buf where sb: "mavlink_msg_to_send_buffer (replicate 280 0) msg = (len, buf)"
    by (cases "mavlink_msg_to_send_buffer (replicate 280 0) msg")
  have len: "unat len = length (send_bytes msg)" using length_send_bytes(1)[OF assms(2), of "replicate 280 0"] sb by simp
  have buf: "buf = memcpy (replicate 280 0) 0 (send_bytes msg)" using send_buffer_snd[of "replicate 280 0" msg] sb by simp
  have tk: "take (unat len) buf = send_bytes msg" "64 \<le> length buf" using len buf l by (simp_all add: memcpy_def)
  let ?q = "enqueue_all enqueue (e_queue st) (send_bytes msg)"
  have q: "queue_inv ?q" "queue_contents ?q = xs"
    using bq.enqueue_all_inv[OF inv(1)] bq.enqueue_all_fits[OF inv(1), of "send_bytes msg"] inv(2) l xs by auto
  have n: "unat (q_size ?q div 64) = length (queue_contents ?q) div 64" by (simp add: unat_div)
  obtain q' k' where b: "encrypt_blocks al (unat (q_size ?q div 64)) buf (replicate 80 0) ?q (symkey_chan2 st) =
      (gec_frames raw (unat (ctr (symkey_chan2 st))) xs, q', k')" "queue_inv q'" "queue_contents q' = gec_rest xs" "gec_keyed raw k'"
    "unat (ctr k') = unat (ctr (symkey_chan2 st)) + length xs div 64"
    using encrypt_blocks_val[OF q(1) inv(3) _ _ tk(2) _ n, of "replicate 80 0" al] assms(4) n unfolding q(2)
    by (auto simp del: length_queue_contents)
  then have "encrypt_to_frame al msg st = (gec_frames raw (unat (ctr (symkey_chan2 st))) xs, st\<lparr>e_queue := q', symkey_chan2 := k'\<rparr>)"
    by (simp add: encrypt_to_frame_def sb tk(1) del: length_queue_contents)
  with b(2-5) show ?thesis by blast
qed

lemma frame_switch_sizes:
  assumes "message_sizes rx" "message_sizes r" "frame_switch s c rx st r = (rx', st', r')" "message_sizes rx'"
  shows "message_sizes r'"
  using assms by (cases s) (auto simp: Let_def frame_idle_def frame_crc2_def mav_parse_error_def split: if_splits)

lemma frame_char_sizes:
  assumes "parser_inv rx st" "message_sizes r" "mavlink_frame_char_buffer rx st c r rs = (f, rx', st', r', rs')"
  shows "message_sizes r'"
proof -
  let ?st = "st\<lparr>s_msg_received := FRAMING_INCOMPLETE\<rparr>"
  obtain rx1 st1 r1 where sw: "frame_switch (s_parse_state ?st) c rx ?st r = (rx1, st1, r1)" by (rule prod_cases3)
  then have "rx' = rx1" using assms(3) by (auto simp: mavlink_frame_char_buffer_def Let_def)
  moreover have "message_sizes rx'" "message_sizes rx" using frame_char_buffer_inv[OF assms(1,3)] assms(1) by (simp_all add: parser_inv_def)
  ultimately have "message_sizes r1" using frame_switch_sizes[OF _ assms(2) sw] by simp
  then show ?thesis using assms(3) sw by (auto simp: mavlink_frame_char_buffer_def Let_def)
qed

text \<open>The messages that the parser reports on a run, with the locals of each call.\<close>

primrec parsed :: "mavlink_message_t \<times> mavlink_status_t \<Rightarrow> ((mavlink_message_t \<times> mavlink_status_t) \<times> u8) list \<Rightarrow> mavlink_message_t list" where
  "parsed p [] = []"
| "parsed p (uc # cs) =
     (case mavlink_frame_char_buffer (fst p) (snd p) (snd uc) (fst (fst uc)) (snd (fst uc)) of (f, rx, st, r, _) \<Rightarrow>
        (if f \<noteq> FRAMING_INCOMPLETE then [r] else []) @ parsed (rx, st) cs)"

lemma encrypt_run_val:
  assumes "enc_inv raw st" "\<forall>uc \<in> set cs. message_sizes (fst (fst uc))"
    and xs: "xs = queue_contents (e_queue st) @ concat (map send_bytes (parsed (e_rx st, e_status st) cs))"
    and "unat (ctr (symkey_chan2 st)) + length xs div 64 < UINT32_MAX - 15"
  shows "\<exists>st'. encrypt_run al cs st = (gec_frames raw (unat (ctr (symkey_chan2 st))) xs, st') \<and> enc_inv raw st' \<and>
    queue_contents (e_queue st') = gec_rest xs \<and> unat (ctr (symkey_chan2 st')) = unat (ctr (symkey_chan2 st)) + length xs div 64"
  using assms
proof (induction cs arbitrary: st xs)
  case Nil
  have "length xs < 64" using Nil.prems(1,3) by (simp add: enc_inv_def)
  then show ?case using Nil.prems(1,3) by (simp add: gec_short)
next
  case (Cons uc cs)
  let ?q = "queue_contents (e_queue st)" and ?c = "unat (ctr (symkey_chan2 st))"
  obtain f rx s r rs where p: "mavlink_frame_char_buffer (e_rx st) (e_status st) (snd uc) (fst (fst uc)) (snd (fst uc)) = (f, rx, s, r, rs)"
    by (metis surj_pair)
  have inv: "parser_inv (e_rx st) (e_status st)" "e_key_ready st" using Cons.prems(1) by (simp_all add: enc_inv_def)
  have pinv: "parser_inv rx s" "message_sizes r" using frame_char_buffer_inv[OF inv(1) p] frame_char_sizes[OF inv(1) _ p] Cons.prems(2) by simp_all
  define st1 where "st1 = st\<lparr>e_rx := rx, e_status := s\<rparr>"
  have st1: "enc_inv raw st1" "symkey_chan2 st1 = symkey_chan2 st" "e_queue st1 = e_queue st"
    using Cons.prems(1) pinv(1) by (simp_all add: enc_inv_def st1_def)
  have sizes: "\<forall>uc \<in> set cs. message_sizes (fst (fst uc))" using Cons.prems(2) by simp
  define ys where "ys = concat (map send_bytes (parsed (rx, s) cs))"
  show ?case
  proof (cases "f = FRAMING_INCOMPLETE")
    case True
    then have h: "encrypt_handle_char al (fst uc) (snd uc) st = ([], st1)"
      by (simp add: encrypt_handle_char_def my_mavlink_parse_char_def p st1_def)
    have "xs = queue_contents (e_queue st1) @ concat (map send_bytes (parsed (e_rx st1, e_status st1) cs))"
      using Cons.prems(3) True st1(3) by (simp add: p st1_def)
    from Cons.IH[OF st1(1) sizes this] Cons.prems(4) show ?thesis using h inv(2) st1(2) by auto
  next
    case False
    define zs where "zs = ?q @ send_bytes r"
    have xs: "xs = zs @ ys" using Cons.prems(3) False by (simp add: p zs_def ys_def)
    have d: "length xs div 64 = length zs div 64 + length (gec_rest zs @ ys) div 64" using gec_append[of raw 0 zs ys] xs by simp
    have room: "unat (ctr (symkey_chan2 st1)) + length zs div 64 < UINT32_MAX - 15" using Cons.prems(4) d st1(2) by simp
    obtain q k where qk: "encrypt_to_frame al r st1 = (gec_frames raw ?c zs, st1\<lparr>e_queue := q, symkey_chan2 := k\<rparr>)"
      "queue_inv q" "queue_contents q = gec_rest zs" "gec_keyed raw k" "unat (ctr k) = ?c + length zs div 64"
      using encrypt_to_frame_val[OF st1(1) pinv(2) _ room, of al] st1(2,3) by (auto simp: zs_def)
    define st2 where "st2 = st1\<lparr>e_queue := q, symkey_chan2 := k\<rparr>"
    have st2: "enc_inv raw st2" using st1(1) qk length_gec_rest[of zs] by (simp add: enc_inv_def st2_def del: length_queue_contents)
    have h: "encrypt_handle_char al (fst uc) (snd uc) st = (gec_frames raw ?c zs, st2)"
      using False qk(1) by (simp add: encrypt_handle_char_def my_mavlink_parse_char_def p st1_def st2_def)
    have "gec_rest zs @ ys = queue_contents (e_queue st2) @ concat (map send_bytes (parsed (e_rx st2, e_status st2) cs))"
      using qk(3) by (simp add: st2_def st1_def ys_def)
    moreover have "unat (ctr (symkey_chan2 st2)) + length (gec_rest zs @ ys) div 64 < UINT32_MAX - 15"
      using Cons.prems(4) d qk(5) by (simp add: st2_def)
    ultimately show ?thesis using Cons.IH[OF st2 sizes, of "gec_rest zs @ ys"] h inv(2) gec_append[of raw ?c zs ys] qk(5) xs
      by (auto simp: st2_def)
  qed
qed

section \<open>Properties\<close>

text \<open>
  Property C25 (refinement): \<^verbatim>\<open>Encrypt\<close> loses and reorders nothing.  Whatever bytes it takes from the ring buffer, the frames it writes are those
  of the concatenated serialisations of the messages its parser reported, cut into 64-byte blocks with consecutive
  counters, as long as the counter has room; less than a block stays behind in the queue, which therefore never overflows.
\<close>

theorem encrypt_run_is_stream:
  assumes "enc_inv raw st" "\<forall>uc \<in> set cs. message_sizes (fst (fst uc))"
    and "xs = queue_contents (e_queue st) @ concat (map send_bytes (parsed (e_rx st, e_status st) cs))"
    and "unat (ctr (symkey_chan2 st)) + length xs div 64 < UINT32_MAX - 15"
  shows "\<exists>st'. encrypt_run al cs st = (gec_frames raw (unat (ctr (symkey_chan2 st))) xs, st') \<and> enc_inv raw st' \<and>
    queue_contents (e_queue st') = gec_rest xs"
  using encrypt_run_val[OF assms, of al] by blast

definition demo_encrypt :: "bytes \<Rightarrow> encrypt_st" where
  "demo_encrypt raw = encrypt_key_send (gec_init_sym_key_conf_auth blank_key raw) (encrypt_pre_init
     \<lparr>e_rx = zero_message, e_status = zero_status, symkey_chan2 = blank_key, e_key_ready = False,
      e_queue = \<lparr>raw_queue = replicate 4096 0, q_head = 0, q_size = 0\<rparr>\<rparr>)"

lemma demo_encrypt_inv: "length raw = 24 \<Longrightarrow> enc_inv raw (demo_encrypt raw)" "queue_contents (e_queue (demo_encrypt raw)) = []"
  "length raw = 24 \<Longrightarrow> ctr (symkey_chan2 (demo_encrypt raw)) = 0"
  by (simp_all add: enc_inv_def demo_encrypt_def encrypt_pre_init_def encrypt_key_send_def zero_parser_inv
      blank_key_init queue_init_def queue_inv_def queue_contents_def)

lemma parsed_length:
  assumes "parser_inv (fst p) (snd p)" "\<forall>uc \<in> set cs. message_sizes (fst (fst uc))"
  shows "length (concat (map send_bytes (parsed p cs))) \<le> 280 * length cs"
  using assms
proof (induction cs arbitrary: p)
  case (Cons uc cs)
  obtain f rx st r rs where p: "mavlink_frame_char_buffer (fst p) (snd p) (snd uc) (fst (fst uc)) (snd (fst uc)) = (f, rx, st, r, rs)"
    by (metis surj_pair)
  have "parser_inv rx st" "message_sizes r"
    using frame_char_buffer_inv[OF Cons.prems(1) p] frame_char_sizes[OF Cons.prems(1) _ p] Cons.prems(2) by simp_all
  then show ?case using Cons.IH[of "(rx, st)"] Cons.prems(2) length_send_bytes(2)[of r] by (simp add: p)
qed simp

abbreviation demo_input :: "((mavlink_message_t \<times> mavlink_status_t) \<times> u8) list" where
  "demo_input \<equiv> map (Pair (zero_message, zero_status)) (send_bytes heartbeat @ send_bytes heartbeat)"

theorem encrypt_run_is_stream_witness:
  "\<exists>st'. encrypt_run (True, True, True) demo_input (demo_encrypt (replicate 24 7)) =
      (gec_frames (replicate 24 7) (unat (0 :: u64)) (concat (map send_bytes (parsed (zero_message, zero_status) demo_input))), st') \<and>
    enc_inv (replicate 24 7) st' \<and> queue_contents (e_queue st') = gec_rest (concat (map send_bytes (parsed (zero_message, zero_status) demo_input)))"
proof -
  let ?st = "demo_encrypt (replicate 24 7)" and ?xs = "concat (map send_bytes (parsed (zero_message, zero_status) demo_input))"
  have st: "enc_inv (replicate 24 7) ?st" "queue_contents (e_queue ?st) = []" "ctr (symkey_chan2 ?st) = 0" "e_rx ?st = zero_message"
    "e_status ?st = zero_status"
    by (simp_all add: demo_encrypt_inv) (simp_all add: demo_encrypt_def encrypt_pre_init_def encrypt_key_send_def)
  have sizes: "\<forall>uc \<in> set demo_input. message_sizes (fst (fst uc))" by (auto simp: zero_message_sizes)
  have "length ?xs \<le> 280 * 560"
    using parsed_length[of "(zero_message, zero_status)", OF _ sizes] length_send_bytes(2)[of heartbeat] heartbeat_wf
    by (simp add: zero_parser_inv wf_frame_def)
  then have "unat (0 :: u64) + length ?xs div 64 < UINT32_MAX - 15" by simp
  from encrypt_run_is_stream[OF st(1) sizes, unfolded st(2-5), OF _ this, of "(True, True, True)"] show ?thesis by simp
qed

text \<open>
  A frame with a wrong checksum and the signature flag makes \<^verbatim>\<open>Encrypt\<close> transmit uninitialised memory.  The parser then
  reports \<^verbatim>\<open>MAVLINK_FRAMING_BAD_CRC\<close> before it has copied a message out, \<^verbatim>\<open>handle_char\<close> takes any non-zero result for a message,
  and what is serialised and encrypted is its local variable, of which only length and checksum have been set.
\<close>

theorem encrypt_relays_uninitialised:
  assumes "s_parse_state (e_status st) = PARSE_STATE_GOT_BAD_CRC1" "m_incompat_flags (e_rx st) AND 1 \<noteq> 0"
  shows "\<exists>rx s ck. encrypt_handle_char al u c st =
    encrypt_to_frame al ((fst u)\<lparr>m_len := m_len (e_rx st), m_checksum := ck\<rparr>) (st\<lparr>e_rx := rx, e_status := s\<rparr>)"
proof -
  have "mavlink_frame_char_buffer (e_rx st) (e_status st) c (fst u) (snd u) = (f, rx, s, r, rs) \<Longrightarrow>
      f = FRAMING_BAD_CRC \<and> (\<exists>ck. r = (fst u)\<lparr>m_len := m_len (e_rx st), m_checksum := ck\<rparr>)" for f rx s r rs
    using assms by (auto simp: mavlink_frame_char_buffer_def Let_def frame_crc2_def)
  then show ?thesis
    by (cases "mavlink_frame_char_buffer (e_rx st) (e_status st) c (fst u) (snd u)") (auto simp: encrypt_handle_char_def my_mavlink_parse_char_def)
qed

theorem encrypt_relays_uninitialised_witness:
  "(\<lambda>st. \<exists>rx s ck. encrypt_handle_char (True, True, True) (heartbeat, zero_status) 9 st =
    encrypt_to_frame (True, True, True) (heartbeat\<lparr>m_len := m_len (e_rx st), m_checksum := ck\<rparr>) (st\<lparr>e_rx := rx, e_status := s\<rparr>))
   ((demo_encrypt (replicate 24 7))\<lparr>e_rx := zero_message\<lparr>m_incompat_flags := 1\<rparr>,
      e_status := zero_status\<lparr>s_parse_state := PARSE_STATE_GOT_BAD_CRC1\<rparr>\<rparr>)"
  using encrypt_relays_uninitialised[of "(demo_encrypt (replicate 24 7))\<lparr>e_rx := zero_message\<lparr>m_incompat_flags := 1\<rparr>,
      e_status := zero_status\<lparr>s_parse_state := PARSE_STATE_GOT_BAD_CRC1\<rparr>\<rparr>" "(True, True, True)" "(heartbeat, zero_status)" 9] by simp

end
