(* ===== verification/Relay_Decrypt.thy ===== *)
theory Relay_Decrypt
  imports Relay_Encrypt
begin

text \<open>
  \<^verbatim>\<open>Decrypt\<close> as a stream transformer: its parser is fed the plaintexts of the frames it accepts, in order and with a bounded delay.
\<close>

section \<open>Decrypt\<close>

text \<open>What a byte does once it is out of the queue, and a sequence of bytes.\<close>

definition dec_char :: "u8 \<Rightarrow> decrypt_st \<Rightarrow> bytes list \<times> decrypt_st" where
  "dec_char c st =
     (let (result, rx, s, msg, rs) = my_mavlink_parse_char c (dc_rx st) (dc_status st) (dc_msg st) (dc_rstatus st);
          st = st\<lparr>dc_c := c, dc_rx := rx, dc_status := s, dc_msg := msg, dc_rstatus := rs\<rparr>
      in if result \<noteq> FRAMING_INCOMPLETE
         then let (len, buf) = mavlink_msg_to_send_buffer (dc_buf st) msg in ([take (unat len) buf], st\<lparr>dc_buf := buf\<rparr>)
         else ([], st))"

primrec dec_feed :: "bytes \<Rightarrow> decrypt_st \<Rightarrow> bytes list \<times> decrypt_st" where
  "dec_feed [] st = ([], st)"
| "dec_feed (c # cs) st = (let (outs, st) = dec_char c st; (rest, st) = dec_feed cs st in (outs @ rest, st))"

lemma dec_feed_append: "dec_feed (xs @ ys) st = (let (a, st) = dec_feed xs st; (b, st) = dec_feed ys st in (a @ b, st))"
  by (induction xs arbitrary: st) (simp_all add: Let_def split_def)

lemma dec_char_queue: "dec_char c (st\<lparr>dc_queue := q\<rparr>) = (fst (dec_char c st), snd (dec_char c st)\<lparr>dc_queue := q\<rparr>)"
  by (simp add: dec_char_def split_def Let_def)

lemma dec_feed_queue: "dec_feed cs (st\<lparr>dc_queue := q\<rparr>) = (fst (dec_feed cs st), snd (dec_feed cs st)\<lparr>dc_queue := q\<rparr>)"
proof (induction cs arbitrary: st)
  case (Cons c cs)
  show ?case using Cons.IH[of "snd (dec_char c st)"] by (simp add: dec_char_queue Let_def split_def)
qed simp

lemma dec_char_key: "dec_char c (st\<lparr>symkey_chan1 := k, dc_pt := pt\<rparr>) = (fst (dec_char c st), snd (dec_char c st)\<lparr>symkey_chan1 := k, dc_pt := pt\<rparr>)"
  by (simp add: dec_char_def split_def Let_def)

lemma dec_feed_key: "dec_feed cs (st\<lparr>symkey_chan1 := k, dc_pt := pt\<rparr>) = (fst (dec_feed cs st), snd (dec_feed cs st)\<lparr>symkey_chan1 := k, dc_pt := pt\<rparr>)"
proof (induction cs arbitrary: st)
  case (Cons c cs)
  show ?case using Cons.IH[of "snd (dec_char c st)"] by (simp add: dec_char_key Let_def split_def)
qed simp

lemma dec_char_keeps: "dc_queue (snd (dec_char c st)) = dc_queue st" "symkey_chan1 (snd (dec_char c st)) = symkey_chan1 st"
  "dc_pt (snd (dec_char c st)) = dc_pt st"
  by (simp_all add: dec_char_def split_def Let_def)

lemma dec_feed_keeps: "dc_queue (snd (dec_feed cs st)) = dc_queue st" "symkey_chan1 (snd (dec_feed cs st)) = symkey_chan1 st"
  "dc_pt (snd (dec_feed cs st)) = dc_pt st"
  by (induction cs arbitrary: st) (simp_all add: Let_def split_def dec_char_keeps)

lemma decrypt_handle_val:
  assumes "queue_inv (dc_queue st)" "queue_contents (dc_queue st) = c # cs"
  shows "\<exists>q. decrypt_handle st = (fst (dec_char c st), snd (dec_char c st)\<lparr>dc_queue := q\<rparr>) \<and> queue_inv q \<and> queue_contents q = cs"
proof -
  obtain r x q where d: "dequeue (dc_queue st) (dc_c st) = (r, x, q)" by (cases "dequeue (dc_queue st) (dc_c st)") auto
  have q: "x = c" "queue_contents q = cs" "queue_inv q"
    using bq.deq_val[OF assms, of "dc_c st"] bq.deq_contents[OF assms, of "dc_c st"] bq.deq_inv[OF assms(1), of "dc_c st"] d by simp_all
  have "decrypt_handle st = dec_char c (st\<lparr>dc_queue := q\<rparr>)"
    by (simp add: decrypt_handle_def dec_char_def d q(1) split_def Let_def)
  then show ?thesis using q(2,3) dec_char_queue by auto
qed

text \<open>The loop handles every other byte that waits: half of them, rounded up, in order.\<close>

lemma decrypt_drain_val:
  assumes "queue_inv (dc_queue st)" "xs = queue_contents (dc_queue st)" "m = (length xs - i + 1) div 2"
  shows "\<exists>q. decrypt_drain i st = (fst (dec_feed (take m xs) st), snd (dec_feed (take m xs) st)\<lparr>dc_queue := q\<rparr>) \<and>
    queue_inv q \<and> queue_contents q = drop m xs"
  using assms
proof (induction i st arbitrary: xs m rule: decrypt_drain.induct)
  case (1 i st)
  have size: "unat (q_size (dc_queue st)) = length xs" using "1.prems"(2) by simp
  show ?case
  proof (cases "i < length xs")
    case False
    then have "m = 0" using "1.prems"(3) by simp
    moreover have "decrypt_drain i st = ([], st)" using False size by (subst decrypt_drain.simps) simp
    ultimately show ?thesis using "1.prems"(1,2) by (intro exI[of _ "dc_queue st"]) simp
  next
    case True
    then obtain c cs where xs: "xs = c # cs" by (cases xs) auto
    obtain q where h: "decrypt_handle st = (fst (dec_char c st), snd (dec_char c st)\<lparr>dc_queue := q\<rparr>)" "queue_inv q" "queue_contents q = cs"
      using decrypt_handle_val[OF "1.prems"(1), of c cs] "1.prems"(2) xs by auto
    define st1 where "st1 = snd (dec_char c st)\<lparr>dc_queue := q\<rparr>"
    have m: "m = Suc ((length cs - (i + 1) + 1) div 2)"
    proof (cases "i < length cs")
      case True
      then have "length xs - i + 1 = (length cs - (i + 1) + 1) + 2" using xs by simp
      then show ?thesis using "1.prems"(3) by simp
    next
      case False
      then have "length xs = i + 1" "length cs - (i + 1) = 0" using True xs by simp_all
      then show ?thesis using "1.prems"(3) by simp
    qed
    define m1 where "m1 = (length cs - (i + 1) + 1) div 2"
    have "\<exists>q'. decrypt_drain (i + 1) st1 = (fst (dec_feed (take m1 cs) st1), snd (dec_feed (take m1 cs) st1)\<lparr>dc_queue := q'\<rparr>) \<and>
        queue_inv q' \<and> queue_contents q' = drop m1 cs"
      by (rule "1.IH"[OF _ refl h(1)[folded st1_def, symmetric]]) (use True size h in \<open>auto simp: st1_def m1_def\<close>)
    then obtain q' where q': "decrypt_drain (i + 1) st1 = (fst (dec_feed (take m1 cs) st1), snd (dec_feed (take m1 cs) st1)\<lparr>dc_queue := q'\<rparr>)"
      "queue_inv q'" "queue_contents q' = drop m1 cs" by blast
    have "decrypt_drain i st = (fst (dec_char c st) @ fst (dec_feed (take m1 cs) st1), snd (dec_feed (take m1 cs) st1)\<lparr>dc_queue := q'\<rparr>)"
      using True size h(1) q'(1) by (subst decrypt_drain.simps) (simp add: st1_def)
    moreover have "dec_feed (take m1 cs) st1 = (fst (dec_feed (take m1 cs) (snd (dec_char c st))), snd (dec_feed (take m1 cs) (snd (dec_char c st)))\<lparr>dc_queue := q\<rparr>)"
      unfolding st1_def by (rule dec_feed_queue)
    ultimately show ?thesis using q'(2,3) m xs by (auto simp: m1_def Let_def split_def)
  qed
qed

text \<open>The state between two frames: at most 63 bytes wait in the queue.\<close>

definition dec_inv :: "bytes \<Rightarrow> decrypt_st \<Rightarrow> bool" where
  "dec_inv raw st \<longleftrightarrow> queue_inv (dc_queue st) \<and> length (queue_contents (dc_queue st)) < 64 \<and> gec_keyed raw (symkey_chan1 st) \<and> length (dc_pt st) = 64"

text \<open>The bytes that a ciphertext adds to the queue: its plaintext when it is accepted.\<close>

definition accepted :: "bytes \<Rightarrow> bytes \<Rightarrow> bytes" where
  "accepted raw ct =
     (let c4 = take 4 ct; x = take 64 (drop 4 ct); E = aes128 (take 16 raw); iv = c4 @ take 8 (drop 16 raw)
      in if drop 68 ct = gcm_tag E iv [] x 12 then gcm_cipher E iv x else [])"

lemma decrypt_frame_val:
  assumes "dec_inv raw st" "length ct = 80" and xs: "xs = queue_contents (dc_queue st) @ accepted raw ct"
    and m: "m = (length xs + 1) div 2"
  shows "\<exists>k pt q. decrypt_frame al ct st =
      (fst (dec_feed (take m xs) (st\<lparr>symkey_chan1 := k, dc_pt := pt\<rparr>)), snd (dec_feed (take m xs) (st\<lparr>symkey_chan1 := k, dc_pt := pt\<rparr>))\<lparr>dc_queue := q\<rparr>) \<and>
    queue_inv q \<and> queue_contents q = drop m xs \<and> length (drop m xs) < 64 \<and> gec_keyed raw k \<and> length pt = 64"
proof -
  obtain c4 x t where ct: "ct = c4 @ x @ t" "length c4 = 4" "length x = 64" "length t = 12" using gec_ct_parts[OF assms(2)] .
  define ok where "ok = (t = gcm_tag (aes128 (take 16 raw)) (c4 @ take 8 (drop 16 raw)) [] x 12)"
  let ?m = "gcm_cipher (aes128 (take 16 raw)) (c4 @ take 8 (drop 16 raw)) x"
  have inv: "queue_inv (dc_queue st)" "length (queue_contents (dc_queue st)) < 64" "gec_keyed raw (symkey_chan1 st)" "length (dc_pt st) = 64"
    using assms(1) by (simp_all add: dec_inv_def del: length_queue_contents)
  have acc: "accepted raw ct = (if ok then ?m else [])" "length ?m = 64"
    using ct by (simp_all add: accepted_def ok_def gcm_cipher_facts Let_def)
  obtain k where k: "gec_decrypt al (symkey_chan1 st) ct (dc_pt st) =
      (if ok then GEC_SUCCESS else GEC_ERROR_DECRYPT_AUTH_FAILED, k, if ok then ?m else replicate 64 0)" "gec_keyed raw k"
    using gec_decrypt_val[OF inv(3) ct(2-4) inv(4) ok_def, of al] unfolding ct(1) by blast
  define pt where "pt = (if ok then ?m else replicate 64 0)"
  define q1 where "q1 = (if ok then enqueue_all enqueue (dc_queue st) ?m else dc_queue st)"
  have q1: "queue_inv q1" "queue_contents q1 = xs"
    using bq.enqueue_all_inv[OF inv(1)] bq.enqueue_all_fits[OF inv(1), of ?m] inv(1,2) acc xs by (auto simp: q1_def)
  define st1 where "st1 = st\<lparr>symkey_chan1 := k, dc_pt := pt, dc_queue := q1\<rparr>"
  have f: "decrypt_frame al ct st = decrypt_drain 0 st1"
    using k(1) acc(2) by (simp add: decrypt_frame_def st1_def pt_def q1_def)
  obtain q where q: "decrypt_drain 0 st1 = (fst (dec_feed (take m xs) st1), snd (dec_feed (take m xs) st1)\<lparr>dc_queue := q\<rparr>)"
    "queue_inv q" "queue_contents q = drop m xs"
    using decrypt_drain_val[of st1 xs m 0] q1 m by (auto simp: st1_def)
  have fq: "dec_feed (take m xs) st1 = (fst (dec_feed (take m xs) (st\<lparr>symkey_chan1 := k, dc_pt := pt\<rparr>)),
      snd (dec_feed (take m xs) (st\<lparr>symkey_chan1 := k, dc_pt := pt\<rparr>))\<lparr>dc_queue := q1\<rparr>)"
    unfolding st1_def using dec_feed_queue[where st = "st\<lparr>symkey_chan1 := k, dc_pt := pt\<rparr>" and cs = "take m xs" and q = q1] by simp
  have "length xs \<le> 127" using inv(2) acc xs by (auto simp del: length_queue_contents)
  then have "length (drop m xs) < 64" using m by simp
  moreover have "length pt = 64" using acc(2) by (simp add: pt_def)
  ultimately show ?thesis using q f fq k(2) by (intro exI[of _ k] exI[of _ pt] exI[of _ q]) simp
qed

text \<open>The turns of \<^verbatim>\<open>run\<close> from \<^verbatim>\<open>gec_decrypt\<close> on, for ciphertexts that \<^verbatim>\<open>read_ciphertext_frame\<close> has delimited.\<close>

primrec decrypt_frames :: "bool \<times> bool \<times> bool \<Rightarrow> bytes list \<Rightarrow> decrypt_st \<Rightarrow> bytes list \<times> decrypt_st" where
  "decrypt_frames al [] st = ([], st)"
| "decrypt_frames al (ct # cts) st = (let (outs, st) = decrypt_frame al ct st; (rest, st) = decrypt_frames al cts st in (outs @ rest, st))"

lemma split_at:
  "m \<le> length a \<Longrightarrow> take (m + n) (a @ b) = take m a @ take n (drop m a @ b) \<and> drop (m + n) (a @ b) = drop n (drop m a @ b)"
  by (simp add: take_add flip: drop_drop[of n m] add.commute[of m n])

lemma decrypt_frames_val:
  assumes "dec_inv raw st" "\<forall>ct \<in> set cts. length ct = 80" and xs: "xs = queue_contents (dc_queue st) @ concat (map (accepted raw) cts)"
  shows "\<exists>n q k pt. decrypt_frames al cts st = (fst (dec_feed (take n xs) st), snd (dec_feed (take n xs) st)\<lparr>symkey_chan1 := k, dc_pt := pt, dc_queue := q\<rparr>) \<and>
    queue_inv q \<and> queue_contents q = drop n xs \<and> length (drop n xs) < 64 \<and> gec_keyed raw k \<and> length pt = 64"
  using assms
proof (induction cts arbitrary: st xs)
  case Nil
  have e: "st = st\<lparr>symkey_chan1 := symkey_chan1 st, dc_pt := dc_pt st, dc_queue := dc_queue st\<rparr>" by simp
  show ?case using Nil.prems(1,3) e
    by (intro exI[of _ 0] exI[of _ "dc_queue st"] exI[of _ "symkey_chan1 st"] exI[of _ "dc_pt st"]) (simp add: dec_inv_def)
next
  case (Cons ct cts)
  let ?xs = "queue_contents (dc_queue st) @ accepted raw ct"
  define m where "m = (length ?xs + 1) div 2"
  obtain k pt q where f: "decrypt_frame al ct st =
      (fst (dec_feed (take m ?xs) (st\<lparr>symkey_chan1 := k, dc_pt := pt\<rparr>)), snd (dec_feed (take m ?xs) (st\<lparr>symkey_chan1 := k, dc_pt := pt\<rparr>))\<lparr>dc_queue := q\<rparr>)"
    "queue_inv q" "queue_contents q = drop m ?xs" "length (drop m ?xs) < 64" "gec_keyed raw k" "length pt = 64"
    using decrypt_frame_val[OF Cons.prems(1) _ refl m_def, of al] Cons.prems(2) by auto
  define st1 where "st1 = snd (dec_feed (take m ?xs) st)"
  define st2 where "st2 = st1\<lparr>symkey_chan1 := k, dc_pt := pt, dc_queue := q\<rparr>"
  have f1: "decrypt_frame al ct st = (fst (dec_feed (take m ?xs) st), st2)"
    unfolding f(1) dec_feed_key by (simp add: st1_def st2_def)
  have d2: "dec_inv raw st2" using f(2-6) unfolding dec_inv_def st2_def by simp
  define zs where "zs = drop m ?xs @ concat (map (accepted raw) cts)"
  obtain n q' k' pt' where r: "decrypt_frames al cts st2 =
      (fst (dec_feed (take n zs) st2), snd (dec_feed (take n zs) st2)\<lparr>symkey_chan1 := k', dc_pt := pt', dc_queue := q'\<rparr>)"
    "queue_inv q'" "queue_contents q' = drop n zs" "length (drop n zs) < 64" "gec_keyed raw k'" "length pt' = 64"
    using Cons.IH[OF d2, of zs] Cons.prems(2) f(3) by (auto simp: zs_def st2_def)
  have fs: "dec_feed ys st2 = (fst (dec_feed ys st1), snd (dec_feed ys st1)\<lparr>symkey_chan1 := k, dc_pt := pt, dc_queue := q\<rparr>)" for ys
    unfolding st2_def dec_feed_queue dec_feed_key by simp
  have mle: "m \<le> length ?xs" by (simp add: m_def)
  have split: "take (m + n) xs = take m ?xs @ take n zs" "drop (m + n) xs = drop n zs"
    using split_at[OF mle, of n "concat (map (accepted raw) cts)"] Cons.prems(3) by (simp_all add: zs_def)
  have "decrypt_frames al (ct # cts) st = (fst (dec_feed (take (m + n) xs) st),
      snd (dec_feed (take (m + n) xs) st)\<lparr>symkey_chan1 := k', dc_pt := pt', dc_queue := q'\<rparr>)"
    unfolding split(1) dec_feed_append by (simp add: f1 r(1) fs split_def Let_def del: take_append flip: st1_def)
  then show ?case using r(2-6) split(2) by (intro exI[of _ "m + n"] exI[of _ q'] exI[of _ k'] exI[of _ pt']) simp
qed

lemma accepted_frame:
  assumes "length c4 = 4" "length pt = 64"
  shows "accepted raw (gec_frame raw c4 pt) = pt" "length (gec_frame raw c4 pt) = 80"
proof -
  show l: "length (gec_frame raw c4 pt) = 80" using assms by (rule length_gec_frame)
  have "length (gcm_cipher (aes128 (take 16 raw)) (c4 @ take 8 (drop 16 raw)) pt) = 64" using assms(2) by (simp add: gcm_cipher_facts)
  then show "accepted raw (gec_frame raw c4 pt) = pt"
    using assms by (simp add: accepted_def gec_frame_def Let_def gcm_cipher_facts(2))
qed

lemma accepted_frames:
  "concat (map (accepted raw \<circ> drop 2) (gec_frames raw c xs)) @ gec_rest xs = xs \<and>
   (\<forall>f \<in> set (gec_frames raw c xs). length (drop 2 f) = 80)"
proof (induction xs arbitrary: c rule: gec_rest.induct)
  case (1 xs)
  show ?case
  proof (cases "length xs < 64")
    case False
    then have l: "64 \<le> length xs" by simp
    show ?thesis unfolding gec_long(1,2)[OF l] using "1.IH"[OF False, of "c + 1"] l
      by (auto simp: accepted_frame)
  qed (simp add: gec_short)
qed

section \<open>Properties\<close>

text \<open>
  Property C33 (termination): the loop \<^verbatim>\<open>for (int i = 0; i < queue.size; i++)\<close> of \<^verbatim>\<open>Decrypt\<close>, whose body takes a byte out of the queue and whose
  bound is the shrinking size, ends after handling half of the bytes that waited, rounded up: it parses exactly those, in
  order, and the other half stays in the queue.
\<close>

theorem decrypt_loop_handles_half:
  assumes "queue_inv (dc_queue st)"
  shows "\<exists>q. decrypt_drain 0 st = (fst (dec_feed (take ((length (queue_contents (dc_queue st)) + 1) div 2) (queue_contents (dc_queue st))) st),
      snd (dec_feed (take ((length (queue_contents (dc_queue st)) + 1) div 2) (queue_contents (dc_queue st))) st)\<lparr>dc_queue := q\<rparr>) \<and>
    queue_inv q \<and> queue_contents q = drop ((length (queue_contents (dc_queue st)) + 1) div 2) (queue_contents (dc_queue st))"
  using decrypt_drain_val[OF assms refl, of _ 0] by simp

definition demo_decrypt :: "bytes \<Rightarrow> decrypt_st" where
  "demo_decrypt raw = decrypt_key_send (gec_init_sym_key_conf_auth blank_key raw) (decrypt_pre_init
     \<lparr>dc_rx = zero_message, dc_status = zero_status, dc_queue = \<lparr>raw_queue = replicate 4096 0, q_head = 0, q_size = 0\<rparr>, dc_head = 0,
      symkey_chan1 = blank_key, dc_key_ready = False, dc_pt = replicate 64 0, dc_msg = zero_message, dc_rstatus = zero_status,
      dc_buf = replicate 280 0, dc_c = 0\<rparr>)"

lemma demo_decrypt_inv: "length raw = 24 \<Longrightarrow> dec_inv raw (demo_decrypt raw)" "queue_contents (dc_queue (demo_decrypt raw)) = []"
  "queue_inv (dc_queue (demo_decrypt raw))"
  by (simp_all add: dec_inv_def demo_decrypt_def decrypt_pre_init_def decrypt_key_send_def
      blank_key_init queue_init_def queue_inv_def queue_contents_def)

theorem decrypt_loop_handles_half_witness:
  "\<exists>q. decrypt_drain 0 (demo_decrypt (replicate 24 7)) =
      (fst (dec_feed [] (demo_decrypt (replicate 24 7))), snd (dec_feed [] (demo_decrypt (replicate 24 7)))\<lparr>dc_queue := q\<rparr>) \<and>
    queue_inv q \<and> queue_contents q = []"
  using decrypt_loop_handles_half[OF demo_decrypt_inv(3), of "replicate 24 7"] by (simp only: demo_decrypt_inv(2) take_Nil drop_Nil)

text \<open>
  Property C26 (refinement): whatever ciphertexts arrive, \<^verbatim>\<open>Decrypt\<close> feeds its parser a prefix of the concatenated plaintexts of those it accepts,
  that is, of those made with its key; at most 63 bytes of them are still in the queue after a frame, so it never overflows.
  The bytes written to the autopilot are the serialisations of the messages the parser reported on that prefix.
\<close>

theorem decrypt_frames_is_stream:
  assumes "dec_inv raw st" "\<forall>ct \<in> set cts. length ct = 80" and "xs = queue_contents (dc_queue st) @ concat (map (accepted raw) cts)"
  shows "\<exists>n st'. decrypt_frames al cts st = (fst (dec_feed (take n xs) st), st') \<and> length xs < n + 64 \<and>
    queue_contents (dc_queue st') = drop n xs \<and> dec_inv raw st'"
proof -
  obtain n q k pt where f: "decrypt_frames al cts st =
      (fst (dec_feed (take n xs) st), snd (dec_feed (take n xs) st)\<lparr>symkey_chan1 := k, dc_pt := pt, dc_queue := q\<rparr>)"
    "queue_inv q" "queue_contents q = drop n xs" "length (drop n xs) < 64" "gec_keyed raw k" "length pt = 64"
    using decrypt_frames_val[OF assms, of al] by blast
  have "dec_inv raw (snd (dec_feed (take n xs) st)\<lparr>symkey_chan1 := k, dc_pt := pt, dc_queue := q\<rparr>)"
    using f(2-6) unfolding dec_inv_def by simp
  then show ?thesis using f by (intro exI[of _ n] exI) auto
qed

theorem decrypt_frames_is_stream_witness:
  "\<exists>n st'. decrypt_frames (True, True, True) [gec_frame (replicate 24 7) [0, 0, 0, 1] (replicate 64 3)] (demo_decrypt (replicate 24 7)) =
      (fst (dec_feed (take n (replicate 64 3)) (demo_decrypt (replicate 24 7))), st') \<and> length (replicate 64 (3 :: u8)) < n + 64 \<and>
    queue_contents (dc_queue st') = drop n (replicate 64 3) \<and> dec_inv (replicate 24 7) st'"
  by (rule decrypt_frames_is_stream[OF demo_decrypt_inv(1)]) (simp_all add: accepted_frame demo_decrypt_inv(2))

end
