(* ===== verification/Relay_Messages.thy ===== *)
theory Relay_Messages
  imports Relay_Decrypt
begin

text \<open>
  The two relay components on streams of well-formed messages: what one end serialises, the other end writes out again.
\<close>

section \<open>Messages through a parser\<close>

lemma mav_trim_cong:
  assumes "take n p = take n q" "n \<le> length p" "n \<le> length q"
  shows "mav_trim_payload p n = mav_trim_payload q n"
  using assms
proof (induction p n rule: mav_trim_payload.induct)
  case (1 p n)
  have eq: "p ! (n - 1) = q ! (n - 1)" if "1 < n" using "1.prems" that by (metis diff_less nth_take zero_less_one less_trans)
  have "take (n - 1) p = take (n - 1) q" using "1.prems"(1) by (metis take_take min.absorb1 diff_le_self)
  then show ?case using "1.IH" "1.prems"(2,3) eq
    by (subst (1 2) mav_trim_payload.simps) (cases "1 < n \<and> p ! (n - 1) = 0"; auto)
qed

lemma send_bytes_cong:
  assumes "same_header a b" "take (unat (m_len b)) (m_payload a) = take (unat (m_len b)) (m_payload b)" "m_checksum a = m_checksum b"
    "m_incompat_flags b AND 1 \<noteq> 0 \<longrightarrow> m_signature a = m_signature b" "message_sizes a" "message_sizes b"
  shows "send_bytes a = send_bytes b"
proof -
  let ?n = "unat (m_len b)"
  have n: "?n \<le> length (m_payload a)" "?n \<le> length (m_payload b)" using assms(5,6) u8_le_255[of "m_len b"] by simp_all
  have t: "mav_trim_payload (m_payload a) ?n = mav_trim_payload (m_payload b) ?n" by (rule mav_trim_cong[OF assms(2) n])
  have "mav_trim_payload (m_payload b) ?n \<le> ?n" by (rule mav_trim_payload_le)
  then have p: "take (mav_trim_payload (m_payload b) ?n) (m_payload a) = take (mav_trim_payload (m_payload b) ?n) (m_payload b)"
    using assms(2) by (metis min.absorb1 take_take)
  show ?thesis using assms(1-4) t p
    by (simp add: send_bytes_def same_header_def header_mavlink1_def header_mavlink2_def Let_def)
qed

definition idle :: "mavlink_message_t \<Rightarrow> mavlink_status_t \<Rightarrow> bool" where
  "idle rx st \<longleftrightarrow> parser_inv rx st \<and> (s_parse_state st = PARSE_STATE_IDLE \<or> s_parse_state st = PARSE_STATE_UNINIT)"

text \<open>The pieces of a message: silence up to the last byte, and the message at the last byte.\<close>

lemma core_message:
  assumes "idle rx st" "wf_frame m"
  shows "\<exists>pre c rx1 st1 rx' st'. send_bytes m = pre @ [c] \<and> core_run (rx, st) pre = (replicate (length pre) FRAMING_INCOMPLETE, rx1, st1) \<and>
    mav_core (rx1, st1) c = (FRAMING_OK, rx', st') \<and> idle rx' st' \<and> send_bytes rx' = send_bytes m"
proof -
  have i: "s_parse_state st = PARSE_STATE_IDLE \<or> s_parse_state st = PARSE_STATE_UNINIT" "message_sizes rx"
    using assms(1) by (simp_all add: idle_def parser_inv_def)
  obtain rx' st' where r: "core_run (rx, st) (send_bytes m) = (replicate (length (send_bytes m) - 1) FRAMING_INCOMPLETE @ [FRAMING_OK], rx', st')"
    "same_header rx' m" "take (unat (m_len m)) (m_payload rx') = take (unat (m_len m)) (m_payload m)" "m_checksum rx' = m_checksum m"
    "m_incompat_flags m AND 1 \<noteq> 0 \<longrightarrow> m_signature rx' = m_signature m" "s_parse_state st' = PARSE_STATE_IDLE"
    using core_roundtrip[OF i assms(2)] by blast
  have "send_bytes m \<noteq> []" using r(1) by auto
  then obtain pre c where pc: "send_bytes m = pre @ [c]" by (cases "send_bytes m" rule: rev_cases) auto
  obtain fs rx1 st1 where f: "core_run (rx, st) pre = (fs, rx1, st1)" by (cases "core_run (rx, st) pre") auto
  obtain g rx2 st2 where g: "mav_core (rx1, st1) c = (g, rx2, st2)" by (cases "mav_core (rx1, st1) c") auto
  have e: "fs = replicate (length pre) FRAMING_INCOMPLETE" "g = FRAMING_OK" "rx2 = rx'" "st2 = st'"
    using r(1) f g pc by (simp_all add: core_run_append)
  obtain fs' r' rs' where run: "mav_run (rx, st, rx, st) (send_bytes m) = (fs', rx', st', r', rs')"
    using mav_run_core[of rx st rx st "send_bytes m"] r(1) by (cases "mav_run (rx, st, rx, st) (send_bytes m)") force
  have inv: "parser_inv rx' st'" using mav_run_inv[OF _ run] assms(1) by (simp add: idle_def)
  then have "send_bytes rx' = send_bytes m" using send_bytes_cong[OF r(2-5)] assms(2) by (simp add: parser_inv_def wf_frame_def)
  then show ?thesis using pc f g e inv r(6) by (intro exI[of _ pre] exI[of _ c] exI) (auto simp: idle_def)
qed

lemma length_core_run: "length (fst (core_run p cs)) = length cs"
  by (induction cs arbitrary: p) (simp_all add: Let_def split_def)

lemma parsed_silent:
  assumes "core_run (rx, st) (map snd cs) = (replicate (length cs) FRAMING_INCOMPLETE, rx', st')"
  shows "parsed (rx, st) (cs @ ds) = parsed (rx', st') ds"
  using assms
proof (induction cs arbitrary: rx st)
  case (Cons uc cs)
  obtain f rx1 st1 r rs where p: "mavlink_frame_char_buffer rx st (snd uc) (fst (fst uc)) (snd (fst uc)) = (f, rx1, st1, r, rs)" by (metis surj_pair)
  have "mav_core (rx, st) (snd uc) = (f, rx1, st1)" by (rule frame_char_core[OF p])
  then show ?case using Cons.prems Cons.IH[of rx1 st1] by (auto simp: p Let_def split: prod.splits)
qed simp

lemma parsed_message:
  assumes "idle rx st" "wf_frame m" "map snd cs = send_bytes m"
  shows "\<exists>rx' st'. parsed (rx, st) (cs @ ds) = rx' # parsed (rx', st') ds \<and> idle rx' st' \<and> send_bytes rx' = send_bytes m"
proof -
  obtain pre c rx1 st1 rx' st' where m: "send_bytes m = pre @ [c]" "core_run (rx, st) pre = (replicate (length pre) FRAMING_INCOMPLETE, rx1, st1)"
    "mav_core (rx1, st1) c = (FRAMING_OK, rx', st')" "idle rx' st'" "send_bytes rx' = send_bytes m" using core_message[OF assms(1,2)] by blast
  obtain cs0 u where cs: "cs = cs0 @ [(u, c)]" "map snd cs0 = pre" using assms(3) m(1) by (cases cs rule: rev_cases) auto
  have s: "parsed (rx, st) (cs0 @ ((u, c) # ds)) = parsed (rx1, st1) ((u, c) # ds)"
    by (rule parsed_silent) (use m(2) cs(2) in auto)
  obtain f rx2 st2 r rs where p: "mavlink_frame_char_buffer rx1 st1 c (fst u) (snd u) = (f, rx2, st2, r, rs)" by (metis surj_pair)
  have "f = FRAMING_OK" "rx2 = rx'" "st2 = st'" using frame_char_core[OF p] m(3) by simp_all
  moreover from this have "r = rx'" using frame_ok_message p by metis
  ultimately show ?thesis using s p m(4,5) cs(1) by auto
qed

lemma parsed_messages:
  assumes "idle rx st" "\<forall>m \<in> set ms. wf_frame m" "map snd cs = concat (map send_bytes ms)"
  shows "map send_bytes (parsed (rx, st) cs) = map send_bytes ms"
  using assms
proof (induction ms arbitrary: rx st cs)
  case (Cons m ms)
  let ?n = "length (send_bytes m)"
  have t: "map snd (take ?n cs) = send_bytes m" "map snd (drop ?n cs) = concat (map send_bytes ms)"
    using Cons.prems(3) by (simp_all flip: take_map drop_map)
  obtain rx' st' where p: "parsed (rx, st) (take ?n cs @ drop ?n cs) = rx' # parsed (rx', st') (drop ?n cs)" "idle rx' st'" "send_bytes rx' = send_bytes m"
    using parsed_message[OF Cons.prems(1) _ t(1), of "drop ?n cs"] Cons.prems(2) by auto
  then show ?case using Cons.IH[OF p(2) _ t(2)] Cons.prems(2) by simp
qed simp

section \<open>Messages through Decrypt\<close>

lemma dec_silent:
  assumes "core_run (dc_rx st, dc_status st) cs = (replicate (length cs) FRAMING_INCOMPLETE, rx', s')"
  shows "\<exists>st'. dec_feed cs st = ([], st') \<and> dc_rx st' = rx' \<and> dc_status st' = s' \<and> dc_buf st' = dc_buf st"
  using assms
proof (induction cs arbitrary: st)
  case (Cons c cs)
  obtain f rx1 s1 r rs where p: "mavlink_frame_char_buffer (dc_rx st) (dc_status st) c (dc_msg st) (dc_rstatus st) = (f, rx1, s1, r, rs)" by (metis surj_pair)
  have "mav_core (dc_rx st, dc_status st) c = (f, rx1, s1)" by (rule frame_char_core[OF p])
  then have f: "f = FRAMING_INCOMPLETE" "core_run (rx1, s1) cs = (replicate (length cs) FRAMING_INCOMPLETE, rx', s')"
    using Cons.prems by (auto simp: Let_def split: prod.splits)
  then show ?case
    using Cons.IH[of "st\<lparr>dc_c := c, dc_rx := rx1, dc_status := s1, dc_msg := r, dc_rstatus := rs\<rparr>"]
    by (auto simp: dec_char_def my_mavlink_parse_char_def p)
qed simp

lemma dec_message:
  assumes "idle (dc_rx st) (dc_status st)" "wf_frame m" "280 \<le> length (dc_buf st)"
  shows "\<exists>st'. dec_feed (send_bytes m) st = ([send_bytes m], st') \<and> idle (dc_rx st') (dc_status st') \<and> length (dc_buf st') = length (dc_buf st)"
proof -
  obtain pre c rx1 s1 rx' s' where m: "send_bytes m = pre @ [c]" "core_run (dc_rx st, dc_status st) pre = (replicate (length pre) FRAMING_INCOMPLETE, rx1, s1)"
    "mav_core (rx1, s1) c = (FRAMING_OK, rx', s')" "idle rx' s'" "send_bytes rx' = send_bytes m" using core_message[OF assms(1,2)] by blast
  obtain st1 where st1: "dec_feed pre st = ([], st1)" "dc_rx st1 = rx1" "dc_status st1 = s1" "dc_buf st1 = dc_buf st"
    using dec_silent[OF m(2)] by blast
  obtain f rx2 s2 r rs where p: "mavlink_frame_char_buffer rx1 s1 c (dc_msg st1) (dc_rstatus st1) = (f, rx2, s2, r, rs)" by (metis surj_pair)
  have f: "f = FRAMING_OK" "rx2 = rx'" "s2 = s'" using frame_char_core[OF p] m(3) by simp_all
  then have r: "r = rx'" using frame_ok_message p by metis
  have sz: "message_sizes rx'" using m(4) by (simp add: idle_def parser_inv_def)
  obtain len buf where sb: "mavlink_msg_to_send_buffer (dc_buf st) rx' = (len, buf)" by (cases "mavlink_msg_to_send_buffer (dc_buf st) rx'")
  have b: "unat len = length (send_bytes m)" "buf = memcpy (dc_buf st) 0 (send_bytes m)"
    using length_send_bytes(1)[OF sz, of "dc_buf st"] send_buffer_snd[of "dc_buf st" rx'] sb m(5) by simp_all
  have l: "length (send_bytes m) \<le> length (dc_buf st)" using length_send_bytes(2)[OF sz] m(5) assms(3) by simp
  have "dec_char c st1 = ([send_bytes m], st1\<lparr>dc_c := c, dc_rx := rx', dc_status := s', dc_msg := rx', dc_rstatus := rs, dc_buf := buf\<rparr>)"
    using p f r sb b l st1(2-4) by (simp add: dec_char_def my_mavlink_parse_char_def memcpy_def)
  then show ?thesis using m(1,4) st1(1) b(2) l by (simp add: dec_feed_append)
qed

lemma dec_messages:
  assumes "idle (dc_rx st) (dc_status st)" "\<forall>m \<in> set ms. wf_frame m" "280 \<le> length (dc_buf st)"
  shows "\<exists>k \<le> length ms. fst (dec_feed (take n (concat (map send_bytes ms))) st) = map send_bytes (take k ms) \<and>
    (k < length ms \<longrightarrow> n < length (concat (map send_bytes (take (Suc k) ms))))"
  using assms
proof (induction ms arbitrary: st n)
  case (Cons m ms)
  let ?l = "length (send_bytes m)"
  obtain pre c rx1 s1 where m: "send_bytes m = pre @ [c]" "core_run (dc_rx st, dc_status st) pre = (replicate (length pre) FRAMING_INCOMPLETE, rx1, s1)"
    using core_message[OF Cons.prems(1), of m] Cons.prems(2) by auto
  show ?case
  proof (cases "n < ?l")
    case True
    then have t: "take n (concat (map send_bytes (m # ms))) = take n pre" using m(1) by simp
    obtain fs rx2 s2 where r: "core_run (dc_rx st, dc_status st) (take n pre) = (fs, rx2, s2)" by (cases "core_run (dc_rx st, dc_status st) (take n pre)") auto
    obtain gs q where g: "core_run (rx2, s2) (drop n pre) = (gs, q)" by (cases "core_run (rx2, s2) (drop n pre)") auto
    have cat: "fs @ gs = replicate (length pre) FRAMING_INCOMPLETE"
      using m(2) core_run_append[of "(dc_rx st, dc_status st)" "take n pre" "drop n pre"] r g by simp
    have "length fs = length (take n pre)" using r length_core_run by (metis fst_conv)
    then have "fs = replicate (length (take n pre)) FRAMING_INCOMPLETE" using cat by (metis append_eq_conv_conj take_replicate min.absorb1 length_take min.cobounded1 min.commute)
    then show ?thesis using dec_silent[of st "take n pre"] r t True by (intro exI[of _ 0]) auto
  next
    case False
    then have t: "take n (concat (map send_bytes (m # ms))) = send_bytes m @ take (n - ?l) (concat (map send_bytes ms))" by simp
    obtain st' where d: "dec_feed (send_bytes m) st = ([send_bytes m], st')" "idle (dc_rx st') (dc_status st')" "length (dc_buf st') = length (dc_buf st)"
      using dec_message[OF Cons.prems(1) _ Cons.prems(3), of m] Cons.prems(2) by auto
    obtain k where k: "k \<le> length ms" "fst (dec_feed (take (n - ?l) (concat (map send_bytes ms))) st') = map send_bytes (take k ms)"
      "k < length ms \<longrightarrow> n - ?l < length (concat (map send_bytes (take (Suc k) ms)))"
      using Cons.IH[OF d(2), of "n - ?l"] Cons.prems(2,3) d(3) by auto
    show ?thesis unfolding t using k d(1) False by (intro exI[of _ "Suc k"]) (auto simp: dec_feed_append Let_def split_def)
  qed
qed simp

end
