(* ===== verification/Gec_Ke.thy ===== *)
theory Gec_Ke
  imports Gec_Props
begin

text \<open>
  The station-to-station key exchange of \<^verbatim>\<open>GEC-block/src/gec-ke.c\<close> and \<^verbatim>\<open>gec-ke.h\<close>.  The functions of the Ed25519
  library are the fields of a record \<open>P\<close>; a pair \<open>(buf, al)\<close> is the local array of \<^verbatim>\<open>aes_ctr_crypt\<close> and the outcome
  of its alignment test, one for each call of it.  An operation returns the C result, the context and its output buffers.
\<close>

abbreviation (input) KEY_MATERIAL_LEN :: nat where "KEY_MATERIAL_LEN \<equiv> 48"
abbreviation (input) EPHEMERAL_PUBLICKEY_LEN :: nat where "EPHEMERAL_PUBLICKEY_LEN \<equiv> 32"
abbreviation (input) EPHEMERAL_PRIVATEKEY_LEN :: nat where "EPHEMERAL_PRIVATEKEY_LEN \<equiv> 32"
abbreviation (input) RANDOM_DATA_LEN :: nat where "RANDOM_DATA_LEN \<equiv> 32"
abbreviation (input) GEC_SECRET_BYTES_LEN :: nat where "GEC_SECRET_BYTES_LEN \<equiv> 32"
abbreviation (input) GEC_SIG_LEN :: nat where "GEC_SIG_LEN \<equiv> 64"
abbreviation (input) GEC_HASH_LEN :: nat where "GEC_HASH_LEN \<equiv> 64"

record gec_prims =
  ed25519_publickey :: "bytes \<Rightarrow> bytes"
  ed25519_sign :: "bytes \<Rightarrow> bytes \<Rightarrow> bytes \<Rightarrow> bytes"
  ed25519_sign_open :: "bytes \<Rightarrow> bytes \<Rightarrow> bytes \<Rightarrow> int"

datatype stage_t = INVALID_STAGE | READY_STAGE | MESSAGE_1_DONE | MESSAGE_2_DONE

datatype party_t = INITIATOR | RESPONDER | CLIENT | INVALID_PARTY

primrec party_byte :: "party_t \<Rightarrow> u8" where
  "party_byte INITIATOR = 0"
| "party_byte RESPONDER = 1"
| "party_byte CLIENT = 2"
| "party_byte INVALID_PARTY = 3"

record gec_sts_ctx =
  myPublicKey :: gec_pubkey
  myPrivateKey :: gec_privkey
  theirPublicKey :: gec_pubkey
  myPublicKey_ephemeral :: bytes
  myPrivateKey_ephemeral :: bytes
  theirPublicKey_ephemeral :: bytes
  myKCK :: gec_sym_key_conf
  theirKCK :: gec_sym_key_conf
  client_key_material :: bytes
  protocol_stage :: stage_t
  party :: party_t

definition THEIR_PARTY :: "gec_sts_ctx \<Rightarrow> party_t" where
  "THEIR_PARTY ctx = (if party ctx = INITIATOR then RESPONDER else INITIATOR)"

section \<open>Clearing and resetting\<close>

text \<open>
  A \<^verbatim>\<open>memset\<close> of \<^verbatim>\<open>GEC_RAW_KEY_LEN\<close> bytes from the start of a key structure reaches the first six words of its key schedule;
  a \<^verbatim>\<open>memset\<close> of \<^verbatim>\<open>PRIVATEKEY_LEN\<close> bytes from the start of \<^verbatim>\<open>struct gec_privkey\<close> reaches its field \<^verbatim>\<open>priv\<close>.
\<close>

definition wipe_kck :: "gec_sym_key_conf \<Rightarrow> gec_sym_key_conf" where
  "wipe_kck k = k\<lparr>cctx := (cctx k)\<lparr>ks := memset (ks (cctx k)) 0 0 (GEC_RAW_KEY_LEN div 4)\<rparr>\<rparr>"

definition clear_ctx :: "gec_sts_ctx \<Rightarrow> gec_sts_ctx" where
  "clear_ctx ctx = ctx\<lparr>theirKCK := wipe_kck (theirKCK ctx),
     myKCK := wipe_kck (myKCK ctx),
     client_key_material := memset (client_key_material ctx) 0 0 KEY_MATERIAL_LEN,
     myPrivateKey_ephemeral := memset (myPrivateKey_ephemeral ctx) 0 0 EPHEMERAL_PRIVATEKEY_LEN,
     myPublicKey_ephemeral := memset (myPublicKey_ephemeral ctx) 0 0 EPHEMERAL_PUBLICKEY_LEN,
     theirPublicKey_ephemeral := memset (theirPublicKey_ephemeral ctx) 0 0 EPHEMERAL_PUBLICKEY_LEN,
     theirPublicKey := \<lparr>ppub = memset (ppub (theirPublicKey ctx)) 0 0 GEC_PUB_KEY_LEN\<rparr>,
     myPublicKey := \<lparr>ppub = memset (ppub (myPublicKey ctx)) 0 0 GEC_PUB_KEY_LEN\<rparr>,
     myPrivateKey := (myPrivateKey ctx)\<lparr>priv := memset (priv (myPrivateKey ctx)) 0 0 GEC_PRIV_KEY_LEN\<rparr>,
     protocol_stage := INVALID_STAGE,
     party := INVALID_PARTY\<rparr>"

definition reset_ctx :: "gec_sts_ctx \<Rightarrow> gec_sts_ctx" where
  "reset_ctx ctx = ctx\<lparr>theirKCK := wipe_kck (theirKCK ctx),
     myKCK := wipe_kck (myKCK ctx),
     client_key_material := memset (client_key_material ctx) 0 0 KEY_MATERIAL_LEN,
     myPrivateKey_ephemeral := memset (myPrivateKey_ephemeral ctx) 0 0 EPHEMERAL_PRIVATEKEY_LEN,
     myPublicKey_ephemeral := memset (myPublicKey_ephemeral ctx) 0 0 EPHEMERAL_PUBLICKEY_LEN,
     theirPublicKey_ephemeral := memset (theirPublicKey_ephemeral ctx) 0 0 EPHEMERAL_PUBLICKEY_LEN,
     protocol_stage := READY_STAGE,
     party := INVALID_PARTY\<rparr>"

section \<open>Key derivation\<close>

text \<open>
  One turn of the loop of \<^verbatim>\<open>kdf\<close>, on the result buffer, \<^verbatim>\<open>hash_input\<close> and \<^verbatim>\<open>bytes_remaining\<close>.  The callers ask for at most
  48 bytes, so the 16-bit \<^verbatim>\<open>count\<close> does not wrap; the last subtraction from \<^verbatim>\<open>bytes_remaining\<close> does.
\<close>

definition PUT16be :: "bytes \<Rightarrow> nat \<Rightarrow> bytes" where
  "PUT16be ptr cnt = ptr[1 := word_of_nat (cnt AND 0xFF), 0 := word_of_nat (drop_bit 8 cnt AND 0xFF)]"

definition kdf_turn :: "nat \<Rightarrow> bytes \<times> bytes \<times> u32 \<Rightarrow> bytes \<times> bytes \<times> u32" where
  "kdf_turn count s =
     (case s of (result, hash_input, bytes_remaining) \<Rightarrow>
        let hash_input = PUT16be hash_input count;
            tmp = ed25519_hash hash_input;
            result = (if GEC_HASH_LEN < unat bytes_remaining then memcpy result (count * GEC_HASH_LEN) tmp
                      else memcpy result (count * GEC_HASH_LEN) (take (unat bytes_remaining) tmp))
        in (result, hash_input, bytes_remaining - 64))"

definition kdf :: "bytes \<Rightarrow> u32 \<Rightarrow> bytes \<Rightarrow> u8 \<Rightarrow> bytes" where
  "kdf result result_size secret pbyte =
     (let nrReps = unat ((result_size + 64 - 1) div 64);
          hash_input = (replicate 35 0)[34 := pbyte];
          hash_input = memcpy hash_input 2 (take GEC_SECRET_BYTES_LEN secret)
      in fst (fold kdf_turn [0..<nrReps] (result, hash_input, result_size)))"

definition derive_key_materials :: "gec_sts_ctx \<Rightarrow> bytes \<Rightarrow> gec_sts_ctx" where
  "derive_key_materials ctx secret =
     (let tmp = kdf (replicate GEC_RAW_KEY_LEN 0) 24 secret (party_byte (party ctx));
          ctx = ctx\<lparr>myKCK := gec_init_sym_key_conf (myKCK ctx) tmp\<rparr>;
          tmp = memset tmp 0 0 GEC_RAW_KEY_LEN;
          tmp = kdf tmp 24 secret (party_byte (THEIR_PARTY ctx));
          ctx = ctx\<lparr>theirKCK := gec_init_sym_key_conf (theirKCK ctx) tmp\<rparr>
      in ctx\<lparr>client_key_material := kdf (client_key_material ctx) 48 secret (party_byte CLIENT)\<rparr>)"

section \<open>Long-term keys\<close>

definition verify :: "gec_prims \<Rightarrow> bytes \<times> bool \<Rightarrow> gec_sts_ctx \<Rightarrow> bytes \<Rightarrow> int \<times> gec_sts_ctx" where
  "verify P e ctx msg =
     (let signed_contents = take EPHEMERAL_PUBLICKEY_LEN (theirPublicKey_ephemeral ctx) @
            take EPHEMERAL_PUBLICKEY_LEN (myPublicKey_ephemeral ctx);
          (_, k, sig) = gec_decrypt_conf (fst e) (snd e) (theirKCK ctx) (take GEC_SIG_LEN msg) (replicate GEC_SIG_LEN 0)
      in (gec_verify (ed25519_sign_open P) (theirPublicKey ctx) signed_contents sig, ctx\<lparr>theirKCK := k\<rparr>))"

definition generate :: "gec_prims \<Rightarrow> gec_pubkey \<Rightarrow> gec_privkey \<Rightarrow> bytes \<Rightarrow> gec_pubkey \<times> gec_privkey" where
  "generate P pk sk random_data =
     (let sk = sk\<lparr>priv := memcpy (priv sk) 0 (take RANDOM_DATA_LEN random_data)\<rparr>;
          (sk, pk) = gec_generate_sign_keypair (ed25519_publickey P) sk pk
      in (pk, sk))"

definition init_context :: "gec_sts_ctx \<Rightarrow> gec_pubkey \<Rightarrow> gec_privkey \<Rightarrow> gec_pubkey \<Rightarrow> gec_sts_ctx" where
  "init_context ctx my_pub my_priv their_pub =
     ctx\<lparr>protocol_stage := READY_STAGE, party := INVALID_PARTY, myPublicKey := my_pub, myPrivateKey := my_priv,
         theirPublicKey := their_pub\<rparr>"

definition reset_partner :: "gec_sts_ctx \<Rightarrow> gec_pubkey \<Rightarrow> gec_sts_ctx" where
  "reset_partner ctx their_pub = reset_ctx (ctx\<lparr>theirPublicKey := their_pub\<rparr>)"

section \<open>The three messages\<close>

definition ephemeral_keys :: "bytes \<Rightarrow> gec_sts_ctx \<Rightarrow> gec_sts_ctx" where
  "ephemeral_keys random_data ctx =
     (let ctx = ctx\<lparr>myPrivateKey_ephemeral := memcpy (myPrivateKey_ephemeral ctx) 0 (take RANDOM_DATA_LEN random_data)\<rparr>
      in ctx\<lparr>myPublicKey_ephemeral := gec_generate_ephemeral_keypair (myPrivateKey_ephemeral ctx) (myPublicKey_ephemeral ctx)\<rparr>)"

text \<open>The signature a party sends: over its own ephemeral key and the partner's, encrypted into \<open>out\<close> at \<open>off\<close>.\<close>

definition send_signature :: "gec_prims \<Rightarrow> bytes \<times> bool \<Rightarrow> gec_sts_ctx \<Rightarrow> bytes \<Rightarrow> nat \<Rightarrow> gec_sts_ctx \<times> bytes" where
  "send_signature P e ctx out off =
     (let unsigned_data = take EPHEMERAL_PUBLICKEY_LEN (myPublicKey_ephemeral ctx) @
            take EPHEMERAL_PUBLICKEY_LEN (theirPublicKey_ephemeral ctx);
          sig = gec_sign (ed25519_sign P) (myPrivateKey ctx) unsigned_data;
          (_, k, c) = gec_encrypt_conf (fst e) (snd e) (myKCK ctx) sig (drop off out)
      in (ctx\<lparr>myKCK := k\<rparr>, take off out @ c))"

definition initiate_sts :: "bytes \<Rightarrow> gec_sts_ctx \<Rightarrow> bytes \<Rightarrow> int \<times> gec_sts_ctx \<times> bytes" where
  "initiate_sts msg1 ctx random_data =
     (if protocol_stage ctx = READY_STAGE then
        let ctx = ephemeral_keys random_data ctx;
            msg1 = memcpy msg1 0 (take EPHEMERAL_PUBLICKEY_LEN (myPublicKey_ephemeral ctx))
        in (0, ctx\<lparr>protocol_stage := MESSAGE_1_DONE, party := INITIATOR\<rparr>, msg1)
      else (-1, ctx, msg1))"

definition respond_sts :: "gec_prims \<Rightarrow> bytes \<times> bool \<Rightarrow> bytes \<Rightarrow> bytes \<Rightarrow> gec_sts_ctx \<Rightarrow> bytes \<Rightarrow> int \<times> gec_sts_ctx \<times> bytes" where
  "respond_sts P e msg1 msg2 ctx random_data =
     (if protocol_stage ctx = READY_STAGE then
        let ctx = ephemeral_keys random_data (ctx\<lparr>party := RESPONDER\<rparr>);
            ctx = ctx\<lparr>theirPublicKey_ephemeral := memcpy (theirPublicKey_ephemeral ctx) 0 (take EPHEMERAL_PUBLICKEY_LEN msg1)\<rparr>;
            z = gec_ecdh (replicate GEC_SECRET_BYTES_LEN 0) (theirPublicKey_ephemeral ctx) (myPrivateKey_ephemeral ctx);
            ctx = derive_key_materials ctx z;
            msg2 = memcpy msg2 0 (take EPHEMERAL_PUBLICKEY_LEN (myPublicKey_ephemeral ctx));
            (ctx, msg2) = send_signature P e ctx msg2 EPHEMERAL_PUBLICKEY_LEN
        in (0, ctx\<lparr>protocol_stage := MESSAGE_2_DONE\<rparr>, msg2)
      else (-1, ctx, msg2))"

definition response_ack_sts :: "gec_prims \<Rightarrow> bytes \<times> bool \<Rightarrow> bytes \<times> bool \<Rightarrow> bytes \<Rightarrow> bytes \<Rightarrow> gec_sts_ctx \<Rightarrow> bytes \<Rightarrow>
    int \<times> gec_sts_ctx \<times> bytes \<times> bytes" where
  "response_ack_sts P e1 e2 msg2 msg3 ctx key_material =
     (if protocol_stage ctx = MESSAGE_1_DONE then
        let ctx = ctx\<lparr>theirPublicKey_ephemeral := memcpy (theirPublicKey_ephemeral ctx) 0 (take EPHEMERAL_PUBLICKEY_LEN msg2)\<rparr>;
            z = gec_ecdh (replicate GEC_SECRET_BYTES_LEN 0) (theirPublicKey_ephemeral ctx) (myPrivateKey_ephemeral ctx);
            ctx = derive_key_materials ctx z;
            (sig_result, ctx) = verify P e1 ctx (drop EPHEMERAL_PUBLICKEY_LEN msg2)
        in if sig_result \<noteq> 0 then (-1, ctx, msg3, key_material)
           else
             let (ctx, msg3) = send_signature P e2 ctx msg3 0;
                 key_material = memcpy key_material 0 (take KEY_MATERIAL_LEN (client_key_material ctx))
             in (0, reset_ctx ctx, msg3, key_material)
      else (-1, ctx, msg3, key_material))"

definition finish_sts :: "gec_prims \<Rightarrow> bytes \<times> bool \<Rightarrow> bytes \<Rightarrow> gec_sts_ctx \<Rightarrow> bytes \<Rightarrow> int \<times> gec_sts_ctx \<times> bytes" where
  "finish_sts P e msg3 ctx key_material =
     (if protocol_stage ctx = MESSAGE_2_DONE then
        let (r, ctx) = verify P e ctx msg3
        in if r \<noteq> 0 then (-1, ctx, key_material)
           else (0, reset_ctx ctx, memcpy key_material 0 (take KEY_MATERIAL_LEN (client_key_material ctx)))
      else (-1, ctx, key_material))"

end
