(* ===== verification/Gec_Ke_Props.thy ===== *)
theory Gec_Ke_Props
  imports Gec_Ke
begin

text \<open>
  Correctness of the key exchange: what the key derivation computes, agreement of the two parties, what each party checks before
  it hands out key material, and the stages as a state machine.
\<close>

section \<open>Key derivation\<close>

definition kdf_block :: "bytes \<Rightarrow> party_t \<Rightarrow> bytes" where
  "kdf_block z p = sha512 ([0, 0] @ z @ [party_byte p])"

lemma kdf_short:
  assumes "length secret = 32" "0 < unat n" "unat n \<le> 64" "length result = unat n"
  shows "kdf result n secret pb = take (unat n) (sha512 ([0, 0] @ secret @ [pb]))"
proof -
  have "63 + n = word_of_nat (63 + unat n)" by simp
  then have "unat (63 + n) = 63 + unat n" using assms(3) by (simp only: unsigned_of_nat) (simp add: take_bit_nat_eq_self)
  moreover have "(63 + unat n) div 64 = 1" by (rule div_nat_eqI) (use assms(2,3) in simp_all)
  ultimately have "unat ((n + 64 - 1) div 64) = 1" by (simp add: unat_div)
  moreover have "(replicate 35 0)[34 := pb] = replicate 34 0 @ [pb]" by (simp add: numeral_eq_Suc)
  ultimately show ?thesis using assms
    by (simp add: kdf_def kdf_turn_def ed25519_hash_eq PUT16be_def Let_def memcpy_def) (simp add: numeral_eq_Suc)
qed

text \<open>
  What the exchange relies on of Ed25519: a signature has 64 bytes and verifies under the public key of its secret key.
\<close>

definition prims_ok :: "gec_prims \<Rightarrow> bool" where
  "prims_ok P \<longleftrightarrow>
     (\<forall>m sk. ed25519_sign_open P m (ed25519_publickey P sk) (ed25519_sign P m sk (ed25519_publickey P sk)) = 0) \<and>
     (\<forall>m sk pk. length (ed25519_sign P m sk pk) = 64)"

text \<open>Arrays of the sizes of \<^verbatim>\<open>gec-ke.h\<close>.\<close>

definition sts_shape :: "gec_sts_ctx \<Rightarrow> bool" where
  "sts_shape ctx \<longleftrightarrow> length (ks (cctx (myKCK ctx))) = 44 \<and> length (ks (cctx (theirKCK ctx))) = 44 \<and>
     length (myPublicKey_ephemeral ctx) = 32 \<and> length (myPrivateKey_ephemeral ctx) = 32 \<and>
     length (theirPublicKey_ephemeral ctx) = 32 \<and> length (client_key_material ctx) = 48"

definition raw_kck :: "bytes \<Rightarrow> party_t \<Rightarrow> bytes" where
  "raw_kck z p = take 24 (kdf_block z p)"

definition session_key :: "bytes \<Rightarrow> bytes" where
  "session_key z = take 48 (kdf_block z CLIENT)"

lemma derive_key_materials_val:
  assumes "length z = 32" "length (client_key_material ctx) = 48"
  shows "derive_key_materials ctx z =
    ctx\<lparr>myKCK := gec_init_sym_key_conf (myKCK ctx) (raw_kck z (party ctx)),
        theirKCK := gec_init_sym_key_conf (theirKCK ctx) (raw_kck z (THEIR_PARTY ctx)),
        client_key_material := session_key z\<rparr>"
proof -
  have k: "kdf r 24 z (party_byte p) = raw_kck z p" if "length r = 24" for r p
    using kdf_short[OF assms(1), of 24 r] that by (simp add: raw_kck_def kdf_block_def)
  have "kdf (client_key_material ctx) 48 z (party_byte CLIENT) = session_key z"
    using kdf_short[OF assms(1), of 48 "client_key_material ctx"] assms(2) by (simp add: session_key_def kdf_block_def)
  moreover have "length (raw_kck z p) = 24" for p by (simp add: raw_kck_def kdf_block_def)
  ultimately show ?thesis by (simp add: derive_key_materials_def Let_def k THEIR_PARTY_def del: party_byte.simps)
qed

section \<open>Messages\<close>

lemma length_gec_stream [simp]: "length (gec_stream raw xs) = length xs"
  by (simp add: gec_stream_def)

lemma gec_stream_twice [simp]: "gec_stream raw (gec_stream raw xs) = xs"
  by (auto simp: gec_stream_def xor.assoc intro!: nth_equalityI)

text \<open>Sending and checking a signature with freshly derived keys.\<close>

lemma send_signature_val:
  assumes "gec_conf_fresh raw (myKCK ctx)" "length (fst e) = 128" "length out = off + 64" "prims_ok P"
    and "sig = ed25519_sign P (take 32 (myPublicKey_ephemeral ctx) @ take 32 (theirPublicKey_ephemeral ctx)) (priv (myPrivateKey ctx)) (pub (myPrivateKey ctx))"
  shows "\<exists>k. send_signature P e ctx out off = (ctx\<lparr>myKCK := k\<rparr>, take off out @ gec_stream raw sig)"
proof -
  have l: "length sig = 64" using assms(4,5) by (simp add: prims_ok_def)
  have "length sig \<le> length (drop off out)" using assms(3) l by simp
  from gec_conf_val[OF assms(1,2) this, of "snd e"] show ?thesis
    using l assms(3,5) by (auto simp: send_signature_def gec_sign_def Let_def)
qed

lemma verify_val:
  assumes "gec_conf_fresh raw (theirKCK ctx)" "length (fst e) = 128" "length msg = 64"
  shows "\<exists>k. verify P e ctx msg =
    (gec_verify (ed25519_sign_open P) (theirPublicKey ctx)
       (take 32 (theirPublicKey_ephemeral ctx) @ take 32 (myPublicKey_ephemeral ctx)) (gec_stream raw msg), ctx\<lparr>theirKCK := k\<rparr>)"
  using gec_conf_val[OF assms(1,2), of msg "replicate 64 0" "snd e"] assms(3) by (auto simp: verify_def gec_decrypt_conf_def)

abbreviation eph_pub :: "bytes \<Rightarrow> bytes" where
  "eph_pub r \<equiv> x25519 r gec_basepoint"

lemma initiate_sts_val:
  assumes "sts_shape a" "protocol_stage a = READY_STAGE" "length r = 32" "length msg1 = 32"
  shows "initiate_sts msg1 a r = (0, a\<lparr>myPrivateKey_ephemeral := r, myPublicKey_ephemeral := eph_pub r,
    protocol_stage := MESSAGE_1_DONE, party := INITIATOR\<rparr>, eph_pub r)"
  using assms by (simp add: initiate_sts_def ephemeral_keys_def Let_def gec_curve_vals sts_shape_def prims_ok_def)

lemma fresh_kcks:
  assumes "sts_shape ctx"
  shows "gec_conf_fresh raw (gec_init_sym_key_conf (myKCK ctx) raw)" "gec_conf_fresh raw (gec_init_sym_key_conf (theirKCK ctx) raw)"
  using assms by (simp_all add: sts_shape_def gec_conf_fresh_init)

text \<open>The responder's context between its two steps.\<close>

definition sts_waiting :: "gec_sts_ctx \<Rightarrow> bytes \<Rightarrow> bytes \<Rightarrow> gec_sts_ctx \<Rightarrow> bool" where
  "sts_waiting b r x b' \<longleftrightarrow> protocol_stage b' = MESSAGE_2_DONE \<and>
     gec_conf_fresh (raw_kck (x25519 r x) INITIATOR) (theirKCK b') \<and>
     client_key_material b' = session_key (x25519 r x) \<and>
     myPublicKey_ephemeral b' = eph_pub r \<and> theirPublicKey_ephemeral b' = x \<and> theirPublicKey b' = theirPublicKey b"

lemma respond_sts_val:
  assumes "sts_shape b" "protocol_stage b = READY_STAGE" "length r = 32" "length x = 32" "length msg2 = 96" "prims_ok P" "length (fst e) = 128"
    and z: "z = x25519 r x"
  shows "\<exists>b'. respond_sts P e x msg2 b r = (0, b', eph_pub r @ gec_stream (raw_kck z RESPONDER)
      (ed25519_sign P (eph_pub r @ x) (priv (myPrivateKey b)) (pub (myPrivateKey b)))) \<and> sts_waiting b r x b'"
proof -
  have l: "length (x25519 u v) = 32" for u v using assms(6) by (simp add: prims_ok_def)
  define b0 where "b0 = b\<lparr>party := RESPONDER, myPrivateKey_ephemeral := r, myPublicKey_ephemeral := eph_pub r, theirPublicKey_ephemeral := x\<rparr>"
  have p: "party b0 = RESPONDER" "THEIR_PARTY b0 = INITIATOR" "sts_shape b0" using assms(1,3,4) l by (simp_all add: b0_def THEIR_PARTY_def sts_shape_def)
  define b1 where "b1 = derive_key_materials b0 z"
  have b1: "b1 = b0\<lparr>myKCK := gec_init_sym_key_conf (myKCK b0) (raw_kck z RESPONDER),
      theirKCK := gec_init_sym_key_conf (theirKCK b0) (raw_kck z INITIATOR), client_key_material := session_key z\<rparr>"
    using derive_key_materials_val[of z b0] assms(6) l p by (simp add: b1_def z sts_shape_def)
  have m: "memcpy msg2 0 (eph_pub r) = eph_pub r @ drop 32 msg2" by (simp add: memcpy_def l)
  obtain k where k: "send_signature P e b1 (eph_pub r @ drop 32 msg2) 32 = (b1\<lparr>myKCK := k\<rparr>,
      eph_pub r @ gec_stream (raw_kck z RESPONDER) (ed25519_sign P (eph_pub r @ x) (priv (myPrivateKey b)) (pub (myPrivateKey b))))"
    using send_signature_val[of "raw_kck z RESPONDER" b1 e "eph_pub r @ drop 32 msg2" 32 P] assms(4-7) l fresh_kcks[OF p(3)]
    by (auto simp: b1 b0_def)
  have d: "derive_key_materials (b\<lparr>party := RESPONDER, myPrivateKey_ephemeral := r, myPublicKey_ephemeral := eph_pub r,
      theirPublicKey_ephemeral := x\<rparr>) (x25519 r x) = b1" by (simp add: b1_def b0_def z)
  have "myPublicKey_ephemeral b1 = eph_pub r" by (simp add: b1 b0_def)
  then have "respond_sts P e x msg2 b r = (0, b1\<lparr>myKCK := k, protocol_stage := MESSAGE_2_DONE\<rparr>,
      eph_pub r @ gec_stream (raw_kck z RESPONDER) (ed25519_sign P (eph_pub r @ x) (priv (myPrivateKey b)) (pub (myPrivateKey b))))"
    using assms(1-5)
    by (simp add: k l m d respond_sts_def ephemeral_keys_def gec_curve_vals Let_def sts_shape_def)
  then show ?thesis using fresh_kcks[OF p(3)] by (auto simp: sts_waiting_def b1 z b0_def)
qed

text \<open>
  The initiator's second step and the responder's: key material is handed out exactly when the decrypted signature verifies.
\<close>

lemma response_ack_sts_val:
  assumes "sts_shape a" "protocol_stage a = MESSAGE_1_DONE" "party a = INITIATOR" "length y = 32" "length s = 64" "length msg3 = 64"
    "length km = 48" "prims_ok P" "length (fst e1) = 128" "length (fst e2) = 128"
    and z: "z = x25519 (myPrivateKey_ephemeral a) y"
  shows "\<exists>a'. if ed25519_sign_open P (y @ myPublicKey_ephemeral a) (ppub (theirPublicKey a)) (gec_stream (raw_kck z RESPONDER) s) = 0
    then response_ack_sts P e1 e2 (y @ s) msg3 a km = (0, reset_ctx a', gec_stream (raw_kck z INITIATOR)
        (ed25519_sign P (myPublicKey_ephemeral a @ y) (priv (myPrivateKey a)) (pub (myPrivateKey a))), session_key z)
    else response_ack_sts P e1 e2 (y @ s) msg3 a km = (-1, a', msg3, km) \<and> protocol_stage a' = MESSAGE_1_DONE"
proof -
  have l: "length (x25519 u v) = 32" for u v using assms(8) by (simp add: prims_ok_def)
  define a0 where "a0 = a\<lparr>theirPublicKey_ephemeral := y\<rparr>"
  have p: "party a0 = INITIATOR" "THEIR_PARTY a0 = RESPONDER" "sts_shape a0" using assms(1,3,4) by (simp_all add: a0_def THEIR_PARTY_def sts_shape_def)
  define a1 where "a1 = derive_key_materials a0 z"
  have a1: "a1 = a0\<lparr>myKCK := gec_init_sym_key_conf (myKCK a0) (raw_kck z INITIATOR),
      theirKCK := gec_init_sym_key_conf (theirKCK a0) (raw_kck z RESPONDER), client_key_material := session_key z\<rparr>"
    using derive_key_materials_val[of z a0] assms(8) l p by (simp add: a1_def z sts_shape_def)
  define ok where "ok = ed25519_sign_open P (y @ myPublicKey_ephemeral a) (ppub (theirPublicKey a)) (gec_stream (raw_kck z RESPONDER) s)"
  obtain k where k: "verify P e1 a1 s = (if ok = 0 then GEC_SUCCESS else GEC_ERROR_INVALID, a1\<lparr>theirKCK := k\<rparr>)"
    using verify_val[of "raw_kck z RESPONDER" a1 e1 s P] fresh_kcks[OF p(3)] assms(1,4,5,9)
    by (auto simp: a1 a0_def gec_verify_def Let_def ok_def sts_shape_def)
  obtain k2 where k2: "send_signature P e2 (a1\<lparr>theirKCK := k\<rparr>) msg3 0 = (a1\<lparr>theirKCK := k, myKCK := k2\<rparr>, gec_stream (raw_kck z INITIATOR)
      (ed25519_sign P (myPublicKey_ephemeral a @ y) (priv (myPrivateKey a)) (pub (myPrivateKey a))))"
    using send_signature_val[of "raw_kck z INITIATOR" "a1\<lparr>theirKCK := k\<rparr>" e2 msg3 0 P] fresh_kcks[OF p(3)] assms(1,4,6,8,10)
    by (auto simp: a1 a0_def sts_shape_def)
  have d: "derive_key_materials (a\<lparr>theirPublicKey_ephemeral := y\<rparr>) (x25519 (myPrivateKey_ephemeral a) y) = a1"
    by (simp add: a1_def a0_def z)
  have c: "client_key_material a1 = session_key z" "length (session_key z) = 48" "protocol_stage a1 = MESSAGE_1_DONE"
    using assms(2,8) by (simp_all add: a1 a0_def session_key_def kdf_block_def prims_ok_def)
  have "response_ack_sts P e1 e2 (y @ s) msg3 a km =
      (if ok = 0 then (0, reset_ctx (a1\<lparr>theirKCK := k, myKCK := k2\<rparr>), gec_stream (raw_kck z INITIATOR)
        (ed25519_sign P (myPublicKey_ephemeral a @ y) (priv (myPrivateKey a)) (pub (myPrivateKey a))), session_key z)
       else (-1, a1\<lparr>theirKCK := k\<rparr>, msg3, km))"
    using assms(1,2,4,7) by (simp add: response_ack_sts_def Let_def gec_curve_vals sts_shape_def k k2 d c)
  then show ?thesis using c(3) by (cases "ok = 0") (auto simp: ok_def)
qed

lemma finish_sts_val:
  assumes "protocol_stage b = MESSAGE_2_DONE" "gec_conf_fresh raw (theirKCK b)" "length s = 64" "length km = 48" "length (fst e) = 128"
    "length (client_key_material b) = 48" "length (theirPublicKey_ephemeral b) = 32" "length (myPublicKey_ephemeral b) = 32"
  shows "\<exists>b'. if ed25519_sign_open P (theirPublicKey_ephemeral b @ myPublicKey_ephemeral b) (ppub (theirPublicKey b)) (gec_stream raw s) = 0
    then finish_sts P e s b km = (0, reset_ctx b', client_key_material b)
    else finish_sts P e s b km = (-1, b', km) \<and> protocol_stage b' = MESSAGE_2_DONE"
proof -
  obtain k where "verify P e b s = (gec_verify (ed25519_sign_open P) (theirPublicKey b)
      (theirPublicKey_ephemeral b @ myPublicKey_ephemeral b) (gec_stream raw s), b\<lparr>theirKCK := k\<rparr>)"
    using verify_val[OF assms(2,5,3), of P] assms(7,8) by auto
  then show ?thesis using assms by (auto simp: finish_sts_def gec_verify_def Let_def)
qed

section \<open>Agreement\<close>

text \<open>A party with its long-term keys, ready for a run.\<close>

definition sts_ready :: "gec_prims \<Rightarrow> bytes \<Rightarrow> bytes \<Rightarrow> gec_sts_ctx \<Rightarrow> bool" where
  "sts_ready P mine theirs ctx \<longleftrightarrow> sts_shape ctx \<and> protocol_stage ctx = READY_STAGE \<and>
     myPrivateKey ctx = \<lparr>priv = mine, pub = ed25519_publickey P mine\<rparr> \<and> theirPublicKey ctx = \<lparr>ppub = ed25519_publickey P theirs\<rparr>"

lemma sts_run_agrees:
  assumes "prims_ok P" "sts_ready P sa sb a" "sts_ready P sb sa b"
    "length ra = 32" "length rb = 32" "length msg1 = 32" "length msg2 = 96" "length msg3 = 64" "length ka = 48" "length kb = 48"
    "length (fst e1) = 128" "length (fst e2) = 128" "length (fst e3) = 128" "length (fst e4) = 128"
    and dh: "x25519 ra (eph_pub rb) = x25519 rb (eph_pub ra)"
  shows "\<exists>a1 m1 b1 m2 a2 m3 b2.
    initiate_sts msg1 a ra = (0, a1, m1) \<and>
    respond_sts P e1 m1 msg2 b rb = (0, b1, m2) \<and>
    response_ack_sts P e2 e3 m2 msg3 a1 ka = (0, a2, m3, session_key (x25519 rb (eph_pub ra))) \<and>
    finish_sts P e4 m3 b1 kb = (0, b2, session_key (x25519 rb (eph_pub ra))) \<and>
    protocol_stage a2 = READY_STAGE \<and> protocol_stage b2 = READY_STAGE"
proof -
  let ?z = "x25519 rb (eph_pub ra)" and ?ea = "eph_pub ra" and ?eb = "eph_pub rb"
  have l: "length (x25519 u v) = 32" "length (ed25519_sign P m k q) = 64" for u v m k q
    using assms(1) by (simp_all add: prims_ok_def)
  have sig: "ed25519_sign_open P m (ed25519_publickey P k) (ed25519_sign P m k (ed25519_publickey P k)) = 0" for m k
    using assms(1) by (simp add: prims_ok_def)
  have ra: "sts_shape a" "protocol_stage a = READY_STAGE" and rb: "sts_shape b" "protocol_stage b = READY_STAGE"
    using assms(2,3) by (simp_all add: sts_ready_def)
  define a1 where "a1 = a\<lparr>myPrivateKey_ephemeral := ra, myPublicKey_ephemeral := ?ea, protocol_stage := MESSAGE_1_DONE, party := INITIATOR\<rparr>"
  have a1: "initiate_sts msg1 a ra = (0, a1, ?ea)" using initiate_sts_val[OF ra assms(4,6)] by (simp add: a1_def)
  have a1s: "sts_shape a1" "protocol_stage a1 = MESSAGE_1_DONE" "party a1 = INITIATOR"
    using ra(1) l(1) assms(4) by (simp_all add: a1_def sts_shape_def)
  let ?sb = "gec_stream (raw_kck ?z RESPONDER) (ed25519_sign P (?eb @ ?ea) sb (ed25519_publickey P sb))"
  obtain b1 where b1: "respond_sts P e1 ?ea msg2 b rb = (0, b1, ?eb @ ?sb)" "sts_waiting b rb ?ea b1"
    using respond_sts_val[OF rb assms(5) l(1)[of ra gec_basepoint] assms(7,1,11) refl] assms(3) by (auto simp: sts_ready_def)
  let ?sa = "gec_stream (raw_kck ?z INITIATOR) (ed25519_sign P (?ea @ ?eb) sa (ed25519_publickey P sa))"
  obtain a2 where a2: "response_ack_sts P e2 e3 (?eb @ ?sb) msg3 a1 ka = (0, reset_ctx a2, ?sa, session_key ?z)"
    using response_ack_sts_val[OF a1s l(1)[of rb gec_basepoint] _ assms(8,9,1,12,13) refl, of "?sb"] assms(2) l(2) dh sig
    by (auto simp: a1_def sts_ready_def)
  have "length (session_key ?z) = 48" by (simp add: session_key_def kdf_block_def l)
  then obtain b2 where "finish_sts P e4 ?sa b1 kb = (0, reset_ctx b2, session_key ?z)"
    using finish_sts_val[of b1 "raw_kck ?z INITIATOR" ?sa kb e4 P] b1(2) assms(3,10,14) l sig by (auto simp: sts_waiting_def sts_ready_def)
  with a1 b1(1) a2 show ?thesis by (auto simp: reset_ctx_def)
qed

text \<open>
  Property C3 (functional): the station-to-station exchange works.  Two parties that know each other's public keys and carry their
  three messages faithfully both return 0 from every step, whatever random bytes they draw, as long as X25519 commutes on them (the
  Diffie-Hellman property of the curve), and whatever their output buffers held; the key material that \<^verbatim>\<open>response_ack_sts\<close> and \<^verbatim>\<open>finish_sts\<close> return is the same 48 bytes of the hash of their
  shared secret, and both contexts are ready for another run.
\<close>

theorem sts_agreement:
  assumes "prims_ok P" "sts_ready P sa sb a" "sts_ready P sb sa b"
    "length ra = 32" "length rb = 32" "length msg1 = 32" "length msg2 = 96" "length msg3 = 64" "length ka = 48" "length kb = 48"
    "length (fst e1) = 128" "length (fst e2) = 128" "length (fst e3) = 128" "length (fst e4) = 128"
    and dh: "x25519 ra (eph_pub rb) = x25519 rb (eph_pub ra)"
  shows "\<exists>a1 m1 b1 m2 a2 m3 b2.
    initiate_sts msg1 a ra = (0, a1, m1) \<and>
    respond_sts P e1 m1 msg2 b rb = (0, b1, m2) \<and>
    response_ack_sts P e2 e3 m2 msg3 a1 ka = (0, a2, m3, session_key (x25519 rb (eph_pub ra))) \<and>
    finish_sts P e4 m3 b1 kb = (0, b2, session_key (x25519 rb (eph_pub ra))) \<and>
    protocol_stage a2 = READY_STAGE \<and> protocol_stage b2 = READY_STAGE"
  using sts_run_agrees[OF assms] .

text \<open>Functions with the assumed laws exist: a constant signature verifies.\<close>

definition toy_prims :: gec_prims where
  "toy_prims = \<lparr>ed25519_publickey = (\<lambda>sk. sk), ed25519_sign = (\<lambda>m sk pk. replicate 64 1),
     ed25519_sign_open = (\<lambda>m pk sig. if sig = replicate 64 1 then 0 else -1)\<rparr>"

lemma toy_prims_ok: "prims_ok toy_prims"
  by (auto simp: prims_ok_def toy_prims_def ac_simps)

definition toy_party :: gec_sts_ctx where
  "toy_party = \<lparr>myPublicKey = \<lparr>ppub = replicate 32 0\<rparr>, myPrivateKey = \<lparr>priv = [], pub = []\<rparr>, theirPublicKey = \<lparr>ppub = []\<rparr>,
     myPublicKey_ephemeral = replicate 32 0, myPrivateKey_ephemeral = replicate 32 0, theirPublicKey_ephemeral = replicate 32 0,
     myKCK = blank_conf, theirKCK = blank_conf, client_key_material = replicate 48 0, protocol_stage = INVALID_STAGE, party = CLIENT\<rparr>"

lemma toy_party_ready:
  "sts_ready toy_prims mine theirs (init_context toy_party pk \<lparr>priv = mine, pub = mine\<rparr> \<lparr>ppub = theirs\<rparr>)"
  by (simp add: sts_ready_def sts_shape_def init_context_def toy_party_def toy_prims_def blank_conf_def gec_clear_conf_def)

text \<open>Two secrets that differ in the three bits that clamping clears.\<close>

lemma toy_dh: "x25519 (3 # replicate 31 4) (eph_pub (replicate 32 4)) = x25519 (replicate 32 4) (eph_pub (3 # replicate 31 4))"
proof -
  have d: "decode_scalar (a # xs) = le_int ((a AND 248) # xs[30 := xs ! 30 AND 127 OR 64])" for a xs
    by (simp add: decode_scalar_def)
  have "3 AND 248 = (4 AND 248 :: u8)" by simp
  then have "decode_scalar (3 # replicate 31 4) = decode_scalar (4 # replicate 31 4)" by (simp only: d)
  moreover have "replicate 32 (4 :: u8) = 4 # replicate 31 4" using replicate_Suc[of 31 "4 :: u8"] by simp
  ultimately have "decode_scalar (3 # replicate 31 4) = decode_scalar (replicate 32 4)" by (simp only:)
  from x25519_clamp[OF this] show ?thesis by (simp only:)
qed

theorem sts_agreement_witness:
  "\<exists>a1 m1 b1 m2 a2 m3 b2.
    initiate_sts (replicate 32 0) (init_context toy_party \<lparr>ppub = []\<rparr> \<lparr>priv = [1], pub = [1]\<rparr> \<lparr>ppub = [2]\<rparr>) (3 # replicate 31 4) = (0, a1, m1) \<and>
    respond_sts toy_prims (replicate 128 0, True) m1 (replicate 96 0) (init_context toy_party \<lparr>ppub = []\<rparr> \<lparr>priv = [2], pub = [2]\<rparr> \<lparr>ppub = [1]\<rparr>)
      (replicate 32 4) = (0, b1, m2) \<and>
    response_ack_sts toy_prims (replicate 128 0, True) (replicate 128 0, True) m2 (replicate 64 0) a1 (replicate 48 0) =
      (0, a2, m3, session_key (x25519 (replicate 32 4) (eph_pub (3 # replicate 31 4)))) \<and>
    finish_sts toy_prims (replicate 128 0, True) m3 b1 (replicate 48 0) =
      (0, b2, session_key (x25519 (replicate 32 4) (eph_pub (3 # replicate 31 4)))) \<and>
    protocol_stage a2 = READY_STAGE \<and> protocol_stage b2 = READY_STAGE"
  by (rule sts_agreement[OF toy_prims_ok toy_party_ready toy_party_ready]) (simp_all add: toy_dh)

section \<open>Authentication\<close>

text \<open>
  Property C5 (safety): key material leaves the exchange only after authentication.  Whatever message arrives, \<^verbatim>\<open>response_ack_sts\<close> of an
  initiator and \<^verbatim>\<open>finish_sts\<close> of a responder return 0 and key material exactly when the signature decrypted from it verifies,
  under the partner's long-term key, over the partner's ephemeral key followed by the own one; otherwise they return
  -1, write neither the reply nor the key buffer and stay in their stage.
\<close>

theorem sts_key_only_after_verification:
  assumes "prims_ok P" "sts_shape a" "protocol_stage a = MESSAGE_1_DONE" "party a = INITIATOR" "length y = 32" "length s = 64"
    "length msg3 = 64" "length km = 48" "length (fst e1) = 128" "length (fst e2) = 128"
    and "sts_waiting b0 r x b" "length x = 32"
    and za: "za = x25519 (myPrivateKey_ephemeral a) y" and zb: "zb = x25519 r x"
  shows "(if ed25519_sign_open P (y @ myPublicKey_ephemeral a) (ppub (theirPublicKey a)) (gec_stream (raw_kck za RESPONDER) s) = 0
      then \<exists>a' m3. response_ack_sts P e1 e2 (y @ s) msg3 a km = (0, reset_ctx a', m3, session_key za)
      else \<exists>a'. response_ack_sts P e1 e2 (y @ s) msg3 a km = (-1, a', msg3, km) \<and> protocol_stage a' = MESSAGE_1_DONE) \<and>
    (if ed25519_sign_open P (x @ eph_pub r) (ppub (theirPublicKey b0)) (gec_stream (raw_kck zb INITIATOR) s) = 0
      then \<exists>b'. finish_sts P e1 s b km = (0, reset_ctx b', session_key zb)
      else \<exists>b'. finish_sts P e1 s b km = (-1, b', km) \<and> protocol_stage b' = MESSAGE_2_DONE)"
proof -
  have "length (session_key z) = 48" "length (eph_pub r) = 32" for z using assms(1) by (simp_all add: session_key_def kdf_block_def prims_ok_def)
  then have fin: "\<exists>b'. if ed25519_sign_open P (x @ eph_pub r) (ppub (theirPublicKey b0)) (gec_stream (raw_kck zb INITIATOR) s) = 0
      then finish_sts P e1 s b km = (0, reset_ctx b', session_key zb)
      else finish_sts P e1 s b km = (-1, b', km) \<and> protocol_stage b' = MESSAGE_2_DONE"
    using finish_sts_val[of b "raw_kck zb INITIATOR" s km e1 P] assms(6,8,9,11,12) zb unfolding sts_waiting_def by auto
  have ack: "\<exists>a'. if ed25519_sign_open P (y @ myPublicKey_ephemeral a) (ppub (theirPublicKey a)) (gec_stream (raw_kck za RESPONDER) s) = 0
    then response_ack_sts P e1 e2 (y @ s) msg3 a km = (0, reset_ctx a', gec_stream (raw_kck za INITIATOR)
        (ed25519_sign P (myPublicKey_ephemeral a @ y) (priv (myPrivateKey a)) (pub (myPrivateKey a))), session_key za)
    else response_ack_sts P e1 e2 (y @ s) msg3 a km = (-1, a', msg3, km) \<and> protocol_stage a' = MESSAGE_1_DONE"
    by (rule response_ack_sts_val[OF assms(2-8) assms(1,9,10) za])
  show ?thesis using fin ack by (intro conjI) (meson, meson)
qed

definition toy_ctx :: "u8 \<Rightarrow> u8 \<Rightarrow> gec_sts_ctx" where
  "toy_ctx mine theirs = init_context toy_party \<lparr>ppub = []\<rparr> \<lparr>priv = [mine], pub = [mine]\<rparr> \<lparr>ppub = [theirs]\<rparr>"

lemma toy_waiting:
  "sts_waiting (toy_ctx 2 1) (replicate 32 4) (replicate 32 5)
    (fst (snd (respond_sts toy_prims (replicate 128 0, True) (replicate 32 5) (replicate 96 0) (toy_ctx 2 1) (replicate 32 4))))"
  using respond_sts_val[of "toy_ctx 2 1" "replicate 32 4" "replicate 32 5" "replicate 96 0" toy_prims "(replicate 128 0, True)", OF _ _ _ _ _ toy_prims_ok _ refl]
    toy_party_ready[of "[2]" "[1]" "\<lparr>ppub = []\<rparr>"] by (auto simp: toy_ctx_def sts_ready_def)

lemma toy_initiator:
  defines "a \<equiv> fst (snd (initiate_sts (replicate 32 0) (toy_ctx 1 2) (replicate 32 3)))"
  shows "sts_shape a" "protocol_stage a = MESSAGE_1_DONE" "party a = INITIATOR"
  using initiate_sts_val[of "toy_ctx 1 2" "replicate 32 3" "replicate 32 0"] toy_party_ready[of "[1]" "[2]" "\<lparr>ppub = []\<rparr>"] toy_prims_ok
  by (auto simp: toy_ctx_def sts_ready_def a_def sts_shape_def prims_ok_def)

theorem sts_key_only_after_verification_witness:
  "\<exists>a b. (if ed25519_sign_open toy_prims (replicate 32 6 @ myPublicKey_ephemeral a) (ppub (theirPublicKey a))
        (gec_stream (raw_kck (x25519 (myPrivateKey_ephemeral a) (replicate 32 6)) RESPONDER) (replicate 64 9)) = 0
      then \<exists>a' m3. response_ack_sts toy_prims (replicate 128 0, True) (replicate 128 0, True) (replicate 32 6 @ replicate 64 9) (replicate 64 0) a (replicate 48 0) =
        (0, reset_ctx a', m3, session_key (x25519 (myPrivateKey_ephemeral a) (replicate 32 6)))
      else \<exists>a'. response_ack_sts toy_prims (replicate 128 0, True) (replicate 128 0, True) (replicate 32 6 @ replicate 64 9) (replicate 64 0) a (replicate 48 0) =
        (-1, a', replicate 64 0, replicate 48 0) \<and> protocol_stage a' = MESSAGE_1_DONE) \<and>
    (if ed25519_sign_open toy_prims (replicate 32 5 @ eph_pub (replicate 32 4)) (ppub (theirPublicKey (toy_ctx 2 1)))
        (gec_stream (raw_kck (x25519 (replicate 32 4) (replicate 32 5)) INITIATOR) (replicate 64 9)) = 0
      then \<exists>b'. finish_sts toy_prims (replicate 128 0, True) (replicate 64 9) b (replicate 48 0) =
        (0, reset_ctx b', session_key (x25519 (replicate 32 4) (replicate 32 5)))
      else \<exists>b'. finish_sts toy_prims (replicate 128 0, True) (replicate 64 9) b (replicate 48 0) = (-1, b', replicate 48 0) \<and>
        protocol_stage b' = MESSAGE_2_DONE)"
  by (rule exI, rule exI, rule sts_key_only_after_verification[OF toy_prims_ok toy_initiator _ _ _ _ _ _ toy_waiting _ refl refl]) simp_all

section \<open>Stages\<close>

text \<open>The calls of the interface as steps of a context, with arguments of the declared sizes and any contents.\<close>

inductive sts_step :: "gec_prims \<Rightarrow> gec_sts_ctx \<Rightarrow> gec_sts_ctx \<Rightarrow> bool" for P where
  step_init: "sts_step P ctx (init_context ctx my_pub my_priv their_pub)"
| step_initiate: "length r = 32 \<Longrightarrow> initiate_sts msg1 ctx r = (ret, ctx', m1) \<Longrightarrow> sts_step P ctx ctx'"
| step_respond: "length r = 32 \<Longrightarrow> length msg1 = 32 \<Longrightarrow> respond_sts P e msg1 msg2 ctx r = (ret, ctx', m2) \<Longrightarrow> sts_step P ctx ctx'"
| step_ack: "length msg2 = 96 \<Longrightarrow> response_ack_sts P e1 e2 msg2 msg3 ctx km = (ret, ctx', m3, k) \<Longrightarrow> sts_step P ctx ctx'"
| step_finish: "finish_sts P e msg3 ctx km = (ret, ctx', k) \<Longrightarrow> sts_step P ctx ctx'"
| step_reset: "sts_step P ctx (reset_ctx ctx)"
| step_partner: "sts_step P ctx (reset_partner ctx their_pub)"
| step_clear: "sts_step P ctx (clear_ctx ctx)"

inductive sts_reachable :: "gec_prims \<Rightarrow> gec_sts_ctx \<Rightarrow> bool" for P where
  reach_init: "sts_shape ctx \<Longrightarrow> sts_reachable P (init_context ctx my_pub my_priv their_pub)"
| reach_step: "sts_reachable P ctx \<Longrightarrow> sts_step P ctx ctx' \<Longrightarrow> sts_reachable P ctx'"

definition sts_inv :: "gec_sts_ctx \<Rightarrow> bool" where
  "sts_inv ctx \<longleftrightarrow> sts_shape ctx \<and>
     (case protocol_stage ctx of
        INVALID_STAGE \<Rightarrow> party ctx = INVALID_PARTY
      | READY_STAGE \<Rightarrow> party ctx = INVALID_PARTY
      | MESSAGE_1_DONE \<Rightarrow> party ctx = INITIATOR \<and> myPublicKey_ephemeral ctx = eph_pub (myPrivateKey_ephemeral ctx)
      | MESSAGE_2_DONE \<Rightarrow> party ctx = RESPONDER \<and> myPublicKey_ephemeral ctx = eph_pub (myPrivateKey_ephemeral ctx) \<and>
          client_key_material ctx = session_key (x25519 (myPrivateKey_ephemeral ctx) (theirPublicKey_ephemeral ctx)))"

lemma ks_conf [simp]: "ks (cctx (fst (snd (gec_encrypt_conf buf al k pt ct)))) = ks (cctx k)"
  by (simp add: gec_encrypt_conf_def aes_ctr_crypt_def split_def Let_def)

lemma send_signature_ctx: "\<exists>k. fst (send_signature P e ctx out off) = ctx\<lparr>myKCK := k\<rparr> \<and> ks (cctx k) = ks (cctx (myKCK ctx))"
  by (auto simp: send_signature_def split_def Let_def intro!: exI)

lemma verify_ctx: "\<exists>k. snd (verify P e ctx msg) = ctx\<lparr>theirKCK := k\<rparr> \<and> ks (cctx k) = ks (cctx (theirKCK ctx))"
  by (auto simp: verify_def gec_decrypt_conf_def split_def Let_def intro!: exI)

lemma derive_shape:
  assumes "sts_shape ctx" "length z = 32"
  shows "sts_shape (derive_key_materials ctx z)"
proof -
  have k: "length (ks (cctx (gec_init_sym_key_conf k raw))) = 44" if len: "length (ks (cctx k)) = 44" for k raw
  proof -
    obtain cx' where "aes_encrypt_key128 (take 16 raw) (cctx k) = (0, cx')" "length (ks cx') = 44"
      using aes_encrypt_key128_blocks[OF len, of "take 16 raw"] by blast
    then show ?thesis by (simp add: gec_init_sym_key_conf_def)
  qed
  have "length (session_key z) = 48" by (simp add: session_key_def kdf_block_def)
  with k show ?thesis using derive_key_materials_val[OF assms(2)] assms(1) by (simp add: sts_shape_def)
qed

lemma sts_inv_reset: "sts_shape ctx \<Longrightarrow> sts_inv (reset_ctx ctx)"
  by (simp add: sts_inv_def reset_ctx_def sts_shape_def wipe_kck_def memset_def)

lemma sts_inv_initiate:
  assumes "sts_inv ctx" "length r = 32" "initiate_sts msg1 ctx r = (ret, ctx', m1)"
  shows "sts_inv ctx'"
  using assms
  by (auto simp: initiate_sts_def ephemeral_keys_def gec_curve_vals Let_def sts_inv_def sts_shape_def prims_ok_def split: if_splits)

lemma sts_inv_respond:
  assumes "sts_inv ctx" "length r = 32" "length x = 32" "respond_sts P e x msg2 ctx r = (ret, ctx', m2)"
  shows "sts_inv ctx'"
proof (cases "protocol_stage ctx = READY_STAGE")
  case True
  let ?z = "x25519 r x"
  have l: "length (x25519 u v) = 32" for u v by simp
  define b0 where "b0 = ctx\<lparr>party := RESPONDER, myPrivateKey_ephemeral := r, myPublicKey_ephemeral := eph_pub r, theirPublicKey_ephemeral := x\<rparr>"
  have b0: "sts_shape b0" "length (client_key_material b0) = 48" using assms(1-3) l by (simp_all add: b0_def sts_inv_def sts_shape_def)
  define b1 where "b1 = derive_key_materials b0 ?z"
  note b1 = derive_shape[OF b0(1) l[of r x], folded b1_def] derive_key_materials_val[OF l[of r x] b0(2), folded b1_def]
  obtain k where k: "fst (send_signature P e b1 (memcpy msg2 0 (take 32 (myPublicKey_ephemeral b1))) 32) = b1\<lparr>myKCK := k\<rparr>"
    "ks (cctx k) = ks (cctx (myKCK b1))" using send_signature_ctx by blast
  have d: "derive_key_materials (ctx\<lparr>party := RESPONDER, myPrivateKey_ephemeral := r, myPublicKey_ephemeral := eph_pub r,
      theirPublicKey_ephemeral := x\<rparr>) ?z = b1" by (simp add: b1_def b0_def)
  have "ctx' = b1\<lparr>myKCK := k, protocol_stage := MESSAGE_2_DONE\<rparr>"
    using assms(1-4) True k(1)
    by (auto simp: respond_sts_def ephemeral_keys_def gec_curve_vals Let_def split_def sts_inv_def sts_shape_def d)
  then show ?thesis using b1 k(2) by (simp add: sts_inv_def sts_shape_def b0_def)
next
  case False
  then show ?thesis using assms by (simp add: respond_sts_def)
qed

lemma sts_inv_ack:
  assumes "sts_inv ctx" "length msg2 = 96" "response_ack_sts P e1 e2 msg2 msg3 ctx km = (ret, ctx', m3, k')"
  shows "sts_inv ctx'"
proof (cases "protocol_stage ctx = MESSAGE_1_DONE")
  case True
  have l: "length (x25519 u v) = 32" for u v by simp
  define y where "y = take 32 msg2"
  let ?z = "x25519 (myPrivateKey_ephemeral ctx) y"
  define a0 where "a0 = ctx\<lparr>theirPublicKey_ephemeral := y\<rparr>"
  have a0: "sts_shape a0" "length (client_key_material a0) = 48" using assms(1,2) by (simp_all add: a0_def sts_inv_def sts_shape_def y_def)
  define a1 where "a1 = derive_key_materials a0 ?z"
  note a1 = derive_shape[OF a0(1) l[of "myPrivateKey_ephemeral ctx" y], folded a1_def]
    derive_key_materials_val[OF l[of "myPrivateKey_ephemeral ctx" y] a0(2), folded a1_def]
  obtain k where k: "snd (verify P e1 a1 (drop 32 msg2)) = a1\<lparr>theirKCK := k\<rparr>" "ks (cctx k) = ks (cctx (theirKCK a1))"
    using verify_ctx by blast
  obtain k2 where k2: "fst (send_signature P e2 (a1\<lparr>theirKCK := k\<rparr>) msg3 0) = a1\<lparr>theirKCK := k, myKCK := k2\<rparr>" "ks (cctx k2) = ks (cctx (myKCK a1))"
    using send_signature_ctx[of P e2 "a1\<lparr>theirKCK := k\<rparr>" msg3 0] by auto
  have s: "sts_shape (a1\<lparr>theirKCK := k\<rparr>)" "sts_shape (a1\<lparr>theirKCK := k, myKCK := k2\<rparr>)" using a1(1) k(2) k2(2) by (simp_all add: sts_shape_def)
  have inv: "sts_inv (a1\<lparr>theirKCK := k\<rparr>)" using s(1) assms(1) True by (simp add: sts_inv_def a1(2) a0_def)
  have d: "derive_key_materials (ctx\<lparr>theirPublicKey_ephemeral := y\<rparr>) ?z = a1" by (simp add: a1_def a0_def)
  have m: "memcpy (theirPublicKey_ephemeral ctx) 0 (take 32 msg2) = y" using assms(1,2) by (simp add: y_def sts_inv_def sts_shape_def)
  have z: "gec_ecdh (replicate 32 0) y (myPrivateKey_ephemeral ctx) = ?z"
    using gec_curve_vals(2)[of "replicate 32 0" y "myPrivateKey_ephemeral ctx"] assms(1,2) by (simp add: y_def sts_inv_def sts_shape_def)
  have "ctx' = a1\<lparr>theirKCK := k\<rparr> \<or> ctx' = reset_ctx (a1\<lparr>theirKCK := k, myKCK := k2\<rparr>)"
    using assms(3) True k(1) k2(1) by (auto simp: response_ack_sts_def Let_def split_def z m d split: if_splits)
  then show ?thesis using inv sts_inv_reset[OF s(2)] by auto
next
  case False
  then show ?thesis using assms by (simp add: response_ack_sts_def)
qed

lemma sts_inv_finish:
  assumes "sts_inv ctx" "finish_sts P e msg3 ctx km = (ret, ctx', k')"
  shows "sts_inv ctx'"
proof -
  obtain k where k: "snd (verify P e ctx msg3) = ctx\<lparr>theirKCK := k\<rparr>" "ks (cctx k) = ks (cctx (theirKCK ctx))" using verify_ctx by blast
  have s: "sts_shape (ctx\<lparr>theirKCK := k\<rparr>)" "sts_inv (ctx\<lparr>theirKCK := k\<rparr>)" using assms(1) k(2) by (auto simp: sts_inv_def sts_shape_def split: stage_t.splits)
  have "ctx' = ctx \<or> ctx' = ctx\<lparr>theirKCK := k\<rparr> \<or> ctx' = reset_ctx (ctx\<lparr>theirKCK := k\<rparr>)"
    using assms(2) k(1) by (auto simp: finish_sts_def Let_def split_def split: if_splits)
  then show ?thesis using assms(1) s(2) sts_inv_reset[OF s(1)] by auto
qed

lemma sts_inv_step:
  assumes "sts_inv ctx" "sts_step P ctx ctx'"
  shows "sts_inv ctx'"
  using assms(2)
proof cases
  case step_clear
  then show ?thesis using assms(1) by (simp add: sts_inv_def clear_ctx_def sts_shape_def wipe_kck_def memset_def)
next
  case (step_partner their_pub)
  then show ?thesis using assms(1) sts_inv_reset[of "ctx\<lparr>theirPublicKey := their_pub\<rparr>"] by (simp add: reset_partner_def sts_inv_def sts_shape_def)
next
  case step_init
  then show ?thesis using assms(1) by (simp add: sts_inv_def init_context_def sts_shape_def)
next
  case step_initiate
  then show ?thesis using sts_inv_initiate[OF assms(1)] by blast
next
  case step_respond
  then show ?thesis using sts_inv_respond[OF assms(1)] by blast
next
  case step_ack
  then show ?thesis using sts_inv_ack[OF assms(1)] by blast
next
  case step_finish
  then show ?thesis using sts_inv_finish[OF assms(1)] by blast
next
  case step_reset
  then show ?thesis using assms(1) sts_inv_reset by (simp add: sts_inv_def)
qed

text \<open>
  Property C21 (invariant): in every context that the interface can produce, by any sequence of its calls with any messages, stage and
  contents fit: a context that is ready has no role; one that sent message 1 is the initiator and holds the public key of
  its ephemeral secret; one that sent message 2 is the responder, and the key material it keeps back is the one
  derived from its ephemeral secret and the key it received.  A call made in the wrong stage returns -1 and changes nothing.
\<close>

theorem sts_stage_invariant:
  assumes "sts_reachable P ctx"
  shows "sts_inv ctx \<and>
    (protocol_stage ctx \<noteq> READY_STAGE \<longrightarrow> initiate_sts m1 ctx r = (-1, ctx, m1) \<and> respond_sts P e m1 m2 ctx r = (-1, ctx, m2)) \<and>
    (protocol_stage ctx \<noteq> MESSAGE_1_DONE \<longrightarrow> response_ack_sts P e e' m2 m3 ctx km = (-1, ctx, m3, km)) \<and>
    (protocol_stage ctx \<noteq> MESSAGE_2_DONE \<longrightarrow> finish_sts P e m3 ctx km = (-1, ctx, km))"
proof -
  have "sts_inv ctx" using assms
  proof induction
    case (reach_init ctx my_pub my_priv their_pub)
    then show ?case by (simp add: sts_inv_def init_context_def sts_shape_def)
  next
    case (reach_step ctx ctx')
    then show ?case using sts_inv_step by blast
  qed
  then show ?thesis by (simp add: initiate_sts_def respond_sts_def response_ack_sts_def finish_sts_def)
qed

theorem sts_stage_invariant_witness:
  "sts_inv (toy_ctx 1 2) \<and>
    response_ack_sts toy_prims ([], True) ([], True) [] [] (toy_ctx 1 2) [] = (-1, toy_ctx 1 2, [], []) \<and>
    finish_sts toy_prims ([], True) [] (toy_ctx 1 2) [] = (-1, toy_ctx 1 2, [])"
proof -
  have "sts_shape toy_party" by (simp add: sts_shape_def toy_party_def blank_conf_def gec_clear_conf_def)
  then have "sts_reachable toy_prims (toy_ctx 1 2)" unfolding toy_ctx_def by (rule reach_init)
  from sts_stage_invariant[OF this] show ?thesis by (simp add: toy_ctx_def init_context_def)
qed

text \<open>
  \<^verbatim>\<open>reset_ctx\<close>, which ends every run, wipes the ephemeral secret and the key material, but of the two key
  schedules only the first six words: \<^verbatim>\<open>memset\<close> is given the length of a raw key, not of the structure, so the other 38 words
  of each schedule stay in memory.  \<^verbatim>\<open>clear_ctx\<close>, documented to zero all fields, leaves them too.
\<close>

theorem reset_leaves_schedules:
  assumes "sts_shape ctx"
  shows "myPrivateKey_ephemeral (reset_ctx ctx) = replicate 32 0 \<and> client_key_material (reset_ctx ctx) = replicate 48 0 \<and>
    ks (cctx (myKCK (reset_ctx ctx))) = replicate 6 0 @ drop 6 (ks (cctx (myKCK ctx))) \<and>
    ks (cctx (theirKCK (reset_ctx ctx))) = replicate 6 0 @ drop 6 (ks (cctx (theirKCK ctx))) \<and>
    ks (cctx (myKCK (clear_ctx ctx))) = replicate 6 0 @ drop 6 (ks (cctx (myKCK ctx))) \<and>
    ks (cctx (theirKCK (clear_ctx ctx))) = replicate 6 0 @ drop 6 (ks (cctx (theirKCK ctx)))"
  using assms by (simp add: reset_ctx_def clear_ctx_def wipe_kck_def memset_def memcpy_def sts_shape_def)

theorem reset_leaves_schedules_witness:
  "myPrivateKey_ephemeral (reset_ctx toy_party) = replicate 32 0 \<and> client_key_material (reset_ctx toy_party) = replicate 48 0 \<and>
    ks (cctx (myKCK (reset_ctx toy_party))) = replicate 6 0 @ drop 6 (ks (cctx (myKCK toy_party))) \<and>
    ks (cctx (theirKCK (reset_ctx toy_party))) = replicate 6 0 @ drop 6 (ks (cctx (theirKCK toy_party))) \<and>
    ks (cctx (myKCK (clear_ctx toy_party))) = replicate 6 0 @ drop 6 (ks (cctx (myKCK toy_party))) \<and>
    ks (cctx (theirKCK (clear_ctx toy_party))) = replicate 6 0 @ drop 6 (ks (cctx (theirKCK toy_party)))"
  by (rule reset_leaves_schedules) (simp add: sts_shape_def toy_party_def blank_conf_def gec_clear_conf_def)

end
