(* ===== verification/Key_Exchange.thy ===== *)
theory Key_Exchange
  imports Relay_Decrypt Gec_Ke_Props
begin

text \<open>
  The one-shot component \<^verbatim>\<open>KeyExchange\<close> of \<^verbatim>\<open>apps/key-exchange\<close>: it draws a seed from the autopilot's messages, answers the ground station's
  key exchange as the responder and hands the two channel keys to \<^verbatim>\<open>Decrypt\<close> and \<^verbatim>\<open>Encrypt\<close>.  A blocking read works on a view of
  the shared ring buffer and is \<open>None\<close> while it waits.  Printing is left out.
\<close>

section \<open>Reading\<close>

text \<open>
  \<^verbatim>\<open>read_message\<close> on the parser state \<open>(rx, st)\<close>, the caller's message and the local status.  Its search takes one byte a turn, of at
  most 2047.  It returns from inside the loop, before the statement that would store its position in the buffer.
\<close>

primrec read_message_loop :: "nat \<Rightarrow> ring_buffer_t \<Rightarrow> u32 \<Rightarrow> parser \<Rightarrow> parser option" where
  "read_message_loop 0 rb head p = None"
| "read_message_loop (Suc n) rb head p =
     (if head = rb_tail rb then None
      else case p of (rx, st, r_msg, status) \<Rightarrow>
        let (result, p') = my_mavlink_parse_char (rb_buffer rb ! unat head) rx st r_msg status
        in if result = FRAMING_OK then Some p' else read_message_loop n rb ((head + 1) mod 2048) p')"

definition read_message :: "ring_buffer_t \<Rightarrow> parser \<Rightarrow> parser option" where
  "read_message rb p = read_message_loop RING_BUFFER_SIZE rb (rb_head rb) p"

definition read_from_telemetry :: "ring_buffer_t \<Rightarrow> nat \<Rightarrow> (bytes \<times> ring_buffer_t) option" where
  "read_from_telemetry rb len =
     (case read_buffer len rb (rb_head rb) of None \<Rightarrow> None | Some (buf, head) \<Rightarrow> Some (buf, rb\<lparr>rb_head := head\<rparr>))"

section \<open>The seed\<close>

text \<open>
  A \<^verbatim>\<open>float\<close> is its 32-bit pattern; \<^verbatim>\<open>fabsf(x) > 0.00000001f\<close> compares the patterns without sign, the constant's being
  \<^verbatim>\<open>0x322BCC77\<close>, and fails for the patterns above that of infinity.
\<close>

definition le_word :: "bytes \<Rightarrow> nat \<Rightarrow> nat \<Rightarrow> nat" where
  "le_word payload ofs n = foldr (\<lambda>b v. unat b + 256 * v) (take n (drop ofs payload)) 0"

definition get_pitchspeed :: "mavlink_message_t \<Rightarrow> u32" where
  "get_pitchspeed msg = word_of_nat (le_word (m_payload msg) 20 4)"

definition get_voltages :: "mavlink_message_t \<Rightarrow> u16 list" where
  "get_voltages msg = map (\<lambda>i. word_of_nat (le_word (m_payload msg) (10 + 2 * i) 2)) [0..<10]"

definition float_nonzero :: "u32 \<Rightarrow> bool" where
  "float_nonzero x \<longleftrightarrow> 0x322BCC77 < x AND 0x7FFFFFFF \<and> x AND 0x7FFFFFFF \<le> 0x7F800000"

record seed_st =
  pitchspeed :: u32
  voltages :: "u16 list"
  got_pitchspeed :: bool
  got_voltage :: bool

definition seed_turn :: "mavlink_message_t \<Rightarrow> seed_st \<Rightarrow> seed_st" where
  "seed_turn msg s =
     (if m_msgid msg = 30 then
        (if got_pitchspeed s then s
         else let s = s\<lparr>pitchspeed := get_pitchspeed msg\<rparr> in if float_nonzero (pitchspeed s) then s\<lparr>got_pitchspeed := True\<rparr> else s)
      else if m_msgid msg = 147 then
        (if got_voltage s then s
         else let s = s\<lparr>voltages := get_voltages msg\<rparr> in if voltages s ! 0 \<noteq> 0 then s\<lparr>got_voltage := True\<rparr> else s)
      else s)"

text \<open>
  The loop of \<^verbatim>\<open>seed_from_uav\<close> on the views of the buffer that the successive calls of \<^verbatim>\<open>read_message\<close> have; it goes on while neither value
  has been seen.  \<open>scale\<close> is the conversion of \<^verbatim>\<open>fabs(pitchspeed) * 1e10\<close> to an integer.
\<close>

primrec seed_from_uav :: "(u32 \<Rightarrow> u32) \<Rightarrow> ring_buffer_t list \<Rightarrow> parser \<Rightarrow> seed_st \<Rightarrow> (u32 \<times> parser) option" where
  "seed_from_uav scale [] p s = None"
| "seed_from_uav scale (rb # rbs) p s =
     (case read_message rb p of
        None \<Rightarrow> None
      | Some p \<Rightarrow>
          let s = seed_turn (fst (snd (snd p))) s
          in if \<not> got_pitchspeed s \<and> \<not> got_voltage s then seed_from_uav scale rbs p s
             else Some (scale (pitchspeed s) * ucast (voltages s ! 0), p))"

section \<open>The exchange\<close>

definition our_keypair_seed :: bytes where
  "our_keypair_seed = [1, 2, 3, 4, 5, 6, 7, 8, 9, 10, 11, 12, 13, 14, 15, 16, 17, 18, 19, 20, 21, 22, 23, 24, 25, 26, 27, 28, 29, 30, 31, 32]"

definition their_keypair_seed :: bytes where
  "their_keypair_seed = [32, 31, 30, 29, 28, 27, 26, 25, 24, 23, 22, 21, 20, 19, 18, 17, 16, 15, 14, 13, 12, 11, 10, 9, 8, 7, 6, 5, 4, 3, 2, 1]"

text \<open>Static variables start as zeros.\<close>

definition zero_pubkey :: gec_pubkey where
  "zero_pubkey = \<lparr>ppub = replicate 32 0\<rparr>"

definition zero_privkey :: gec_privkey where
  "zero_privkey = \<lparr>priv = replicate 32 0, pub = replicate 32 0\<rparr>"

definition zero_sts_ctx :: gec_sts_ctx where
  "zero_sts_ctx = \<lparr>myPublicKey = zero_pubkey, myPrivateKey = zero_privkey, theirPublicKey = zero_pubkey,
     myPublicKey_ephemeral = replicate 32 0, myPrivateKey_ephemeral = replicate 32 0, theirPublicKey_ephemeral = replicate 32 0,
     myKCK = blank_conf, theirKCK = blank_conf, client_key_material = replicate 48 0, protocol_stage = INVALID_STAGE, party = INITIATOR\<rparr>"

text \<open>
  \<^verbatim>\<open>run\<close> from the seed on: \<open>rnd\<close> are the 32 values of \<^verbatim>\<open>rand\<close> after \<^verbatim>\<open>srand(seed)\<close>, \<open>rb1\<close> and \<open>rb3\<close> the views of the telemetry buffer for messages 1
  and 3, \<open>e1\<close> and \<open>e2\<close> the locals of the two counter-mode calls.  The result are the bytes written to the radio and the keys sent to
  \<^verbatim>\<open>Decrypt\<close> and \<^verbatim>\<open>Encrypt\<close>; the return codes of the two steps only choose a log line.
\<close>

definition key_exchange_run :: "gec_prims \<Rightarrow> bytes \<times> bool \<Rightarrow> bytes \<times> bool \<Rightarrow> bytes \<Rightarrow> ring_buffer_t \<Rightarrow> ring_buffer_t \<Rightarrow>
    (bytes \<times> gec_sym_key \<times> gec_sym_key) option" where
  "key_exchange_run P e1 e2 rnd rb1 rb3 =
     (let (our_pubkey, our_privkey) = generate P zero_pubkey zero_privkey our_keypair_seed;
          (their_pubkey, _) = generate P zero_pubkey zero_privkey their_keypair_seed;
          ctx = init_context zero_sts_ctx our_pubkey our_privkey their_pubkey
      in case read_from_telemetry rb1 32 of
           None \<Rightarrow> None
         | Some (msg1, rb1) \<Rightarrow>
             let (_, ctx, msg2) = respond_sts P e1 msg1 (replicate 96 0) ctx rnd
             in case read_from_telemetry (rb3\<lparr>rb_head := rb_head rb1\<rparr>) 64 of
                  None \<Rightarrow> None
                | Some (msg3, _) \<Rightarrow>
                    let (_, ctx, key_material) = finish_sts P e2 msg3 ctx (replicate 48 0);
                        (chan1, chan2) = gec_key_material_to_2_channels blank_key blank_key key_material
                    in Some (msg2, chan1, chan2))"

end
