(* ===== verification/Key_Exchange_Props.thy ===== *)
theory Key_Exchange_Props
  imports Key_Exchange
begin

text \<open>
  What the component \<^verbatim>\<open>KeyExchange\<close> installs: the session keys when the exchange succeeds, and the keys of all-zero material when it fails.
\<close>

section \<open>Reads\<close>

lemma read_buffer_head:
  assumes "ring_ok rb head" "read_buffer n rb head = Some (bs, h)"
  shows "unat h = (unat head + n) mod 2048"
  using assms
proof (induction n arbitrary: head bs)
  case 0
  then show ?case by (simp add: ring_ok_def)
next
  case (Suc n)
  from Suc.prems(2) obtain bs' where r: "read_buffer n rb ((head + 1) mod 2048) = Some (bs', h)" by (auto split: if_splits option.splits)
  have "unat head < 2048" using Suc.prems(1) by (simp add: ring_ok_def)
  then show ?case using Suc.IH[OF unread_cases(3)[OF Suc.prems(1)] r] unat_next[of head] mod_add_left_eq[of "Suc (unat head)" 2048 n] by simp
qed

definition after :: "u32 \<Rightarrow> nat \<Rightarrow> u32" where
  "after head n = word_of_nat ((unat head + n) mod 2048)"

lemma read_from_telemetry_val:
  assumes "ring_ok rb (rb_head rb)" "unread rb (rb_head rb) = xs @ rest" "length xs = n"
  shows "read_from_telemetry rb n = Some (xs, rb\<lparr>rb_head := after (rb_head rb) n\<rparr>)"
proof -
  obtain h where h: "read_buffer n rb (rb_head rb) = Some (xs, h)"
    using read_buffer_list[OF assms(1), of n] assms(2,3) by auto
  have "unat h = (unat (rb_head rb) + n) mod 2048" by (rule read_buffer_head[OF assms(1) h])
  then have "h = after (rb_head rb) n" unfolding after_def by (simp add: word_unat_eq_iff unsigned_of_nat take_bit_nat_eq_self)
  then show ?thesis using h by (simp add: read_from_telemetry_def)
qed

section \<open>The responder of the component\<close>

definition our_ctx :: "gec_prims \<Rightarrow> gec_sts_ctx" where
  "our_ctx P = init_context zero_sts_ctx (fst (generate P zero_pubkey zero_privkey our_keypair_seed))
     (snd (generate P zero_pubkey zero_privkey our_keypair_seed)) (fst (generate P zero_pubkey zero_privkey their_keypair_seed))"

text \<open>Public keys have 32 bytes.\<close>

definition pubs_ok :: "gec_prims \<Rightarrow> bool" where
  "pubs_ok P \<longleftrightarrow> (\<forall>s. length s = 32 \<longrightarrow> length (ed25519_publickey P s) = 32)"

lemma generate_val:
  assumes "pubs_ok P" "length seed = 32"
  shows "generate P zero_pubkey zero_privkey seed = (\<lparr>ppub = ed25519_publickey P seed\<rparr>, \<lparr>priv = seed, pub = ed25519_publickey P seed\<rparr>)"
  using assms by (simp add: generate_def gec_generate_sign_keypair_def zero_pubkey_def zero_privkey_def pubs_ok_def Let_def)

lemma our_ctx_ready: "pubs_ok P \<Longrightarrow> sts_ready P our_keypair_seed their_keypair_seed (our_ctx P)"
  by (simp add: our_ctx_def generate_val our_keypair_seed_def their_keypair_seed_def sts_ready_def init_context_def zero_sts_ctx_def
      sts_shape_def blank_conf_def gec_clear_conf_def)

lemma blank_channels:
  assumes "length km = 48" "gec_key_material_to_2_channels blank_key blank_key km = (chan1, chan2)"
  shows "gec_keyed (take 24 km) chan1 \<and> ctr chan1 = 0 \<and> gec_keyed (drop 24 km) chan2 \<and> ctr chan2 = 0"
proof -
  have "gec_init_sym_key_conf_auth blank_key km = gec_init_sym_key_conf_auth blank_key (take 24 km)"
    using assms(1) by (simp add: gec_init_sym_key_conf_auth_def take_drop)
  then show ?thesis using assms blank_key_init[of "take 24 km"] blank_key_init[of "drop 24 km"]
    by (auto simp: gec_key_material_to_2_channels_def)
qed

lemma key_exchange_run_val:
  assumes "ring_ok rb1 (rb_head rb1)" "unread rb1 (rb_head rb1) = m1 @ rest1" "length m1 = 32"
    and "h = after (rb_head rb1) 32" "ring_ok rb3 h" "unread rb3 h = m3 @ rest3" "length m3 = 64"
    and "respond_sts P e1 m1 (replicate 96 0) (our_ctx P) rnd = (r1, b1, msg2)" "finish_sts P e2 m3 b1 (replicate 48 0) = (r2, b2, km)"
  shows "key_exchange_run P e1 e2 rnd rb1 rb3 =
    (case gec_key_material_to_2_channels blank_key blank_key km of (chan1, chan2) \<Rightarrow> Some (msg2, chan1, chan2))"
proof -
  have t1: "read_from_telemetry rb1 32 = Some (m1, rb1\<lparr>rb_head := h\<rparr>)"
    using read_from_telemetry_val[OF assms(1-3)] assms(4) by simp
  have v: "unread (rb3\<lparr>rb_head := h\<rparr>) h = unread rb3 h" "ring_ok (rb3\<lparr>rb_head := h\<rparr>) h = ring_ok rb3 h"
    by (simp_all add: unread_def ring_ok_def)
  have t3: "\<exists>rb. read_from_telemetry (rb3\<lparr>rb_head := h\<rparr>) 64 = Some (m3, rb)"
    using read_from_telemetry_val[of "rb3\<lparr>rb_head := h\<rparr>" m3 rest3 64] v assms(5-7) by auto
  show ?thesis using t1 t3 assms(8,9)
    by (auto simp: key_exchange_run_def our_ctx_def split_def Let_def)
qed

section \<open>Properties\<close>

text \<open>
  Property C2 (functional): when the ground station is the partner, the component completes the exchange with it, provided X25519 commutes on
  the two ephemeral secrets.  For an initiator that holds the partner's long-term key, whose first message is at the front of the telemetry buffer and whose third message
  follows, the second message that the component writes makes \<^verbatim>\<open>response_ack_sts\<close> of the ground station succeed, and the
  channel keys that go to \<^verbatim>\<open>Decrypt\<close> and \<^verbatim>\<open>Encrypt\<close> are the two halves of the key material the ground station obtained.
\<close>

theorem key_exchange_installs_session_keys:
  assumes "prims_ok P" "pubs_ok P" "sts_ready P their_keypair_seed our_keypair_seed a"
    "length ra = 32" "length rnd = 32" "length b1 = 32" "length b3 = 64" "length ka = 48"
    "length (fst e1) = 128" "length (fst e2) = 128" "length (fst e3) = 128" "length (fst e4) = 128"
    and dh: "x25519 ra (eph_pub rnd) = x25519 rnd (eph_pub ra)"
    and "initiate_sts b1 a ra = (r, a1, m1)" "ring_ok rb1 (rb_head rb1)" "unread rb1 (rb_head rb1) = m1 @ rest1"
  shows "\<exists>msg2 a2 m3 km. response_ack_sts P e3 e4 msg2 b3 a1 ka = (0, a2, m3, km) \<and>
    (\<forall>rb3 rest3. ring_ok rb3 (after (rb_head rb1) 32) \<longrightarrow> unread rb3 (after (rb_head rb1) 32) = m3 @ rest3 \<longrightarrow>
      (\<exists>chan1 chan2. key_exchange_run P e1 e2 rnd rb1 rb3 = Some (msg2, chan1, chan2) \<and>
        gec_keyed (take 24 km) chan1 \<and> ctr chan1 = 0 \<and> gec_keyed (drop 24 km) chan2 \<and> ctr chan2 = 0))"
proof -
  obtain a1' m1' b1' m2 a2 m3 b2 km where run: "initiate_sts b1 a ra = (0, a1', m1')"
    "respond_sts P e1 m1' (replicate 96 0) (our_ctx P) rnd = (0, b1', m2)"
    "response_ack_sts P e3 e4 m2 b3 a1' ka = (0, a2, m3, km)" "finish_sts P e2 m3 b1' (replicate 48 0) = (0, b2, km)"
    "km = session_key (x25519 rnd (eph_pub ra))"
    using sts_run_agrees[OF assms(1,3) our_ctx_ready[OF assms(2)] assms(4,5,6) _ assms(7,8) _ assms(9,11,12,10) dh, of "replicate 96 0" "replicate 48 0"] by auto
  have same: "a1' = a1" "m1' = m1" using run(1) assms(14) by simp_all
  have rs: "sts_shape a" "protocol_stage a = READY_STAGE" using assms(3) by (simp_all add: sts_ready_def)
  have m1: "length m1 = 32" using initiate_sts_val[OF rs assms(4,6)] assms(14) by auto
  have lkm: "length km = 48" using run(5) by (simp add: session_key_def kdf_block_def)
  obtain chan1 chan2 where ch: "gec_key_material_to_2_channels blank_key blank_key km = (chan1, chan2)" by (cases "gec_key_material_to_2_channels blank_key blank_key km")
  have l: "length (x25519 u v) = 32" "length (ed25519_sign P m k q) = 64" for u v m k q using assms(1) by (simp_all add: prims_ok_def)
  have ours: "sts_shape (our_ctx P)" "protocol_stage (our_ctx P) = READY_STAGE" using our_ctx_ready[OF assms(2)] by (simp_all add: sts_ready_def)
  obtain sg where sg: "m2 = eph_pub rnd @ sg" "length sg = 64"
    using respond_sts_val[OF ours assms(5) m1 _ assms(1,9) refl, of "replicate 96 0"] run(2)[unfolded same] l(2) by auto
  have a1: "sts_shape a1" "protocol_stage a1 = MESSAGE_1_DONE" "party a1 = INITIATOR"
    using initiate_sts_val[OF rs assms(4,6)] assms(4,14) rs(1) l(1) by (auto simp: sts_shape_def)
  have m3: "length m3 = 64"
    using response_ack_sts_val[OF a1 l(1)[of rnd gec_basepoint] sg(2) assms(7,8,1,11,12) refl] run(3) l(2) by (auto simp: same(1) sg(1) split: if_splits)
  have "\<exists>chan1 chan2. key_exchange_run P e1 e2 rnd rb1 rb3 = Some (m2, chan1, chan2) \<and>
        gec_keyed (take 24 km) chan1 \<and> ctr chan1 = 0 \<and> gec_keyed (drop 24 km) chan2 \<and> ctr chan2 = 0"
    if "ring_ok rb3 (after (rb_head rb1) 32)" "unread rb3 (after (rb_head rb1) 32) = m3 @ rest3" for rb3 rest3
    using key_exchange_run_val[OF assms(15,16) m1 refl that m3 run(2)[unfolded same] run(4)] blank_channels[OF lkm ch] ch by simp
  then show ?thesis using run(3) same(1) by blast
qed

text \<open>A buffer that was filled from the start.\<close>

definition filled :: "bytes \<Rightarrow> nat \<Rightarrow> ring_buffer_t" where
  "filled xs n = \<lparr>rb_buffer = replicate n 0 @ xs @ replicate (2048 - n - length xs) 0, rb_head = word_of_nat n, rb_tail = word_of_nat (n + length xs)\<rparr>"

lemma filled_unread:
  assumes "n + length xs < 2048"
  shows "ring_ok (filled xs n) (word_of_nat n)" "unread (filled xs n) (word_of_nat n) = xs @ []"
proof -
  have u: "unat (word_of_nat m :: u32) = m" if "m < 2048" for m using that by (simp add: unsigned_of_nat take_bit_nat_eq_self)
  have "(n + length xs + 2048 - n) mod 2048 = length xs" using assms by simp
  then show "unread (filled xs n) (word_of_nat n) = xs @ []"
    using assms u[of n] u[of "n + length xs"] by (auto simp: unread_def filled_def nth_append intro!: nth_equalityI)
  show "ring_ok (filled xs n) (word_of_nat n)" using assms u[of n] u[of "n + length xs"] by (simp add: ring_ok_def filled_def)
qed

definition station :: gec_sts_ctx where
  "station = init_context toy_party zero_pubkey \<lparr>priv = their_keypair_seed, pub = their_keypair_seed\<rparr> \<lparr>ppub = our_keypair_seed\<rparr>"

lemma station_ready: "sts_ready toy_prims their_keypair_seed our_keypair_seed station"
  using toy_party_ready[of their_keypair_seed our_keypair_seed zero_pubkey] by (simp add: station_def)

lemma toy_pubs_ok: "pubs_ok toy_prims"
  by (simp add: pubs_ok_def toy_prims_def)

lemma toy_eph: "length (eph_pub r) = 32"
  by simp

theorem key_exchange_installs_session_keys_witness:
  "\<exists>msg2 a2 m3 km. response_ack_sts toy_prims (replicate 128 0, True) (replicate 128 0, True) msg2 (replicate 64 0)
      (station\<lparr>myPrivateKey_ephemeral := 3 # replicate 31 4, myPublicKey_ephemeral := eph_pub (3 # replicate 31 4),
        protocol_stage := MESSAGE_1_DONE, party := INITIATOR\<rparr>) (replicate 48 0) = (0, a2, m3, km) \<and>
    (\<forall>rb3 rest3. ring_ok rb3 (after 0 32) \<longrightarrow> unread rb3 (after 0 32) = m3 @ rest3 \<longrightarrow>
      (\<exists>chan1 chan2. key_exchange_run toy_prims (replicate 128 0, True) (replicate 128 0, True) (replicate 32 4)
          (filled (eph_pub (3 # replicate 31 4)) 0) rb3 = Some (msg2, chan1, chan2) \<and>
        gec_keyed (take 24 km) chan1 \<and> ctr chan1 = 0 \<and> gec_keyed (drop 24 km) chan2 \<and> ctr chan2 = 0))"
proof -
  let ?rb = "filled (eph_pub (3 # replicate 31 4)) 0"
  have f: "ring_ok ?rb (rb_head ?rb)" "unread ?rb (rb_head ?rb) = eph_pub (3 # replicate 31 4) @ []" "rb_head ?rb = 0"
    using filled_unread[of 0 "eph_pub (3 # replicate 31 4)"] toy_eph by (simp_all add: filled_def)
  have rs: "sts_shape station" "protocol_stage station = READY_STAGE" using station_ready by (simp_all add: sts_ready_def)
  have i: "initiate_sts (replicate 32 0) station (3 # replicate 31 4) =
      (0, station\<lparr>myPrivateKey_ephemeral := 3 # replicate 31 4, myPublicKey_ephemeral := eph_pub (3 # replicate 31 4),
        protocol_stage := MESSAGE_1_DONE, party := INITIATOR\<rparr>, eph_pub (3 # replicate 31 4))"
    by (rule initiate_sts_val[OF rs]) simp_all
  show ?thesis
    using key_exchange_installs_session_keys[OF toy_prims_ok toy_pubs_ok station_ready _ _ _ _ _ _ _ _ _ _ i f(1,2),
        of "replicate 32 4" "replicate 64 0" "replicate 48 0" "(replicate 128 0, True)" "(replicate 128 0, True)"
          "(replicate 128 0, True)" "(replicate 128 0, True)"] f(3) toy_dh by simp
qed

text \<open>
  Property C37 (error): a failed exchange opens the link with a known key.  When the signature of the third message does not verify,
  \<^verbatim>\<open>finish_sts\<close> returns -1 and leaves the key material alone, but \<^verbatim>\<open>run\<close> only logs that: it goes on with its static buffer, which is
  zero, and sends the keys derived from all-zero material to \<^verbatim>\<open>Decrypt\<close> and \<^verbatim>\<open>Encrypt\<close>.  No knowledge of any secret is needed
  to cause this.
\<close>

theorem key_exchange_failure_installs_zero_keys:
  assumes "prims_ok P" "pubs_ok P" "length rnd = 32" "length (fst e1) = 128" "length (fst e2) = 128"
    and "ring_ok rb1 (rb_head rb1)" "unread rb1 (rb_head rb1) = x @ rest1" "length x = 32"
    and "ring_ok rb3 (after (rb_head rb1) 32)" "unread rb3 (after (rb_head rb1) 32) = s @ rest3" "length s = 64"
    and bad: "ed25519_sign_open P (x @ eph_pub rnd) (ed25519_publickey P their_keypair_seed)
      (gec_stream (raw_kck (x25519 rnd x) INITIATOR) s) \<noteq> 0"
  shows "\<exists>msg2 chan1 chan2. key_exchange_run P e1 e2 rnd rb1 rb3 = Some (msg2, chan1, chan2) \<and>
    gec_keyed (replicate 24 0) chan1 \<and> ctr chan1 = 0 \<and> gec_keyed (replicate 24 0) chan2 \<and> ctr chan2 = 0"
proof -
  have ours: "sts_shape (our_ctx P)" "protocol_stage (our_ctx P) = READY_STAGE" and their: "theirPublicKey (our_ctx P) = \<lparr>ppub = ed25519_publickey P their_keypair_seed\<rparr>"
    using our_ctx_ready[OF assms(2)] by (simp_all add: sts_ready_def)
  have l: "length (x25519 u v) = 32" "length (session_key z) = 48" for u v z
    using assms(1) by (simp_all add: prims_ok_def session_key_def kdf_block_def)
  obtain b1 msg2 where r: "respond_sts P e1 x (replicate 96 0) (our_ctx P) rnd = (0, b1, msg2)" "sts_waiting (our_ctx P) rnd x b1"
    using respond_sts_val[OF ours assms(3,8) _ assms(1,4) refl, of "replicate 96 0"] by auto
  obtain b2 where f: "finish_sts P e2 s b1 (replicate 48 0) = (-1, b2, replicate 48 0)"
    using finish_sts_val[of b1 "raw_kck (x25519 rnd x) INITIATOR" s "replicate 48 0" e2 P] r(2) assms(5,8,11) l bad their
    by (auto simp: sts_waiting_def)
  obtain chan1 chan2 where ch: "gec_key_material_to_2_channels blank_key blank_key (replicate 48 0) = (chan1, chan2)"
    by (cases "gec_key_material_to_2_channels blank_key blank_key (replicate 48 0)")
  have "take 24 (replicate 48 0) = replicate 24 (0 :: u8)" "drop 24 (replicate 48 0) = replicate 24 (0 :: u8)" by simp_all
  then show ?thesis
    using key_exchange_run_val[OF assms(6-8) refl assms(9-11) r(1) f] ch blank_channels[OF _ ch] by simp
qed

theorem key_exchange_failure_installs_zero_keys_witness:
  "\<exists>msg2 chan1 chan2. key_exchange_run toy_prims (replicate 128 0, True) (replicate 128 0, True) (replicate 32 4) (filled (replicate 32 5) 0)
      (filled (gec_stream (raw_kck (x25519 (replicate 32 4) (replicate 32 5)) INITIATOR) (replicate 64 2)) 32) =
      Some (msg2, chan1, chan2) \<and>
    gec_keyed (replicate 24 0) chan1 \<and> ctr chan1 = 0 \<and> gec_keyed (replicate 24 0) chan2 \<and> ctr chan2 = 0"
proof -
  let ?s = "gec_stream (raw_kck (x25519 (replicate 32 4) (replicate 32 5)) INITIATOR) (replicate 64 2)"
  have h: "rb_head (filled (replicate 32 5) 0) = 0" "after 0 32 = word_of_nat 32" by (simp_all add: filled_def after_def)
  have f1: "ring_ok (filled (replicate 32 5) 0) (rb_head (filled (replicate 32 5) 0))" "unread (filled (replicate 32 5) 0) (rb_head (filled (replicate 32 5) 0)) = replicate 32 5 @ []"
    using filled_unread[of 0 "replicate 32 5"] h(1) by simp_all
  have f3: "ring_ok (filled ?s 32) (after (rb_head (filled (replicate 32 5) 0)) 32)" "unread (filled ?s 32) (after (rb_head (filled (replicate 32 5) 0)) 32) = ?s @ []"
    unfolding h using filled_unread[of 32 ?s] by simp_all
  have "replicate 64 (2 :: u8) \<noteq> replicate 64 1" by simp
  then have bad: "ed25519_sign_open toy_prims (replicate 32 5 @ eph_pub (replicate 32 4)) (ed25519_publickey toy_prims their_keypair_seed)
      (gec_stream (raw_kck (x25519 (replicate 32 4) (replicate 32 5)) INITIATOR) ?s) \<noteq> 0"
    unfolding gec_stream_twice by (simp add: toy_prims_def)
  show ?thesis
    by (rule key_exchange_failure_installs_zero_keys[OF toy_prims_ok toy_pubs_ok _ _ _ f1 _ f3 _ bad]) simp_all
qed

section \<open>The seed\<close>

text \<open>
  \<^verbatim>\<open>read_message\<close> never stores its position, so every call starts at the same byte: while the message at the front of the buffer stays there,
  each call returns that message again.  When it is neither an attitude nor a battery message, \<^verbatim>\<open>seed_from_uav\<close> does not return
  on any number of views of the buffer.
\<close>

lemma read_message_loop_list:
  assumes "ring_ok rb head" "unread rb head = xs @ c # rest" "mav_run p (xs @ [c]) = (replicate (length xs) FRAMING_INCOMPLETE @ [FRAMING_OK], p')"
    "length xs < n"
  shows "read_message_loop n rb head p = Some p'"
  using assms
proof (induction xs arbitrary: head p n)
  case Nil
  have "head \<noteq> rb_tail rb" "rb_buffer rb ! unat head = c" using unread_cases(1,2)[OF Nil.prems(1)] Nil.prems(2) by (cases "rb_tail rb = head"; auto)+
  then show ?case using Nil.prems(3,4) by (cases n; cases p) (auto simp: my_mavlink_parse_char_def split: prod.splits)
next
  case (Cons x xs)
  obtain k where n: "n = Suc k" "length xs < k" using Cons.prems(4) by (cases n) auto
  have u: "head \<noteq> rb_tail rb" "rb_buffer rb ! unat head = x" "unread rb ((head + 1) mod 2048) = xs @ c # rest"
    using unread_cases(1,2)[OF Cons.prems(1)] Cons.prems(2) by (cases "rb_tail rb = head"; auto)+
  obtain p1 where p1: "mav_step p x = (FRAMING_INCOMPLETE, p1)" "mav_run p1 (xs @ [c]) = (replicate (length xs) FRAMING_INCOMPLETE @ [FRAMING_OK], p')"
    using Cons.prems(3) by (auto simp: Let_def split: prod.splits)
  show ?case using Cons.IH[OF unread_cases(3)[OF Cons.prems(1)] u(3) p1(2) n(2)] u(1,2) p1(1) n(1)
    by (cases p) (auto simp: my_mavlink_parse_char_def)
qed

definition parser_idle :: "parser \<Rightarrow> bool" where
  "parser_idle p \<longleftrightarrow> message_sizes (fst p) \<and> (s_parse_state (fst (snd p)) = PARSE_STATE_IDLE \<or> s_parse_state (fst (snd p)) = PARSE_STATE_UNINIT)"

lemma read_message_first:
  assumes "ring_ok rb (rb_head rb)" "unread rb (rb_head rb) = send_bytes m @ rest" "wf_frame m" "parser_idle p"
  shows "\<exists>p'. read_message rb p = Some p' \<and> parser_idle p' \<and> same_header (fst (snd (snd p'))) m"
proof -
  obtain rx st r rs where p: "p = (rx, st, r, rs)" by (metis surj_pair)
  have idle: "s_parse_state st = PARSE_STATE_IDLE \<or> s_parse_state st = PARSE_STATE_UNINIT" "message_sizes rx"
    using assms(4) by (simp_all add: parser_idle_def p)
  obtain rx' st' r' rs' where run: "mav_run (rx, st, r, rs) (send_bytes m) =
      (replicate (length (send_bytes m) - 1) FRAMING_INCOMPLETE @ [FRAMING_OK], rx', st', r', rs')"
    "same_header r' m" "s_parse_state st' = PARSE_STATE_IDLE"
    using mavlink_roundtrip_core[OF idle assms(3)] by blast
  have ne: "send_bytes m \<noteq> []" using run(1) by (cases "send_bytes m") auto
  then obtain xs c where xs: "send_bytes m = xs @ [c]" by (cases "send_bytes m" rule: rev_cases) auto
  have "parser_inv rx st" using idle by (auto simp: parser_inv_def)
  then have "message_sizes rx'" using mav_run_inv[OF _ run(1)] by (simp add: parser_inv_def)
  moreover have "length xs < 2048" using length_send_bytes(2)[of m] assms(3) xs by (simp add: wf_frame_def)
  then have "read_message rb p = Some (rx', st', r', rs')"
    unfolding read_message_def using read_message_loop_list[OF assms(1), of xs c rest p] assms(2) run(1) xs p by simp
  ultimately show ?thesis using run(2,3) by (intro exI[of _ "(rx', st', r', rs')"]) (simp add: parser_idle_def)
qed

theorem seed_loop_stuck:
  assumes "\<forall>rb \<in> set rbs. ring_ok rb (rb_head rb) \<and> (\<exists>rest. unread rb (rb_head rb) = send_bytes m @ rest)"
    and "wf_frame m" "m_msgid m \<noteq> 30" "m_msgid m \<noteq> 147" "parser_idle p" "\<not> got_pitchspeed s" "\<not> got_voltage s"
  shows "seed_from_uav scale rbs p s = None"
  using assms
proof (induction rbs arbitrary: p)
  case (Cons rb rbs)
  obtain p' where p': "read_message rb p = Some p'" "parser_idle p'" "same_header (fst (snd (snd p'))) m"
    using read_message_first[of rb m _ p] Cons.prems by auto
  then have "seed_turn (fst (snd (snd p'))) s = s" using Cons.prems(3,4) by (simp add: seed_turn_def same_header_def)
  then show ?case using Cons.IH[OF _ Cons.prems(2-4) p'(2) Cons.prems(6,7)] Cons.prems(1,6,7) p'(1) by simp
qed simp

end
