(* ===== verification/Mavlink_Sha256.thy ===== *)
theory Mavlink_Sha256
  imports Prelude
begin

text \<open>
  The SHA-256 of \<^verbatim>\<open>mavlink/v2.0/mavlink_sha256.h\<close>, which MAVLink 2 signs packets with: the context, the block function, the incremental
  interface and the truncation of the digest to 48 bits.  The memory of the target is little-endian, as the code assumes.
\<close>

record mavlink_sha256_ctx =
  h_sz :: "u32 list"
  h_counter :: "u32 list"
  h_save_bytes :: bytes

definition sha256_Ch :: "u32 \<Rightarrow> u32 \<Rightarrow> u32 \<Rightarrow> u32" where
  "sha256_Ch x y z = (x AND y) XOR (NOT x AND z)"

definition sha256_Maj :: "u32 \<Rightarrow> u32 \<Rightarrow> u32 \<Rightarrow> u32" where
  "sha256_Maj x y z = (x AND y) XOR (x AND z) XOR (y AND z)"

definition sha256_ROTR :: "u32 \<Rightarrow> nat \<Rightarrow> u32" where
  "sha256_ROTR x n = drop_bit n x OR push_bit (32 - n) x"

definition sha256_Sigma0 :: "u32 \<Rightarrow> u32" where
  "sha256_Sigma0 x = sha256_ROTR x 2 XOR sha256_ROTR x 13 XOR sha256_ROTR x 22"

definition sha256_Sigma1 :: "u32 \<Rightarrow> u32" where
  "sha256_Sigma1 x = sha256_ROTR x 6 XOR sha256_ROTR x 11 XOR sha256_ROTR x 25"

definition sha256_sigma0 :: "u32 \<Rightarrow> u32" where
  "sha256_sigma0 x = sha256_ROTR x 7 XOR sha256_ROTR x 18 XOR drop_bit 3 x"

definition sha256_sigma1 :: "u32 \<Rightarrow> u32" where
  "sha256_sigma1 x = sha256_ROTR x 17 XOR sha256_ROTR x 19 XOR drop_bit 10 x"

definition mavlink_sha256_constant_256 :: "u32 list" where
  "mavlink_sha256_constant_256 =
    concat [
      [0x428a2f98, 0x71374491, 0xb5c0fbcf, 0xe9b5dba5],
      [0x3956c25b, 0x59f111f1, 0x923f82a4, 0xab1c5ed5],
      [0xd807aa98, 0x12835b01, 0x243185be, 0x550c7dc3],
      [0x72be5d74, 0x80deb1fe, 0x9bdc06a7, 0xc19bf174],
      [0xe49b69c1, 0xefbe4786, 0x0fc19dc6, 0x240ca1cc],
      [0x2de92c6f, 0x4a7484aa, 0x5cb0a9dc, 0x76f988da],
      [0x983e5152, 0xa831c66d, 0xb00327c8, 0xbf597fc7],
      [0xc6e00bf3, 0xd5a79147, 0x06ca6351, 0x14292967],
      [0x27b70a85, 0x2e1b2138, 0x4d2c6dfc, 0x53380d13],
      [0x650a7354, 0x766a0abb, 0x81c2c92e, 0x92722c85],
      [0xa2bfe8a1, 0xa81a664b, 0xc24b8b70, 0xc76c51a3],
      [0xd192e819, 0xd6990624, 0xf40e3585, 0x106aa070],
      [0x19a4c116, 0x1e376c08, 0x2748774c, 0x34b0bcb5],
      [0x391c0cb3, 0x4ed8aa4a, 0x5b9cca4f, 0x682e6ff3],
      [0x748f82ee, 0x78a5636f, 0x84c87814, 0x8cc70208],
      [0x90befffa, 0xa4506ceb, 0xbef9a3f7, 0xc67178f2]]"

definition mavlink_sha256_init :: "mavlink_sha256_ctx \<Rightarrow> mavlink_sha256_ctx" where
  "mavlink_sha256_init m = m\<lparr>
     h_sz := [0, 0],
     h_counter := [0x6a09e667, 0xbb67ae85, 0x3c6ef372, 0xa54ff53a, 0x510e527f, 0x9b05688c, 0x1f83d9ab, 0x5be0cd19]\<rparr>"

section \<open>One block\<close>

text \<open>The array \<^verbatim>\<open>data\<close>, every element of which is written before it is read, one turn of the loop over the rounds, and the block function.\<close>

definition sha256_data :: "u32 list \<Rightarrow> u32 list" where
  "sha256_data inp =
     fold (\<lambda>i data. data[i := sha256_sigma1 (data ! (i - 2)) + data ! (i - 7) + sha256_sigma0 (data ! (i - 15)) + data ! (i - 16)]) [16..<64]
       (fold (\<lambda>i data. data[i := inp ! i]) [0..<16] (replicate 64 0))"

type_synonym sha256_vars = "u32 \<times> u32 \<times> u32 \<times> u32 \<times> u32 \<times> u32 \<times> u32 \<times> u32"

definition sha256_round :: "u32 list \<Rightarrow> nat \<Rightarrow> sha256_vars \<Rightarrow> sha256_vars" where
  "sha256_round data i v =
     (case v of (AA, BB, CC, DD, EE, FF, GG, HH) \<Rightarrow>
        let T1 = HH + sha256_Sigma1 EE + sha256_Ch EE FF GG + mavlink_sha256_constant_256 ! i + data ! i;
            T2 = sha256_Sigma0 AA + sha256_Maj AA BB CC;
            HH = GG; GG = FF; FF = EE; EE = DD + T1; DD = CC; CC = BB; BB = AA; AA = T1 + T2
        in (AA, BB, CC, DD, EE, FF, GG, HH))"

definition mavlink_sha256_calc :: "mavlink_sha256_ctx \<Rightarrow> u32 list \<Rightarrow> mavlink_sha256_ctx" where
  "mavlink_sha256_calc m inp =
     (let c = h_counter m;
          data = sha256_data inp;
          (AA, BB, CC, DD, EE, FF, GG, HH) =
            fold (sha256_round data) [0..<64] (c ! 0, c ! 1, c ! 2, c ! 3, c ! 4, c ! 5, c ! 6, c ! 7)
      in m\<lparr>h_counter := [c ! 0 + AA, c ! 1 + BB, c ! 2 + CC, c ! 3 + DD, c ! 4 + EE, c ! 5 + FF, c ! 6 + GG, c ! 7 + HH]\<rparr>)"

section \<open>The incremental interface\<close>

text \<open>
  The words of the saved block, each the four bytes of \<^verbatim>\<open>save_u32[i]\<close> stored in the opposite order, and the \<^verbatim>\<open>while\<close> loop of
  \<^verbatim>\<open>mavlink_sha256_update\<close> on its variables \<^verbatim>\<open>m\<close>, \<^verbatim>\<open>p\<close>, \<^verbatim>\<open>offset\<close> and \<^verbatim>\<open>len\<close>.
\<close>

definition sha256_current :: "bytes \<Rightarrow> u32 list" where
  "sha256_current u =
     map (\<lambda>i. ucast (u ! (4 * i + 3)) OR push_bit 8 (ucast (u ! (4 * i + 2))) OR push_bit 16 (ucast (u ! (4 * i + 1))) OR
       push_bit 24 (ucast (u ! (4 * i)))) [0..<16]"

text \<open>Every turn copies at least one byte, or finds the block full and empties it.\<close>

lemma sha256_update_turn:
  fixes len offset :: u32
  assumes "0 < len" "l = (if len < 64 - offset then len else 64 - offset)"
  shows "unat (len - l) + unat l = unat len" "offset = 64 \<longleftrightarrow> unat l = 0"
  using assms by (auto simp: unat_sub word_le_nat_alt word_less_nat_alt unat_eq_0)

function sha256_update_loop :: "mavlink_sha256_ctx \<Rightarrow> bytes \<Rightarrow> u32 \<Rightarrow> u32 \<Rightarrow> mavlink_sha256_ctx" where
  "sha256_update_loop m p offset len =
     (if 0 < len
      then let l = 64 - offset;
               l = (if len < l then len else l);
               m = m\<lparr>h_save_bytes := memcpy (h_save_bytes m) (unat offset) (take (unat l) p)\<rparr>;
               offset = offset + l;
               p = drop (unat l) p;
               len = len - l
           in if offset = 64
              then sha256_update_loop (mavlink_sha256_calc m (sha256_current (h_save_bytes m))) p 0 len
              else sha256_update_loop m p offset len
      else m)"
  by auto
termination
proof (relation "measure (\<lambda>(m, p, offset, len). 2 * unat len + (if offset = 64 then 1 else 0))", goal_cases)
  case (2 m p offset len x l m' y p' len')
  then show ?case using sha256_update_turn[of len l offset] by (cases "unat l") auto
next
  case (3 m p offset len x l m' y p' len')
  then show ?case using sha256_update_turn[of len l offset] by (cases "unat l") auto
qed simp

declare sha256_update_loop.simps [simp del]

definition mavlink_sha256_update :: "mavlink_sha256_ctx \<Rightarrow> bytes \<Rightarrow> u32 \<Rightarrow> mavlink_sha256_ctx" where
  "mavlink_sha256_update m v len =
     (let old_sz = h_sz m ! 0;
          m = m\<lparr>h_sz := (h_sz m)[0 := h_sz m ! 0 + len * 8]\<rparr>;
          m = (if h_sz m ! 0 < old_sz then m\<lparr>h_sz := (h_sz m)[1 := h_sz m ! 1 + 1]\<rparr> else m)
      in sha256_update_loop m v ((old_sz div 8) mod 64) len)"

text \<open>The padding in the local array \<^verbatim>\<open>zeros\<close>, and the first six bytes of the digest in big-endian order.\<close>

definition sha256_zeros :: "mavlink_sha256_ctx \<Rightarrow> nat \<Rightarrow> bytes" where
  "sha256_zeros m dstart =
     (memset (replicate 72 0) 1 0 71)[0 := 0x80,
        dstart + 7 := ucast (h_sz m ! 0 AND 0xff), dstart + 6 := ucast (drop_bit 8 (h_sz m ! 0) AND 0xff),
        dstart + 5 := ucast (drop_bit 16 (h_sz m ! 0) AND 0xff), dstart + 4 := ucast (drop_bit 24 (h_sz m ! 0) AND 0xff),
        dstart + 3 := ucast (h_sz m ! 1 AND 0xff), dstart + 2 := ucast (drop_bit 8 (h_sz m ! 1) AND 0xff),
        dstart + 1 := ucast (drop_bit 16 (h_sz m ! 1) AND 0xff), dstart := ucast (drop_bit 24 (h_sz m ! 1) AND 0xff)]"

definition mavlink_sha256_final_48 :: "mavlink_sha256_ctx \<Rightarrow> mavlink_sha256_ctx \<times> bytes" where
  "mavlink_sha256_final_48 m =
     (let offset = (h_sz m ! 0 div 8) mod 64;
          dstart = (120 - offset - 1) mod 64 + 1;
          m = mavlink_sha256_update m (sha256_zeros m (unat dstart)) (dstart + 8);
          p = (\<lambda>i. ucast (drop_bit (8 * (i mod 4)) (h_counter m ! (i div 4))))
      in (m, [p 3, p 2, p 1, p 0, p 7, p 6]))"

end
