(* ===== verification/Mavlink_Signing.thy ===== *)
theory Mavlink_Signing
  imports Mavlink Mavlink_Sha256
begin

text \<open>
  Packet signing and the rest of the framing layer of \<^verbatim>\<open>mavlink/v2.0/mavlink_helpers.h\<close>: signature blocks (\<^verbatim>\<open>mavlink_sign_packet\<close>,
  \<^verbatim>\<open>mavlink_signature_check\<close>), finishing a message (\<^verbatim>\<open>mavlink_finalize_message_buffer\<close>), the parser with a signing context, and the
  per-channel functions on top of it (\<^verbatim>\<open>mavlink_frame_char\<close>, \<^verbatim>\<open>mavlink_parse_char\<close>, the protocol version).

  The two pointers of \<^verbatim>\<open>mavlink_status_t\<close> that the status record leaves out are passed beside it: \<open>None\<close> is NULL, and the structures they
  point to are returned updated.  The callback only reads its arguments, so it is a function.
\<close>

section \<open>Data\<close>

datatype mavlink_signing_status_t =
    SIGNING_STATUS_NONE | SIGNING_STATUS_OK | SIGNING_STATUS_BAD_SIGNATURE | SIGNING_STATUS_NO_STREAMS
  | SIGNING_STATUS_TOO_MANY_STREAMS | SIGNING_STATUS_OLD_TIMESTAMP | SIGNING_STATUS_REPLAY

record mavlink_signing_t =
  g_flags :: u8
  g_link_id :: u8
  g_timestamp :: u64
  g_secret_key :: bytes
  g_accept_unsigned_callback :: "(mavlink_status_t \<Rightarrow> u32 \<Rightarrow> bool) option"
  g_last_status :: mavlink_signing_status_t

record mavlink_signing_stream =
  t_link_id :: u8
  t_sysid :: u8
  t_compid :: u8
  t_timestamp_bytes :: bytes

record mavlink_signing_streams_t =
  ss_num_signing_streams :: u16
  ss_stream :: "mavlink_signing_stream list"

abbreviation MAVLINK_MAX_SIGNING_STREAMS :: nat where "MAVLINK_MAX_SIGNING_STREAMS \<equiv> 16"

section \<open>Signature blocks\<close>

text \<open>The union of a time stamp with its bytes, on a little-endian machine.\<close>

definition tstamp_t8 :: "u64 \<Rightarrow> bytes" where
  "tstamp_t8 t = map (\<lambda>i. ucast (drop_bit (8 * i) t)) [0..<8]"

definition tstamp_t64 :: "bytes \<Rightarrow> u64" where
  "tstamp_t64 b = fold (\<lambda>i t. t OR push_bit (8 * i) (ucast (b ! i))) [0..<8] 0"

text \<open>The content of the local hash context before \<^verbatim>\<open>mavlink_sha256_init\<close>; the digest does not depend on it (\<open>mac48_any_ctx\<close>).\<close>

definition sha256_ctx0 :: mavlink_sha256_ctx where
  "sha256_ctx0 = \<lparr>h_sz = [0, 0], h_counter = replicate 8 0, h_save_bytes = replicate 64 0\<rparr>"

text \<open>The seven calls that compute the six last bytes of a signature block, the same in both functions.\<close>

definition mac48 :: "mavlink_sha256_ctx \<Rightarrow> bytes \<Rightarrow> bytes \<Rightarrow> bytes \<Rightarrow> bytes \<Rightarrow> bytes \<Rightarrow> bytes" where
  "mac48 ctx secret_key header packet crc signature =
     (let ctx = mavlink_sha256_init ctx;
          ctx = mavlink_sha256_update ctx secret_key 32;
          ctx = mavlink_sha256_update ctx header (word_of_nat (length header));
          ctx = mavlink_sha256_update ctx packet (word_of_nat (length packet));
          ctx = mavlink_sha256_update ctx crc 2;
          ctx = mavlink_sha256_update ctx signature 7
      in snd (mavlink_sha256_final_48 ctx))"

definition mavlink_sign_packet :: "mavlink_signing_t option \<Rightarrow> bytes \<Rightarrow> bytes \<Rightarrow> bytes \<Rightarrow> bytes \<Rightarrow>
    u8 \<times> mavlink_signing_t option \<times> bytes" where
  "mavlink_sign_packet signing signature header packet crc =
     (case signing of
        None \<Rightarrow> (0, signing, signature)
      | Some s \<Rightarrow>
          if g_flags s AND 1 = 0 then (0, signing, signature)
          else let signature = signature[0 := g_link_id s];
                   signature = memcpy signature 1 (take 6 (tstamp_t8 (g_timestamp s)));
                   s = s\<lparr>g_timestamp := g_timestamp s + 1\<rparr>;
                   signature = memcpy signature 7 (mac48 sha256_ctx0 (g_secret_key s) header packet crc signature)
               in (word_of_nat MAVLINK_SIGNATURE_BLOCK_LEN, Some s, signature))"

text \<open>The ten bytes of the packed structure from \<^verbatim>\<open>magic\<close> to \<^verbatim>\<open>msgid\<close>, and the search for the stream of a message.\<close>

definition message_header_bytes :: "mavlink_message_t \<Rightarrow> bytes" where
  "message_header_bytes msg =
     [m_magic msg, m_len msg, m_incompat_flags msg, m_compat_flags msg, m_seq msg, m_sysid msg, m_compid msg,
      ucast (m_msgid msg), ucast (drop_bit 8 (m_msgid msg)), ucast (drop_bit 16 (m_msgid msg))]"

definition same_stream :: "mavlink_message_t \<Rightarrow> u8 \<Rightarrow> mavlink_signing_stream \<Rightarrow> bool" where
  "same_stream msg link_id s \<longleftrightarrow> m_sysid msg = t_sysid s \<and> m_compid msg = t_compid s \<and> link_id = t_link_id s"

function find_stream :: "mavlink_signing_streams_t \<Rightarrow> mavlink_message_t \<Rightarrow> u8 \<Rightarrow> nat \<Rightarrow> nat" where
  "find_stream ss msg link_id i =
     (if i < unat (ss_num_signing_streams ss)
      then if same_stream msg link_id (ss_stream ss ! i) then i else find_stream ss msg link_id (i + 1)
      else i)"
  by auto
termination by (relation "measure (\<lambda>(ss, msg, link_id, i). unat (ss_num_signing_streams ss) - i)") auto

declare find_stream.simps [simp del]

text \<open>
  \<^verbatim>\<open>mavlink_signature_check\<close> from \<^verbatim>\<open>// find stream\<close> on, for a signature that is right: the status it leaves and, if the message is accepted, the
  new table of streams.
\<close>

definition check_stream :: "mavlink_signing_t \<Rightarrow> mavlink_signing_streams_t \<Rightarrow> mavlink_message_t \<Rightarrow>
    mavlink_signing_status_t \<times> mavlink_signing_streams_t" where
  "check_stream signing ss msg =
     (let psig = m_signature msg;
          link_id = psig ! 0;
          tstamp = tstamp_t64 (memcpy (replicate 8 0) 0 (take 6 (drop 1 psig)));
          i = find_stream ss msg link_id 0;
          remember = (\<lambda>ss. ss\<lparr>ss_stream := (ss_stream ss)[i := (ss_stream ss ! i)\<lparr>t_timestamp_bytes := take 6 (drop 1 psig)\<rparr>]\<rparr>)
      in if i = unat (ss_num_signing_streams ss)
         then if MAVLINK_MAX_SIGNING_STREAMS \<le> unat (ss_num_signing_streams ss) then (SIGNING_STATUS_TOO_MANY_STREAMS, ss)
              else if tstamp + 6000 * 1000 < g_timestamp signing then (SIGNING_STATUS_OLD_TIMESTAMP, ss)
              else (SIGNING_STATUS_OK,
                remember (ss\<lparr>ss_stream := (ss_stream ss)[i := (ss_stream ss ! i)\<lparr>t_sysid := m_sysid msg, t_compid := m_compid msg, t_link_id := link_id\<rparr>],
                  ss_num_signing_streams := ss_num_signing_streams ss + 1\<rparr>))
         else let last_tstamp = tstamp_t64 (memcpy (replicate 8 0) 0 (t_timestamp_bytes (ss_stream ss ! i)))
              in if tstamp \<le> last_tstamp then (SIGNING_STATUS_REPLAY, ss) else (SIGNING_STATUS_OK, remember ss))"

definition mavlink_signature_check :: "mavlink_signing_t option \<Rightarrow> mavlink_signing_streams_t option \<Rightarrow> mavlink_message_t \<Rightarrow>
    bool \<times> mavlink_signing_t option \<times> mavlink_signing_streams_t option" where
  "mavlink_signature_check signing signing_streams msg =
     (case signing of
        None \<Rightarrow> (True, signing, signing_streams)
      | Some s \<Rightarrow>
          let psig = m_signature msg;
              signature = mac48 sha256_ctx0 (g_secret_key s) (message_header_bytes msg) (take (unat (m_len msg)) (m_payload msg)) (m_ck msg) psig
          in if signature \<noteq> take 6 (drop 7 psig)
             then (False, Some (s\<lparr>g_last_status := SIGNING_STATUS_BAD_SIGNATURE\<rparr>), signing_streams)
             else case signing_streams of
                 None \<Rightarrow> (False, Some (s\<lparr>g_last_status := SIGNING_STATUS_NO_STREAMS\<rparr>), None)
               | Some ss \<Rightarrow>
                   let (status, ss) = check_stream s ss msg;
                       tstamp = tstamp_t64 (memcpy (replicate 8 0) 0 (take 6 (drop 1 psig)));
                       s = (if status = SIGNING_STATUS_OK \<and> g_timestamp s < tstamp then s\<lparr>g_timestamp := tstamp\<rparr> else s)
                   in (status = SIGNING_STATUS_OK, Some (s\<lparr>g_last_status := status\<rparr>), Some ss))"

section \<open>Finishing a message\<close>

text \<open>
  \<^verbatim>\<open>mavlink_finalize_message_buffer\<close>; \<^verbatim>\<open>mavlink_ck_a\<close> and \<^verbatim>\<open>mavlink_ck_b\<close> are the two payload bytes after the last one of the message.
\<close>

definition out_mavlink1 :: "mavlink_status_t \<Rightarrow> bool" where
  "out_mavlink1 status \<longleftrightarrow> s_flags status AND 2 \<noteq> 0"

definition finalize_header :: "bool \<Rightarrow> bool \<Rightarrow> mavlink_message_t \<Rightarrow> u8 \<Rightarrow> u8 \<Rightarrow> mavlink_status_t \<Rightarrow> u8 \<Rightarrow> u8 \<Rightarrow> mavlink_message_t" where
  "finalize_header mavlink1 sign msg system_id component_id status min_length len =
     (let msg = msg\<lparr>m_magic := (if mavlink1 then MAVLINK_STX_MAVLINK1 else MAVLINK_STX)\<rparr>;
          msg = msg\<lparr>m_len := (if mavlink1 then min_length else word_of_nat (mav_trim_payload (m_payload msg) (unat len)))\<rparr>
      in msg\<lparr>m_sysid := system_id, m_compid := component_id, m_incompat_flags := (if sign then 1 else 0), m_compat_flags := 0,
             m_seq := s_current_tx_seq status\<rparr>)"

definition signs :: "mavlink_signing_t option \<Rightarrow> bool" where
  "signs signing \<longleftrightarrow> (case signing of None \<Rightarrow> False | Some s \<Rightarrow> g_flags s AND 1 \<noteq> 0)"

definition mavlink_finalize_message_buffer :: "mavlink_message_t \<Rightarrow> u8 \<Rightarrow> u8 \<Rightarrow> mavlink_status_t \<Rightarrow> mavlink_signing_t option \<Rightarrow>
    u8 \<Rightarrow> u8 \<Rightarrow> u8 \<Rightarrow> u16 \<times> mavlink_message_t \<times> mavlink_status_t \<times> mavlink_signing_t option" where
  "mavlink_finalize_message_buffer msg system_id component_id status signing min_length len crc_extra =
     (let mavlink1 = out_mavlink1 status;
          sign = (\<not> mavlink1 \<and> signs signing);
          signature_len = (if sign then MAVLINK_SIGNATURE_BLOCK_LEN else 0);
          header_len = (if mavlink1 then 6 else 10);
          msg = finalize_header mavlink1 sign msg system_id component_id status min_length len;
          status = status\<lparr>s_current_tx_seq := s_current_tx_seq status + 1\<rparr>;
          buf = (if mavlink1 then header_mavlink1 msg else header_mavlink2 msg (unat (m_len msg)));
          checksum = crc_calculate (tl buf);
          checksum = crc_accumulate_buffer checksum (take (unat (m_len msg)) (m_payload msg));
          checksum = crc_accumulate crc_extra checksum;
          n = unat (m_len msg);
          msg = msg\<lparr>m_payload := (m_payload msg)[n := ucast (checksum AND 0xFF), n + 1 := ucast (drop_bit 8 checksum)]\<rparr>;
          msg = msg\<lparr>m_checksum := checksum\<rparr>;
          (signing, sig) =
            (if sign then snd (mavlink_sign_packet signing (m_signature msg) buf (take n (m_payload msg)) (take 2 (drop n (m_payload msg))))
             else (signing, m_signature msg))
      in (word_of_nat (n + header_len + 2 + signature_len), msg\<lparr>m_signature := sig\<rparr>, status, signing))"

section \<open>The parser with a signing context\<close>

text \<open>
  The two cases of the switch that look at \<^verbatim>\<open>status->signing\<close>: the second checksum byte of an unsigned frame, which is refused unless the
  callback accepts it, and the last signature byte.  Every other case is the one of \<open>frame_switch\<close>.
\<close>

definition accept_unsigned :: "mavlink_signing_t \<Rightarrow> mavlink_status_t \<Rightarrow> mavlink_message_t \<Rightarrow> bool" where
  "accept_unsigned s st rx = (case g_accept_unsigned_callback s of None \<Rightarrow> False | Some f \<Rightarrow> f st (ucast (m_msgid rx)))"

definition frame_crc2_signing :: "mavlink_signing_t option \<Rightarrow> u8 \<Rightarrow> mavlink_message_t \<Rightarrow> mavlink_status_t \<Rightarrow> mavlink_message_t \<Rightarrow>
    mavlink_message_t \<times> mavlink_status_t \<times> mavlink_message_t" where
  "frame_crc2_signing signing c rx st r =
     (let received = (if s_parse_state st = PARSE_STATE_GOT_BAD_CRC1 \<or> ucast c \<noteq> drop_bit 8 (m_checksum rx)
                      then FRAMING_BAD_CRC else FRAMING_OK);
          rx' = rx\<lparr>m_ck := (m_ck rx)[1 := c]\<rparr>
      in if m_incompat_flags rx AND 1 \<noteq> 0 then
           (rx', st\<lparr>s_parse_state := PARSE_STATE_SIGNATURE_WAIT,
                    s_signature_wait := word_of_nat MAVLINK_SIGNATURE_BLOCK_LEN,
                    s_msg_received := (if received \<noteq> FRAMING_BAD_CRC then FRAMING_INCOMPLETE else received)\<rparr>, r)
         else let refused = (case signing of None \<Rightarrow> False | Some s \<Rightarrow> \<not> accept_unsigned s (st\<lparr>s_msg_received := received\<rparr>) rx');
                  received = (if refused \<and> received \<noteq> FRAMING_BAD_CRC then FRAMING_BAD_SIGNATURE else received)
              in (rx', st\<lparr>s_msg_received := received, s_parse_state := PARSE_STATE_IDLE\<rparr>, rx'))"

type_synonym signing_ctx = "mavlink_signing_t option \<times> mavlink_signing_streams_t option"

definition frame_signature_wait :: "signing_ctx \<Rightarrow> u8 \<Rightarrow> mavlink_message_t \<Rightarrow> mavlink_status_t \<Rightarrow> mavlink_message_t \<Rightarrow>
    (mavlink_message_t \<times> mavlink_status_t \<times> mavlink_message_t) \<times> signing_ctx" where
  "frame_signature_wait ctx c rx st r =
     (let rx' = rx\<lparr>m_signature := (m_signature rx)[MAVLINK_SIGNATURE_BLOCK_LEN - unat (s_signature_wait st) := c]\<rparr>;
          st' = st\<lparr>s_signature_wait := s_signature_wait st - 1\<rparr>
      in if s_signature_wait st' = 0 then
           let (sig_ok, signing, streams) = mavlink_signature_check (fst ctx) (snd ctx) rx';
               sig_ok = (sig_ok \<or> (case signing of None \<Rightarrow> False | Some s \<Rightarrow> accept_unsigned s st' rx'))
           in ((rx', st'\<lparr>s_msg_received := (if sig_ok then FRAMING_OK else FRAMING_BAD_SIGNATURE), s_parse_state := PARSE_STATE_IDLE\<rparr>, rx'),
               signing, streams)
         else ((rx', st', r), ctx))"

definition frame_switch_signing :: "signing_ctx \<Rightarrow> u8 \<Rightarrow> mavlink_message_t \<Rightarrow> mavlink_status_t \<Rightarrow> mavlink_message_t \<Rightarrow>
    (mavlink_message_t \<times> mavlink_status_t \<times> mavlink_message_t) \<times> signing_ctx" where
  "frame_switch_signing ctx c rx st r =
     (case s_parse_state st of
        PARSE_STATE_GOT_CRC1 \<Rightarrow> (frame_crc2_signing (fst ctx) c rx st r, ctx)
      | PARSE_STATE_GOT_BAD_CRC1 \<Rightarrow> (frame_crc2_signing (fst ctx) c rx st r, ctx)
      | PARSE_STATE_SIGNATURE_WAIT \<Rightarrow> frame_signature_wait ctx c rx st r
      | s \<Rightarrow> (frame_switch s c rx st r, ctx))"

text \<open>What follows the switch, as in \<open>mavlink_frame_char_buffer\<close>.\<close>

definition frame_after :: "mavlink_message_t \<times> mavlink_status_t \<times> mavlink_message_t \<Rightarrow> mavlink_status_t \<Rightarrow>
    mavlink_framing_t \<times> mavlink_message_t \<times> mavlink_status_t \<times> mavlink_message_t \<times> mavlink_status_t" where
  "frame_after p rs =
     (case p of (rx1, st1, r1) \<Rightarrow>
        let st2 = frame_count rx1 st1;
            r2 = r1\<lparr>m_len := m_len rx1\<rparr>;
            rs' = frame_status_out st2 rs;
            st3 = st2\<lparr>s_parse_error := 0\<rparr>;
            r3 = (if s_msg_received st3 = FRAMING_BAD_CRC then r2\<lparr>m_checksum := wire_checksum (m_ck rx1)\<rparr> else r2)
        in (s_msg_received st3, rx1, st3, r3, rs'))"

definition frame_char_buffer_signing :: "signing_ctx \<Rightarrow> mavlink_message_t \<Rightarrow> mavlink_status_t \<Rightarrow> u8 \<Rightarrow> mavlink_message_t \<Rightarrow> mavlink_status_t \<Rightarrow>
    (mavlink_framing_t \<times> mavlink_message_t \<times> mavlink_status_t \<times> mavlink_message_t \<times> mavlink_status_t) \<times> signing_ctx" where
  "frame_char_buffer_signing ctx rx st c r rs =
     (case frame_switch_signing ctx c rx (st\<lparr>s_msg_received := FRAMING_INCOMPLETE\<rparr>) r of (p, ctx') \<Rightarrow> (frame_after p rs, ctx'))"

section \<open>Channels\<close>

text \<open>
  The static arrays behind \<^verbatim>\<open>mavlink_get_channel_status\<close> and \<^verbatim>\<open>mavlink_get_channel_buffer\<close>, with the signing context of each channel.
\<close>

record mavlink_channels =
  ch_status :: "mavlink_status_t list"
  ch_buffer :: "mavlink_message_t list"
  ch_signing :: "signing_ctx list"

definition mavlink_reset_channel_status :: "mavlink_channels \<Rightarrow> nat \<Rightarrow> mavlink_channels" where
  "mavlink_reset_channel_status ch chan =
     ch\<lparr>ch_status := (ch_status ch)[chan := (ch_status ch ! chan)\<lparr>s_parse_state := PARSE_STATE_IDLE\<rparr>]\<rparr>"

definition mavlink_finalize_message_chan :: "mavlink_channels \<Rightarrow> mavlink_message_t \<Rightarrow> u8 \<Rightarrow> u8 \<Rightarrow> nat \<Rightarrow> u8 \<Rightarrow> u8 \<Rightarrow> u8 \<Rightarrow>
    u16 \<times> mavlink_message_t \<times> mavlink_channels" where
  "mavlink_finalize_message_chan ch msg system_id component_id chan min_length len crc_extra =
     (case mavlink_finalize_message_buffer msg system_id component_id (ch_status ch ! chan) (fst (ch_signing ch ! chan)) min_length len crc_extra of
        (n, msg, status, signing) \<Rightarrow>
          (n, msg, ch\<lparr>ch_status := (ch_status ch)[chan := status],
                      ch_signing := (ch_signing ch)[chan := (signing, snd (ch_signing ch ! chan))]\<rparr>))"

definition mavlink_finalize_message :: "mavlink_channels \<Rightarrow> mavlink_message_t \<Rightarrow> u8 \<Rightarrow> u8 \<Rightarrow> u8 \<Rightarrow> u8 \<Rightarrow> u8 \<Rightarrow>
    u16 \<times> mavlink_message_t \<times> mavlink_channels" where
  "mavlink_finalize_message ch msg system_id component_id min_length len crc_extra =
     mavlink_finalize_message_chan ch msg system_id component_id 0 min_length len crc_extra"

definition mavlink_frame_char :: "mavlink_channels \<Rightarrow> nat \<Rightarrow> u8 \<Rightarrow> mavlink_message_t \<Rightarrow> mavlink_status_t \<Rightarrow>
    mavlink_framing_t \<times> mavlink_channels \<times> mavlink_message_t \<times> mavlink_status_t" where
  "mavlink_frame_char ch chan c r rs =
     (case frame_char_buffer_signing (ch_signing ch ! chan) (ch_buffer ch ! chan) (ch_status ch ! chan) c r rs of
        ((f, rx, st, r, rs), ctx) \<Rightarrow>
          (f, ch\<lparr>ch_status := (ch_status ch)[chan := st], ch_buffer := (ch_buffer ch)[chan := rx], ch_signing := (ch_signing ch)[chan := ctx]\<rparr>, r, rs))"

definition mavlink_set_proto_version :: "mavlink_channels \<Rightarrow> nat \<Rightarrow> u32 \<Rightarrow> mavlink_channels" where
  "mavlink_set_proto_version ch chan version =
     (let status = ch_status ch ! chan;
          status = (if 1 < version then status\<lparr>s_flags := s_flags status AND NOT 2\<rparr> else status\<lparr>s_flags := s_flags status OR 2\<rparr>)
      in ch\<lparr>ch_status := (ch_status ch)[chan := status]\<rparr>)"

definition mavlink_get_proto_version :: "mavlink_channels \<Rightarrow> nat \<Rightarrow> u32" where
  "mavlink_get_proto_version ch chan = (if 0 < s_flags (ch_status ch ! chan) AND 2 then 1 else 2)"

definition mavlink_parse_char :: "mavlink_channels \<Rightarrow> nat \<Rightarrow> u8 \<Rightarrow> mavlink_message_t \<Rightarrow> mavlink_status_t \<Rightarrow>
    mavlink_framing_t \<times> mavlink_channels \<times> mavlink_message_t \<times> mavlink_status_t" where
  "mavlink_parse_char ch chan c r rs =
     (case mavlink_frame_char ch chan c r rs of (msg_received, ch, r, rs) \<Rightarrow>
        if msg_received = FRAMING_BAD_CRC \<or> msg_received = FRAMING_BAD_SIGNATURE
        then let rxmsg = ch_buffer ch ! chan;
                 status = mav_parse_error (ch_status ch ! chan);
                 status = status\<lparr>s_msg_received := FRAMING_INCOMPLETE, s_parse_state := PARSE_STATE_IDLE\<rparr>;
                 (rxmsg, status) =
                   (if c = MAVLINK_STX
                    then (mavlink_start_checksum (rxmsg\<lparr>m_len := 0\<rparr>), status\<lparr>s_parse_state := PARSE_STATE_GOT_STX\<rparr>)
                    else (rxmsg, status))
             in (FRAMING_INCOMPLETE, ch\<lparr>ch_status := (ch_status ch)[chan := status], ch_buffer := (ch_buffer ch)[chan := rxmsg]\<rparr>, r, rs)
        else (msg_received, ch, r, rs))"

end
