(* ===== verification/Mavlink_Sha256_Correct.thy ===== *)
theory Mavlink_Sha256_Correct
  imports Mavlink_Sha256 Sha512_Correct
begin

text \<open>
  SHA-256 as FIPS 180-4 defines it and the proof that the incremental hash of \<^verbatim>\<open>mavlink_sha256.h\<close> computes its first 48 bits, for every way of
  cutting the message into pieces.
\<close>

section \<open>The standard\<close>

definition fips256_K :: "nat \<Rightarrow> u32" where
  "fips256_K t = word_of_nat (floor_root 3 (fips_primes ! t * 2 ^ (3 * 32)))"

definition fips256_H0 :: "u32 list" where
  "fips256_H0 = map (\<lambda>i. word_of_nat (floor_root 2 (fips_primes ! i * 2 ^ (2 * 32)))) [0..<8]"

definition fips256_Ch :: "u32 \<Rightarrow> u32 \<Rightarrow> u32 \<Rightarrow> u32" where
  "fips256_Ch x y z = (x AND y) XOR (NOT x AND z)"

definition fips256_Maj :: "u32 \<Rightarrow> u32 \<Rightarrow> u32 \<Rightarrow> u32" where
  "fips256_Maj x y z = (x AND y) XOR (x AND z) XOR (y AND z)"

definition fips256_Sigma0 :: "u32 \<Rightarrow> u32" where
  "fips256_Sigma0 x = word_rotr 2 x XOR word_rotr 13 x XOR word_rotr 22 x"

definition fips256_Sigma1 :: "u32 \<Rightarrow> u32" where
  "fips256_Sigma1 x = word_rotr 6 x XOR word_rotr 11 x XOR word_rotr 25 x"

definition fips256_sigma0 :: "u32 \<Rightarrow> u32" where
  "fips256_sigma0 x = word_rotr 7 x XOR word_rotr 18 x XOR drop_bit 3 x"

definition fips256_sigma1 :: "u32 \<Rightarrow> u32" where
  "fips256_sigma1 x = word_rotr 17 x XOR word_rotr 19 x XOR drop_bit 10 x"

fun fips256_W :: "bytes \<Rightarrow> nat \<Rightarrow> u32" where
  "fips256_W M t =
     (if t < 16 then word_of_nat (be_val (take 4 (drop (4 * t) M)))
      else fips256_sigma1 (fips256_W M (t - 2)) + fips256_W M (t - 7) + fips256_sigma0 (fips256_W M (t - 15)) + fips256_W M (t - 16))"

definition fips256_round :: "bytes \<Rightarrow> nat \<Rightarrow> sha256_vars \<Rightarrow> sha256_vars" where
  "fips256_round M t s =
     (case s of (a, b, c, d, e, f, g, h) \<Rightarrow>
        let T1 = h + fips256_Sigma1 e + fips256_Ch e f g + fips256_K t + fips256_W M t;
            T2 = fips256_Sigma0 a + fips256_Maj a b c
        in (T1 + T2, a, b, c, d + T1, e, f, g))"

definition fips256_compress :: "u32 list \<Rightarrow> bytes \<Rightarrow> u32 list" where
  "fips256_compress H M =
     (case fold (fips256_round M) [0..<64] (H ! 0, H ! 1, H ! 2, H ! 3, H ! 4, H ! 5, H ! 6, H ! 7) of
        (a, b, c, d, e, f, g, h) \<Rightarrow>
          [a + H ! 0, b + H ! 1, c + H ! 2, d + H ! 3, e + H ! 4, f + H ! 5, g + H ! 6, h + H ! 7])"

fun fips256_parse :: "bytes \<Rightarrow> bytes list" where
  "fips256_parse m = (if length m < 64 then [] else take 64 m # fips256_parse (drop 64 m))"

definition fips256_pad :: "bytes \<Rightarrow> bytes" where
  "fips256_pad m = m @ [0x80] @ replicate ((119 - length m mod 64) mod 64) 0 @ be_bytes 8 (8 * length m)"

definition sha256 :: "bytes \<Rightarrow> bytes" where
  "sha256 m = concat (map (\<lambda>h. be_bytes 4 (unat h)) (foldl fips256_compress fips256_H0 (fips256_parse (fips256_pad m))))"

declare fips256_W.simps [simp del] fips256_parse.simps [simp del]

section \<open>Constants and words\<close>

lemma sha256_constants_frac: "list_all2 (\<lambda>p. frac_root 3 (int p)) (take 64 fips_primes) (zip
    ([1, 1, 1, 1] @ replicate 5 2 @ replicate 9 3 @ replicate 12 4 @ replicate 17 5 @ replicate 17 6) mavlink_sha256_constant_256)"
  unfolding fips_primes_def mavlink_sha256_constant_256_def by code_simp

lemma sha256_constants_eq:
  assumes "i < 64"
  shows "mavlink_sha256_constant_256 ! i = fips256_K i"
proof -
  have l: "length fips_primes = 80" "length mavlink_sha256_constant_256 = 64" by (simp_all add: fips_primes_def mavlink_sha256_constant_256_def)
  obtain k where "frac_root 3 (int (fips_primes ! i)) (k, mavlink_sha256_constant_256 ! i)"
    using list_all2_nthD[OF sha256_constants_frac, of i] assms l by auto
  from frac_root_word[OF this] show ?thesis by (simp add: fips256_K_def)
qed

lemma sha256_H0_frac: "list_all2 (\<lambda>p. frac_root 2 (int p)) (take 8 fips_primes) (zip [1, 1, 2, 2, 3, 3, 4, 4] (h_counter (mavlink_sha256_init m)))"
  by (simp add: fips_primes_def mavlink_sha256_init_def frac_root_def)

lemma h_counter_init: "h_counter (mavlink_sha256_init m) = fips256_H0"
proof (rule nth_equalityI)
  fix i assume "i < length (h_counter (mavlink_sha256_init m))"
  then have i: "i < 8" by (simp add: mavlink_sha256_init_def)
  have "length fips_primes = 80" "length (h_counter (mavlink_sha256_init m)) = 8" by (simp_all add: fips_primes_def mavlink_sha256_init_def)
  then have f: "frac_root 2 (int (fips_primes ! i)) ([1, 1, 2, 2, 3, 3, 4, 4] ! i, h_counter (mavlink_sha256_init m) ! i)"
    using list_all2_nthD[OF sha256_H0_frac, of i m] i by simp
  show "h_counter (mavlink_sha256_init m) ! i = fips256_H0 ! i" using frac_root_word[OF f] i by (simp add: fips256_H0_def)
qed (simp add: mavlink_sha256_init_def fips256_H0_def)

lemma sha256_ROTR_eq: "0 < k \<Longrightarrow> k < 32 \<Longrightarrow> sha256_ROTR x k = word_rotr k x"
  using shifts_rotr[of k x] by (simp add: sha256_ROTR_def)

lemma sha256_functions_eq:
  "sha256_Sigma0 x = fips256_Sigma0 x" "sha256_Sigma1 x = fips256_Sigma1 x" "sha256_sigma0 x = fips256_sigma0 x" "sha256_sigma1 x = fips256_sigma1 x"
  "sha256_Ch x y z = fips256_Ch x y z" "sha256_Maj x y z = fips256_Maj x y z"
  by (simp_all add: sha256_Sigma0_def sha256_Sigma1_def sha256_sigma0_def sha256_sigma1_def fips256_Sigma0_def fips256_Sigma1_def
      fips256_sigma0_def fips256_sigma1_def sha256_ROTR_eq sha256_Ch_def fips256_Ch_def sha256_Maj_def fips256_Maj_def)

lemma length_sha256_current [simp]: "length (sha256_current u) = 16"
  by (simp add: sha256_current_def)

lemma list4_nth: "length p = 4 \<Longrightarrow> p = [p ! 0, p ! 1, p ! 2, p ! 3]"
  by (rule nth_equalityI) (auto simp: less_Suc_eq numeral_eq_Suc)

lemma sha256_current_eq:
  assumes "length M = 64" "i < 16"
  shows "sha256_current M ! i = fips256_W M i"
proof -
  define q where "q = take 4 (drop (4 * i) M)"
  have n: "M ! (4 * i + j) = q ! j" if "j < 4" for j using that assms by (simp add: q_def)
  have "length q = 4" using assms by (simp add: q_def)
  note q = list4_nth[OF this]
  have v: "be_val q = ((unat (q ! 0) * 256 + unat (q ! 1)) * 256 + unat (q ! 2)) * 256 + unat (q ! 3)"
    by (subst q) (simp add: be_val_def)
  have "sha256_current M ! i = push_bit 8 (push_bit 8 (push_bit 8 (ucast (q ! 0)) OR ucast (q ! 1)) OR ucast (q ! 2)) OR ucast (q ! 3)"
    using n[of 0] n[of 1] n[of 2] n[of 3] assms(2) by (simp add: sha256_current_def push_bit_or or.assoc or.commute or.left_commute)
  also have "\<dots> = word_of_nat (be_val q)" unfolding v by (simp only: push_byte_or) (simp add: word_of_nat_unat)
  finally show ?thesis using assms(2) by (simp add: fips256_W.simps[of M i] q_def)
qed

section \<open>One block\<close>

lemma sha256_data_first:
  "n \<le> 16 \<Longrightarrow> length (fold (\<lambda>i data. data[i := inp ! i]) [0..<n] (replicate 64 0)) = 64 \<and>
    (\<forall>i < n. fold (\<lambda>i data. data[i := inp ! i]) [0..<n] (replicate 64 0) ! i = inp ! i)"
  by (induction n) (auto simp: less_Suc_eq)

lemma sha256_data_eq:
  assumes "length M = 64" "t < 64"
  shows "sha256_data (sha256_current M) ! t = fips256_W M t"
proof -
  let ?f = "\<lambda>i data. data[i := sha256_sigma1 (data ! (i - 2)) + data ! (i - 7) + sha256_sigma0 (data ! (i - 15)) + data ! (i - 16)]"
  let ?d = "fold (\<lambda>i data. data[i := sha256_current M ! i]) [0..<16] (replicate 64 0)"
  have w: "length (fold ?f [16..<n] ?d) = 64 \<and> (\<forall>i < n. fold ?f [16..<n] ?d ! i = fips256_W M i)" if "16 \<le> n" "n \<le> 64" for n
    using that
  proof (induction n rule: dec_induct)
    case base
    then show ?case using sha256_data_first[of 16 "sha256_current M"] sha256_current_eq[OF assms(1)] by simp
  next
    case (step n)
    let ?w = "fold ?f [16..<n] ?d"
    have ih: "length ?w = 64" "\<forall>i < n. ?w ! i = fips256_W M i" using step by auto
    have "sha256_sigma1 (?w ! (n - 2)) + ?w ! (n - 7) + sha256_sigma0 (?w ! (n - 15)) + ?w ! (n - 16) = fips256_W M n"
      using ih(2) step.hyps by (simp add: sha256_functions_eq fips256_W.simps[of M n])
    then show ?case using ih step.hyps step.prems by (auto simp: less_Suc_eq)
  qed
  have "16 \<le> (64 :: nat)" by simp
  from w[OF this order.refl] assms(2) show ?thesis unfolding sha256_data_def by blast
qed

lemma sha256_rounds_eq:
  "length M = 64 \<Longrightarrow> n \<le> 64 \<Longrightarrow> fold (sha256_round (sha256_data (sha256_current M))) [0..<n] s = fold (fips256_round M) [0..<n] s"
  by (induction n) (simp_all add: sha256_round_def fips256_round_def sha256_data_eq sha256_functions_eq sha256_constants_eq split: prod.split)

lemma mavlink_sha256_calc_eq:
  assumes "length M = 64"
  shows "mavlink_sha256_calc m (sha256_current M) = m\<lparr>h_counter := fips256_compress (h_counter m) M\<rparr>"
  by (simp add: mavlink_sha256_calc_def fips256_compress_def Let_def sha256_rounds_eq[OF assms] add.commute split: prod.split)

lemma fips256_parse_append: "64 dvd length a \<Longrightarrow> fips256_parse (a @ b) = fips256_parse a @ fips256_parse b"
proof (induction a rule: fips256_parse.induct)
  case (1 a)
  show ?case
  proof (cases "length a < 64")
    case True
    then have "a = []" using 1 by (auto dest: nat_dvd_not_less)
    then show ?thesis by (simp add: fips256_parse.simps[of "[]"])
  next
    case False
    then have "fips256_parse (drop 64 a @ b) = fips256_parse (drop 64 a) @ fips256_parse b" using 1 by (auto simp: dvd_minus_self)
    then show ?thesis using False by (simp add: fips256_parse.simps[of "a @ b"] fips256_parse.simps[of a])
  qed
qed

lemma length_fips256_compress [simp]: "length (fips256_compress H M) = 8"
  by (simp add: fips256_compress_def split: prod.split)

lemma length_fips256_fold: "length H = 8 \<Longrightarrow> length (foldl fips256_compress H bs) = 8"
  by (induction bs arbitrary: H) simp_all

lemma length_fips256_H0: "length fips256_H0 = 8"
  by (simp add: fips256_H0_def)

section \<open>Messages in pieces\<close>

text \<open>The context after the message \<open>m\<close>: the hash value of its full blocks, the rest of it at the start of the saved block, and its length in bits.\<close>

definition hashed :: "mavlink_sha256_ctx \<Rightarrow> bytes \<Rightarrow> bool" where
  "hashed h m \<longleftrightarrow> length (h_save_bytes h) = 64 \<and> h_counter h = foldl fips256_compress fips256_H0 (fips256_parse m) \<and>
     take (length m mod 64) (h_save_bytes h) = drop (64 * (length m div 64)) m"

definition counted :: "mavlink_sha256_ctx \<Rightarrow> bytes \<Rightarrow> bool" where
  "counted h m \<longleftrightarrow> h_sz h = [word_of_nat (8 * length m), word_of_nat (8 * length m div 2 ^ 32)]"

lemma fips256_parse_full: "fips256_parse m = fips256_parse (take (64 * (length m div 64)) m)"
proof -
  define n where "n = 64 * (length m div 64)"
  have "length (drop n m) < 64" by (simp add: n_def minus_mult_div_eq_mod)
  then have "fips256_parse (drop n m) = []" by (simp add: fips256_parse.simps)
  moreover have "n \<le> length m" by (simp add: n_def)
  then have "64 dvd length (take n m)" by (simp add: n_def)
  ultimately show ?thesis using fips256_parse_append[of "take n m" "drop n m"] by (simp add: n_def)
qed

lemma div_mod_64: "k < 64 \<Longrightarrow> a = 64 * n + k \<Longrightarrow> a div 64 = n \<and> a mod 64 = k" for a :: nat
  by simp

lemma hashed_turn:
  assumes "hashed h m" "length x \<le> 64 - length m mod 64"
  defines "h' \<equiv> h\<lparr>h_save_bytes := memcpy (h_save_bytes h) (length m mod 64) x\<rparr>"
  shows "length m mod 64 + length x < 64 \<Longrightarrow> hashed h' (m @ x)"
    and "length m mod 64 + length x = 64 \<Longrightarrow> hashed (mavlink_sha256_calc h' (sha256_current (h_save_bytes h'))) (m @ x)"
proof -
  let ?n = "length m div 64" and ?r = "length m mod 64"
  let ?q = "drop (64 * ?n) m"
  have h: "length (h_save_bytes h) = 64" "take ?r (h_save_bytes h) = ?q" "length ?q = ?r" "?r < 64"
    using assms(1) by (simp_all add: hashed_def minus_mult_div_eq_mod)
  have len: "length m = 64 * ?n + ?r" by simp
  have s: "take (?r + length x) (h_save_bytes h') = ?q @ x" "length (h_save_bytes h') = 64"
    using h assms(2) by (simp_all add: h'_def memcpy_def)
  have L: "length (m @ x) = 64 * ?n + (?r + length x)" by (metis add.assoc len length_append)
  have le: "64 * ?n \<le> length m" by simp
  then have d: "drop (64 * ?n) (m @ x) = ?q @ x" by simp
  {
    assume l: "?r + length x < 64"
    from div_mod_64[OF l L] have dm: "length (m @ x) div 64 = ?n" "length (m @ x) mod 64 = ?r + length x" by blast+
    have "fips256_parse (m @ x) = fips256_parse m"
      using fips256_parse_full[of "m @ x"] fips256_parse_full[of m] unfolding dm by simp
    then show "hashed h' (m @ x)" unfolding hashed_def dm using s d assms(1) by (simp add: hashed_def h'_def)
  next
    assume l: "?r + length x = 64"
    have B: "h_save_bytes h' = ?q @ x" using s l by simp
    have m: "m @ x = take (64 * ?n) m @ (?q @ x)" by simp
    have "fips256_parse (?q @ x) = [?q @ x]" using l h(3) by (simp add: fips256_parse.simps[of "?q @ x"] fips256_parse.simps[of "[]"])
    moreover have "64 dvd length (take (64 * ?n) m)" using le by simp
    ultimately have p: "fips256_parse (m @ x) = fips256_parse m @ [?q @ x]"
      using fips256_parse_append[of "take (64 * ?n) m" "?q @ x"] fips256_parse_full[of m] unfolding m by simp
    have "length (m @ x) = 64 * (?n + 1)" unfolding L l by simp
    then have "length (m @ x) mod 64 = 0" "64 * (length (m @ x) div 64) = length (m @ x)" by simp_all
    then show "hashed (mavlink_sha256_calc h' (sha256_current (h_save_bytes h'))) (m @ x)"
      unfolding hashed_def mavlink_sha256_calc_eq[OF s(2)] using assms(1) s(2) p B by (simp add: hashed_def h'_def)
  }
qed

lemma update_loop_hashed:
  assumes "hashed h m" "offset = word_of_nat (length m mod 64)" "unat len \<le> length p"
  shows "hashed (sha256_update_loop h p offset len) (m @ take (unat len) p) \<and> h_sz (sha256_update_loop h p offset len) = h_sz h"
  using assms
proof (induction "unat len" arbitrary: h m p offset len rule: less_induct)
  case less
  show ?case
  proof (cases "0 < len")
    case True
    define r where "r = length m mod 64"
    define l where "l = (if len < 64 - offset then len else 64 - offset)"
    define x where "x = take (unat l) p"
    have r: "r < 64" "unat offset = r" using less.prems(2) by (simp_all add: r_def unat_word32)
    then have "unat (64 - offset) = 64 - r" by (simp add: unat_sub word_le_nat_alt)
    then have l: "unat l = min (unat len) (64 - r)" by (auto simp: l_def word_less_nat_alt)
    have lx: "length x = unat l" using l less.prems(3) by (simp add: x_def)
    have len: "unat (len - l) + unat l = unat len" "0 < unat l"
      using sha256_update_turn(1)[OF True l_def] l r(1) True by (simp_all add: word_gt_0 unat_gt_0)
    define h' where "h' = h\<lparr>h_save_bytes := memcpy (h_save_bytes h) (length m mod 64) x\<rparr>"
    define h2 where "h2 = (if r + unat l = 64 then mavlink_sha256_calc h' (sha256_current (h_save_bytes h')) else h')"
    have o: "offset + l = word_of_nat (r + unat l)" by (simp flip: r(2))
    moreover have "unat (word_of_nat (r + unat l) :: u32) = r + unat l" using l r(1) by (intro unat_word32) simp
    ultimately have o64: "offset + l = 64 \<longleftrightarrow> r + unat l = 64" by (simp add: word_unat_eq_iff)
    have u: "sha256_update_loop h p offset len = sha256_update_loop h2 (drop (unat l) p) (if r + unat l = 64 then 0 else offset + l) (len - l)"
      using True o64 r(2) by (subst sha256_update_loop.simps) (simp add: Let_def l_def[symmetric] h2_def h'_def x_def r_def)
    have hd: "hashed h2 (m @ x)"
      using hashed_turn[OF less.prems(1), of x] l r(1) by (auto simp: h2_def h'_def r_def lx)
    have "length (m @ x) mod 64 = (r + unat l) mod 64" by (simp add: r_def lx mod_add_left_eq)
    moreover have "r + unat l \<le> 64" using l r(1) by simp
    ultimately have off: "(if r + unat l = 64 then 0 else offset + l) = word_of_nat (length (m @ x) mod 64)"
      using o by (cases "r + unat l = 64") simp_all
    have "hashed (sha256_update_loop h p offset len) ((m @ x) @ take (unat (len - l)) (drop (unat l) p)) \<and>
        h_sz (sha256_update_loop h p offset len) = h_sz h2"
      unfolding u using len less.prems(3) by (intro less.hyps hd off) simp_all
    moreover have "x @ take (unat (len - l)) (drop (unat l) p) = take (unat len) p"
      using len(1) by (metis add.commute take_add x_def)
    moreover have "h_sz h2 = h_sz h" by (simp add: h2_def h'_def mavlink_sha256_calc_def Let_def split: prod.split)
    ultimately show ?thesis by simp
  next
    case False
    then have "len = 0" by (simp add: word_gt_0)
    then show ?thesis using less.prems(1) by (simp add: sha256_update_loop.simps[of h])
  qed
qed

lemma add_carry:
  fixes n d N :: nat
  assumes "d < N"
  shows "(n mod N + d) mod N < n mod N \<longleftrightarrow> N \<le> n mod N + d" "(n + d) div N = n div N + (if N \<le> n mod N + d then 1 else 0)"
proof -
  have r: "n mod N < N" using assms by simp
  then have "n mod N + d - N < N" using assms by linarith
  then have c: "(n mod N + d) div N = (if N \<le> n mod N + d then 1 else 0)" "(n mod N + d) mod N = n mod N + d - (if N \<le> n mod N + d then N else 0)"
    using assms by (simp_all add: le_div_geq le_mod_geq)
  show "(n mod N + d) mod N < n mod N \<longleftrightarrow> N \<le> n mod N + d" unfolding c(2) using assms r by auto
  have "n + d = (n mod N + d) + n div N * N" using div_mult_mod_eq[of n N] by linarith
  then have "(n + d) div N = (n mod N + d) div N + n div N" using assms by (metis div_mult_self3 add.commute not_less0)
  then show "(n + d) div N = n div N + (if N \<le> n mod N + d then 1 else 0)" by (simp add: c(1))
qed

lemma sz_carry:
  assumes "d < 2 ^ 32"
  shows "(word_of_nat n :: u32) + word_of_nat d < word_of_nat n \<longleftrightarrow> 2 ^ 32 \<le> n mod 2 ^ 32 + d"
    and "(n + d) div 2 ^ 32 = n div 2 ^ 32 + (if 2 ^ 32 \<le> n mod 2 ^ 32 + d then 1 else 0)"
proof -
  have "unat (word_of_nat n :: u32) = n mod 2 ^ 32" by (simp add: unsigned_of_nat take_bit_eq_mod)
  moreover have "unat ((word_of_nat n :: u32) + word_of_nat d) = (n mod 2 ^ 32 + d) mod 2 ^ 32"
    by (simp add: unat_word_ariths unsigned_of_nat take_bit_eq_mod mod_simps)
  ultimately show "(word_of_nat n :: u32) + word_of_nat d < word_of_nat n \<longleftrightarrow> 2 ^ 32 \<le> n mod 2 ^ 32 + d"
    unfolding word_less_nat_alt by (simp only: add_carry(1)[OF assms])
qed (rule add_carry(2)[OF assms])

lemma sz_offset: "(word_of_nat (8 * n) div 8) mod 64 = (word_of_nat (n mod 64) :: u32)"
proof -
  have "(8 * n) mod 2 ^ 32 div 8 = n mod 2 ^ 29" using mod_mult_mult1[of 8 n "2 ^ 29"] by simp
  then have "unat ((word_of_nat (8 * n) div 8) mod 64 :: u32) = n mod 2 ^ 29 mod 64"
    by (simp add: unat_div unsigned_of_nat take_bit_eq_mod del: of_nat_mult)
  also have "\<dots> = n mod 64" by (simp add: mod_mod_cancel)
  also have "\<dots> = unat (word_of_nat (n mod 64) :: u32)" by (rule unat_word32[symmetric]) simp
  finally show ?thesis by (simp only: word_unat_eq_iff)
qed

lemma update_hashed:
  assumes "hashed h m" "counted h m" "unat len \<le> length v" "unat len < 2 ^ 29"
  shows "hashed (mavlink_sha256_update h v len) (m @ take (unat len) v)" "counted (mavlink_sha256_update h v len) (m @ take (unat len) v)"
proof -
  define n where "n = 8 * length m"
  define d where "d = 8 * unat len"
  have d: "d < 2 ^ 32" "len * 8 = word_of_nat d" using assms(4) by (simp_all add: d_def)
  have n: "n + d = 8 * length (m @ take (unat len) v)" using assms(3) by (simp add: n_def d_def)
  have sz: "h_sz h = [word_of_nat n, word_of_nat (n div 2 ^ 32)]" using assms(2) by (simp add: counted_def n_def)
  define h1 where "h1 = h\<lparr>h_sz := [word_of_nat (n + d), word_of_nat ((n + d) div 2 ^ 32)]\<rparr>"
  have off: "(h_sz h ! 0 div 8) mod 64 = word_of_nat (length m mod 64)" by (simp add: sz n_def sz_offset del: of_nat_mult)
  have "mavlink_sha256_update h v len = sha256_update_loop h1 v (word_of_nat (length m mod 64)) len"
    unfolding mavlink_sha256_update_def Let_def off using sz_carry[OF d(1), of n] by (simp add: sz d(2) h1_def add.commute)
  moreover have "hashed h1 m" using assms(1) by (simp add: hashed_def h1_def)
  from update_loop_hashed[OF this refl assms(3)]
  have "hashed (sha256_update_loop h1 v (word_of_nat (length m mod 64)) len) (m @ take (unat len) v)"
    "h_sz (sha256_update_loop h1 v (word_of_nat (length m mod 64)) len) = h_sz h1" by blast+
  ultimately show "hashed (mavlink_sha256_update h v len) (m @ take (unat len) v)" "counted (mavlink_sha256_update h v len) (m @ take (unat len) v)"
    using n by (simp_all add: counted_def h1_def)
qed

lemma hashed_init: "length (h_save_bytes h) = 64 \<Longrightarrow> hashed (mavlink_sha256_init h) []" "counted (mavlink_sha256_init h) []"
  by (simp_all add: hashed_def counted_def h_counter_init fips256_parse.simps[of "[]"]) (simp_all add: mavlink_sha256_init_def)

text \<open>One call of \<^verbatim>\<open>mavlink_sha256_update\<close> for a whole array.\<close>

abbreviation sha256_add :: "mavlink_sha256_ctx \<Rightarrow> bytes \<Rightarrow> mavlink_sha256_ctx" where
  "sha256_add h v \<equiv> mavlink_sha256_update h v (word_of_nat (length v))"

lemma add_hashed:
  assumes "hashed h m" "counted h m" "length v < 2 ^ 29"
  shows "hashed (sha256_add h v) (m @ v)" "counted (sha256_add h v) (m @ v)"
proof -
  have "unat (word_of_nat (length v) :: u32) = length v" using assms(3) by (intro unat_word32) simp
  then show "hashed (sha256_add h v) (m @ v)" "counted (sha256_add h v) (m @ v)"
    using update_hashed[OF assms(1,2), of "word_of_nat (length v)" v] assms(3) by simp_all
qed

lemma adds_hashed:
  assumes "hashed h m" "counted h m" "\<forall>v \<in> set vs. length v < 2 ^ 29"
  shows "hashed (foldl sha256_add h vs) (m @ concat vs) \<and> counted (foldl sha256_add h vs) (m @ concat vs)"
  using assms by (induction vs arbitrary: h m) (simp_all add: add_hashed flip: append_assoc)

section \<open>The padding and the digest\<close>

lemma sz_byte: "k < 4 \<Longrightarrow> (ucast (drop_bit (8 * k) (word_of_nat n :: u32) AND 0xff) :: u8) = word_of_nat (n div 256 ^ k)"
proof (rule bit_word_eqI)
  fix i assume k: "k < 4" and "i < LENGTH(8)"
  then have i: "i < 8" by simp
  have m: "x AND 0xff = take_bit 8 x" for x :: u32 by (simp add: take_bit_eq_mask mask_eq_exp_minus_1)
  have "(256 :: nat) ^ k = 2 ^ (8 * k)" by (simp add: power_mult)
  then show "bit (ucast (drop_bit (8 * k) (word_of_nat n :: u32) AND 0xff) :: u8) i = bit (word_of_nat (n div 256 ^ k) :: u8) i"
    unfolding m using k i by (auto simp: bit_simps add.commute simp flip: drop_bit_eq_div)
qed

lemma sha256_zeros_eq:
  assumes "0 < d" "d \<le> 64" "h_sz h = [word_of_nat n, word_of_nat (n div 2 ^ 32)]"
  shows "length (sha256_zeros h d) = 72" "take (d + 8) (sha256_zeros h d) = [0x80] @ replicate (d - 1) 0 @ be_bytes 8 n"
proof -
  show l: "length (sha256_zeros h d) = 72" by (simp add: sha256_zeros_def)
  have hi: "n div 2 ^ 32 div 256 ^ k = n div 256 ^ (4 + k)" for k
  proof -
    have "(2 :: nat) ^ 32 = 256 ^ 4" by simp
    then show ?thesis by (simp only: power_add div_mult2_eq)
  qed
  have "take (d + 8) (sha256_zeros h d) ! i = ((0x80 # replicate (d - 1) 0) @ be_bytes 8 n) ! i" if i: "i < d + 8" for i
  proof (cases "i < d")
    case True
    then show ?thesis using assms(1,2) by (auto simp: sha256_zeros_def nth_append nth_Cons memset_def memcpy_def nth_list_update split: nat.split)
  next
    case False
    then obtain j where j: "i = d + j" "j < 8" using i by (metis add_less_cancel_left le_Suc_ex not_le)
    let ?b = "[ucast (drop_bit 24 (h_sz h ! 1) AND 0xff), ucast (drop_bit 16 (h_sz h ! 1) AND 0xff), ucast (drop_bit 8 (h_sz h ! 1) AND 0xff),
      ucast (h_sz h ! 1 AND 0xff), ucast (drop_bit 24 (h_sz h ! 0) AND 0xff), ucast (drop_bit 16 (h_sz h ! 0) AND 0xff),
      ucast (drop_bit 8 (h_sz h ! 0) AND 0xff), ucast (h_sz h ! 0 AND 0xff)] :: bytes"
    have "be_bytes 8 n = ?b"
      using sz_byte[of 3] sz_byte[of 2] sz_byte[of 1] sz_byte[of 0] hi[of 3] hi[of 2] hi[of 1] hi[of 0]
      by (simp add: be_bytes_def upt_rec assms(3))
    moreover have "j = 0 \<or> j = 1 \<or> j = 2 \<or> j = 3 \<or> j = 4 \<or> j = 5 \<or> j = 6 \<or> j = 7" using j(2) by arith
    then have "take (d + 8) (sha256_zeros h d) ! i = ?b ! j"
      using assms(1,2) unfolding j(1) by (elim disjE) (simp_all add: sha256_zeros_def nth_list_update)
    moreover have l: "length ((0x80 :: u8) # replicate (d - 1) 0) = d" using assms(1) by simp
    ultimately show ?thesis using nth_append_length_plus[of "(0x80 :: u8) # replicate (d - 1) 0" "be_bytes 8 n" j] unfolding l j(1) by metis
  qed
  then show "take (d + 8) (sha256_zeros h d) = [0x80] @ replicate (d - 1) 0 @ be_bytes 8 n"
    using l assms(1,2) by (intro nth_equalityI) simp_all
qed

lemma final_48_eq:
  assumes "hashed h m" "counted h m"
  shows "snd (mavlink_sha256_final_48 h) = take 6 (sha256 m)"
proof -
  define k where "k = length m mod 64"
  define d where "d = (119 - k) mod 64 + 1"
  have d: "0 < d" "d \<le> 64" by (simp_all add: d_def)
  have sz: "h_sz h = [word_of_nat (8 * length m), word_of_nat (8 * length m div 2 ^ 32)]" using assms(2) by (simp add: counted_def)
  define dw where "dw = (120 - (h_sz h ! 0 div 8) mod 64 - 1) mod 64 + (1 :: u32)"
  have "(h_sz h ! 0 div 8) mod 64 = word_of_nat k" by (simp add: sz k_def sz_offset del: of_nat_mult)
  moreover have "k < 64" by (simp add: k_def)
  then have "120 - word_of_nat k - 1 = (word_of_nat (119 - k) :: u32)" "unat (word_of_nat (119 - k) :: u32) = 119 - k"
    by (simp add: of_nat_diff) (rule unat_word32, simp)
  ultimately have dw: "unat dw = d" by (simp add: dw_def d_def unat_word_ariths mod_less)
  have dw8: "unat (dw + 8) = d + 8" using d(2) by (simp add: unat_word_ariths dw)
  have z: "length (sha256_zeros h d) = 72" "take (d + 8) (sha256_zeros h d) = [0x80] @ replicate (d - 1) 0 @ be_bytes 8 (8 * length m)"
    using sha256_zeros_eq[OF d sz] by blast+
  define h' where "h' = mavlink_sha256_update h (sha256_zeros h (unat dw)) (dw + 8)"
  from z have "m @ take (unat (dw + 8)) (sha256_zeros h (unat dw)) = fips256_pad m" by (simp add: dw dw8 d_def k_def fips256_pad_def)
  with update_hashed(1)[OF assms, of "dw + 8" "sha256_zeros h (unat dw)"] d z(1)
  have "hashed h' (fips256_pad m)" by (simp add: dw dw8 h'_def)
  then have C: "sha256 m = concat (map (\<lambda>c. be_bytes 4 (unat c)) (h_counter h'))" "length (h_counter h') = 8"
    by (simp_all add: hashed_def sha256_def length_fips256_fold length_fips256_H0)
  have "take 6 (sha256 m) = be_bytes 4 (unat (h_counter h' ! 0)) @ take 2 (be_bytes 4 (unat (h_counter h' ! 1)))"
    unfolding C(1) by (subst list8[OF C(2)]) simp
  moreover have "be_bytes 4 (unat w) = [ucast (drop_bit 24 w), ucast (drop_bit 16 w), ucast (drop_bit 8 w), ucast w]" for w :: u32
    using ucast_drop_byte[of 3 w] ucast_drop_byte[of 2 w] ucast_drop_byte[of 1 w] ucast_drop_byte[of 0 w] by (simp add: be_bytes_def upt_rec)
  ultimately show ?thesis unfolding mavlink_sha256_final_48_def Let_def dw_def[symmetric] h'_def[symmetric] by simp
qed

lemma length_sha256 [simp]: "length (sha256 m) = 32"
  by (simp add: sha256_def length_concat comp_def sum_list_triv length_fips256_fold length_fips256_H0)

text \<open>
  Property C19 (refinement): the hash behind packet signatures is SHA-256.  However a message is cut into arrays shorter than \<open>2\<^sup>2\<^sup>9\<close> bytes,
  \<^verbatim>\<open>mavlink_sha256_init\<close>, one \<^verbatim>\<open>mavlink_sha256_update\<close> for each array and \<^verbatim>\<open>mavlink_sha256_final_48\<close> return the first 48 bits of the FIPS 180-4
  digest of the whole, whatever the context held before; the count of bits in two 32-bit words never loses its carry.
\<close>

theorem mavlink_sha256_is_sha256:
  assumes "length (h_save_bytes ctx) = 64" "\<forall>v \<in> set pieces. length v < 2 ^ 29"
  shows "snd (mavlink_sha256_final_48 (foldl sha256_add (mavlink_sha256_init ctx) pieces)) = take 6 (sha256 (concat pieces))"
  using adds_hashed[OF hashed_init(1)[OF assms(1)] hashed_init(2) assms(2)] by (simp add: final_48_eq)

theorem mavlink_sha256_is_sha256_witness:
  "snd (mavlink_sha256_final_48 (foldl sha256_add (mavlink_sha256_init \<lparr>h_sz = [5, 6], h_counter = [], h_save_bytes = replicate 64 1\<rparr>)
     [[97], replicate 200 98, [], [99]])) = take 6 (sha256 (concat [[97], replicate 200 98, [], [99]]))"
  by (rule mavlink_sha256_is_sha256) simp_all

end
