(* ===== verification/Mavlink_Replay.thy ===== *)
theory Mavlink_Replay
  imports Mavlink_Signing Mavlink_Props Mavlink_Sha256_Correct
begin

text \<open>
  The signature block is a message authentication code over the packet, and the table of signing streams refuses replayed packets: it refines a
  finite map from streams to the last time stamp accepted, so along any sequence of packets the time stamps accepted on one stream increase.
\<close>

section \<open>The code\<close>

lemma mac48_eq:
  assumes "length (h_save_bytes ctx) = 64" "length key = 32" "length header < 2 ^ 29" "length packet < 2 ^ 29" "length crc = 2" "7 \<le> length sig"
  shows "mac48 ctx key header packet crc sig = take 6 (sha256 (key @ header @ packet @ crc @ take 7 sig))"
proof -
  let ?h0 = "mavlink_sha256_init ctx"
  let ?h1 = "mavlink_sha256_update ?h0 key 32"
  let ?h2 = "sha256_add ?h1 header"
  let ?h3 = "sha256_add ?h2 packet"
  let ?h4 = "mavlink_sha256_update ?h3 crc 2"
  let ?h5 = "mavlink_sha256_update ?h4 sig 7"
  have h1: "hashed ?h1 key" "counted ?h1 key" using update_hashed[OF hashed_init(1)[OF assms(1)] hashed_init(2), of 32 key] assms(2) by simp_all
  have h2: "hashed ?h2 (key @ header)" "counted ?h2 (key @ header)" by (rule add_hashed[OF h1 assms(3)])+
  have h3: "hashed ?h3 ((key @ header) @ packet)" "counted ?h3 ((key @ header) @ packet)" by (rule add_hashed[OF h2 assms(4)])+
  have h4: "hashed ?h4 (((key @ header) @ packet) @ crc)" "counted ?h4 (((key @ header) @ packet) @ crc)"
    using update_hashed[OF h3, of 2 crc] assms(5) by simp_all
  have h5: "hashed ?h5 ((((key @ header) @ packet) @ crc) @ take 7 sig)" "counted ?h5 ((((key @ header) @ packet) @ crc) @ take 7 sig)"
    using update_hashed[OF h4, of 7 sig] assms(6) by simp_all
  from final_48_eq[OF h5] show ?thesis unfolding mac48_def Let_def by simp
qed

lemma mac48_any_ctx:
  assumes "length (h_save_bytes ctx) = 64" "length key = 32" "length header < 2 ^ 29" "length packet < 2 ^ 29" "length crc = 2" "7 \<le> length sig"
  shows "mac48 ctx key header packet crc sig = mac48 sha256_ctx0 key header packet crc sig"
  using mac48_eq[OF assms] mac48_eq[of sha256_ctx0, OF _ assms(2-)] by (simp add: sha256_ctx0_def)

lemma length_mac48 [simp]: "length (mac48 ctx key header packet crc sig) = 6"
  by (simp add: mac48_def mavlink_sha256_final_48_def Let_def)

section \<open>Time stamps\<close>

text \<open>The number in the six time stamp bytes of a signature block, and the stream a signed message belongs to.\<close>

definition stamp_val :: "bytes \<Rightarrow> u64" where
  "stamp_val b = tstamp_t64 (memcpy (replicate 8 0) 0 b)"

definition msg_stamp :: "mavlink_message_t \<Rightarrow> u64" where
  "msg_stamp msg = stamp_val (take 6 (drop 1 (m_signature msg)))"

type_synonym stream_key = "u8 \<times> u8 \<times> u8"

definition msg_stream :: "mavlink_message_t \<Rightarrow> stream_key" where
  "msg_stream msg = (m_signature msg ! 0, m_sysid msg, m_compid msg)"

lemma bit_tstamp_t64: "bit (tstamp_t64 b) n \<longleftrightarrow> n < 64 \<and> bit (b ! (n div 8)) (n mod 8)"
proof -
  have "bit (fold (\<lambda>i t. t OR push_bit (8 * i) (ucast (b ! i))) [0..<k] (0 :: u64)) n \<longleftrightarrow> n < 8 * k \<and> bit (b ! (n div 8)) (n mod 8)" if "k \<le> 8" for k
    using that
  proof (induction k)
    case (Suc k)
    have "bit (push_bit (8 * k) (ucast (b ! k)) :: u64) n \<longleftrightarrow> n div 8 = k \<and> bit (b ! k) (n mod 8)"
    proof (cases "n div 8 = k")
      case True
      then have "n = 8 * k + n mod 8" by (metis mult_div_mod_eq)
      moreover have "n mod 8 < 8" by simp
      ultimately have "n < 64" "8 * k \<le> n" "n - 8 * k = n mod 8" using Suc.prems by linarith+
      then show ?thesis using True less_trans[OF \<open>n mod 8 < 8\<close>, of 64] by (simp add: bit_simps)
    next
      case False
      have "\<not> bit (b ! k) (n - 8 * k)" if "8 * k \<le> n"
      proof
        assume "bit (b ! k) (n - 8 * k)"
        then have "n - 8 * k < 8" using bit_imp_le_length by fastforce
        then show False using False that by (simp add: div_nat_eqI)
      qed
      then show ?thesis using False by (auto simp: bit_simps)
    qed
    moreover have "n < 8 * Suc k \<longleftrightarrow> n < 8 * k \<or> n div 8 = k" by auto
    ultimately show ?case using Suc by (auto simp: bit_or_iff)
  qed simp
  from this[of 8] show ?thesis unfolding tstamp_t64_def by simp
qed

lemma stamp_val_tstamp: "stamp_val (take 6 (tstamp_t8 t)) = take_bit 48 t"
proof (rule bit_word_eqI)
  fix n assume "n < LENGTH(64)"
  then have n: "n < 64" by simp
  have "memcpy (replicate 8 0) 0 (take 6 (tstamp_t8 t)) ! (n div 8) = (if n div 8 < 6 then ucast (drop_bit (8 * (n div 8)) t) else 0)"
    using n by (auto simp: memcpy_def tstamp_t8_def nth_append nth_Cons')
  moreover have "n div 8 < 6 \<longleftrightarrow> n < 48" by auto
  ultimately show "bit (stamp_val (take 6 (tstamp_t8 t))) n = bit (take_bit 48 t) n"
    using n by (auto simp: stamp_val_def bit_tstamp_t64 bit_simps)
qed

section \<open>Filters\<close>

text \<open>
  A filter that remembers the last time stamp it accepted for each key and accepts a message only if its time stamp is larger: along a run, the
  time stamps accepted for one key increase.
\<close>

locale replay_filter =
  fixes step :: "'s \<Rightarrow> 'm \<Rightarrow> bool \<times> 's"
    and inv :: "'s \<Rightarrow> bool"
    and last_stamp :: "'s \<Rightarrow> 'k \<Rightarrow> 't::linorder option"
    and key :: "'m \<Rightarrow> 'k"
    and stamp :: "'m \<Rightarrow> 't"
  assumes step_inv: "inv s \<Longrightarrow> step s m = (b, s') \<Longrightarrow> inv s'"
    and refused: "inv s \<Longrightarrow> step s m = (False, s') \<Longrightarrow> last_stamp s' = last_stamp s"
    and accepted: "inv s \<Longrightarrow> step s m = (True, s') \<Longrightarrow>
      last_stamp s' = (last_stamp s)(key m \<mapsto> stamp m) \<and> (\<forall>t. last_stamp s (key m) = Some t \<longrightarrow> t < stamp m)"
begin

primrec run :: "'s \<Rightarrow> 'm list \<Rightarrow> bool list \<times> 's" where
  "run s [] = ([], s)"
| "run s (m # ms) = (let (b, s') = step s m; (bs, s'') = run s' ms in (b # bs, s''))"

lemma step_mono:
  assumes "inv s" "step s m = (b, s')" "last_stamp s k = Some t"
  shows "\<exists>t' \<ge> t. last_stamp s' k = Some t'"
  using refused[of s m s'] accepted[of s m s'] assms by (cases b) (auto intro: less_imp_le)

lemma later_accepted:
  assumes "inv s" "last_stamp s k = Some t" "j < length ms" "fst (run s ms) ! j" "key (ms ! j) = k"
  shows "t < stamp (ms ! j)"
  using assms
proof (induction ms arbitrary: s t j)
  case (Cons m ms)
  obtain b s' where s: "step s m = (b, s')" by (cases "step s m")
  obtain bs s'' where r: "run s' ms = (bs, s'')" by (cases "run s' ms")
  show ?case
  proof (cases j)
    case 0
    then show ?thesis using Cons.prems accepted[of s m s'] s r by auto
  next
    case (Suc i)
    obtain t' where t': "t \<le> t'" "last_stamp s' k = Some t'" using step_mono[OF Cons.prems(1) s Cons.prems(2)] by auto
    moreover have "inv s'" by (rule step_inv[OF Cons.prems(1) s])
    ultimately have "t' < stamp (ms ! i)" using Cons.prems Suc s r by (intro Cons.IH[of s' t' i]) auto
    then show ?thesis using t'(1) Suc by simp
  qed
qed simp

lemma accepted_increase:
  assumes "inv s" "i < j" "j < length ms" "fst (run s ms) ! i" "fst (run s ms) ! j" "key (ms ! i) = key (ms ! j)"
  shows "stamp (ms ! i) < stamp (ms ! j)"
  using assms
proof (induction ms arbitrary: s i j)
  case (Cons m ms)
  obtain b s' where s: "step s m = (b, s')" by (cases "step s m")
  obtain bs s'' where r: "run s' ms = (bs, s'')" by (cases "run s' ms")
  have inv: "inv s'" by (rule step_inv[OF Cons.prems(1) s])
  obtain j' where j: "j = Suc j'" using Cons.prems(2) by (cases j) auto
  show ?case
  proof (cases i)
    case 0
    then have "last_stamp s' (key m) = Some (stamp m)" using Cons.prems accepted[of s m s'] s r by auto
    then show ?thesis using later_accepted[OF inv, where ms = ms and k = "key m" and t = "stamp m" and j = j'] Cons.prems 0 j s r by auto
  next
    case (Suc i')
    then show ?thesis using Cons.IH[OF inv, of i' j'] Cons.prems j s r by auto
  qed
qed simp

end

section \<open>The table of streams\<close>

definition stream_of :: "mavlink_signing_stream \<Rightarrow> stream_key" where
  "stream_of s = (t_link_id s, t_sysid s, t_compid s)"

definition used_streams :: "mavlink_signing_streams_t \<Rightarrow> mavlink_signing_stream list" where
  "used_streams ss = take (unat (ss_num_signing_streams ss)) (ss_stream ss)"

definition last_stamp :: "mavlink_signing_streams_t \<Rightarrow> stream_key \<Rightarrow> u64 option" where
  "last_stamp ss = map_of (map (\<lambda>s. (stream_of s, stamp_val (t_timestamp_bytes s))) (used_streams ss))"

definition streams_inv :: "mavlink_signing_streams_t \<Rightarrow> bool" where
  "streams_inv ss \<longleftrightarrow> length (ss_stream ss) = 16 \<and> unat (ss_num_signing_streams ss) \<le> 16 \<and> distinct (map stream_of (used_streams ss))"

text \<open>What the table promises: a map from streams to the last time stamp, of at most sixteen entries.\<close>

definition spec_check :: "(stream_key \<Rightarrow> u64 option) \<Rightarrow> u64 \<Rightarrow> stream_key \<Rightarrow> u64 \<Rightarrow> mavlink_signing_status_t" where
  "spec_check M now k t =
     (case M k of
        None \<Rightarrow> if 16 \<le> card (dom M) then SIGNING_STATUS_TOO_MANY_STREAMS
                else if t + 6000 * 1000 < now then SIGNING_STATUS_OLD_TIMESTAMP else SIGNING_STATUS_OK
      | Some t0 \<Rightarrow> if t \<le> t0 then SIGNING_STATUS_REPLAY else SIGNING_STATUS_OK)"

lemma same_stream_iff: "same_stream msg (m_signature msg ! 0) s \<longleftrightarrow> stream_of s = msg_stream msg"
  by (auto simp: same_stream_def stream_of_def msg_stream_def)

lemma find_stream_spec:
  assumes "i \<le> unat (ss_num_signing_streams ss)" "unat (ss_num_signing_streams ss) \<le> length (ss_stream ss)"
    and "\<forall>j < i. stream_of (ss_stream ss ! j) \<noteq> msg_stream msg"
  shows "\<exists>k. find_stream ss msg (m_signature msg ! 0) i = k \<and> k \<le> unat (ss_num_signing_streams ss) \<and>
     (\<forall>j < k. stream_of (ss_stream ss ! j) \<noteq> msg_stream msg) \<and>
     (k < unat (ss_num_signing_streams ss) \<longrightarrow> stream_of (ss_stream ss ! k) = msg_stream msg)"
  using assms
proof (induction ss msg "m_signature msg ! 0" i rule: find_stream.induct)
  case (1 ss msg i)
  show ?case
  proof (cases "i < unat (ss_num_signing_streams ss) \<and> \<not> same_stream msg (m_signature msg ! 0) (ss_stream ss ! i)")
    case True
    then have "find_stream ss msg (m_signature msg ! 0) i = find_stream ss msg (m_signature msg ! 0) (i + 1)"
      by (subst find_stream.simps) simp
    moreover have "\<forall>j < i + 1. stream_of (ss_stream ss ! j) \<noteq> msg_stream msg" using True 1(4) by (auto simp: same_stream_iff less_Suc_eq)
    ultimately show ?thesis using 1(1) True 1(3) by auto
  next
    case False
    then have "find_stream ss msg (m_signature msg ! 0) i = i" by (subst find_stream.simps) auto
    then show ?thesis using False 1(2,4) by (auto simp: same_stream_iff)
  qed
qed

lemma map_of_list_update:
  "distinct (map fst xs) \<Longrightarrow> i < length xs \<Longrightarrow> fst (xs ! i) = k \<Longrightarrow> map_of (xs[i := (k, v)]) = (map_of xs)(k \<mapsto> v)"
proof (induction xs arbitrary: i)
  case (Cons x xs)
  show ?case
  proof (cases i)
    case 0
    then show ?thesis using Cons.prems by (cases x) auto
  next
    case (Suc j)
    then have "fst x \<noteq> k" using Cons.prems nth_mem[of j xs] by auto
    then show ?thesis using Cons Suc by (cases x) (auto simp: fun_upd_twist)
  qed
qed simp

lemma map_of_snoc: "k \<notin> fst ` set xs \<Longrightarrow> map_of (xs @ [(k, v)]) = (map_of xs)(k \<mapsto> v)"
  by (rule ext) (auto simp: map_add_def map_of_eq_None_iff[symmetric] split: option.split)

lemma used_streams_nth: "unat (ss_num_signing_streams ss) \<le> length (ss_stream ss) \<Longrightarrow>
    i < unat (ss_num_signing_streams ss) \<Longrightarrow> used_streams ss ! i = ss_stream ss ! i"
  by (simp add: used_streams_def)

lemma length_used_streams: "streams_inv ss \<Longrightarrow> length (used_streams ss) = unat (ss_num_signing_streams ss)"
  by (simp add: streams_inv_def used_streams_def)

lemma dom_last_stamp: "dom (last_stamp ss) = stream_of ` set (used_streams ss)"
  by (simp add: last_stamp_def dom_map_of_conv_image_fst image_image)

lemma card_last_stamp: "streams_inv ss \<Longrightarrow> card (dom (last_stamp ss)) = unat (ss_num_signing_streams ss)"
  using distinct_card[of "map stream_of (used_streams ss)"] length_used_streams[of ss] by (simp add: dom_last_stamp streams_inv_def)

text \<open>The position \<^verbatim>\<open>find_stream\<close> returns, in terms of the map.\<close>

lemma find_stream_last_stamp:
  fixes ss msg
  assumes "streams_inv ss"
  defines "i \<equiv> find_stream ss msg (m_signature msg ! 0) 0"
  shows "i = unat (ss_num_signing_streams ss) \<and> last_stamp ss (msg_stream msg) = None \<or>
    i < unat (ss_num_signing_streams ss) \<and> stream_of (used_streams ss ! i) = msg_stream msg \<and>
    last_stamp ss (msg_stream msg) = Some (stamp_val (t_timestamp_bytes (used_streams ss ! i)))"
proof -
  let ?n = "unat (ss_num_signing_streams ss)"
  have l: "?n \<le> length (ss_stream ss)" "length (used_streams ss) = ?n" "distinct (map stream_of (used_streams ss))"
    using assms(1) length_used_streams by (auto simp: streams_inv_def)
  have i: "i \<le> ?n" "\<forall>j < i. stream_of (used_streams ss ! j) \<noteq> msg_stream msg" "i < ?n \<longrightarrow> stream_of (used_streams ss ! i) = msg_stream msg"
    using find_stream_spec[of 0 ss msg] l(1) by (auto simp: i_def used_streams_nth)
  show ?thesis
  proof (cases "i = ?n")
    case True
    then have "msg_stream msg \<notin> dom (last_stamp ss)" using i(2) l(2) unfolding dom_last_stamp by (auto simp: in_set_conv_nth)
    then show ?thesis using True by (auto simp: domIff)
  next
    case False
    then have "i < ?n" using i(1) by simp
    then have "(msg_stream msg, stamp_val (t_timestamp_bytes (used_streams ss ! i))) \<in>
        set (map (\<lambda>s. (stream_of s, stamp_val (t_timestamp_bytes s))) (used_streams ss))" using i(3) l(2) by (auto intro!: image_eqI[where x = "used_streams ss ! i"])
    moreover have "distinct (map fst (map (\<lambda>s. (stream_of s, stamp_val (t_timestamp_bytes s))) (used_streams ss)))" using l(3) by (simp add: comp_def)
    ultimately show ?thesis using \<open>i < ?n\<close> i(3) unfolding last_stamp_def by (simp del: map_map)
  qed
qed

lemma used_streams_update:
  assumes "i < unat (ss_num_signing_streams ss)"
  shows "used_streams (ss\<lparr>ss_stream := (ss_stream ss)[i := x]\<rparr>) = (used_streams ss)[i := x]"
  using assms by (simp add: used_streams_def take_update_swap)

lemma used_streams_new:
  fixes ss
  assumes "streams_inv ss" "unat (ss_num_signing_streams ss) < 16"
  defines "n \<equiv> unat (ss_num_signing_streams ss)"
  shows "used_streams (ss\<lparr>ss_num_signing_streams := ss_num_signing_streams ss + 1, ss_stream := (ss_stream ss)[n := x]\<rparr>) = used_streams ss @ [x]"
    "unat (ss_num_signing_streams ss + 1) = Suc n"
proof -
  show u: "unat (ss_num_signing_streams ss + 1) = Suc n" using assms(2) by (simp add: n_def unat_inc)
  show "used_streams (ss\<lparr>ss_num_signing_streams := ss_num_signing_streams ss + 1, ss_stream := (ss_stream ss)[n := x]\<rparr>) = used_streams ss @ [x]"
    using assms(1,2) by (simp add: used_streams_def u n_def[symmetric] streams_inv_def take_Suc_conv_app_nth)
qed

lemma check_stream_refines:
  fixes ss s msg
  assumes "streams_inv ss"
  defines "status \<equiv> spec_check (last_stamp ss) (g_timestamp s) (msg_stream msg) (msg_stamp msg)"
  shows "\<exists>ss'. check_stream s ss msg = (status, ss') \<and> streams_inv ss' \<and>
    (if status = SIGNING_STATUS_OK then last_stamp ss' = (last_stamp ss)(msg_stream msg \<mapsto> msg_stamp msg) else ss' = ss)"
proof -
  define i where "i = find_stream ss msg (m_signature msg ! 0) 0"
  let ?n = "unat (ss_num_signing_streams ss)"
  let ?b = "take 6 (drop 1 (m_signature msg))"
  have l: "length (ss_stream ss) = 16" "?n \<le> 16" "length (used_streams ss) = ?n" "distinct (map stream_of (used_streams ss))"
    using assms(1) length_used_streams by (auto simp: streams_inv_def)
  note card = card_last_stamp[OF assms(1)]
  consider "i = ?n" "last_stamp ss (msg_stream msg) = None" |
    "i < ?n" "stream_of (used_streams ss ! i) = msg_stream msg" "last_stamp ss (msg_stream msg) = Some (stamp_val (t_timestamp_bytes (used_streams ss ! i)))"
    using find_stream_last_stamp[OF assms(1), of msg] by (auto simp: i_def)
  then show ?thesis
  proof cases
    case 1
    show ?thesis
    proof (cases "status = SIGNING_STATUS_OK")
      case False
      then show ?thesis using 1 assms(1) card unfolding check_stream_def Let_def i_def[symmetric]
        by (auto simp: status_def spec_check_def msg_stamp_def stamp_val_def Let_def split: if_splits)
    next
      case True
      define x where "x = (ss_stream ss ! ?n)\<lparr>t_sysid := m_sysid msg, t_compid := m_compid msg, t_link_id := m_signature msg ! 0, t_timestamp_bytes := ?b\<rparr>"
      define ss' where "ss' = ss\<lparr>ss_num_signing_streams := ss_num_signing_streams ss + 1, ss_stream := (ss_stream ss)[?n := x]\<rparr>"
      have n: "?n < 16" "\<not> msg_stamp msg + 6000 * 1000 < g_timestamp s" using True 1(2) card by (auto simp: status_def spec_check_def split: if_splits)
      then have "check_stream s ss msg = (SIGNING_STATUS_OK, ss')" using 1(1) l(1) unfolding check_stream_def Let_def i_def[symmetric]
        by (simp add: msg_stamp_def stamp_val_def Let_def ss'_def x_def)
      moreover have u: "used_streams ss' = used_streams ss @ [x]" "unat (ss_num_signing_streams ss') = Suc ?n"
        using used_streams_new[OF assms(1) n(1)] by (simp_all add: ss'_def)
      moreover have x: "stream_of x = msg_stream msg" "stamp_val (t_timestamp_bytes x) = msg_stamp msg"
        by (simp_all add: x_def stream_of_def msg_stream_def msg_stamp_def)
      have new: "msg_stream msg \<notin> stream_of ` set (used_streams ss)" using 1(2) dom_last_stamp[of ss] by (auto simp: domIff)
      have "streams_inv ss'" using l n(1) u new x(1) by (simp add: streams_inv_def) (simp add: ss'_def)
      moreover have "last_stamp ss' = (last_stamp ss)(msg_stream msg \<mapsto> msg_stamp msg)"
        unfolding last_stamp_def u(1) using new x by (simp add: image_image map_of_snoc[of "msg_stream msg"] del: map_of_append)
      ultimately show ?thesis using True by auto
    qed
  next
    case 2
    let ?x = "(ss_stream ss ! i)\<lparr>t_timestamp_bytes := ?b\<rparr>"
    define ss' where "ss' = ss\<lparr>ss_stream := (ss_stream ss)[i := ?x]\<rparr>"
    have nth: "used_streams ss ! i = ss_stream ss ! i" using 2(1) l by (simp add: used_streams_nth)
    have c: "check_stream s ss msg = (if msg_stamp msg \<le> stamp_val (t_timestamp_bytes (ss_stream ss ! i)) then (SIGNING_STATUS_REPLAY, ss) else (SIGNING_STATUS_OK, ss'))"
      using 2(1) unfolding check_stream_def Let_def i_def[symmetric] by (simp add: msg_stamp_def stamp_val_def Let_def ss'_def)
    have u: "used_streams ss' = (used_streams ss)[i := ?x]" using used_streams_update[OF 2(1)] by (simp add: ss'_def)
    have x: "stream_of ?x = msg_stream msg" "stamp_val (t_timestamp_bytes ?x) = msg_stamp msg"
      using 2(2) nth by (simp_all add: stream_of_def msg_stamp_def)
    have "map stream_of (used_streams ss') = map stream_of (used_streams ss)" using u x 2(1,2) l(3) by (simp add: map_update list_update_same_conv)
    then have "streams_inv ss'" using assms(1) by (simp add: streams_inv_def) (simp add: ss'_def)
    moreover have "last_stamp ss' = (last_stamp ss)(msg_stream msg \<mapsto> msg_stamp msg)"
      unfolding last_stamp_def u map_update x using l 2(1,2) by (intro map_of_list_update) (simp_all add: comp_def)
    ultimately show ?thesis using c 2(3) nth assms(1) by (auto simp: status_def spec_check_def)
  qed
qed

section \<open>The whole check\<close>

definition msg_mac :: "bytes \<Rightarrow> mavlink_message_t \<Rightarrow> bytes" where
  "msg_mac key msg = take 6 (sha256 (key @ header_mavlink2 msg (unat (m_len msg)) @ take (unat (m_len msg)) (m_payload msg) @ m_ck msg @
     take 7 (m_signature msg)))"

lemma message_header_bytes_eq: "message_header_bytes msg = header_mavlink2 msg (unat (m_len msg))"
proof -
  have "ucast (x AND 0xFF) = (ucast x :: u8)" for x :: "24 word"
  proof -
    have m: "(0xFF :: 24 word) = mask 8" by (simp add: mask_numeral)
    show ?thesis unfolding m by (rule bit_word_eqI) (auto simp: bit_simps)
  qed
  then show ?thesis by (simp add: message_header_bytes_def header_mavlink2_def)
qed

lemma check_mac_eq:
  assumes "message_sizes msg" "length key = 32"
  shows "mac48 sha256_ctx0 key (message_header_bytes msg) (take (unat (m_len msg)) (m_payload msg)) (m_ck msg) (m_signature msg) = msg_mac key msg"
proof -
  have "length (message_header_bytes msg) < 2 ^ 29" by (simp add: message_header_bytes_def)
  moreover have "length (take (unat (m_len msg)) (m_payload msg)) < 2 ^ 29" using u8_le_255[of "m_len msg"] by simp
  moreover have "length (m_ck msg) = 2" "7 \<le> length (m_signature msg)" "length (h_save_bytes sha256_ctx0) = 64"
    using assms(1) by (simp_all add: sha256_ctx0_def)
  ultimately show ?thesis unfolding msg_mac_def message_header_bytes_eq[symmetric] by (intro mac48_eq assms(2))
qed

definition check_status :: "mavlink_signing_t \<Rightarrow> mavlink_signing_streams_t \<Rightarrow> mavlink_message_t \<Rightarrow> mavlink_signing_status_t" where
  "check_status s ss msg =
     (if msg_mac (g_secret_key s) msg \<noteq> take 6 (drop 7 (m_signature msg)) then SIGNING_STATUS_BAD_SIGNATURE
      else spec_check (last_stamp ss) (g_timestamp s) (msg_stream msg) (msg_stamp msg))"

lemma signature_check_status:
  assumes "message_sizes msg" "length (g_secret_key s) = 32" "streams_inv ss"
  defines "status \<equiv> check_status s ss msg"
  shows "\<exists>s' ss'. mavlink_signature_check (Some s) (Some ss) msg = (status = SIGNING_STATUS_OK, Some s', Some ss') \<and>
    s' = s\<lparr>g_timestamp := (if status = SIGNING_STATUS_OK then max (g_timestamp s) (msg_stamp msg) else g_timestamp s), g_last_status := status\<rparr> \<and>
    streams_inv ss' \<and> (if status = SIGNING_STATUS_OK then last_stamp ss' = (last_stamp ss)(msg_stream msg \<mapsto> msg_stamp msg) else ss' = ss)"
proof -
  note mac = check_mac_eq[OF assms(1,2)]
  show ?thesis
  proof (cases "msg_mac (g_secret_key s) msg = take 6 (drop 7 (m_signature msg))")
    case False
    then show ?thesis using assms(3) by (simp add: mavlink_signature_check_def Let_def mac status_def check_status_def)
  next
    case True
    then have st: "status = spec_check (last_stamp ss) (g_timestamp s) (msg_stream msg) (msg_stamp msg)" by (simp add: status_def check_status_def)
    obtain ss' where c: "check_stream s ss msg = (status, ss')" "streams_inv ss'"
      "if status = SIGNING_STATUS_OK then last_stamp ss' = (last_stamp ss)(msg_stream msg \<mapsto> msg_stamp msg) else ss' = ss"
      using check_stream_refines[OF assms(3), of s msg] unfolding st by blast
    have "mavlink_signature_check (Some s) (Some ss) msg = (status = SIGNING_STATUS_OK,
        Some (s\<lparr>g_timestamp := (if status = SIGNING_STATUS_OK then max (g_timestamp s) (msg_stamp msg) else g_timestamp s), g_last_status := status\<rparr>), Some ss')"
      using True c(1) by (simp add: mavlink_signature_check_def Let_def mac max_def msg_stamp_def stamp_val_def not_le[symmetric])
    then show ?thesis using c(2,3) by blast
  qed
qed

section \<open>Sequences of packets\<close>

definition check_step :: "signing_ctx \<Rightarrow> mavlink_message_t \<Rightarrow> bool \<times> signing_ctx" where
  "check_step ctx msg = mavlink_signature_check (fst ctx) (snd ctx) msg"

primrec check_run :: "signing_ctx \<Rightarrow> mavlink_message_t list \<Rightarrow> bool list \<times> signing_ctx" where
  "check_run ctx [] = ([], ctx)"
| "check_run ctx (m # ms) = (let (b, ctx') = check_step ctx m; (bs, ctx'') = check_run ctx' ms in (b # bs, ctx''))"

definition ctx_inv :: "signing_ctx \<Rightarrow> bool" where
  "ctx_inv ctx \<longleftrightarrow> (\<exists>s ss. ctx = (Some s, Some ss) \<and> streams_inv ss)"

lemma check_step_cases:
  assumes "streams_inv ss" "check_step (Some s, Some ss) msg = (b, ctx')"
  obtains s' ss' where "ctx' = (Some s', Some ss')" "streams_inv ss'"
    "b \<Longrightarrow> last_stamp ss' = (last_stamp ss)(msg_stream msg \<mapsto> msg_stamp msg)"
    "b \<Longrightarrow> spec_check (last_stamp ss) (g_timestamp s) (msg_stream msg) (msg_stamp msg) = SIGNING_STATUS_OK" "\<not> b \<Longrightarrow> ss' = ss"
proof -
  obtain ss' where c: "check_stream s ss msg = (spec_check (last_stamp ss) (g_timestamp s) (msg_stream msg) (msg_stamp msg), ss')" "streams_inv ss'"
    "if spec_check (last_stamp ss) (g_timestamp s) (msg_stream msg) (msg_stamp msg) = SIGNING_STATUS_OK
     then last_stamp ss' = (last_stamp ss)(msg_stream msg \<mapsto> msg_stamp msg) else ss' = ss"
    using check_stream_refines[OF assms(1), of s msg] by blast
  then show ?thesis using assms that
    by (auto simp: check_step_def mavlink_signature_check_def Let_def split: if_splits)
qed

interpretation signed: replay_filter check_step ctx_inv "\<lambda>ctx. last_stamp (the (snd ctx))" msg_stream msg_stamp
proof
  fix ctx msg b ctx' assume "ctx_inv ctx" "check_step ctx msg = (b, ctx')"
  then show "ctx_inv ctx'" by (auto simp: ctx_inv_def elim: check_step_cases)
next
  fix ctx msg ctx' assume "ctx_inv ctx" "check_step ctx msg = (False, ctx')"
  then show "last_stamp (the (snd ctx')) = last_stamp (the (snd ctx))" by (auto simp: ctx_inv_def elim: check_step_cases)
next
  fix ctx msg ctx' assume "ctx_inv ctx" and c: "check_step ctx msg = (True, ctx')"
  then obtain s ss where ctx: "ctx = (Some s, Some ss)" "streams_inv ss" by (auto simp: ctx_inv_def)
  obtain s' ss' where "ctx' = (Some s', Some ss')" "last_stamp ss' = (last_stamp ss)(msg_stream msg \<mapsto> msg_stamp msg)"
    "spec_check (last_stamp ss) (g_timestamp s) (msg_stream msg) (msg_stamp msg) = SIGNING_STATUS_OK"
    using check_step_cases[OF ctx(2) c[unfolded ctx(1)]] by blast
  then show "last_stamp (the (snd ctx')) = (last_stamp (the (snd ctx)))(msg_stream msg \<mapsto> msg_stamp msg) \<and>
      (\<forall>t. last_stamp (the (snd ctx)) (msg_stream msg) = Some t \<longrightarrow> t < msg_stamp msg)"
    by (auto simp: ctx(1) spec_check_def split: if_splits)
qed

lemma check_run_eq: "check_run ctx ms = signed.run ctx ms"
  by (induction ms arbitrary: ctx) simp_all

section \<open>Properties\<close>

text \<open>A receiver that knows no stream yet, and two packets whose signature blocks were made with its key at times 1 and 2.\<close>

definition demo_streams :: mavlink_signing_streams_t where
  "demo_streams = \<lparr>ss_num_signing_streams = 0, ss_stream = replicate 16 \<lparr>t_link_id = 0, t_sysid = 0, t_compid = 0, t_timestamp_bytes = replicate 6 0\<rparr>\<rparr>"

definition demo_signing :: mavlink_signing_t where
  "demo_signing = \<lparr>g_flags = 1, g_link_id = 3, g_timestamp = 1, g_secret_key = replicate 32 7, g_accept_unsigned_callback = None,
     g_last_status = SIGNING_STATUS_NONE\<rparr>"

definition demo_signed :: "u64 \<Rightarrow> mavlink_message_t" where
  "demo_signed t =
     (let sig = 3 # take 6 (tstamp_t8 t); m = zero_message\<lparr>m_incompat_flags := 1, m_signature := sig @ replicate 6 0\<rparr>
      in m\<lparr>m_signature := sig @ msg_mac (replicate 32 7) m\<rparr>)"

lemma length_msg_mac [simp]: "length (msg_mac key msg) = 6"
  by (simp add: msg_mac_def)

lemma demo_streams_inv: "streams_inv demo_streams" "last_stamp demo_streams = Map.empty"
  by (simp_all add: streams_inv_def demo_streams_def used_streams_def last_stamp_def)

lemma demo_signed_facts:
  "message_sizes (demo_signed t)" "msg_mac (replicate 32 7) (demo_signed t) = take 6 (drop 7 (m_signature (demo_signed t)))"
  "msg_stream (demo_signed t) = (3, 0, 0)" "msg_stamp (demo_signed t) = take_bit 48 t"
proof -
  define sig where "sig = 3 # take 6 (tstamp_t8 t)"
  have l: "length sig = 7" by (simp add: sig_def tstamp_t8_def)
  define m where "m = zero_message\<lparr>m_incompat_flags := 1, m_signature := sig @ replicate 6 0\<rparr>"
  have d: "demo_signed t = m\<lparr>m_signature := sig @ msg_mac (replicate 32 7) m\<rparr>" by (simp add: demo_signed_def Let_def sig_def m_def)
  show "message_sizes (demo_signed t)" unfolding d m_def using l by (simp add: message_sizes_def zero_message_def)
  show "msg_mac (replicate 32 7) (demo_signed t) = take 6 (drop 7 (m_signature (demo_signed t)))"
    unfolding d using l by (simp add: msg_mac_def header_mavlink2_def m_def)
  show "msg_stream (demo_signed t) = (3, 0, 0)" by (simp add: d msg_stream_def sig_def m_def zero_message_def)
  show "msg_stamp (demo_signed t) = take_bit 48 t" using l stamp_val_tstamp[of t] by (simp add: d msg_stamp_def) (simp add: sig_def)
qed

text \<open>
  Property C12 (refinement).  With a signing context and a table of streams, \<^verbatim>\<open>mavlink_signature_check\<close> accepts a message exactly when the last six bytes of
  its signature block are the first 48 bits of SHA-256 over the secret key, the header, the payload, the checksum and the first seven bytes of
  the block, and its time stamp is new: larger than the last one of its stream (link, system, component), or on a new stream, of which there
  are at most sixteen, not too old.  Every refusal leaves the table as it was and records its reason; an acceptance sets the stream's time stamp and
  moves the channel's own clock up to it.  The table stays a map: no stream appears twice.
\<close>

theorem mavlink_signature_check_refines:
  assumes "message_sizes msg" "length (g_secret_key s) = 32" "streams_inv ss"
  shows "\<exists>status s' ss'. mavlink_signature_check (Some s) (Some ss) msg = (status = SIGNING_STATUS_OK, Some s', Some ss') \<and>
    status = (if take 6 (sha256 (g_secret_key s @ header_mavlink2 msg (unat (m_len msg)) @ take (unat (m_len msg)) (m_payload msg) @ m_ck msg @
                take 7 (m_signature msg))) \<noteq> take 6 (drop 7 (m_signature msg)) then SIGNING_STATUS_BAD_SIGNATURE
              else spec_check (last_stamp ss) (g_timestamp s) (msg_stream msg) (msg_stamp msg)) \<and>
    s' = s\<lparr>g_timestamp := (if status = SIGNING_STATUS_OK then max (g_timestamp s) (msg_stamp msg) else g_timestamp s), g_last_status := status\<rparr> \<and>
    streams_inv ss' \<and> (if status = SIGNING_STATUS_OK then last_stamp ss' = (last_stamp ss)(msg_stream msg \<mapsto> msg_stamp msg) else ss' = ss)"
  using signature_check_status[OF assms] unfolding check_status_def msg_mac_def by blast

theorem mavlink_signature_check_refines_witness:
  "\<exists>s' ss'. mavlink_signature_check (Some demo_signing) (Some demo_streams) (demo_signed 2) = (True, Some s', Some ss') \<and>
     g_timestamp s' = 2 \<and> last_stamp ss' (3, 0, 0) = Some 2"
proof -
  have k: "g_secret_key demo_signing = replicate 32 7" by (simp add: demo_signing_def)
  then have "spec_check (last_stamp demo_streams) (g_timestamp demo_signing) (3, 0, 0) 2 = SIGNING_STATUS_OK"
    by (simp add: demo_streams_inv(2) spec_check_def demo_signing_def)
  then show ?thesis
    using mavlink_signature_check_refines[OF demo_signed_facts(1) _ demo_streams_inv(1), of demo_signing 2] demo_signed_facts(2-4)[of 2]
    by (auto simp: k demo_streams_inv(2) take_bit_eq_mod msg_mac_def demo_signing_def)
qed

text \<open>
  Property C10 (safety).  Replays are refused: along any sequence of packets given to \<^verbatim>\<open>mavlink_signature_check\<close>, genuine or forged and whatever happened
  before, two packets accepted on the same stream have increasing time stamps.  In particular a packet that was accepted is never accepted
  again, however many others come in between.
\<close>

theorem mavlink_replays_refused:
  assumes "streams_inv ss" "check_run (Some s, Some ss) msgs = (accepted, ctx')"
    and "i < j" "j < length msgs" "accepted ! i" "accepted ! j" "msg_stream (msgs ! i) = msg_stream (msgs ! j)"
  shows "msg_stamp (msgs ! i) < msg_stamp (msgs ! j) \<and> msgs ! i \<noteq> msgs ! j"
proof -
  have "ctx_inv (Some s, Some ss)" using assms(1) by (simp add: ctx_inv_def)
  moreover have "fst (signed.run (Some s, Some ss) msgs) = accepted" using assms(2) by (simp flip: check_run_eq)
  ultimately have "msg_stamp (msgs ! i) < msg_stamp (msgs ! j)" using signed.accepted_increase assms(3-) by blast
  then show ?thesis by auto
qed

lemma demo_run: "\<exists>ctx'. check_run (Some demo_signing, Some demo_streams) [demo_signed 1, demo_signed 2] = ([True, True], ctx')"
proof -
  have c: "check_status s ss (demo_signed t) = spec_check (last_stamp ss) (g_timestamp s) (3, 0, 0) (take_bit 48 t)"
    if "g_secret_key s = replicate 32 7" for s ss t
    using demo_signed_facts(2-4)[of t] that by (simp add: check_status_def)
  have 1: "check_status demo_signing demo_streams (demo_signed 1) = SIGNING_STATUS_OK"
    by (subst c) (simp_all add: demo_signing_def demo_streams_inv(2) spec_check_def)
  obtain s' ss' where a: "mavlink_signature_check (Some demo_signing) (Some demo_streams) (demo_signed 1) = (True, Some s', Some ss')"
    "s' = demo_signing\<lparr>g_timestamp := 1, g_last_status := SIGNING_STATUS_OK\<rparr>" "streams_inv ss'" "last_stamp ss' (3, 0, 0) = Some 1"
    using signature_check_status[OF demo_signed_facts(1)[of 1] _ demo_streams_inv(1), of demo_signing] demo_signed_facts(3,4)[of 1] 1
    by (auto simp: demo_signing_def)
  have k': "g_secret_key s' = replicate 32 7" by (simp add: a(2) demo_signing_def)
  have 2: "check_status s' ss' (demo_signed 2) = SIGNING_STATUS_OK"
    unfolding c[OF k'] by (simp add: a(4) spec_check_def take_bit_eq_mod word_le_nat_alt)
  then have "fst (mavlink_signature_check (Some s') (Some ss') (demo_signed 2))"
    using signature_check_status[OF demo_signed_facts(1)[of 2] _ a(3), of s'] k' by auto
  then show ?thesis using a(1) by (auto simp: check_step_def split: prod.splits)
qed

theorem mavlink_replays_refused_witness: "msg_stamp (demo_signed 1) < msg_stamp (demo_signed 2) \<and> demo_signed 1 \<noteq> demo_signed 2"
proof -
  obtain ctx' where "check_run (Some demo_signing, Some demo_streams) [demo_signed 1, demo_signed 2] = ([True, True], ctx')" using demo_run by blast
  from mavlink_replays_refused[OF demo_streams_inv(1) this, of 0 1] show ?thesis by (simp add: demo_signed_facts(3))
qed

end
