(* ===== verification/Mavlink_Signed.thy ===== *)
theory Mavlink_Signed
  imports Mavlink_Replay Mavlink_Roundtrip
begin

text \<open>
  From \<^verbatim>\<open>mavlink_finalize_message_buffer\<close> over the wire to the receiver: a finished message is a well-formed frame, the parser with a signing context
  follows the one without it up to the bytes where signatures decide, and a signed message is accepted by a receiver with the same key exactly
  when its time stamp is new.
\<close>

section \<open>Finishing a message\<close>

lemma mav_trim_payload_cong: "(\<forall>i < n. p ! i = q ! i) \<Longrightarrow> mav_trim_payload p n = mav_trim_payload q n"
proof (induction p n rule: mav_trim_payload.induct)
  case (1 p n)
  then show ?case by (subst (1 2) mav_trim_payload.simps) auto
qed

lemma mav_trim_payload_idem: "mav_trim_payload p (mav_trim_payload p n) = mav_trim_payload p n"
proof (induction p n rule: mav_trim_payload.induct)
  case (1 p n)
  show ?case
  proof (cases "1 < n \<and> p ! (n - 1) = 0")
    case True
    then have "mav_trim_payload p n = mav_trim_payload p (n - 1)" by (subst mav_trim_payload.simps) simp
    then show ?thesis using 1 True by simp
  next
    case False
    then have "mav_trim_payload p n = n" by (subst mav_trim_payload.simps) auto
    then show ?thesis by simp
  qed
qed

text \<open>The structure \<^verbatim>\<open>mavlink_finalize_message_buffer\<close> leaves, in MAVLink 2, before its signature block is filled in.\<close>

definition finished :: "mavlink_message_t \<Rightarrow> u8 \<Rightarrow> u8 \<Rightarrow> u8 \<Rightarrow> u8 \<Rightarrow> u8 \<Rightarrow> mavlink_message_t" where
  "finished msg system_id component_id seq len flags =
     (let n = mav_trim_payload (m_payload msg) (unat len);
          h = msg\<lparr>m_magic := MAVLINK_STX, m_len := word_of_nat n, m_sysid := system_id, m_compid := component_id, m_incompat_flags := flags,
                  m_compat_flags := 0, m_seq := seq\<rparr>;
          ck = mav_checksum h
      in h\<lparr>m_payload := (m_payload msg)[n := ucast (ck AND 0xFF), n + 1 := ucast (drop_bit 8 ck)], m_checksum := ck\<rparr>)"

lemma finished_fields:
  fixes msg :: mavlink_message_t and len system_id component_id seq flags :: u8
  assumes "message_sizes msg"
  defines "n \<equiv> mav_trim_payload (m_payload msg) (unat len)"
  defines "m \<equiv> finished msg system_id component_id seq len flags"
  shows "unat (m_len m) = n" "n \<le> 255" "take n (m_payload m) = take n (m_payload msg)" "message_sizes m" "m_signature m = m_signature msg"
    "m_magic m = MAVLINK_STX" "m_sysid m = system_id" "m_compid m = component_id" "m_msgid m = m_msgid msg" "m_incompat_flags m = flags"
    "m_seq m = seq" "m_compat_flags m = 0" "m_ck m = m_ck msg"
    "take 2 (drop n (m_payload m)) = [ucast (m_checksum m AND 0xFF), ucast (drop_bit 8 (m_checksum m))]"
proof -
  show n: "n \<le> 255" using mav_trim_payload_le[of "m_payload msg" "unat len"] u8_le_255[of len] by (simp add: n_def)
  have len: "length (m_payload msg) = 264" using assms(1) by simp
  show "unat (m_len m) = n" using n by (simp add: m_def finished_def Let_def n_def[symmetric] unsigned_of_nat take_bit_nat_eq_self)
  show "take n (m_payload m) = take n (m_payload msg)" by (simp add: m_def finished_def Let_def n_def[symmetric])
  show "message_sizes m" using assms(1) by (simp add: m_def finished_def Let_def)
  show "take 2 (drop n (m_payload m)) = [ucast (m_checksum m AND 0xFF), ucast (drop_bit 8 (m_checksum m))]"
    using n len by (simp add: m_def finished_def Let_def n_def[symmetric] take_Suc_conv_app_nth numeral_2_eq_2 drop_update_swap nth_list_update)
qed (simp_all add: m_def finished_def Let_def)

lemma finished_checksum:
  fixes msg :: mavlink_message_t and len system_id component_id seq flags :: u8
  assumes "message_sizes msg"
  defines "m \<equiv> finished msg system_id component_id seq len flags"
  shows "m_checksum m = mav_checksum m"
proof -
  let ?n = "mav_trim_payload (m_payload msg) (unat len)"
  define h where "h = msg\<lparr>m_magic := MAVLINK_STX, m_len := word_of_nat ?n, m_sysid := system_id, m_compid := component_id, m_incompat_flags := flags,
                  m_compat_flags := 0, m_seq := seq\<rparr>"
  have n: "unat (m_len m) = ?n" "take ?n (m_payload m) = take ?n (m_payload h)" using finished_fields(1,3)[OF assms(1)] by (simp_all add: m_def h_def)
  have "m_checksum m = mav_checksum h" by (simp add: m_def finished_def Let_def h_def)
  also have "\<dots> = mav_checksum m" unfolding mav_checksum_def mav_body_def mav_extra_def
    using n by (simp add: header_mavlink2_def) (simp add: m_def finished_def Let_def h_def)
  finally show ?thesis .
qed

lemma finished_wf:
  assumes "message_sizes msg" "flags AND NOT 1 = 0"
  shows "wf_frame (finished msg system_id component_id seq len flags)"
proof -
  let ?m = "finished msg system_id component_id seq len flags"
  let ?n = "mav_trim_payload (m_payload msg) (unat len)"
  have f: "unat (m_len ?m) = ?n" "take ?n (m_payload ?m) = take ?n (m_payload msg)" "message_sizes ?m" "m_magic ?m = MAVLINK_STX" "m_incompat_flags ?m = flags"
    using finished_fields(1,3,4,6,10)[OF assms(1)] by auto
  have "m_payload ?m ! i = m_payload msg ! i" if "i < ?n" for i using f(2) that by (metis nth_take)
  then have "mav_trim_payload (m_payload ?m) ?n = ?n" using mav_trim_payload_cong[of ?n "m_payload ?m" "m_payload msg"] by (simp add: mav_trim_payload_idem)
  then show ?thesis using f finished_checksum[OF assms(1)] assms(2) by (simp add: wf_frame_def)
qed

lemma mav_checksum_chain:
  "crc_accumulate (mav_extra m) (crc_accumulate_buffer (crc_calculate (tl (header_mavlink2 m (unat (m_len m))))) (take (unat (m_len m)) (m_payload m))) = mav_checksum m"
  by (simp add: mav_checksum_def mav_body_def crc_calculate_def crc_accumulate_buffer_append)

lemma finalize_eq:
  fixes msg :: mavlink_message_t and len system_id component_id :: u8 and status :: mavlink_status_t and signing :: "mavlink_signing_t option"
  assumes "message_sizes msg" "\<not> out_mavlink1 status"
  defines "m \<equiv> finished msg system_id component_id (s_current_tx_seq status) len (if signs signing then 1 else 0)"
  shows "mavlink_finalize_message_buffer msg system_id component_id status signing min_length len (mav_extra msg) =
    (let n = unat (m_len m);
         (signing', sig) = (if signs signing
            then snd (mavlink_sign_packet signing (m_signature msg) (header_mavlink2 m n) (take n (m_payload m))
              [ucast (m_checksum m AND 0xFF), ucast (drop_bit 8 (m_checksum m))])
            else (signing, m_signature msg))
     in (word_of_nat (n + 12 + (if signs signing then 13 else 0)), m\<lparr>m_signature := sig\<rparr>, status\<lparr>s_current_tx_seq := s_current_tx_seq status + 1\<rparr>, signing'))"
proof -
  let ?f = "if signs signing then 1 else 0 :: u8"
  define h where "h = finalize_header False (signs signing) msg system_id component_id status min_length len"
  define n where "n = mav_trim_payload (m_payload msg) (unat len)"
  have m: "m = h\<lparr>m_payload := (m_payload h)[n := ucast (mav_checksum h AND 0xFF), n + 1 := ucast (drop_bit 8 (mav_checksum h))], m_checksum := mav_checksum h\<rparr>"
    by (simp add: m_def finished_def Let_def h_def finalize_header_def n_def)
  have f: "unat (m_len m) = n" "take 2 (drop n (m_payload m)) = [ucast (m_checksum m AND 0xFF), ucast (drop_bit 8 (m_checksum m))]"
    using finished_fields(1,14)[OF assms(1)] by (simp_all add: m_def n_def)
  have hl: "unat (m_len h) = n" using f(1) by (simp add: m)
  have "mav_extra h = mav_extra msg" by (simp add: mav_extra_def h_def finalize_header_def)
  then have ck: "crc_accumulate (mav_extra msg) (crc_accumulate_buffer (crc_calculate (tl (header_mavlink2 h n))) (take n (m_payload h))) = mav_checksum h"
    using mav_checksum_chain[of h] unfolding hl by simp
  have hm: "header_mavlink2 h n = header_mavlink2 m n" by (simp add: m header_mavlink2_def)
  have sig: "m_signature msg = m_signature m" by (simp add: m h_def finalize_header_def)
  have q: "h\<lparr>m_payload := (m_payload h)[n := ucast (mav_checksum h AND 0xFF), n + 1 := ucast (drop_bit 8 (mav_checksum h))]\<rparr>\<lparr>m_checksum := mav_checksum h\<rparr> = m"
    by (simp add: m)
  have om: "out_mavlink1 status = False" using assms(2) by simp
  show ?thesis
    unfolding mavlink_finalize_message_buffer_def Let_def om if_False not_False_eq_True simp_thms h_def[symmetric] hl ck q unfolding f hm sig
    by (simp add: add.commute)
qed

section \<open>The parser with a signing context\<close>

text \<open>Without a context it is the parser of the applications.\<close>

lemma frame_char_buffer_after:
  "mavlink_frame_char_buffer rx st c r rs =
    frame_after (frame_switch (s_parse_state st) c rx (st\<lparr>s_msg_received := FRAMING_INCOMPLETE\<rparr>) r) rs"
  by (simp add: mavlink_frame_char_buffer_def frame_after_def Let_def split: prod.split)

lemma frame_crc2_null: "frame_crc2_signing None c rx st r = frame_crc2 c rx st r"
  by (simp add: frame_crc2_signing_def frame_crc2_def Let_def)

lemma frame_switch_null: "frame_switch_signing (None, ss) c rx st r = (frame_switch (s_parse_state st) c rx st r, (None, ss))"
  by (cases "s_parse_state st")
    (simp_all add: frame_switch_signing_def frame_crc2_null frame_signature_wait_def mavlink_signature_check_def null_signature_check_def Let_def)

lemma frame_char_buffer_null: "frame_char_buffer_signing (None, ss) rx st c r rs = (mavlink_frame_char_buffer rx st c r rs, (None, ss))"
  by (simp add: frame_char_buffer_signing_def frame_switch_null frame_char_buffer_after)

text \<open>With one, it differs only where the other parser reports a result.\<close>

lemma frame_switch_incomplete:
  assumes "frame_switch (s_parse_state st) c rx st r = (rx', st', r')" "s_msg_received st' = FRAMING_INCOMPLETE"
  shows "frame_switch_signing ctx c rx st r = ((rx', st', r'), ctx)"
  using assms
  by (cases "s_parse_state st")
    (auto simp: frame_switch_signing_def frame_crc2_signing_def frame_crc2_def frame_signature_wait_def null_signature_check_def Let_def split: if_splits)

lemma frame_char_incomplete:
  assumes "mavlink_frame_char_buffer rx st c r rs = (FRAMING_INCOMPLETE, p)"
  shows "frame_char_buffer_signing ctx rx st c r rs = ((FRAMING_INCOMPLETE, p), ctx)"
proof -
  let ?st = "st\<lparr>s_msg_received := FRAMING_INCOMPLETE\<rparr>"
  obtain rx' st' r' where sw: "frame_switch (s_parse_state ?st) c rx ?st r = (rx', st', r')" by (metis prod_cases3)
  have a: "frame_after (rx', st', r') rs = (FRAMING_INCOMPLETE, p)" using assms sw by (simp add: frame_char_buffer_after)
  then have "s_msg_received st' = FRAMING_INCOMPLETE" by (simp add: frame_after_def Let_def)
  from frame_switch_incomplete[OF sw this, of ctx] a show ?thesis by (simp add: frame_char_buffer_signing_def)
qed

type_synonym signing_parser = "signing_ctx \<times> parser"

fun sig_step :: "signing_parser \<Rightarrow> u8 \<Rightarrow> mavlink_framing_t \<times> signing_parser" where
  "sig_step (ctx, rx, st, r, rs) c = (case frame_char_buffer_signing ctx rx st c r rs of ((f, p), ctx') \<Rightarrow> (f, ctx', p))"

primrec sig_run :: "signing_parser \<Rightarrow> bytes \<Rightarrow> mavlink_framing_t list \<times> signing_parser" where
  "sig_run p [] = ([], p)"
| "sig_run p (c # cs) = (let (f, p') = sig_step p c; (fs, p'') = sig_run p' cs in (f # fs, p''))"

lemma sig_run_append: "sig_run p (xs @ ys) = (let (fs, p') = sig_run p xs; (gs, p'') = sig_run p' ys in (fs @ gs, p''))"
  by (induction xs arbitrary: p) (auto simp: Let_def split: prod.splits)

lemma sig_run_null: "sig_run ((None, ss), p) cs = (case mav_run p cs of (fs, p') \<Rightarrow> (fs, (None, ss), p'))"
proof (induction cs arbitrary: p)
  case (Cons c cs)
  obtain rx st r rs where "p = (rx, st, r, rs)" by (metis prod_cases4)
  then show ?case using Cons by (auto simp: frame_char_buffer_null split: prod.splits)
qed simp

lemma sig_run_incomplete:
  "mav_run p cs = (replicate (length cs) FRAMING_INCOMPLETE, p') \<Longrightarrow> sig_run (ctx, p) cs = (replicate (length cs) FRAMING_INCOMPLETE, ctx, p')"
proof (induction cs arbitrary: p)
  case (Cons c cs)
  obtain rx st r rs where p: "p = (rx, st, r, rs)" by (metis prod_cases4)
  obtain f q where s: "mavlink_frame_char_buffer rx st c r rs = (f, q)" by (cases "mavlink_frame_char_buffer rx st c r rs") blast
  then have "f = FRAMING_INCOMPLETE" "mav_run q cs = (replicate (length cs) FRAMING_INCOMPLETE, p')" using Cons.prems p by (auto split: prod.splits)
  then show ?case using Cons.IH frame_char_incomplete[of rx st c r rs q ctx] s p by simp
qed simp

text \<open>All but the last of the thirteen bytes of a signature block.\<close>

lemma signature_prefix:
  assumes "s_parse_state st = PARSE_STATE_SIGNATURE_WAIT" "s_signature_wait st = 13" "length sig = 13" "length (m_signature rx) = 13" "k < 13"
  shows "\<exists>st'. core_run (rx, st) (take k sig) = (replicate k FRAMING_INCOMPLETE, rx\<lparr>m_signature := memcpy (m_signature rx) 0 (take k sig)\<rparr>, st') \<and>
    s_parse_state st' = PARSE_STATE_SIGNATURE_WAIT \<and> unat (s_signature_wait st') = 13 - k"
  using assms(5)
proof (induction k)
  case 0
  then show ?case using assms(1,2) by (simp add: memcpy_def)
next
  case (Suc k)
  let ?rx = "rx\<lparr>m_signature := memcpy (m_signature rx) 0 (take k sig)\<rparr>"
  obtain st' where ih: "core_run (rx, st) (take k sig) = (replicate k FRAMING_INCOMPLETE, ?rx, st')"
    "s_parse_state st' = PARSE_STATE_SIGNATURE_WAIT" "unat (s_signature_wait st') = 13 - k" using Suc by auto
  have "s_signature_wait st' \<noteq> 0" using ih(3) Suc.prems by auto
  then have w: "unat (s_signature_wait st' - 1) = 13 - Suc k" using ih(3) by (simp add: unat_dec)
  then have nz: "s_signature_wait st' - 1 \<noteq> 0" using Suc.prems by auto
  have t: "take (Suc k) sig = take k sig @ [sig ! k]" using Suc.prems assms(3) by (simp add: take_Suc_conv_app_nth)
  have u: "(memcpy (m_signature rx) 0 (take k sig))[k := sig ! k] = memcpy (m_signature rx) 0 (take (Suc k) sig)"
    using Suc.prems assms(3,4) by (simp add: t memcpy_def list_update_append upd_conv_take_nth_drop)
  have "\<exists>st''. mav_core (?rx, st') (sig ! k) = (FRAMING_INCOMPLETE, rx\<lparr>m_signature := memcpy (m_signature rx) 0 (take (Suc k) sig)\<rparr>, st'') \<and>
      s_parse_state st'' = PARSE_STATE_SIGNATURE_WAIT \<and> s_signature_wait st'' = s_signature_wait st' - 1"
    using ih(2,3) nz Suc.prems u by (simp add: mav_core_def Let_def frame_count_def)
  then show ?case using ih(1) w unfolding t core_run_append by (auto simp: replicate_append_same)
qed

text \<open>The last byte of a signed frame: the result is that of the check on the message received.\<close>

lemma signature_last:
  assumes "s_parse_state st = PARSE_STATE_SIGNATURE_WAIT" "s_signature_wait st = 1"
    and "mavlink_signature_check (fst ctx) (snd ctx) (rx\<lparr>m_signature := (m_signature rx)[12 := c]\<rparr>) = (ok, Some s', ss')"
    and "g_accept_unsigned_callback s' = None"
  defines "rx' \<equiv> rx\<lparr>m_signature := (m_signature rx)[12 := c]\<rparr>"
  shows "\<exists>st' rs'. frame_char_buffer_signing ctx rx st c r rs =
      ((if ok then FRAMING_OK else FRAMING_BAD_SIGNATURE, rx', st', rx', rs'), (Some s', ss')) \<and> s_parse_state st' = PARSE_STATE_IDLE"
  using assms
  by (simp add: frame_char_buffer_signing_def frame_switch_signing_def frame_signature_wait_def frame_after_def Let_def accept_unsigned_def frame_count_def)

definition checksum_bytes_of :: "mavlink_message_t \<Rightarrow> bytes" where
  "checksum_bytes_of m = [ucast (m_checksum m AND 0xFF), ucast (drop_bit 8 (m_checksum m))]"

text \<open>The whole signed frame up to its last byte, and the message the check is then applied to.\<close>

lemma signed_frame_prefix:
  assumes idle: "s_parse_state st = PARSE_STATE_IDLE \<or> s_parse_state st = PARSE_STATE_UNINIT"
    and "message_sizes rx" "wf_frame m" "m_incompat_flags m AND 1 \<noteq> 0"
  shows "\<exists>rx' st' r' rs'. mav_run (rx, st, r, rs) (butlast (send_bytes m)) = (replicate (length (send_bytes m) - 1) FRAMING_INCOMPLETE, rx', st', r', rs') \<and>
    s_parse_state st' = PARSE_STATE_SIGNATURE_WAIT \<and> s_signature_wait st' = 1 \<and> message_sizes rx' \<and> same_header rx' m \<and>
    take (unat (m_len m)) (m_payload rx') = take (unat (m_len m)) (m_payload m) \<and> m_checksum rx' = m_checksum m \<and>
    m_ck rx' = checksum_bytes_of m \<and> (m_signature rx')[12 := last (send_bytes m)] = m_signature m"
proof -
  let ?n = "unat (m_len m)"
  have sig: "length (m_signature m) = 13" "length (m_signature rx) = 13" "length (m_ck rx) = 2" using assms(2,3) by (simp_all add: wf_frame_def)
  have send: "send_bytes m = (frame_bytes m @ take 12 (m_signature m)) @ [m_signature m ! 12]"
    using send_bytes_frame[OF assms(3)] assms(4) sig(1) by (simp add: take_Suc_conv_app_nth[symmetric])
  have len: "length (frame_bytes m) = 12 + ?n" using assms(3) by (simp add: length_frame_bytes wf_frame_def)
  obtain rx3 st3 where f: "core_run (rx, st) (frame_bytes m) = (replicate (11 + ?n) FRAMING_INCOMPLETE @ [FRAMING_INCOMPLETE], rx3, st3)"
     "same_header rx3 m" "take ?n (m_payload rx3) = take ?n (m_payload m)" "m_checksum rx3 = m_checksum m" "m_signature rx3 = m_signature rx"
     "s_parse_state st3 = PARSE_STATE_SIGNATURE_WAIT" "s_signature_wait st3 = 13" "m_ck rx3 = (m_ck rx)[0 := ucast (m_checksum m AND 0xFF), 1 := ucast (drop_bit 8 (m_checksum m))]"
    using frame_bytes_received[OF assms(1-3)] assms(4) by auto
  let ?rx4 = "rx3\<lparr>m_signature := memcpy (m_signature rx) 0 (take 12 (m_signature m))\<rparr>"
  obtain st4 where s: "core_run (rx3, st3) (take 12 (m_signature m)) = (replicate 12 FRAMING_INCOMPLETE, ?rx4, st4)"
    "s_parse_state st4 = PARSE_STATE_SIGNATURE_WAIT" "unat (s_signature_wait st4) = 1"
    using signature_prefix[OF f(6,7) sig(1), of rx3 12] f(5) sig(2) by auto
  have k: "length (send_bytes m) - 1 = (11 + ?n) + 1 + 12" using send len sig(1) by simp
  have core: "core_run (rx, st) (butlast (send_bytes m)) = (replicate (length (send_bytes m) - 1) FRAMING_INCOMPLETE, ?rx4, st4)"
    unfolding send butlast_snoc k[unfolded send] using core_run_appendI[OF f(1) s(1)] by (simp only: replicate_add) simp
  obtain fs rx' st' r' rs' where run: "mav_run (rx, st, r, rs) (butlast (send_bytes m)) = (fs, rx', st', r', rs')" by (metis prod_cases5)
  from mav_run_core[OF run] core have e: "fs = replicate (length (send_bytes m) - 1) FRAMING_INCOMPLETE" "rx' = ?rx4" "st' = st4" by simp_all
  have "parser_inv rx st" using assms(1,2) by (auto simp: parser_inv_def)
  then have "message_sizes rx'" using mav_run_inv[OF _ run] by (simp add: parser_inv_def)
  moreover have "m_ck ?rx4 = checksum_bytes_of m" using f(8) sig(3) by (simp add: checksum_bytes_of_def) (cases "m_ck rx", simp, cases "tl (m_ck rx)", auto)
  moreover have "(m_signature ?rx4)[12 := last (send_bytes m)] = m_signature m"
  proof -
    have "last (send_bytes m) = m_signature m ! 12" unfolding send by simp
    moreover have "length (drop 12 (m_signature rx)) = 1" using sig(2) by simp
    then obtain x where "drop 12 (m_signature rx) = [x]" by (metis One_nat_def length_0_conv length_Suc_conv)
    moreover have "take 12 (m_signature m) @ [m_signature m ! 12] = m_signature m" using sig(1) by (simp flip: take_Suc_conv_app_nth)
    ultimately show ?thesis using sig(1) by (simp add: memcpy_def list_update_append)
  qed
  moreover have "s_signature_wait st4 = 1" using s(3) by (simp add: word_unat_eq_iff)
  ultimately show ?thesis using run s(2) f(2-4) unfolding e by (auto simp: same_header_def)
qed

lemma msg_mac_cong:
  assumes "same_header a b" "take (unat (m_len b)) (m_payload a) = take (unat (m_len b)) (m_payload b)" "m_ck a = m_ck b" "take 7 (m_signature a) = take 7 (m_signature b)"
  shows "msg_mac key a = msg_mac key b"
  using assms by (simp add: msg_mac_def header_mavlink2_def same_header_def)

lemma same_header_refl [simp]: "same_header m m"
  by (simp add: same_header_def)

text \<open>A signed frame: accepted when the signature block fits the key and the time stamp is new, refused otherwise.\<close>

lemma signed_frame_received:
  assumes idle: "s_parse_state st = PARSE_STATE_IDLE \<or> s_parse_state st = PARSE_STATE_UNINIT"
    and "message_sizes rx" "wf_frame m" "m_incompat_flags m AND 1 \<noteq> 0"
    and "length (g_secret_key g) = 32" "streams_inv ss" "g_accept_unsigned_callback g = None"
  defines "status \<equiv> check_status g ss (m\<lparr>m_ck := checksum_bytes_of m\<rparr>)"
  shows "\<exists>g' ss' rx' st' r' rs'. sig_run ((Some g, Some ss), rx, st, r, rs) (send_bytes m) =
       (replicate (length (send_bytes m) - 1) FRAMING_INCOMPLETE @ [if status = SIGNING_STATUS_OK then FRAMING_OK else FRAMING_BAD_SIGNATURE],
        (Some g', Some ss'), rx', st', r', rs') \<and>
     same_header r' m \<and> take (unat (m_len m)) (m_payload r') = take (unat (m_len m)) (m_payload m) \<and> m_checksum r' = m_checksum m \<and>
     m_signature r' = m_signature m \<and> s_parse_state st' = PARSE_STATE_IDLE \<and> g_last_status g' = status \<and> streams_inv ss' \<and>
     (if status = SIGNING_STATUS_OK then last_stamp ss' = (last_stamp ss)(msg_stream m \<mapsto> msg_stamp m) else ss' = ss)"
proof -
  obtain rx1 st1 r1 rs1 where p: "mav_run (rx, st, r, rs) (butlast (send_bytes m)) = (replicate (length (send_bytes m) - 1) FRAMING_INCOMPLETE, rx1, st1, r1, rs1)"
    "s_parse_state st1 = PARSE_STATE_SIGNATURE_WAIT" "s_signature_wait st1 = 1" "message_sizes rx1" "same_header rx1 m"
    "take (unat (m_len m)) (m_payload rx1) = take (unat (m_len m)) (m_payload m)" "m_checksum rx1 = m_checksum m"
    "m_ck rx1 = checksum_bytes_of m" "(m_signature rx1)[12 := last (send_bytes m)] = m_signature m"
    using signed_frame_prefix[OF assms(1-4), of r rs] by blast
  define c where "c = last (send_bytes m)"
  define rx2 where "rx2 = rx1\<lparr>m_signature := (m_signature rx1)[12 := c]\<rparr>"
  have ne: "send_bytes m \<noteq> []" using send_bytes_frame[OF assms(3)] by (auto simp: frame_bytes_def header_mavlink2_def)
  have sizes: "message_sizes rx2" using p(4) by (simp add: rx2_def)
  have rx2: "message_sizes rx2" "same_header rx2 m" "take (unat (m_len m)) (m_payload rx2) = take (unat (m_len m)) (m_payload m)"
    "m_checksum rx2 = m_checksum m" "m_ck rx2 = checksum_bytes_of m" "m_signature rx2 = m_signature m"
    using sizes p(5-9) by (simp_all add: rx2_def c_def same_header_def)
  have "msg_mac key rx2 = msg_mac key (m\<lparr>m_ck := checksum_bytes_of m\<rparr>)" for key
    using rx2 by (intro msg_mac_cong) (simp_all add: same_header_def)
  moreover have "msg_stream rx2 = msg_stream m" "msg_stamp rx2 = msg_stamp m" using rx2 by (simp_all add: msg_stream_def msg_stamp_def same_header_def)
  moreover have "msg_stream (m\<lparr>m_ck := checksum_bytes_of m\<rparr>) = msg_stream m" "msg_stamp (m\<lparr>m_ck := checksum_bytes_of m\<rparr>) = msg_stamp m"
    by (simp_all add: msg_stream_def msg_stamp_def)
  ultimately have st: "check_status g ss rx2 = status" "msg_stream rx2 = msg_stream m" "msg_stamp rx2 = msg_stamp m"
    using rx2(6) by (simp_all add: status_def check_status_def)
  obtain g' ss' where c: "mavlink_signature_check (Some g) (Some ss) rx2 = (status = SIGNING_STATUS_OK, Some g', Some ss')"
    "g_accept_unsigned_callback g' = None" "g_last_status g' = status" "streams_inv ss'"
    "if status = SIGNING_STATUS_OK then last_stamp ss' = (last_stamp ss)(msg_stream m \<mapsto> msg_stamp m) else ss' = ss"
    using signature_check_status[OF rx2(1) assms(5,6)] assms(7) unfolding st by auto
  obtain st' rs' where l: "frame_char_buffer_signing (Some g, Some ss) rx1 st1 c r1 rs1 =
      ((if status = SIGNING_STATUS_OK then FRAMING_OK else FRAMING_BAD_SIGNATURE, rx2, st', rx2, rs'), (Some g', Some ss'))" "s_parse_state st' = PARSE_STATE_IDLE"
    using signature_last[OF p(2,3), of "(Some g, Some ss)" rx1 c "status = SIGNING_STATUS_OK" g' "Some ss'" r1 rs1] c(1,2) by (auto simp: rx2_def)
  have "sig_run ((Some g, Some ss), rx, st, r, rs) (butlast (send_bytes m)) = (replicate (length (send_bytes m) - 1) FRAMING_INCOMPLETE, (Some g, Some ss), rx1, st1, r1, rs1)"
    using sig_run_incomplete[of "(rx, st, r, rs)" "butlast (send_bytes m)" "(rx1, st1, r1, rs1)"] p(1) by simp
  then have "sig_run ((Some g, Some ss), rx, st, r, rs) (butlast (send_bytes m) @ [c]) =
      (replicate (length (send_bytes m) - 1) FRAMING_INCOMPLETE @ [if status = SIGNING_STATUS_OK then FRAMING_OK else FRAMING_BAD_SIGNATURE],
       (Some g', Some ss'), rx2, st', rx2, rs')"
    unfolding sig_run_append using l(1) by simp
  then show ?thesis using rx2 l(2) c(3-5) ne by (auto simp: c_def)
qed

section \<open>Signing a message\<close>

lemma length_tstamp_t8 [simp]: "length (tstamp_t8 t) = 8"
  by (simp add: tstamp_t8_def)

lemma sign_packet_eq:
  assumes "g_flags s AND 1 \<noteq> 0" "length sig0 = 13" "length (g_secret_key s) = 32" "length header < 2 ^ 29" "length packet < 2 ^ 29" "length crc = 2"
  defines "p \<equiv> g_link_id s # take 6 (tstamp_t8 (g_timestamp s))"
  shows "mavlink_sign_packet (Some s) sig0 header packet crc =
    (13, Some (s\<lparr>g_timestamp := g_timestamp s + 1\<rparr>), p @ take 6 (sha256 (g_secret_key s @ header @ packet @ crc @ p)))"
proof -
  define sig1 where "sig1 = memcpy (sig0[0 := g_link_id s]) 1 (take 6 (tstamp_t8 (g_timestamp s)))"
  have "take 1 (sig0[0 := g_link_id s]) = [g_link_id s]" using assms(2) by (cases sig0) simp_all
  then have s1: "take 7 sig1 = p" "length sig1 = 13" using assms(2) by (simp_all add: sig1_def memcpy_def p_def)
  have "mac48 sha256_ctx0 (g_secret_key s) header packet crc sig1 = take 6 (sha256 (g_secret_key s @ header @ packet @ crc @ p))"
    using mac48_eq[of sha256_ctx0 "g_secret_key s" header packet crc sig1] assms s1 by (simp add: sha256_ctx0_def)
  moreover have "memcpy sig1 7 x = p @ x" if "length x = 6" for x using s1 that by (simp add: memcpy_def)
  ultimately show ?thesis using assms(1) unfolding mavlink_sign_packet_def Let_def by (simp flip: sig1_def One_nat_def)
qed

lemma wf_frame_signature: "wf_frame f \<Longrightarrow> length sig = 13 \<Longrightarrow> wf_frame (f\<lparr>m_signature := sig\<rparr>)"
  by (simp add: wf_frame_def) (simp add: mav_checksum_def mav_body_def mav_extra_def header_mavlink2_def)

lemma finalize_signed:
  assumes "message_sizes msg" "\<not> out_mavlink1 status" "g_flags s AND 1 \<noteq> 0" "length (g_secret_key s) = 32"
    and "mavlink_finalize_message_buffer msg system_id component_id status (Some s) min_length len (mav_extra msg) = (n, m, status', signing')"
  shows "wf_frame m" "m_incompat_flags m AND 1 \<noteq> 0" "msg_mac (g_secret_key s) (m\<lparr>m_ck := checksum_bytes_of m\<rparr>) = take 6 (drop 7 (m_signature m))"
    "msg_stream m = (g_link_id s, system_id, component_id)" "msg_stamp m = take_bit 48 (g_timestamp s)" "m_msgid m = m_msgid msg" "m_seq m = s_current_tx_seq status"
    "unat (m_len m) = mav_trim_payload (m_payload msg) (unat len)" "take (unat (m_len m)) (m_payload m) = take (unat (m_len m)) (m_payload msg)"
    "signing' = Some (s\<lparr>g_timestamp := g_timestamp s + 1\<rparr>)" "status' = status\<lparr>s_current_tx_seq := s_current_tx_seq status + 1\<rparr>"
    "unat n = length (send_bytes m)"
proof -
  define f where "f = finished msg system_id component_id (s_current_tx_seq status) len 1"
  define k where "k = mav_trim_payload (m_payload msg) (unat len)"
  let ?p = "g_link_id s # take 6 (tstamp_t8 (g_timestamp s))"
  let ?ck = "[ucast (m_checksum f AND 0xFF), ucast (drop_bit 8 (m_checksum f))] :: bytes"
  have sg: "signs (Some s)" using assms(3) by (simp add: signs_def)
  have ff: "unat (m_len f) = k" "k \<le> 255" "take k (m_payload f) = take k (m_payload msg)" "m_incompat_flags f = 1" "m_sysid f = system_id"
    "m_compid f = component_id" "m_msgid f = m_msgid msg" "m_seq f = s_current_tx_seq status"
    unfolding f_def k_def by (rule finished_fields[OF assms(1)])+
  define sig where "sig = ?p @ take 6 (sha256 (g_secret_key s @ header_mavlink2 f k @ take k (m_payload f) @ ?ck @ ?p))"
  have "length (header_mavlink2 f k) < 2 ^ 29" "length (take k (m_payload f)) < 2 ^ 29" using ff(2) by (simp_all add: header_mavlink2_def)
  then have "mavlink_sign_packet (Some s) (m_signature msg) (header_mavlink2 f k) (take k (m_payload f)) ?ck =
      (13, Some (s\<lparr>g_timestamp := g_timestamp s + 1\<rparr>), sig)"
    using sign_packet_eq[OF assms(3) _ assms(4), of "m_signature msg" "header_mavlink2 f k" "take k (m_payload f)" ?ck] assms(1) by (simp add: sig_def)
  then have e: "m = f\<lparr>m_signature := sig\<rparr>" "n = word_of_nat (k + 25)" "signing' = Some (s\<lparr>g_timestamp := g_timestamp s + 1\<rparr>)"
    "status' = status\<lparr>s_current_tx_seq := s_current_tx_seq status + 1\<rparr>"
    using assms(5) finalize_eq[OF assms(1,2), of system_id component_id "Some s" min_length len] sg by (auto simp: f_def[symmetric] ff(1) Let_def)
  have ls: "length sig = 13" "take 7 sig = ?p" "drop 7 sig = take 6 (sha256 (g_secret_key s @ header_mavlink2 f k @ take k (m_payload f) @ ?ck @ ?p))"
    by (simp_all add: sig_def)
  have "wf_frame f" unfolding f_def by (rule finished_wf[OF assms(1)]) simp
  then show wf: "wf_frame m" unfolding e(1) by (rule wf_frame_signature[OF _ ls(1)])
  show inc: "m_incompat_flags m AND 1 \<noteq> 0" using ff(4) by (simp add: e(1))
  show "msg_mac (g_secret_key s) (m\<lparr>m_ck := checksum_bytes_of m\<rparr>) = take 6 (drop 7 (m_signature m))"
    using ls(2,3) by (simp add: msg_mac_def e(1) header_mavlink2_def checksum_bytes_of_def ff(1))
  show "msg_stream m = (g_link_id s, system_id, component_id)" using ff(5,6) by (simp add: msg_stream_def e(1) sig_def)
  have "take 6 (drop 1 sig) = take 6 (tstamp_t8 (g_timestamp s))" by (simp add: sig_def)
  then show "msg_stamp m = take_bit 48 (g_timestamp s)" by (simp add: msg_stamp_def e(1) stamp_val_tstamp)
  show "m_msgid m = m_msgid msg" "m_seq m = s_current_tx_seq status" "unat (m_len m) = mav_trim_payload (m_payload msg) (unat len)"
    "take (unat (m_len m)) (m_payload m) = take (unat (m_len m)) (m_payload msg)" using ff by (simp_all add: e(1) k_def)
  show "signing' = Some (s\<lparr>g_timestamp := g_timestamp s + 1\<rparr>)" "status' = status\<lparr>s_current_tx_seq := s_current_tx_seq status + 1\<rparr>" by (fact e)+
  have "length (send_bytes m) = k + 25" using send_bytes_frame[OF wf] inc wf ls(1) ff(1)
    by (simp add: length_frame_bytes wf_frame_def e(1))
  then show "unat n = length (send_bytes m)" using ff(2) by (simp add: e(2) unsigned_of_nat take_bit_nat_eq_self del: of_nat_add)
qed

section \<open>Channels\<close>

definition chan_ok :: "mavlink_channels \<Rightarrow> nat \<Rightarrow> bool" where
  "chan_ok ch chan \<longleftrightarrow> chan < length (ch_status ch) \<and> chan < length (ch_buffer ch) \<and> chan < length (ch_signing ch)"

lemma proto_version_roundtrip:
  assumes "chan_ok ch chan"
  shows "mavlink_get_proto_version (mavlink_set_proto_version ch chan v) chan = (if 1 < v then 2 else 1)"
    "in_mavlink1 (ch_status (mavlink_set_proto_version ch chan v) ! chan) = in_mavlink1 (ch_status ch ! chan)"
proof -
  have "(x AND NOT 2) AND 2 = 0" "(x OR 2) AND 2 \<noteq> 0" "(x AND NOT 2) AND 1 = x AND 1" "(x OR 2) AND 1 = x AND 1" for x :: u8
  proof -
    show "(x AND NOT 2) AND 2 = 0" by (rule bit_word_eqI) (auto simp: bit_simps)
    have "(2 :: u8) = 2 ^ 1" by simp
    then have "bit ((x OR 2) AND 2) 1" by (simp add: bit_and_iff bit_or_iff bit_2_iff)
    then show "(x OR 2) AND 2 \<noteq> 0" by force
    show "(x AND NOT 2) AND 1 = x AND 1" "(x OR 2) AND 1 = x AND 1" by (rule bit_word_eqI, auto simp: bit_simps bit_1_iff bit_2_iff)+
  qed
  then show "mavlink_get_proto_version (mavlink_set_proto_version ch chan v) chan = (if 1 < v then 2 else 1)"
    "in_mavlink1 (ch_status (mavlink_set_proto_version ch chan v) ! chan) = in_mavlink1 (ch_status ch ! chan)"
    using assms by (simp_all add: mavlink_get_proto_version_def mavlink_set_proto_version_def chan_ok_def in_mavlink1_def Let_def word_neq_0_conv[symmetric])
qed

text \<open>
  When a MAVLink 1 frame ends in a wrong checksum byte that is the start byte of MAVLink 2, \<^verbatim>\<open>mavlink_parse_char\<close> goes on as if it had just read a
  start byte but, unlike the idle state, leaves \<^verbatim>\<open>MAVLINK_STATUS_FLAG_IN_MAVLINK1\<close> and \<^verbatim>\<open>magic\<close> as they are: the frame that starts there is read as MAVLink 1.
\<close>

theorem parse_char_keeps_version:
  assumes "chan_ok ch chan" "s_parse_state (ch_status ch ! chan) = PARSE_STATE_GOT_BAD_CRC1" "in_mavlink1 (ch_status ch ! chan)"
    and "m_incompat_flags (ch_buffer ch ! chan) AND 1 = 0"
    and "mavlink_parse_char ch chan MAVLINK_STX r rs = (f, ch', r', rs')" "mavlink_parse_char ch' chan len r' rs' = (f2, ch'', r'', rs'')"
  shows "f = FRAMING_INCOMPLETE \<and> s_parse_state (ch_status ch' ! chan) = PARSE_STATE_GOT_STX \<and> m_magic (ch_buffer ch' ! chan) = m_magic (ch_buffer ch ! chan) \<and>
    f2 = FRAMING_INCOMPLETE \<and> s_parse_state (ch_status ch'' ! chan) = PARSE_STATE_GOT_COMPAT_FLAGS"
proof -
  have 1: "f = FRAMING_INCOMPLETE" "s_parse_state (ch_status ch' ! chan) = PARSE_STATE_GOT_STX" "m_magic (ch_buffer ch' ! chan) = m_magic (ch_buffer ch ! chan)"
    "in_mavlink1 (ch_status ch' ! chan)" "chan_ok ch' chan"
    using assms(1-5) by (auto simp: chan_ok_def mavlink_parse_char_def mavlink_frame_char_def frame_char_buffer_signing_def frame_switch_signing_def
        frame_crc2_signing_def frame_after_def Let_def frame_count_def mavlink_start_checksum_def in_mavlink1_def mav_parse_error_def)
  then have "f2 = FRAMING_INCOMPLETE" "s_parse_state (ch_status ch'' ! chan) = PARSE_STATE_GOT_COMPAT_FLAGS"
    using assms(6) by (auto simp: chan_ok_def mavlink_parse_char_def mavlink_frame_char_def frame_char_buffer_signing_def frame_switch_signing_def
        frame_after_def Let_def frame_count_def in_mavlink1_def)
  with 1 show ?thesis by blast
qed

text \<open>\<^verbatim>\<open>mavlink_parse_char\<close> reports good messages and nothing else, and is ready for the next frame after a bad one.\<close>

lemma parse_char_result:
  assumes "chan_ok ch chan" "mavlink_frame_char ch chan c r rs = (f, ch1, r1, rs1)" "mavlink_parse_char ch chan c r rs = (f', ch', r', rs')"
  shows "f' = (if f = FRAMING_OK then FRAMING_OK else FRAMING_INCOMPLETE)" "r' = r1" "chan_ok ch' chan"
    "f \<in> {FRAMING_BAD_CRC, FRAMING_BAD_SIGNATURE} \<Longrightarrow> s_parse_state (ch_status ch' ! chan) = (if c = MAVLINK_STX then PARSE_STATE_GOT_STX else PARSE_STATE_IDLE)"
    "i \<noteq> chan \<Longrightarrow> ch_status ch' ! i = ch_status ch ! i \<and> ch_buffer ch' ! i = ch_buffer ch ! i"
proof -
  have c1: "chan_ok ch1 chan" "i \<noteq> chan \<Longrightarrow> ch_status ch1 ! i = ch_status ch ! i \<and> ch_buffer ch1 ! i = ch_buffer ch ! i"
    using assms(1,2) by (auto simp: chan_ok_def mavlink_frame_char_def split: prod.splits)
  show "f' = (if f = FRAMING_OK then FRAMING_OK else FRAMING_INCOMPLETE)" "r' = r1"
    using assms(2,3) by (cases f, auto simp: mavlink_parse_char_def Let_def split: if_splits)+
  show "chan_ok ch' chan" "i \<noteq> chan \<Longrightarrow> ch_status ch' ! i = ch_status ch ! i \<and> ch_buffer ch' ! i = ch_buffer ch ! i"
    using assms(2,3) c1 by (auto simp: mavlink_parse_char_def Let_def chan_ok_def split: if_splits)
  show "s_parse_state (ch_status ch' ! chan) = (if c = MAVLINK_STX then PARSE_STATE_GOT_STX else PARSE_STATE_IDLE)" if "f \<in> {FRAMING_BAD_CRC, FRAMING_BAD_SIGNATURE}"
    using assms(2,3) c1(1) that by (auto simp: mavlink_parse_char_def Let_def chan_ok_def)
qed

section \<open>Properties\<close>

text \<open>
  Property C8 (round trip).  A message that \<^verbatim>\<open>mavlink_finalize_message_buffer\<close> finishes and signs, sent with \<^verbatim>\<open>mavlink_msg_to_send_buffer\<close> to a receiver that
  has the same secret key, makes its parser report nothing until the last byte and then \<^verbatim>\<open>MAVLINK_FRAMING_OK\<close> exactly when the time stamp is
  new to the receiver, \<^verbatim>\<open>MAVLINK_FRAMING_BAD_SIGNATURE\<close> otherwise; what is handed out has the message id, the payload, the sender and the sequence
  number of the sender's message.  The sender's time stamp and sequence number have moved on, so its next message is newer.
\<close>

theorem mavlink_signed_roundtrip:
  assumes "message_sizes msg" "\<not> out_mavlink1 status" "g_flags s AND 1 \<noteq> 0" "length (g_secret_key s) = 32"
    and "mavlink_finalize_message_buffer msg system_id component_id status (Some s) min_length len (mav_extra msg) = (n, m, status', signing')"
    and "s_parse_state st = PARSE_STATE_IDLE \<or> s_parse_state st = PARSE_STATE_UNINIT" "message_sizes rx"
    and "g_secret_key g = g_secret_key s" "streams_inv ss" "g_accept_unsigned_callback g = None"
  defines "verdict \<equiv> spec_check (last_stamp ss) (g_timestamp g) (g_link_id s, system_id, component_id) (take_bit 48 (g_timestamp s))"
    and "k \<equiv> mav_trim_payload (m_payload msg) (unat len)"
  shows "signing' = Some (s\<lparr>g_timestamp := g_timestamp s + 1\<rparr>) \<and> s_current_tx_seq status' = s_current_tx_seq status + 1 \<and> unat n = length (send_bytes m) \<and>
    (\<exists>g' ss' rx' st' r' rs'. sig_run ((Some g, Some ss), rx, st, r, rs) (send_bytes m) =
       (replicate (unat n - 1) FRAMING_INCOMPLETE @ [if verdict = SIGNING_STATUS_OK then FRAMING_OK else FRAMING_BAD_SIGNATURE],
        (Some g', Some ss'), rx', st', r', rs') \<and> g_last_status g' = verdict \<and> s_parse_state st' = PARSE_STATE_IDLE \<and>
     m_msgid r' = m_msgid msg \<and> unat (m_len r') = k \<and> take k (m_payload r') = take k (m_payload msg) \<and> m_sysid r' = system_id \<and>
     m_compid r' = component_id \<and> m_seq r' = s_current_tx_seq status)"
proof -
  note f = finalize_signed[OF assms(1-5)]
  have m: "m_sysid m = system_id" "m_compid m = component_id" using f(4) by (simp_all add: msg_stream_def)
  have v: "check_status g ss (m\<lparr>m_ck := checksum_bytes_of m\<rparr>) = verdict"
    using f(3-5) assms(8) by (simp add: check_status_def verdict_def msg_stream_def msg_stamp_def)
  have "length (g_secret_key g) = 32" using assms(4,8) by simp
  from signed_frame_received[OF assms(6,7) f(1,2) this assms(9,10), of r rs] obtain g' ss' rx' st' r' rs' where
    "sig_run ((Some g, Some ss), rx, st, r, rs) (send_bytes m) = (replicate (length (send_bytes m) - 1) FRAMING_INCOMPLETE @
       [if verdict = SIGNING_STATUS_OK then FRAMING_OK else FRAMING_BAD_SIGNATURE], (Some g', Some ss'), rx', st', r', rs')"
    "same_header r' m" "take (unat (m_len m)) (m_payload r') = take (unat (m_len m)) (m_payload m)" "s_parse_state st' = PARSE_STATE_IDLE" "g_last_status g' = verdict"
    unfolding v by blast
  then show ?thesis using f(6-12) m by (auto simp: same_header_def k_def)
qed

lemma demo_finalize:
  "\<exists>n m status' signing'. mavlink_finalize_message_buffer heartbeat 1 1 zero_status (Some demo_signing) 9 9 (mav_extra heartbeat) = (n, m, status', signing')"
  by (metis prod_cases4)

theorem mavlink_signed_roundtrip_witness:
  "\<exists>n m status' signing' p. mavlink_finalize_message_buffer heartbeat 1 1 zero_status (Some demo_signing) 9 9 (mav_extra heartbeat) = (n, m, status', signing') \<and>
     sig_run ((Some demo_signing, Some demo_streams), zero_message, zero_status, zero_message, zero_status) (send_bytes m) =
       (replicate (unat n - 1) FRAMING_INCOMPLETE @ [FRAMING_OK], p)"
proof -
  obtain n m status' signing' where fin: "mavlink_finalize_message_buffer heartbeat 1 1 zero_status (Some demo_signing) 9 9 (mav_extra heartbeat) = (n, m, status', signing')"
    using demo_finalize by blast
  have "message_sizes heartbeat" using heartbeat_wf by (simp add: wf_frame_def)
  moreover have "\<not> out_mavlink1 zero_status" "g_flags demo_signing AND 1 \<noteq> 0" "length (g_secret_key demo_signing) = 32"
    "s_parse_state zero_status = PARSE_STATE_IDLE \<or> s_parse_state zero_status = PARSE_STATE_UNINIT" "g_accept_unsigned_callback demo_signing = None"
    by (simp_all add: out_mavlink1_def zero_status_def demo_signing_def)
  moreover have "spec_check (last_stamp demo_streams) (g_timestamp demo_signing) (g_link_id demo_signing, 1, 1) (take_bit 48 (g_timestamp demo_signing)) = SIGNING_STATUS_OK"
    by (simp add: demo_streams_inv(2) spec_check_def demo_signing_def)
  ultimately show ?thesis
    using mavlink_signed_roundtrip[OF _ _ _ _ fin _ zero_message_sizes refl demo_streams_inv(1), of zero_status zero_message zero_status] fin by auto
qed

text \<open>
  Property C20 (safety).  A channel with a signing context and no callback never reports \<^verbatim>\<open>MAVLINK_FRAMING_OK\<close> for a message it cannot authenticate: whatever
  bytes came before, unsigned frames included, a message reported as good carries the code of the channel's key over its header, payload and
  checksum, and a time stamp that is new on its stream.
\<close>

theorem mavlink_ok_only_authenticated:
  assumes "message_sizes rx" "length (g_secret_key g) = 32" "streams_inv ss" "g_accept_unsigned_callback g = None"
    and "frame_char_buffer_signing (Some g, Some ss) rx st c r rs = ((FRAMING_OK, rx', st', r', rs'), ctx')"
  shows "r' = rx' \<and> take 6 (sha256 (g_secret_key g @ header_mavlink2 r' (unat (m_len r')) @ take (unat (m_len r')) (m_payload r') @ m_ck r' @
      take 7 (m_signature r'))) = take 6 (drop 7 (m_signature r')) \<and>
    spec_check (last_stamp ss) (g_timestamp g) (msg_stream r') (msg_stamp r') = SIGNING_STATUS_OK"
proof -
  let ?st = "st\<lparr>s_msg_received := FRAMING_INCOMPLETE\<rparr>"
  obtain st1 r1 where sw: "frame_switch_signing (Some g, Some ss) c rx ?st r = ((rx', st1, r1), ctx')" and ok: "s_msg_received st1 = FRAMING_OK"
    and r': "r' = r1\<lparr>m_len := m_len rx'\<rparr>"
    using assms(5) by (auto simp: frame_char_buffer_signing_def frame_after_def Let_def split: prod.splits)
  show ?thesis
  proof (cases "s_parse_state st = PARSE_STATE_SIGNATURE_WAIT")
    case True
    let ?rx = "rx\<lparr>m_signature := (m_signature rx)[MAVLINK_SIGNATURE_BLOCK_LEN - unat (s_signature_wait st) := c]\<rparr>"
    have sizes: "message_sizes ?rx" using assms(1) by simp
    from signature_check_status[OF sizes assms(2,3)] obtain g' ss' where
      ch: "mavlink_signature_check (Some g) (Some ss) ?rx = (check_status g ss ?rx = SIGNING_STATUS_OK, Some g', Some ss')" "g_accept_unsigned_callback g' = None"
      using assms(4) by auto
    have "rx' = ?rx" "r1 = ?rx" "check_status g ss ?rx = SIGNING_STATUS_OK"
      using sw ok True ch by (auto simp: frame_switch_signing_def frame_signature_wait_def Let_def accept_unsigned_def split: if_splits)
    then have "r' = rx'" "check_status g ss r' = SIGNING_STATUS_OK" using r' by simp_all
    then show ?thesis by (auto simp: check_status_def msg_mac_def split: if_splits)
  next
    case False
    then show ?thesis using sw ok assms(4)
      by (cases "s_parse_state st") (auto simp: frame_switch_signing_def frame_crc2_signing_def accept_unsigned_def frame_idle_def mav_parse_error_def Let_def split: if_splits)
  qed
qed

lemma demo_last_byte:
  defines "m \<equiv> demo_signed 2"
  shows "\<exists>st' rs' ctx'. frame_char_buffer_signing (Some demo_signing, Some demo_streams) m
      (zero_status\<lparr>s_parse_state := PARSE_STATE_SIGNATURE_WAIT, s_signature_wait := 1\<rparr>) (m_signature m ! 12) zero_message zero_status =
    ((FRAMING_OK, m, st', m, rs'), ctx')"
proof -
  let ?st = "zero_status\<lparr>s_parse_state := PARSE_STATE_SIGNATURE_WAIT, s_signature_wait := 1\<rparr>"
  have l: "length (m_signature m) = 13" using demo_signed_facts(1)[of 2] by (simp add: m_def)
  have m: "m\<lparr>m_signature := (m_signature m)[12 := m_signature m ! 12]\<rparr> = m" by simp
  have "check_status demo_signing demo_streams m = SIGNING_STATUS_OK"
    using demo_signed_facts(2-4)[of 2] by (simp add: check_status_def m_def demo_signing_def demo_streams_inv(2) spec_check_def take_bit_eq_mod)
  then obtain s' ss' where "mavlink_signature_check (Some demo_signing) (Some demo_streams) m = (True, Some s', Some ss')" "g_accept_unsigned_callback s' = None"
    using signature_check_status[OF demo_signed_facts(1)[of 2] _ demo_streams_inv(1), of demo_signing] by (auto simp: m_def demo_signing_def)
  then show ?thesis using signature_last[of ?st "(Some demo_signing, Some demo_streams)" m "m_signature m ! 12" True s' "Some ss'" zero_message zero_status] unfolding m by auto
qed

theorem mavlink_ok_only_authenticated_witness:
  "spec_check (last_stamp demo_streams) (g_timestamp demo_signing) (msg_stream (demo_signed 2)) (msg_stamp (demo_signed 2)) = SIGNING_STATUS_OK"
proof -
  have "length (g_secret_key demo_signing) = 32" "g_accept_unsigned_callback demo_signing = None" by (simp_all add: demo_signing_def)
  moreover obtain st' rs' ctx' where "frame_char_buffer_signing (Some demo_signing, Some demo_streams) (demo_signed 2)
      (zero_status\<lparr>s_parse_state := PARSE_STATE_SIGNATURE_WAIT, s_signature_wait := 1\<rparr>) (m_signature (demo_signed 2) ! 12) zero_message zero_status =
    ((FRAMING_OK, demo_signed 2, st', demo_signed 2, rs'), ctx')" using demo_last_byte by blast
  ultimately show ?thesis using mavlink_ok_only_authenticated[OF demo_signed_facts(1)[of 2] _ demo_streams_inv(1)] by blast
qed

text \<open>
  Property C23 (round trip).  Without signing, \<^verbatim>\<open>mavlink_finalize_message_buffer\<close> makes a well-formed frame: it returns the number of bytes
  \<^verbatim>\<open>mavlink_msg_to_send_buffer\<close> then writes, and those bytes make an idle parser report \<^verbatim>\<open>MAVLINK_FRAMING_OK\<close> on the last one and hand out
  the message id, the payload without its trailing zeros, the sender and the sequence number, which the status counts up.
\<close>

theorem mavlink_finalize_roundtrip:
  assumes "message_sizes msg" "\<not> out_mavlink1 status"
    and "mavlink_finalize_message_buffer msg system_id component_id status None min_length len (mav_extra msg) = (n, m, status', signing')"
    and "s_parse_state st = PARSE_STATE_IDLE \<or> s_parse_state st = PARSE_STATE_UNINIT" "message_sizes rx"
  defines "k \<equiv> mav_trim_payload (m_payload msg) (unat len)"
  shows "unat n = length (send_bytes m) \<and> signing' = None \<and> s_current_tx_seq status' = s_current_tx_seq status + 1 \<and>
    (\<exists>rx' st' r' rs'. mav_run (rx, st, r, rs) (send_bytes m) = (replicate (unat n - 1) FRAMING_INCOMPLETE @ [FRAMING_OK], rx', st', r', rs') \<and>
     m_msgid r' = m_msgid msg \<and> unat (m_len r') = k \<and> take k (m_payload r') = take k (m_payload msg) \<and> m_sysid r' = system_id \<and>
     m_compid r' = component_id \<and> m_seq r' = s_current_tx_seq status)"
proof -
  define f where "f = finished msg system_id component_id (s_current_tx_seq status) len 0"
  have ff: "unat (m_len f) = k" "k \<le> 255" "take k (m_payload f) = take k (m_payload msg)" "m_incompat_flags f = 0" "m_sysid f = system_id"
    "m_compid f = component_id" "m_msgid f = m_msgid msg" "m_seq f = s_current_tx_seq status" "m_signature f = m_signature msg"
    unfolding f_def k_def by (rule finished_fields[OF assms(1)])+
  have ns: "\<not> signs None" by (simp add: signs_def)
  have e: "m = f" "n = word_of_nat (k + 12)" "signing' = None" "status' = status\<lparr>s_current_tx_seq := s_current_tx_seq status + 1\<rparr>"
    using assms(3) finalize_eq[OF assms(1,2), of system_id component_id None min_length len] ns by (auto simp: f_def[symmetric] ff(1) Let_def simp flip: ff(9))
  have wf: "wf_frame m" unfolding e(1) f_def by (rule finished_wf[OF assms(1)]) simp
  then have "length (send_bytes m) = k + 12" using send_bytes_frame[OF wf] ff(1,4) by (simp add: e(1) length_frame_bytes wf_frame_def)
  then have n: "unat n = length (send_bytes m)" using ff(2) by (simp add: e(2) unsigned_of_nat take_bit_nat_eq_self del: of_nat_add)
  from mavlink_roundtrip_core[OF assms(4,5) wf, of r rs] show ?thesis unfolding n using ff e by (auto simp: same_header_def)
qed

theorem mavlink_finalize_roundtrip_witness:
  "\<exists>n m status' signing' p. mavlink_finalize_message_buffer heartbeat 1 1 zero_status None 9 9 (mav_extra heartbeat) = (n, m, status', signing') \<and>
     mav_run (zero_message, zero_status, zero_message, zero_status) (send_bytes m) = (replicate (unat n - 1) FRAMING_INCOMPLETE @ [FRAMING_OK], p)"
proof -
  obtain n m status' signing' where fin: "mavlink_finalize_message_buffer heartbeat 1 1 zero_status None 9 9 (mav_extra heartbeat) = (n, m, status', signing')"
    by (metis prod_cases4)
  have "message_sizes heartbeat" using heartbeat_wf by (simp add: wf_frame_def)
  moreover have "\<not> out_mavlink1 zero_status" "s_parse_state zero_status = PARSE_STATE_IDLE \<or> s_parse_state zero_status = PARSE_STATE_UNINIT"
    by (simp_all add: out_mavlink1_def zero_status_def)
  ultimately show ?thesis using mavlink_finalize_roundtrip[OF _ _ fin _ zero_message_sizes, of zero_status zero_message zero_status] fin by auto
qed

end
