(* ===== verification/Mavlink_Send.thy ===== *)
theory Mavlink_Send
  imports Mavlink_Signed
begin

text \<open>
  The remaining helpers of \<^verbatim>\<open>mavlink_helpers.h\<close>: the lookups of a message's table entry, the functions that send a message to a UART without building it in
  memory first, and \<^verbatim>\<open>put_bitfield_n_by_index\<close>.  What goes to the UART is returned as bytes.
\<close>

section \<open>Table lookups\<close>

definition mavlink_get_crc_extra :: "mavlink_message_t \<Rightarrow> u8" where
  "mavlink_get_crc_extra msg = (case mavlink_get_msg_entry (ucast (m_msgid msg)) of Some e \<Rightarrow> e_crc_extra e | None \<Rightarrow> 0)"

definition mavlink_min_message_length :: "mavlink_message_t \<Rightarrow> u8" where
  "mavlink_min_message_length msg = (case mavlink_get_msg_entry (ucast (m_msgid msg)) of Some e \<Rightarrow> e_min_msg_len e | None \<Rightarrow> 0)"

definition mavlink_max_message_length :: "mavlink_message_t \<Rightarrow> u8" where
  "mavlink_max_message_length msg = (case mavlink_get_msg_entry (ucast (m_msgid msg)) of Some e \<Rightarrow> e_max_msg_len e | None \<Rightarrow> 0)"

section \<open>Sending to a UART\<close>

record mavlink_system_t =
  y_sysid :: u8
  y_compid :: u8

text \<open>\<^verbatim>\<open>_mavlink_send_uart\<close>, one byte at a time.\<close>

definition mavlink_send_uart :: "bytes \<Rightarrow> u16 \<Rightarrow> bytes" where
  "mavlink_send_uart buf len = fold (\<lambda>i out. out @ [buf ! i]) [0..<unat len] []"

text \<open>
  \<^verbatim>\<open>_mav_finalize_message_chan_send\<close>: the header it forms with the lengths of header and payload, and the rest; \<open>sig\<close> is what the local array \<^verbatim>\<open>signature\<close>
  holds at first.
\<close>

definition chan_send_header :: "bool \<Rightarrow> bool \<Rightarrow> mavlink_system_t \<Rightarrow> mavlink_status_t \<Rightarrow> u32 \<Rightarrow> bytes \<Rightarrow> u8 \<Rightarrow> u8 \<Rightarrow> nat \<times> nat \<times> bytes" where
  "chan_send_header mavlink1 sign mavlink_system status msgid packet min_length len =
     (if mavlink1
      then (5, unat min_length,
        [MAVLINK_STX_MAVLINK1, min_length, s_current_tx_seq status, y_sysid mavlink_system, y_compid mavlink_system, ucast (msgid AND 0xFF)])
      else let len = mav_trim_payload packet (unat len)
           in (9, len,
        [MAVLINK_STX, word_of_nat len, if sign then 1 else 0, 0, s_current_tx_seq status, y_sysid mavlink_system, y_compid mavlink_system,
         ucast (msgid AND 0xFF), ucast (drop_bit 8 msgid AND 0xFF), ucast (drop_bit 16 msgid AND 0xFF)]))"

definition mav_finalize_message_chan_send :: "mavlink_system_t \<Rightarrow> bytes \<Rightarrow> mavlink_channels \<Rightarrow> nat \<Rightarrow> u32 \<Rightarrow> bytes \<Rightarrow> u8 \<Rightarrow> u8 \<Rightarrow> u8 \<Rightarrow>
    bytes \<times> mavlink_channels" where
  "mav_finalize_message_chan_send mavlink_system sig ch chan msgid packet min_length len crc_extra =
     (let status = ch_status ch ! chan;
          (signing, streams) = ch_signing ch ! chan;
          mavlink1 = out_mavlink1 status;
          sign = (\<not> mavlink1 \<and> signs signing)
      in if mavlink1 \<and> 255 < msgid
         then ([], ch\<lparr>ch_status := (ch_status ch)[chan := mav_parse_error status]\<rparr>)
         else case chan_send_header mavlink1 sign mavlink_system status msgid packet min_length len of (header_len, len, buf) \<Rightarrow>
            let status = status\<lparr>s_current_tx_seq := s_current_tx_seq status + 1\<rparr>;
                checksum = crc_calculate (take header_len (drop 1 buf));
                checksum = crc_accumulate_buffer checksum (take len packet);
                checksum = crc_accumulate crc_extra checksum;
                ck = [ucast (checksum AND 0xFF), ucast (drop_bit 8 checksum)];
                (signature_len, signing, sig) =
                  (if sign then mavlink_sign_packet signing sig (take (header_len + 1) buf) (take len packet) ck else (0, signing, sig))
            in (mavlink_send_uart buf (word_of_nat (header_len + 1)) @ mavlink_send_uart packet (word_of_nat len) @ mavlink_send_uart ck 2 @
                  (if signature_len \<noteq> 0 then mavlink_send_uart sig (ucast signature_len) else []),
                ch\<lparr>ch_status := (ch_status ch)[chan := status], ch_signing := (ch_signing ch)[chan := (signing, streams)]\<rparr>))"

definition mavlink_resend_uart :: "mavlink_message_t \<Rightarrow> bytes" where
  "mavlink_resend_uart msg =
     (let ck = [ucast (m_checksum msg AND 0xFF), ucast (drop_bit 8 (m_checksum msg))];
          (header_len, signature_len, buf) =
            (if m_magic msg = MAVLINK_STX_MAVLINK1 then (6, 0 :: nat, header_mavlink1 msg)
             else (10, if m_incompat_flags msg AND 1 \<noteq> 0 then MAVLINK_SIGNATURE_BLOCK_LEN else 0, header_mavlink2 msg (unat (m_len msg))))
      in mavlink_send_uart buf header_len @ mavlink_send_uart (m_payload msg) (ucast (m_len msg)) @ mavlink_send_uart ck 2 @
         (if signature_len \<noteq> 0 then mavlink_send_uart (m_signature msg) (word_of_nat MAVLINK_SIGNATURE_BLOCK_LEN) else []))"

section \<open>Bit fields\<close>

lemma unat_ucast_16 [simp]: "unat (ucast x :: u16) = unat (x :: u8)"
  using u8_le_255[of x] by (simp add: unsigned_ucast_eq take_bit_nat_eq_self)

text \<open>
  The loop of \<^verbatim>\<open>put_bitfield_n_by_index\<close> on its 8-bit variables, for a little-endian machine; \<^verbatim>\<open>bit_index\<close> is at most 8, so that the shift counts are in
  range.  Every turn but one that starts behind a full byte uses up bits.
\<close>

function put_bitfield_loop :: "32 word \<Rightarrow> u16 \<Rightarrow> u8 \<Rightarrow> u8 \<Rightarrow> bytes \<Rightarrow> u8 \<times> u8 \<times> bytes" where
  "put_bitfield_loop v bits_remain i_bit_index i_byte_index buffer =
     (if 0 < bits_remain
      then let curr_bits_n = (if bits_remain \<le> ucast (8 - i_bit_index) then ucast bits_remain else 8 - i_bit_index);
               b = buffer ! unat i_byte_index;
               b = (ucast ((ucast b :: 32 word) AND drop_bit (8 - unat curr_bits_n) 0xFF) :: u8);
               b = (ucast ((ucast b :: 32 word) OR (push_bit (unat curr_bits_n) 0x00 AND v)) :: u8);
               buffer = buffer[unat i_byte_index := b];
               i_bit_index = i_bit_index + curr_bits_n;
               bits_remain = bits_remain - ucast curr_bits_n
           in if 0 < bits_remain then put_bitfield_loop v bits_remain 0 (i_byte_index + 1) buffer
              else (i_bit_index, i_byte_index, buffer)
      else (i_bit_index, i_byte_index, buffer))"
  by auto
termination
proof (relation "measure (\<lambda>(v, bits_remain, i_bit_index, _). 2 * unat bits_remain + (if i_bit_index = 8 then 1 else 0))", goal_cases)
  case (2 v bits_remain i_bit_index i_byte_index buffer curr b b2 b3 buffer' i' bits')
  show ?case
  proof (cases "bits_remain \<le> ucast (8 - i_bit_index)")
    case True
    then have "curr = ucast bits_remain" using 2 by simp
    moreover have "unat bits_remain < 256" using True u8_le_255[of "8 - i_bit_index"] by (simp add: word_le_nat_alt unat_ucast_16)
    then have "(ucast (ucast bits_remain :: u8) :: u16) = bits_remain" by (simp add: word_unat_eq_iff unsigned_ucast_eq unsigned_take_bit_eq take_bit_nat_eq_self)
    ultimately show ?thesis using 2 by simp
  next
    case False
    then have "curr = 8 - i_bit_index" using 2 by simp
    moreover have "unat (ucast curr :: u16) = unat curr" by (simp add: unat_ucast_16)
    ultimately have "unat bits' + unat curr = unat bits_remain" using 2 False by (simp add: unat_sub word_le_nat_alt not_le)
    moreover have "0 < unat curr" if "i_bit_index \<noteq> 8" using that \<open>curr = 8 - i_bit_index\<close> by (simp add: unat_gt_0)
    ultimately show ?thesis by (cases "i_bit_index = 8") auto
  qed
qed simp

declare put_bitfield_loop.simps [simp del]

definition put_bitfield_n_by_index :: "32 word \<Rightarrow> u8 \<Rightarrow> u8 \<Rightarrow> u8 \<Rightarrow> bytes \<Rightarrow> u8 \<times> u8 \<times> bytes" where
  "put_bitfield_n_by_index b bits packet_index bit_index buffer =
     (let i_byte_index = (if 0 < bit_index then packet_index - 1 else packet_index);
          (i_bit_index, i_byte_index, buffer) = put_bitfield_loop b (ucast bits) bit_index i_byte_index buffer;
          i_byte_index = (if i_bit_index \<noteq> 7 then i_byte_index + 1 else i_byte_index)
      in (i_byte_index - packet_index, i_bit_index, buffer))"

text \<open>
  The mask that should select the bits of the value is \<^verbatim>\<open>0x00 << curr_bits_n\<close>, which is zero: nothing of the value is ever stored, whatever the arguments.
\<close>

lemma put_bitfield_loop_value: "put_bitfield_loop v n i j buffer = put_bitfield_loop w n i j buffer"
proof (induction v n i j buffer rule: put_bitfield_loop.induct)
  case (1 v n i j buffer)
  then show ?case by (subst (1 2) put_bitfield_loop.simps) (simp add: Let_def)
qed

theorem put_bitfield_ignores_value: "put_bitfield_n_by_index b bits packet_index bit_index buffer = put_bitfield_n_by_index b' bits packet_index bit_index buffer"
  unfolding put_bitfield_n_by_index_def put_bitfield_loop_value[of b _ _ _ _ b'] ..

section \<open>The send paths agree\<close>

lemma mavlink_send_uart_eq: "unat len \<le> length buf \<Longrightarrow> mavlink_send_uart buf len = take (unat len) buf"
proof -
  have "fold (\<lambda>i out. out @ [buf ! i]) [0..<n] [] = take n buf" if "n \<le> length buf" for n
    using that by (induction n) (simp_all add: take_Suc_conv_app_nth)
  then show "unat len \<le> length buf \<Longrightarrow> mavlink_send_uart buf len = take (unat len) buf" by (simp add: mavlink_send_uart_def)
qed

lemma resend_send_bytes:
  assumes "message_sizes m" "m_magic m = MAVLINK_STX_MAVLINK1 \<or> mav_trim_payload (m_payload m) (unat (m_len m)) = unat (m_len m)"
  shows "mavlink_resend_uart m = send_bytes m"
proof -
  have l: "unat (ucast (m_len m) :: u16) = unat (m_len m)" "unat (m_len m) \<le> 255" using u8_le_255[of "m_len m"] by (simp_all add: unat_ucast_16)
  then show ?thesis using assms
    by (auto simp: mavlink_resend_uart_def send_bytes_def Let_def mavlink_send_uart_eq header_mavlink1_def header_mavlink2_def)
qed

lemma crc_extra_eq: "mavlink_get_crc_extra msg = mav_extra msg"
  by (simp add: mavlink_get_crc_extra_def mav_extra_def)

lemma msgid_bytes:
  assumes "m_msgid msg = ucast (i :: u32)"
  shows "ucast (m_msgid msg AND 0xFF) = (ucast (i AND 0xFF) :: u8)" "ucast (drop_bit 8 (m_msgid msg) AND 0xFF) = (ucast (drop_bit 8 i AND 0xFF) :: u8)"
    "ucast (drop_bit 16 (m_msgid msg) AND 0xFF) = (ucast (drop_bit 16 i AND 0xFF) :: u8)"
proof -
  have m: "x AND 0xFF = take_bit 8 x" "y AND 0xFF = take_bit 8 y" for x :: "24 word" and y :: u32
    by (simp_all add: take_bit_eq_mask mask_eq_exp_minus_1)
  show "ucast (m_msgid msg AND 0xFF) = (ucast (i AND 0xFF) :: u8)" "ucast (drop_bit 8 (m_msgid msg) AND 0xFF) = (ucast (drop_bit 8 i AND 0xFF) :: u8)"
    "ucast (drop_bit 16 (m_msgid msg) AND 0xFF) = (ucast (drop_bit 16 i AND 0xFF) :: u8)"
    unfolding m assms by (rule bit_word_eqI, auto simp: bit_simps)+
qed

lemma take_prefix_nth: "take n xs = take n ys \<Longrightarrow> i < n \<Longrightarrow> xs ! i = ys ! i"
  by (metis nth_take)

text \<open>MAVLink 2: the bytes sent are those of the finished message.\<close>

lemma chan_send_v2:
  assumes "chan_ok ch chan" "message_sizes msg" "m_msgid msg = ucast msgid" "take (unat len) packet = take (unat len) (m_payload msg)" "unat len \<le> length packet"
    and "\<not> out_mavlink1 (ch_status ch ! chan)" "length sig = 13" "\<forall>s. fst (ch_signing ch ! chan) = Some s \<longrightarrow> length (g_secret_key s) = 32"
    and "mavlink_finalize_message_chan ch msg (y_sysid y) (y_compid y) chan min_length len (mav_extra msg) = (n, m, ch1)"
  shows "mav_finalize_message_chan_send y sig ch chan msgid packet min_length len (mav_extra msg) = (send_bytes m, ch1)"
proof -
  let ?st = "ch_status ch ! chan"
  obtain sg str where ctx: "ch_signing ch ! chan = (sg, str)" by (cases "ch_signing ch ! chan")
  let ?fl = "if signs sg then 1 else 0 :: u8"
  define f where "f = finished msg (y_sysid y) (y_compid y) (s_current_tx_seq ?st) len ?fl"
  define k where "k = mav_trim_payload (m_payload msg) (unat len)"
  have ff: "unat (m_len f) = k" "k \<le> 255" "take k (m_payload f) = take k (m_payload msg)" "m_incompat_flags f = ?fl" "m_sysid f = y_sysid y"
    "m_compid f = y_compid y" "m_msgid f = m_msgid msg" "m_seq f = s_current_tx_seq ?st" "m_signature f = m_signature msg" "m_magic f = MAVLINK_STX" "m_compat_flags f = 0"
    unfolding f_def k_def by (rule finished_fields[OF assms(2)])+
  have kl: "k \<le> unat len" unfolding k_def by (rule mav_trim_payload_le)
  have pk: "mav_trim_payload packet (unat len) = k" "take k packet = take k (m_payload msg)" "k \<le> length packet"
    using mav_trim_payload_cong[of "unat len" packet "m_payload msg"] take_prefix_nth[OF assms(4)] arg_cong[OF assms(4), of "take k"] kl assms(5)
    by (simp_all add: k_def min_absorb1)
  define buf where "buf = [MAVLINK_STX, word_of_nat k, ?fl, 0, s_current_tx_seq ?st, y_sysid y, y_compid y, ucast (msgid AND 0xFF),
      ucast (drop_bit 8 msgid AND 0xFF), ucast (drop_bit 16 msgid AND 0xFF)]"
  have wk: "word_of_nat k = m_len f" using ff(1) by (metis word_of_nat_unat ucast_id)
  have buf: "buf = header_mavlink2 f k" "take 9 (drop 1 buf) = tl buf" "take (9 + 1) buf = buf" "mavlink_send_uart buf (word_of_nat (9 + 1)) = buf"
    using ff msgid_bytes[OF assms(3)] by (simp_all add: buf_def header_mavlink2_def mavlink_send_uart_eq)
  let ?ck = "[ucast (m_checksum f AND 0xFF), ucast (drop_bit 8 (m_checksum f))] :: bytes"
  have cs: "crc_accumulate (mav_extra msg) (crc_accumulate_buffer (crc_calculate (tl buf)) (take k packet)) = m_checksum f"
    using mav_checksum_chain[of f] finished_checksum[OF assms(2), of "y_sysid y" "y_compid y" "s_current_tx_seq ?st" len ?fl] pk(2) ff(1,3,7) buf(1)
    by (simp add: f_def[symmetric] mav_extra_def)
  have uk: "unat (word_of_nat k :: u16) = k" using ff(2) by (simp add: unsigned_of_nat take_bit_nat_eq_self)
  have su: "mavlink_send_uart packet (word_of_nat k) = take k packet" "mavlink_send_uart ?ck 2 = ?ck" using uk pk(3) by (simp_all add: mavlink_send_uart_eq)
  have hd: "chan_send_header False (signs sg) y ?st msgid packet min_length len = (9, k, buf)"
    by (simp add: chan_send_header_def pk(1) Let_def buf_def)
  have om: "out_mavlink1 ?st = False" using assms(6) by simp
  have snd: "mav_finalize_message_chan_send y sig ch chan msgid packet min_length len (mav_extra msg) =
      (case (if signs sg then mavlink_sign_packet sg sig buf (take k packet) ?ck else (0, sg, sig)) of (l, sg', sig') \<Rightarrow>
        (buf @ take k packet @ ?ck @ (if l \<noteq> 0 then mavlink_send_uart sig' (ucast l) else []),
         ch\<lparr>ch_status := (ch_status ch)[chan := ?st\<lparr>s_current_tx_seq := s_current_tx_seq ?st + 1\<rparr>], ch_signing := (ch_signing ch)[chan := (sg', str)]\<rparr>))"
    unfolding mav_finalize_message_chan_send_def Let_def ctx om prod.case simp_thms if_False hd buf(2-4) cs su ..
  have "flags AND NOT 1 = 0" if "flags = ?fl" for flags using that by simp
  then have wf: "wf_frame f" unfolding f_def by (intro finished_wf[OF assms(2)]) simp
  have fb: "frame_bytes (f\<lparr>m_signature := S\<rparr>) = buf @ take k packet @ ?ck" for S
    using buf(1) pk(2) ff(1,3) by (simp add: frame_bytes_def header_mavlink2_def)
  note fe = finalize_eq[OF assms(2,6), of "y_sysid y" "y_compid y" sg min_length len, folded f_def]
  show ?thesis
  proof (cases "signs sg")
    case False
    then have "m = f" "ch1 = ch\<lparr>ch_status := (ch_status ch)[chan := ?st\<lparr>s_current_tx_seq := s_current_tx_seq ?st + 1\<rparr>], ch_signing := (ch_signing ch)[chan := (sg, str)]\<rparr>"
      using assms(9) fe by (auto simp: mavlink_finalize_message_chan_def ctx Let_def simp flip: ff(9))
    then show ?thesis using False send_bytes_frame[OF wf] fb[of "m_signature f"] ff(4) by (simp add: snd)
  next
    case True
    then obtain s where s: "sg = Some s" "g_flags s AND 1 \<noteq> 0" by (auto simp: signs_def split: option.splits)
    define S where "S = (g_link_id s # take 6 (tstamp_t8 (g_timestamp s))) @
      take 6 (sha256 (g_secret_key s @ buf @ take k packet @ ?ck @ (g_link_id s # take 6 (tstamp_t8 (g_timestamp s)))))"
    have "length (g_secret_key s) = 32" using assms(8) s(1) ctx by simp
    moreover have "length buf < 2 ^ 29" "length (take k packet) < 2 ^ 29" using ff(2) by (simp_all add: buf_def)
    ultimately have sp: "mavlink_sign_packet sg sig0 buf (take k packet) ?ck = (13, Some (s\<lparr>g_timestamp := g_timestamp s + 1\<rparr>), S)" if "length sig0 = 13" for sig0
      using sign_packet_eq[OF s(2) that, of buf "take k packet" ?ck] by (simp add: s(1) S_def)
    have S: "length S = 13" by (simp add: S_def)
    have "m = f\<lparr>m_signature := S\<rparr>" "ch1 = ch\<lparr>ch_status := (ch_status ch)[chan := ?st\<lparr>s_current_tx_seq := s_current_tx_seq ?st + 1\<rparr>],
        ch_signing := (ch_signing ch)[chan := (Some (s\<lparr>g_timestamp := g_timestamp s + 1\<rparr>), str)]\<rparr>"
      using assms(9) fe True sp[of "m_signature msg"] assms(2) buf(1) pk(2) ff(1,3)
      by (auto simp: mavlink_finalize_message_chan_def ctx Let_def)
    moreover have "send_bytes (f\<lparr>m_signature := S\<rparr>) = buf @ take k packet @ ?ck @ S"
      using send_bytes_frame[OF wf_frame_signature[OF wf S]] fb[of S] ff(4) True by simp
    ultimately show ?thesis using True sp[OF assms(7)] S by (simp add: snd mavlink_send_uart_eq)
  qed
qed

text \<open>MAVLink 1: no trimming and no signature, and only message ids of one byte.\<close>

lemma chan_send_v1:
  assumes "chan_ok ch chan" "m_msgid msg = ucast msgid" "take (unat min_length) packet = take (unat min_length) (m_payload msg)" "unat min_length \<le> length packet"
    and "out_mavlink1 (ch_status ch ! chan)" "\<not> 255 < msgid"
    and "mavlink_finalize_message_chan ch msg (y_sysid y) (y_compid y) chan min_length len extra = (n, m, ch1)"
  shows "mav_finalize_message_chan_send y sig ch chan msgid packet min_length len extra = (send_bytes m, ch1)"
proof -
  let ?st = "ch_status ch ! chan"
  obtain sg str where ctx: "ch_signing ch ! chan = (sg, str)" by (cases "ch_signing ch ! chan")
  define h where "h = finalize_header True False msg (y_sysid y) (y_compid y) ?st min_length len"
  have h: "m_len h = min_length" "m_payload h = m_payload msg" "header_mavlink1 h = [MAVLINK_STX_MAVLINK1, min_length, s_current_tx_seq ?st, y_sysid y, y_compid y, ucast (msgid AND 0xFF)]"
    "m_magic h = MAVLINK_STX_MAVLINK1"
    using msgid_bytes(1)[OF assms(2)] by (simp_all add: h_def finalize_header_def header_mavlink1_def Let_def)
  define ck where "ck = crc_accumulate extra (crc_accumulate_buffer (crc_calculate (tl (header_mavlink1 h))) (take (unat min_length) (m_payload msg)))"
  have om: "out_mavlink1 ?st = True" using assms(5) by simp
  have m: "m = h\<lparr>m_payload := (m_payload h)[unat min_length := ucast (ck AND 0xFF), unat min_length + 1 := ucast (drop_bit 8 ck)], m_checksum := ck\<rparr>"
    and ch1: "ch1 = ch\<lparr>ch_status := (ch_status ch)[chan := ?st\<lparr>s_current_tx_seq := s_current_tx_seq ?st + 1\<rparr>], ch_signing := (ch_signing ch)[chan := (sg, str)]\<rparr>"
    using assms(7) unfolding mavlink_finalize_message_chan_def mavlink_finalize_message_buffer_def Let_def ctx om prod.case simp_thms if_True if_False fst_conv snd_conv
      h_def[symmetric] h ck_def[symmetric] by (auto simp: h ck_def)
  have "header_mavlink1 m = header_mavlink1 h" "m_len m = min_length" "m_magic m = MAVLINK_STX_MAVLINK1" "m_checksum m = ck"
    using h by (simp_all add: m header_mavlink1_def)
  moreover have "take (unat min_length) (m_payload m) = take (unat min_length) packet" using assms(3) h(2) by (simp add: m)
  ultimately have sb: "send_bytes m = header_mavlink1 h @ take (unat min_length) packet @ [ucast (ck AND 0xFF), ucast (drop_bit 8 ck)]"
    by (simp add: send_bytes_def Let_def)
  have uk: "unat (word_of_nat (unat min_length) :: u16) = unat min_length" by simp
  have hd: "chan_send_header True False y ?st msgid packet min_length len = (5, unat min_length, header_mavlink1 h)"
    by (simp add: chan_send_header_def h(3))
  have "mavlink_send_uart (header_mavlink1 h) (word_of_nat (5 + 1)) = header_mavlink1 h" "mavlink_send_uart packet (word_of_nat (unat min_length)) = take (unat min_length) packet"
    "mavlink_send_uart [ucast (ck AND 0xFF), ucast (drop_bit 8 ck)] 2 = [ucast (ck AND 0xFF), ucast (drop_bit 8 ck)]"
    "take 5 (drop 1 (header_mavlink1 h)) = tl (header_mavlink1 h)"
    using assms(4) by (simp_all add: mavlink_send_uart_eq h(3))
  then show ?thesis using assms(6) unfolding mav_finalize_message_chan_send_def Let_def ctx om prod.case simp_thms if_True if_False hd sb ch1
    by (simp add: assms(3) ck_def[symmetric])
qed

text \<open>
  Property C32 (equivalence).  The two ways to send a message agree: \<^verbatim>\<open>_mav_finalize_message_chan_send\<close>, which sends a packet from its parts, puts on the
  line exactly the bytes that \<^verbatim>\<open>mavlink_finalize_message_chan\<close> followed by \<^verbatim>\<open>mavlink_msg_to_send_buffer\<close> makes of the same packet, in both protocol versions, signed
  or not, and leaves the channel's sequence number and signing state the same.  The only difference is that a MAVLink 1 channel refuses
  message ids above 255 and counts a parse error.
\<close>

theorem mavlink_send_paths_agree:
  assumes "chan_ok ch chan" "message_sizes msg" "m_msgid msg = ucast msgid" "take (unat len) packet = take (unat len) (m_payload msg)" "unat len \<le> length packet"
    and "min_length \<le> len" "length sig = 13" "\<forall>s. fst (ch_signing ch ! chan) = Some s \<longrightarrow> length (g_secret_key s) = 32"
    and "mavlink_finalize_message_chan ch msg (y_sysid y) (y_compid y) chan min_length len (mavlink_get_crc_extra msg) = (n, m, ch1)"
  shows "mav_finalize_message_chan_send y sig ch chan msgid packet min_length len (mavlink_get_crc_extra msg) =
    (if out_mavlink1 (ch_status ch ! chan) \<and> 255 < msgid
     then ([], ch\<lparr>ch_status := (ch_status ch)[chan := mav_parse_error (ch_status ch ! chan)]\<rparr>) else (send_bytes m, ch1))"
proof (cases "out_mavlink1 (ch_status ch ! chan)")
  case False
  then show ?thesis using chan_send_v2[OF assms(1-5) False assms(7,8)] assms(9) unfolding crc_extra_eq by simp
next
  case True
  have le: "unat min_length \<le> unat len" using assms(6) by (simp add: word_le_nat_alt)
  show ?thesis
  proof (cases "255 < msgid")
    case big: True
    then show ?thesis using True by (simp add: mav_finalize_message_chan_send_def Let_def split: prod.split)
  next
    case small: False
    have "take (unat min_length) packet = take (unat min_length) (m_payload msg)"
      using arg_cong[OF assms(4), of "take (unat min_length)"] le by (simp add: min_absorb1)
    then show ?thesis using chan_send_v1[OF assms(1,3) _ _ True small assms(9)] small le assms(5) by simp
  qed
qed

definition demo_channels :: mavlink_channels where
  "demo_channels = \<lparr>ch_status = [zero_status], ch_buffer = [zero_message], ch_signing = [(Some demo_signing, Some demo_streams)]\<rparr>"

theorem mavlink_send_paths_agree_witness:
  "\<exists>n m ch1. mavlink_finalize_message_chan demo_channels heartbeat 1 1 0 9 9 (mavlink_get_crc_extra heartbeat) = (n, m, ch1) \<and>
     mav_finalize_message_chan_send \<lparr>y_sysid = 1, y_compid = 1\<rparr> (replicate 13 0) demo_channels 0 0 (m_payload heartbeat) 9 9 (mavlink_get_crc_extra heartbeat) = (send_bytes m, ch1)"
proof -
  let ?y = "\<lparr>y_sysid = 1, y_compid = 1\<rparr> :: mavlink_system_t"
  obtain n m ch1 where fin: "mavlink_finalize_message_chan demo_channels heartbeat (y_sysid ?y) (y_compid ?y) 0 9 9 (mavlink_get_crc_extra heartbeat) = (n, m, ch1)"
    by (metis prod_cases3)
  have "chan_ok demo_channels 0" "message_sizes heartbeat" "m_msgid heartbeat = ucast (0 :: u32)" "unat (9 :: u8) \<le> length (m_payload heartbeat)"
    "\<forall>s. fst (ch_signing demo_channels ! 0) = Some s \<longrightarrow> length (g_secret_key s) = 32" "\<not> out_mavlink1 (ch_status demo_channels ! 0)"
    using heartbeat_wf by (simp_all add: chan_ok_def demo_channels_def wf_frame_def heartbeat_def heartbeat_body_def zero_message_def demo_signing_def out_mavlink1_def zero_status_def)
  then show ?thesis using mavlink_send_paths_agree[OF _ _ _ refl _ _ _ _ fin, of 0 "replicate 13 0"] fin by (intro exI[of _ n] exI[of _ m] exI[of _ ch1]) simp
qed

text \<open>A message that was received without error is sent on by \<^verbatim>\<open>_mavlink_resend_uart\<close> byte for byte.\<close>

theorem mavlink_resend_forwards:
  assumes "s_parse_state st = PARSE_STATE_IDLE \<or> s_parse_state st = PARSE_STATE_UNINIT" "message_sizes rx" "wf_frame m"
    and "mav_run (rx, st, r, rs) (send_bytes m) = (fs, rx', st', r', rs')"
  shows "mavlink_resend_uart r' = send_bytes m"
proof -
  have fs: "fs = replicate (length (send_bytes m) - 1) FRAMING_INCOMPLETE @ [FRAMING_OK]"
    and hd: "same_header r' m" "take (unat (m_len m)) (m_payload r') = take (unat (m_len m)) (m_payload m)" "m_checksum r' = m_checksum m"
    "m_incompat_flags m AND 1 \<noteq> 0 \<longrightarrow> m_signature r' = m_signature m"
    using mavlink_roundtrip_core[OF assms(1-3), of r rs] assms(4) by auto
  note run = hd mav_run_ok_message[OF assms(4)[unfolded fs]]
  have "parser_inv rx st" using assms(1,2) by (auto simp: parser_inv_def)
  then have sz: "message_sizes r'" using mav_run_inv[OF _ assms(4)] run(5) by (simp add: parser_inv_def)
  have "m_payload r' ! i = m_payload m ! i" if "i < unat (m_len m)" for i by (rule take_prefix_nth[OF run(2) that])
  then have "mav_trim_payload (m_payload r') (unat (m_len m)) = unat (m_len m)"
    using mav_trim_payload_cong[of "unat (m_len m)" "m_payload r'" "m_payload m"] assms(3) by (simp add: wf_frame_def)
  then have "mavlink_resend_uart r' = send_bytes r'" using run(1) sz by (intro resend_send_bytes) (simp_all add: same_header_def)
  also have "\<dots> = send_bytes m"
    using run(1-4) \<open>mav_trim_payload (m_payload r') (unat (m_len m)) = unat (m_len m)\<close> assms(3)
    by (auto simp: send_bytes_def Let_def same_header_def header_mavlink1_def header_mavlink2_def wf_frame_def)
  finally show ?thesis .
qed

end
