(* ===== verification/Mavlink_Common.thy ===== *)
theory Mavlink_Common
  imports Mavlink_Signed "HOL-Library.Sublist"
begin

text \<open>
  The parser of a program that is compiled with another dialect.  The ground station includes \<^verbatim>\<open>common/mavlink.h\<close> alone, so its parser looks message
  ids up in the table of \<^verbatim>\<open>common/common.h\<close>; the rest of \<^verbatim>\<open>mavlink_frame_char_buffer\<close> is the same text.  Frames whose entry is the same in both tables
  are parsed alike; a frame of a message that only the other dialect has is refused.
\<close>

section \<open>The parser over a message table\<close>

definition common_message_crcs :: "mavlink_msg_entry_t list" where
  "common_message_crcs = map msg_entry [
    (0, 50, 9, 9, 0, 0, 0), (1, 124, 31, 43, 0, 0, 0), (2, 137, 12, 12, 0, 0, 0),
    (4, 237, 14, 14, 3, 12, 13), (5, 217, 28, 28, 1, 0, 0), (6, 104, 3, 3, 0, 0, 0),
    (7, 119, 32, 32, 0, 0, 0), (8, 117, 36, 36, 0, 0, 0), (11, 89, 6, 6, 1, 4, 0),
    (20, 214, 20, 20, 3, 2, 3), (21, 159, 2, 2, 3, 0, 1), (22, 220, 25, 25, 0, 0, 0),
    (23, 168, 23, 23, 3, 4, 5), (24, 24, 30, 52, 0, 0, 0), (25, 23, 101, 101, 0, 0, 0),
    (26, 170, 22, 24, 0, 0, 0), (27, 144, 26, 29, 0, 0, 0), (28, 67, 16, 16, 0, 0, 0),
    (29, 115, 14, 16, 0, 0, 0), (30, 39, 28, 28, 0, 0, 0), (31, 246, 32, 48, 0, 0, 0),
    (32, 185, 28, 28, 0, 0, 0), (33, 104, 28, 28, 0, 0, 0), (34, 237, 22, 22, 0, 0, 0),
    (35, 244, 22, 22, 0, 0, 0), (36, 222, 21, 37, 0, 0, 0), (37, 212, 6, 7, 3, 4, 5),
    (38, 9, 6, 7, 3, 4, 5), (39, 254, 37, 38, 3, 32, 33), (40, 230, 4, 5, 3, 2, 3),
    (41, 28, 4, 4, 3, 2, 3), (42, 28, 2, 6, 0, 0, 0), (43, 132, 2, 3, 3, 0, 1),
    (44, 221, 4, 5, 3, 2, 3), (45, 232, 2, 3, 3, 0, 1), (46, 11, 2, 2, 0, 0, 0),
    (47, 153, 3, 4, 3, 0, 1), (48, 41, 13, 21, 1, 12, 0), (49, 39, 12, 20, 0, 0, 0),
    (50, 78, 37, 37, 3, 18, 19), (51, 196, 4, 5, 3, 2, 3), (54, 15, 27, 27, 3, 24, 25),
    (55, 3, 25, 25, 0, 0, 0), (61, 167, 72, 72, 0, 0, 0), (62, 183, 26, 26, 0, 0, 0),
    (63, 119, 181, 181, 0, 0, 0), (64, 191, 225, 225, 0, 0, 0), (65, 118, 42, 42, 0, 0, 0),
    (66, 148, 6, 6, 3, 2, 3), (67, 21, 4, 4, 0, 0, 0), (69, 243, 11, 18, 1, 10, 0),
    (70, 124, 18, 38, 3, 16, 17), (73, 38, 37, 38, 3, 32, 33), (74, 20, 20, 20, 0, 0, 0),
    (75, 158, 35, 35, 3, 30, 31), (76, 152, 33, 33, 3, 30, 31), (77, 143, 3, 10, 3, 8, 9),
    (80, 14, 4, 4, 3, 2, 3), (81, 106, 22, 22, 0, 0, 0), (82, 49, 39, 51, 3, 36, 37),
    (83, 22, 37, 37, 0, 0, 0), (84, 143, 53, 53, 3, 50, 51), (85, 140, 51, 51, 0, 0, 0),
    (86, 5, 53, 53, 3, 50, 51), (87, 150, 51, 51, 0, 0, 0), (89, 231, 28, 28, 0, 0, 0),
    (90, 183, 56, 56, 0, 0, 0), (91, 63, 42, 42, 0, 0, 0), (92, 54, 33, 33, 0, 0, 0),
    (93, 47, 81, 81, 0, 0, 0), (100, 175, 26, 34, 0, 0, 0), (101, 102, 32, 117, 0, 0, 0),
    (102, 158, 32, 117, 0, 0, 0), (103, 208, 20, 57, 0, 0, 0), (104, 56, 32, 116, 0, 0, 0),
    (105, 93, 62, 63, 0, 0, 0), (106, 138, 44, 44, 0, 0, 0), (107, 108, 64, 65, 0, 0, 0),
    (108, 32, 84, 92, 0, 0, 0), (109, 185, 9, 9, 0, 0, 0), (110, 84, 254, 254, 3, 1, 2),
    (111, 34, 16, 18, 3, 16, 17), (112, 174, 12, 12, 0, 0, 0), (113, 124, 36, 39, 0, 0, 0),
    (114, 237, 44, 44, 0, 0, 0), (115, 4, 64, 64, 0, 0, 0), (116, 76, 22, 24, 0, 0, 0),
    (117, 128, 6, 6, 3, 4, 5), (118, 56, 14, 14, 0, 0, 0), (119, 116, 12, 12, 3, 10, 11),
    (120, 134, 97, 97, 0, 0, 0), (121, 237, 2, 2, 3, 0, 1), (122, 203, 2, 2, 3, 0, 1),
    (123, 250, 113, 113, 3, 0, 1), (124, 87, 35, 57, 0, 0, 0), (125, 203, 6, 6, 0, 0, 0),
    (126, 220, 79, 81, 3, 79, 80), (127, 25, 35, 35, 0, 0, 0), (128, 226, 35, 35, 0, 0, 0),
    (129, 46, 22, 24, 0, 0, 0), (130, 29, 13, 13, 0, 0, 0), (131, 223, 255, 255, 0, 0, 0),
    (132, 85, 14, 39, 0, 0, 0), (133, 6, 18, 18, 0, 0, 0), (134, 229, 43, 43, 0, 0, 0),
    (135, 203, 8, 8, 0, 0, 0), (136, 1, 22, 22, 0, 0, 0), (137, 195, 14, 16, 0, 0, 0),
    (138, 109, 36, 120, 0, 0, 0), (139, 168, 43, 43, 3, 41, 42), (140, 181, 41, 41, 0, 0, 0),
    (141, 47, 32, 32, 0, 0, 0), (142, 72, 243, 243, 0, 0, 0), (143, 131, 14, 16, 0, 0, 0),
    (144, 127, 93, 93, 0, 0, 0), (146, 103, 100, 100, 0, 0, 0), (147, 154, 36, 54, 0, 0, 0),
    (148, 178, 60, 78, 0, 0, 0), (149, 200, 30, 60, 0, 0, 0), (162, 189, 8, 9, 0, 0, 0),
    (192, 36, 44, 54, 0, 0, 0), (225, 208, 65, 73, 0, 0, 0), (230, 163, 42, 42, 0, 0, 0),
    (231, 105, 40, 40, 0, 0, 0), (232, 151, 63, 65, 0, 0, 0), (233, 35, 182, 182, 0, 0, 0),
    (234, 150, 40, 40, 0, 0, 0), (235, 179, 42, 42, 0, 0, 0), (241, 90, 32, 32, 0, 0, 0),
    (242, 104, 52, 60, 0, 0, 0), (243, 85, 53, 61, 1, 52, 0), (244, 95, 6, 6, 0, 0, 0),
    (245, 130, 2, 2, 0, 0, 0), (246, 184, 38, 38, 0, 0, 0), (247, 81, 19, 19, 0, 0, 0),
    (248, 8, 254, 254, 3, 3, 4), (249, 204, 36, 36, 0, 0, 0), (250, 49, 30, 30, 0, 0, 0),
    (251, 170, 18, 18, 0, 0, 0), (252, 44, 18, 18, 0, 0, 0), (253, 83, 51, 54, 0, 0, 0),
    (254, 46, 9, 9, 0, 0, 0), (256, 71, 42, 42, 3, 8, 9), (257, 131, 9, 9, 0, 0, 0),
    (258, 187, 32, 232, 3, 0, 1), (259, 92, 235, 235, 0, 0, 0), (260, 146, 5, 13, 0, 0, 0),
    (261, 179, 27, 61, 0, 0, 0), (262, 12, 18, 22, 0, 0, 0), (263, 133, 255, 255, 0, 0, 0),
    (264, 49, 28, 28, 0, 0, 0), (265, 26, 16, 20, 0, 0, 0), (266, 193, 255, 255, 3, 2, 3),
    (267, 35, 255, 255, 3, 2, 3), (268, 14, 4, 4, 3, 2, 3), (269, 109, 213, 213, 0, 0, 0),
    (270, 59, 19, 19, 0, 0, 0), (271, 22, 52, 52, 0, 0, 0), (275, 126, 31, 31, 0, 0, 0),
    (276, 18, 49, 49, 0, 0, 0), (280, 70, 33, 33, 0, 0, 0), (281, 48, 13, 13, 0, 0, 0),
    (282, 123, 35, 35, 3, 32, 33), (283, 74, 144, 144, 0, 0, 0), (284, 99, 32, 32, 3, 30, 31),
    (285, 137, 40, 48, 3, 38, 39), (286, 210, 53, 57, 3, 50, 51), (287, 1, 23, 23, 3, 20, 21),
    (288, 20, 23, 23, 3, 20, 21), (290, 251, 46, 46, 0, 0, 0), (291, 10, 57, 57, 0, 0, 0),
    (299, 19, 96, 98, 0, 0, 0), (300, 217, 22, 22, 0, 0, 0), (301, 243, 58, 58, 0, 0, 0),
    (310, 28, 17, 17, 0, 0, 0), (311, 95, 116, 116, 0, 0, 0), (320, 243, 20, 20, 3, 2, 3),
    (321, 88, 2, 2, 3, 0, 1), (322, 243, 149, 149, 0, 0, 0), (323, 78, 147, 147, 3, 0, 1),
    (324, 132, 146, 146, 0, 0, 0), (330, 23, 158, 167, 0, 0, 0), (331, 91, 230, 233, 0, 0, 0),
    (332, 236, 239, 239, 0, 0, 0), (333, 231, 109, 109, 0, 0, 0), (334, 72, 10, 10, 0, 0, 0),
    (335, 225, 24, 24, 0, 0, 0), (336, 245, 84, 84, 0, 0, 0), (339, 199, 5, 5, 0, 0, 0),
    (340, 99, 70, 70, 0, 0, 0), (350, 232, 20, 252, 0, 0, 0), (360, 11, 25, 25, 0, 0, 0),
    (370, 75, 87, 109, 0, 0, 0), (373, 117, 42, 42, 0, 0, 0), (375, 251, 140, 140, 0, 0, 0),
    (380, 232, 20, 20, 0, 0, 0), (385, 147, 133, 133, 3, 2, 3), (386, 132, 16, 16, 3, 4, 5),
    (387, 4, 72, 72, 3, 4, 5), (388, 8, 37, 37, 3, 32, 33), (390, 156, 238, 238, 0, 0, 0),
    (395, 0, 212, 212, 0, 0, 0), (397, 182, 108, 108, 0, 0, 0), (400, 110, 254, 254, 3, 4, 5),
    (401, 183, 6, 6, 3, 4, 5), (410, 160, 53, 53, 0, 0, 0), (411, 106, 3, 3, 0, 0, 0),
    (412, 33, 6, 6, 3, 4, 5), (413, 77, 7, 7, 3, 4, 5), (9000, 113, 137, 137, 0, 0, 0),
    (9005, 117, 34, 34, 0, 0, 0), (12900, 114, 44, 44, 3, 0, 1), (12901, 254, 59, 59, 3, 30, 31),
    (12902, 140, 53, 53, 3, 4, 5), (12903, 249, 46, 46, 3, 0, 1), (12904, 77, 54, 54, 3, 28, 29),
    (12905, 49, 43, 43, 3, 0, 1), (12915, 94, 249, 249, 3, 0, 1), (12918, 139, 51, 51, 0, 0, 0),
    (12919, 7, 18, 18, 3, 16, 17), (12920, 20, 5, 5, 0, 0, 0)]"

text \<open>The case that looks at the table; every other case is the one of \<open>frame_switch\<close>.\<close>

definition frame_payload :: "mavlink_msg_entry_t list \<Rightarrow> u8 \<Rightarrow> mavlink_message_t \<Rightarrow> mavlink_status_t \<Rightarrow> mavlink_message_t \<Rightarrow>
    mavlink_message_t \<times> mavlink_status_t \<times> mavlink_message_t" where
  "frame_payload tab c rx st r =
     (let e = get_msg_entry tab (ucast (m_msgid rx));
          crc_extra = (case e of Some e \<Rightarrow> e_crc_extra e | None \<Rightarrow> 0);
          rx1 = mavlink_update_checksum rx crc_extra;
          st1 = st\<lparr>s_parse_state := (if ucast c \<noteq> m_checksum rx1 AND 0xFF
                     then PARSE_STATE_GOT_BAD_CRC1 else PARSE_STATE_GOT_CRC1)\<rparr>;
          rx2 = rx1\<lparr>m_ck := (m_ck rx1)[0 := c]\<rparr>;
          rx3 = (case e of
                   Some e \<Rightarrow> (if s_packet_idx st < e_max_msg_len e
                     then rx2\<lparr>m_payload := memset (m_payload rx2) (unat (s_packet_idx st)) 0
                                (unat (e_max_msg_len e) - unat (s_packet_idx st))\<rparr>
                     else rx2)
                 | None \<Rightarrow> rx2)
      in (rx3, st1, r))"

definition frame_switch_dialect :: "mavlink_msg_entry_t list \<Rightarrow> mavlink_parse_state_t \<Rightarrow> u8 \<Rightarrow> mavlink_message_t \<Rightarrow> mavlink_status_t \<Rightarrow>
    mavlink_message_t \<Rightarrow> mavlink_message_t \<times> mavlink_status_t \<times> mavlink_message_t" where
  "frame_switch_dialect tab s c rx st r =
     (if s = PARSE_STATE_GOT_PAYLOAD then frame_payload tab c rx st r else frame_switch s c rx st r)"

definition frame_char_dialect :: "mavlink_msg_entry_t list \<Rightarrow> mavlink_message_t \<Rightarrow> mavlink_status_t \<Rightarrow> u8 \<Rightarrow> mavlink_message_t \<Rightarrow> mavlink_status_t \<Rightarrow>
    mavlink_framing_t \<times> mavlink_message_t \<times> mavlink_status_t \<times> mavlink_message_t \<times> mavlink_status_t" where
  "frame_char_dialect tab rx st c r rs =
     frame_after (frame_switch_dialect tab (s_parse_state st) c rx (st\<lparr>s_msg_received := FRAMING_INCOMPLETE\<rparr>) r) rs"

text \<open>\<^verbatim>\<open>mavlink_parse_char\<close> on a channel without signing context, whose buffer is \<open>rx\<close> and whose status is \<open>st\<close>.\<close>

definition parse_char_dialect :: "mavlink_msg_entry_t list \<Rightarrow> mavlink_message_t \<Rightarrow> mavlink_status_t \<Rightarrow> u8 \<Rightarrow> mavlink_message_t \<Rightarrow> mavlink_status_t \<Rightarrow>
    mavlink_framing_t \<times> mavlink_message_t \<times> mavlink_status_t \<times> mavlink_message_t \<times> mavlink_status_t" where
  "parse_char_dialect tab rx st c r rs =
     (case frame_char_dialect tab rx st c r rs of (msg_received, rxmsg, status, r, rs) \<Rightarrow>
        if msg_received = FRAMING_BAD_CRC \<or> msg_received = FRAMING_BAD_SIGNATURE
        then let status = (mav_parse_error status)\<lparr>s_msg_received := FRAMING_INCOMPLETE, s_parse_state := PARSE_STATE_IDLE\<rparr>;
                 (rxmsg, status) =
                   (if c = MAVLINK_STX
                    then (mavlink_start_checksum (rxmsg\<lparr>m_len := 0\<rparr>), status\<lparr>s_parse_state := PARSE_STATE_GOT_STX\<rparr>)
                    else (rxmsg, status))
             in (FRAMING_INCOMPLETE, rxmsg, status, r, rs)
        else (msg_received, rxmsg, status, r, rs))"

section \<open>Where the table does not matter\<close>

definition same_entry :: "mavlink_msg_entry_t list \<Rightarrow> 24 word \<Rightarrow> bool" where
  "same_entry tab i \<longleftrightarrow> get_msg_entry tab (ucast i) = mavlink_get_msg_entry (ucast i)"

lemma frame_switch_same_entry:
  "s \<noteq> PARSE_STATE_GOT_PAYLOAD \<or> same_entry tab (m_msgid rx) \<Longrightarrow> frame_switch_dialect tab s c rx st r = frame_switch s c rx st r"
  by (auto simp: frame_switch_dialect_def frame_payload_def same_entry_def Let_def)

lemma frame_char_same_entry:
  "s_parse_state st \<noteq> PARSE_STATE_GOT_PAYLOAD \<or> same_entry tab (m_msgid rx) \<Longrightarrow>
    frame_char_dialect tab rx st c r rs = mavlink_frame_char_buffer rx st c r rs"
  by (simp add: frame_char_dialect_def frame_switch_same_entry frame_char_buffer_after)

text \<open>With the table of the relay and a channel that does not sign, this is \<^verbatim>\<open>mavlink_parse_char\<close> of the other theories.\<close>

lemma parse_char_dialect_null:
  assumes "chan_ok ch chan" "ch_signing ch ! chan = (None, ss)"
  shows "mavlink_parse_char ch chan c r rs =
    (case parse_char_dialect mavlink_message_crcs (ch_buffer ch ! chan) (ch_status ch ! chan) c r rs of (f, rx, st, r, rs) \<Rightarrow>
       (f, ch\<lparr>ch_status := (ch_status ch)[chan := st], ch_buffer := (ch_buffer ch)[chan := rx]\<rparr>, r, rs))"
proof -
  have same: "same_entry mavlink_message_crcs i" for i by (simp add: same_entry_def mavlink_get_msg_entry_def)
  obtain f rx st r1 rs1 where p: "mavlink_frame_char_buffer (ch_buffer ch ! chan) (ch_status ch ! chan) c r rs = (f, rx, st, r1, rs1)" by (metis surj_pair)
  have sg: "(ch_signing ch)[chan := (None, ss)] = ch_signing ch" using list_update_id[of "ch_signing ch" chan] assms(2) by simp
  have fc: "mavlink_frame_char ch chan c r rs = (f, ch\<lparr>ch_status := (ch_status ch)[chan := st], ch_buffer := (ch_buffer ch)[chan := rx]\<rparr>, r1, rs1)"
    using assms(2) by (simp add: mavlink_frame_char_def frame_char_buffer_null p sg)
  have fd: "frame_char_dialect mavlink_message_crcs (ch_buffer ch ! chan) (ch_status ch ! chan) c r rs = (f, rx, st, r1, rs1)"
    using frame_char_same_entry[OF disjI2[OF same]] p by simp
  show ?thesis using assms(1) unfolding mavlink_parse_char_def fc parse_char_dialect_def fd
    by (simp add: chan_ok_def Let_def)
qed

lemma common_crcs_sorted: "sorted_wrt (<) (map e_msgid common_message_crcs)"
proof -
  have "successively (<) (map e_msgid common_message_crcs)" unfolding common_message_crcs_def map_msgid_rows by code_simp
  then show ?thesis by (simp add: successively_conv_sorted_wrt transp_on_less)
qed

text \<open>Every row of the common dialect is a row of the other one.\<close>

lemma common_crcs_subseq: "subseq common_message_crcs mavlink_message_crcs"
  unfolding common_message_crcs_def mavlink_message_crcs_def by (rule subseq_map) code_simp

lemma common_entry:
  "get_msg_entry common_message_crcs i = Some e \<Longrightarrow> mavlink_get_msg_entry i = Some e"
proof -
  have ne: "common_message_crcs \<noteq> []" unfolding common_message_crcs_def by simp
  assume "get_msg_entry common_message_crcs i = Some e"
  then have "e \<in> set common_message_crcs \<and> e_msgid e = i" using get_msg_entry_correct[OF common_crcs_sorted ne] by blast
  moreover have "set common_message_crcs \<subseteq> set mavlink_message_crcs" using common_crcs_subseq by (auto elim!: list_emb_set[where P = "(=)"])
  ultimately show ?thesis unfolding mavlink_get_msg_entry_def using get_msg_entry_correct[OF message_crcs_sorted message_crcs_nonempty] by blast
qed

end
