(* ===== verification/Ground_Station.thy ===== *)
theory Ground_Station
  imports Mavlink_Common Relay
begin

text \<open>
  The two ends of the static-key link: the components \<^verbatim>\<open>Encrypt\<close> and \<^verbatim>\<open>Decrypt\<close> of \<^verbatim>\<open>apps/comm-crypto-relay\<close> on the vehicle, and the ground station of
  \<^verbatim>\<open>apps/gcs-crypto-block\<close>.  Both sides derive their channel keys from the same 48 bytes; channel 1 carries frames up to the vehicle and channel 2 down to
  the station.  What is written to a device is an output; printing is left out.
\<close>

section \<open>The relay with static keys: Encrypt\<close>

definition key_material :: bytes where
  "key_material =
    [0xCB, 0x28, 0x4A, 0xD9, 0x1E, 0x85, 0x78, 0xB1, 0x77, 0x6E, 0x9B, 0x98,
     0x32, 0xEF, 0x11, 0xB0, 0xBC, 0xA8, 0xCF, 0xD6, 0x29, 0x98, 0xDA, 0x15,
     0x43, 0x82, 0xC5, 0xAC, 0x4C, 0xB9, 0x58, 0xC5, 0x57, 0x0A, 0x4E, 0x30,
     0xCC, 0xED, 0xFE, 0xF7, 0x76, 0xF7, 0xC7, 0x75, 0x0C, 0x53, 0xA9, 0xE5]"

record cr_encrypt_st =
  cr_rx :: mavlink_message_t
  cr_status :: mavlink_status_t
  cr_symkey_chan2 :: gec_sym_key
  cr_queue :: queue_t

definition cr_encrypt_pre_init :: "cr_encrypt_st \<Rightarrow> cr_encrypt_st" where
  "cr_encrypt_pre_init st =
     st\<lparr>cr_symkey_chan2 := gec_init_sym_key_conf_auth (cr_symkey_chan2 st) (drop GEC_RAW_KEY_LEN key_material),
        cr_queue := queue_init (cr_queue st)\<rparr>"

text \<open>The inner loop reads the array of the queue directly; the size is reduced once per block.\<close>

primrec cr_take_block :: "nat \<Rightarrow> queue_t \<Rightarrow> bytes \<times> queue_t" where
  "cr_take_block 0 q = ([], q)"
| "cr_take_block (Suc n) q =
     (let c = raw_queue q ! unat (q_head q);
          (block, q) = cr_take_block n (q\<lparr>q_head := (q_head q + 1) mod 4096\<rparr>)
      in (c # block, q))"

primrec cr_encrypt_blocks :: "bool \<times> bool \<times> bool \<Rightarrow> nat \<Rightarrow> bytes \<Rightarrow> bytes \<Rightarrow> queue_t \<Rightarrow> gec_sym_key \<Rightarrow> bytes list \<times> queue_t \<times> gec_sym_key" where
  "cr_encrypt_blocks al 0 buf ct q k = ([], q, k)"
| "cr_encrypt_blocks al (Suc n) buf ct q k =
     (let (block, q) = cr_take_block GEC_PT_LEN q;
          buf = memcpy buf 0 block;
          q = q\<lparr>q_size := q_size q - 64\<rparr>;
          (ret, k, ct) = gec_encrypt al k buf ct;
          (frames, q, k) = cr_encrypt_blocks al n buf ct q k
      in (if ret \<noteq> GEC_SUCCESS then frames else ([GEC_CIPHERTEXT_FRAME_MAGIC, GEC_CIPHERTEXT_FRAME_TAG] @ ct) # frames, q, k))"

definition cr_encrypt_to_frame :: "bool \<times> bool \<times> bool \<Rightarrow> mavlink_message_t \<Rightarrow> cr_encrypt_st \<Rightarrow> bytes list \<times> cr_encrypt_st" where
  "cr_encrypt_to_frame al msg st =
     (let (len, buf) = mavlink_msg_to_send_buffer (replicate 280 0) msg;
          q = enqueue_all enqueue (cr_queue st) (take (unat len) buf);
          loop = q_size q div 64;
          (frames, q, k) = cr_encrypt_blocks al (unat loop) buf (replicate GEC_CT_LEN 0) q (cr_symkey_chan2 st)
      in (frames, st\<lparr>cr_queue := q, cr_symkey_chan2 := k\<rparr>))"

definition cr_handle_char :: "bool \<times> bool \<times> bool \<Rightarrow> mavlink_message_t \<times> mavlink_status_t \<Rightarrow> u8 \<Rightarrow> cr_encrypt_st \<Rightarrow> bytes list \<times> cr_encrypt_st" where
  "cr_handle_char al u c st =
     (let (result, rx, s, msg, _) = my_mavlink_parse_char c (cr_rx st) (cr_status st) (fst u) (snd u);
          st = st\<lparr>cr_rx := rx, cr_status := s\<rparr>
      in if result \<noteq> FRAMING_INCOMPLETE then cr_encrypt_to_frame al msg st else ([], st))"

text \<open>\<^verbatim>\<open>run\<close> on the bytes that the ring buffer hands out, each with what the uninitialised locals of its call hold.\<close>

primrec cr_encrypt_run :: "bool \<times> bool \<times> bool \<Rightarrow> ((mavlink_message_t \<times> mavlink_status_t) \<times> u8) list \<Rightarrow> cr_encrypt_st \<Rightarrow> bytes list \<times> cr_encrypt_st" where
  "cr_encrypt_run al [] st = ([], st)"
| "cr_encrypt_run al (uc # cs) st =
     (let (frames, st) = cr_handle_char al (fst uc) (snd uc) st; (rest, st) = cr_encrypt_run al cs st in (frames @ rest, st))"

section \<open>The relay with static keys: Decrypt\<close>

record cr_decrypt_st =
  crd_rx :: mavlink_message_t
  crd_status :: mavlink_status_t
  crd_head :: u32
  crd_symkey_chan1 :: gec_sym_key

definition cr_decrypt_pre_init :: "cr_decrypt_st \<Rightarrow> cr_decrypt_st" where
  "cr_decrypt_pre_init st = st\<lparr>crd_symkey_chan1 := gec_init_sym_key_conf_auth (crd_symkey_chan1 st) key_material\<rparr>"

text \<open>The loop of \<^verbatim>\<open>decrypt_to_msg\<close> over the plaintext, with its locals \<open>msg\<close>, \<open>rs\<close> (the status handed out) and \<open>buf\<close>.\<close>

primrec cr_parse_block :: "bytes \<Rightarrow> mavlink_message_t \<Rightarrow> mavlink_status_t \<Rightarrow> bytes \<Rightarrow> cr_decrypt_st \<Rightarrow> bytes list \<times> cr_decrypt_st" where
  "cr_parse_block [] msg rs buf st = ([], st)"
| "cr_parse_block (c # cs) msg rs buf st =
     (let (result, rx, s, msg, rs) = my_mavlink_parse_char c (crd_rx st) (crd_status st) msg rs;
          st = st\<lparr>crd_rx := rx, crd_status := s\<rparr>
      in if result \<noteq> FRAMING_INCOMPLETE
         then let (len, buf) = mavlink_msg_to_send_buffer buf msg; (outs, st) = cr_parse_block cs msg rs buf st in (take (unat len) buf # outs, st)
         else cr_parse_block cs msg rs buf st)"

text \<open>\<^verbatim>\<open>parse_char_into_msg\<close>, which the application does not call.\<close>

definition cr_parse_char_into_msg :: "mavlink_message_t \<times> mavlink_status_t \<Rightarrow> bytes \<Rightarrow> u8 \<Rightarrow> cr_decrypt_st \<Rightarrow> bytes list \<times> cr_decrypt_st" where
  "cr_parse_char_into_msg u buf c st =
     (let (result, rx, s, msg, _) = my_mavlink_parse_char c (crd_rx st) (crd_status st) (fst u) (snd u);
          st = st\<lparr>crd_rx := rx, crd_status := s\<rparr>
      in if result \<noteq> FRAMING_INCOMPLETE then let (len, buf) = mavlink_msg_to_send_buffer buf msg in ([take (unat len) buf], st) else ([], st))"

text \<open>\<open>u\<close> is what the uninitialised message and status hold, \<open>pt\<close> and \<open>buf\<close> what the uninitialised arrays hold; the first component of the result is the return value.\<close>

definition cr_decrypt_to_msg :: "bool \<times> bool \<times> bool \<Rightarrow> mavlink_message_t \<times> mavlink_status_t \<Rightarrow> bytes \<Rightarrow> bytes \<Rightarrow> bytes \<Rightarrow> cr_decrypt_st \<Rightarrow>
    int \<times> bytes list \<times> cr_decrypt_st" where
  "cr_decrypt_to_msg al u pt buf ct_frame st =
     (if ct_frame ! 0 \<noteq> GEC_CIPHERTEXT_FRAME_MAGIC then (1, [], st)
      else if ct_frame ! 1 \<noteq> GEC_CIPHERTEXT_FRAME_TAG then (1, [], st)
      else let (ret, k, pt) = gec_decrypt al (crd_symkey_chan1 st) (drop 2 ct_frame) pt;
               st = st\<lparr>crd_symkey_chan1 := k\<rparr>
           in if ret \<noteq> 0 then (1, [], st)
              else case cr_parse_block (take GEC_PT_LEN pt) (fst u) (snd u) buf st of (outs, st) \<Rightarrow> (0, outs, st))"

text \<open>The calls that \<^verbatim>\<open>run\<close> makes for a sequence of frames, each with the locals of its call: return values, writes and the state.\<close>

primrec cr_decrypt_all :: "bool \<times> bool \<times> bool \<Rightarrow> (((mavlink_message_t \<times> mavlink_status_t) \<times> bytes \<times> bytes) \<times> bytes) list \<Rightarrow> cr_decrypt_st \<Rightarrow>
    int list \<times> bytes list \<times> cr_decrypt_st" where
  "cr_decrypt_all al [] st = ([], [], st)"
| "cr_decrypt_all al (lf # lfs) st =
     (let (ret, outs, st) = cr_decrypt_to_msg al (fst (fst lf)) (fst (snd (fst lf))) (snd (snd (fst lf))) (snd lf) st;
          (rets, rest, st) = cr_decrypt_all al lfs st
      in (ret # rets, outs @ rest, st))"

text \<open>One turn of \<^verbatim>\<open>run\<close> on a view of the shared buffer, read as in the other application (the reads also store their position in
  \<^verbatim>\<open>head\<close> of the buffer, which no one reads); \<open>None\<close> while it waits for bytes.\<close>

definition cr_decrypt_turn :: "bool \<times> bool \<times> bool \<Rightarrow> mavlink_message_t \<times> mavlink_status_t \<Rightarrow> bytes \<Rightarrow> bytes \<Rightarrow> ring_buffer_t \<Rightarrow> cr_decrypt_st \<Rightarrow>
    (bytes list \<times> cr_decrypt_st) option" where
  "cr_decrypt_turn al u pt buf rb st =
     (case read_ciphertext_frame rb (crd_head st) of
        None \<Rightarrow> None
      | Some (ciphertext, head) \<Rightarrow>
          Some (snd (cr_decrypt_to_msg al u pt buf ([GEC_CIPHERTEXT_FRAME_MAGIC, GEC_CIPHERTEXT_FRAME_TAG] @ ciphertext) (st\<lparr>crd_head := head\<rparr>))))"

section \<open>The ground station: receiving\<close>

text \<open>
  \<open>gs_rx\<close> and \<open>gs_status\<close> are the buffer and the status of channel 0, which has no signing context; the keys are those of \<^verbatim>\<open>P1\<close>; the rest are the locals of
  \<^verbatim>\<open>receive\<close>.
\<close>

record ground_station =
  gs_rx :: mavlink_message_t
  gs_status :: mavlink_status_t
  gs_chan1 :: gec_sym_key
  gs_chan2 :: gec_sym_key
  gs_queue :: queue_t
  gs_pt :: bytes
  gs_msg :: mavlink_message_t
  gs_rstatus :: mavlink_status_t
  lost_packets :: int
  last_seq :: int
  all_packets :: int

definition gs_main :: "ground_station \<Rightarrow> ground_station" where
  "gs_main st =
     (case gec_key_material_to_2_channels (gs_chan1 st) (gs_chan2 st) key_material of (k1, k2) \<Rightarrow>
        st\<lparr>gs_chan1 := k1, gs_chan2 := k2, gs_queue := queue_init (gs_queue st), lost_packets := 0, last_seq := -1, all_packets := 0\<rparr>)"

definition gs_count :: "mavlink_message_t \<Rightarrow> ground_station \<Rightarrow> ground_station" where
  "gs_count msg st =
     (let seq = uint (m_seq msg);
          st = st\<lparr>all_packets := all_packets st + 1\<rparr>;
          st = (if last_seq st \<noteq> -1 \<and> seq \<noteq> (last_seq st + 1) mod 256
                then st\<lparr>lost_packets := lost_packets st + (seq - last_seq st - 1 + 256) mod 256\<rparr> else st)
      in if m_sysid msg = 1 then st\<lparr>last_seq := seq\<rparr> else st)"

text \<open>One byte of the queue; a reported message is the output, with the fields that are printed.\<close>

type_synonym report = "u8 \<times> u8 \<times> 24 word"

definition gs_handle :: "ground_station \<Rightarrow> report list \<times> ground_station" where
  "gs_handle st =
     (let (_, c, q) = dequeue (gs_queue st) 0;
          (result, rx, s, msg, rs) = parse_char_dialect common_message_crcs (gs_rx st) (gs_status st) c (gs_msg st) (gs_rstatus st);
          st = st\<lparr>gs_queue := q, gs_rx := rx, gs_status := s, gs_msg := msg, gs_rstatus := rs\<rparr>
      in if result \<noteq> FRAMING_INCOMPLETE then ([(m_seq msg, m_sysid msg, m_msgid msg)], gs_count msg st) else ([], st))"

lemma gs_count_queue: "gs_queue (gs_count msg st) = gs_queue st"
  by (simp add: gs_count_def Let_def)

lemma gs_handle_size: "q_size (gs_queue st) \<noteq> 0 \<Longrightarrow> q_size (gs_queue (snd (gs_handle st))) = q_size (gs_queue st) - 1"
  by (simp add: gs_handle_def dequeue_def queue_empty_def split_def Let_def gs_count_queue)

text \<open>\<^verbatim>\<open>while (!queue_empty(&queue))\<close>; the byte variable of its body is written by every \<^verbatim>\<open>dequeue\<close>.\<close>

function gs_drain :: "ground_station \<Rightarrow> report list \<times> ground_station" where
  "gs_drain st =
     (if queue_empty (gs_queue st) then ([], st)
      else let (outs, st) = gs_handle st; (rest, st) = gs_drain st in (outs @ rest, st))"
  by pat_completeness auto
termination
proof (relation "measure (\<lambda>st. unat (q_size (gs_queue st)))")
  fix st x outs st'
  assume "\<not> queue_empty (gs_queue st)" "x = gs_handle st" "(outs, st') = x"
  then have "q_size (gs_queue st) \<noteq> 0" "q_size (gs_queue st') = q_size (gs_queue st) - 1"
    using gs_handle_size[of st] by (auto simp: queue_empty_def) (metis snd_conv)
  moreover from this have "unat (q_size (gs_queue st)) \<noteq> 0" by (simp add: unat_eq_zero)
  ultimately show "(st', st) \<in> measure (\<lambda>st. unat (q_size (gs_queue st)))" by (simp add: unat_dec)
qed simp

declare gs_drain.simps [simp del]

definition gs_frame :: "bool \<times> bool \<times> bool \<Rightarrow> bytes \<Rightarrow> ground_station \<Rightarrow> report list \<times> ground_station" where
  "gs_frame al ct st =
     (let (ret, k, pt) = gec_decrypt al (gs_chan2 st) ct (gs_pt st);
          st = st\<lparr>gs_chan2 := k, gs_pt := pt\<rparr>;
          st = (if ret \<noteq> 0 then st else st\<lparr>gs_queue := enqueue_all enqueue (gs_queue st) (take GEC_PT_LEN pt)\<rparr>)
      in gs_drain st)"

text \<open>The search for magic and tag in the bytes the serial line delivers, and the loop of \<^verbatim>\<open>receive\<close> until it has to wait for more of them.\<close>

fun gs_sync :: "bytes \<Rightarrow> bytes option" where
  "gs_sync (c # d # cs) = (if c = 0x7e then if d = 0 then Some cs else gs_sync cs else gs_sync (d # cs))"
| "gs_sync _ = None"

lemma gs_sync_shorter: "gs_sync cs = Some rest \<Longrightarrow> length rest < length cs"
  by (induction cs rule: gs_sync.induct) (auto split: if_splits)

function gs_receive :: "bool \<times> bool \<times> bool \<Rightarrow> bytes \<Rightarrow> ground_station \<Rightarrow> report list \<times> ground_station" where
  "gs_receive al input st =
     (case gs_sync input of
        None \<Rightarrow> ([], st)
      | Some rest \<Rightarrow>
          if length rest < GEC_CT_LEN then ([], st)
          else let (outs, st) = gs_frame al (take GEC_CT_LEN rest) st; (more, st) = gs_receive al (drop GEC_CT_LEN rest) st in (outs @ more, st))"
  by pat_completeness auto
termination
  by (relation "measure (\<lambda>(al, input, st). length input)") (auto dest: gs_sync_shorter)

declare gs_receive.simps [simp del]

section \<open>The ground station: sending\<close>

record mavlink_heartbeat_t =
  hb_custom_mode :: u32
  hb_type :: u8
  hb_autopilot :: u8
  hb_base_mode :: u8
  hb_system_status :: u8
  hb_mavlink_version :: u8

text \<open>The bytes of the packet structure on a little-endian machine, and \<^verbatim>\<open>mavlink_finalize_message\<close> on channel 0, whose status is \<open>status\<close>.\<close>

definition heartbeat_packet :: "u8 \<Rightarrow> u8 \<Rightarrow> u8 \<Rightarrow> u32 \<Rightarrow> u8 \<Rightarrow> bytes" where
  "heartbeat_packet type autopilot base_mode custom_mode system_status =
     map (\<lambda>i. ucast (drop_bit (8 * i) custom_mode)) [0..<4] @ [type, autopilot, base_mode, system_status, 3]"

definition mavlink_msg_heartbeat_pack :: "u8 \<Rightarrow> u8 \<Rightarrow> mavlink_message_t \<Rightarrow> u8 \<Rightarrow> u8 \<Rightarrow> u8 \<Rightarrow> u32 \<Rightarrow> u8 \<Rightarrow> mavlink_status_t \<Rightarrow>
    u16 \<times> mavlink_message_t \<times> mavlink_status_t" where
  "mavlink_msg_heartbeat_pack system_id component_id msg type autopilot base_mode custom_mode system_status status =
     (let msg = msg\<lparr>m_payload := memcpy (m_payload msg) 0 (heartbeat_packet type autopilot base_mode custom_mode system_status), m_msgid := 0\<rparr>
      in case mavlink_finalize_message_buffer msg system_id component_id status None 9 9 50 of (n, msg, status, _) \<Rightarrow> (n, msg, status))"

definition mavlink_msg_heartbeat_encode :: "u8 \<Rightarrow> u8 \<Rightarrow> mavlink_message_t \<Rightarrow> mavlink_heartbeat_t \<Rightarrow> mavlink_status_t \<Rightarrow>
    u16 \<times> mavlink_message_t \<times> mavlink_status_t" where
  "mavlink_msg_heartbeat_encode system_id component_id msg hb status =
     mavlink_msg_heartbeat_pack system_id component_id msg (hb_type hb) (hb_autopilot hb) (hb_base_mode hb) (hb_custom_mode hb) (hb_system_status hb) status"

text \<open>
  The thread function \<^verbatim>\<open>send\<close>, which the program has but does not start: its locals are the message and the frame, whose first two bytes are set once; \<^verbatim>\<open>hb.autopilot\<close> and \<^verbatim>\<open>hb.base_mode\<close> are never set
  and come from \<open>hb0\<close>.  The frame is written whether or not the block could be encrypted.
\<close>

record send_locals =
  sl_msg :: mavlink_message_t
  sl_ct_frame :: bytes

definition gs_heartbeat :: "mavlink_heartbeat_t \<Rightarrow> mavlink_heartbeat_t" where
  "gs_heartbeat hb0 = hb0\<lparr>hb_custom_mode := 0, hb_type := 2, hb_system_status := 0, hb_mavlink_version := 3\<rparr>"

definition gs_send_init :: "send_locals \<Rightarrow> send_locals" where
  "gs_send_init l = l\<lparr>sl_ct_frame := (sl_ct_frame l)[0 := 0x7e, 1 := 0]\<rparr>"

definition gs_send_turn :: "bool \<times> bool \<times> bool \<Rightarrow> mavlink_heartbeat_t \<Rightarrow> send_locals \<Rightarrow> ground_station \<Rightarrow> bytes \<times> send_locals \<times> ground_station" where
  "gs_send_turn al hb l st =
     (let (_, msg, status) = mavlink_msg_heartbeat_encode 255 0 (sl_msg l) hb (gs_status st);
          (_, buf) = mavlink_msg_to_send_buffer (replicate GEC_PT_LEN 0) msg;
          (_, k, ct) = gec_encrypt al (gs_chan1 st) buf (drop 2 (sl_ct_frame l));
          ct_frame = memcpy (sl_ct_frame l) 2 ct
      in (ct_frame, l\<lparr>sl_msg := msg, sl_ct_frame := ct_frame\<rparr>, st\<lparr>gs_status := status, gs_chan1 := k\<rparr>))"

primrec gs_send :: "bool \<times> bool \<times> bool \<Rightarrow> mavlink_heartbeat_t \<Rightarrow> nat \<Rightarrow> send_locals \<Rightarrow> ground_station \<Rightarrow> bytes list \<times> send_locals \<times> ground_station" where
  "gs_send al hb 0 l st = ([], l, st)"
| "gs_send al hb (Suc n) l st =
     (let (f, l, st) = gs_send_turn al hb l st; (fs, l, st) = gs_send al hb n l st in (f # fs, l, st))"

end
