(* ===== verification/Mavlink_Dialect.thy ===== *)
theory Mavlink_Dialect
  imports Mavlink_Common Relay_Messages
begin

text \<open>
  Whole frames through a parser with another message table: a frame whose entry is the same in both tables is reported as by the parser of the relay.
\<close>

section \<open>Runs that do not depend on the table\<close>

primrec steps_same :: "mavlink_msg_entry_t list \<Rightarrow> mavlink_message_t \<times> mavlink_status_t \<Rightarrow> bytes \<Rightarrow> bool" where
  "steps_same tab p [] \<longleftrightarrow> True"
| "steps_same tab p (c # cs) \<longleftrightarrow>
     (s_parse_state (snd p) \<noteq> PARSE_STATE_GOT_PAYLOAD \<or> same_entry tab (m_msgid (fst p))) \<and> steps_same tab (snd (mav_core p c)) cs"

lemma steps_same_append:
  "steps_same tab p (xs @ ys) \<longleftrightarrow> steps_same tab p xs \<and> steps_same tab (snd (core_run p xs)) ys"
  by (induction xs arbitrary: p) (simp_all add: Let_def split_def)

lemma steps_same_step:
  assumes "\<exists>st'. mav_core (rx, st) c = (f, rx1, st') \<and> P st'" "s_parse_state st \<noteq> PARSE_STATE_GOT_PAYLOAD"
    and "\<And>st'. P st' \<Longrightarrow> steps_same tab (rx1, st') cs"
  shows "steps_same tab (rx, st) (c # cs)"
  using assms by auto

lemma header_steps_same:
  assumes idle: "s_parse_state st = PARSE_STATE_IDLE \<or> s_parse_state st = PARSE_STATE_UNINIT" and inc: "inc AND NOT 1 = 0"
  shows "steps_same tab (rx, st) [MAVLINK_STX, len, inc, com, seq, sysid, compid, i0, i1, i2]"
  apply (rule steps_same_step[OF core_stx[OF idle]], use idle in force, elim conjE)
  apply (rule steps_same_step[OF core_len], assumption, assumption, simp)
  apply (rule steps_same_step[OF core_incompat[OF _ inc]], assumption, simp add: mav_at_def)
  apply (rule steps_same_step[OF core_header(1)], assumption, simp add: mav_at_def)
  apply (rule steps_same_step[OF core_header(2)], assumption, simp add: mav_at_def)
  apply (rule steps_same_step[OF core_header(3)], assumption, simp add: mav_at_def)
  apply (rule steps_same_step[OF core_header(4)], assumption, simp add: mav_at_def)
  apply (rule steps_same_step[OF core_header(5)], assumption, simp add: mav_at_def)
  apply (rule steps_same_step[OF core_header(6)], assumption, simp add: mav_at_def)
  apply (simp add: mav_at_def)
  done

lemma payload_steps_same:
  assumes "cs \<noteq> [] \<Longrightarrow> s_parse_state st = PARSE_STATE_GOT_MSGID3" "unat (s_packet_idx st) + length cs \<le> unat (m_len rx)"
  shows "steps_same tab (rx, st) cs"
  using assms
proof (induction cs arbitrary: rx st)
  case (Cons c cs)
  have "unat (s_packet_idx st) < 255" using Cons.prems(2) u8_le_255[of "m_len rx"] by simp
  then have i1: "unat (s_packet_idx st + 1) = Suc (unat (s_packet_idx st))" by (simp add: unat_inc)
  obtain rx1 st1 where s: "mav_core (rx, st) c = (FRAMING_INCOMPLETE, rx1, st1)" "m_len rx1 = m_len rx" "s_packet_idx st1 = s_packet_idx st + 1"
    "s_packet_idx st + 1 \<noteq> m_len rx \<Longrightarrow> s_parse_state st1 = PARSE_STATE_GOT_MSGID3"
    using Cons.prems(1) by (simp add: mav_core_def Let_def frame_count_def)
  have "s_packet_idx st + 1 \<noteq> m_len rx" if "cs \<noteq> []"
  proof
    assume "s_packet_idx st + 1 = m_len rx"
    then have "unat (m_len rx) = Suc (unat (s_packet_idx st))" using i1 by simp
    then show False using Cons.prems(2) that by (cases cs) auto
  qed
  then have "steps_same tab (rx1, st1) cs" using Cons.IH[of st1 rx1] Cons.prems(2) s i1 by auto
  then show ?case using Cons.prems(1) s(1) by simp
qed simp

lemma signature_steps_same:
  assumes "s_parse_state st = PARSE_STATE_SIGNATURE_WAIT" "length cs \<le> unat (s_signature_wait st)"
  shows "steps_same tab (rx, st) cs"
  using assms
proof (induction cs arbitrary: rx st)
  case (Cons c cs)
  let ?w = "s_signature_wait st"
  have w: "unat (?w - 1) = unat ?w - 1" using Cons.prems(2) by (intro unat_dec) auto
  obtain f rx1 st1 where s: "mav_core (rx, st) c = (f, rx1, st1)" by (metis prod_cases3)
  then have s1: "s_signature_wait st1 = ?w - 1" "?w - 1 \<noteq> 0 \<Longrightarrow> s_parse_state st1 = PARSE_STATE_SIGNATURE_WAIT"
    using Cons.prems(1) by (auto simp: mav_core_def Let_def frame_count_def split: if_splits)
  have "steps_same tab (rx1, st1) cs"
  proof (cases cs)
    case *: (Cons d ds)
    then have "unat (?w - 1) \<noteq> 0" using Cons.prems(2) w by simp
    then have "?w - 1 \<noteq> 0" by auto
    then show ?thesis using Cons.IH s1 w Cons.prems(2) by simp
  qed simp
  then show ?case using Cons.prems(1) s by simp
qed simp

lemma frame_steps_same:
  assumes idle: "s_parse_state st = PARSE_STATE_IDLE \<or> s_parse_state st = PARSE_STATE_UNINIT"
    and "message_sizes rx" "wf_frame m"
  shows "steps_same tab (rx, st) (header_mavlink2 m (unat (m_len m)) @ take (unat (m_len m)) (m_payload m))"
    "same_entry tab (m_msgid m) \<Longrightarrow> steps_same tab (rx, st) (send_bytes m)"
proof -
  let ?n = "unat (m_len m)" and ?h = "header_mavlink2 m (unat (m_len m))"
  have m: "m_magic m = MAVLINK_STX" "m_incompat_flags m AND NOT 1 = 0" "length (m_payload m) = 264" "length (m_signature m) = 13"
    using assms(3) by (simp_all add: wf_frame_def)
  obtain rx1 st1 where h: "core_run (rx, st) ?h = (replicate 10 FRAMING_INCOMPLETE, rx1, st1)" "same_header rx1 m"
    "mav_at st1 (if 0 < m_len m then PARSE_STATE_GOT_MSGID3 else PARSE_STATE_GOT_PAYLOAD)"
    using header_received[OF idle m(1,2), of rx] by blast
  have "steps_same tab (rx, st) ?h" unfolding header_mavlink2_def m(1) by (rule header_steps_same[OF idle m(2)])
  moreover have "steps_same tab (rx1, st1) (take ?n (m_payload m))"
    using h(2,3) m(3) u8_le_255[of "m_len m"] by (intro payload_steps_same) (auto simp: mav_at_def same_header_def word_neq_0_conv[symmetric])
  ultimately show b: "steps_same tab (rx, st) (?h @ take ?n (m_payload m))" by (simp add: steps_same_append h(1))
  assume e: "same_entry tab (m_msgid m)"
  obtain rx2 st2 where r: "core_run (rx, st) (?h @ take ?n (m_payload m)) = (replicate (10 + ?n) FRAMING_INCOMPLETE, rx2, st2)"
    "same_header rx2 m" "s_parse_state st2 = PARSE_STATE_GOT_PAYLOAD"
    using body_received[OF assms] by blast
  obtain rx3 st3 where f: "core_run (rx, st) (frame_bytes m) = (replicate (11 + ?n) FRAMING_INCOMPLETE @
       [if m_incompat_flags m AND 1 \<noteq> 0 then FRAMING_INCOMPLETE else FRAMING_OK], rx3, st3)"
    "m_incompat_flags m AND 1 \<noteq> 0 \<Longrightarrow> s_parse_state st3 = PARSE_STATE_SIGNATURE_WAIT \<and> s_signature_wait st3 = 13"
    using frame_bytes_received[OF assms] by (auto split: if_splits)
  have "s_parse_state (snd (snd (mav_core (rx2, st2) c))) \<noteq> PARSE_STATE_GOT_PAYLOAD" for c
    using r(3) by (auto simp: mav_core_def Let_def frame_count_def split: option.splits)
  then have ck: "steps_same tab (rx2, st2) [a, b]" for a b using e r(2) by (simp add: same_header_def)
  have "frame_bytes m = (?h @ take ?n (m_payload m)) @ [ucast (m_checksum m AND 0xFF), ucast (drop_bit 8 (m_checksum m))]" by (simp add: frame_bytes_def)
  then have fb: "steps_same tab (rx, st) (frame_bytes m)" using b ck by (simp add: steps_same_append[of _ _ "?h @ _"] r(1) del: append_assoc)
  have "steps_same tab (rx3, st3) (if m_incompat_flags m AND 1 \<noteq> 0 then m_signature m else [])"
    using f(2) m(4) by (auto intro!: signature_steps_same)
  then show "steps_same tab (rx, st) (send_bytes m)" using fb by (simp add: send_bytes_frame[OF assms(3)] steps_same_append f(1))
qed

section \<open>Frames through the parser of the dialect\<close>

type_synonym dialect_parser = "mavlink_message_t \<times> mavlink_status_t \<times> mavlink_message_t \<times> mavlink_status_t"

primrec dialect_run :: "mavlink_msg_entry_t list \<Rightarrow> dialect_parser \<Rightarrow> bytes \<Rightarrow> mavlink_framing_t list \<times> dialect_parser" where
  "dialect_run tab p [] = ([], p)"
| "dialect_run tab p (c # cs) =
     (case p of (rx, st, r, rs) \<Rightarrow> let (f, p') = parse_char_dialect tab rx st c r rs; (fs, p'') = dialect_run tab p' cs in (f # fs, p''))"

lemma dialect_run_append:
  "dialect_run tab p (xs @ ys) = (let (fs, p') = dialect_run tab p xs; (gs, p'') = dialect_run tab p' ys in (fs @ gs, p''))"
  by (induction xs arbitrary: p) (auto simp: Let_def split: prod.splits)

lemma length_dialect_run: "length (fst (dialect_run tab p cs)) = length cs"
  by (induction cs arbitrary: p) (simp_all add: Let_def split_def)

lemma parse_char_same:
  assumes "mav_core (rx, st) c = (f, rx', st')" "f = FRAMING_INCOMPLETE \<or> f = FRAMING_OK"
    and "s_parse_state st \<noteq> PARSE_STATE_GOT_PAYLOAD \<or> same_entry tab (m_msgid rx)"
  shows "\<exists>r' rs'. parse_char_dialect tab rx st c r rs = (f, rx', st', r', rs') \<and> (f = FRAMING_OK \<longrightarrow> r' = rx')"
proof -
  obtain f1 rx1 st1 r' rs' where p: "mavlink_frame_char_buffer rx st c r rs = (f1, rx1, st1, r', rs')" by (metis surj_pair)
  have e: "f1 = f" "rx1 = rx'" "st1 = st'" using frame_char_core[OF p] assms(1) by simp_all
  have "f = FRAMING_OK \<longrightarrow> r' = rx'" using frame_ok_message p e by metis
  then show ?thesis using frame_char_same_entry[OF assms(3), of c r rs] p e assms(2) by (auto simp: parse_char_dialect_def)
qed

lemma dialect_run_silent:
  assumes "core_run (rx, st) cs = (replicate (length cs) FRAMING_INCOMPLETE, rx', st')" "steps_same tab (rx, st) cs"
  shows "\<exists>r' rs'. dialect_run tab (rx, st, r, rs) cs = (replicate (length cs) FRAMING_INCOMPLETE, rx', st', r', rs')"
  using assms
proof (induction cs arbitrary: rx st r rs)
  case (Cons c cs)
  obtain f rx1 st1 where s: "mav_core (rx, st) c = (f, rx1, st1)" by (metis prod_cases3)
  have f: "f = FRAMING_INCOMPLETE" "core_run (rx1, st1) cs = (replicate (length cs) FRAMING_INCOMPLETE, rx', st')" "steps_same tab (rx1, st1) cs"
    using Cons.prems s by (auto simp: Let_def split: prod.splits)
  obtain r1 rs1 where "parse_char_dialect tab rx st c r rs = (f, rx1, st1, r1, rs1)" using parse_char_same[OF s] f(1) Cons.prems(2) by fastforce
  then show ?case using Cons.IH[OF f(2,3), of r1 rs1] f(1) by auto
qed simp

lemma header_mavlink2_nth:
  "header_mavlink2 m n ! 4 = m_seq m" "header_mavlink2 m n ! 5 = m_sysid m" "header_mavlink2 m n ! 6 = m_compid m"
  "header_mavlink2 m n ! 7 = ucast (m_msgid m AND 0xFF)" "header_mavlink2 m n ! 8 = ucast (drop_bit 8 (m_msgid m) AND 0xFF)"
  "header_mavlink2 m n ! 9 = ucast (drop_bit 16 (m_msgid m) AND 0xFF)" "length (header_mavlink2 m n) = 10"
  by (simp_all add: header_mavlink2_def)

lemma send_bytes_header:
  assumes "send_bytes a = send_bytes b" "m_magic b = MAVLINK_STX"
  shows "m_seq a = m_seq b" "m_sysid a = m_sysid b" "m_compid a = m_compid b" "m_msgid a = m_msgid b"
proof -
  have "m_magic a = MAVLINK_STX"
    using arg_cong[OF assms(1), of hd] assms(2) by (auto simp: send_bytes_def header_mavlink1_def header_mavlink2_def Let_def split: if_splits)
  then obtain n n' where h: "header_mavlink2 a n = header_mavlink2 b n'"
    using arg_cong[OF assms(1), of "take 10"] assms(2) by (simp add: send_bytes_def Let_def header_mavlink2_nth(7))
  show "m_seq a = m_seq b" "m_sysid a = m_sysid b" "m_compid a = m_compid b" using h by (metis header_mavlink2_nth)+
  show "m_msgid a = m_msgid b" using msgid_reassembled[of "m_msgid a"] msgid_reassembled[of "m_msgid b"] header_mavlink2_nth(4-6)[of a n] header_mavlink2_nth(4-6)[of b n']
    unfolding h by simp
qed

lemma dialect_message:
  assumes "idle rx st" "wf_frame m" "same_entry tab (m_msgid m)"
  shows "\<exists>pre c rx1 st1 r1 rs1 rx' st' rs'. send_bytes m = pre @ [c] \<and>
    dialect_run tab (rx, st, r, rs) pre = (replicate (length pre) FRAMING_INCOMPLETE, rx1, st1, r1, rs1) \<and>
    parse_char_dialect tab rx1 st1 c r1 rs1 = (FRAMING_OK, rx', st', rx', rs') \<and> idle rx' st' \<and> send_bytes rx' = send_bytes m"
proof -
  obtain pre c rx1 st1 rx' st' where m: "send_bytes m = pre @ [c]" "core_run (rx, st) pre = (replicate (length pre) FRAMING_INCOMPLETE, rx1, st1)"
    "mav_core (rx1, st1) c = (FRAMING_OK, rx', st')" "idle rx' st'" "send_bytes rx' = send_bytes m" using core_message[OF assms(1,2)] by blast
  have "steps_same tab (rx, st) (pre @ [c])" using frame_steps_same(2)[OF _ _ assms(2,3), of st rx] assms(1) m(1) by (simp add: idle_def parser_inv_def)
  then have s: "steps_same tab (rx, st) pre" "s_parse_state st1 \<noteq> PARSE_STATE_GOT_PAYLOAD \<or> same_entry tab (m_msgid rx1)"
    by (simp_all add: steps_same_append m(2))
  obtain r1 rs1 where d: "dialect_run tab (rx, st, r, rs) pre = (replicate (length pre) FRAMING_INCOMPLETE, rx1, st1, r1, rs1)"
    using dialect_run_silent[OF m(2) s(1)] by blast
  obtain rs' where "parse_char_dialect tab rx1 st1 c r1 rs1 = (FRAMING_OK, rx', st', rx', rs')" using parse_char_same[OF m(3) _ s(2), of r1 rs1] by auto
  then show ?thesis using m d by blast
qed

section \<open>Frames of messages the dialect does not have\<close>

text \<open>A step of the shift register loses nothing, so two bytes leave different checksums behind.\<close>

lemma crc_shift_inj: "crc_shift a = crc_shift b \<Longrightarrow> a = b"
proof -
  assume e: "crc_shift a = crc_shift b"
  have top: "bit (crc_shift c) 15 = bit c 0" for c
    by (auto simp: crc_shift_def bit_xor_iff bit_drop_bit_eq dest: bit_imp_le_length)
  then have "bit a 0 = bit b 0" using e by metis
  moreover have "x = y" if "x XOR z = y XOR z" for x y z :: u16 using that by (metis xor.assoc xor_self_eq xor.right_neutral)
  ultimately have d: "drop_bit 1 a = drop_bit 1 b" using e by (simp add: crc_shift_def split: if_splits)
  have "bit a 0 = bit b 0" using top e by metis
  show "a = b"
  proof (rule bit_word_eqI)
    fix n assume "n < LENGTH(16)"
    show "bit a n = bit b n" using \<open>bit a 0 = bit b 0\<close> arg_cong[OF d, of "\<lambda>w. bit w (n - 1)"] by (cases n) (simp_all add: bit_drop_bit_eq)
  qed
qed

lemma crc_accumulate_byte_inj: "crc_accumulate x crc = crc_accumulate y crc \<Longrightarrow> x = y"
proof -
  assume "crc_accumulate x crc = crc_accumulate y crc"
  then have "(crc_shift ^^ 8) (crc XOR ucast x) = (crc_shift ^^ 8) (crc XOR ucast y)" by (simp add: crc_accumulate_eq_ref crc16_mcrf4xx_def)
  moreover have "inj (crc_shift ^^ k)" for k by (induction k) (auto intro!: injI dest!: crc_shift_inj simp: inj_eq)
  ultimately have e: "crc XOR ucast x = crc XOR ucast y" by (simp add: inj_eq)
  have "bit x n = bit y n" if "n < 8" for n
    using arg_cong[OF e, of "\<lambda>w. bit w n"] that by (auto simp: bit_xor_iff bit_ucast_iff)
  then show "x = y" by (intro bit_word_eqI) simp
qed

lemma parse_char_bad:
  assumes "frame_switch_dialect tab (s_parse_state st) c rx (st\<lparr>s_msg_received := FRAMING_INCOMPLETE\<rparr>) r = (rx', st', r')"
    and "s_msg_received st' = FRAMING_BAD_CRC" "c \<noteq> MAVLINK_STX"
  shows "\<exists>st4 r4 rs4. parse_char_dialect tab rx st c r rs = (FRAMING_INCOMPLETE, rx', st4, r4, rs4) \<and> s_parse_state st4 = PARSE_STATE_IDLE"
  using assms by (simp add: parse_char_dialect_def frame_char_dialect_def frame_after_def Let_def)

text \<open>The two checksum bytes of a frame whose message has no entry, when they are not the checksum without an extra byte.\<close>

lemma refused_checksum:
  fixes ck :: u16
  assumes "s_parse_state st = PARSE_STATE_GOT_PAYLOAD" "message_sizes rx" "m_incompat_flags rx AND 1 = 0"
    and "get_msg_entry tab (ucast (m_msgid rx)) = None" "ck \<noteq> crc_accumulate 0 (m_checksum rx)" "drop_bit 8 ck \<noteq> 253"
  shows "\<exists>rx' st' r' rs'. dialect_run tab (rx, st, r, rs) [ucast (ck AND 0xFF), ucast (drop_bit 8 ck)] =
      ([FRAMING_INCOMPLETE, FRAMING_INCOMPLETE], rx', st', r', rs') \<and> idle rx' st'"
proof -
  let ?k0 = "ucast (ck AND 0xFF) :: u8" and ?k1 = "ucast (drop_bit 8 ck) :: u8"
  define own where "own = crc_accumulate 0 (m_checksum rx)"
  define rx3 where "rx3 = rx\<lparr>m_checksum := own, m_ck := (m_ck rx)[0 := ?k0]\<rparr>"
  obtain st3 r3 rs3 where s3: "parse_char_dialect tab rx st ?k0 r rs = (FRAMING_INCOMPLETE, rx3, st3, r3, rs3)"
    "s_parse_state st3 = (if ck AND 0xFF \<noteq> own AND 0xFF then PARSE_STATE_GOT_BAD_CRC1 else PARSE_STATE_GOT_CRC1)"
    using assms(1,4) checksum_bytes(1)[of ck]
    by (simp add: parse_char_dialect_def frame_char_dialect_def frame_switch_dialect_def frame_payload_def frame_after_def Let_def frame_count_def
        mavlink_update_checksum_def rx3_def own_def)
  have bad: "s_parse_state st3 = PARSE_STATE_GOT_BAD_CRC1 \<or> (s_parse_state st3 = PARSE_STATE_GOT_CRC1 \<and> ucast ?k1 \<noteq> drop_bit 8 own)"
  proof (rule ccontr)
    assume "\<not> ?thesis"
    then have "ck AND 0xFF = own AND 0xFF" "drop_bit 8 ck = drop_bit 8 own" using s3(2) checksum_bytes(2)[of ck] by (auto split: if_splits)
    then have "ck = own" unfolding u16_and_ff by (metis bits_ident)
    then show False using assms(5) by (simp add: own_def)
  qed
  have stx: "?k1 \<noteq> MAVLINK_STX"
  proof
    assume "?k1 = MAVLINK_STX"
    then have "drop_bit 8 ck = ucast MAVLINK_STX" using checksum_bytes(2)[of ck] by simp
    then show False using assms(6) by simp
  qed
  have sw: "frame_switch (s_parse_state st3) c rx3 (st3\<lparr>s_msg_received := FRAMING_INCOMPLETE\<rparr>) r3 =
      (rx3\<lparr>m_ck := (m_ck rx3)[1 := c]\<rparr>, st3\<lparr>s_msg_received := FRAMING_BAD_CRC, s_parse_state := PARSE_STATE_IDLE\<rparr>, rx3\<lparr>m_ck := (m_ck rx3)[1 := c]\<rparr>)"
    if "c = ?k1" for c
    using bad assms(3) that by (elim disjE) (simp_all add: frame_crc2_def Let_def rx3_def)
  have s3p: "s_parse_state st3 \<noteq> PARSE_STATE_GOT_PAYLOAD" using bad by auto
  obtain st4 r4 rs4 where s4: "parse_char_dialect tab rx3 st3 ?k1 r3 rs3 = (FRAMING_INCOMPLETE, rx3\<lparr>m_ck := (m_ck rx3)[1 := ?k1]\<rparr>, st4, r4, rs4)"
    "s_parse_state st4 = PARSE_STATE_IDLE"
    using parse_char_bad[OF trans[OF frame_switch_same_entry[OF disjI1[OF s3p]] sw[OF refl]] _ stx, of tab rs3] by force
  have "message_sizes (rx3\<lparr>m_ck := (m_ck rx3)[1 := ?k1]\<rparr>)" using assms(2) by (simp add: rx3_def)
  then show ?thesis using s3(1) s4 by (auto simp: idle_def parser_inv_def)
qed

lemma dialect_refused:
  assumes "idle rx st" "wf_frame m" "m_incompat_flags m AND 1 = 0"
    and "get_msg_entry tab (ucast (m_msgid m)) = None" "mav_extra m \<noteq> 0" "drop_bit 8 (m_checksum m) \<noteq> 253"
  shows "\<exists>rx' st' r' rs'. dialect_run tab (rx, st, r, rs) (send_bytes m) =
      (replicate (length (send_bytes m)) FRAMING_INCOMPLETE, rx', st', r', rs') \<and> idle rx' st'"
proof -
  let ?n = "unat (m_len m)"
  let ?b = "header_mavlink2 m ?n @ take ?n (m_payload m)"
  let ?k = "[ucast (m_checksum m AND 0xFF), ucast (drop_bit 8 (m_checksum m))] :: bytes"
  have i: "s_parse_state st = PARSE_STATE_IDLE \<or> s_parse_state st = PARSE_STATE_UNINIT" "message_sizes rx"
    using assms(1) by (simp_all add: idle_def parser_inv_def)
  obtain rx2 st2 where b: "core_run (rx, st) ?b = (replicate (10 + ?n) FRAMING_INCOMPLETE, rx2, st2)" "same_header rx2 m"
    "length (m_payload rx2) = 264" "m_signature rx2 = m_signature rx" "m_checksum rx2 = crc_calculate (mav_body m)"
    "s_parse_state st2 = PARSE_STATE_GOT_PAYLOAD" "m_ck rx2 = m_ck rx"
    using body_received[OF i assms(2)] by blast
  have len: "length ?b = 10 + ?n" using assms(2) u8_le_255[of "m_len m"] by (simp add: header_mavlink2_nth wf_frame_def)
  obtain r2 rs2 where d: "dialect_run tab (rx, st, r, rs) ?b = (replicate (10 + ?n) FRAMING_INCOMPLETE, rx2, st2, r2, rs2)"
    using dialect_run_silent[OF b(1)[folded len] frame_steps_same(1)[OF i assms(2)], of tab r rs] unfolding len by blast
  have "m_checksum m = crc_accumulate (mav_extra m) (m_checksum rx2)"
    using assms(2) b(5) by (simp add: wf_frame_def mav_checksum_def crc_calculate_def crc_accumulate_buffer_append)
  then have ne: "m_checksum m \<noteq> crc_accumulate 0 (m_checksum rx2)" using crc_accumulate_byte_inj assms(5) by metis
  have sz: "message_sizes rx2" using i(2) b(3,4,7) unfolding message_sizes_def by (simp del: message_sizes_length)
  obtain rx' st' r' rs' where k: "dialect_run tab (rx2, st2, r2, rs2) ?k = ([FRAMING_INCOMPLETE, FRAMING_INCOMPLETE], rx', st', r', rs')" "idle rx' st'"
    using refused_checksum[OF b(6) sz _ _ ne assms(6), of tab r2 rs2] assms(3,4) b(2) by (auto simp: same_header_def)
  have sb: "send_bytes m = ?b @ ?k" using send_bytes_frame[OF assms(2)] assms(3) by (simp add: frame_bytes_def)
  have rep: "replicate k FRAMING_INCOMPLETE @ [FRAMING_INCOMPLETE, FRAMING_INCOMPLETE] = replicate (k + 2) FRAMING_INCOMPLETE" for k
    by (induction k) simp_all
  have lb: "length (send_bytes m) = 10 + ?n + 2" unfolding sb using len by simp
  have "dialect_run tab (rx, st, r, rs) (send_bytes m) = (replicate (length (send_bytes m)) FRAMING_INCOMPLETE, rx', st', r', rs')"
    using dialect_run_append[of tab "(rx, st, r, rs)" ?b ?k] unfolding d Let_def prod.case k(1) lb rep[symmetric] unfolding sb by simp
  then show ?thesis using k(2) by blast
qed

end
