(* ===== verification/Ground_Link.thy ===== *)
theory Ground_Link
  imports Ground_Station Mavlink_Dialect
begin

text \<open>
  The static-key link as a whole.  \<^verbatim>\<open>Encrypt\<close> of \<^verbatim>\<open>apps/comm-crypto-relay\<close> is the one of \<^verbatim>\<open>apps/key-exchange\<close> written without the queue macros; the ground
  station is a transformer of streams, and messages pass the link in both directions.
\<close>

section \<open>The two versions of Encrypt\<close>

lemma cr_take_block_size:
  "cr_take_block n (q\<lparr>q_size := s\<rparr>) = (fst (cr_take_block n q), snd (cr_take_block n q)\<lparr>q_size := s\<rparr>)"
proof (induction n arbitrary: q)
  case (Suc n)
  have comm: "q\<lparr>q_size := s, q_head := h\<rparr> = (q\<lparr>q_head := h\<rparr>)\<lparr>q_size := s\<rparr>" for h by simp
  have "cr_take_block n (q\<lparr>q_size := s, q_head := h\<rparr>) = (fst (cr_take_block n (q\<lparr>q_head := h\<rparr>)), snd (cr_take_block n (q\<lparr>q_head := h\<rparr>))\<lparr>q_size := s\<rparr>)" for h
    unfolding comm by (rule Suc.IH)
  then show ?case by (simp add: Let_def split_def)
qed simp

lemma cr_take_block_keeps: "q_size (snd (cr_take_block n q)) = q_size q"
  by (induction n arbitrary: q) (simp_all add: Let_def split_def)

lemma cr_take_block_dequeue:
  "n \<le> unat (q_size q) \<Longrightarrow>
    dequeue_n dequeue n c q = (fst (cr_take_block n q), snd (cr_take_block n q)\<lparr>q_size := q_size q - word_of_nat n\<rparr>)"
proof (induction n arbitrary: q c)
  case (Suc n)
  let ?q = "q\<lparr>q_head := (q_head q + 1) mod 4096\<rparr>"
  have nz: "q_size q \<noteq> 0" using Suc.prems by auto
  then have d: "dequeue q c = (0, raw_queue q ! unat (q_head q), ?q\<lparr>q_size := q_size q - 1\<rparr>)" by (simp add: dequeue_def queue_empty_def)
  have "n \<le> unat (q_size (?q\<lparr>q_size := q_size q - 1\<rparr>))" using Suc.prems nz by (simp add: unat_dec)
  from Suc.IH[OF this, of "raw_queue q ! unat (q_head q)"] show ?case using d
    by (simp add: Let_def split_def cr_take_block_size algebra_simps)
qed simp

lemma cr_encrypt_blocks_eq:
  "64 * n \<le> unat (q_size q) \<Longrightarrow> cr_encrypt_blocks al n buf ct q k = encrypt_blocks al n buf ct q k"
proof (induction n arbitrary: buf ct q k)
  case (Suc n)
  obtain block q1 where b: "cr_take_block 64 q = (block, q1)" by (cases "cr_take_block 64 q")
  have d: "dequeue_n dequeue 64 0 q = (block, q1\<lparr>q_size := q_size q - 64\<rparr>)" using cr_take_block_dequeue[of 64 q 0] Suc.prems b by simp
  have s: "q_size q1 = q_size q" using cr_take_block_keeps[of 64 q] b by simp
  have "64 \<le> q_size q" using Suc.prems by (simp add: word_le_nat_alt)
  then have "64 * n \<le> unat (q_size (q1\<lparr>q_size := q_size q - 64\<rparr>))" using Suc.prems by (simp add: unat_sub)
  from Suc.IH[OF this] show ?case by (simp add: b d s split_def)
qed simp

definition cr_abs :: "cr_encrypt_st \<Rightarrow> encrypt_st" where
  "cr_abs st = \<lparr>e_rx = cr_rx st, e_status = cr_status st, symkey_chan2 = cr_symkey_chan2 st, e_key_ready = True, e_queue = cr_queue st\<rparr>"

lemma cr_encrypt_to_frame_eq:
  "encrypt_to_frame al msg (cr_abs st) = (case cr_encrypt_to_frame al msg st of (frames, st') \<Rightarrow> (frames, cr_abs st'))"
proof -
  obtain len buf where sb: "mavlink_msg_to_send_buffer (replicate 280 0) msg = (len, buf)" by (metis surj_pair)
  define q where "q = enqueue_all enqueue (cr_queue st) (take (unat len) buf)"
  have "64 * unat (q_size q div 64) \<le> unat (q_size q)" by (simp add: unat_div)
  then show ?thesis
    by (simp add: encrypt_to_frame_def cr_encrypt_to_frame_def sb cr_encrypt_blocks_eq cr_abs_def split_def Let_def flip: q_def)
qed

lemma cr_encrypt_run_eq:
  "encrypt_run al cs (cr_abs st) = (case cr_encrypt_run al cs st of (frames, st') \<Rightarrow> (frames, cr_abs st'))"
proof (induction cs arbitrary: st)
  case (Cons uc cs)
  have "encrypt_handle_char al u c (cr_abs st) = (case cr_handle_char al u c st of (frames, st') \<Rightarrow> (frames, cr_abs st'))" for u c
  proof -
    obtain f rx s r rs where p: "my_mavlink_parse_char c (cr_rx st) (cr_status st) (fst u) (snd u) = (f, rx, s, r, rs)" by (metis surj_pair)
    have "(cr_abs st)\<lparr>e_rx := rx, e_status := s\<rparr> = cr_abs (st\<lparr>cr_rx := rx, cr_status := s\<rparr>)" by (simp add: cr_abs_def)
    moreover have "e_rx (cr_abs st) = cr_rx st" "e_status (cr_abs st) = cr_status st" by (simp_all add: cr_abs_def)
    ultimately show ?thesis using p cr_encrypt_to_frame_eq[of al r "st\<lparr>cr_rx := rx, cr_status := s\<rparr>"]
      by (simp add: encrypt_handle_char_def cr_handle_char_def Let_def)
  qed
  moreover have "e_key_ready (cr_abs st)" by (simp add: cr_abs_def)
  ultimately show ?case using Cons.IH by (simp add: split_def Let_def)
qed simp

section \<open>The station as a stream transformer\<close>

definition gs_char :: "u8 \<Rightarrow> ground_station \<Rightarrow> report list \<times> ground_station" where
  "gs_char c st =
     (let (result, rx, s, msg, rs) = parse_char_dialect common_message_crcs (gs_rx st) (gs_status st) c (gs_msg st) (gs_rstatus st);
          st = st\<lparr>gs_rx := rx, gs_status := s, gs_msg := msg, gs_rstatus := rs\<rparr>
      in if result \<noteq> FRAMING_INCOMPLETE then ([(m_seq msg, m_sysid msg, m_msgid msg)], gs_count msg st) else ([], st))"

primrec gs_feed :: "bytes \<Rightarrow> ground_station \<Rightarrow> report list \<times> ground_station" where
  "gs_feed [] st = ([], st)"
| "gs_feed (c # cs) st = (let (outs, st) = gs_char c st; (rest, st) = gs_feed cs st in (outs @ rest, st))"

lemma gs_feed_append: "gs_feed (xs @ ys) st = (let (a, st) = gs_feed xs st; (b, st) = gs_feed ys st in (a @ b, st))"
  by (induction xs arbitrary: st) (simp_all add: Let_def split_def)

text \<open>Key, plaintext array and queue take no part in parsing.\<close>

definition gs_upd :: "gec_sym_key \<Rightarrow> bytes \<Rightarrow> queue_t \<Rightarrow> ground_station \<Rightarrow> ground_station" where
  "gs_upd k pt q st = st\<lparr>gs_chan2 := k, gs_pt := pt, gs_queue := q\<rparr>"

lemma gs_upd_simps [simp]:
  "gs_chan2 (gs_upd k pt q st) = k" "gs_pt (gs_upd k pt q st) = pt" "gs_queue (gs_upd k pt q st) = q"
  "gs_rx (gs_upd k pt q st) = gs_rx st" "gs_status (gs_upd k pt q st) = gs_status st" "gs_msg (gs_upd k pt q st) = gs_msg st"
  "gs_rstatus (gs_upd k pt q st) = gs_rstatus st" "gs_upd k' pt' q' (gs_upd k pt q st) = gs_upd k' pt' q' st"
  "all_packets (gs_upd k pt q st) = all_packets st" "lost_packets (gs_upd k pt q st) = lost_packets st" "last_seq (gs_upd k pt q st) = last_seq st"
  by (simp_all add: gs_upd_def)

lemma gs_char_upd: "gs_char c (gs_upd k pt q st) = (fst (gs_char c st), gs_upd k pt q (snd (gs_char c st)))"
  by (simp add: gs_char_def gs_upd_def gs_count_def split_def Let_def)

lemma gs_feed_upd: "gs_feed cs (gs_upd k pt q st) = (fst (gs_feed cs st), gs_upd k pt q (snd (gs_feed cs st)))"
  by (induction cs arbitrary: st) (simp_all add: gs_char_upd Let_def split_def)

lemma gs_drain_val:
  assumes "queue_inv (gs_queue st)" "queue_contents (gs_queue st) = xs"
  shows "\<exists>q. gs_drain st = (fst (gs_feed xs st), gs_upd (gs_chan2 st) (gs_pt st) q (snd (gs_feed xs st))) \<and> queue_inv q \<and> queue_contents q = []"
  using assms
proof (induction xs arbitrary: st)
  case Nil
  then have "queue_empty (gs_queue st)" by (simp add: queue_empty_def queue_contents_def unat_eq_zero)
  then show ?case using Nil by (intro exI[of _ "gs_queue st"]) (simp add: gs_drain.simps gs_upd_def)
next
  case (Cons c cs)
  have ne: "\<not> queue_empty (gs_queue st)" using Cons.prems(2) by (auto simp: queue_empty_def queue_contents_def)
  obtain r x q1 where d: "dequeue (gs_queue st) 0 = (r, x, q1)" by (metis surj_pair)
  have q1: "x = c" "queue_contents q1 = cs" "queue_inv q1"
    using bq.deq_val[OF Cons.prems, of 0] bq.deq_contents[OF Cons.prems, of 0] bq.deq_inv[OF Cons.prems(1), of 0] d by simp_all
  let ?st1 = "snd (gs_char c st)"
  have keep: "gs_chan2 ?st1 = gs_chan2 st" "gs_pt ?st1 = gs_pt st"
    by (simp_all add: gs_char_def gs_count_def split_def Let_def)
  have h: "gs_handle st = (fst (gs_char c st), gs_upd (gs_chan2 st) (gs_pt st) q1 ?st1)"
    using d q1(1) by (simp add: gs_handle_def gs_char_def gs_upd_def gs_count_def split_def Let_def)
  obtain q where q: "gs_drain (gs_upd (gs_chan2 st) (gs_pt st) q1 ?st1) =
      (fst (gs_feed cs (gs_upd (gs_chan2 st) (gs_pt st) q1 ?st1)), gs_upd (gs_chan2 st) (gs_pt st) q (snd (gs_feed cs (gs_upd (gs_chan2 st) (gs_pt st) q1 ?st1))))"
    "queue_inv q" "queue_contents q = []"
    using Cons.IH[of "gs_upd (gs_chan2 st) (gs_pt st) q1 ?st1"] q1(2,3) by auto
  then show ?case using ne h by (subst gs_drain.simps) (auto simp: gs_feed_upd split_def Let_def)
qed

definition gs_inv :: "bytes \<Rightarrow> ground_station \<Rightarrow> bool" where
  "gs_inv raw st \<longleftrightarrow> queue_inv (gs_queue st) \<and> queue_contents (gs_queue st) = [] \<and> gec_keyed raw (gs_chan2 st) \<and> length (gs_pt st) = 64"

lemma gs_frame_val:
  assumes "gs_inv raw st" "length ct = 80"
  shows "\<exists>k pt q. gs_frame al ct st = (fst (gs_feed (accepted raw ct) st), gs_upd k pt q (snd (gs_feed (accepted raw ct) st))) \<and>
    queue_inv q \<and> queue_contents q = [] \<and> gec_keyed raw k \<and> length pt = 64"
proof -
  obtain c4 x t where ct: "ct = c4 @ x @ t" "length c4 = 4" "length x = 64" "length t = 12" using gec_ct_parts[OF assms(2)] .
  define ok where "ok = (t = gcm_tag (aes128 (take 16 raw)) (c4 @ take 8 (drop 16 raw)) [] x 12)"
  let ?m = "gcm_cipher (aes128 (take 16 raw)) (c4 @ take 8 (drop 16 raw)) x"
  have inv: "queue_inv (gs_queue st)" "queue_contents (gs_queue st) = []" "gec_keyed raw (gs_chan2 st)" "length (gs_pt st) = 64"
    using assms(1) by (simp_all add: gs_inv_def)
  have acc: "accepted raw ct = (if ok then ?m else [])" "length ?m = 64"
    using ct by (simp_all add: accepted_def ok_def gcm_cipher_facts Let_def)
  obtain k where k: "gec_decrypt al (gs_chan2 st) ct (gs_pt st) =
      (if ok then GEC_SUCCESS else GEC_ERROR_DECRYPT_AUTH_FAILED, k, if ok then ?m else replicate 64 0)" "gec_keyed raw k"
    using gec_decrypt_val[OF inv(3) ct(2-4) inv(4) ok_def, of al] unfolding ct(1) by blast
  define pt where "pt = (if ok then ?m else replicate 64 0)"
  define q1 where "q1 = (if ok then enqueue_all enqueue (gs_queue st) ?m else gs_queue st)"
  have q1: "queue_inv q1" "queue_contents q1 = accepted raw ct"
    using bq.enqueue_all_inv[OF inv(1)] bq.enqueue_all_fits[OF inv(1), of ?m] inv(1,2) acc by (auto simp: q1_def)
  have f: "gs_frame al ct st = gs_drain (gs_upd k pt q1 st)"
    using k(1) acc(2) by (simp add: gs_frame_def gs_upd_def pt_def q1_def)
  obtain q where q: "gs_drain (gs_upd k pt q1 st) = (fst (gs_feed (accepted raw ct) (gs_upd k pt q1 st)), gs_upd k pt q (snd (gs_feed (accepted raw ct) (gs_upd k pt q1 st))))"
    "queue_inv q" "queue_contents q = []"
    using gs_drain_val[of "gs_upd k pt q1 st"] q1 by auto
  have "length pt = 64" using acc(2) by (simp add: pt_def)
  then show ?thesis using q f k(2) by (auto simp: gs_feed_upd)
qed

end
