(* ===== verification/Ground_Messages.thy ===== *)
theory Ground_Messages
  imports Ground_Link
begin

text \<open>
  Messages over the static-key link: down from the relay to the ground station, with what the station counts, and up from the station to the relay.
\<close>

section \<open>Frames on the serial line\<close>

lemma gs_sync_skip: "0x7e \<notin> set pre \<Longrightarrow> gs_sync (pre @ 0x7e # 0 # cs) = Some cs"
proof (induction pre)
  case (Cons c pre)
  then show ?case by (cases pre) auto
qed simp

lemma gs_sync_noise: "0x7e \<notin> set pre \<Longrightarrow> gs_sync pre = None"
proof (induction pre)
  case (Cons c pre)
  then show ?case by (cases pre) auto
qed simp

definition on_line :: "(bytes \<times> bytes) list \<Rightarrow> bytes" where
  "on_line nfs = concat (map (\<lambda>(noise, f). noise @ f) nfs)"

lemma gs_receive_val:
  assumes "gs_inv raw st" "\<forall>(noise, f) \<in> set nfs. 0x7e \<notin> set noise \<and> (\<exists>ct. f = [0x7e, 0] @ ct \<and> length ct = 80)"
  defines "xs \<equiv> concat (map (\<lambda>nf. accepted raw (drop 2 (snd nf))) nfs)"
  shows "\<exists>k pt q. gs_receive al (on_line nfs) st = (fst (gs_feed xs st), gs_upd k pt q (snd (gs_feed xs st))) \<and>
    queue_inv q \<and> queue_contents q = [] \<and> gec_keyed raw k \<and> length pt = 64"
  using assms(1,2) unfolding xs_def
proof (induction nfs arbitrary: st)
  case Nil
  then show ?case by (intro exI[of _ "gs_chan2 st"] exI[of _ "gs_pt st"] exI[of _ "gs_queue st"]) (simp add: on_line_def gs_receive.simps gs_upd_def gs_inv_def)
next
  case (Cons nf nfs)
  obtain noise ct where nf: "nf = (noise, [0x7e, 0] @ ct)" "0x7e \<notin> set noise" "length ct = 80" using Cons.prems(2) by (cases nf) auto
  let ?a = "accepted raw ct"
  obtain k pt q where f: "gs_frame al ct st = (fst (gs_feed ?a st), gs_upd k pt q (snd (gs_feed ?a st)))" "queue_inv q" "queue_contents q = []" "gec_keyed raw k" "length pt = 64"
    using gs_frame_val[OF Cons.prems(1) nf(3)] by blast
  let ?st1 = "gs_upd k pt q (snd (gs_feed ?a st))" and ?ys = "concat (map (\<lambda>nf. accepted raw (drop 2 (snd nf))) nfs)"
  have "gs_inv raw ?st1" using f by (simp add: gs_inv_def)
  then obtain k' pt' q' where r: "gs_receive al (on_line nfs) ?st1 = (fst (gs_feed ?ys ?st1), gs_upd k' pt' q' (snd (gs_feed ?ys ?st1)))"
    "queue_inv q'" "queue_contents q' = []" "gec_keyed raw k'" "length pt' = 64"
    using Cons.IH[of ?st1] Cons.prems(2) by auto
  have "on_line (nf # nfs) = noise @ 0x7e # 0 # (ct @ on_line nfs)" by (simp add: on_line_def nf(1))
  then have "gs_sync (on_line (nf # nfs)) = Some (ct @ on_line nfs)" using gs_sync_skip[OF nf(2)] by simp
  then have "gs_receive al (on_line (nf # nfs)) st = (fst (gs_feed ?a st) @ fst (gs_feed ?ys ?st1), gs_upd k' pt' q' (snd (gs_feed ?ys ?st1)))"
    using nf(3) f(1) r(1) by (subst gs_receive.simps) simp
  then show ?case using r(2-5) nf(1) by (auto simp: gs_feed_append gs_feed_upd Let_def split_def)
qed

section \<open>Messages and counters\<close>

definition report_of :: "mavlink_message_t \<Rightarrow> report" where
  "report_of m = (m_seq m, m_sysid m, m_msgid m)"

text \<open>The counters of the station after a sequence of reports.\<close>

definition counters :: "ground_station \<Rightarrow> int \<times> int \<times> int" where
  "counters st = (all_packets st, lost_packets st, last_seq st)"

fun tally :: "report \<Rightarrow> int \<times> int \<times> int \<Rightarrow> int \<times> int \<times> int" where
  "tally (seq, sysid, _) (n, lost, prev) =
     (n + 1, lost + (if prev \<noteq> -1 then (uint seq - prev - 1) mod 256 else 0), if sysid = 1 then uint seq else prev)"

lemma u8_seq_mod: "(uint (s :: u8) = (l + 1) mod 256) \<longleftrightarrow> (uint s - l - 1) mod 256 = 0"
proof -
  have "uint s = uint s mod 256" using uint_lt2p[of s] uint_ge_0[of s] by simp
  then have "uint s = (l + 1) mod 256 \<longleftrightarrow> uint s mod 256 = (l + 1) mod 256" by simp
  also have "\<dots> \<longleftrightarrow> 256 dvd uint s - (l + 1)" by (rule mod_eq_dvd_iff)
  finally show ?thesis by (simp add: dvd_eq_mod_eq_0 diff_diff_eq)
qed

lemma counters_count: "counters (gs_count m st) = tally (report_of m) (counters st)"
proof -
  have e: "(255 + x) mod 256 = (x - 1) mod 256" for x :: int
  proof -
    have "255 + x = x - 1 + 256" by simp
    then show ?thesis by (simp only: mod_add_self2)
  qed
  show ?thesis by (simp add: gs_count_def counters_def report_of_def Let_def u8_seq_mod e)
qed

definition common_message :: "mavlink_message_t \<Rightarrow> bool" where
  "common_message m \<longleftrightarrow> wf_frame m \<and> get_msg_entry common_message_crcs (ucast (m_msgid m)) \<noteq> None"

lemma common_same_entry: "common_message m \<Longrightarrow> same_entry common_message_crcs (m_msgid m)"
  using common_entry by (fastforce simp: common_message_def same_entry_def)

lemma gs_silent:
  assumes "dialect_run common_message_crcs (gs_rx st, gs_status st, gs_msg st, gs_rstatus st) cs = (replicate (length cs) FRAMING_INCOMPLETE, rx', s', r', rs')"
  shows "\<exists>st'. gs_feed cs st = ([], st') \<and> gs_rx st' = rx' \<and> gs_status st' = s' \<and> gs_msg st' = r' \<and> gs_rstatus st' = rs' \<and> counters st' = counters st"
  using assms
proof (induction cs arbitrary: st)
  case (Cons c cs)
  obtain f rx1 s1 r1 rs1 where p: "parse_char_dialect common_message_crcs (gs_rx st) (gs_status st) c (gs_msg st) (gs_rstatus st) = (f, rx1, s1, r1, rs1)" by (metis surj_pair)
  have f: "f = FRAMING_INCOMPLETE" "dialect_run common_message_crcs (rx1, s1, r1, rs1) cs = (replicate (length cs) FRAMING_INCOMPLETE, rx', s', r', rs')"
    using Cons.prems p by (auto simp: Let_def split: prod.splits)
  let ?st = "st\<lparr>gs_rx := rx1, gs_status := s1, gs_msg := r1, gs_rstatus := rs1\<rparr>"
  have "gs_char c st = ([], ?st)" "counters ?st = counters st" using f(1) by (simp_all add: gs_char_def p counters_def)
  then show ?case using Cons.IH[of ?st] f(2) by auto
qed simp

lemma gs_message:
  assumes "idle (gs_rx st) (gs_status st)" "common_message m"
  shows "\<exists>st'. gs_feed (send_bytes m) st = ([report_of m], st') \<and> idle (gs_rx st') (gs_status st') \<and> counters st' = tally (report_of m) (counters st)"
    "n < length (send_bytes m) \<Longrightarrow> fst (gs_feed (take n (send_bytes m)) st) = [] \<and> counters (snd (gs_feed (take n (send_bytes m)) st)) = counters st"
proof -
  let ?t = common_message_crcs
  have wf: "wf_frame m" using assms(2) by (simp add: common_message_def)
  obtain pre c rx1 s1 r1 rs1 rx' s' rs' where m: "send_bytes m = pre @ [c]"
    "dialect_run ?t (gs_rx st, gs_status st, gs_msg st, gs_rstatus st) pre = (replicate (length pre) FRAMING_INCOMPLETE, rx1, s1, r1, rs1)"
    "parse_char_dialect ?t rx1 s1 c r1 rs1 = (FRAMING_OK, rx', s', rx', rs')" "idle rx' s'" "send_bytes rx' = send_bytes m"
    using dialect_message[OF assms(1) wf common_same_entry[OF assms(2)]] by blast
  obtain st1 where st1: "gs_feed pre st = ([], st1)" "gs_rx st1 = rx1" "gs_status st1 = s1" "gs_msg st1 = r1" "gs_rstatus st1 = rs1" "counters st1 = counters st"
    using gs_silent[OF m(2)] by blast
  have rep: "report_of rx' = report_of m" using send_bytes_header[OF m(5)] wf by (simp add: report_of_def wf_frame_def)
  define st2 where "st2 = st1\<lparr>gs_rx := rx', gs_status := s', gs_msg := rx', gs_rstatus := rs'\<rparr>"
  have "gs_char c st1 = ([report_of rx'], gs_count rx' st2)" using m(3) st1(2-5) by (simp add: gs_char_def st2_def report_of_def)
  moreover have "counters st2 = counters st" using st1(6) by (simp add: st2_def counters_def)
  moreover have "gs_rx (gs_count rx' st2) = rx'" "gs_status (gs_count rx' st2) = s'" by (simp_all add: gs_count_def st2_def Let_def)
  ultimately show "\<exists>st'. gs_feed (send_bytes m) st = ([report_of m], st') \<and> idle (gs_rx st') (gs_status st') \<and> counters st' = tally (report_of m) (counters st)"
    using m(1,4) st1(1) rep by (auto simp: gs_feed_append counters_count)
  assume n: "n < length (send_bytes m)"
  then have t: "take n (send_bytes m) = take n pre" using m(1) by simp
  obtain fs p2 where r: "dialect_run ?t (gs_rx st, gs_status st, gs_msg st, gs_rstatus st) (take n pre) = (fs, p2)" by (metis surj_pair)
  obtain gs p3 where g: "dialect_run ?t p2 (drop n pre) = (gs, p3)" by (metis surj_pair)
  have cat: "fs @ gs = replicate (length pre) FRAMING_INCOMPLETE"
    using m(2) dialect_run_append[of ?t "(gs_rx st, gs_status st, gs_msg st, gs_rstatus st)" "take n pre" "drop n pre"] r g by simp
  have "length fs = length (take n pre)" using r length_dialect_run by (metis fst_conv)
  then have fs: "fs = replicate (length (take n pre)) FRAMING_INCOMPLETE"
    using cat by (metis append_eq_conv_conj take_replicate min.absorb1 length_take min.cobounded1 min.commute)
  obtain rx2 s2 r2 rs2 where p2: "p2 = (rx2, s2, r2, rs2)" by (metis surj_pair)
  show "fst (gs_feed (take n (send_bytes m)) st) = [] \<and> counters (snd (gs_feed (take n (send_bytes m)) st)) = counters st"
    using gs_silent[OF r[unfolded fs p2]] t by auto
qed

lemma gs_messages:
  assumes "idle (gs_rx st) (gs_status st)" "\<forall>m \<in> set ms. common_message m"
  shows "\<exists>k \<le> length ms. fst (gs_feed (take n (concat (map send_bytes ms))) st) = map report_of (take k ms) \<and>
    counters (snd (gs_feed (take n (concat (map send_bytes ms))) st)) = fold tally (map report_of (take k ms)) (counters st) \<and>
    (k < length ms \<longrightarrow> n < length (concat (map send_bytes (take (Suc k) ms))))"
  using assms
proof (induction ms arbitrary: st n)
  case (Cons m ms)
  let ?l = "length (send_bytes m)"
  have cm: "common_message m" using Cons.prems(2) by simp
  show ?case
  proof (cases "n < ?l")
    case True
    then show ?thesis using gs_message(2)[OF Cons.prems(1) cm True] by (intro exI[of _ 0]) simp
  next
    case False
    then have t: "take n (concat (map send_bytes (m # ms))) = send_bytes m @ take (n - ?l) (concat (map send_bytes ms))" by simp
    obtain st' where d: "gs_feed (send_bytes m) st = ([report_of m], st')" "idle (gs_rx st') (gs_status st')" "counters st' = tally (report_of m) (counters st)"
      using gs_message(1)[OF Cons.prems(1) cm] by blast
    obtain k where k: "k \<le> length ms" "fst (gs_feed (take (n - ?l) (concat (map send_bytes ms))) st') = map report_of (take k ms)"
      "counters (snd (gs_feed (take (n - ?l) (concat (map send_bytes ms))) st')) = fold tally (map report_of (take k ms)) (counters st')"
      "k < length ms \<longrightarrow> n - ?l < length (concat (map send_bytes (take (Suc k) ms)))"
      using Cons.IH[OF d(2), of "n - ?l"] Cons.prems(2) by auto
    show ?thesis unfolding t using k d(1,3) False by (intro exI[of _ "Suc k"]) (auto simp: gs_feed_append Let_def split_def)
  qed
qed (simp add: counters_def)

lemma tally_all: "fold tally rs (n, lost, prev) = (a, l, p) \<Longrightarrow> a = n + int (length rs)"
proof (induction rs arbitrary: n lost prev)
  case (Cons r rs)
  obtain s i d where r: "r = (s, i, d)" by (metis surj_pair)
  from Cons.prems have "fold tally rs (tally r (n, lost, prev)) = (a, l, p)" by simp
  from Cons.IH[OF this[unfolded r tally.simps]] show ?case by simp
qed simp

lemma tally_consecutive:
  assumes "\<forall>r \<in> set rs. fst (snd r) = 1" "successively (\<lambda>a b. fst b = fst a + 1) rs" "fold tally rs (n, lost, prev) = (a, l, p)"
    and "prev = -1 \<or> rs = [] \<or> uint (fst (hd rs)) = (prev + 1) mod 256"
  shows "l = lost"
  using assms
proof (induction rs arbitrary: n lost prev)
  case (Cons r rs)
  obtain s i d where r: "r = (s, i, d)" by (metis surj_pair)
  have "i = 1" using Cons.prems(1) r by simp
  have z: "(if prev \<noteq> -1 then (uint s - prev - 1) mod 256 else 0) = 0" using Cons.prems(4) r u8_seq_mod[of s prev] by auto
  have f: "fold tally rs (n + 1, lost, uint s) = (a, l, p)" using Cons.prems(3) r \<open>i = 1\<close> z by simp
  have "uint (fst (hd rs)) = (uint s + 1) mod 256" if "rs \<noteq> []"
  proof -
    have "fst (hd rs) = s + 1" using Cons.prems(2) that r by (cases rs) auto
    then show ?thesis by (simp add: uint_word_ariths take_bit_eq_mod)
  qed
  moreover have "successively (\<lambda>a b. fst b = fst a + 1) rs" using Cons.prems(2) by (cases rs) auto
  ultimately show ?case using Cons.IH[OF _ _ f] Cons.prems(1) by auto
qed simp

lemma gec_frames_head: "f \<in> set (gec_frames raw c xs) \<Longrightarrow> \<exists>ct. f = [0x7e, 0] @ ct"
proof (induction xs arbitrary: c rule: gec_rest.induct)
  case (1 xs)
  show ?case
  proof (cases "length xs < 64")
    case False
    then show ?thesis using "1.IH"[OF False, of "c + 1"] "1.prems" gec_long(1)[of xs raw c] by auto
  qed (use "1.prems" in \<open>simp add: gec_short\<close>)
qed

section \<open>Starting up\<close>

lemma gec_init_take: "gec_init_sym_key_conf_auth k raw = gec_init_sym_key_conf_auth k (take 24 raw)"
  by (simp add: gec_init_sym_key_conf_auth_def drop_take)

definition cr_encrypt_start :: cr_encrypt_st where
  "cr_encrypt_start = cr_encrypt_pre_init \<lparr>cr_rx = zero_message, cr_status = zero_status, cr_symkey_chan2 = blank_key,
     cr_queue = \<lparr>raw_queue = replicate 4096 0, q_head = 0, q_size = 0\<rparr>\<rparr>"

definition gs_start :: ground_station where
  "gs_start = gs_main \<lparr>gs_rx = zero_message, gs_status = zero_status, gs_chan1 = blank_key, gs_chan2 = blank_key,
     gs_queue = \<lparr>raw_queue = replicate 4096 0, q_head = 0, q_size = 0\<rparr>, gs_pt = replicate 64 0, gs_msg = zero_message, gs_rstatus = zero_status,
     lost_packets = 0, last_seq = 0, all_packets = 0\<rparr>"

lemma zero_idle: "idle zero_message zero_status"
  by (simp add: idle_def zero_parser_inv) (simp add: zero_status_def)

lemma cr_encrypt_start:
  "enc_inv (drop 24 key_material) (cr_abs cr_encrypt_start)" "queue_contents (cr_queue cr_encrypt_start) = []"
  "idle (cr_rx cr_encrypt_start) (cr_status cr_encrypt_start)" "ctr (cr_symkey_chan2 cr_encrypt_start) = 0"
proof -
  have l: "length (drop 24 key_material) = 24" by (simp add: key_material_def)
  show "enc_inv (drop 24 key_material) (cr_abs cr_encrypt_start)" "queue_contents (cr_queue cr_encrypt_start) = []" "ctr (cr_symkey_chan2 cr_encrypt_start) = 0"
    by (simp_all add: cr_encrypt_start_def cr_encrypt_pre_init_def enc_inv_def cr_abs_def zero_parser_inv blank_key_init[OF l] queue_init_def queue_inv_def queue_contents_def)
  show "idle (cr_rx cr_encrypt_start) (cr_status cr_encrypt_start)" by (simp add: cr_encrypt_start_def cr_encrypt_pre_init_def zero_idle)
qed

lemma gs_start:
  "gs_inv (drop 24 key_material) gs_start" "idle (gs_rx gs_start) (gs_status gs_start)" "last_seq gs_start = -1" "lost_packets gs_start = 0" "all_packets gs_start = 0"
proof -
  have l: "length (drop 24 key_material) = 24" by (simp add: key_material_def)
  show "gs_inv (drop 24 key_material) gs_start"
    by (simp add: gs_start_def gs_main_def gs_inv_def gec_key_material_to_2_channels_def blank_key_init[OF l] queue_init_def queue_inv_def queue_contents_def)
  show "idle (gs_rx gs_start) (gs_status gs_start)" "last_seq gs_start = -1" "lost_packets gs_start = 0" "all_packets gs_start = 0"
    by (simp_all add: gs_start_def gs_main_def gec_key_material_to_2_channels_def zero_idle)
qed

section \<open>From the relay to the station\<close>

text \<open>What \<^verbatim>\<open>Encrypt\<close> writes for a stream of messages: frames that carry all of it but less than a block.\<close>

lemma cr_encrypt_frames:
  assumes enc: "enc_inv raw (cr_abs st)" "queue_contents (cr_queue st) = []" "idle (cr_rx st) (cr_status st)"
    and ms: "\<forall>m \<in> set ms. wf_frame m" "map snd cs = concat (map send_bytes ms)" "\<forall>uc \<in> set cs. message_sizes (fst (fst uc))"
    and room: "unat (ctr (cr_symkey_chan2 st)) + length cs div 64 < UINT32_MAX - 15"
  shows "\<exists>st'. cr_encrypt_run al cs st = (gec_frames raw (unat (ctr (cr_symkey_chan2 st))) (concat (map send_bytes ms)), st')"
proof -
  let ?bs = "concat (map send_bytes ms)" and ?f = "gec_frames raw (unat (ctr (cr_symkey_chan2 st))) (concat (map send_bytes ms))"
  have ab: "e_queue (cr_abs st) = cr_queue st" "e_rx (cr_abs st) = cr_rx st" "e_status (cr_abs st) = cr_status st" "symkey_chan2 (cr_abs st) = cr_symkey_chan2 st"
    by (simp_all add: cr_abs_def)
  have par: "concat (map send_bytes (parsed (cr_rx st, cr_status st) cs)) = ?bs" using parsed_messages[OF enc(3) ms(1,2)] by simp
  have "length cs = length ?bs" using ms(2) by (metis length_map)
  then obtain et' where "encrypt_run al cs (cr_abs st) = (?f, et')"
    using encrypt_run_val[OF enc(1) ms(3), of ?bs al] par enc(2) room unfolding ab by auto
  then show ?thesis using cr_encrypt_run_eq[of al cs st] by (cases "cr_encrypt_run al cs st") auto
qed

lemma gec_frames_carry:
  fixes raw bs c
  defines "fs \<equiv> gec_frames raw c bs"
  shows "\<forall>f \<in> set fs. \<exists>ct. f = [0x7e, 0] @ ct \<and> length ct = 80"
    "\<exists>n. concat (map (accepted raw \<circ> drop 2) fs) = take n bs \<and> n \<le> length bs \<and> length bs < n + 64"
proof -
  define xs where "xs = concat (map (accepted raw \<circ> drop 2) fs)"
  have xs: "xs @ gec_rest bs = bs" "\<forall>f \<in> set fs. length (drop 2 f) = 80" using accepted_frames[of raw c bs] by (simp_all add: xs_def fs_def)
  show "\<forall>f \<in> set fs. \<exists>ct. f = [0x7e, 0] @ ct \<and> length ct = 80" using xs(2) gec_frames_head[of _ raw c bs] by (fastforce simp: fs_def)
  have "xs = take (length xs) bs" "length xs \<le> length bs" using xs(1) by (metis append_eq_conv_conj, metis length_append le_add1)
  moreover have "length bs < length xs + 64" using xs(1) length_gec_rest[of bs] by (metis length_append nat_add_left_cancel_less)
  ultimately show "\<exists>n. concat (map (accepted raw \<circ> drop 2) fs) = take n bs \<and> n \<le> length bs \<and> length bs < n + 64" unfolding xs_def by blast
qed

text \<open>
  Messages of the common dialect that arrive at an idle \<^verbatim>\<open>Encrypt\<close> of the relay are reported by an idle ground station that reads the
  frames off the serial line, whatever noise without the magic byte lies between them: in order, with their sequence number, system and message id, all of
  them but those that end in the last 63 bytes of the stream.  The station counts every message it reports, and when they all come from system 1 with
  consecutive sequence numbers, wrapping from 255 to 0, it counts none as lost.
\<close>

theorem station_receives_messages:
  assumes enc: "enc_inv raw (cr_abs st)" "queue_contents (cr_queue st) = []" "idle (cr_rx st) (cr_status st)"
    and gs: "gs_inv raw gt" "idle (gs_rx gt) (gs_status gt)" "last_seq gt = -1"
    and ms: "\<forall>m \<in> set ms. common_message m" "map snd cs = concat (map send_bytes ms)" "\<forall>uc \<in> set cs. message_sizes (fst (fst uc))"
    and room: "unat (ctr (cr_symkey_chan2 st)) + length cs div 64 < UINT32_MAX - 15" and noise: "\<forall>i. 0x7e \<notin> set (noise i)"
  shows "\<exists>frames st' k gt'. cr_encrypt_run al cs st = (frames, st') \<and>
    gs_receive al' (on_line (map (\<lambda>i. (noise i, frames ! i)) [0..<length frames])) gt = (map report_of (take k ms), gt') \<and> k \<le> length ms \<and>
    (k < length ms \<longrightarrow> length (concat (map send_bytes ms)) < length (concat (map send_bytes (take (Suc k) ms))) + 63) \<and>
    all_packets gt' = all_packets gt + int k \<and>
    ((\<forall>m \<in> set ms. m_sysid m = 1) \<and> successively (\<lambda>a b. m_seq b = m_seq a + 1) ms \<longrightarrow> lost_packets gt' = lost_packets gt)"
proof -
  let ?bs = "concat (map send_bytes ms)"
  have wf: "\<forall>m \<in> set ms. wf_frame m" using ms(1) by (simp add: common_message_def)
  define fs where "fs = gec_frames raw (unat (ctr (cr_symkey_chan2 st))) ?bs"
  obtain st' where e1: "cr_encrypt_run al cs st = (fs, st')" using cr_encrypt_frames[OF enc wf ms(2,3) room, of al] unfolding fs_def by blast
  obtain n where e2: "concat (map (accepted raw \<circ> drop 2) fs) = take n ?bs" "n \<le> length ?bs" "length ?bs < n + 64"
    using gec_frames_carry(2)[of raw "unat (ctr (cr_symkey_chan2 st))" ?bs] unfolding fs_def by blast
  note e = e1 gec_frames_carry(1)[of raw "unat (ctr (cr_symkey_chan2 st))" ?bs, folded fs_def] e2
  let ?nfs = "map (\<lambda>i. (noise i, fs ! i)) [0..<length fs]"
  define xs where "xs = take n ?bs"
  have "concat (map (\<lambda>nf. accepted raw (drop 2 (snd nf))) ?nfs) = xs" unfolding xs_def e(3)[symmetric]
    by (rule arg_cong[of _ _ concat], rule nth_equalityI) simp_all
  moreover have "\<forall>(n, f) \<in> set ?nfs. 0x7e \<notin> set n \<and> (\<exists>ct. f = [0x7e, 0] @ ct \<and> length ct = 80)"
    using noise e(2) by auto
  ultimately obtain k pt q where d: "gs_receive al' (on_line ?nfs) gt = (fst (gs_feed xs gt), gs_upd k pt q (snd (gs_feed xs gt)))"
    using gs_receive_val[OF gs(1), of ?nfs al'] by auto
  obtain j where j: "j \<le> length ms" "fst (gs_feed xs gt) = map report_of (take j ms)"
    "counters (snd (gs_feed xs gt)) = fold tally (map report_of (take j ms)) (counters gt)"
    "j < length ms \<longrightarrow> n < length (concat (map send_bytes (take (Suc j) ms)))"
    using gs_messages[OF gs(2) ms(1), of n] unfolding xs_def by auto
  let ?gt = "gs_upd k pt q (snd (gs_feed xs gt))"
  have cnt: "fold tally (map report_of (take j ms)) (all_packets gt, lost_packets gt, -1) = (all_packets ?gt, lost_packets ?gt, last_seq ?gt)"
    using j(3) gs(3) by (simp add: counters_def)
  have "all_packets ?gt = all_packets gt + int j" using tally_all[OF cnt] j(1) by simp
  moreover have "lost_packets ?gt = lost_packets gt" if "\<forall>m \<in> set ms. m_sysid m = 1" "successively (\<lambda>a b. m_seq b = m_seq a + 1) ms"
  proof (rule tally_consecutive[OF _ _ cnt])
    show "\<forall>r \<in> set (map report_of (take j ms)). fst (snd r) = 1" using that(1) by (auto simp: report_of_def dest: in_set_takeD)
    have "successively (\<lambda>a b. m_seq b = m_seq a + 1) (take j ms @ drop j ms)" using that(2) by simp
    then have "successively (\<lambda>a b. m_seq b = m_seq a + 1) (take j ms)" by (simp only: successively_append_iff)
    then show "successively (\<lambda>a b. fst b = fst a + 1) (map report_of (take j ms))" by (simp add: successively_map report_of_def)
  qed simp
  moreover have "j < length ms \<longrightarrow> length ?bs < length (concat (map send_bytes (take (Suc j) ms))) + 63" using j(4) e(5) by linarith
  ultimately show ?thesis using e(1) d j(1,2) by (intro exI[of _ fs] exI[of _ st'] exI[of _ j] exI[of _ ?gt]) auto
qed

lemma common_crcs_nonempty: "common_message_crcs \<noteq> []"
  unfolding common_message_crcs_def by simp

lemma heartbeat_common: "common_message heartbeat"
proof -
  have "hd common_message_crcs = msg_entry (0, 50, 9, 9, 0, 0, 0)" unfolding common_message_crcs_def by (simp only: list.map list.sel)
  then have "msg_entry (0, 50, 9, 9, 0, 0, 0) \<in> set common_message_crcs" using hd_in_set[OF common_crcs_nonempty] by simp
  then have "get_msg_entry common_message_crcs 0 = Some (msg_entry (0, 50, 9, 9, 0, 0, 0))"
    using get_msg_entry_correct[OF common_crcs_sorted common_crcs_nonempty] by simp
  moreover have "m_msgid heartbeat = 0" by (simp add: heartbeat_def heartbeat_body_def zero_message_def)
  ultimately show ?thesis using heartbeat_wf by (simp add: common_message_def)
qed

theorem station_receives_messages_witness:
  "\<exists>frames st' k gt'. cr_encrypt_run (True, True, True) (map (Pair (zero_message, zero_status)) (concat (map send_bytes [heartbeat, heartbeat]))) cr_encrypt_start = (frames, st') \<and>
    gs_receive (True, True, True) (on_line (map (\<lambda>i. ([0, 1], frames ! i)) [0..<length frames])) gs_start = (map report_of (take k [heartbeat, heartbeat]), gt') \<and>
    k \<le> 2 \<and> all_packets gt' = int k"
proof -
  let ?cs = "map (Pair (zero_message, zero_status)) (concat (map send_bytes [heartbeat, heartbeat]))"
  have l: "length (send_bytes heartbeat) \<le> 280" using length_send_bytes(2)[of heartbeat] heartbeat_wf by (simp add: wf_frame_def)
  have "\<exists>frames st' k gt'. cr_encrypt_run (True, True, True) ?cs cr_encrypt_start = (frames, st') \<and>
    gs_receive (True, True, True) (on_line (map (\<lambda>i. ([0, 1], frames ! i)) [0..<length frames])) gs_start = (map report_of (take k [heartbeat, heartbeat]), gt') \<and>
    k \<le> length [heartbeat, heartbeat] \<and>
    (k < length [heartbeat, heartbeat] \<longrightarrow> length (concat (map send_bytes [heartbeat, heartbeat])) < length (concat (map send_bytes (take (Suc k) [heartbeat, heartbeat]))) + 63) \<and>
    all_packets gt' = all_packets gs_start + int k \<and>
    ((\<forall>m \<in> set [heartbeat, heartbeat]. m_sysid m = 1) \<and> successively (\<lambda>a b. m_seq b = m_seq a + 1) [heartbeat, heartbeat] \<longrightarrow> lost_packets gt' = lost_packets gs_start)"
  proof (rule station_receives_messages[OF cr_encrypt_start(1-3) gs_start(1-3)])
    show "\<forall>m \<in> set [heartbeat, heartbeat]. common_message m" by (simp add: heartbeat_common)
    show "unat (ctr (cr_symkey_chan2 cr_encrypt_start)) + length ?cs div 64 < UINT32_MAX - 15" using l by (simp add: cr_encrypt_start(4))
  qed (auto simp: zero_message_sizes comp_def)
  then show ?thesis using gs_start(5) by fastforce
qed

section \<open>What the station gets wrong\<close>

text \<open>
  The station takes messages of other systems for losses.  When the queue holds a message of system 1 and then one of another system
  whose sequence number does not happen to follow, both are reported, nothing is missing, and still a positive number of packets is added to the losses.
\<close>

theorem station_counts_other_systems_as_lost:
  assumes "queue_inv (gs_queue gt)" "queue_contents (gs_queue gt) = send_bytes a @ send_bytes b" "idle (gs_rx gt) (gs_status gt)" "last_seq gt = -1"
    and "common_message a" "common_message b" "m_sysid a = 1" "m_sysid b \<noteq> 1" "m_seq b \<noteq> m_seq a + 1"
  shows "\<exists>gt'. gs_drain gt = ([report_of a, report_of b], gt') \<and> all_packets gt' = all_packets gt + 2 \<and> last_seq gt' = uint (m_seq a) \<and>
    lost_packets gt' = lost_packets gt + (uint (m_seq b) - uint (m_seq a) - 1) mod 256 \<and> lost_packets gt < lost_packets gt'"
proof -
  obtain g1 where g1: "gs_feed (send_bytes a) gt = ([report_of a], g1)" "idle (gs_rx g1) (gs_status g1)" "counters g1 = tally (report_of a) (counters gt)"
    using gs_message(1)[OF assms(3,5)] by blast
  obtain g2 where g2: "gs_feed (send_bytes b) g1 = ([report_of b], g2)" "counters g2 = tally (report_of b) (counters g1)"
    using gs_message(1)[OF g1(2) assms(6)] by blast
  obtain q where q: "gs_drain gt = ([report_of a, report_of b], gs_upd (gs_chan2 gt) (gs_pt gt) q g2)"
    using gs_drain_val[OF assms(1,2)] g1(1) g2(1) by (auto simp: gs_feed_append)
  have nn: "uint (m_seq a) \<noteq> -1" using uint_ge_0[of "m_seq a"] by linarith
  have c: "counters g2 = (all_packets gt + 2, lost_packets gt + (uint (m_seq b) - uint (m_seq a) - 1) mod 256, uint (m_seq a))"
    using g1(3) g2(2) assms(4,7,8) nn by (simp add: counters_def report_of_def)
  have "uint (m_seq b) \<noteq> (uint (m_seq a) + 1) mod 256"
  proof
    assume e: "uint (m_seq b) = (uint (m_seq a) + 1) mod 256"
    have "uint (m_seq a + 1) = (uint (m_seq a) + 1) mod 256" by (simp add: uint_word_ariths take_bit_eq_mod)
    then show False using e assms(9) by (metis word_uint_eqI)
  qed
  then have "(uint (m_seq b) - uint (m_seq a) - 1) mod 256 \<noteq> 0" by (simp add: u8_seq_mod)
  moreover have "0 \<le> (uint (m_seq b) - uint (m_seq a) - 1) mod 256" by simp
  ultimately show ?thesis using q c by (intro exI[of _ "gs_upd (gs_chan2 gt) (gs_pt gt) q g2"]) (simp add: counters_def)
qed

text \<open>Concrete messages and a station that has received them.\<close>

definition demo_body :: "u8 \<Rightarrow> 24 word \<Rightarrow> mavlink_message_t" where
  "demo_body sysid msgid = heartbeat_body\<lparr>m_sysid := sysid, m_msgid := msgid\<rparr>"

definition demo_message :: "u8 \<Rightarrow> 24 word \<Rightarrow> mavlink_message_t" where
  "demo_message sysid msgid = (demo_body sysid msgid)\<lparr>m_checksum := mav_checksum (demo_body sysid msgid)\<rparr>"

lemma demo_message_wf: "wf_frame (demo_message sysid msgid)"
proof -
  have "m_checksum (demo_message sysid msgid) = mav_checksum (demo_message sysid msgid)" by (simp add: demo_message_def)
  then show ?thesis unfolding wf_frame_def
    by (simp add: demo_message_def demo_body_def heartbeat_body_def message_sizes_def zero_message_def mav_trim_payload.simps nth_append)
qed

lemma demo_message_fields: "m_msgid (demo_message sysid msgid) = msgid" "m_sysid (demo_message sysid msgid) = sysid" "m_seq (demo_message sysid msgid) = 7"
  "m_incompat_flags (demo_message sysid msgid) = 0"
  by (simp_all add: demo_message_def demo_body_def heartbeat_body_def zero_message_def)

lemma demo_message_common: "common_message (demo_message sysid 0)"
  using heartbeat_common demo_message_wf[of sysid 0] by (simp add: common_message_def demo_message_fields) (simp add: heartbeat_def heartbeat_body_def zero_message_def)

definition gs_loaded :: "bytes \<Rightarrow> ground_station" where
  "gs_loaded xs = gs_start\<lparr>gs_queue := enqueue_all enqueue (gs_queue gs_start) xs\<rparr>"

lemma gs_loaded:
  assumes "length xs \<le> 4096"
  shows "queue_inv (gs_queue (gs_loaded xs))" "queue_contents (gs_queue (gs_loaded xs)) = xs" "idle (gs_rx (gs_loaded xs)) (gs_status (gs_loaded xs))"
    "last_seq (gs_loaded xs) = -1" "lost_packets (gs_loaded xs) = 0"
proof -
  have q: "queue_inv (gs_queue gs_start)" "queue_contents (gs_queue gs_start) = []" using gs_start(1) by (simp_all add: gs_inv_def)
  show "queue_inv (gs_queue (gs_loaded xs))" "queue_contents (gs_queue (gs_loaded xs)) = xs"
    using bq.enqueue_all_inv[OF q(1)] bq.enqueue_all_fits[OF q(1), of xs] q(2) assms by (simp_all add: gs_loaded_def)
qed (use gs_start in \<open>simp_all add: gs_loaded_def\<close>)

lemma length_demo_message: "length (send_bytes (demo_message sysid msgid)) \<le> 280"
  using length_send_bytes(2)[of "demo_message sysid msgid"] demo_message_wf by (simp add: wf_frame_def)

theorem station_counts_other_systems_witness:
  "\<exists>gt'. gs_drain (gs_loaded (send_bytes (demo_message 1 0) @ send_bytes (demo_message 2 0))) = ([(7, 1, 0), (7, 2, 0)], gt') \<and> lost_packets gt' = 255"
proof -
  let ?a = "demo_message 1 0" and ?b = "demo_message 2 0"
  have l: "length (send_bytes ?a @ send_bytes ?b) \<le> 4096" using length_demo_message[of 1 0] length_demo_message[of 2 0] by simp
  show ?thesis
    using station_counts_other_systems_as_lost[OF gs_loaded(1-4)[OF l] demo_message_common demo_message_common] gs_loaded(5)[OF l]
    by (auto simp: demo_message_fields report_of_def)
qed

text \<open>
  The station loses every message that only the dialect of the relay has.  The relay passes it on, but the station's table has no entry for
  it, so its parser mixes 0 into the checksum, refuses the frame and is idle again; nothing is reported, and the next message of the same sender looks like a loss.
  (The frame is unsigned and the byte that disproves it is not the start byte of a frame.)
\<close>

theorem station_drops_other_dialect:
  assumes "queue_inv (gs_queue gt)" "queue_contents (gs_queue gt) = send_bytes m" "idle (gs_rx gt) (gs_status gt)"
    and "wf_frame m" "m_incompat_flags m AND 1 = 0" "drop_bit 8 (m_checksum m) \<noteq> 253"
    and "mavlink_get_msg_entry (ucast (m_msgid m)) = Some e" "e_crc_extra e \<noteq> 0" "get_msg_entry common_message_crcs (ucast (m_msgid m)) = None"
  shows "\<exists>gt'. gs_drain gt = ([], gt') \<and> idle (gs_rx gt') (gs_status gt') \<and> all_packets gt' = all_packets gt \<and> lost_packets gt' = lost_packets gt \<and>
    last_seq gt' = last_seq gt"
proof -
  have x: "mav_extra m \<noteq> 0" using assms(7,8) by (simp add: mav_extra_def)
  obtain rx' st' r' rs' where d: "dialect_run common_message_crcs (gs_rx gt, gs_status gt, gs_msg gt, gs_rstatus gt) (send_bytes m) =
      (replicate (length (send_bytes m)) FRAMING_INCOMPLETE, rx', st', r', rs')" "idle rx' st'"
    using dialect_refused[OF assms(3,4,5,9) x assms(6)] by blast
  obtain g1 where g1: "gs_feed (send_bytes m) gt = ([], g1)" "gs_rx g1 = rx'" "gs_status g1 = st'" "counters g1 = counters gt"
    using gs_silent[OF d(1)] by blast
  obtain q where q: "gs_drain gt = ([], gs_upd (gs_chan2 gt) (gs_pt gt) q g1)" using gs_drain_val[OF assms(1,2)] g1(1) by auto
  show ?thesis using q g1(2-4) d(2) by (intro exI[of _ "gs_upd (gs_chan2 gt) (gs_pt gt) q g1"]) (simp add: counters_def)
qed

lemma sensor_offsets_entry: "mavlink_get_msg_entry 150 = Some (msg_entry (150, 134, 42, 42, 0, 0, 0))"
proof -
  have "msg_entry (150, 134, 42, 42, 0, 0, 0) \<in> set mavlink_message_crcs"
    unfolding mavlink_message_crcs_def set_map by (rule imageI) code_simp
  then show ?thesis unfolding mavlink_get_msg_entry_def using get_msg_entry_correct[OF message_crcs_sorted message_crcs_nonempty] by simp
qed

lemma sensor_offsets_not_common: "get_msg_entry common_message_crcs 150 = None"
proof (rule ccontr)
  assume "\<not> ?thesis"
  then obtain e where "e \<in> set common_message_crcs" "e_msgid e = 150" using get_msg_entry_correct[OF common_crcs_sorted common_crcs_nonempty, of 150] by auto
  then have "150 \<in> set (map e_msgid common_message_crcs)" by force
  moreover have "150 \<notin> set (map e_msgid common_message_crcs)" unfolding common_message_crcs_def map_msgid_rows by code_simp
  ultimately show False by simp
qed

lemma sensor_offsets_checksum: "drop_bit 8 (m_checksum (demo_message 1 150)) \<noteq> 253"
proof -
  have x: "mav_extra (demo_body 1 150) = 134" by (simp add: mav_extra_def demo_body_def sensor_offsets_entry)
  have "m_checksum (demo_message 1 150) = crc_calculate [9, 0, 0, 7, 1, 1, 150, 0, 0, 0, 0, 0, 0, 2, 3, 81, 4, 3, 134]"
    by (simp add: demo_message_def mav_checksum_def x mav_body_def) (simp add: demo_body_def heartbeat_body_def zero_message_def header_mavlink2_def)
  moreover have "drop_bit 8 (crc_calculate [9, 0, 0, 7, 1, 1, 150, 0, 0, 0, 0, 0, 0, 2, 3, 81, 4, 3, 134]) \<noteq> 253"
    unfolding crc_calculate_def crc_init_def X25_INIT_CRC_def by (simp add: crc_accumulate_def Let_def)
  ultimately show ?thesis by simp
qed

theorem station_drops_other_dialect_witness:
  "\<exists>gt'. gs_drain (gs_loaded (send_bytes (demo_message 1 150))) = ([], gt') \<and> idle (gs_rx gt') (gs_status gt')"
proof -
  have l: "length (send_bytes (demo_message 1 150)) \<le> 4096" using length_demo_message[of 1 150] by simp
  have "mavlink_get_msg_entry (ucast (m_msgid (demo_message 1 150))) = Some (msg_entry (150, 134, 42, 42, 0, 0, 0))"
    "get_msg_entry common_message_crcs (ucast (m_msgid (demo_message 1 150))) = None"
    by (simp_all add: demo_message_fields sensor_offsets_entry sensor_offsets_not_common)
  from station_drops_other_dialect[OF gs_loaded(1-3)[OF l] demo_message_wf _ sensor_offsets_checksum this(1) _ this(2)] show ?thesis
    by (auto simp: demo_message_fields)
qed

section \<open>Static keys\<close>

text \<open>The bytes that counter mode adds do not depend on the message.\<close>

lemma gctr_stream:
  assumes "\<And>b. length b = 16 \<Longrightarrow> length (E b) = 16" "length c = 16" "length xs = length ys" "i < length xs"
  shows "gctr E c xs ! i XOR xs ! i = gctr E c ys ! i XOR (ys ! i :: u8)"
  using assms(2-4)
proof (induction "length xs" arbitrary: xs ys c i rule: less_induct)
  case less
  have ne: "xs \<noteq> []" "ys \<noteq> []" using less.prems by auto
  have l: "length (E c) = 16" using assms(1) less.prems(1) by simp
  have cancel: "(a XOR e) XOR a = e" for a e :: u8 by (simp add: xor.commute[of a e] xor.assoc)
  have lin: "length (inc32 c) = 16" using less.prems(1) by (simp add: inc32_def)
  show ?case
  proof (cases "i < 16")
    case True
    then show ?thesis using less.prems l ne by (subst (1 2) gctr.simps) (simp add: nth_append cancel)
  next
    case False
    then have "gctr E (inc32 c) (drop 16 xs) ! (i - 16) XOR drop 16 xs ! (i - 16) = gctr E (inc32 c) (drop 16 ys) ! (i - 16) XOR drop 16 ys ! (i - 16)"
      using less.hyps[of "drop 16 xs" "inc32 c" "drop 16 ys" "i - 16"] less.prems ne lin by simp
    then show ?thesis using False less.prems l ne by (subst (1 2) gctr.simps) (simp add: nth_append)
  qed
qed

lemma xor_swap: "a XOR p = b XOR q \<Longrightarrow> a XOR b = p XOR q" for a b p q :: u8
  by (rule bit_word_eqI) (metis bit_xor_iff)

lemma gec_frame_stream:
  assumes "length c4 = 4" "length p = 64" "length q = 64" "i < 64"
  shows "gec_frame raw c4 p ! (4 + i) XOR gec_frame raw c4 q ! (4 + i) = p ! i XOR q ! i"
proof -
  let ?E = "aes128 (take 16 raw)" and ?iv = "c4 @ take 8 (drop 16 raw)"
  have n: "gec_frame raw c4 x ! (4 + i) = gcm_cipher ?E ?iv x ! i" if "length x = 64" for x
    using assms(1,4) that by (simp add: gec_frame_def Let_def nth_append gcm_cipher_facts)
  have "gcm_cipher ?E ?iv p ! i XOR p ! i = gcm_cipher ?E ?iv q ! i XOR q ! i"
    unfolding gcm_cipher_def using assms by (intro gctr_stream) (simp_all add: length_aes128)
  from xor_swap[OF this] have "gcm_cipher ?E ?iv p ! i XOR gcm_cipher ?E ?iv q ! i = p ! i XOR q ! i" .
  then show ?thesis using n assms(2,3) by simp
qed

text \<open>
  The key is a constant of the program and the counter starts at zero, so a relay that is restarted encrypts its first block with the key
  stream it used after the start before.  Whatever messages the two runs were given, the exclusive or of their first frames, which anyone can record, is the exclusive or
  of the plaintexts.
\<close>

theorem restart_reuses_keystream:
  assumes "\<forall>m \<in> set ms. wf_frame m" "map snd cs = concat (map send_bytes ms)" "\<forall>uc \<in> set cs. message_sizes (fst (fst uc))"
    and "\<forall>m \<in> set ms'. wf_frame m" "map snd cs' = concat (map send_bytes ms')" "\<forall>uc \<in> set cs'. message_sizes (fst (fst uc))"
    and "64 \<le> length cs" "64 \<le> length cs'" "length cs div 64 < UINT32_MAX - 15" "length cs' div 64 < UINT32_MAX - 15"
  shows "\<exists>f fs st f' fs' st'. cr_encrypt_run al cs cr_encrypt_start = (f # fs, st) \<and> cr_encrypt_run al' cs' cr_encrypt_start = (f' # fs', st') \<and>
    (\<forall>i < 64. f ! (6 + i) XOR f' ! (6 + i) = snd (cs ! i) XOR snd (cs' ! i))"
proof -
  have first: "\<exists>fs st. cr_encrypt_run al cs cr_encrypt_start = (([0x7e, 0] @ gec_frame (drop 24 key_material) (be_bytes 4 (0 + 1)) (map snd (take 64 cs))) # fs, st)"
    if "\<forall>m \<in> set ms. wf_frame m" "map snd cs = concat (map send_bytes ms)" "\<forall>uc \<in> set cs. message_sizes (fst (fst uc))" "64 \<le> length cs"
      "length cs div 64 < UINT32_MAX - 15" for al ms cs
  proof -
    have room: "unat (ctr (cr_symkey_chan2 cr_encrypt_start)) + length cs div 64 < UINT32_MAX - 15" using that(5) by (simp add: cr_encrypt_start(4))
    have "64 \<le> length (map snd cs)" using that(4) by simp
    then show ?thesis using cr_encrypt_frames[OF cr_encrypt_start(1-3) that(1-3) room, of al] gec_long(1)[of "map snd cs" "drop 24 key_material" 0]
      by (auto simp: cr_encrypt_start(4) take_map simp flip: that(2))
  qed
  have s: "(([0x7e, 0] @ gec_frame raw c4 p) ! (6 + i)) XOR (([0x7e, 0] @ gec_frame raw c4 q) ! (6 + i)) = p ! i XOR q ! i"
    if "length c4 = 4" "length p = 64" "length q = 64" "i < 64" for raw c4 p q i
    using gec_frame_stream[OF that, of raw] by (simp add: nth_append)
  obtain fs st where f: "cr_encrypt_run al cs cr_encrypt_start = (([0x7e, 0] @ gec_frame (drop 24 key_material) (be_bytes 4 (0 + 1)) (map snd (take 64 cs))) # fs, st)"
    using first[OF assms(1-3,7,9)] by blast
  obtain fs' st' where f': "cr_encrypt_run al' cs' cr_encrypt_start = (([0x7e, 0] @ gec_frame (drop 24 key_material) (be_bytes 4 (0 + 1)) (map snd (take 64 cs'))) # fs', st')"
    using first[OF assms(4-6,8,10)] by blast
  show ?thesis unfolding f f' using assms(7,8) s[of "be_bytes 4 (0 + 1)" "map snd (take 64 cs)" "map snd (take 64 cs')" _ "drop 24 key_material"]
    by (auto simp del: append_Cons)
qed

definition demo_stream :: "u8 \<Rightarrow> ((mavlink_message_t \<times> mavlink_status_t) \<times> u8) list" where
  "demo_stream sysid = map (Pair (zero_message, zero_status)) (concat (map send_bytes (replicate 8 (demo_message sysid 0))))"

lemma demo_stream:
  "map snd (demo_stream sysid) = concat (map send_bytes (replicate 8 (demo_message sysid 0)))" "\<forall>uc \<in> set (demo_stream sysid). message_sizes (fst (fst uc))"
  "64 \<le> length (demo_stream sysid)" "length (demo_stream sysid) div 64 < UINT32_MAX - 15"
proof -
  have l: "length (send_bytes (demo_message sysid 0)) \<le> 280" by (rule length_demo_message)
  have "12 \<le> length (frame_bytes (demo_message sysid 0))" using length_frame_bytes[of "demo_message sysid 0"] demo_message_wf[of sysid 0] by (simp add: wf_frame_def)
  then have g: "12 \<le> length (send_bytes (demo_message sysid 0))" using send_bytes_frame[OF demo_message_wf[of sysid 0]] by simp
  have n: "length (demo_stream sysid) = 8 * length (send_bytes (demo_message sysid 0))" by (simp add: demo_stream_def length_concat sum_list_replicate)
  show "64 \<le> length (demo_stream sysid)" "length (demo_stream sysid) div 64 < UINT32_MAX - 15" using l g unfolding n by simp_all
qed (auto simp: demo_stream_def comp_def zero_message_sizes)

theorem restart_reuses_keystream_witness:
  "\<exists>f fs st f' fs' st'. cr_encrypt_run (True, True, True) (demo_stream 1) cr_encrypt_start = (f # fs, st) \<and>
    cr_encrypt_run (True, False, True) (demo_stream 2) cr_encrypt_start = (f' # fs', st') \<and>
    (\<forall>i < 64. f ! (6 + i) XOR f' ! (6 + i) = snd (demo_stream 1 ! i) XOR snd (demo_stream 2 ! i))"
  by (rule restart_reuses_keystream[OF _ demo_stream(1,2) _ demo_stream(1,2) demo_stream(3) demo_stream(3) demo_stream(4) demo_stream(4)]) (auto simp: demo_message_wf)

end
