(* ===== verification/Ground_Uplink.thy ===== *)
theory Ground_Uplink
  imports Ground_Messages
begin

text \<open>
  From the ground station to the relay: every heartbeat that the station's thread function \<^verbatim>\<open>send\<close> sends in a block of its own makes \<^verbatim>\<open>Decrypt\<close> write that
  heartbeat to the autopilot.
\<close>

section \<open>Decrypt on a block with one message\<close>

lemma block_silent:
  assumes "core_run (crd_rx st, crd_status st) cs = (replicate (length cs) FRAMING_INCOMPLETE, rx', s')"
  shows "\<exists>msg' rs'. cr_parse_block (cs @ ds) msg rs buf st = cr_parse_block ds msg' rs' buf (st\<lparr>crd_rx := rx', crd_status := s'\<rparr>)"
  using assms
proof (induction cs arbitrary: st msg rs)
  case Nil
  then have "st\<lparr>crd_rx := rx', crd_status := s'\<rparr> = st" by simp
  then show ?case by (intro exI[of _ msg] exI[of _ rs]) simp
next
  case (Cons c cs)
  obtain f rx1 s1 r rs1 where p: "mavlink_frame_char_buffer (crd_rx st) (crd_status st) c msg rs = (f, rx1, s1, r, rs1)" by (metis surj_pair)
  have "mav_core (crd_rx st, crd_status st) c = (f, rx1, s1)" by (rule frame_char_core[OF p])
  then have f: "f = FRAMING_INCOMPLETE" "core_run (rx1, s1) cs = (replicate (length cs) FRAMING_INCOMPLETE, rx', s')"
    using Cons.prems by (auto simp: Let_def split: prod.splits)
  then show ?case using Cons.IH[of "st\<lparr>crd_rx := rx1, crd_status := s1\<rparr>" r rs1] by (auto simp: my_mavlink_parse_char_def p)
qed

lemma block_message:
  assumes "idle (crd_rx st) (crd_status st)" "wf_frame m" "280 \<le> length buf"
  shows "\<exists>msg' rs' buf' rx' s'. cr_parse_block (send_bytes m @ ds) msg rs buf st =
      (send_bytes m # fst (cr_parse_block ds msg' rs' buf' (st\<lparr>crd_rx := rx', crd_status := s'\<rparr>)),
       snd (cr_parse_block ds msg' rs' buf' (st\<lparr>crd_rx := rx', crd_status := s'\<rparr>))) \<and> idle rx' s'"
proof -
  obtain pre c rx1 s1 rx' s' where m: "send_bytes m = pre @ [c]" "core_run (crd_rx st, crd_status st) pre = (replicate (length pre) FRAMING_INCOMPLETE, rx1, s1)"
    "mav_core (rx1, s1) c = (FRAMING_OK, rx', s')" "idle rx' s'" "send_bytes rx' = send_bytes m" using core_message[OF assms(1,2)] by blast
  obtain msg1 rs1 where b: "cr_parse_block (pre @ c # ds) msg rs buf st = cr_parse_block (c # ds) msg1 rs1 buf (st\<lparr>crd_rx := rx1, crd_status := s1\<rparr>)"
    using block_silent[OF m(2)] by blast
  obtain f rx2 s2 r rs' where p: "mavlink_frame_char_buffer rx1 s1 c msg1 rs1 = (f, rx2, s2, r, rs')" by (metis surj_pair)
  have f: "f = FRAMING_OK" "rx2 = rx'" "s2 = s'" using frame_char_core[OF p] m(3) by simp_all
  then have r: "r = rx'" using frame_ok_message p by metis
  have sz: "message_sizes rx'" using m(4) by (simp add: idle_def parser_inv_def)
  obtain len buf' where sb: "mavlink_msg_to_send_buffer buf rx' = (len, buf')" by (metis surj_pair)
  have "unat len = length (send_bytes m)" "buf' = memcpy buf 0 (send_bytes m)" "length (send_bytes m) \<le> length buf"
    using length_send_bytes(1)[OF sz, of buf] length_send_bytes(2)[OF sz] send_buffer_snd[of buf rx'] sb m(5) assms(3) by simp_all
  then have "take (unat len) buf' = send_bytes m" by (simp add: memcpy_def)
  then show ?thesis using b m(1,4) p f r sb by (auto simp: my_mavlink_parse_char_def split_def Let_def intro!: exI)
qed

lemma idle_zeros:
  "idle rx st \<Longrightarrow> \<exists>st'. core_run (rx, st) (replicate n 0) = (replicate n FRAMING_INCOMPLETE, rx, st') \<and> idle rx st'"
proof (induction n arbitrary: st)
  case (Suc n)
  define st1 where "st1 = st\<lparr>s_msg_received := FRAMING_INCOMPLETE, s_parse_error := 0\<rparr>"
  have i: "s_parse_state st = PARSE_STATE_IDLE \<or> s_parse_state st = PARSE_STATE_UNINIT" "message_sizes rx"
    using Suc.prems by (simp_all add: idle_def parser_inv_def)
  have "mav_core (rx, st) 0 = (FRAMING_INCOMPLETE, rx, st1)" using i(1) by (auto simp: mav_core_def frame_idle_def frame_count_def st1_def)
  moreover have "idle rx st1" using i by (auto simp: idle_def parser_inv_def st1_def)
  ultimately show ?case using Suc.IH[of st1] by auto
qed auto

lemma decrypt_one:
  assumes "gec_keyed raw (crd_symkey_chan1 st)" "idle (crd_rx st) (crd_status st)" "wf_frame m" "length (send_bytes m) \<le> 64"
    and "length pt = 64" "280 \<le> length buf" "length c4 = 4"
  shows "\<exists>st'. cr_decrypt_to_msg al u pt buf ([0x7e, 0] @ gec_frame raw c4 (send_bytes m @ replicate (64 - length (send_bytes m)) 0)) st = (0, [send_bytes m], st') \<and>
    gec_keyed raw (crd_symkey_chan1 st') \<and> idle (crd_rx st') (crd_status st')"
proof -
  let ?E = "aes128 (take 16 raw)" and ?iv = "c4 @ take 8 (drop 16 raw)"
  define p where "p = send_bytes m @ replicate (64 - length (send_bytes m)) 0"
  have lp: "length p = 64" using assms(4) by (simp add: p_def)
  define x where "x = gcm_cipher ?E ?iv p"
  define t where "t = gcm_tag ?E ?iv [] x 12"
  have xt: "length x = 64" "length t = 12" "gec_frame raw c4 p = c4 @ x @ t" "gcm_cipher ?E ?iv x = p"
    using lp by (simp_all add: x_def t_def gec_frame_def Let_def gcm_cipher_facts length_gcm_tag)
  obtain k where k: "gec_decrypt al (crd_symkey_chan1 st) (c4 @ x @ t) pt = (GEC_SUCCESS, k, p)" "gec_keyed raw k"
    using gec_decrypt_val[OF assms(1,7) xt(1,2) assms(5), of True al] xt(4) t_def by auto
  let ?st = "st\<lparr>crd_symkey_chan1 := k\<rparr>"
  have i: "idle (crd_rx ?st) (crd_status ?st)" using assms(2) by simp
  obtain msg' rs' buf' rx' s' where b: "cr_parse_block p (fst u) (snd u) buf ?st =
      (send_bytes m # fst (cr_parse_block (replicate (64 - length (send_bytes m)) 0) msg' rs' buf' (?st\<lparr>crd_rx := rx', crd_status := s'\<rparr>)),
       snd (cr_parse_block (replicate (64 - length (send_bytes m)) 0) msg' rs' buf' (?st\<lparr>crd_rx := rx', crd_status := s'\<rparr>)))" "idle rx' s'"
    using block_message[OF i assms(3,6), of "replicate (64 - length (send_bytes m)) 0" "fst u" "snd u"] unfolding p_def by blast
  obtain s2 where z: "core_run (rx', s') (replicate (64 - length (send_bytes m)) 0) = (replicate (64 - length (send_bytes m)) FRAMING_INCOMPLETE, rx', s2)" "idle rx' s2"
    using idle_zeros[OF b(2)] by blast
  obtain msg2 rs2 where "cr_parse_block (replicate (64 - length (send_bytes m)) 0) msg' rs' buf' (?st\<lparr>crd_rx := rx', crd_status := s'\<rparr>) =
      ([], ?st\<lparr>crd_rx := rx', crd_status := s2\<rparr>)"
    using block_silent[of "?st\<lparr>crd_rx := rx', crd_status := s'\<rparr>" "replicate (64 - length (send_bytes m)) 0" rx' s2 "[]" msg' rs' buf'] z(1) by auto
  then have "cr_decrypt_to_msg al u pt buf ([0x7e, 0] @ gec_frame raw c4 p) st = (0, [send_bytes m], ?st\<lparr>crd_rx := rx', crd_status := s2\<rparr>)"
    using k(1) b(1) lp by (simp add: cr_decrypt_to_msg_def xt(3))
  then show ?thesis using k(2) z(2) unfolding p_def by auto
qed

section \<open>The sender\<close>

lemma heartbeat_extra: "m_msgid m = 0 \<Longrightarrow> mav_extra m = 50"
proof -
  have "hd mavlink_message_crcs = msg_entry (0, 50, 9, 9, 0, 0, 0)" unfolding mavlink_message_crcs_def by (simp only: list.map list.sel)
  then have "msg_entry (0, 50, 9, 9, 0, 0, 0) \<in> set mavlink_message_crcs" using hd_in_set[OF message_crcs_nonempty] by simp
  then have "mavlink_get_msg_entry 0 = Some (msg_entry (0, 50, 9, 9, 0, 0, 0))"
    unfolding mavlink_get_msg_entry_def using get_msg_entry_correct[OF message_crcs_sorted message_crcs_nonempty] by simp
  then show "m_msgid m = 0 \<Longrightarrow> mav_extra m = 50" by (simp add: mav_extra_def)
qed

lemma length_heartbeat_packet: "length (heartbeat_packet a b c d e) = 9" "heartbeat_packet a b c d e ! 8 = 3"
  by (simp_all add: heartbeat_packet_def nth_append)

definition hb_packet :: "mavlink_heartbeat_t \<Rightarrow> bytes" where
  "hb_packet hb = heartbeat_packet (hb_type hb) (hb_autopilot hb) (hb_base_mode hb) (hb_custom_mode hb) (hb_system_status hb)"

text \<open>A heartbeat of the station, as a message.\<close>

definition hb_message :: "mavlink_heartbeat_t \<Rightarrow> u8 \<Rightarrow> mavlink_message_t \<Rightarrow> bool" where
  "hb_message hb seq m \<longleftrightarrow> wf_frame m \<and> m_sysid m = 255 \<and> m_compid m = 0 \<and> m_msgid m = 0 \<and> m_seq m = seq \<and> m_len m = 9 \<and>
     take 9 (m_payload m) = hb_packet hb \<and> m_incompat_flags m = 0"

lemma heartbeat_encode_val:
  assumes "message_sizes msg" "\<not> out_mavlink1 status"
  shows "\<exists>n m. mavlink_msg_heartbeat_encode 255 0 msg hb status = (n, m, status\<lparr>s_current_tx_seq := s_current_tx_seq status + 1\<rparr>) \<and>
    hb_message hb (s_current_tx_seq status) m"
proof -
  define b where "b = msg\<lparr>m_payload := memcpy (m_payload msg) 0 (hb_packet hb), m_msgid := 0\<rparr>"
  have lb: "length (hb_packet hb) = 9" "hb_packet hb ! 8 = 3" by (simp_all add: hb_packet_def length_heartbeat_packet)
  have b: "message_sizes b" "m_msgid b = 0" "take 9 (m_payload b) = hb_packet hb" "m_payload b ! 8 = 3"
    using assms(1) lb by (simp_all add: b_def memcpy_def nth_append)
  have tr: "mav_trim_payload (m_payload b) (unat (9 :: u8)) = 9" using b(4) by (subst mav_trim_payload.simps) simp
  define m where "m = finished b 255 0 (s_current_tx_seq status) 9 0"
  have ns: "\<not> signs None" by (simp add: signs_def)
  have f0: "unat (m_len m) = mav_trim_payload (m_payload b) (unat (9 :: u8))"
    "take (mav_trim_payload (m_payload b) (unat (9 :: u8))) (m_payload m) = take (mav_trim_payload (m_payload b) (unat (9 :: u8))) (m_payload b)"
    "m_sysid m = 255" "m_compid m = 0" "m_msgid m = m_msgid b" "m_seq m = s_current_tx_seq status" "m_incompat_flags m = 0" "m_signature m = m_signature b"
    unfolding m_def by (rule finished_fields[OF b(1)])+
  note f = f0[unfolded tr b(2)]
  have wf: "wf_frame m" unfolding m_def by (rule finished_wf[OF b(1)]) simp
  have fin: "mavlink_finalize_message_buffer b 255 0 status None 9 9 (mav_extra b) =
      (word_of_nat 21, m, status\<lparr>s_current_tx_seq := s_current_tx_seq status + 1\<rparr>, None)"
    using finalize_eq[OF b(1) assms(2), of 255 0 None 9 9] ns f(1) by (simp add: Let_def flip: m_def f(8))
  have "m_len m = 9" using f(1) by (simp add: word_unat_eq_iff)
  then have "hb_message hb (s_current_tx_seq status) m" using wf f b(3) by (simp add: hb_message_def)
  moreover have "mavlink_msg_heartbeat_encode 255 0 msg hb status = (word_of_nat 21, m, status\<lparr>s_current_tx_seq := s_current_tx_seq status + 1\<rparr>)"
    using fin unfolding heartbeat_extra[OF b(2)]
    by (simp add: mavlink_msg_heartbeat_encode_def mavlink_msg_heartbeat_pack_def Let_def flip: hb_packet_def b_def)
  ultimately show ?thesis by blast
qed

lemma hb_message_bytes: "hb_message hb seq m \<Longrightarrow> length (send_bytes m) = 21"
proof -
  assume h: "hb_message hb seq m"
  then have wf: "wf_frame m" "m_incompat_flags m = 0" "m_len m = 9" by (simp_all add: hb_message_def)
  then show "length (send_bytes m) = 21" using length_frame_bytes[of m] by (simp add: send_bytes_frame[OF wf(1)] wf_frame_def)
qed

lemma gs_send_turn_val:
  assumes "message_sizes (sl_msg l)" "\<not> out_mavlink1 (gs_status st)" "gec_keyed raw (gs_chan1 st)" "unat (ctr (gs_chan1 st)) < UINT32_MAX - 15"
    and "length (sl_ct_frame l) = 82" "take 2 (sl_ct_frame l) = [0x7e, 0]"
  shows "\<exists>c4 m l' st'. gs_send_turn al hb l st = ([0x7e, 0] @ gec_frame raw c4 (send_bytes m @ replicate (64 - length (send_bytes m)) 0), l', st') \<and>
    length c4 = 4 \<and> hb_message hb (s_current_tx_seq (gs_status st)) m \<and> message_sizes (sl_msg l') \<and> \<not> out_mavlink1 (gs_status st') \<and>
    gec_keyed raw (gs_chan1 st') \<and> unat (ctr (gs_chan1 st')) = unat (ctr (gs_chan1 st)) + 1 \<and> length (sl_ct_frame l') = 82 \<and>
    take 2 (sl_ct_frame l') = [0x7e, 0] \<and> s_current_tx_seq (gs_status st') = s_current_tx_seq (gs_status st) + 1"
proof -
  obtain n m where e: "mavlink_msg_heartbeat_encode 255 0 (sl_msg l) hb (gs_status st) =
      (n, m, (gs_status st)\<lparr>s_current_tx_seq := s_current_tx_seq (gs_status st) + 1\<rparr>)" "hb_message hb (s_current_tx_seq (gs_status st)) m"
    using heartbeat_encode_val[OF assms(1,2)] by blast
  define p where "p = send_bytes m @ replicate (64 - length (send_bytes m)) 0"
  have lp: "length p = 64" "length (send_bytes m) = 21" using hb_message_bytes[OF e(2)] by (simp_all add: p_def)
  obtain len where sb: "mavlink_msg_to_send_buffer (replicate 64 0) m = (len, p)"
    using send_buffer_snd[of "replicate 64 0" m] lp by (cases "mavlink_msg_to_send_buffer (replicate 64 0) m") (simp add: memcpy_def p_def)
  define c4 where "c4 = be_bytes 4 (unat (ctr (gs_chan1 st)) + 1)"
  obtain k where k: "gec_encrypt al (gs_chan1 st) p (drop 2 (sl_ct_frame l)) = (GEC_SUCCESS, k, gec_frame raw c4 p)" "gec_keyed raw k" "ctr k = ctr (gs_chan1 st) + 1"
    using gec_encrypt_val[OF assms(3,4) lp(1), of "drop 2 (sl_ct_frame l)" al] assms(5) by (auto simp: c4_def)
  have fl: "length (gec_frame raw c4 p) = 80" using lp(1) by (intro length_gec_frame) (simp_all add: c4_def)
  then have fr: "memcpy (sl_ct_frame l) 2 (gec_frame raw c4 p) = [0x7e, 0] @ gec_frame raw c4 p" using assms(5,6) by (simp add: memcpy_def)
  have c: "unat (ctr k) = unat (ctr (gs_chan1 st)) + 1" using k(3) assms(4) by (simp add: unat_inc)
  have sz: "message_sizes m" using e(2) by (simp add: hb_message_def wf_frame_def)
  have "gs_send_turn al hb l st = ([0x7e, 0] @ gec_frame raw c4 p, l\<lparr>sl_msg := m, sl_ct_frame := [0x7e, 0] @ gec_frame raw c4 p\<rparr>,
      st\<lparr>gs_status := (gs_status st)\<lparr>s_current_tx_seq := s_current_tx_seq (gs_status st) + 1\<rparr>, gs_chan1 := k\<rparr>)"
    by (simp add: gs_send_turn_def e(1) sb k(1) fr Let_def)
  then show ?thesis using e(2) k(2) c sz fl assms(2) unfolding p_def
    by (intro exI[of _ c4] exI[of _ m] exI) (auto simp: out_mavlink1_def c4_def)
qed

section \<open>Properties\<close>

text \<open>
  What the station sends reaches the autopilot.  For any number of turns of the sender that the counter of its channel has room for, and
  whatever the uninitialised locals of each call hold, an idle \<^verbatim>\<open>Decrypt\<close> of the relay with the same key accepts every frame and writes exactly one message for it:
  a well-formed heartbeat of system 255 with the fields of the station's structure, with sequence numbers that count up from the station's.
\<close>

theorem station_heartbeats_reach_autopilot:
  assumes "message_sizes (sl_msg l)" "\<not> out_mavlink1 (gs_status gt)" "gec_keyed raw (gs_chan1 gt)" "unat (ctr (gs_chan1 gt)) + n \<le> UINT32_MAX - 15"
    and "length (sl_ct_frame l) = 82" "take 2 (sl_ct_frame l) = [0x7e, 0]"
    and "gec_keyed raw (crd_symkey_chan1 st)" "idle (crd_rx st) (crd_status st)" "length us = n" "\<forall>(u, pt, buf) \<in> set us. length pt = 64 \<and> length buf = 280"
  shows "\<exists>frames l' gt' ms st'. gs_send al hb n l gt = (frames, l', gt') \<and> cr_decrypt_all al' (zip us frames) st = (replicate n 0, map send_bytes ms, st') \<and>
    length ms = n \<and> (\<forall>i < n. hb_message hb (s_current_tx_seq (gs_status gt) + word_of_nat i) (ms ! i))"
  using assms
proof (induction n arbitrary: l gt us st)
  case (Suc n)
  have room: "unat (ctr (gs_chan1 gt)) < UINT32_MAX - 15" using Suc.prems(4) by simp
  obtain c4 m l1 g1 where t: "gs_send_turn al hb l gt = ([0x7e, 0] @ gec_frame raw c4 (send_bytes m @ replicate (64 - length (send_bytes m)) 0), l1, g1)"
    "length c4 = 4" "hb_message hb (s_current_tx_seq (gs_status gt)) m" "message_sizes (sl_msg l1)" "\<not> out_mavlink1 (gs_status g1)" "gec_keyed raw (gs_chan1 g1)"
    "unat (ctr (gs_chan1 g1)) = unat (ctr (gs_chan1 gt)) + 1" "length (sl_ct_frame l1) = 82" "take 2 (sl_ct_frame l1) = [0x7e, 0]"
    "s_current_tx_seq (gs_status g1) = s_current_tx_seq (gs_status gt) + 1"
    using gs_send_turn_val[OF Suc.prems(1-3) room Suc.prems(5,6), of al hb] by blast
  obtain u pt buf us' where us: "us = (u, pt, buf) # us'" "length us' = n" "length pt = 64" "length buf = 280" "\<forall>(u, pt, buf) \<in> set us'. length pt = 64 \<and> length buf = 280"
    using Suc.prems(9,10) by (cases us) auto
  have m: "wf_frame m" "length (send_bytes m) \<le> 64" using t(3) hb_message_bytes[OF t(3)] by (simp_all add: hb_message_def)
  have lb: "280 \<le> length buf" using us(4) by simp
  obtain st1 where d: "cr_decrypt_to_msg al' u pt buf ([0x7e, 0] @ gec_frame raw c4 (send_bytes m @ replicate (64 - length (send_bytes m)) 0)) st = (0, [send_bytes m], st1)"
    "gec_keyed raw (crd_symkey_chan1 st1)" "idle (crd_rx st1) (crd_status st1)"
    using decrypt_one[OF Suc.prems(7,8) m us(3) lb t(2), of al' u] by blast
  have "unat (ctr (gs_chan1 g1)) + n \<le> UINT32_MAX - 15" using Suc.prems(4) t(7) by simp
  from Suc.IH[OF t(4-6) this t(8,9) d(2,3) us(2,5)] obtain frames l' gt' ms st' where r:
    "gs_send al hb n l1 g1 = (frames, l', gt')" "cr_decrypt_all al' (zip us' frames) st1 = (replicate n 0, map send_bytes ms, st')" "length ms = n"
    "\<forall>i < n. hb_message hb (s_current_tx_seq (gs_status g1) + word_of_nat i) (ms ! i)" by blast
  have "hb_message hb (s_current_tx_seq (gs_status gt) + word_of_nat i) ((m # ms) ! i)" if "i < Suc n" for i
    using that t(3,10) r(4) by (cases i) (auto simp: ac_simps)
  then show ?case using t(1) d(1) r(1-3) us(1)
    by (intro exI[of _ "([0x7e, 0] @ gec_frame raw c4 (send_bytes m @ replicate (64 - length (send_bytes m)) 0)) # frames"] exI[of _ l'] exI[of _ gt'] exI[of _ "m # ms"] exI[of _ st'])
      (simp add: Let_def)
qed simp

definition cr_decrypt_start :: cr_decrypt_st where
  "cr_decrypt_start = cr_decrypt_pre_init \<lparr>crd_rx = zero_message, crd_status = zero_status, crd_head = 0, crd_symkey_chan1 = blank_key\<rparr>"

definition send_start :: send_locals where
  "send_start = gs_send_init \<lparr>sl_msg = zero_message, sl_ct_frame = [1, 1] @ replicate 80 1\<rparr>"

lemma start_chan1: "gec_keyed (take 24 key_material) (gs_chan1 gs_start)" "ctr (gs_chan1 gs_start) = 0"
  "gec_keyed (take 24 key_material) (crd_symkey_chan1 cr_decrypt_start)"
proof -
  have l: "length (take 24 key_material) = 24" by (simp add: key_material_def)
  have i: "gec_init_sym_key_conf_auth blank_key key_material = gec_init_sym_key_conf_auth blank_key (take 24 key_material)" by (rule gec_init_take)
  show "gec_keyed (take 24 key_material) (gs_chan1 gs_start)" "ctr (gs_chan1 gs_start) = 0" "gec_keyed (take 24 key_material) (crd_symkey_chan1 cr_decrypt_start)"
    using blank_key_init[OF l] unfolding gs_start_def gs_main_def gec_key_material_to_2_channels_def cr_decrypt_start_def cr_decrypt_pre_init_def
    by (simp_all add: i)
qed

theorem station_heartbeats_witness:
  "\<exists>frames l' gt' ms st'. gs_send (True, True, True) (gs_heartbeat \<lparr>hb_custom_mode = 1, hb_type = 1, hb_autopilot = 8, hb_base_mode = 9, hb_system_status = 1, hb_mavlink_version = 1\<rparr>)
      2 send_start gs_start = (frames, l', gt') \<and>
    cr_decrypt_all (False, True, True) (zip (replicate 2 ((heartbeat, zero_status), replicate 64 1, replicate 280 1)) frames) cr_decrypt_start =
      (replicate 2 0, map send_bytes ms, st') \<and> length ms = 2"
proof -
  have "\<not> out_mavlink1 (gs_status gs_start)" "idle (crd_rx cr_decrypt_start) (crd_status cr_decrypt_start)"
    by (simp_all add: gs_start_def gs_main_def gec_key_material_to_2_channels_def out_mavlink1_def zero_status_def cr_decrypt_start_def cr_decrypt_pre_init_def)
      (use zero_idle in \<open>simp add: zero_status_def\<close>)
  moreover have "message_sizes (sl_msg send_start)" "length (sl_ct_frame send_start) = 82" "take 2 (sl_ct_frame send_start) = [0x7e, 0]"
    by (simp_all add: send_start_def gs_send_init_def zero_message_sizes numeral_2_eq_2)
  ultimately show ?thesis
    using station_heartbeats_reach_autopilot[of send_start gs_start "take 24 key_material" 2 cr_decrypt_start "replicate 2 ((heartbeat, zero_status), replicate 64 1, replicate 280 1)"
      "(True, True, True)" "gs_heartbeat \<lparr>hb_custom_mode = 1, hb_type = 1, hb_autopilot = 8, hb_base_mode = 9, hb_system_status = 1, hb_mavlink_version = 1\<rparr>" "(False, True, True)"]
      start_chan1 by auto
qed

text \<open>
  The sender writes its frame even when the block could not be encrypted: once the counter is used up, every turn transmits the last frame again, and the receiver
  does not refuse repeated frames.
\<close>

theorem exhausted_sender_repeats_frame:
  assumes "UINT32_MAX - 15 \<le> unat (ctr (gs_chan1 gt))" "length (sl_ct_frame l) = 82"
  shows "\<exists>l' gt'. gs_send_turn al hb l gt = (sl_ct_frame l, l', gt') \<and> sl_ct_frame l' = sl_ct_frame l"
proof -
  have "memcpy (sl_ct_frame l) 2 (drop 2 (sl_ct_frame l)) = sl_ct_frame l" using assms(2) by (simp add: memcpy_def)
  then show ?thesis using gec_encrypt_rollover[OF assms(1)] by (simp add: gs_send_turn_def split_def Let_def)
qed

end
