(* ===== verification/Static_Receive.thy ===== *)
theory Static_Receive
  imports Ring_Buffer
begin

text \<open>
  The receive threads \<^verbatim>\<open>Pixhawk_RX\<close> and \<^verbatim>\<open>Telemetry_RX\<close> of \<^verbatim>\<open>apps/comm-crypto-relay\<close>, which fill one ring buffer each from the start and keep \<^verbatim>\<open>tail\<close> in a variable of
  their own.  They run against the readers of the other application, the polling loop of \<^verbatim>\<open>Encrypt\<close> and the reads of \<^verbatim>\<open>Decrypt\<close>, so the facts on channels of
  \<open>Ring_Buffer\<close> apply.
\<close>

section \<open>The thread\<close>

datatype srx_pc = SRX_GETCHAR | SRX_STORE | SRX_ADVANCE

record srx_thread =
  srx_pc :: srx_pc
  srx_c :: int
  srx_tail :: u32
  srx_ch :: chan

definition srx_pre_init :: "srx_thread \<Rightarrow> srx_thread" where
  "srx_pre_init s = s\<lparr>srx_ch := (srx_ch s)\<lparr>ring := ring_reset (ring (srx_ch s))\<rparr>\<rparr>"

text \<open>The start of \<^verbatim>\<open>run\<close>: \<^verbatim>\<open>tail\<close> is read from the buffer, which no one has written since \<^verbatim>\<open>pre_init\<close>; in \<^verbatim>\<open>Telemetry_RX\<close> it is
  a static variable, 0 like the buffer's.\<close>

definition srx_run :: "srx_thread \<Rightarrow> srx_thread" where
  "srx_run s = s\<lparr>srx_tail := rb_tail (ring (srx_ch s)), srx_pc := SRX_GETCHAR\<rparr>"

text \<open>One step of the loop; \<open>g\<close> is what \<^verbatim>\<open>ps_cdev_getchar\<close> returns, \<open>None\<close> for \<^verbatim>\<open>EOF\<close>.  \<open>stored\<close> records the characters of the device.\<close>

definition srx_step :: "u8 option \<Rightarrow> srx_thread \<Rightarrow> srx_thread" where
  "srx_step g s =
     (case srx_pc s of
        SRX_GETCHAR \<Rightarrow>
          (case g of
             None \<Rightarrow> s\<lparr>srx_c := -1\<rparr>
           | Some c \<Rightarrow> s\<lparr>srx_c := uint c, srx_ch := (srx_ch s)\<lparr>stored := stored (srx_ch s) @ [c]\<rparr>, srx_pc := SRX_STORE\<rparr>)
      | SRX_STORE \<Rightarrow>
          s\<lparr>srx_ch := (srx_ch s)\<lparr>ring := (ring (srx_ch s))\<lparr>rb_buffer := (rb_buffer (ring (srx_ch s)))[unat (srx_tail s) := word_of_int (srx_c s)]\<rparr>\<rparr>,
            srx_pc := SRX_ADVANCE\<rparr>
      | SRX_ADVANCE \<Rightarrow>
          let tail = (srx_tail s + 1) mod 2048
          in s\<lparr>srx_tail := tail, srx_ch := (srx_ch s)\<lparr>ring := (ring (srx_ch s))\<lparr>rb_tail := tail\<rparr>\<rparr>, srx_pc := SRX_GETCHAR\<rparr>)"

text \<open>The states of the paced runs of \<^verbatim>\<open>Pixhawk_RX\<close> with \<^verbatim>\<open>Encrypt\<close> and of \<^verbatim>\<open>Telemetry_RX\<close> with \<^verbatim>\<open>Decrypt\<close>.\<close>

inductive srx_paced_reach :: "rx_component \<Rightarrow> srx_thread \<Rightarrow> bool" where
  srx_start: "length (rb_buffer (ring (srx_ch s))) = RING_BUFFER_SIZE \<Longrightarrow>
     srx_paced_reach rc (srx_run (srx_pre_init (s\<lparr>srx_ch := (srx_ch s)\<lparr>r_head := 0, r_tail := None, stored := [], handled := []\<rparr>\<rparr>)))"
| srx_producer: "srx_paced_reach rc s \<Longrightarrow> s' = srx_step g s \<Longrightarrow> paced (srx_ch s') \<Longrightarrow> srx_paced_reach rc s'"
| srx_encrypt: "srx_paced_reach Pixhawk s \<Longrightarrow> srx_paced_reach Pixhawk (s\<lparr>srx_ch := reader_step (srx_ch s)\<rparr>)"
| srx_decrypt: "srx_paced_reach Telemetry s \<Longrightarrow> srx_paced_reach Telemetry (s\<lparr>srx_ch := decrypt_read_step reload (srx_ch s)\<rparr>)"

section \<open>The invariant\<close>

definition srx_inv :: "srx_thread \<Rightarrow> bool" where
  "srx_inv s \<longleftrightarrow> chan_inv (srx_ch s) (if srx_pc s = SRX_GETCHAR then 0 else 1) \<and> srx_tail s = rb_tail (ring (srx_ch s)) \<and>
     (srx_pc s \<noteq> SRX_GETCHAR \<longrightarrow> last (stored (srx_ch s)) = word_of_int (srx_c s)) \<and>
     (srx_pc s = SRX_ADVANCE \<longrightarrow> rb_buffer (ring (srx_ch s)) ! unat (srx_tail s) = last (stored (srx_ch s)))"

lemma srx_inv_step:
  assumes "srx_inv s" "paced (srx_ch (srx_step g s))"
  shows "srx_inv (srx_step g s)"
proof (cases "srx_pc s")
  case SRX_GETCHAR
  have put: "chan_inv ((srx_ch s)\<lparr>stored := stored (srx_ch s) @ [c]\<rparr>) 1" if "paced ((srx_ch s)\<lparr>stored := stored (srx_ch s) @ [c]\<rparr>)" for c
    using chan_inv_put[OF _ refl that] assms(1) SRX_GETCHAR by (simp add: srx_inv_def)
  show ?thesis using assms SRX_GETCHAR put by (cases g) (auto simp: srx_inv_def srx_step_def)
next
  case SRX_STORE
  have "chan_inv (srx_ch s) 1" "srx_tail s = rb_tail (ring (srx_ch s))" "length (rb_buffer (ring (srx_ch s))) = 2048" "unat (srx_tail s) < 2048"
    using assms(1) SRX_STORE by (auto simp: srx_inv_def chan_inv_def)
  then show ?thesis using assms(1) SRX_STORE chan_inv_store[of "srx_ch s" "word_of_int (srx_c s)"] by (simp add: srx_inv_def srx_step_def)
next
  case SRX_ADVANCE
  then show ?thesis using assms(1) chan_inv_advance[of "srx_ch s"] by (auto simp: srx_inv_def srx_step_def Let_def)
qed

lemma srx_reach_inv: "srx_paced_reach rc s \<Longrightarrow> srx_inv s"
proof (induction rule: srx_paced_reach.induct)
  case (srx_start s rc)
  then show ?case by (simp add: srx_inv_def srx_run_def srx_pre_init_def ring_reset_def chan_inv_def paced_def)
next
  case (srx_producer rc s s' g)
  then show ?case using srx_inv_step by blast
next
  case (srx_encrypt s)
  then show ?case by (auto simp: srx_inv_def chan_inv_read)
next
  case (srx_decrypt s reload)
  then show ?case using chan_inv_decrypt by (auto simp: srx_inv_def decrypt_read_step_eq)
qed

text \<open>
  The ring buffer between a receive thread and its reader is first-in-first-out in every paced run, one in which fewer than 2048 bytes wait, and every
  index into it is in range.
\<close>

theorem static_ring_buffer_fifo:
  assumes "srx_paced_reach rc s"
  shows "handled (srx_ch s) = take (length (handled (srx_ch s))) (stored (srx_ch s)) \<and> unat (r_head (srx_ch s)) < length (rb_buffer (ring (srx_ch s))) \<and>
    unat (srx_tail s) < length (rb_buffer (ring (srx_ch s)))"
  using srx_reach_inv[OF assms] by (auto simp: srx_inv_def chan_inv_def)

text \<open>When the thread pauses at the device in a paced run, \<^verbatim>\<open>Encrypt\<close> at the head of its loop hands out every character received in at most 2048 steps.\<close>

theorem static_ring_buffer_drains:
  assumes "srx_paced_reach Pixhawk s" "srx_pc s = SRX_GETCHAR" "r_tail (srx_ch s) = None"
  shows "\<exists>n \<le> 2048. handled ((reader_step ^^ n) (srx_ch s)) = stored (srx_ch s)"
proof -
  have i: "chan_inv (srx_ch s) 0" using srx_reach_inv[OF assms(1)] assms(2) by (simp add: srx_inv_def)
  then have "length (stored (srx_ch s)) < length (handled (srx_ch s)) + 2048" by (simp add: chan_inv_def paced_def)
  then show ?thesis using drain_outer[OF i assms(3)] by (intro exI[of _ "length (stored (srx_ch s)) - 0 - length (handled (srx_ch s)) + 1"]) simp
qed

end
