(* ===== verification/Spec2Isabelle.thy ===== *)
theory Spec2Isabelle
  imports Relay_Messages Key_Exchange_Props Mavlink_Send Ground_Uplink Static_Receive
begin

text \<open>
  A verification library for the encrypted MAVLink relay of \<^verbatim>\<open>apps/key-exchange\<close> and its predecessor with static keys, with the cryptographic library
  \<^verbatim>\<open>GEC-block\<close> and the framing layer of \<^verbatim>\<open>mavlink/include/mavlink/v2.0\<close> on which it is built.

  \<^bold>\<open>The program.\<close>  A companion computer between an autopilot and a radio runs CAmkES components on seL4.  \<^verbatim>\<open>Pixhawk\<close> and \<^verbatim>\<open>Telemetry\<close> receive characters and put
  them into ring buffers in shared memory, first into one that \<^verbatim>\<open>KeyExchange\<close> reads and, once it has notified them, into one that the relay reads.
  \<^verbatim>\<open>KeyExchange\<close> runs a station-to-station exchange with the ground station and hands one channel key to \<^verbatim>\<open>Encrypt\<close> and one to \<^verbatim>\<open>Decrypt\<close>.  \<^verbatim>\<open>Encrypt\<close> parses
  the MAVLink messages of the autopilot, queues their bytes, and writes 64-byte blocks as authenticated frames to the radio; \<^verbatim>\<open>Decrypt\<close> finds frames in
  what the radio delivers, decrypts them and writes the messages they carry to the autopilot.

  \<^bold>\<open>How code is modelled.\<close>  Machine integers are words, so wrap-around is the code's; structures are records with the source's fields; arrays are lists and
  a function returns the arrays it writes; error codes are integers; blocking reads are \<open>option\<close> values, \<open>None\<close> while they wait.  What a run does
  not determine is an argument: the contents of uninitialised locals, the outcome of alignment tests, random bytes, and the views of shared buffers.
  Every definition that models code is executable and stands at the top level of its theory.

  \<^bold>\<open>Theories, in the order of their imports.\<close>
  \<^item> \<open>Prelude\<close>: word types, \<open>memcpy\<close> and \<open>memset\<close>, circular windows, big-endian numbers.
  \<^item> \<open>Byte_Queue\<close>: the queue and deque macros of the two \<^verbatim>\<open>my_type.h\<close>.  Both are interpretations of the locale \<open>bounded_fifo\<close>, in which the loops of
    their clients are proved once; the queue refines a list.
  \<^item> \<open>Mavlink_Crc\<close>, \<open>Mavlink_Table\<close>, \<open>Mavlink\<close>: checksum, message table with its bisection, and the parser and serialiser of \<^verbatim>\<open>mavlink_helpers.h\<close>.
    \<open>Mavlink_Props\<close> has the invariant by which every array access of the parser is in bounds, and \<open>Mavlink_Roundtrip\<close> that parsing inverts serialising.
  \<^item> \<open>Mavlink_Sha256\<close>, \<open>Mavlink_Sha256_Correct\<close>: the hash of \<^verbatim>\<open>mavlink_sha256.h\<close> and that it is SHA-256.  \<open>Mavlink_Signing\<close>: signature blocks, finishing a message, the
    parser with a signing context and the channels.  \<open>Mavlink_Replay\<close> refines the table of streams to a map and shows, in the locale \<open>replay_filter\<close> of which
    \<^verbatim>\<open>mavlink_signature_check\<close> is an interpretation, that replays are refused; \<open>Mavlink_Signed\<close> follows a signed message from sender to receiver, and
    \<open>Mavlink_Send\<close> shows that the UART functions send the same bytes.
  \<^item> \<open>Aes_Field\<close>: bytes as a field and the S-box of FIPS-197, written from the standard.  \<open>Aes_Tables\<close>, \<open>Aes\<close>: tables, block cipher and key schedules of \<^verbatim>\<open>aestab.c\<close>, \<^verbatim>\<open>aescrypt.c\<close>, \<^verbatim>\<open>aeskey.c\<close>.  That \<^verbatim>\<open>sb_data\<close> is that
    S-box is proved with the tables; \<open>Aes_Correct\<close> and \<open>Aes_Keys\<close> show that cipher and schedules are FIPS-197 and that decryption inverts encryption.  \<open>Aes_Modes\<close> and \<open>Aes_Mode_Props\<close>: the modes of \<^verbatim>\<open>aes_modes.c\<close>; the stream modes are interpretations
    of the locale \<open>stream_pair\<close>.
  \<^item> \<open>Gf128\<close>, \<open>Gf128_Correct\<close>: the multipliers of \<^verbatim>\<open>gf128mul.c\<close> and the field they compute in.  \<open>Gcm\<close>: \<^verbatim>\<open>gcm.c\<close>; \<open>Gcm_Correct\<close>, \<open>Gcm_Streams\<close> and \<open>Gcm_Messages\<close>
    show that its byte, word and block loops compute AES-GCM of NIST SP 800-38D, however a message is cut into calls.
  \<^item> \<open>Sha512\<close>, \<open>Sha512_Spec\<close>, \<open>Sha512_Correct\<close>: the hash of \<^verbatim>\<open>ed25519-hash.h\<close>, the standard FIPS 180-4 with its constants computed from primes, and that the
    streaming interface refines it.
  \<^item> \<open>Curve25519\<close>: \<^verbatim>\<open>curve25519-donna.c\<close>.  \<open>Curve25519_Field\<close> and \<open>Curve25519_Reduce\<close> show that no limb overflows and that each operation computes modulo
    2^255 - 19; \<open>Curve25519_Ladder\<close> that \<^verbatim>\<open>fmonty\<close>, \<^verbatim>\<open>cmult\<close> and \<^verbatim>\<open>crecip\<close> are the ladder and the inverse of RFC 7748; \<open>Curve25519_Normal\<close> and
    \<open>Curve25519_Correct\<close> that \<^verbatim>\<open>fcontract\<close> normalises and encodes, and that the whole is X25519.
  \<^item> \<open>Gec\<close>, \<open>Gec_Props\<close>: the channels of \<^verbatim>\<open>gec.c\<close>: frame format, round trip, what a receiver accepts, counters.  \<open>Gec_Ke\<close>, \<open>Gec_Ke_Props\<close>: the exchange of
    \<^verbatim>\<open>gec-ke.c\<close>: agreement, authentication before keys are handed out, and the stages as a step relation with an invariant of its reachable contexts.
  \<^item> \<open>Ring_Buffer\<close>: the receive threads and the four loops that read their buffers as an interleaving of steps at every shared access, with safety and
    progress of the paced runs, those in which fewer than 2048 bytes wait, and the loss of an overrun.
  \<^item> \<open>Relay\<close>: \<^verbatim>\<open>Encrypt.c\<close> and \<^verbatim>\<open>Decrypt.c\<close>.  \<open>Relay_Encrypt\<close> and \<open>Relay_Decrypt\<close> refine them to functions on streams, \<open>Relay_Frames\<close> says which frames are found in a
    ring buffer, \<open>Relay_Messages\<close> follows whole messages.  \<open>Key_Exchange\<close>, \<open>Key_Exchange_Props\<close>: \<^verbatim>\<open>KeyExchange.c\<close>.
  \<^item> \<open>Mavlink_Common\<close>, \<open>Mavlink_Dialect\<close>: the parser compiled with the smaller table of \<^verbatim>\<open>common/common.h\<close> and the frames that both parse alike.
    \<open>Ground_Station\<close>: the earlier application \<^verbatim>\<open>apps/comm-crypto-relay\<close>, whose channel keys are constants, and its ground station \<^verbatim>\<open>apps/gcs-crypto-block\<close>;
    \<open>Ground_Link\<close> relates them to the relay above, \<open>Ground_Messages\<close> follows messages down to the station and shows what its counters and its dialect get
    wrong and that a restart uses the same key stream again, \<open>Ground_Uplink\<close> follows the station's heartbeats up.  \<open>Static_Receive\<close>: the receive threads
    of that application.
  \<^item> This theory composes the two relay components.

  \<^bold>\<open>Bounds and fuel.\<close>  \<open>find_header\<close> and \<open>read_message_loop\<close> take as fuel the number of bytes a view of a ring buffer can hold, 2048, and use one byte or
  more a turn, so they end by finding what they look for or by having to wait.  The key derivation is exact for the lengths of its callers, 24 and 48,
  which one hash block covers.  The ring buffers are lossless as long as fewer than 2048 bytes wait, which the code does not enforce: that an overrun
  loses bytes is a property too.  Channel counters have room below 2^32 - 16; at the bound \<^verbatim>\<open>gec_encrypt\<close> fails.  The scalar multiplication
  runs over all 256 bits of the clamped scalar, as the code does; RFC 7748 leaves out the top bit, which clamping clears, and that its step
  is harmless rests on the primality of 2^255 - 19, which is not proved here.  Headers and messages of GCM are shorter than 2^32 - 16 bytes.

  \<^bold>\<open>Not modelled.\<close>  Ed25519 (\<^verbatim>\<open>ed25519.c\<close> and its headers) enters as three functions with the laws \<open>prims_ok\<close>; that X25519 commutes on two secrets, a fact on
  the curve and not on the code, is a hypothesis of the two agreement theorems.  Device initialisation, printing and the CAmkES glue are input and
  output.  The generated accessors of MAVLink messages but those the programs call, the other earlier applications, the device experiments, the
  kernel and the seL4 libraries are left out.

  \<^bold>\<open>Plan.\<close>  Ed25519 is the next component: scalars modulo the group order, points in extended coordinates, then signatures, on the hash and the field
  arithmetic here.
\<close>

section \<open>The relay as a whole\<close>

lemma take_prefix: "xs @ ys = zs \<Longrightarrow> take n xs = take (min n (length xs)) zs"
  by (auto simp: min_def)

text \<open>
  Property C1 (functional): Encrypt and Decrypt with the same channel key form a relay.  When well-formed messages arrive byte by byte at an idle
  Encrypt, whose counter has room for their blocks, the frames it writes make an idle Decrypt write out the same messages, in order and unchanged,
  all of them but those that end in the last 126 bytes of the stream, which wait in the two queues.
\<close>

theorem relay_delivers_messages:
  assumes enc: "enc_inv raw st" "queue_contents (e_queue st) = []" "idle (e_rx st) (e_status st)"
    and dec: "dec_inv raw dt" "queue_contents (dc_queue dt) = []" "idle (dc_rx dt) (dc_status dt)" "280 \<le> length (dc_buf dt)"
    and ms: "\<forall>m \<in> set ms. wf_frame m" "map snd cs = concat (map send_bytes ms)" "\<forall>uc \<in> set cs. message_sizes (fst (fst uc))"
    and room: "unat (ctr (symkey_chan2 st)) + length cs div 64 < UINT32_MAX - 15"
  shows "\<exists>frames st' k dt'. encrypt_run al cs st = (frames, st') \<and>
    decrypt_frames al' (map (drop 2) frames) dt = (map send_bytes (take k ms), dt') \<and> k \<le> length ms \<and>
    (k < length ms \<longrightarrow> length (concat (map send_bytes ms)) < length (concat (map send_bytes (take (Suc k) ms))) + 126)"
proof -
  let ?bs = "concat (map send_bytes ms)" and ?c = "unat (ctr (symkey_chan2 st))"
  let ?f = "gec_frames raw ?c ?bs"
  have par: "concat (map send_bytes (parsed (e_rx st, e_status st) cs)) = ?bs" using parsed_messages[OF enc(3) ms(1,2)] by simp
  have "length cs = length ?bs" using ms(2) by (metis length_map)
  then obtain st' where e: "encrypt_run al cs st = (?f, st')"
    using encrypt_run_val[OF enc(1) ms(3), of ?bs al] par enc(2) room by auto
  define xs where "xs = concat (map (accepted raw \<circ> drop 2) ?f)"
  have xs: "xs @ gec_rest ?bs = ?bs" "\<forall>f \<in> set ?f. length (drop 2 f) = 80" using accepted_frames[of raw ?c ?bs] by (simp_all add: xs_def)
  obtain n q k pt where d: "decrypt_frames al' (map (drop 2) ?f) dt =
      (fst (dec_feed (take n xs) dt), snd (dec_feed (take n xs) dt)\<lparr>symkey_chan1 := k, dc_pt := pt, dc_queue := q\<rparr>)"
    "length (drop n xs) < 64"
    using decrypt_frames_val[OF dec(1), of "map (drop 2) ?f" xs al'] xs(2) dec(2) by (auto simp: xs_def)
  define n' where "n' = min n (length xs)"
  have n': "take n xs = take n' ?bs" using take_prefix[OF xs(1)] by (simp add: n'_def)
  have "length ?bs < length xs + 64" using xs(1) length_gec_rest[of ?bs] by (metis length_append nat_add_left_cancel_less)
  then have gap: "length ?bs < n' + 127" using d(2) by (simp add: n'_def)
  obtain j where j: "j \<le> length ms" "fst (dec_feed (take n' ?bs) dt) = map send_bytes (take j ms)"
    "j < length ms \<longrightarrow> n' < length (concat (map send_bytes (take (Suc j) ms)))"
    using dec_messages[OF dec(3) ms(1) dec(4), of n'] by blast
  have "j < length ms \<longrightarrow> length ?bs < length (concat (map send_bytes (take (Suc j) ms))) + 126" using j(3) gap by linarith
  then show ?thesis using e d(1) j(1,2) n' by (intro exI[of _ ?f] exI[of _ st'] exI[of _ j] exI) auto
qed

theorem relay_delivers_messages_witness:
  "\<exists>frames st' k dt'. encrypt_run (True, True, True) (map (Pair (zero_message, zero_status)) (concat (map send_bytes (replicate 20 heartbeat))))
      (demo_encrypt (replicate 24 7)) = (frames, st') \<and>
    decrypt_frames (False, False, False) (map (drop 2) frames) (demo_decrypt (replicate 24 7)) = (map send_bytes (take k (replicate 20 heartbeat)), dt') \<and>
    k \<le> length (replicate 20 heartbeat) \<and>
    (k < length (replicate 20 heartbeat) \<longrightarrow> length (concat (map send_bytes (replicate 20 heartbeat))) <
      length (concat (map send_bytes (take (Suc k) (replicate 20 heartbeat)))) + 126)"
proof (rule relay_delivers_messages[where raw = "replicate 24 7"])
  have "length (send_bytes heartbeat) \<le> 280" using length_send_bytes(2)[of heartbeat] heartbeat_wf by (simp add: wf_frame_def)
  then have "length (concat (map send_bytes (replicate 20 heartbeat))) \<le> 5600" by (simp add: length_concat sum_list_replicate)
  then show "unat (ctr (symkey_chan2 (demo_encrypt (replicate 24 7)))) +
      length (map (Pair (zero_message, zero_status)) (concat (map send_bytes (replicate 20 heartbeat)))) div 64 < UINT32_MAX - 15"
    by (simp add: demo_encrypt_inv)
  show "idle (e_rx (demo_encrypt (replicate 24 7))) (e_status (demo_encrypt (replicate 24 7)))"
    "idle (dc_rx (demo_decrypt (replicate 24 7))) (dc_status (demo_decrypt (replicate 24 7)))"
    "280 \<le> length (dc_buf (demo_decrypt (replicate 24 7)))"
    by (simp_all add: idle_def demo_encrypt_def demo_decrypt_def encrypt_pre_init_def encrypt_key_send_def decrypt_pre_init_def decrypt_key_send_def
        zero_parser_inv) (simp_all add: zero_status_def)
  show "map snd (map (Pair (zero_message, zero_status)) (concat (map send_bytes (replicate 20 heartbeat)))) = concat (map send_bytes (replicate 20 heartbeat))"
    by (simp add: comp_def)
qed (auto simp: demo_encrypt_inv demo_decrypt_inv heartbeat_wf zero_message_sizes)

end
